(* ===== verification/Tilt_Prelude.thy ===== *)
theory Tilt_Prelude
  imports Main "HOL-Library.Word"
begin

text \<open>
  Shared vocabulary of the development: the machine types of the 32-bit SPARC runtime, the
  outcome of a C computation that may abort, the rounding macros of \<open>sparc.h\<close>, and the generic
  lemmas on memories and lists that the component theories use.

  \<^item> \<open>val\<close> is \<open>val_t\<close>/\<open>tag_t\<close>, a 32-bit word as ML memory holds it.
  \<^item> \<open>addr\<close> is the byte address of a C pointer variable (\<open>mem_t\<close>, \<open>ptr_t\<close>, \<open>ploc_t\<close>).  C pointer
    arithmetic has no wrap-around, so an address is a natural number; casting a pointer to \<open>val_t\<close>
    is \<open>word_of_nat\<close>, casting a \<open>val_t\<close> to a pointer is \<open>unat\<close>.  \<open>NULL\<close> is 0.
  \<^item> \<open>memory\<close> gives the word stored at a (word-aligned) byte address.
  \<^item> \<open>fault + 'a\<close> is the outcome of a computation: \<open>Inl\<close> for every way the C code stops without a
    result.
\<close>

type_synonym val = "32 word"
type_synonym addr = nat
type_synonym memory = "addr \<Rightarrow> val"

datatype fault =
    Die string          \<comment> \<open>\<open>DIE(msg)\<close>\<close>
  | AssertFail string   \<comment> \<open>a failed \<open>assert\<close>\<close>
  | Overrun string      \<comment> \<open>a write or read past the end of an allocated array\<close>
  | Spin string         \<comment> \<open>a loop that waits for a condition nobody else will establish\<close>
  | OutOfFuel           \<comment> \<open>the iteration bound of a modelled loop was too small\<close>

type_synonym 'a result = "fault + 'a"

definition NULL :: addr where
  "NULL = 0"

subsection \<open>Sequencing computations that may abort\<close>

definition bindE :: "'a result \<Rightarrow> ('a \<Rightarrow> 'b result) \<Rightarrow> 'b result" where
  "bindE m f = (case m of Inl e \<Rightarrow> Inl e | Inr x \<Rightarrow> f x)"

definition assertE :: "bool \<Rightarrow> string \<Rightarrow> unit result" where
  "assertE b msg = (if b then Inr () else Inl (AssertFail msg))"

lemma bindE_Inl [simp]: "bindE (Inl e) f = Inl e"
  by (simp add: bindE_def)

lemma bindE_Inr [simp]: "bindE (Inr x) f = f x"
  by (simp add: bindE_def)

lemma bindE_eq_Inr [simp]:
  "bindE m f = Inr y \<longleftrightarrow> (\<exists>x. m = Inr x \<and> f x = Inr y)"
  by (cases m) auto

lemma bindE_assoc: "bindE (bindE m f) g = bindE m (\<lambda>x. bindE (f x) g)"
  by (cases m) auto

lemma assertE_True [simp]: "assertE True msg = Inr ()"
  by (simp add: assertE_def)

lemma assertE_eq_Inr [simp]: "assertE b msg = Inr u \<longleftrightarrow> b"
  by (simp add: assertE_def)

lemma bindE_assertE [simp]: "b \<Longrightarrow> bindE (assertE b msg) f = f ()"
  by (simp add: assertE_def)

lemma bindE_cong [fundef_cong]:
  "m = m' \<Longrightarrow> (\<And>x. m' = Inr x \<Longrightarrow> f x = f' x) \<Longrightarrow> bindE m f = bindE m' f'"
  by (cases m') auto

subsection \<open>Rounding\<close>

text \<open>
  \<open>DivideUp\<close>, \<open>DivideDown\<close>, \<open>RoundUp\<close>, \<open>RoundDown\<close> of \<open>sparc.h\<close>.  Every use in the modelled code
  has a non-negative first argument and a positive second one; \<open>cdiv\<close> is C's truncating
  division, and \<open>DivideUp_cdiv\<close> says that the definitions on natural numbers are the macros there.
\<close>

definition cdiv :: "int \<Rightarrow> int \<Rightarrow> int" where
  "cdiv a b = sgn a * sgn b * (\<bar>a\<bar> div \<bar>b\<bar>)"

definition DivideUp :: "nat \<Rightarrow> nat \<Rightarrow> nat" where
  "DivideUp a d = (a + d - 1) div d"

definition DivideDown :: "nat \<Rightarrow> nat \<Rightarrow> nat" where
  "DivideDown a d = a div d"

definition RoundUp :: "nat \<Rightarrow> nat \<Rightarrow> nat" where
  "RoundUp x mult = (x + mult - 1) div mult * mult"

definition RoundDown :: "nat \<Rightarrow> nat \<Rightarrow> nat" where
  "RoundDown x mult = x div mult * mult"

lemma cdiv_nonneg: "0 \<le> a \<Longrightarrow> 0 < b \<Longrightarrow> cdiv a b = a div b"
  by (cases "a = 0") (auto simp: cdiv_def)

lemma DivideUp_cdiv:
  "0 < d \<Longrightarrow> int (DivideUp a d) = cdiv (int a + int d - 1) (int d)"
  by (simp add: DivideUp_def cdiv_nonneg zdiv_int of_nat_diff)

lemma DivideUp_le: "0 < d \<Longrightarrow> a \<le> d * DivideUp a d"
proof -
  assume d: "0 < d"
  have "a + d - 1 = d * ((a + d - 1) div d) + (a + d - 1) mod d"
    by simp
  moreover have "(a + d - 1) mod d \<le> d - 1"
    using d by (metis Suc_pred' less_Suc_eq_le mod_less_divisor)
  ultimately show ?thesis
    using d unfolding DivideUp_def by linarith
qed

lemma DivideUp_less: "0 < d \<Longrightarrow> d * DivideUp a d < a + d"
proof -
  assume d: "0 < d"
  have "d * ((a + d - 1) div d) \<le> a + d - 1"
    by simp
  then show ?thesis
    using d unfolding DivideUp_def by linarith
qed

lemma DivideUp_0 [simp]: "0 < d \<Longrightarrow> DivideUp 0 d = 0"
  by (simp add: DivideUp_def)

lemma RoundUp_DivideUp: "RoundUp x m = DivideUp x m * m"
  by (simp add: RoundUp_def DivideUp_def)

lemma RoundUp_ge: "0 < m \<Longrightarrow> x \<le> RoundUp x m"
  using DivideUp_le [of m x] by (simp add: RoundUp_DivideUp mult.commute)

lemma RoundUp_less: "0 < m \<Longrightarrow> RoundUp x m < x + m"
  using DivideUp_less [of m x] by (simp add: RoundUp_DivideUp mult.commute)

lemma RoundUp_dvd [simp]: "m dvd RoundUp x m"
  by (simp add: RoundUp_def)

lemma RoundUp_multiple: "0 < m \<Longrightarrow> m dvd x \<Longrightarrow> RoundUp x m = x"
proof -
  assume m: "0 < m" and "m dvd x"
  then obtain k where x: "x = m * k" by blast
  have "(k * m + (m - 1)) div m = k"
    by (subst div_mult_self3) (use m in auto)
  moreover have "m * k + m - 1 = k * m + (m - 1)"
    using m by (simp add: mult.commute)
  ultimately show ?thesis by (simp add: RoundUp_def x)
qed

lemma RoundUp_mono: "0 < m \<Longrightarrow> x \<le> y \<Longrightarrow> RoundUp x m \<le> RoundUp y m"
  by (simp add: RoundUp_def div_le_mono)

lemma RoundUp_0 [simp]: "0 < m \<Longrightarrow> RoundUp 0 m = 0"
  by (simp add: RoundUp_def)

subsection \<open>Pointers as words\<close>

lemma unat_of_addr [simp]:
  "p < 2 ^ 32 \<Longrightarrow> unat (word_of_nat p :: val) = p"
  by (simp add: unat_of_nat take_bit_eq_mod)

lemma of_addr_inj:
  "p < 2 ^ 32 \<Longrightarrow> q < 2 ^ 32 \<Longrightarrow> (word_of_nat p :: val) = word_of_nat q \<longleftrightarrow> p = q"
  by (metis unat_of_addr)

lemma unat_val_less [simp]: "unat (v :: val) < 4294967296"
  using unsigned_less [of v] by simp

lemma of_nat_unat_val [simp]: "word_of_nat (unat v) = (v :: val)"
  by simp

end
