(* ===== verification/Rooms.thy ===== *)
theory Rooms
  imports Tilt_Prelude
begin

text \<open>
  Room synchronization, \<open>Runtime/sparc/rooms.c\<close>: any number of processors may be in one room at a
  time, never in two different ones.  The shared state is the counters \<open>cur\<close>, \<open>wait\<close>, \<open>prev\<close> per
  room and the open room \<open>which\<close> (-1 for none).  Each processor runs \<open>enterRoom\<close>, \<open>exitRoom\<close> and
  \<open>changeRoom\<close>; the program counter \<open>pc\<close> names the next access to shared memory, and one rule of
  the step relation \<open>rstep\<close> performs one access (a read, a write, \<open>FetchAndAdd\<close> or
  \<open>CompareAndSwap\<close>), so every interleaving is covered.  \<open>exitRoom\<close> and \<open>changeRoom\<close> share their
  middle part; the argument \<open>c\<close> of the exit counters is \<open>None\<close> for \<open>exitRoom\<close> and \<open>Some (i, old)\<close>
  for \<open>changeRoom(r, i)\<close> with ticket \<open>old\<close>.  A finalizer may return anything and the logger does not
  touch the counters.  The counters are natural numbers: the C \<open>long\<close>s are never reset, so the model
  is the code for the first \<open>2 ^ 31 - 1\<close> entries of a room.
\<close>

subsection \<open>State and steps\<close>

datatype pc =
    Outside int                               \<comment> \<open>in no room; the value returned by the last exit\<close>
  | EnterTest nat nat                         \<comment> \<open>\<open>while (oldWait > r->cur[i])\<close>\<close>
  | EnterCAS nat nat                          \<comment> \<open>\<open>CompareAndSwap(&r->which,-1,i)\<close>\<close>
  | EnterRead nat nat                         \<comment> \<open>read \<open>wait[i]\<close>\<close>
  | EnterWrite nat nat nat                    \<comment> \<open>write it to \<open>cur[i]\<close>\<close>
  | EnterDone nat nat                         \<comment> \<open>\<open>assert(r->which == i)\<close>\<close>
  | Inside nat int                            \<comment> \<open>in room i; the value returned by \<open>changeRoom\<close>\<close>
  | ChWait nat nat                            \<comment> \<open>\<open>changeRoom\<close>: \<open>FetchAndAdd(&r->wait[i],1)\<close>\<close>
  | ExitFAA "(nat \<times> nat) option" nat          \<comment> \<open>\<open>FetchAndAdd(&r->prev[wh],1)\<close>\<close>
  | ExitTest "(nat \<times> nat) option" nat nat     \<comment> \<open>\<open>if (j == r->cur[wh])\<close>\<close>
  | ExitScan "(nat \<times> nat) option" nat nat nat int   \<comment> \<open>the loop over the rooms: wh, k, newWh\<close>
  | ExitWhich "(nat \<times> nat) option" nat int    \<comment> \<open>\<open>r->which = newWh\<close>\<close>
  | ExitRead "(nat \<times> nat) option" nat int     \<comment> \<open>read \<open>wait[newWh]\<close>\<close>
  | ExitCur "(nat \<times> nat) option" nat nat int  \<comment> \<open>write it to \<open>cur[newWh]\<close>\<close>
  | ExitClear int                             \<comment> \<open>\<open>r->which = -1\<close>\<close>
  | ChSpin nat nat int                        \<comment> \<open>\<open>changeRoom\<close>: \<open>while (oldWait > r->cur[i])\<close>\<close>
  | Died                                      \<comment> \<open>a failed assertion, \<open>DIE\<close> or a bad index\<close>

record rooms =
  rsize :: nat
  rproc :: nat                 \<comment> \<open>the number of processors\<close>
  rfinal :: "nat \<Rightarrow> bool"      \<comment> \<open>the rooms with a finalizer\<close>
  rcur :: "nat \<Rightarrow> nat"
  rwait :: "nat \<Rightarrow> nat"
  rprev :: "nat \<Rightarrow> nat"
  rwhich :: int
  rpcs :: "nat \<Rightarrow> pc"

definition createRooms :: "nat \<Rightarrow> nat \<Rightarrow> (nat \<Rightarrow> bool) \<Rightarrow> rooms" where
  \<comment> \<open>with the exit codes assigned by \<open>assignExitCode\<close> before use\<close>
  "createRooms n procs fin =
     \<lparr>rsize = n, rproc = procs, rfinal = fin, rcur = (\<lambda>_. 0), rwait = (\<lambda>_. 0), rprev = (\<lambda>_. 0),
      rwhich = -1, rpcs = (\<lambda>_. Outside 0)\<rparr>"

definition goto :: "nat \<Rightarrow> pc \<Rightarrow> rooms \<Rightarrow> rooms" where
  "goto p x s = s\<lparr>rpcs := (rpcs s)(p := x)\<rparr>"

definition leave :: "(nat \<times> nat) option \<Rightarrow> int \<Rightarrow> pc" where
  \<comment> \<open>where the exit code continues: \<open>exitRoom\<close> returns, \<open>changeRoom\<close> waits for its room\<close>
  "leave c res = (case c of None \<Rightarrow> Outside res | Some (i, old) \<Rightarrow> ChSpin i old res)"

inductive rstep :: "rooms \<Rightarrow> rooms \<Rightarrow> bool" where
  enter_call: "p < rproc s \<Longrightarrow> rpcs s p = Outside r \<Longrightarrow> i < rsize s \<Longrightarrow>
    rstep s (goto p (EnterTest i (rwait s i + 1)) (s\<lparr>rwait := (rwait s)(i := rwait s i + 1)\<rparr>))"
| enter_wait: "p < rproc s \<Longrightarrow> rpcs s p = EnterTest i old \<Longrightarrow> old > rcur s i \<Longrightarrow>
    rstep s (goto p (EnterCAS i old) s)"
| enter_in: "p < rproc s \<Longrightarrow> rpcs s p = EnterTest i old \<Longrightarrow> \<not> old > rcur s i \<Longrightarrow>
    rstep s (goto p (EnterDone i old) s)"
| cas_win: "p < rproc s \<Longrightarrow> rpcs s p = EnterCAS i old \<Longrightarrow> rwhich s = -1 \<Longrightarrow>
    rstep s (goto p (EnterRead i old) (s\<lparr>rwhich := int i\<rparr>))"
| cas_lose: "p < rproc s \<Longrightarrow> rpcs s p = EnterCAS i old \<Longrightarrow> rwhich s \<noteq> -1 \<Longrightarrow>
    rstep s (goto p (EnterTest i old) s)"
| enter_read: "p < rproc s \<Longrightarrow> rpcs s p = EnterRead i old \<Longrightarrow>
    rstep s (goto p (EnterWrite i old (rwait s i)) s)"
| enter_write: "p < rproc s \<Longrightarrow> rpcs s p = EnterWrite i old v \<Longrightarrow>
    rstep s (goto p (EnterDone i old) (s\<lparr>rcur := (rcur s)(i := v)\<rparr>))"
| enter_done: "p < rproc s \<Longrightarrow> rpcs s p = EnterDone i old \<Longrightarrow>
    rstep s (goto p (if rwhich s = int i then Inside i 0 else Died) s)"
| exit_call: "p < rproc s \<Longrightarrow> rpcs s p = Inside i r \<Longrightarrow>
    rstep s (goto p (if rwhich s < 0 then Died else ExitFAA None (nat (rwhich s))) s)"
| change_call: "p < rproc s \<Longrightarrow> rpcs s p = Inside i r \<Longrightarrow> i2 < rsize s \<Longrightarrow>
    rstep s (goto p (if rwhich s < 0 then Died else ChWait (nat (rwhich s)) i2) s)"
| change_wait: "p < rproc s \<Longrightarrow> rpcs s p = ChWait wh i \<Longrightarrow>
    rstep s (goto p (ExitFAA (Some (i, rwait s i + 1)) wh) (s\<lparr>rwait := (rwait s)(i := rwait s i + 1)\<rparr>))"
| exit_faa: "p < rproc s \<Longrightarrow> rpcs s p = ExitFAA c wh \<Longrightarrow>
    rstep s (goto p (ExitTest c wh (rprev s wh + 1)) (s\<lparr>rprev := (rprev s)(wh := rprev s wh + 1)\<rparr>))"
| exit_last: "p < rproc s \<Longrightarrow> rpcs s p = ExitTest c wh j \<Longrightarrow> j = rcur s wh \<Longrightarrow>
    (\<not> rfinal s wh \<Longrightarrow> res = 1) \<Longrightarrow>
    rstep s (goto p (ExitScan c wh 0 wh res) s)"
| exit_notlast: "p < rproc s \<Longrightarrow> rpcs s p = ExitTest c wh j \<Longrightarrow> j \<noteq> rcur s wh \<Longrightarrow>
    rstep s (goto p (leave c 0) s)"
| scan_hit: "p < rproc s \<Longrightarrow> rpcs s p = ExitScan c wh k n res \<Longrightarrow> k < rsize s \<Longrightarrow>
    n' = (n + 1) mod rsize s \<Longrightarrow> rcur s n' < rwait s n' \<Longrightarrow>
    rstep s (goto p (ExitWhich c n' res) s)"
| scan_miss: "p < rproc s \<Longrightarrow> rpcs s p = ExitScan c wh k n res \<Longrightarrow> k < rsize s \<Longrightarrow>
    n' = (n + 1) mod rsize s \<Longrightarrow> \<not> rcur s n' < rwait s n' \<Longrightarrow>
    rstep s (goto p (ExitScan c wh (k + 1) n' res) s)"
| scan_end: "p < rproc s \<Longrightarrow> rpcs s p = ExitScan c wh k n res \<Longrightarrow> \<not> k < rsize s \<Longrightarrow>
    rstep s (goto p (if c = None then ExitClear res else Died) s)"
| exit_which: "p < rproc s \<Longrightarrow> rpcs s p = ExitWhich c n res \<Longrightarrow>
    rstep s (goto p (ExitRead c n res) (s\<lparr>rwhich := int n\<rparr>))"
| exit_read: "p < rproc s \<Longrightarrow> rpcs s p = ExitRead c n res \<Longrightarrow>
    rstep s (goto p (ExitCur c n (rwait s n) res) s)"
| exit_cur: "p < rproc s \<Longrightarrow> rpcs s p = ExitCur c n v res \<Longrightarrow>
    rstep s (goto p (leave c res) (s\<lparr>rcur := (rcur s)(n := v)\<rparr>))"
| exit_clear: "p < rproc s \<Longrightarrow> rpcs s p = ExitClear res \<Longrightarrow>
    rstep s (goto p (Outside res) (s\<lparr>rwhich := -1\<rparr>))"
| change_in: "p < rproc s \<Longrightarrow> rpcs s p = ChSpin i old r \<Longrightarrow> \<not> old > rcur s i \<Longrightarrow>
    rstep s (goto p (Inside i r) s)"

inductive rooms_reachable :: "rooms \<Rightarrow> rooms \<Rightarrow> bool" for s0 :: rooms where
  start: "rooms_reachable s0 s0"
| step: "rooms_reachable s0 s \<Longrightarrow> rstep s t \<Longrightarrow> rooms_reachable s0 t"

subsection \<open>Tickets, members and the baton\<close>

text \<open>
  \<open>ticket i x\<close> is the ticket for room \<open>i\<close> that a processor at \<open>x\<close> waits with (0 for none),
  \<open>chticket\<close> the same for tickets drawn by \<open>changeRoom\<close> only, \<open>within i x\<close> says that it counts as
  being in room \<open>i\<close>.  Between the last exit from a room and the opening of the next, one processor
  holds the baton: only it writes \<open>which\<close> and \<open>cur\<close>.
\<close>

definition cticket :: "nat \<Rightarrow> (nat \<times> nat) option \<Rightarrow> nat" where
  "cticket i c = (case c of Some (i', old) \<Rightarrow> (if i' = i then old else 0) | None \<Rightarrow> 0)"

fun chticket :: "nat \<Rightarrow> pc \<Rightarrow> nat" where
  "chticket i (ExitFAA c wh) = cticket i c"
| "chticket i (ExitTest c wh j) = cticket i c"
| "chticket i (ExitScan c wh k n res) = cticket i c"
| "chticket i (ExitWhich c n res) = cticket i c"
| "chticket i (ExitRead c n res) = cticket i c"
| "chticket i (ExitCur c n v res) = cticket i c"
| "chticket i (ChSpin i' old r) = (if i' = i then old else 0)"
| "chticket i _ = 0"

fun ticket :: "nat \<Rightarrow> pc \<Rightarrow> nat" where
  "ticket i (EnterTest i' old) = (if i' = i then old else 0)"
| "ticket i (EnterCAS i' old) = (if i' = i then old else 0)"
| "ticket i (EnterRead i' old) = (if i' = i then old else 0)"
| "ticket i (EnterWrite i' old v) = (if i' = i then old else 0)"
| "ticket i (EnterDone i' old) = (if i' = i then old else 0)"
| "ticket i x = chticket i x"

fun within :: "nat \<Rightarrow> pc \<Rightarrow> bool" where
  "within i (Inside i' r) = (i' = i)"
| "within i (ChWait wh i') = (wh = i)"
| "within i (ExitFAA c wh) = (wh = i)"
| "within i _ = False"

fun baton :: "(nat \<Rightarrow> nat) \<Rightarrow> pc \<Rightarrow> bool" where
  "baton cr (EnterRead i old) = True"
| "baton cr (EnterWrite i old v) = True"
| "baton cr (ExitTest c wh j) = (j = cr wh)"
| "baton cr (ExitScan c wh k n res) = True"
| "baton cr (ExitWhich c n res) = True"
| "baton cr (ExitRead c n res) = True"
| "baton cr (ExitCur c n v res) = True"
| "baton cr (ExitClear res) = True"
| "baton cr _ = False"

subsection \<open>Counting processors\<close>

definition cnt :: "(pc \<Rightarrow> bool) \<Rightarrow> nat \<Rightarrow> (nat \<Rightarrow> pc) \<Rightarrow> nat" where
  "cnt Q N f = card {p. p < N \<and> Q (f p)}"

lemma cnt_upd:
  assumes "p < N"
  shows "cnt Q N (f(p := x)) + of_bool (Q (f p)) = cnt Q N f + of_bool (Q x)"
proof -
  let ?R = "{q. q < N \<and> q \<noteq> p \<and> Q (f q)}"
  have fin: "finite ?R" and notin: "p \<notin> ?R" by auto
  have "{q. q < N \<and> Q ((f(p := x)) q)} = (if Q x then insert p ?R else ?R)"
    "{q. q < N \<and> Q (f q)} = (if Q (f p) then insert p ?R else ?R)"
    using assms by auto
  then show ?thesis
    using fin notin by (auto simp: cnt_def)
qed

lemma cnt_same: "Q x = Q (f p) \<Longrightarrow> cnt Q N (f(p := x)) = cnt Q N f"
  unfolding cnt_def by (rule arg_cong [where f = card]) auto

lemma cnt_pos: "p < N \<Longrightarrow> Q (f p) \<Longrightarrow> 0 < cnt Q N f"
  unfolding cnt_def by (subst card_gt_0_iff) auto

lemma cnt_pos_ex: "0 < cnt Q N f \<Longrightarrow> \<exists>p < N. Q (f p)"
  unfolding cnt_def by (subst (asm) card_gt_0_iff) auto

lemma cnt_disj:
  "(\<And>x. Q x \<longleftrightarrow> A x \<or> B x) \<Longrightarrow> (\<And>x. \<not> (A x \<and> B x)) \<Longrightarrow> cnt Q N f = cnt A N f + cnt B N f"
proof -
  assume q: "\<And>x. Q x \<longleftrightarrow> A x \<or> B x" and d: "\<And>x. \<not> (A x \<and> B x)"
  have "{p. p < N \<and> Q (f p)} = {p. p < N \<and> A (f p)} \<union> {p. p < N \<and> B (f p)}"
    using q by blast
  moreover have "{p. p < N \<and> A (f p)} \<inter> {p. p < N \<and> B (f p)} = {}"
    using d by blast
  ultimately show ?thesis
    unfolding cnt_def by (simp add: card_Un_disjoint)
qed

lemma cnt_none: "(\<And>p. p < N \<Longrightarrow> \<not> Q (f p)) \<Longrightarrow> cnt Q N f = 0"
  using cnt_pos_ex gr0I by blast

subsection \<open>The counting invariant\<close>

text \<open>
  \<open>counts_ok\<close>: the pending tickets of a room are exactly the numbers above \<open>cur\<close> up to \<open>wait\<close>, and
  the entries admitted so far (\<open>cur\<close>) are those that left (\<open>prev\<close>), those in the room and those
  admitted that have not noticed it yet.
\<close>

definition counts_ok ::
    "nat \<Rightarrow> (nat \<Rightarrow> nat) \<Rightarrow> (nat \<Rightarrow> nat) \<Rightarrow> (nat \<Rightarrow> nat) \<Rightarrow> (nat \<Rightarrow> pc) \<Rightarrow> bool" where
  "counts_ok N cr wt pv f \<longleftrightarrow>
     (\<forall>i. cr i \<le> wt i) \<and>
     (\<forall>i c. cr i \<le> c \<longrightarrow> cnt (\<lambda>x. c < ticket i x) N f = wt i - c) \<and>
     (\<forall>i. pv i + cnt (within i) N f + cnt (\<lambda>x. 0 < ticket i x \<and> ticket i x \<le> cr i) N f = cr i)"

lemma counts_okI:
  assumes "\<And>i. cr i \<le> wt i" "\<And>i c. cr i \<le> c \<Longrightarrow> cnt (\<lambda>x. c < ticket i x) N f = wt i - c"
    "\<And>i. pv i + cnt (within i) N f + cnt (\<lambda>x. 0 < ticket i x \<and> ticket i x \<le> cr i) N f = cr i"
  shows "counts_ok N cr wt pv f"
  using assms by (auto simp: counts_ok_def)

lemma counts_okD:
  assumes "counts_ok N cr wt pv f"
  shows "cr i \<le> wt i" "cr i \<le> c \<Longrightarrow> cnt (\<lambda>x. c < ticket i x) N f = wt i - c"
    "pv i + cnt (within i) N f + cnt (\<lambda>x. 0 < ticket i x \<and> ticket i x \<le> cr i) N f = cr i"
  using assms by (auto simp: counts_ok_def)

lemma counts_within: "counts_ok N cr wt pv f \<Longrightarrow> p < N \<Longrightarrow> within i (f p) \<Longrightarrow> pv i < cr i"
  using counts_okD(3) [of N cr wt pv f i] cnt_pos [of p N "within i" f] by simp

lemma counts_admitted:
  "counts_ok N cr wt pv f \<Longrightarrow> p < N \<Longrightarrow> 0 < ticket i (f p) \<Longrightarrow> ticket i (f p) \<le> cr i \<Longrightarrow> pv i < cr i"
  using counts_okD(3) [of N cr wt pv f i]
    cnt_pos [of p N "\<lambda>x. 0 < ticket i x \<and> ticket i x \<le> cr i" f] by simp

lemma counts_ticket_le:
  assumes "counts_ok N cr wt pv f" and "p < N"
  shows "ticket i (f p) \<le> wt i"
proof (rule ccontr)
  assume "\<not> ?thesis"
  then have "0 < cnt (\<lambda>x. wt i < ticket i x) N f"
    using assms(2) by (intro cnt_pos) auto
  then show False
    using counts_okD(2) [OF assms(1) counts_okD(1) [OF assms(1), of i]] by simp
qed

lemma counts_prev_le: "counts_ok N cr wt pv f \<Longrightarrow> pv i \<le> cr i"
  using counts_okD(3) [of N cr wt pv f i] by simp

lemma counts_occupied:
  assumes "counts_ok N cr wt pv f" and "pv i < cr i"
  shows "\<exists>p < N. within i (f p) \<or> 0 < ticket i (f p) \<and> ticket i (f p) \<le> cr i"
proof -
  have "0 < cnt (within i) N f \<or> 0 < cnt (\<lambda>x. 0 < ticket i x \<and> ticket i x \<le> cr i) N f"
    using counts_okD(3) [OF assms(1), of i] assms(2) by linarith
  then show ?thesis
    by (auto dest!: cnt_pos_ex)
qed

lemma counts_same:
  assumes "counts_ok N cr wt pv f" and "\<And>i. ticket i x = ticket i (f p)" "\<And>i. within i x = within i (f p)"
  shows "counts_ok N cr wt pv (f(p := x))"
  using assms by (simp add: counts_ok_def cnt_same)

lemma counts_draw:
  assumes ok: "counts_ok N cr wt pv f" and p: "p < N"
    and new: "ticket i x = wt i + 1" "ticket i (f p) = 0"
    and rest: "\<And>i'. i' \<noteq> i \<Longrightarrow> ticket i' x = ticket i' (f p)" "\<And>i'. within i' x = within i' (f p)"
  shows "counts_ok N cr (wt(i := wt i + 1)) pv (f(p := x))"
proof (rule counts_okI)
  show "cr i' \<le> (wt(i := wt i + 1)) i'" for i'
    using counts_okD(1) [OF ok, of i'] by (cases "i' = i") auto
  show "cnt (\<lambda>x. c < ticket i' x) N (f(p := x)) = (wt(i := wt i + 1)) i' - c" if "cr i' \<le> c" for i' c
  proof (cases "i' = i")
    case True
    show ?thesis
      using cnt_upd [OF p, of "\<lambda>x. c < ticket i x" f x] counts_okD(2) [OF ok that] new True
      by (auto split: if_splits)
  next
    case False
    then show ?thesis
      using counts_okD(2) [OF ok that] rest(1) by (simp add: cnt_same)
  qed
  show "pv i' + cnt (within i') N (f(p := x))
      + cnt (\<lambda>x. 0 < ticket i' x \<and> ticket i' x \<le> cr i') N (f(p := x)) = cr i'" for i'
  proof -
    have "cnt (\<lambda>x. 0 < ticket i' x \<and> ticket i' x \<le> cr i') N (f(p := x))
        = cnt (\<lambda>x. 0 < ticket i' x \<and> ticket i' x \<le> cr i') N f"
      using new rest(1) counts_okD(1) [OF ok, of i] by (intro cnt_same) (cases "i' = i"; auto)
    then show ?thesis
      using counts_okD(3) [OF ok, of i'] rest(2) by (simp add: cnt_same)
  qed
qed

lemma counts_enter:
  assumes ok: "counts_ok N cr wt pv f" and p: "p < N"
    and old: "0 < ticket i (f p)" "ticket i (f p) \<le> cr i" "\<not> within i (f p)"
    and new: "ticket i x = 0" "within i x"
    and rest: "\<And>i'. i' \<noteq> i \<Longrightarrow> ticket i' x = ticket i' (f p) \<and> within i' x = within i' (f p)"
  shows "counts_ok N cr wt pv (f(p := x))"
proof (rule counts_okI)
  show "cr i' \<le> wt i'" for i'
    by (rule counts_okD(1) [OF ok])
  show "cnt (\<lambda>x. c < ticket i' x) N (f(p := x)) = wt i' - c" if "cr i' \<le> c" for i' c
    using counts_okD(2) [OF ok that] old new rest that by (cases "i' = i") (simp_all add: cnt_same)
  show "pv i' + cnt (within i') N (f(p := x))
      + cnt (\<lambda>x. 0 < ticket i' x \<and> ticket i' x \<le> cr i') N (f(p := x)) = cr i'" for i'
  proof (cases "i' = i")
    case True
    then show ?thesis
      using cnt_upd [OF p, of "within i" f x] counts_okD(3) [OF ok, of i] old new
        cnt_upd [OF p, of "\<lambda>x. 0 < ticket i x \<and> ticket i x \<le> cr i" f x] by auto
  next
    case False
    then show ?thesis
      using counts_okD(3) [OF ok, of i'] rest by (simp add: cnt_same)
  qed
qed

lemma counts_leave:
  assumes ok: "counts_ok N cr wt pv f" and p: "p < N"
    and old: "within i (f p)" and new: "\<not> within i x"
    and rest: "\<And>i'. i' \<noteq> i \<Longrightarrow> within i' x = within i' (f p)" "\<And>i'. ticket i' x = ticket i' (f p)"
  shows "counts_ok N cr wt (pv(i := pv i + 1)) (f(p := x))"
proof (rule counts_okI)
  show "cr i' \<le> wt i'" for i'
    by (rule counts_okD(1) [OF ok])
  show "cnt (\<lambda>x. c < ticket i' x) N (f(p := x)) = wt i' - c" if "cr i' \<le> c" for i' c
    using counts_okD(2) [OF ok that] rest by (simp add: cnt_same)
  show "(pv(i := pv i + 1)) i' + cnt (within i') N (f(p := x))
      + cnt (\<lambda>x. 0 < ticket i' x \<and> ticket i' x \<le> cr i') N (f(p := x)) = cr i'" for i'
    using cnt_upd [OF p, of "within i" f x] counts_okD(3) [OF ok, of i'] old new rest
    by (cases "i' = i") (simp_all add: cnt_same)
qed

lemma counts_open:
  assumes ok: "counts_ok N cr wt pv f"
    and room: "pv i = cr i" "cr i < v" "v \<le> wt i"
    and same: "\<And>i'. ticket i' x = ticket i' (f p)" "\<And>i'. within i' x = within i' (f p)"
  shows "counts_ok N (cr(i := v)) wt pv (f(p := x))"
proof (rule counts_okI)
  show "(cr(i := v)) i' \<le> wt i'" for i'
    using counts_okD(1) [OF ok, of i'] room by simp
  show "cnt (\<lambda>x. c < ticket i' x) N (f(p := x)) = wt i' - c" if "(cr(i := v)) i' \<le> c" for i' c
  proof -
    have "cr i' \<le> c"
      using that room by (cases "i' = i") simp_all
    then show ?thesis
      using counts_okD(2) [OF ok] same by (simp add: cnt_same)
  qed
  have above: "cnt (\<lambda>x. c < ticket i x) N f = wt i - c" if "cr i \<le> c" for c
    using counts_okD(2) [OF ok that] .
  have "cnt (\<lambda>x. cr i < ticket i x) N f
      = cnt (\<lambda>x. cr i < ticket i x \<and> ticket i x \<le> v) N f + cnt (\<lambda>x. v < ticket i x) N f"
    using room by (intro cnt_disj) auto
  then have mid: "cnt (\<lambda>x. cr i < ticket i x \<and> ticket i x \<le> v) N f = v - cr i"
    using above [of "cr i"] above [of v] room by simp
  have zero: "cnt (within i) N f = 0" "cnt (\<lambda>x. 0 < ticket i x \<and> ticket i x \<le> cr i) N f = 0"
    using counts_okD(3) [OF ok, of i] room by simp_all
  have "cnt (\<lambda>x. 0 < ticket i x \<and> ticket i x \<le> v) N f
      = cnt (\<lambda>x. 0 < ticket i x \<and> ticket i x \<le> cr i) N f + cnt (\<lambda>x. cr i < ticket i x \<and> ticket i x \<le> v) N f"
    using room by (intro cnt_disj) auto
  then have "pv i + cnt (within i) N f + cnt (\<lambda>x. 0 < ticket i x \<and> ticket i x \<le> v) N f = v"
    using mid zero room by simp
  then show "pv i' + cnt (within i') N (f(p := x))
      + cnt (\<lambda>x. 0 < ticket i' x \<and> ticket i' x \<le> (cr(i := v)) i') N (f(p := x)) = (cr(i := v)) i'" for i'
    using counts_okD(3) [OF ok, of i'] same by (cases "i' = i") (simp_all add: cnt_same)
qed

subsection \<open>The control invariant\<close>

definition quiet :: "nat \<Rightarrow> (nat \<Rightarrow> nat) \<Rightarrow> (nat \<Rightarrow> pc) \<Rightarrow> nat \<Rightarrow> bool" where
  \<comment> \<open>no processor still waits for room \<open>i\<close> inside \<open>changeRoom\<close>\<close>
  "quiet N cr f i \<longleftrightarrow> (\<forall>p < N. chticket i (f p) \<le> cr i)"

definition cdrawn :: "(nat \<times> nat) option \<Rightarrow> bool" where
  "cdrawn c \<longleftrightarrow> (case c of Some (i, old) \<Rightarrow> 0 < old | None \<Rightarrow> True)"

definition cpending :: "(nat \<Rightarrow> nat) \<Rightarrow> (nat \<times> nat) option \<Rightarrow> bool" where
  "cpending cr c \<longleftrightarrow> (case c of Some (i, old) \<Rightarrow> cr i < old | None \<Rightarrow> True)"

definition cinside :: "nat \<Rightarrow> (nat \<times> nat) option \<Rightarrow> bool" where
  "cinside n c \<longleftrightarrow> (case c of Some (i, old) \<Rightarrow> i < n | None \<Rightarrow> True)"

fun pcok :: "nat \<Rightarrow> int \<Rightarrow> (nat \<Rightarrow> nat) \<Rightarrow> (nat \<Rightarrow> nat) \<Rightarrow> (nat \<Rightarrow> nat) \<Rightarrow> (nat \<Rightarrow> bool) \<Rightarrow> pc \<Rightarrow> bool" where
  "pcok n w cr wt pv qu (Outside r) = True"
| "pcok n w cr wt pv qu (EnterTest i old) = (i < n \<and> 0 < old)"
| "pcok n w cr wt pv qu (EnterCAS i old) = (i < n \<and> 0 < old)"
| "pcok n w cr wt pv qu (EnterRead i old) = (i < n \<and> w = int i \<and> cr i < old)"
| "pcok n w cr wt pv qu (EnterWrite i old v) = (i < n \<and> w = int i \<and> cr i < v \<and> v \<le> wt i \<and> 0 < old \<and> old \<le> v)"
| "pcok n w cr wt pv qu (EnterDone i old) = (i < n \<and> 0 < old \<and> old \<le> cr i)"
| "pcok n w cr wt pv qu (Inside i r) = (i < n)"
| "pcok n w cr wt pv qu (ChWait wh i) = (wh < n \<and> i < n)"
| "pcok n w cr wt pv qu (ExitFAA c wh) = (wh < n \<and> cinside n c \<and> cdrawn c \<and> cpending cr c)"
| "pcok n w cr wt pv qu (ExitTest c wh j) = (wh < n \<and> cinside n c \<and> cdrawn c \<and> j \<le> pv wh \<and>
     (j = cr wh \<longrightarrow> w = int wh \<and> cpending cr c))"
| "pcok n w cr wt pv qu (ExitScan c wh k m res) = (wh < n \<and> cinside n c \<and> cdrawn c \<and> cpending cr c \<and>
     w = int wh \<and> k \<le> n \<and> m = (wh + k) mod n \<and> (\<forall>l. 0 < l \<and> l \<le> k \<longrightarrow> qu ((wh + l) mod n)))"
| "pcok n w cr wt pv qu (ExitWhich c m res) = (m < n \<and> cinside n c \<and> cdrawn c \<and> cr m < wt m)"
| "pcok n w cr wt pv qu (ExitRead c m res) = (m < n \<and> cinside n c \<and> cdrawn c \<and> w = int m \<and> cr m < wt m)"
| "pcok n w cr wt pv qu (ExitCur c m v res) = (m < n \<and> cinside n c \<and> cdrawn c \<and> w = int m \<and> cr m < v \<and> v \<le> wt m)"
| "pcok n w cr wt pv qu (ExitClear res) = (\<forall>i < n. qu i)"
| "pcok n w cr wt pv qu (ChSpin i old r) = (i < n \<and> 0 < old)"
| "pcok n w cr wt pv qu Died = False"

definition ctl_ok :: "nat \<Rightarrow> nat \<Rightarrow> int \<Rightarrow> (nat \<Rightarrow> nat) \<Rightarrow> (nat \<Rightarrow> nat) \<Rightarrow> (nat \<Rightarrow> nat) \<Rightarrow> (nat \<Rightarrow> pc) \<Rightarrow> bool" where
  "ctl_ok n N w cr wt pv f \<longleftrightarrow>
     (\<forall>p < N. pcok n w cr wt pv (quiet N cr f) (f p)) \<and>
     (\<forall>p < N. \<forall>q < N. baton cr (f p) \<longrightarrow> baton cr (f q) \<longrightarrow> p = q) \<and>
     (\<forall>p < N. baton cr (f p) \<longrightarrow> 0 \<le> w \<and> (\<forall>i. cr i = pv i)) \<and>
     ((\<forall>p < N. \<not> baton cr (f p)) \<longrightarrow> (\<forall>i. if w = int i then pv i < cr i else cr i = pv i)) \<and>
     (w = -1 \<longrightarrow> (\<forall>i. quiet N cr f i)) \<and> (w = -1 \<or> 0 \<le> w \<and> w < int n)"

lemma ctlI:
  assumes "\<And>p. p < N \<Longrightarrow> pcok n w cr wt pv (quiet N cr f) (f p)"
    "\<And>p q. p < N \<Longrightarrow> q < N \<Longrightarrow> baton cr (f p) \<Longrightarrow> baton cr (f q) \<Longrightarrow> p = q"
    "\<And>p. p < N \<Longrightarrow> baton cr (f p) \<Longrightarrow> 0 \<le> w \<and> (\<forall>i. cr i = pv i)"
    "\<And>i. (\<forall>p < N. \<not> baton cr (f p)) \<Longrightarrow> if w = int i then pv i < cr i else cr i = pv i"
    "\<And>i. w = -1 \<Longrightarrow> quiet N cr f i" "w = -1 \<or> 0 \<le> w \<and> w < int n"
  shows "ctl_ok n N w cr wt pv f"
  using assms unfolding ctl_ok_def by blast

lemma ctlD:
  assumes "ctl_ok n N w cr wt pv f"
  shows ctl_pc: "p < N \<Longrightarrow> pcok n w cr wt pv (quiet N cr f) (f p)"
    and ctl_unique: "p < N \<Longrightarrow> q < N \<Longrightarrow> baton cr (f p) \<Longrightarrow> baton cr (f q) \<Longrightarrow> p = q"
    and ctl_baton: "p < N \<Longrightarrow> baton cr (f p) \<Longrightarrow> 0 \<le> w" "p < N \<Longrightarrow> baton cr (f p) \<Longrightarrow> cr i = pv i"
    and ctl_open: "(\<forall>p < N. \<not> baton cr (f p)) \<Longrightarrow> if w = int i then pv i < cr i else cr i = pv i"
    and ctl_quiet: "w = -1 \<Longrightarrow> quiet N cr f i" and ctl_which: "w = -1 \<or> 0 \<le> w \<and> w < int n"
  using assms unfolding ctl_ok_def by blast+

lemma ctl_closed_none: "ctl_ok n N (-1) cr wt pv f \<Longrightarrow> p < N \<Longrightarrow> \<not> baton cr (f p)"
  using ctl_baton(1) by fastforce

text \<open>A room some processor is in is the open room, and nobody holds the baton.\<close>

lemma occupied_open:
  assumes "ctl_ok n N w cr wt pv f" and "pv i < cr i"
  shows "w = int i" "p < N \<Longrightarrow> \<not> baton cr (f p)"
proof -
  have none: "\<not> baton cr (f p)" if "p < N" for p
    using ctl_baton(2) [OF assms(1) that, of i] assms(2) by auto
  then show "p < N \<Longrightarrow> \<not> baton cr (f p)" .
  show "w = int i"
    using ctl_open [OF assms(1), of i] none assms(2) by (auto split: if_splits)
qed

lemma quiet_upd_le:
  "quiet N cr f i \<Longrightarrow> chticket i x \<le> chticket i (f p) \<Longrightarrow> quiet N cr (f(p := x)) i"
  unfolding quiet_def by (metis fun_upd_apply le_trans)

lemma pcok_quiet_mono:
  "pcok n w cr wt pv qu x \<Longrightarrow> (\<And>i. qu i \<Longrightarrow> qu' i) \<Longrightarrow> pcok n w cr wt pv qu' x"
  by (cases x) auto

lemma pcok_wait_mono:
  "pcok n w cr wt pv qu x \<Longrightarrow> (\<And>i. wt i \<le> wt' i) \<Longrightarrow> pcok n w cr wt' pv qu x"
  by (cases x) (auto intro: less_le_trans le_trans)

lemma pcok_unwatched:
  "pcok n w cr wt pv qu x \<Longrightarrow> \<not> baton cr x \<Longrightarrow> pcok n w' cr wt pv qu' x"
  by (cases x) auto

lemma ctl_move:
  \<comment> \<open>a step that changes only the program counter of \<open>p\<close>\<close>
  assumes ok: "ctl_ok n N w cr wt pv f" and p: "p < N"
    and new: "\<And>i. chticket i x \<le> chticket i (f p)" "baton cr x = baton cr (f p)"
      "pcok n w cr wt pv (quiet N cr (f(p := x))) x"
  shows "ctl_ok n N w cr wt pv (f(p := x))"
proof -
  have q: "quiet N cr f i \<Longrightarrow> quiet N cr (f(p := x)) i" for i
    using quiet_upd_le [of N cr f i x p] new(1) by blast
  have b: "baton cr ((f(p := x)) r) = baton cr (f r)" for r
    using new(2) by simp
  show ?thesis
  proof (rule ctlI, unfold b)
    show "pcok n w cr wt pv (quiet N cr (f(p := x))) ((f(p := x)) r)" if "r < N" for r
      using new(3) pcok_quiet_mono [OF ctl_pc [OF ok that] q] by simp
  qed (use ctlD [OF ok] q in \<open>blast+\<close>)
qed

lemma ctl_draw:
  \<comment> \<open>\<open>enterRoom\<close> draws a ticket\<close>
  assumes ok: "ctl_ok n N w cr wt pv f" and p: "p < N" and i: "i < n" and out: "f p = Outside r"
  shows "ctl_ok n N w cr (wt(i := wt i + 1)) pv (f(p := EnterTest i (wt i + 1)))"
proof -
  have wt: "wt i' \<le> (wt(i := wt i + 1)) i'" for i'
    by simp
  have "ctl_ok n N w cr (wt(i := wt i + 1)) pv f"
  proof (rule ctlI)
    show "pcok n w cr (wt(i := wt i + 1)) pv (quiet N cr f) (f r)" if "r < N" for r
      by (rule pcok_wait_mono [OF ctl_pc [OF ok that] wt])
  qed (use ctlD [OF ok] in \<open>blast+\<close>)
  then show ?thesis
    by (rule ctl_move) (use p i out in simp_all)
qed

lemma ctl_change_wait:
  assumes ok: "ctl_ok n N w cr wt pv f" and cn: "counts_ok N cr wt pv f"
    and p: "p < N" and at: "f p = ChWait wh i"
  shows "ctl_ok n N w cr (wt(i := wt i + 1)) pv (f(p := ExitFAA (Some (i, wt i + 1)) wh))"
proof -
  have occ: "pv wh < cr wh"
    by (rule counts_within [OF cn p]) (simp add: at)
  note open_room = occupied_open [OF ok occ]
  let ?x = "ExitFAA (Some (i, wt i + 1)) wh"
  have wt: "wt i' \<le> (wt(i := wt i + 1)) i'" for i'
    by simp
  have b: "\<not> baton cr ((f(p := ?x)) r)" if "r < N" for r
    using open_room(2) [OF that] by simp
  show ?thesis
  proof (rule ctlI)
    show "pcok n w cr (wt(i := wt i + 1)) pv (quiet N cr (f(p := ?x))) ((f(p := ?x)) r)" if r: "r < N" for r
    proof (cases "r = p")
      case True
      then show ?thesis
        using ctl_pc [OF ok p] at counts_okD(1) [OF cn, of i]
        by (simp add: cinside_def cdrawn_def cpending_def)
    next
      case False
      have "pcok n w cr (wt(i := wt i + 1)) pv (quiet N cr (f(p := ?x))) (f r)"
        by (rule pcok_wait_mono [OF pcok_unwatched [OF ctl_pc [OF ok r] open_room(2) [OF r]] wt])
      with False show ?thesis by simp
    qed
    show "if w = int i' then pv i' < cr i' else cr i' = pv i'" for i'
      using ctl_open [OF ok, of i'] open_room(2) by blast
  qed (use b open_room ctl_which [OF ok] in \<open>auto split: if_splits\<close>)
qed

lemma ctl_cas:
  assumes ok: "ctl_ok n N (-1) cr wt pv f" and cn: "counts_ok N cr wt pv f"
    and p: "p < N" and at: "f p = EnterCAS i old"
  shows "ctl_ok n N (int i) cr wt pv (f(p := EnterRead i old))"
proof -
  have none: "\<not> baton cr (f r)" if "r < N" for r
    by (rule ctl_closed_none [OF ok that])
  have eq: "cr i' = pv i'" for i'
    using ctl_open [OF ok, of i'] none by auto
  have i: "i < n" and o: "0 < old"
    using ctl_pc [OF ok p] at by simp_all
  have "\<not> old \<le> cr i"
    using counts_admitted [OF cn p, of i] at o eq by auto
  then show ?thesis
    using i p none eq pcok_unwatched [OF ctl_pc [OF ok] none]
    by (intro ctlI) (auto split: if_splits)
qed

lemma ctl_faa:
  assumes ok: "ctl_ok n N w cr wt pv f" and cn: "counts_ok N cr wt pv f"
    and p: "p < N" and at: "f p = ExitFAA c wh"
  shows "ctl_ok n N w cr wt (pv(wh := pv wh + 1)) (f(p := ExitTest c wh (pv wh + 1)))"
proof -
  have occ: "pv wh < cr wh"
    by (rule counts_within [OF cn p]) (simp add: at)
  note open_room = occupied_open [OF ok occ]
  have eq: "cr i = pv i" if "i \<noteq> wh" for i
    using ctl_open [OF ok, of i] open_room that by (auto split: if_splits)
  have mono: "pcok n w cr wt (pv(wh := pv wh + 1)) qu x" if "pcok n w cr wt pv qu x" for qu x
    using that by (cases x) (auto split: if_splits)
  have "pcok n w cr wt (pv(wh := pv wh + 1)) qu (ExitTest c wh (pv wh + 1))" for qu
    using ctl_pc [OF ok p] at open_room by simp
  then show ?thesis
    using p open_room eq occ mono [OF pcok_unwatched [OF ctl_pc [OF ok] open_room(2)]] ctl_which [OF ok]
    by (intro ctlI) (auto split: if_splits)
qed

lemma ctl_setcur:
  \<comment> \<open>the baton holder opens room \<open>i\<close> for the tickets up to \<open>v\<close>\<close>
  assumes ok: "ctl_ok n N (int i) cr wt pv f" and cn: "counts_ok N cr wt pv f"
    and p: "p < N" and hold: "baton cr (f p)" and v: "cr i < v" and i: "i < n"
    and new: "\<not> baton (cr(i := v)) x" "\<And>qu. pcok n (int i) (cr(i := v)) wt pv qu x"
  shows "ctl_ok n N (int i) (cr(i := v)) wt pv (f(p := x))"
proof -
  have eq: "cr i' = pv i'" for i'
    using ctl_baton(2) [OF ok p hold] .
  have alone: "\<not> baton cr (f r)" if "r < N" "r \<noteq> p" for r
    using ctl_unique [OF ok that(1) p _ hold] that(2) by blast
  have out: "\<not> within i' (f r)" if "r < N" for i' r
    using counts_within [OF cn that, of i'] eq [of i'] by auto
  have other: "pcok n (int i) (cr(i := v)) wt pv qu (f r) \<and> \<not> baton (cr(i := v)) (f r)"
    if "r < N" "r \<noteq> p" for r qu
    using ctl_pc [OF ok that(1)] alone [OF that] out [OF that(1)] v eq [of i]
    by (cases "f r") (auto split: if_splits)
  then show ?thesis
    using new v eq i by (intro ctlI) (auto split: if_splits)
qed

lemma ctl_setwhich:
  assumes ok: "ctl_ok n N w cr wt pv f" and p: "p < N" and at: "f p = ExitWhich c m res"
  shows "ctl_ok n N (int m) cr wt pv (f(p := ExitRead c m res))"
proof -
  have hold: "baton cr (f p)"
    by (simp add: at)
  have alone: "\<not> baton cr (f r)" if "r < N" "r \<noteq> p" for r
    using ctl_unique [OF ok that(1) p _ hold] that(2) by blast
  have "pcok n (int m) cr wt pv qu (f r)" if "r < N" "r \<noteq> p" for r qu
    using pcok_unwatched [OF ctl_pc [OF ok that(1)] alone [OF that]] .
  then show ?thesis
    using ctl_pc [OF ok p] at alone p ctl_baton(2) [OF ok p hold]
    by (intro ctlI) (auto split: if_splits)
qed

lemma ctl_clear:
  assumes ok: "ctl_ok n N w cr wt pv f" and cn: "counts_ok N cr wt pv f" and wt: "\<And>i. n \<le> i \<Longrightarrow> wt i = 0"
    and p: "p < N" and at: "f p = ExitClear res"
  shows "ctl_ok n N (-1) cr wt pv (f(p := Outside res))"
proof -
  have hold: "baton cr (f p)"
    by (simp add: at)
  have alone: "\<not> baton cr (f r)" if "r < N" "r \<noteq> p" for r
    using ctl_unique [OF ok that(1) p _ hold] that(2) by blast
  have other: "pcok n (-1) cr wt pv qu (f r)" if "r < N" "r \<noteq> p" for r qu
    using pcok_unwatched [OF ctl_pc [OF ok that(1)] alone [OF that]] .
  have ch_le: "chticket i x \<le> ticket i x" for i x
    by (cases x) auto
  have "quiet N cr f i" for i
  proof (cases "i < n")
    case True
    then show ?thesis using ctl_pc [OF ok p] at by simp
  next
    case False
    then have "chticket i (f r) \<le> cr i" if "r < N" for r
      using counts_ticket_le [OF cn that, of i] ch_le [of i "f r"] wt [of i] by simp
    then show ?thesis by (simp add: quiet_def)
  qed
  then have "quiet N cr (f(p := Outside res)) i" for i
    by (rule quiet_upd_le) simp
  then show ?thesis
    using other alone p ctl_baton(2) [OF ok p hold] by (intro ctlI) (auto split: if_splits)
qed

subsection \<open>Every step keeps the invariants\<close>

definition rooms_inv :: "rooms \<Rightarrow> bool" where
  "rooms_inv s \<longleftrightarrow>
     counts_ok (rproc s) (rcur s) (rwait s) (rprev s) (rpcs s) \<and>
     ctl_ok (rsize s) (rproc s) (rwhich s) (rcur s) (rwait s) (rprev s) (rpcs s) \<and>
     (\<forall>i. rsize s \<le> i \<longrightarrow> rwait s i = 0)"

lemma rooms_invD:
  assumes "rooms_inv s"
  shows inv_counts: "counts_ok (rproc s) (rcur s) (rwait s) (rprev s) (rpcs s)"
    and inv_ctl: "ctl_ok (rsize s) (rproc s) (rwhich s) (rcur s) (rwait s) (rprev s) (rpcs s)"
    and inv_size: "rsize s \<le> i \<Longrightarrow> rwait s i = 0"
  using assms by (auto simp: rooms_inv_def)

lemma rooms_invI:
  assumes "counts_ok N cr wt pv f" and "ctl_ok n N w cr wt pv f" and "\<And>i. n \<le> i \<Longrightarrow> wt i = 0"
    and "rsize s = n" "rproc s = N" "rcur s = cr" "rwait s = wt" "rprev s = pv" "rwhich s = w" "rpcs s = f"
  shows "rooms_inv s"
  using assms by (auto simp: rooms_inv_def)

lemma goto_sel [simp]:
  "rsize (goto p x s) = rsize s" "rproc (goto p x s) = rproc s" "rcur (goto p x s) = rcur s"
  "rwait (goto p x s) = rwait s" "rprev (goto p x s) = rprev s" "rwhich (goto p x s) = rwhich s"
  "rfinal (goto p x s) = rfinal s" "rpcs (goto p x s) = (rpcs s)(p := x)"
  by (simp_all add: goto_def)

lemma leave_sel [simp]:
  "ticket i (leave c res) = cticket i c" "chticket i (leave c res) = cticket i c"
  "\<not> within i (leave c res)" "\<not> baton cr (leave c res)"
  "pcok n w cr wt pv qu (leave c res) = (cinside n c \<and> cdrawn c)"
  by (auto simp: leave_def cticket_def cinside_def cdrawn_def split: option.splits)

lemma inv_move:
  assumes inv: "rooms_inv s" and p: "p < rproc s"
    and same: "\<And>i. ticket i x = ticket i (rpcs s p)" "\<And>i. within i x = within i (rpcs s p)"
      "\<And>i. chticket i x = chticket i (rpcs s p)" "baton (rcur s) x = baton (rcur s) (rpcs s p)"
    and new: "pcok (rsize s) (rwhich s) (rcur s) (rwait s) (rprev s)
      (quiet (rproc s) (rcur s) ((rpcs s)(p := x))) x"
  shows "rooms_inv (goto p x s)"
  unfolding rooms_inv_def goto_sel
  using counts_same [OF inv_counts [OF inv] same(1,2)] inv_size [OF inv]
    ctl_move [OF inv_ctl [OF inv] p _ same(4) new] same(3) by simp

lemma inv_enter:
  assumes inv: "rooms_inv s" and p: "p < rproc s" and i: "i < rsize s"
    and at: "rpcs s p = EnterDone i old \<or> rpcs s p = ChSpin i old r \<and> old \<le> rcur s i"
  shows "rooms_inv (goto p (Inside i r') s)"
proof -
  note pc = ctl_pc [OF inv_ctl [OF inv] p]
  show ?thesis
    unfolding rooms_inv_def goto_sel
  proof (intro conjI allI impI)
    show "counts_ok (rproc s) (rcur s) (rwait s) (rprev s) ((rpcs s)(p := Inside i r'))"
      by (rule counts_enter [OF inv_counts [OF inv] p, where i = i]) (use at pc in auto)
    show "ctl_ok (rsize s) (rproc s) (rwhich s) (rcur s) (rwait s) (rprev s) ((rpcs s)(p := Inside i r'))"
      by (rule ctl_move [OF inv_ctl [OF inv] p]) (use at i in auto)
  qed (rule inv_size [OF inv])
qed

lemma inv_occupied:
  assumes inv: "rooms_inv s" and p: "p < rproc s"
    and at: "within i (rpcs s p) \<or> 0 < ticket i (rpcs s p) \<and> ticket i (rpcs s p) \<le> rcur s i"
  shows "rwhich s = int i"
proof -
  have "rprev s i < rcur s i"
    using at counts_within [OF inv_counts [OF inv] p] counts_admitted [OF inv_counts [OF inv] p] by blast
  then show ?thesis
    by (rule occupied_open [OF inv_ctl [OF inv]])
qed

lemma scan_complete:
  \<comment> \<open>a processor that scans on behalf of \<open>changeRoom\<close> finds a room before it has scanned all\<close>
  assumes inv: "rooms_inv s" and p: "p < rproc s" and at: "rpcs s p = ExitScan c wh k m res"
    and all: "\<not> k < rsize s"
  shows "c = None \<and> (\<forall>i < rsize s. quiet (rproc s) (rcur s) (rpcs s) i)"
proof -
  note pc = ctl_pc [OF inv_ctl [OF inv] p, unfolded at]
  have quiet: "quiet (rproc s) (rcur s) (rpcs s) i" if i: "i < rsize s" for i
  proof -
    define l where "l = (if wh < i then i - wh else rsize s + i - wh)"
    have l: "0 < l" "l \<le> k" "(wh + l) mod rsize s = i"
      using pc i all by (auto simp: l_def)
    from pc have "\<forall>l. 0 < l \<and> l \<le> k \<longrightarrow> quiet (rproc s) (rcur s) (rpcs s) ((wh + l) mod rsize s)"
      by simp
    with l show ?thesis by metis
  qed
  have "c = None"
  proof (rule ccontr)
    assume "c \<noteq> None"
    then obtain i old where c: "c = Some (i, old)" by auto
    then have "i < rsize s" "rcur s i < old"
      using pc by (simp_all add: cinside_def cpending_def)
    moreover have "chticket i (rpcs s p) = old"
      by (simp add: at c cticket_def)
    ultimately show False
      using quiet [of i] p by (auto simp: quiet_def)
  qed
  with quiet show ?thesis by blast
qed

lemma scan_next:
  assumes pc: "pcok n w cr wt pv (quiet N cr f) (ExitScan c wh k m res)" and cn: "counts_ok N cr wt pv f"
    and k: "k < n" and m': "m' = (m + 1) mod n" and none: "\<not> cr m' < wt m'"
  shows "pcok n w cr wt pv (quiet N cr f) (ExitScan c wh (k + 1) m' res)"
proof -
  have ch_le: "chticket i x \<le> ticket i x" for i x
    by (cases x) auto
  have m'': "m' = (wh + (k + 1)) mod n"
    using pc m' by (simp add: mod_Suc_eq)
  have "chticket m' (f r) \<le> cr m'" if "r < N" for r
    using counts_ticket_le [OF cn that, of m'] ch_le [of m' "f r"] none by simp
  then have q: "quiet N cr f m'"
    by (simp add: quiet_def)
  have "quiet N cr f ((wh + l) mod n)" if "0 < l" "l \<le> k + 1" for l
    using pc q that m'' by (cases "l = k + 1") auto
  then show ?thesis
    using pc k m'' by simp
qed

lemma quiet_same: "(\<And>i. chticket i x = chticket i (f p)) \<Longrightarrow> quiet N cr (f(p := x)) = quiet N cr f"
  unfolding quiet_def by (rule ext) (metis fun_upd_apply)

lemma inv_setcur:
  assumes inv: "rooms_inv s" and p: "p < rproc s"
    and at: "(\<exists>old. rpcs s p = EnterWrite i old v \<and> x = EnterDone i old)
      \<or> (\<exists>c res. rpcs s p = ExitCur c i v res \<and> x = leave c res)"
  shows "rooms_inv (goto p x (s\<lparr>rcur := (rcur s)(i := v)\<rparr>))"
proof -
  note pc = ctl_pc [OF inv_ctl [OF inv] p]
  have hold: "baton (rcur s) (rpcs s p)"
    using at by auto
  have facts: "i < rsize s" "rwhich s = int i" "rcur s i < v" "v \<le> rwait s i"
    using pc at by auto
  note eq = ctl_baton(2) [OF inv_ctl [OF inv] p hold]
  have counts: "counts_ok (rproc s) ((rcur s)(i := v)) (rwait s) (rprev s) ((rpcs s)(p := x))"
    by (rule counts_open [OF inv_counts [OF inv]]) (use at facts eq in auto)
  have ctl: "ctl_ok (rsize s) (rproc s) (int i) ((rcur s)(i := v)) (rwait s) (rprev s) ((rpcs s)(p := x))"
    by (rule ctl_setcur [OF _ inv_counts [OF inv] p hold])
      (use inv_ctl [OF inv] at facts pc in auto)
  show ?thesis
    by (rule rooms_invI [OF counts ctl inv_size [OF inv]]) (simp_all add: facts)
qed

lemma rstep_inv:
  assumes "rooms_inv s" and "rstep s t"
  shows "rooms_inv t"
  using assms(2,1)
proof (induction rule: rstep.induct)
  case (enter_call p s r i)
  note inv = \<open>rooms_inv s\<close>
  have zero: "ticket i (rpcs s p) = 0"
    using enter_call by simp
  show ?case
    by (rule rooms_invI [OF counts_draw [OF inv_counts [OF inv], where i = i and p = p]
          ctl_draw [OF inv_ctl [OF inv], where i = i and p = p and r = r]])
      (use enter_call inv_size [OF inv] in auto)
next
  case (enter_wait p s i old)
  then show ?case
    using ctl_pc [OF inv_ctl [OF enter_wait.prems], of p] by (intro inv_move) auto
next
  case (enter_in p s i old)
  then show ?case
    using ctl_pc [OF inv_ctl [OF enter_in.prems], of p] by (intro inv_move) auto
next
  case (cas_win p s i old)
  note inv = \<open>rooms_inv s\<close>
  have ctl: "ctl_ok (rsize s) (rproc s) (-1) (rcur s) (rwait s) (rprev s) (rpcs s)"
    using inv_ctl [OF inv] cas_win by simp
  show ?case
    by (rule rooms_invI [OF counts_same [OF inv_counts [OF inv], where p = p]
          ctl_cas [OF ctl inv_counts [OF inv], where p = p and i = i and old = old]])
      (use cas_win inv_size [OF inv] in auto)
next
  case (cas_lose p s i old)
  then show ?case
    using ctl_pc [OF inv_ctl [OF cas_lose.prems], of p] by (intro inv_move) auto
next
  case (enter_read p s i old)
  have "ticket i (rpcs s p) \<le> rwait s i"
    by (rule counts_ticket_le [OF inv_counts [OF enter_read.prems] enter_read(1)])
  then show ?case
    using enter_read ctl_pc [OF inv_ctl [OF enter_read.prems], of p] by (intro inv_move) auto
next
  case (enter_write p s i old v)
  then show ?case
    by (intro inv_setcur) auto
next
  case (enter_done p s i old)
  have pc: "i < rsize s" "0 < old" "old \<le> rcur s i"
    using ctl_pc [OF inv_ctl [OF enter_done.prems], of p] enter_done by auto
  have "rwhich s = int i"
    by (rule inv_occupied [OF enter_done.prems enter_done(1)]) (use enter_done pc in simp)
  then show ?case
    using inv_enter [OF enter_done.prems enter_done(1) pc(1)] enter_done by simp
next
  case (exit_call p s i r)
  have "rwhich s = int i"
    by (rule inv_occupied [OF exit_call.prems exit_call(1)]) (use exit_call in simp)
  then show ?case
    using exit_call ctl_pc [OF inv_ctl [OF exit_call.prems], of p]
    by (auto intro!: inv_move simp: cticket_def cinside_def cdrawn_def cpending_def)
next
  case (change_call p s i r i2)
  have "rwhich s = int i"
    by (rule inv_occupied [OF change_call.prems change_call(1)]) (use change_call in simp)
  then show ?case
    using change_call ctl_pc [OF inv_ctl [OF change_call.prems], of p] by (auto intro!: inv_move)
next
  case (change_wait p s wh i)
  note inv = \<open>rooms_inv s\<close>
  have i: "i < rsize s"
    using ctl_pc [OF inv_ctl [OF inv], of p] change_wait by auto
  show ?case
    by (rule rooms_invI [OF counts_draw [OF inv_counts [OF inv], where i = i and p = p]
          ctl_change_wait [OF inv_ctl [OF inv] inv_counts [OF inv], where i = i and p = p and wh = wh]])
      (use change_wait inv_size [OF inv] i in \<open>auto simp: cticket_def\<close>)
next
  case (exit_faa p s c wh)
  note inv = \<open>rooms_inv s\<close>
  show ?case
    by (rule rooms_invI [OF counts_leave [OF inv_counts [OF inv], where i = wh and p = p]
          ctl_faa [OF inv_ctl [OF inv] inv_counts [OF inv], where p = p and wh = wh and c = c]])
      (use exit_faa inv_size [OF inv] in auto)
next
  case (exit_last p s c wh j res)
  then show ?case
    using ctl_pc [OF inv_ctl [OF exit_last.prems], of p] by (intro inv_move) auto
next
  case (exit_notlast p s c wh j)
  then show ?case
    using ctl_pc [OF inv_ctl [OF exit_notlast.prems], of p] by (intro inv_move) auto
next
  case (scan_hit p s c wh k n res n')
  then show ?case
    using ctl_pc [OF inv_ctl [OF scan_hit.prems], of p] by (intro inv_move) auto
next
  case (scan_miss p s c wh k n res n')
  have same: "chticket i (ExitScan c wh (k + 1) n' res) = chticket i (rpcs s p)" for i
    using scan_miss by simp
  have "pcok (rsize s) (rwhich s) (rcur s) (rwait s) (rprev s) (quiet (rproc s) (rcur s) (rpcs s))
      (ExitScan c wh (k + 1) n' res)"
    using ctl_pc [OF inv_ctl [OF scan_miss.prems] scan_miss(1)] scan_miss
    by (intro scan_next [OF _ inv_counts [OF scan_miss.prems]]) auto
  then show ?case
    unfolding quiet_same [where f = "rpcs s" and p = p, OF same, symmetric]
    by (intro inv_move) (use scan_miss in auto)
next
  case (scan_end p s c wh k n res)
  have all: "c = None" "\<forall>i < rsize s. quiet (rproc s) (rcur s) (rpcs s) i"
    using scan_complete [OF scan_end.prems scan_end(1-3)] by auto
  have same: "chticket i (ExitClear res) = chticket i (rpcs s p)" for i
    using scan_end all by (simp add: cticket_def)
  have "pcok (rsize s) (rwhich s) (rcur s) (rwait s) (rprev s)
      (quiet (rproc s) (rcur s) ((rpcs s)(p := ExitClear res))) (ExitClear res)"
    using all unfolding quiet_same [where f = "rpcs s" and p = p, OF same] by simp
  then show ?case
    using scan_end all by (auto intro!: inv_move simp: cticket_def)
next
  case (exit_which p s c n res)
  note inv = \<open>rooms_inv s\<close>
  show ?case
    by (rule rooms_invI [OF counts_same [OF inv_counts [OF inv], where p = p]
          ctl_setwhich [OF inv_ctl [OF inv], where p = p and c = c and m = n and res = res]])
      (use exit_which inv_size [OF inv] in auto)
next
  case (exit_read p s c n res)
  then show ?case
    using ctl_pc [OF inv_ctl [OF exit_read.prems], of p] by (intro inv_move) auto
next
  case (exit_cur p s c n v res)
  then show ?case
    by (intro inv_setcur) auto
next
  case (exit_clear p s res)
  note inv = \<open>rooms_inv s\<close>
  show ?case
    by (rule rooms_invI [OF counts_same [OF inv_counts [OF inv], where p = p]
          ctl_clear [OF inv_ctl [OF inv] inv_counts [OF inv], where p = p and res = res]])
      (use exit_clear inv_size [OF inv] in auto)
next
  case (change_in p s i old r)
  have "i < rsize s"
    using ctl_pc [OF inv_ctl [OF change_in.prems], of p] change_in by auto
  then show ?case
    using inv_enter [OF change_in.prems change_in(1), of i old r] change_in by simp
qed

lemma createRooms_inv: "rooms_inv (createRooms n procs fin)"
  unfolding rooms_inv_def createRooms_def
  by (auto simp: counts_ok_def ctl_ok_def quiet_def cnt_none)

lemma reachable_inv: "rooms_reachable (createRooms n procs fin) s \<Longrightarrow> rooms_inv s"
  by (induction rule: rooms_reachable.induct) (auto intro: createRooms_inv rstep_inv)

subsection \<open>Exclusion, absence of failures, progress\<close>

text \<open>C24: two processors inside rooms are in the same room, and it is the open one, whatever the
  interleaving of \<open>enterRoom\<close>, \<open>exitRoom\<close> and \<open>changeRoom\<close> by any number of processors.\<close>

theorem room_exclusion:
  assumes "rooms_reachable (createRooms n procs fin) s"
    and "p < rproc s" "rpcs s p = Inside i r" and "q < rproc s" "rpcs s q = Inside j r'"
  shows "i = j \<and> rwhich s = int i"
proof -
  note inv = reachable_inv [OF assms(1)]
  have "rwhich s = int i" "rwhich s = int j"
    using inv_occupied [OF inv assms(2), of i] inv_occupied [OF inv assms(4), of j] assms(3,5) by simp_all
  then show ?thesis by simp
qed

definition demo :: "nat \<Rightarrow> nat \<Rightarrow> int \<Rightarrow> pc \<Rightarrow> pc \<Rightarrow> rooms" where
  \<comment> \<open>two processors, two rooms; only room 0 has been entered\<close>
  "demo c v w x y =
     \<lparr>rsize = 2, rproc = 2, rfinal = (\<lambda>_. False), rcur = (\<lambda>i. if i = 0 then c else 0),
      rwait = (\<lambda>i. if i = 0 then v else 0), rprev = (\<lambda>_. 0), rwhich = w,
      rpcs = (\<lambda>p. if p = 0 then x else if p = 1 then y else Outside 0)\<rparr>"

lemma demo_sel [simp]:
  "rsize (demo c v w x y) = 2" "rproc (demo c v w x y) = 2" "rcur (demo c v w x y) 0 = c"
  "rwait (demo c v w x y) 0 = v" "rwhich (demo c v w x y) = w"
  "rpcs (demo c v w x y) 0 = x" "rpcs (demo c v w x y) (Suc 0) = y"
  by (simp_all add: demo_def)

lemma demo_goto [simp]:
  "goto 0 x' (demo c v w x y) = demo c v w x' y" "goto (Suc 0) y' (demo c v w x y) = demo c v w x y'"
  "demo c v w x y\<lparr>rwait := (rwait (demo c v w x y))(0 := v')\<rparr> = demo c v' w x y"
  "demo c v w x y\<lparr>rcur := (rcur (demo c v w x y))(0 := c')\<rparr> = demo c' v w x y"
  "demo c v w x y\<lparr>rwhich := w'\<rparr> = demo c v w' x y"
  by (auto simp: goto_def demo_def fun_eq_iff)

lemma demo_run:
  fixes s0 defines "s0 \<equiv> createRooms 2 2 (\<lambda>_. False)"
  shows "rooms_reachable s0 (demo 0 2 0 (EnterRead 0 1) (EnterTest 0 2))"
    and "rooms_reachable s0 (demo 2 2 0 (Inside 0 0) (Inside 0 0))"
proof -
  let ?R = "rooms_reachable s0"
  have init: "s0 = demo 0 0 (-1) (Outside 0) (Outside 0)"
    by (auto simp: createRooms_def demo_def fun_eq_iff s0_def)
  have "?R (demo 0 0 (-1) (Outside 0) (Outside 0))"
    using rooms_reachable.start [of s0] by (simp add: init)
  from step [OF this enter_call [of 0 _ 0 0]] have "?R (demo 0 1 (-1) (EnterTest 0 1) (Outside 0))"
    by simp
  from step [OF this enter_call [of 1 _ 0 0]] have "?R (demo 0 2 (-1) (EnterTest 0 1) (EnterTest 0 2))"
    by (simp add: numeral_2_eq_2)
  from step [OF this enter_wait [of 0]] have "?R (demo 0 2 (-1) (EnterCAS 0 1) (EnterTest 0 2))"
    by simp
  from step [OF this cas_win [of 0]] show reading: "?R (demo 0 2 0 (EnterRead 0 1) (EnterTest 0 2))"
    by simp
  from step [OF reading enter_read [of 0]] have "?R (demo 0 2 0 (EnterWrite 0 1 2) (EnterTest 0 2))"
    by simp
  from step [OF this enter_write [of 0]] have "?R (demo 2 2 0 (EnterDone 0 1) (EnterTest 0 2))"
    by simp
  from step [OF this enter_done [of 0]] have "?R (demo 2 2 0 (Inside 0 0) (EnterTest 0 2))"
    by simp
  from step [OF this enter_in [of 1]] have "?R (demo 2 2 0 (Inside 0 0) (EnterDone 0 2))"
    by simp
  from step [OF this enter_done [of 1]] show "?R (demo 2 2 0 (Inside 0 0) (Inside 0 0))"
    by simp
qed

theorem room_exclusion_witness:
  "(0::nat) = 0 \<and> rwhich (demo 2 2 0 (Inside 0 0) (Inside 0 0)) = int 0"
  by (rule room_exclusion [OF demo_run(2), where p = 0 and q = "Suc 0" and r = 0 and r' = 0]) simp_all

text \<open>C31: no processor ever reaches a failed assertion of \<open>enterRoom\<close>, an index \<open>which = -1\<close> in an
  exit, or the \<open>DIE\<close> of \<open>changeRoom\<close>.\<close>

theorem rooms_never_die:
  assumes "rooms_reachable (createRooms n procs fin) s" and "p < rproc s"
  shows "rpcs s p \<noteq> Died"
  using ctl_pc [OF inv_ctl [OF reachable_inv [OF assms(1)]] assms(2)] by auto

theorem rooms_never_die_witness: "rpcs (demo 2 2 0 (Inside 0 0) (Inside 0 0)) 1 \<noteq> Died"
  by (rule rooms_never_die [OF demo_run(2)]) simp

definition spinning :: "rooms \<Rightarrow> nat \<Rightarrow> bool" where
  \<comment> \<open>every step of \<open>p\<close> leads around one of the waiting loops\<close>
  "spinning s p \<longleftrightarrow> (case rpcs s p of
       EnterTest i old \<Rightarrow> rcur s i < old \<and> rwhich s \<noteq> -1
     | EnterCAS i old \<Rightarrow> rcur s i < old \<and> rwhich s \<noteq> -1
     | ChSpin i old r \<Rightarrow> rcur s i < old
     | _ \<Rightarrow> False)"

definition in_transit :: "pc \<Rightarrow> bool" where
  "in_transit x \<longleftrightarrow> (case x of Outside r \<Rightarrow> False | Inside i r \<Rightarrow> False | _ \<Rightarrow> True)"

text \<open>C29: when nobody is inside a room and some processor is between two, then some processor in
  transit is not waiting for another: entries and exits never deadlock.\<close>

theorem rooms_progress:
  assumes "rooms_reachable (createRooms n procs fin) s"
    and "\<And>p i r. p < rproc s \<Longrightarrow> rpcs s p \<noteq> Inside i r"
    and "p < rproc s" "in_transit (rpcs s p)"
  shows "\<exists>q < rproc s. in_transit (rpcs s q) \<and> \<not> spinning s q"
proof -
  note inv = reachable_inv [OF assms(1)]
  note ctl = inv_ctl [OF inv]
  consider (closed) "rwhich s = -1" | (hold) q where "q < rproc s" "baton (rcur s) (rpcs s q)"
    | (opened) w where "rwhich s = int w" "\<forall>q < rproc s. \<not> baton (rcur s) (rpcs s q)"
    using ctl_which [OF ctl] by (cases "rwhich s") auto
  then show ?thesis
  proof cases
    case closed
    have le: "chticket i (rpcs s p) \<le> rcur s i" for i
      using ctl_quiet [OF ctl closed, of i] assms(3) by (simp add: quiet_def)
    have "\<not> spinning s p"
    proof (cases "rpcs s p")
      case (ChSpin i old r)
      then show ?thesis using le [of i] by (simp add: spinning_def)
    qed (simp_all add: spinning_def closed)
    then show ?thesis using assms(3,4) by blast
  next
    case hold
    then have "in_transit (rpcs s q) \<and> \<not> spinning s q"
      by (cases "rpcs s q") (auto simp: spinning_def in_transit_def)
    then show ?thesis using hold by blast
  next
    case opened
    then have "rprev s w < rcur s w"
      using ctl_open [OF ctl opened(2), of w] by simp
    then obtain q where q: "q < rproc s"
        "within w (rpcs s q) \<or> 0 < ticket w (rpcs s q) \<and> ticket w (rpcs s q) \<le> rcur s w"
      using counts_occupied [OF inv_counts [OF inv]] by blast
    then have "in_transit (rpcs s q) \<and> \<not> spinning s q"
      using assms(2) [OF q(1)]
      by (cases "rpcs s q") (auto simp: spinning_def in_transit_def split: if_splits)
    then show ?thesis using q by blast
  qed
qed

theorem rooms_progress_witness:
  "\<exists>q < rproc (demo 0 2 0 (EnterRead 0 1) (EnterTest 0 2)).
     in_transit (rpcs (demo 0 2 0 (EnterRead 0 1) (EnterTest 0 2)) q)
     \<and> \<not> spinning (demo 0 2 0 (EnterRead 0 1) (EnterTest 0 2)) q"
proof (rule rooms_progress [OF demo_run(1), where p = 0])
  fix p i r
  assume "p < rproc (demo 0 2 0 (EnterRead 0 1) (EnterTest 0 2))"
  then have "p = 0 \<or> p = Suc 0" by auto
  then show "rpcs (demo 0 2 0 (EnterRead 0 1) (EnterTest 0 2)) p \<noteq> Inside i r"
    by auto
qed (simp_all add: in_transit_def)

end
