(* ===== verification/HashTab.thy ===== *)
theory HashTab
  imports Tilt_Prelude
begin

unbundle bit_operations_syntax

text \<open>
  The open-addressing hash table of \<open>Runtime/sparc/hash.c\<close>.  A table has \<open>2 ^ logsize\<close> slots; the
  key 0xffffffff marks a free one.  A lookup starts at a hash of the key and steps by an odd amount,
  so it visits every slot before it comes back (\<open>probe_inj\<close>).  \<open>hash_ok\<close> is the invariant that makes
  stopping at the first free slot right; \<open>hmap\<close> is the map the table stands for.  The locale
  \<open>table_store\<close> states what a client may rely on, and the client lemma builds a table from a list of
  entries, as \<open>stack_init\<close> does with the GC table entries.
\<close>

subsection \<open>State and operations\<close>

record hashTable =
  hsize :: nat
  hlogsize :: nat
  hlogmask :: "32 word"
  htable :: "(val \<times> addr) list"   \<comment> \<open>\<open>HashEntry_t\<close>: key and data\<close>

definition UNINIT_KEY :: val where
  "UNINIT_KEY = 0xffffffff"

fun halvings :: "nat \<Rightarrow> nat" where
  \<comment> \<open>the loop \<open>while (size > 0) { size /= 2; i++; }\<close>\<close>
  "halvings sz = (if sz > 0 then Suc (halvings (sz div 2)) else 0)"

declare halvings.simps [simp del]

definition CreateHashTable :: "nat \<Rightarrow> hashTable" where
  "CreateHashTable sz =
     (let i = halvings sz; sz' = 2 ^ i
      in \<lparr>hsize = sz', hlogsize = i, hlogmask = word_of_nat (sz' - 1),
          htable = replicate sz' (UNINIT_KEY, 0)\<rparr>)"

definition hash_start :: "hashTable \<Rightarrow> val \<Rightarrow> 32 word" where
  "hash_start h key = (key * 0x58d2d93f) AND hlogmask h"

definition hash_delta :: "hashTable \<Rightarrow> val \<Rightarrow> 32 word" where
  "hash_delta h key = (drop_bit 8 (key * 0x58d2d93f) OR 1) AND hlogmask h"

fun lookupLoop :: "nat \<Rightarrow> hashTable \<Rightarrow> val \<Rightarrow> bool \<Rightarrow> 32 word \<Rightarrow> nat option result" where
  \<comment> \<open>the loop of \<open>HashTableLookup\<close>; the result is the index of the slot, \<open>None\<close> for \<open>NULL\<close>\<close>
  "lookupLoop 0 h key ins cur = Inl OutOfFuel"
| "lookupLoop (Suc n) h key ins cur =
     (if unat cur < length (htable h) then
        (if fst (htable h ! unat cur) = key then Inr (Some (unat cur))
         else if fst (htable h ! unat cur) = UNINIT_KEY
         then Inr (if ins then Some (unat cur) else None)
         else let cur' = (cur + hash_delta h key) AND hlogmask h
              in if cur' = hash_start h key
                 then Inl (Die ''FATAL ERROR in hash lookup: table full'')
                 else lookupLoop n h key ins cur')
      else Inl (Overrun ''HashTable table''))"

definition HashTableLookup :: "hashTable \<Rightarrow> val \<Rightarrow> bool \<Rightarrow> nat option result" where
  "HashTableLookup h key ins = lookupLoop (hsize h) h key ins (hash_start h key)"

definition HashTableInsert :: "hashTable \<Rightarrow> val \<times> addr \<Rightarrow> hashTable result" where
  "HashTableInsert h e =
     bindE (HashTableLookup h (fst e) True) (\<lambda>r.
     case r of
       None \<Rightarrow> Inl (Die ''NULL slot'')
     | Some slot \<Rightarrow>
         if fst (htable h ! slot) \<noteq> UNINIT_KEY then Inl (Die ''Slot already used'')
         else Inr (h\<lparr>htable := (htable h)[slot := e]\<rparr>))"

subsection \<open>The probe sequence\<close>

definition shape_ok :: "hashTable \<Rightarrow> bool" where
  "shape_ok h \<longleftrightarrow> hlogsize h \<le> 31 \<and> hsize h = 2 ^ hlogsize h \<and> length (htable h) = hsize h
     \<and> hlogmask h = mask (hlogsize h)"

definition slot :: "hashTable \<Rightarrow> val \<Rightarrow> nat \<Rightarrow> nat" where
  \<comment> \<open>the index of the \<open>j\<close>-th probe for a key\<close>
  "slot h key j = (unat (hash_start h key) + j * unat (hash_delta h key)) mod hsize h"

lemma halvings_pos: "0 < sz \<Longrightarrow> 0 < halvings sz"
  by (subst halvings.simps) simp

lemma halvings_bounds: "sz < 2 ^ halvings sz \<and> (0 < sz \<longrightarrow> 2 ^ halvings sz \<le> 2 * sz)"
proof (induction sz rule: halvings.induct)
  case (1 sz)
  show ?case
  proof (cases "0 < sz")
    case True
    then have "halvings sz = Suc (halvings (sz div 2))"
      by (subst halvings.simps) simp
    moreover have "sz div 2 = 0 \<Longrightarrow> halvings (sz div 2) = 0"
      by (subst halvings.simps) simp
    ultimately show ?thesis
      using "1.IH" [OF True] True by (cases "sz div 2 = 0") auto
  next
    case False
    then show ?thesis by (subst halvings.simps) simp
  qed
qed

lemma CreateHashTable_shape:
  assumes "sz < 2 ^ 30"
  shows "shape_ok (CreateHashTable sz)" "sz < hsize (CreateHashTable sz)"
proof -
  have "2 ^ halvings sz \<le> (2 :: nat) ^ 31"
    using halvings_bounds [of sz] assms by (cases "sz = 0") (auto simp: halvings.simps)
  then have "halvings sz \<le> 31"
    by (rule power_le_imp_le_exp [rotated]) simp
  then show "shape_ok (CreateHashTable sz)"
    by (simp add: shape_ok_def CreateHashTable_def Let_def mask_eq_exp_minus_1 of_nat_diff)
  show "sz < hsize (CreateHashTable sz)"
    using halvings_bounds [of sz] by (simp add: CreateHashTable_def Let_def)
qed

lemma and_mask_mod: "n \<le> 31 \<Longrightarrow> unat (w AND mask n :: 32 word) = unat w mod 2 ^ n"
  by (simp add: take_bit_eq_mask [symmetric] unsigned_take_bit_eq take_bit_nat_def)

lemma unat_add_mod: "n \<le> 31 \<Longrightarrow> unat ((a + b) AND mask n :: 32 word) = (unat a + unat b) mod 2 ^ n"
proof -
  assume n: "n \<le> 31"
  have "unat (a + b) = (unat a + unat b) mod 2 ^ 32"
    by (simp add: unat_word_ariths)
  moreover have "(2 :: nat) ^ n dvd 2 ^ 32"
    using n by (intro le_imp_power_dvd) simp
  ultimately show ?thesis
    using n by (simp add: and_mask_mod mod_mod_cancel)
qed

lemma slot_less: "shape_ok h \<Longrightarrow> slot h key j < hsize h"
  by (simp add: slot_def shape_ok_def)

lemma slot_0: "shape_ok h \<Longrightarrow> slot h key 0 = unat (hash_start h key)"
  by (simp add: slot_def shape_ok_def hash_start_def and_mask_mod)

lemma slot_Suc:
  assumes "shape_ok h" "unat cur = slot h key j"
  shows "unat ((cur + hash_delta h key) AND hlogmask h) = slot h key (Suc j)"
  using assms by (simp add: shape_ok_def unat_add_mod slot_def mod_simps algebra_simps)

lemma delta_coprime:
  assumes "shape_ok h"
  shows "coprime (unat (hash_delta h key)) (hsize h)"
proof (cases "hlogsize h = 0")
  case True
  then show ?thesis using assms by (simp add: shape_ok_def)
next
  case False
  have "bit (hash_delta h key) 0"
    using assms False by (simp add: hash_delta_def shape_ok_def bit_simps)
  then have "odd (unat (hash_delta h key))"
    using bit_unsigned_iff [where 'a = nat, of "hash_delta h key" 0] unfolding bit_0 by simp
  then show ?thesis
    using assms by (simp add: shape_ok_def coprime_power_right_iff coprime_right_2_iff_odd)
qed

text \<open>A full cycle of probes visits pairwise different slots, hence all of them.\<close>

lemma probe_inj:
  assumes "shape_ok h"
  shows "inj_on (slot h key) {..<hsize h}"
proof (rule inj_onI)
  let ?s = "unat (hash_start h key)" and ?d = "unat (hash_delta h key)" and ?m = "hsize h"
  have le: "i = j" if "i \<le> j" "j < ?m" "slot h key i = slot h key j" for i j
  proof -
    have "?m dvd (?s + j * ?d) - (?s + i * ?d)"
      using that unfolding slot_def by (intro mod_eq_dvd_iff_nat [THEN iffD1]) auto
    then have "?m dvd (j - i) * ?d"
      using that(1) by (simp add: diff_mult_distrib)
    then have "?m dvd j - i"
      using delta_coprime [OF assms, of key] by (simp add: coprime_commute coprime_dvd_mult_left_iff)
    then show "i = j"
      using that by (auto dest: dvd_imp_le)
  qed
  fix i j assume "i \<in> {..<?m}" "j \<in> {..<?m}" "slot h key i = slot h key j"
  then show "i = j"
    using le [of i j] le [of j i] by (cases "i \<le> j") auto
qed

lemma probe_all:
  assumes "shape_ok h"
  shows "slot h key ` {..<hsize h} = {..<hsize h}"
proof (rule card_seteq)
  show "slot h key ` {..<hsize h} \<subseteq> {..<hsize h}"
    using slot_less [OF assms] by auto
qed (simp_all add: card_image [OF probe_inj [OF assms]])

subsection \<open>What a lookup finds\<close>

definition probed_key :: "hashTable \<Rightarrow> val \<Rightarrow> nat \<Rightarrow> val" where
  "probed_key h key j = fst (htable h ! slot h key j)"

definition stops_at :: "hashTable \<Rightarrow> val \<Rightarrow> nat \<Rightarrow> bool" where
  "stops_at h key j \<longleftrightarrow> j < hsize h \<and> probed_key h key j \<in> {key, UNINIT_KEY}
     \<and> (\<forall>i<j. probed_key h key i \<notin> {key, UNINIT_KEY})"

lemma lookup_cycle:
  assumes "shape_ok h" "j < hsize h" "unat cur = slot h key j"
  shows "(cur + hash_delta h key) AND hlogmask h = hash_start h key \<longleftrightarrow> Suc j = hsize h"
proof -
  have "(cur + hash_delta h key) AND hlogmask h = hash_start h key
      \<longleftrightarrow> slot h key (Suc j) = slot h key 0"
    using slot_Suc [OF assms(1,3)] slot_0 [OF assms(1)] by (simp add: word_unat_eq_iff)
  also have "\<dots> \<longleftrightarrow> Suc j = hsize h"
  proof (cases "Suc j = hsize h")
    case True
    then show ?thesis by (simp add: slot_def)
  next
    case False
    then have "Suc j \<in> {..<hsize h}" "0 \<in> {..<hsize h}" using assms(2) by auto
    then show ?thesis
      using False probe_inj [OF assms(1), of key] by (metis inj_on_eq_iff nat.distinct(1))
  qed
  finally show ?thesis .
qed

lemma lookupLoop_stops:
  assumes "shape_ok h" "stops_at h key m" "j \<le> m" "unat cur = slot h key j" "n + j = hsize h"
  shows "lookupLoop n h key ins cur =
    Inr (if probed_key h key m = key \<or> ins then Some (slot h key m) else None)"
  using assms
proof (induction n arbitrary: j cur)
  case 0
  then show ?case by (simp add: stops_at_def)
next
  case (Suc n)
  have idx: "unat cur < length (htable h)"
    using Suc.prems(1,4) slot_less by (simp add: shape_ok_def)
  have at: "fst (htable h ! unat cur) = probed_key h key j"
    using Suc.prems(4) by (simp add: probed_key_def)
  show ?case
  proof (cases "j = m")
    case True
    then show ?thesis using idx at Suc.prems(2,4) by (auto simp: stops_at_def)
  next
    case False
    then have j: "probed_key h key j \<notin> {key, UNINIT_KEY}" "Suc j \<le> m" "Suc j \<noteq> hsize h" "j < hsize h"
      using Suc.prems(2,3) by (auto simp: stops_at_def)
    then have "(cur + hash_delta h key) AND hlogmask h \<noteq> hash_start h key"
      using lookup_cycle [OF Suc.prems(1) j(4) Suc.prems(4)] by simp
    then have "lookupLoop (Suc n) h key ins cur =
        lookupLoop n h key ins ((cur + hash_delta h key) AND hlogmask h)"
      using idx at j(1) by simp
    also have "\<dots> = Inr (if probed_key h key m = key \<or> ins then Some (slot h key m) else None)"
      using Suc.prems slot_Suc [OF Suc.prems(1,4)] j(2) by (intro Suc.IH [where j = "Suc j"]) auto
    finally show ?thesis .
  qed
qed

lemma lookup_stops:
  assumes "shape_ok h" "stops_at h key m"
  shows "HashTableLookup h key ins =
    Inr (if probed_key h key m = key \<or> ins then Some (slot h key m) else None)"
  unfolding HashTableLookup_def
  using assms slot_0 [OF assms(1)] by (intro lookupLoop_stops [where j = 0]) auto

lemma lookupLoop_full:
  assumes "shape_ok h" "\<forall>i<hsize h. probed_key h key i \<notin> {key, UNINIT_KEY}"
    "unat cur = slot h key j" "n + j = hsize h" "j < hsize h"
  shows "lookupLoop n h key ins cur = Inl (Die ''FATAL ERROR in hash lookup: table full'')"
  using assms
proof (induction n arbitrary: j cur)
  case 0
  then show ?case by simp
next
  case (Suc n)
  have idx: "unat cur < length (htable h)"
    using Suc.prems(1,3) slot_less by (simp add: shape_ok_def)
  have at: "fst (htable h ! unat cur) \<notin> {key, UNINIT_KEY}"
    using Suc.prems(2,3,5) by (simp add: probed_key_def)
  note cyc = lookup_cycle [OF Suc.prems(1,5,3)]
  show ?case
  proof (cases "Suc j = hsize h")
    case True
    then show ?thesis using idx at cyc by simp
  next
    case False
    moreover have "lookupLoop n h key ins ((cur + hash_delta h key) AND hlogmask h)
        = Inl (Die ''FATAL ERROR in hash lookup: table full'')"
      using Suc.prems False slot_Suc [OF Suc.prems(1,3)] by (intro Suc.IH [where j = "Suc j"]) auto
    ultimately show ?thesis using idx at cyc by simp
  qed
qed

subsection \<open>The invariant and the map of a table\<close>

definition hash_ok :: "hashTable \<Rightarrow> bool" where
  "hash_ok h \<longleftrightarrow> shape_ok h \<and>
     (\<forall>i<hsize h. fst (htable h ! i) \<noteq> UNINIT_KEY \<longrightarrow>
        (\<exists>j<hsize h. slot h (fst (htable h ! i)) j = i
           \<and> (\<forall>j'<j. probed_key h (fst (htable h ! i)) j' \<notin> {fst (htable h ! i), UNINIT_KEY})))"

definition hmap :: "hashTable \<Rightarrow> val \<Rightarrow> addr option" where
  "hmap h key = (if key = UNINIT_KEY then None else map_of (htable h) key)"

definition free_slots :: "hashTable \<Rightarrow> nat" where
  "free_slots h = card {i. i < hsize h \<and> fst (htable h ! i) = UNINIT_KEY}"

lemma hash_ok_shape: "hash_ok h \<Longrightarrow> shape_ok h"
  by (simp add: hash_ok_def)

lemma hash_ok_stops:
  assumes "hash_ok h" "i < hsize h" "fst (htable h ! i) = key" "key \<noteq> UNINIT_KEY"
  obtains m where "stops_at h key m" "slot h key m = i"
proof -
  from assms obtain j where "j < hsize h" "slot h key j = i"
    "\<forall>j'<j. probed_key h key j' \<notin> {key, UNINIT_KEY}"
    unfolding hash_ok_def by blast
  then show thesis
    using that [of j] assms(3) by (simp add: stops_at_def probed_key_def)
qed

lemma stops_at_unique: "stops_at h key i \<Longrightarrow> stops_at h key j \<Longrightarrow> i = j"
  unfolding stops_at_def by (metis linorder_neqE_nat)

lemma key_slot_unique:
  assumes "hash_ok h" "i < hsize h" "k < hsize h" "fst (htable h ! i) = fst (htable h ! k)"
    "fst (htable h ! i) \<noteq> UNINIT_KEY"
  shows "i = k"
proof -
  obtain m where m: "stops_at h (fst (htable h ! i)) m" "slot h (fst (htable h ! i)) m = i"
    using hash_ok_stops [OF assms(1,2) refl assms(5)] by blast
  obtain m' where m': "stops_at h (fst (htable h ! i)) m'" "slot h (fst (htable h ! i)) m' = k"
    using hash_ok_stops [OF assms(1,3) assms(4) [symmetric] assms(5)] by blast
  show ?thesis using stops_at_unique [OF m(1) m'(1)] m(2) m'(2) by simp
qed

lemma exists_stop:
  assumes "shape_ok h" "0 < free_slots h"
  obtains m where "stops_at h key m"
proof -
  from assms(2) obtain i where i: "i < hsize h" "fst (htable h ! i) = UNINIT_KEY"
    unfolding free_slots_def by (metis (mono_tags, lifting) card_gt_0_iff empty_Collect_eq)
  then obtain j where j: "j < hsize h" "slot h key j = i"
    using probe_all [OF assms(1), of key] by (metis (no_types, lifting) image_iff lessThan_iff)
  define P where "P = (\<lambda>j. probed_key h key j \<in> {key, UNINIT_KEY})"
  have "P j" using i j by (simp add: P_def probed_key_def)
  then have "P (LEAST j. P j)" "(LEAST j. P j) \<le> j"
    by (rule LeastI, rule Least_le)
  moreover have "\<forall>i<(LEAST j. P j). \<not> P i"
    using not_less_Least by blast
  ultimately obtain m where "P m" "m \<le> j" "\<forall>i<m. \<not> P i" by blast
  then show thesis
    using that [of m] j(1) by (auto simp: stops_at_def P_def)
qed

lemma hmap_slot:
  assumes "hash_ok h" "i < hsize h" "fst (htable h ! i) = key" "key \<noteq> UNINIT_KEY"
  shows "hmap h key = Some (snd (htable h ! i))"
proof -
  have len: "length (htable h) = hsize h"
    using assms(1) by (simp add: hash_ok_def shape_ok_def)
  have "(key, snd (htable h ! i)) \<in> set (htable h)"
    using assms(2,3) len by (metis nth_mem prod.collapse)
  then obtain d where d: "map_of (htable h) key = Some d"
    by (metis not_None_eq weak_map_of_SomeI)
  then obtain k where "k < hsize h" "htable h ! k = (key, d)"
    using map_of_SomeD [OF d] len by (metis in_set_conv_nth)
  then show ?thesis
    using key_slot_unique [OF assms(1,2), of k] assms(3,4) d by (simp add: hmap_def)
qed

lemma hmap_None:
  "shape_ok h \<Longrightarrow> \<forall>i<hsize h. fst (htable h ! i) \<noteq> key \<Longrightarrow> hmap h key = None"
  by (auto simp: hmap_def shape_ok_def map_of_eq_None_iff in_set_conv_nth image_iff) (metis fst_conv)

lemma lookup_spec:
  assumes "hash_ok h" "0 < free_slots h" "key \<noteq> UNINIT_KEY"
  shows "HashTableLookup h key False = Inr r \<Longrightarrow>
    hmap h key = map_option (\<lambda>i. snd (htable h ! i)) r"
    "\<exists>r. HashTableLookup h key False = Inr r"
proof -
  obtain m where m: "stops_at h key m"
    using exists_stop [OF hash_ok_shape [OF assms(1)] assms(2)] .
  note l = lookup_stops [OF hash_ok_shape [OF assms(1)] m]
  then show "\<exists>r. HashTableLookup h key False = Inr r" by simp
  have lt: "slot h key m < hsize h"
    using assms(1) by (simp add: hash_ok_shape slot_less)
  assume r: "HashTableLookup h key False = Inr r"
  show "hmap h key = map_option (\<lambda>i. snd (htable h ! i)) r"
  proof (cases "probed_key h key m = key")
    case True
    then show ?thesis
      using r l hmap_slot [OF assms(1) lt] assms(3) by (auto simp: probed_key_def)
  next
    case False
    have "fst (htable h ! i) \<noteq> key" if "i < hsize h" for i
      using hash_ok_stops [OF assms(1) that _ assms(3)] stops_at_unique [OF m] False
      by (metis probed_key_def)
    then have "hmap h key = None"
      using hmap_None [OF hash_ok_shape [OF assms(1)]] by blast
    then show ?thesis using r l False by simp
  qed
qed

lemma insert_spec:
  assumes ok: "hash_ok h" and free: "0 < free_slots h" and key: "key \<noteq> UNINIT_KEY"
    and new: "hmap h key = None"
  shows "\<exists>h'. HashTableInsert h (key, d) = Inr h' \<and> hash_ok h'
    \<and> hmap h' = (hmap h)(key \<mapsto> d) \<and> free_slots h = Suc (free_slots h')"
proof -
  note sh = hash_ok_shape [OF ok]
  obtain m where m: "stops_at h key m"
    using exists_stop [OF sh free] .
  define p where "p = slot h key m"
  have p: "p < hsize h" by (simp add: p_def slot_less sh)
  have len: "length (htable h) = hsize h" using sh by (simp add: shape_ok_def)
  have absent: "fst (htable h ! i) \<noteq> key" if "i < hsize h" for i
    using hmap_slot [OF ok that _ key] new by auto
  then have free_p: "fst (htable h ! p) = UNINIT_KEY"
    using m p by (auto simp: stops_at_def probed_key_def p_def)
  let ?h = "h\<lparr>htable := (htable h)[p := (key, d)]\<rparr>"
  have slots: "slot ?h = slot h"
    by (simp add: slot_def hash_start_def hash_delta_def fun_eq_iff)
  have ins: "HashTableInsert h (key, d) = Inr ?h"
    using lookup_stops [OF sh m, of True] free_p
    by (simp add: HashTableInsert_def p_def [symmetric])
  have ok': "hash_ok ?h"
    unfolding hash_ok_def
  proof (intro conjI allI impI)
    show "shape_ok ?h" using sh by (simp add: shape_ok_def)
    fix i assume i: "i < hsize ?h" "fst (htable ?h ! i) \<noteq> UNINIT_KEY"
    let ?k = "fst (htable ?h ! i)"
    have same: "fst (htable ?h ! slot h k j) = fst (htable h ! slot h k j)"
      if "fst (htable h ! slot h k j) \<noteq> UNINIT_KEY" for k j
      using that free_p by (metis nth_list_update_neq hashTable.select_convs(4) hashTable.surjective
          hashTable.update_convs(4))
    show "\<exists>j<hsize ?h. slot ?h ?k j = i
        \<and> (\<forall>j'<j. probed_key ?h ?k j' \<notin> {?k, UNINIT_KEY})"
    proof (cases "i = p")
      case True
      then have k: "?k = key" using p len by simp
      have "probed_key ?h key j = probed_key h key j" if "j < m" for j
        using m same that by (auto simp: stops_at_def probed_key_def slots)
      then have "slot ?h key m = i \<and> (\<forall>j'<m. probed_key ?h key j' \<notin> {key, UNINIT_KEY})" "m < hsize ?h"
        using m True by (auto simp: stops_at_def slots p_def [symmetric])
      then show ?thesis unfolding k by blast
    next
      case False
      then have k: "?k = fst (htable h ! i)" "fst (htable h ! i) \<noteq> UNINIT_KEY" "i < hsize h"
        using i by auto
      then obtain j where "stops_at h ?k j" "slot h ?k j = i"
        using hash_ok_stops [OF ok k(3) refl k(2)] by metis
      then show ?thesis
        using same by (auto simp: stops_at_def probed_key_def slots)
    qed
  qed
  have map: "hmap ?h = (hmap h)(key \<mapsto> d)"
  proof
    fix q
    show "hmap ?h q = ((hmap h)(key \<mapsto> d)) q"
    proof (cases "q = UNINIT_KEY")
      case True
      then show ?thesis using key by (simp add: hmap_def)
    next
      case qn: False
      show ?thesis
      proof (cases "\<exists>i<hsize ?h. fst (htable ?h ! i) = q")
        case True
        then obtain i where i: "i < hsize h" "fst (htable ?h ! i) = q" by auto
        then have "hmap ?h q = Some (snd (htable ?h ! i))"
          using hmap_slot [OF ok', of i q] qn by simp
        then show ?thesis
          using i p len hmap_slot [OF ok i(1), of q] qn absent [OF i(1)] by (cases "i = p") auto
      next
        case False
        then have "q \<noteq> key" "\<forall>i<hsize h. fst (htable h ! i) \<noteq> q"
          using p len qn free_p by (auto simp: nth_list_update split: if_splits)
        then show ?thesis
          using False hmap_None [of ?h q] hmap_None [OF sh, of q] ok' by (simp add: hash_ok_shape)
      qed
    qed
  qed
  have "{i. i < hsize h \<and> fst (htable h ! i) = UNINIT_KEY} =
      insert p {i. i < hsize ?h \<and> fst (htable ?h ! i) = UNINIT_KEY}"
    using p free_p key len by (auto simp: nth_list_update)
  then have "free_slots h = Suc (free_slots ?h)"
    unfolding free_slots_def using key p len by simp
  then show ?thesis using ins ok' map by blast
qed

lemma CreateHashTable_ok:
  assumes "sz < 2 ^ 30"
  shows "hash_ok (CreateHashTable sz)" "hmap (CreateHashTable sz) = Map.empty"
    "sz < free_slots (CreateHashTable sz)"
proof -
  have all: "fst (htable (CreateHashTable sz) ! i) = UNINIT_KEY" if "i < hsize (CreateHashTable sz)" for i
    using that by (simp add: CreateHashTable_def Let_def)
  note sh = CreateHashTable_shape [OF assms]
  show "hash_ok (CreateHashTable sz)"
    using sh(1) all by (simp add: hash_ok_def)
  show "hmap (CreateHashTable sz) = Map.empty"
    using hmap_None [OF sh(1)] all by (metis hmap_def ext)
  have "{i. i < hsize (CreateHashTable sz) \<and> fst (htable (CreateHashTable sz) ! i) = UNINIT_KEY}
      = {..<hsize (CreateHashTable sz)}"
    using all by auto
  then show "sz < free_slots (CreateHashTable sz)"
    using sh(2) by (simp add: free_slots_def)
qed

subsection \<open>The interface and a client\<close>

locale table_store =
  fixes insert :: "'t \<Rightarrow> val \<times> addr \<Rightarrow> 't result"
    and find :: "'t \<Rightarrow> val \<Rightarrow> addr option result"
    and contents :: "'t \<Rightarrow> val \<Rightarrow> addr option"
    and room :: "'t \<Rightarrow> nat"
    and ok :: "'t \<Rightarrow> bool"
    and legal :: "val \<Rightarrow> bool"
  assumes insert_law: "ok t \<Longrightarrow> 0 < room t \<Longrightarrow> legal k \<Longrightarrow> contents t k = None \<Longrightarrow>
      \<exists>t'. insert t (k, d) = Inr t' \<and> ok t' \<and> contents t' = (contents t)(k \<mapsto> d) \<and> room t = Suc (room t')"
    and find_law: "ok t \<Longrightarrow> 0 < room t \<Longrightarrow> legal k \<Longrightarrow> find t k = Inr (contents t k)"

fun insert_all :: "('t \<Rightarrow> val \<times> addr \<Rightarrow> 't result) \<Rightarrow> 't \<Rightarrow> (val \<times> addr) list \<Rightarrow> 't result" where
  "insert_all ins t [] = Inr t"
| "insert_all ins t (e # es) = bindE (ins t e) (\<lambda>t. insert_all ins t es)"

context table_store
begin

lemma insert_all_ok:
  assumes "ok t" "length es < room t" "distinct (map fst es)" "\<forall>k \<in> set (map fst es). legal k \<and> contents t k = None"
  shows "\<exists>t'. insert_all insert t es = Inr t' \<and> ok t' \<and> 0 < room t' \<and> contents t' = contents t ++ map_of es"
  using assms
proof (induction es arbitrary: t)
  case Nil
  then show ?case by simp
next
  case (Cons e es)
  obtain k d where e: "e = (k, d)" by (cases e)
  obtain t1 where t1: "insert t (k, d) = Inr t1" "ok t1" "contents t1 = (contents t)(k \<mapsto> d)"
    "room t = Suc (room t1)"
    using insert_law [of t k d] Cons.prems e by auto
  have "\<exists>t'. insert_all insert t1 es = Inr t' \<and> ok t' \<and> 0 < room t' \<and> contents t' = contents t1 ++ map_of es"
    using Cons.prems t1 e by (intro Cons.IH) auto
  moreover have "contents t1 ++ map_of es = contents t ++ map_of (e # es)"
    using Cons.prems(3) t1(3) e
    by (simp add: map_add_upd_left dom_map_of_conv_image_fst)
  ultimately show ?case using t1(1) by (metis bindE_Inr e insert_all.simps(2))
qed

end

definition hash_find :: "hashTable \<Rightarrow> val \<Rightarrow> addr option result" where
  \<comment> \<open>the data of the entry that \<open>HashTableLookup(h, key, 0)\<close> points to\<close>
  "hash_find h key =
     bindE (HashTableLookup h key False) (\<lambda>r. Inr (map_option (\<lambda>i. snd (htable h ! i)) r))"

interpretation hash_store: table_store HashTableInsert hash_find hmap free_slots hash_ok "\<lambda>k. k \<noteq> UNINIT_KEY"
proof
  fix h k d assume "hash_ok h" "0 < free_slots h" "k \<noteq> UNINIT_KEY" "hmap h k = None"
  then show "\<exists>h'. HashTableInsert h (k, d) = Inr h' \<and> hash_ok h' \<and> hmap h' = (hmap h)(k \<mapsto> d)
      \<and> free_slots h = Suc (free_slots h')"
    by (rule insert_spec)
next
  fix h k assume a: "hash_ok h" "0 < free_slots h" "k \<noteq> UNINIT_KEY"
  then obtain r where "HashTableLookup h k False = Inr r" using lookup_spec(2) by blast
  then show "hash_find h k = Inr (hmap h k)"
    using lookup_spec(1) [OF a] by (simp add: hash_find_def)
qed

text \<open>
  C37: A table created for \<open>sz\<close> entries takes up to \<open>sz\<close> entries with different keys without
  failing, and afterwards every lookup terminates and finds exactly the inserted data: its map is
  the map of the entry list.
\<close>

theorem hash_build_and_find:
  assumes "sz < 2 ^ 30" and "length es \<le> sz" and "distinct (map fst es)"
    and "UNINIT_KEY \<notin> set (map fst es)" and "key \<noteq> UNINIT_KEY"
  shows "\<exists>h. insert_all HashTableInsert (CreateHashTable sz) es = Inr h
    \<and> hash_find h key = Inr (map_of es key)"
proof -
  note c = CreateHashTable_ok [OF assms(1)]
  have "\<forall>k \<in> set (map fst es). k \<noteq> UNINIT_KEY \<and> hmap (CreateHashTable sz) k = None"
    using assms(4) c(2) by metis
  then have "\<exists>h. insert_all HashTableInsert (CreateHashTable sz) es = Inr h \<and> hash_ok h
      \<and> 0 < free_slots h \<and> hmap h = hmap (CreateHashTable sz) ++ map_of es"
    using assms(2,3) c by (intro hash_store.insert_all_ok) auto
  then obtain h where "insert_all HashTableInsert (CreateHashTable sz) es = Inr h" "hash_ok h"
    "0 < free_slots h" "hmap h = map_of es"
    using c(2) by auto
  then show ?thesis
    using hash_store.find_law [of h key] assms(5) by auto
qed

theorem hash_build_and_find_witness:
  "\<exists>h. insert_all HashTableInsert (CreateHashTable 4) [(12, 100), (20, 200)] = Inr h
    \<and> hash_find h 20 = Inr (map_of [(12 :: val, 100), (20, 200)] 20)"
  by (rule hash_build_and_find) (simp_all add: UNINIT_KEY_def)

text \<open>
  A lookup of an absent key in a full table is the fatal error of the code (it does not
  report \<open>NULL\<close>), and it is found after one full cycle of probes.
\<close>

theorem hash_lookup_full:
  assumes "shape_ok h" and "\<forall>i<hsize h. fst (htable h ! i) \<notin> {key, UNINIT_KEY}"
  shows "HashTableLookup h key ins = Inl (Die ''FATAL ERROR in hash lookup: table full'')"
proof -
  have "\<forall>i<hsize h. probed_key h key i \<notin> {key, UNINIT_KEY}"
    using assms slot_less by (simp add: probed_key_def)
  moreover have "0 < hsize h" using assms(1) by (simp add: shape_ok_def)
  ultimately show ?thesis
    unfolding HashTableLookup_def
    using assms(1) slot_0 by (intro lookupLoop_full [where j = 0]) auto
qed

theorem hash_lookup_full_witness:
  "HashTableLookup \<lparr>hsize = 2, hlogsize = 1, hlogmask = 1, htable = [(4, 1), (8, 2)]\<rparr> 12 False
    = Inl (Die ''FATAL ERROR in hash lookup: table full'')"
  by (rule hash_lookup_full) (auto simp: shape_ok_def UNINIT_KEY_def less_2_cases_iff)

end
