(* ===== verification/Tags.thy ===== *)
theory Tags
  imports Tilt_Prelude
begin

unbundle bit_operations_syntax

text \<open>
  Object tags, the constants and macros of \<open>Runtime/sparc/sparc.h\<close> (lines 746 to 866): the word
  before the first field of every ML object says what the object is, how long it is and, for a
  record, which fields are pointers.  A tag whose two low bits are zero is a forwarding pointer.
  The lemmas give each macro's value on natural numbers (collection \<open>tag_unat\<close>), from which the
  encode/decode round trips follow.
\<close>

named_theorems tag_consts \<open>the numeric values of the tag constants\<close>
named_theorems tag_unat \<open>the tag macros read as arithmetic on natural numbers\<close>

subsection \<open>Constants\<close>

definition FORWARD1_TYPE :: val where [tag_consts]: "FORWARD1_TYPE = 0"
definition FORWARD2_TYPE :: val where [tag_consts]: "FORWARD2_TYPE = 4"
definition RECORD_TYPE :: val where [tag_consts]: "RECORD_TYPE = 1"
definition WORD_ARRAY_TYPE :: val where [tag_consts]: "WORD_ARRAY_TYPE = 2"
definition QUAD_ARRAY_TYPE :: val where [tag_consts]: "QUAD_ARRAY_TYPE = 3"
definition PTR_ARRAY_TYPE :: val where [tag_consts]: "PTR_ARRAY_TYPE = 5"
definition MIRROR_PTR_ARRAY_TYPE :: val where [tag_consts]: "MIRROR_PTR_ARRAY_TYPE = 6"
definition OTHER_TYPE :: val where [tag_consts]: "OTHER_TYPE = 7"
definition NONSKIP_OTHER_TYPE :: val where [tag_consts]: "NONSKIP_OTHER_TYPE = 15"

definition OTHER_TAG :: "val \<Rightarrow> val" where
  [tag_consts]: "OTHER_TAG ty = NONSKIP_OTHER_TYPE OR push_bit 5 ty"

definition STALL_TAG :: val where [tag_consts]: "STALL_TAG = OTHER_TAG 0"
definition SEGSTALL_TAG :: val where [tag_consts]: "SEGSTALL_TAG = OTHER_TAG 1"
definition SEGPROCEED_TAG :: val where [tag_consts]: "SEGPROCEED_TAG = OTHER_TAG 2"
definition MIRROR_GLOBAL_PTR_TAG :: val where [tag_consts]: "MIRROR_GLOBAL_PTR_TAG = OTHER_TAG 3"

definition RECLEN_MAX :: nat where [tag_consts]: "RECLEN_MAX = 24"

subsection \<open>Macros\<close>

definition IS_SKIP_TAG :: "val \<Rightarrow> bool" where
  "IS_SKIP_TAG t \<longleftrightarrow> t AND 15 = 7"

definition IS_NONSKIP_OTHER_TAG :: "val \<Rightarrow> bool" where
  "IS_NONSKIP_OTHER_TAG t \<longleftrightarrow> t AND 15 = 15"

definition MAKE_SKIP :: "val \<Rightarrow> val" where
  "MAKE_SKIP w = push_bit 4 w OR 7"

definition GET_SKIPWORD :: "val \<Rightarrow> val" where
  "GET_SKIPWORD t = drop_bit 4 t"

definition GET_TYPE :: "val \<Rightarrow> val" where
  "GET_TYPE t = t AND 7"

definition TYPE_IS_FORWARD :: "val \<Rightarrow> bool" where
  "TYPE_IS_FORWARD t \<longleftrightarrow> t = FORWARD1_TYPE \<or> t = FORWARD2_TYPE"

definition TYPE_IS_ARRAY :: "val \<Rightarrow> bool" where
  "TYPE_IS_ARRAY t \<longleftrightarrow>
     t = WORD_ARRAY_TYPE \<or> t = QUAD_ARRAY_TYPE \<or> t = PTR_ARRAY_TYPE \<or> t = MIRROR_PTR_ARRAY_TYPE"

definition TAG_IS_FORWARD :: "val \<Rightarrow> bool" where
  "TAG_IS_FORWARD t \<longleftrightarrow> t AND 3 = 0"

definition TAG_IS_OTHER :: "val \<Rightarrow> bool" where
  "TAG_IS_OTHER t \<longleftrightarrow> t AND 7 = OTHER_TYPE"

definition MAKE_REC :: "val \<Rightarrow> val \<Rightarrow> val" where
  "MAKE_REC len msk = push_bit 3 len OR push_bit 8 msk OR RECORD_TYPE"

definition MAKE_ARRAY :: "val \<Rightarrow> val \<Rightarrow> val" where
  \<comment> \<open>the expression \<open>ty | (byteLen << ARRLEN_OFFSET)\<close> that \<open>create.c\<close> writes out at each use\<close>
  "MAKE_ARRAY ty byteLen = ty OR push_bit 3 byteLen"

definition GET_RECLEN :: "val \<Rightarrow> val" where
  "GET_RECLEN t = drop_bit 3 t AND 31"

definition GET_RECMASK :: "val \<Rightarrow> val" where
  "GET_RECMASK t = drop_bit 8 t"

definition GET_ANY_ARRAY_LEN :: "val \<Rightarrow> val" where
  \<comment> \<open>also \<open>GET_WORD_ARRAY_LEN\<close>, \<open>GET_QUAD_ARRAY_LEN\<close>, \<open>GET_PTR_ARRAY_LEN\<close> and
     \<open>GET_MIRROR_PTR_ARRAY_LEN\<close>, which have the same body\<close>
  "GET_ANY_ARRAY_LEN t = drop_bit 3 t"

subsection \<open>The macros as arithmetic\<close>

lemma and_mask_unat:
  "unat (t AND 3 :: val) = unat t mod 4" "unat (t AND 7 :: val) = unat t mod 8"
  "unat (t AND 15 :: val) = unat t mod 16" "unat (t AND 31 :: val) = unat t mod 32"
proof -
  have "unat (t AND mask n :: val) = unat t mod 2 ^ n" for n
    by (simp add: take_bit_eq_mask [symmetric] unsigned_take_bit_eq take_bit_nat_def)
  from this [of 2] this [of 3] this [of 4] this [of 5]
  show "unat (t AND 3 :: val) = unat t mod 4" "unat (t AND 7 :: val) = unat t mod 8"
    "unat (t AND 15 :: val) = unat t mod 16" "unat (t AND 31 :: val) = unat t mod 32"
    by (simp_all add: mask_numeral)
qed

lemma drop_bit_unat: "unat (drop_bit n (t :: val)) = unat t div 2 ^ n"
  by (simp add: unsigned_drop_bit_eq drop_bit_nat_def take_bit_nat_eq_self)

lemma unat_eq_numeral:
  "(t :: val) = numeral k \<longleftrightarrow> unat t = unat (numeral k :: val)" "t = 0 \<longleftrightarrow> unat t = 0"
  "t = 1 \<longleftrightarrow> unat t = 1"
  by (auto simp: word_unat_eq_iff)

lemma tag_macros_unat [tag_unat]:
  "unat (GET_TYPE t) = unat t mod 8"
  "unat (GET_RECLEN t) = unat t div 8 mod 32"
  "unat (GET_RECMASK t) = unat t div 256"
  "unat (GET_ANY_ARRAY_LEN t) = unat t div 8"
  "unat (GET_SKIPWORD t) = unat t div 16"
  "IS_SKIP_TAG t \<longleftrightarrow> unat t mod 16 = 7"
  "IS_NONSKIP_OTHER_TAG t \<longleftrightarrow> unat t mod 16 = 15"
  "TAG_IS_FORWARD t \<longleftrightarrow> unat t mod 4 = 0"
  by (simp_all add: GET_TYPE_def GET_RECLEN_def GET_RECMASK_def GET_ANY_ARRAY_LEN_def
      GET_SKIPWORD_def IS_SKIP_TAG_def IS_NONSKIP_OTHER_TAG_def TAG_IS_FORWARD_def
      and_mask_unat drop_bit_unat word_unat_eq_iff)

lemma TYPE_IS_FORWARD_GET_TYPE: "TYPE_IS_FORWARD (GET_TYPE t) \<longleftrightarrow> TAG_IS_FORWARD t"
proof -
  have "unat (GET_TYPE t) = 0 \<or> unat (GET_TYPE t) = 4 \<longleftrightarrow> unat t mod 4 = 0"
    unfolding tag_unat by presburger
  then show ?thesis
    by (simp add: TYPE_IS_FORWARD_def tag_consts tag_unat word_unat_eq_iff)
qed

lemma or_push_unat:
  assumes c: "unat (c :: val) < 2 ^ k" and b: "unat w * 2 ^ k + unat c < 2 ^ 32"
  shows "unat (push_bit k w OR c) = unat w * 2 ^ k + unat c"
proof -
  have "take_bit k c = c"
    using c by (simp add: word_unat_eq_iff unsigned_take_bit_eq take_bit_nat_eq_self)
  moreover have "push_bit k w AND take_bit k c = 0"
    by (simp add: bit_eq_iff bit_simps)
  ultimately have "push_bit k w AND c = 0"
    by simp
  moreover have "unat (push_bit k w) = unat w * 2 ^ k"
    using b by (simp add: unsigned_push_bit_eq push_bit_nat_def take_bit_nat_eq_self)
  ultimately show ?thesis
    using b by (simp add: disjunctive_add_eq_or [symmetric] unat_word_ariths)
qed

lemma MAKE_SKIP_unat [tag_unat]: "unat w < 2 ^ 28 \<Longrightarrow> unat (MAKE_SKIP w) = 16 * unat w + 7"
  unfolding MAKE_SKIP_def by (subst or_push_unat) simp_all

lemma MAKE_ARRAY_unat [tag_unat]:
  "unat ty < 8 \<Longrightarrow> unat len < 2 ^ 29 \<Longrightarrow> unat (MAKE_ARRAY ty len) = 8 * unat len + unat ty"
  unfolding MAKE_ARRAY_def by (subst or.commute, subst or_push_unat) simp_all

lemma MAKE_REC_unat [tag_unat]:
  assumes "unat len < 32" and "unat msk < 2 ^ 24"
  shows "unat (MAKE_REC len msk) = 256 * unat msk + 8 * unat len + 1"
proof -
  have low: "unat (push_bit 3 len OR 1) = 8 * unat len + 1"
    using assms(1) by (subst or_push_unat) simp_all
  have "MAKE_REC len msk = push_bit 8 msk OR (push_bit 3 len OR 1)"
    by (simp add: MAKE_REC_def tag_consts or.assoc [symmetric] or.commute or.left_commute)
  then show ?thesis
    using assms by (simp only: low) (subst or_push_unat; simp add: low)
qed

lemma OTHER_TAG_values [tag_consts]:
  "STALL_TAG = 15" "SEGSTALL_TAG = 47" "SEGPROCEED_TAG = 79" "MIRROR_GLOBAL_PTR_TAG = 111"
  by (simp_all add: STALL_TAG_def SEGSTALL_TAG_def SEGPROCEED_TAG_def MIRROR_GLOBAL_PTR_TAG_def
      OTHER_TAG_def NONSKIP_OTHER_TYPE_def)

subsection \<open>Round trips\<close>

text \<open>A record tag gives back the record type, the length and the pointer mask it was made from.\<close>

theorem rec_tag_roundtrip:
  assumes "unat len \<le> RECLEN_MAX" and "unat msk < 2 ^ 24"
  shows "GET_TYPE (MAKE_REC len msk) = RECORD_TYPE
    \<and> GET_RECLEN (MAKE_REC len msk) = len
    \<and> GET_RECMASK (MAKE_REC len msk) = msk
    \<and> \<not> TAG_IS_FORWARD (MAKE_REC len msk)"
proof -
  have "unat len < 32" using assms(1) by (simp add: tag_consts)
  then have m: "unat (MAKE_REC len msk) = 256 * unat msk + 8 * unat len + 1"
    using assms(2) by (rule MAKE_REC_unat)
  have "(256 * unat msk + 8 * unat len + 1) div 8 = 32 * unat msk + unat len"
    "(256 * unat msk + 8 * unat len + 1) div 256 = unat msk"
    "(256 * unat msk + 8 * unat len + 1) mod 8 = 1" "(256 * unat msk + 8 * unat len + 1) mod 4 = 1"
    using \<open>unat len < 32\<close> by presburger+
  with m \<open>unat len < 32\<close> have "unat (GET_TYPE (MAKE_REC len msk)) = 1"
    "unat (GET_RECLEN (MAKE_REC len msk)) = unat len" "unat (GET_RECMASK (MAKE_REC len msk)) = unat msk"
    "\<not> TAG_IS_FORWARD (MAKE_REC len msk)"
    by (simp_all add: tag_unat)
  then show ?thesis
    by (simp add: word_unat_eq_iff tag_consts)
qed

theorem rec_tag_roundtrip_witness:
  "GET_TYPE (MAKE_REC 3 5) = RECORD_TYPE \<and> GET_RECLEN (MAKE_REC 3 5) = 3
    \<and> GET_RECMASK (MAKE_REC 3 5) = 5 \<and> \<not> TAG_IS_FORWARD (MAKE_REC 3 5)"
  by (rule rec_tag_roundtrip) (simp_all add: tag_consts)

lemma array_tag_roundtrip:
  assumes "unat ty < 8" and "unat len < 2 ^ 29"
  shows "GET_TYPE (MAKE_ARRAY ty len) = ty" "GET_ANY_ARRAY_LEN (MAKE_ARRAY ty len) = len"
proof -
  have m: "unat (MAKE_ARRAY ty len) = 8 * unat len + unat ty"
    using assms by (rule MAKE_ARRAY_unat)
  have "(8 * unat len + unat ty) div 8 = unat len" "(8 * unat len + unat ty) mod 8 = unat ty"
    using assms(1) by presburger+
  with m show "GET_TYPE (MAKE_ARRAY ty len) = ty" "GET_ANY_ARRAY_LEN (MAKE_ARRAY ty len) = len"
    by (simp_all add: word_unat_eq_iff tag_unat)
qed

lemma skip_tag_roundtrip:
  assumes "unat w < 2 ^ 28"
  shows "IS_SKIP_TAG (MAKE_SKIP w)" "GET_SKIPWORD (MAKE_SKIP w) = w" "GET_TYPE (MAKE_SKIP w) = OTHER_TYPE"
    "\<not> TAG_IS_FORWARD (MAKE_SKIP w)"
proof -
  have m: "unat (MAKE_SKIP w) = 16 * unat w + 7"
    using assms by (rule MAKE_SKIP_unat)
  have "(16 * unat w + 7) mod 16 = 7" "(16 * unat w + 7) div 16 = unat w"
    "(16 * unat w + 7) mod 8 = 7" "(16 * unat w + 7) mod 4 = 3"
    by presburger+
  with m show "IS_SKIP_TAG (MAKE_SKIP w)" "GET_SKIPWORD (MAKE_SKIP w) = w"
    "GET_TYPE (MAKE_SKIP w) = OTHER_TYPE" "\<not> TAG_IS_FORWARD (MAKE_SKIP w)"
    by (simp_all add: word_unat_eq_iff [where 'a = 32] tag_unat tag_consts)
qed

end
