(* ===== verification/Bitmaps.thy ===== *)
theory Bitmaps
  imports Tilt_Prelude
begin

unbundle bit_operations_syntax

text \<open>
  The allocation bitmap of \<open>Runtime/sparc/bitmap.c\<close>: \<open>size\<close> bits in an array of 32-bit words
  (\<open>1 + size / 32\<close> of them), a cursor \<open>pos\<close> where the next search starts, the number \<open>used\<close> of
  set bits, and a spin lock.  The lock operations are modelled for one caller: \<open>Lock\<close> on a taken
  lock is the fault \<open>Spin\<close>.  \<open>marked\<close> reads a bit, \<open>bm_ok\<close> is the invariant; the main results are
  that \<open>AllocBitmapRange\<close> marks exactly a free range and fails only when there is none.
\<close>

subsection \<open>State and operations\<close>

record bitmap =
  block :: nat
  bsize :: nat
  bpos :: nat
  bused :: nat
  bdata :: "32 word list"

definition CreateBitmap :: "nat \<Rightarrow> bitmap" where
  "CreateBitmap sz =
     \<lparr>block = 0, bsize = sz, bpos = 0, bused = 0, bdata = replicate (1 + sz div 32) 0\<rparr>"

definition GetBit :: "32 word list \<Rightarrow> nat \<Rightarrow> 32 word result" where
  "GetBit d i =
     (let long_pos = i div 32; bit_pos = i mod 32
      in if long_pos < length d then Inr (drop_bit bit_pos (d ! long_pos) AND 1)
         else Inl (Overrun ''Bitmap data''))"

definition SetBit :: "bitmap \<Rightarrow> nat \<Rightarrow> bitmap result" where
  "SetBit b i =
     (let long_pos = i div 32; bit_pos = i mod 32
      in bindE (assertE (long_pos < bsize b) ''long_pos < bmp->size'') (\<lambda>_.
         if long_pos < length (bdata b)
         then Inr (b\<lparr>bdata := (bdata b)[long_pos := (bdata b ! long_pos) OR push_bit bit_pos 1]\<rparr>)
         else Inl (Overrun ''Bitmap data'')))"

definition IsSet :: "bitmap \<Rightarrow> nat \<Rightarrow> 32 word result" where
  "IsSet b i = (if i < bsize b then GetBit (bdata b) i else Inr 0)"

definition ClearBitmap :: "bitmap \<Rightarrow> bitmap result" where
  "ClearBitmap b =
     (let longSize = DivideUp (bsize b) 32
      in if longSize \<le> length (bdata b)
         then Inr (b\<lparr>bdata := replicate longSize 0 @ drop longSize (bdata b), bused := 0, bpos := 0\<rparr>)
         else Inl (Overrun ''Bitmap data''))"

definition BitmapSize :: "bitmap \<Rightarrow> nat" where
  "BitmapSize b = bsize b"

definition TestAndSet :: "nat \<Rightarrow> nat \<times> nat" where
  \<comment> \<open>the new value of the cell and the result; \<open>support.s\<close> leaves values other than 0 alone\<close>
  "TestAndSet v = (if v = 0 then (1, 1) else (v, 0))"

definition Lock :: "bitmap \<Rightarrow> bitmap result" where
  "Lock b =
     (case TestAndSet (block b) of (v, r) \<Rightarrow>
        if r = 0 then Inl (Spin ''Bitmap lock'') else Inr (b\<lparr>block := v\<rparr>))"

definition Unlock :: "bitmap \<Rightarrow> bitmap" where
  "Unlock b = b\<lparr>block := 0\<rparr>"

fun markRange :: "bitmap \<Rightarrow> nat \<Rightarrow> nat \<Rightarrow> bitmap result" where
  \<comment> \<open>the loop of \<open>SetBitmapRange\<close> from position \<open>p\<close> on, \<open>n\<close> iterations\<close>
  "markRange b p 0 = Inr b"
| "markRange b p (Suc n) =
     bindE (GetBit (bdata b) p) (\<lambda>r.
     bindE (if r = 0 then bindE (SetBit b p) (\<lambda>b. Inr (b\<lparr>bused := bused b + 1\<rparr>)) else Inr b) (\<lambda>b.
     markRange b (p + 1) n))"

definition SetBitmapRange :: "bitmap \<Rightarrow> nat \<Rightarrow> nat \<Rightarrow> bitmap result" where
  "SetBitmapRange b start sz =
     bindE (Lock b) (\<lambda>b. bindE (markRange b start sz) (\<lambda>b. Inr (Unlock b)))"

fun probe :: "32 word list \<Rightarrow> nat \<Rightarrow> nat \<Rightarrow> nat option result" where
  \<comment> \<open>the inner loop of \<open>AllocBitmapRange\<close>: the offset of the first set bit among the \<open>n\<close> from \<open>p\<close>\<close>
  "probe d p 0 = Inr None"
| "probe d p (Suc n) =
     bindE (GetBit d p) (\<lambda>r.
       if r \<noteq> 0 then Inr (Some 0) else bindE (probe d (p + 1) n) (\<lambda>q. Inr (map_option Suc q)))"

fun setBits :: "bitmap \<Rightarrow> nat \<Rightarrow> nat \<Rightarrow> bitmap result" where
  "setBits b p 0 = Inr b"
| "setBits b p (Suc n) = bindE (SetBit b p) (\<lambda>b. setBits b (p + 1) n)"

function allocLoop :: "bitmap \<Rightarrow> nat \<Rightarrow> nat \<Rightarrow> nat \<Rightarrow> (bitmap \<times> int) result" where
  \<comment> \<open>the outer loop of \<open>AllocBitmapRange\<close>\<close>
  "allocLoop b req cur dist =
     (if dist < bsize b then
        let cur = (if cur + req > bsize b then 0 else cur)
        in bindE (probe (bdata b) cur req) (\<lambda>r.
           case r of
             Some i \<Rightarrow>
               let nextpos = cur + i + 1
               in allocLoop b req (if nextpos \<ge> bsize b then nextpos - bsize b else nextpos)
                    (dist + (nextpos - cur))
           | None \<Rightarrow>
               bindE (setBits b cur req) (\<lambda>b.
               Inr (b\<lparr>bpos := cur + req, bused := bused b + req\<rparr>, int cur)))
      else Inr (b, -1))"
  by pat_completeness auto
termination
  by (relation "measure (\<lambda>(b, req, cur, dist). bsize b - dist)") auto

declare allocLoop.simps [simp del]

definition AllocBitmapRange :: "bitmap \<Rightarrow> nat \<Rightarrow> (bitmap \<times> int) result" where
  "AllocBitmapRange b req =
     bindE (Lock b) (\<lambda>b.
     bindE (if req + bused b \<le> bsize b then allocLoop b req (bpos b) 0 else Inr (b, -1)) (\<lambda>(b, r).
     Inr (Unlock b, r)))"

subsection \<open>Bits and the invariant\<close>

definition marked :: "bitmap \<Rightarrow> nat \<Rightarrow> bool" where
  "marked b i \<longleftrightarrow> bit (bdata b ! (i div 32)) (i mod 32)"

definition bm_ok :: "bitmap \<Rightarrow> bool" where
  "bm_ok b \<longleftrightarrow> length (bdata b) = 1 + bsize b div 32 \<and> block b = 0 \<and> 1 \<le> bsize b
     \<and> bpos b \<le> bsize b \<and> bused b = card {i. i < bsize b \<and> marked b i}"

definition bm_len :: "bitmap \<Rightarrow> bool" where
  "bm_len b \<longleftrightarrow> length (bdata b) = 1 + bsize b div 32 \<and> 1 \<le> bsize b"

lemma drop_bit_and_1: "drop_bit n (w :: 32 word) AND 1 = (if bit w n then 1 else 0)"
  by (simp add: and_one_eq mod_2_eq_odd bit_iff_odd_drop_bit [symmetric])

lemma GetBit_ok:
  "bm_len b \<Longrightarrow> i \<le> bsize b \<Longrightarrow> GetBit (bdata b) i = Inr (if marked b i then 1 else 0)"
  by (simp add: GetBit_def bm_len_def marked_def drop_bit_and_1 Let_def div_le_mono le_imp_less_Suc)

lemma word_index_less: "bm_len b \<Longrightarrow> i < bsize b \<Longrightarrow> i div 32 < bsize b"
  by (meson div_le_dividend order_le_less_trans)

lemma SetBit_ok:
  assumes "bm_len b" "i < bsize b"
  obtains b' where "SetBit b i = Inr b'" "bm_len b'" "bsize b' = bsize b" "bused b' = bused b"
    "bpos b' = bpos b" "block b' = block b" "\<And>j. marked b' j \<longleftrightarrow> marked b j \<or> j = i"
proof -
  let ?b' = "b\<lparr>bdata := (bdata b)[i div 32 := (bdata b ! (i div 32)) OR push_bit (i mod 32) 1]\<rparr>"
  have l: "i div 32 < length (bdata b)"
    using assms by (simp add: bm_len_def div_le_mono le_imp_less_Suc)
  have "marked ?b' j \<longleftrightarrow> marked b j \<or> j = i" for j
  proof (cases "j div 32 = i div 32")
    case True
    then have "j mod 32 = i mod 32 \<longleftrightarrow> j = i"
      by (metis div_mult_mod_eq)
    then show ?thesis
      using l True by (auto simp: marked_def bit_simps)
  qed (use l in \<open>auto simp: marked_def\<close>)
  moreover have "SetBit b i = Inr ?b'"
    using l word_index_less [OF assms] by (simp add: SetBit_def Let_def)
  ultimately show thesis
    using that [of ?b'] assms(1) by (simp add: bm_len_def)
qed

definition marks :: "bitmap \<Rightarrow> nat set" where
  "marks b = {i. i < bsize b \<and> marked b i}"

definition same_frame :: "bitmap \<Rightarrow> bitmap \<Rightarrow> bool" where
  "same_frame b b' \<longleftrightarrow> bsize b' = bsize b \<and> bpos b' = bpos b \<and> block b' = block b \<and> bm_len b'"

lemma finite_marks [simp]: "finite (marks b)"
  by (simp add: marks_def)

lemma marked_frame [simp]:
  "marked (b\<lparr>block := x\<rparr>) = marked b" "marked (b\<lparr>bpos := n\<rparr>) = marked b"
  "marked (b\<lparr>bused := n\<rparr>) = marked b" "marks (b\<lparr>block := x\<rparr>) = marks b"
  by (simp_all add: marks_def marked_def fun_eq_iff)

lemma bm_ok_marks:
  "bm_ok b \<longleftrightarrow> length (bdata b) = 1 + bsize b div 32 \<and> block b = 0 \<and> 1 \<le> bsize b
     \<and> bpos b \<le> bsize b \<and> bused b = card (marks b)"
  by (simp add: bm_ok_def marks_def)

lemma markRange_ok:
  assumes "bm_len b" "p + n \<le> bsize b"
  shows "\<exists>b'. markRange b p n = Inr b' \<and> same_frame b b'
    \<and> (\<forall>j. marked b' j \<longleftrightarrow> marked b j \<or> p \<le> j \<and> j < p + n)
    \<and> bused b' + card (marks b) = bused b + card (marks b')"
  using assms
proof (induction n arbitrary: b p)
  case 0
  then show ?case by (auto simp: same_frame_def)
next
  case (Suc n)
  have step: "\<exists>b1. (if (if marked b p then 1 else 0 :: 32 word) = 0
        then bindE (SetBit b p) (\<lambda>b. Inr (b\<lparr>bused := bused b + 1\<rparr>)) else Inr b) = Inr b1
      \<and> same_frame b b1 \<and> (\<forall>j. marked b1 j \<longleftrightarrow> marked b j \<or> j = p)
      \<and> bused b1 + card (marks b) = bused b + card (marks b1)"
  proof (cases "marked b p")
    case True
    then show ?thesis using Suc.prems by (auto simp: same_frame_def)
  next
    case False
    obtain c where c: "SetBit b p = Inr c" "bm_len c" "bsize c = bsize b" "bused c = bused b"
      "bpos c = bpos b" "block c = block b" "\<And>j. marked c j \<longleftrightarrow> marked b j \<or> j = p"
      using SetBit_ok [of b p] Suc.prems by auto
    let ?b1 = "c\<lparr>bused := bused c + 1\<rparr>"
    have m: "marked ?b1 j \<longleftrightarrow> marked b j \<or> j = p" for j
      using c(7) by (simp add: marked_def)
    have "marks ?b1 = insert p (marks b)" "p \<notin> marks b"
      using m c(3) Suc.prems(2) False by (auto simp: marks_def)
    then show ?thesis
      using False c m by (auto simp: same_frame_def bm_len_def)
  qed
  then obtain b1 where b1: "(if (if marked b p then 1 else 0 :: 32 word) = 0
        then bindE (SetBit b p) (\<lambda>b. Inr (b\<lparr>bused := bused b + 1\<rparr>)) else Inr b) = Inr b1"
      "same_frame b b1" "\<forall>j. marked b1 j \<longleftrightarrow> marked b j \<or> j = p"
      "bused b1 + card (marks b) = bused b + card (marks b1)"
    by blast
  have "bm_len b1" "p + 1 + n \<le> bsize b1"
    using b1(2) Suc.prems(2) by (auto simp: same_frame_def)
  from Suc.IH [OF this] obtain b' where b': "markRange b1 (p + 1) n = Inr b'" "same_frame b1 b'"
    "\<forall>j. marked b' j \<longleftrightarrow> marked b1 j \<or> p + 1 \<le> j \<and> j < p + 1 + n"
    "bused b' + card (marks b1) = bused b1 + card (marks b')"
    by blast
  have r: "markRange b p (Suc n) = Inr b'"
    using Suc.prems b'(1) by (simp only: markRange.simps GetBit_ok bindE_Inr b1(1))
  have "same_frame b b'" using b1(2) b'(2) by (simp add: same_frame_def)
  moreover have "\<forall>j. marked b' j \<longleftrightarrow> marked b j \<or> p \<le> j \<and> j < p + Suc n"
    using b1(3) b'(3) by auto
  moreover have "bused b' + card (marks b) = bused b + card (marks b')"
    using b1(4) b'(4) by simp
  ultimately show ?case using r by blast
qed

lemma setBits_ok:
  assumes "bm_len b" "p + n \<le> bsize b"
  shows "\<exists>b'. setBits b p n = Inr b' \<and> same_frame b b' \<and> bused b' = bused b
    \<and> (\<forall>j. marked b' j \<longleftrightarrow> marked b j \<or> p \<le> j \<and> j < p + n)"
  using assms
proof (induction n arbitrary: b p)
  case 0
  then show ?case by (auto simp: same_frame_def)
next
  case (Suc n)
  obtain c where c: "SetBit b p = Inr c" "bm_len c" "bsize c = bsize b" "bused c = bused b"
    "bpos c = bpos b" "block c = block b" "\<And>j. marked c j \<longleftrightarrow> marked b j \<or> j = p"
    using SetBit_ok [of b p] Suc.prems by auto
  have "p + 1 + n \<le> bsize c" using c(3) Suc.prems(2) by simp
  from Suc.IH [OF c(2) this] obtain b' where b': "setBits c (p + 1) n = Inr b'" "same_frame c b'"
    "bused b' = bused c" "\<forall>j. marked b' j \<longleftrightarrow> marked c j \<or> p + 1 \<le> j \<and> j < p + 1 + n"
    by blast
  have r: "setBits b p (Suc n) = Inr b'"
    using c(1) b'(1) by simp
  have "marked b' j \<longleftrightarrow> marked b j \<or> p \<le> j \<and> j < p + Suc n" for j
  proof -
    have "j = p \<or> p + 1 \<le> j \<and> j < p + 1 + n \<longleftrightarrow> p \<le> j \<and> j < p + Suc n" by arith
    then show ?thesis using b'(4) c(7) [of j] by blast
  qed
  then have "\<forall>j. marked b' j \<longleftrightarrow> marked b j \<or> p \<le> j \<and> j < p + Suc n" by blast
  moreover have "same_frame b b'" "bused b' = bused b"
    using b'(2,3) c by (auto simp: same_frame_def)
  ultimately show ?case using r by blast
qed

lemma probe_ok:
  assumes "bm_len b" "p + n \<le> bsize b"
  shows "probe (bdata b) p n =
    Inr (if \<exists>i<n. marked b (p + i) then Some (LEAST i. marked b (p + i)) else None)"
  using assms(2)
proof (induction n arbitrary: p)
  case 0
  then show ?case by simp
next
  case (Suc n)
  show ?case
  proof (cases "marked b p")
    case True
    then have "(LEAST i. marked b (p + i)) = 0" by (simp add: Least_equality)
    then show ?thesis
      using True Suc.prems assms(1) by (auto simp: GetBit_ok)
  next
    case False
    have ex: "(\<exists>i<Suc n. marked b (p + i)) \<longleftrightarrow> (\<exists>i<n. marked b (p + 1 + i))"
      using False by (auto simp: less_Suc_eq_0_disj)
    have "(LEAST i. marked b (p + i)) = Suc (LEAST i. marked b (p + 1 + i))"
      if hit: "\<exists>i<n. marked b (p + 1 + i)"
    proof -
      obtain i where "marked b (p + 1 + i)" using hit by blast
      then have "marked b (p + Suc i)" by simp
      then show ?thesis
        using Least_Suc [of "\<lambda>i. marked b (p + i)" "Suc i"] False by simp
    qed
    moreover have "probe (bdata b) (p + 1) n =
      Inr (if \<exists>i<n. marked b (p + 1 + i) then Some (LEAST i. marked b (p + 1 + i)) else None)"
      using Suc.prems by (intro Suc.IH) simp
    ultimately show ?thesis
      using False Suc.prems assms(1) ex by (simp add: GetBit_ok)
  qed
qed

definition free_run :: "bitmap \<Rightarrow> nat \<Rightarrow> nat \<Rightarrow> bool" where
  "free_run b s n \<longleftrightarrow> s + n \<le> bsize b \<and> (\<forall>i<n. \<not> marked b (s + i))"

lemma probe_cases:
  assumes "bm_len b" "p + n \<le> bsize b"
  obtains (free) "probe (bdata b) p n = Inr None" "free_run b p n"
    | (hit) i where "probe (bdata b) p n = Inr (Some i)" "i < n" "marked b (p + i)"
proof (cases "\<exists>i<n. marked b (p + i)")
  case True
  then obtain i where "i < n" "marked b (p + i)" by blast
  then have "(LEAST i. marked b (p + i)) < n" "marked b (p + (LEAST i. marked b (p + i)))"
    by (meson LeastI Least_le order_le_less_trans)+
  then show thesis using hit probe_ok [OF assms] True by simp
next
  case False
  then show thesis using free probe_ok [OF assms] assms(2) by (auto simp: free_run_def)
qed

subsection \<open>Range allocation\<close>

text \<open>
  How far the search has to go from \<open>cur\<close> to reach position \<open>s\<close>: straight on, or over the end
  and round again.
\<close>

definition search_dist :: "nat \<Rightarrow> nat \<Rightarrow> nat \<Rightarrow> nat" where
  "search_dist sz cur s = (if cur \<le> s then s - cur else sz - cur + s)"

definition allocated :: "bitmap \<Rightarrow> nat \<Rightarrow> nat \<Rightarrow> bitmap \<Rightarrow> bool" where
  "allocated b c req b' \<longleftrightarrow> free_run b c req \<and> bm_len b' \<and> bsize b' = bsize b \<and> block b' = block b
     \<and> bpos b' = c + req \<and> bused b' = bused b + req
     \<and> (\<forall>j. marked b' j \<longleftrightarrow> marked b j \<or> c \<le> j \<and> j < c + req)"

lemma free_run_step:
  assumes "free_run b s req" "marked b (cur + i)" "i < req" "cur + req \<le> bsize b" "cur \<le> bsize b"
    "1 \<le> req"
  defines "next \<equiv> (if cur + i + 1 \<ge> bsize b then cur + i + 1 - bsize b else cur + i + 1)"
  shows "next \<le> bsize b \<and> i + 1 + search_dist (bsize b) next s = search_dist (bsize b) cur s"
proof -
  have "\<not> (s \<le> cur + i \<and> cur + i < s + req)"
  proof
    assume "s \<le> cur + i \<and> cur + i < s + req"
    then have "cur + i = s + (cur + i - s)" "cur + i - s < req" by linarith+
    then show False using assms(1,2) unfolding free_run_def by metis
  qed
  moreover have "s < bsize b" using assms(1,6) by (simp add: free_run_def)
  ultimately show ?thesis
    using assms(3,4,5) unfolding next_def search_dist_def by (auto split: if_splits)
qed

lemma allocLoop_ok:
  assumes "bm_len b" "1 \<le> req" "req \<le> bsize b" "cur \<le> bsize b"
  shows "\<exists>b' r. allocLoop b req cur dist = Inr (b', r)
    \<and> (r = -1 \<and> b' = b \<or> (\<exists>c. r = int c \<and> allocated b c req b'))
    \<and> (\<forall>s. free_run b s req \<and> dist + search_dist (bsize b) cur s < bsize b \<longrightarrow> r \<noteq> -1)"
  using assms
proof (induction b req cur dist rule: allocLoop.induct)
  case (1 b req cur dist)
  define c where "c = (if cur + req > bsize b then 0 else cur)"
  have c: "c + req \<le> bsize b" "c \<le> bsize b"
    using "1.prems" by (auto simp: c_def)
  show ?case
  proof (cases "dist < bsize b")
    case False
    then show ?thesis by (simp add: allocLoop.simps [of b req cur dist])
  next
    case True
    note unfold = allocLoop.simps [of b req cur dist] c_def [symmetric]
    have closer: "search_dist (bsize b) c s \<le> search_dist (bsize b) cur s" if "free_run b s req" for s
      using that "1.prems" by (auto simp: c_def search_dist_def free_run_def)
    show ?thesis
      using "1.prems"(1) c(1)
    proof (cases rule: probe_cases)
      case free
      obtain b1 where b1: "setBits b c req = Inr b1" "same_frame b b1" "bused b1 = bused b"
        "\<forall>j. marked b1 j \<longleftrightarrow> marked b j \<or> c \<le> j \<and> j < c + req"
        using setBits_ok [OF "1.prems"(1) c(1)] by blast
      let ?b2 = "b1\<lparr>bpos := c + req, bused := bused b1 + req\<rparr>"
      have "allocated b c req ?b2"
        using free(2) b1(2-4) by (auto simp: allocated_def same_frame_def bm_len_def marked_def)
      moreover have "allocLoop b req cur dist = Inr (?b2, int c)"
        unfolding unfold Let_def using True free(1) b1(1) by simp
      ultimately show ?thesis by auto
    next
      case (hit i)
      let ?next = "if c + i + 1 \<ge> bsize b then c + i + 1 - bsize b else c + i + 1"
      have eq: "allocLoop b req cur dist = allocLoop b req ?next (dist + (i + 1))"
        unfolding unfold Let_def using True hit(1) by simp
      have "?next \<le> bsize b" using c hit(2) by auto
      then have IH: "\<exists>b' r. allocLoop b req ?next (dist + (i + 1)) = Inr (b', r)
        \<and> (r = -1 \<and> b' = b \<or> (\<exists>c. r = int c \<and> allocated b c req b'))
        \<and> (\<forall>s. free_run b s req \<and> dist + (i + 1) + search_dist (bsize b) ?next s < bsize b \<longrightarrow> r \<noteq> -1)"
        using "1.IH" [OF True c_def hit(1) refl refl] "1.prems" hit(2) by simp
      have "dist + (i + 1) + search_dist (bsize b) ?next s < bsize b"
        if "free_run b s req" "dist + search_dist (bsize b) cur s < bsize b" for s
        using free_run_step [OF that(1) hit(3,2) c "1.prems"(2)] closer [OF that(1)] that(2) by simp
      with IH show ?thesis unfolding eq by blast
    qed
  qed
qed

lemma card_marks_le: "card (marks b) \<le> bsize b"
proof -
  have "marks b \<subseteq> {..<bsize b}" by (auto simp: marks_def)
  then have "card (marks b) \<le> card {..<bsize b}" by (rule card_mono [rotated]) simp
  then show ?thesis by simp
qed

lemma free_run_room:
  assumes "free_run b s n"
  shows "n + card (marks b) \<le> bsize b"
proof -
  have sub: "marks b \<union> {s..<s + n} \<subseteq> {..<bsize b}" "marks b \<inter> {s..<s + n} = {}"
    using assms unfolding marks_def free_run_def
    by (auto simp: le_iff_add)
  then have "card (marks b) + n = card (marks b \<union> {s..<s + n})"
    by (subst card_Un_disjoint) auto
  also have "\<dots> \<le> card {..<bsize b}"
    using sub(1) by (rule card_mono [rotated]) simp
  finally show ?thesis by simp
qed

lemma allocated_ok:
  assumes "bm_ok (b\<lparr>block := 0\<rparr>)" "allocated b c req b'"
  shows "bm_ok (b'\<lparr>block := 0\<rparr>)"
proof -
  have "marks b' = marks b \<union> {c..<c + req}" "marks b \<inter> {c..<c + req} = {}"
    using assms(2) unfolding allocated_def free_run_def marks_def by (auto simp: le_iff_add)
  then have "card (marks b') = card (marks b) + req"
    by (simp add: card_Un_disjoint)
  then show ?thesis
    using assms by (simp add: bm_ok_marks allocated_def free_run_def bm_len_def)
qed

lemma CreateBitmap_ok: "1 \<le> n \<Longrightarrow> bm_ok (CreateBitmap n) \<and> marks (CreateBitmap n) = {}"
proof -
  have "\<not> marked (CreateBitmap n) i" if "i < n" for i
  proof -
    have "replicate (1 + n div 32) (0 :: 32 word) ! (i div 32) = 0"
      using that by (intro nth_replicate) (simp add: div_le_mono le_imp_less_Suc)
    then show ?thesis by (simp only: marked_def CreateBitmap_def bitmap.simps) simp
  qed
  then have "marks (CreateBitmap n) = {}"
    by (auto simp: marks_def CreateBitmap_def)
  then show "1 \<le> n \<Longrightarrow> ?thesis"
    by (simp add: bm_ok_marks) (simp add: CreateBitmap_def)
qed

lemma bm_ok_len: "bm_ok b \<Longrightarrow> bm_len b"
  by (simp add: bm_ok_def bm_len_def)

lemma AllocBitmapRange_spec:
  assumes ok: "bm_ok b" and req: "1 \<le> req"
  shows "\<exists>b' r. AllocBitmapRange b req = Inr (b', r) \<and> bm_ok b' \<and> bsize b' = bsize b
    \<and> (r = -1 \<and> b' = b \<and> (\<forall>s. \<not> free_run b s req)
       \<or> (\<exists>c. r = int c \<and> free_run b c req
            \<and> (\<forall>j. marked b' j \<longleftrightarrow> marked b j \<or> c \<le> j \<and> j < c + req)))"
proof -
  let ?b = "b\<lparr>block := 1\<rparr>"
  have lock: "Lock b = Inr ?b" "block b = 0"
    using ok by (simp_all add: Lock_def TestAndSet_def bm_ok_def)
  have frame: "bsize ?b = bsize b" "bpos ?b = bpos b" "bused ?b = bused b" "Unlock ?b = b"
    "free_run ?b = free_run b"
    using lock(2) by (simp_all add: Unlock_def free_run_def fun_eq_iff)
  have restore: "b\<lparr>block := 0\<rparr> = b"
    using lock(2) by simp
  show ?thesis
  proof (cases "req + bused b \<le> bsize b")
    case True
    have "bm_len ?b" "req \<le> bsize ?b" "bpos b \<le> bsize ?b"
      using ok True by (auto simp: bm_ok_def bm_len_def)
    from allocLoop_ok [OF this(1) req this(2,3), of 0]
    obtain b' r where b': "allocLoop ?b req (bpos b) 0 = Inr (b', r)"
      "r = -1 \<and> b' = ?b \<or> (\<exists>c. r = int c \<and> allocated ?b c req b')"
      "\<forall>s. free_run b s req \<and> search_dist (bsize b) (bpos b) s < bsize b \<longrightarrow> r \<noteq> -1"
      unfolding frame by auto
    have A: "AllocBitmapRange b req = Inr (Unlock b', r)"
      using lock(1) True b'(1) by (simp add: AllocBitmapRange_def)
    have near: "search_dist (bsize b) (bpos b) s < bsize b" if "free_run b s req" for s
      using that req ok by (auto simp: search_dist_def free_run_def bm_ok_def)
    from b'(2) show ?thesis
    proof
      assume "r = -1 \<and> b' = ?b"
      then show ?thesis
        using A b'(3) near ok frame(4) by auto
    next
      assume "\<exists>c. r = int c \<and> allocated ?b c req b'"
      then obtain c where c: "r = int c" "allocated ?b c req b'" by blast
      have "bm_ok (b'\<lparr>block := 0\<rparr>)"
        using allocated_ok [of ?b c req b'] c(2) ok restore by simp
      then show ?thesis
        using A c frame(5) by (auto simp: Unlock_def allocated_def)
    qed
  next
    case False
    then have "\<not> free_run b s req" for s
      using free_run_room [of b s req] ok by (auto simp: bm_ok_marks)
    moreover have "AllocBitmapRange b req = Inr (b, -1)"
      using lock(1) False frame by (simp add: AllocBitmapRange_def)
    ultimately show ?thesis using ok by auto
  qed
qed

lemma SetBitmapRange_spec:
  assumes ok: "bm_ok b" and fits: "start + n \<le> bsize b"
  obtains b' where "SetBitmapRange b start n = Inr b'" "bm_ok b'" "bsize b' = bsize b"
    "\<forall>j. marked b' j \<longleftrightarrow> marked b j \<or> start \<le> j \<and> j < start + n"
proof -
  let ?b = "b\<lparr>block := 1\<rparr>"
  have lock: "Lock b = Inr ?b"
    using ok by (simp add: Lock_def TestAndSet_def bm_ok_def)
  have "bm_len ?b" "start + n \<le> bsize ?b"
    using ok fits by (simp_all add: bm_ok_def bm_len_def)
  from markRange_ok [OF this] obtain b' where b': "markRange ?b start n = Inr b'" "same_frame ?b b'"
    "\<forall>j. marked b' j \<longleftrightarrow> marked b j \<or> start \<le> j \<and> j < start + n"
    "bused b' + card (marks b) = bused b + card (marks b')"
    by auto
  show thesis
  proof (rule that)
    show "SetBitmapRange b start n = Inr (Unlock b')"
      using lock b'(1) by (simp add: SetBitmapRange_def)
    show "bm_ok (Unlock b')"
      using ok b'(2,4) by (simp add: bm_ok_marks Unlock_def same_frame_def bm_len_def)
  qed (use b' in \<open>simp_all add: Unlock_def same_frame_def\<close>)
qed

lemma ClearBitmap_spec:
  assumes "bm_ok b"
  obtains b' where "ClearBitmap b = Inr b'" "bm_ok b'" "bsize b' = bsize b" "marks b' = {}"
proof -
  let ?n = "DivideUp (bsize b) 32"
  have len: "length (bdata b) = 1 + bsize b div 32" "?n \<le> 1 + bsize b div 32"
    using assms by (simp_all add: bm_ok_def DivideUp_def) 
  let ?b' = "b\<lparr>bdata := replicate ?n 0 @ drop ?n (bdata b), bused := 0, bpos := 0\<rparr>"
  have "i div 32 < ?n" if "i < bsize b" for i
  proof -
    have "32 * ?n \<ge> bsize b" using DivideUp_le [of 32 "bsize b"] by simp
    with that show ?thesis by (simp add: div_less_iff_less_mult)
  qed
  then have "marks ?b' = {}"
    by (auto simp: marks_def marked_def nth_append)
  then show thesis
    using that [of ?b'] len assms by (simp add: ClearBitmap_def Let_def bm_ok_marks)
qed

text \<open>
  What a client of an allocator of ranges may rely on: an allocation marks exactly a range that
  was free, and reports failure only when no free range of that length exists.
\<close>

fun run_allocs :: "('s \<Rightarrow> nat \<Rightarrow> ('s \<times> int) result) \<Rightarrow> 's \<Rightarrow> nat list \<Rightarrow> ((nat \<times> nat) list \<times> 's) result" where
  \<comment> \<open>a sequence of requests; the ranges handed out, with their lengths\<close>
  "run_allocs alloc s [] = Inr ([], s)"
| "run_allocs alloc s (n # ns) =
     bindE (alloc s n) (\<lambda>(s, r).
     bindE (run_allocs alloc s ns) (\<lambda>(rs, s).
     Inr ((if r = -1 then rs else (nat r, n) # rs), s)))"

locale range_allocator =
  fixes alloc :: "'s \<Rightarrow> nat \<Rightarrow> ('s \<times> int) result"
    and occupied :: "'s \<Rightarrow> nat \<Rightarrow> bool"
    and capacity :: "'s \<Rightarrow> nat"
    and ok :: "'s \<Rightarrow> bool"
  assumes alloc_law: "ok s \<Longrightarrow> 1 \<le> n \<Longrightarrow>
      \<exists>s' r. alloc s n = Inr (s', r) \<and> ok s' \<and> capacity s' = capacity s
        \<and> (r = -1 \<and> s' = s \<and> (\<forall>c. c + n \<le> capacity s \<longrightarrow> (\<exists>i<n. occupied s (c + i)))
           \<or> (\<exists>c. r = int c \<and> c + n \<le> capacity s \<and> (\<forall>i<n. \<not> occupied s (c + i))
                \<and> (\<forall>j. occupied s' j \<longleftrightarrow> occupied s j \<or> c \<le> j \<and> j < c + n)))"
begin

lemma run_allocs_disjoint:
  assumes "ok s" "\<forall>n \<in> set ns. 1 \<le> n"
  shows "\<exists>rs s'. run_allocs alloc s ns = Inr (rs, s') \<and> ok s' \<and> capacity s' = capacity s
    \<and> (\<forall>(c, n) \<in> set rs. 1 \<le> n \<and> c + n \<le> capacity s \<and> (\<forall>j. c \<le> j \<and> j < c + n \<longrightarrow> \<not> occupied s j))
    \<and> sorted_wrt (\<lambda>(c, n) (d, m). c + n \<le> d \<or> d + m \<le> c) rs"
  using assms
proof (induction ns arbitrary: s)
  case Nil
  then show ?case by simp
next
  case (Cons n ns)
  obtain s1 r where a: "alloc s n = Inr (s1, r)" "ok s1" "capacity s1 = capacity s"
    "r = -1 \<and> s1 = s \<or> (\<exists>c. r = int c \<and> c + n \<le> capacity s \<and> (\<forall>i<n. \<not> occupied s (c + i))
                \<and> (\<forall>j. occupied s1 j \<longleftrightarrow> occupied s j \<or> c \<le> j \<and> j < c + n))"
    using alloc_law [OF Cons.prems(1), of n] Cons.prems(2) by auto
  obtain rs s2 where b: "run_allocs alloc s1 ns = Inr (rs, s2)" "ok s2" "capacity s2 = capacity s1"
    "\<forall>(c, n) \<in> set rs. 1 \<le> n \<and> c + n \<le> capacity s1 \<and> (\<forall>j. c \<le> j \<and> j < c + n \<longrightarrow> \<not> occupied s1 j)"
    "sorted_wrt (\<lambda>(c, n) (d, m). c + n \<le> d \<or> d + m \<le> c) rs"
    using Cons.IH [OF a(2)] Cons.prems(2) by auto
  from a(4) show ?case
  proof
    assume "r = -1 \<and> s1 = s"
    then show ?thesis using a b by auto
  next
    assume "\<exists>c. r = int c \<and> c + n \<le> capacity s \<and> (\<forall>i<n. \<not> occupied s (c + i))
                \<and> (\<forall>j. occupied s1 j \<longleftrightarrow> occupied s j \<or> c \<le> j \<and> j < c + n)"
    then obtain c where c: "r = int c" "c + n \<le> capacity s" "\<forall>i<n. \<not> occupied s (c + i)"
      "\<forall>j. occupied s1 j \<longleftrightarrow> occupied s j \<or> c \<le> j \<and> j < c + n" by blast
    have free: "\<not> occupied s j" if "c \<le> j" "j < c + n" for j
      using c(3) that by (metis add_less_cancel_left le_add_diff_inverse)
    have apart: "c + n \<le> d \<or> d + m \<le> c" if "(d, m) \<in> set rs" for d m
    proof (rule ccontr)
      assume "\<not> (c + n \<le> d \<or> d + m \<le> c)"
      moreover have m: "1 \<le> m" "\<forall>j. d \<le> j \<and> j < d + m \<longrightarrow> \<not> occupied s1 j"
        using b(4) that by auto
      ultimately have "d \<le> max c d \<and> max c d < d + m \<and> c \<le> max c d \<and> max c d < c + n"
        using Cons.prems(2) by auto
      then show False using m(2) c(4) by blast
    qed
    have "n \<ge> 1" using Cons.prems(2) by simp
    moreover have "run_allocs alloc s (n # ns) = Inr ((c, n) # rs, s2)"
      using a(1) b(1) c(1) by simp
    moreover have "sorted_wrt (\<lambda>(c, n) (d, m). c + n \<le> d \<or> d + m \<le> c) ((c, n) # rs)"
      using b(5) apart by auto
    moreover have "1 \<le> m \<and> d + m \<le> capacity s \<and> (\<forall>j. d \<le> j \<and> j < d + m \<longrightarrow> \<not> occupied s j)"
      if "(d, m) \<in> set rs" for d m
      using b(4) a(3) c(4) that by fastforce
    ultimately show ?thesis
      using a(3) b(2,3) c(2) free by (intro exI [of _ "(c, n) # rs"] exI [of _ s2]) auto
  qed
qed

end

interpretation bitmap_alloc: range_allocator AllocBitmapRange marked bsize bm_ok
proof
  fix b and n :: nat assume as: "bm_ok b" "1 \<le> n"
  from AllocBitmapRange_spec [OF as] obtain b' r where A: "AllocBitmapRange b n = Inr (b', r)" "bm_ok b'" "bsize b' = bsize b"
    and d: "r = -1 \<and> b' = b \<and> (\<forall>s. \<not> free_run b s n)
       \<or> (\<exists>c. r = int c \<and> free_run b c n
            \<and> (\<forall>j. marked b' j \<longleftrightarrow> marked b j \<or> c \<le> j \<and> j < c + n))"
    by (elim exE conjE)
  have "r = -1 \<and> b' = b \<and> (\<forall>c. c + n \<le> bsize b \<longrightarrow> (\<exists>i<n. marked b (c + i)))
           \<or> (\<exists>c. r = int c \<and> c + n \<le> bsize b \<and> (\<forall>i<n. \<not> marked b (c + i))
                \<and> (\<forall>j. marked b' j \<longleftrightarrow> marked b j \<or> c \<le> j \<and> j < c + n))"
    using d
  proof (elim disjE exE conjE)
    assume "r = -1" "b' = b" "\<forall>s. \<not> free_run b s n"
    then show ?thesis unfolding free_run_def by (intro disjI1) blast
  next
    fix c assume "r = int c" "free_run b c n" "\<forall>j. marked b' j \<longleftrightarrow> marked b j \<or> c \<le> j \<and> j < c + n"
    then show ?thesis unfolding free_run_def by (intro disjI2 exI [of _ c]) blast
  qed
  with A show "\<exists>s' r. AllocBitmapRange b n = Inr (s', r) \<and> bm_ok s' \<and> bsize s' = bsize b
        \<and> (r = -1 \<and> s' = b \<and> (\<forall>c. c + n \<le> bsize b \<longrightarrow> (\<exists>i<n. marked b (c + i)))
           \<or> (\<exists>c. r = int c \<and> c + n \<le> bsize b \<and> (\<forall>i<n. \<not> marked b (c + i))
                \<and> (\<forall>j. marked s' j \<longleftrightarrow> marked b j \<or> c \<le> j \<and> j < c + n)))"
    by (intro exI [of _ b'] exI [of _ r] conjI)
qed

text \<open>
  C33: \<open>AllocBitmapRange\<close> never overruns the bit array or fails its assertion, keeps the invariant
  (\<open>used\<close> is the number of set bits), hands out a range of clear bits and sets exactly those, and
  returns -1, with the bitmap unchanged, only when no range of \<open>req\<close> clear bits exists.
\<close>

theorem AllocBitmapRange_correct:
  assumes "bm_ok b" and "1 \<le> req"
  shows "\<exists>b' r. AllocBitmapRange b req = Inr (b', r) \<and> bm_ok b' \<and> bsize b' = bsize b
    \<and> (r = -1 \<and> b' = b \<and> (\<forall>s. \<not> free_run b s req)
       \<or> (\<exists>c. r = int c \<and> free_run b c req
            \<and> (\<forall>j. marked b' j \<longleftrightarrow> marked b j \<or> c \<le> j \<and> j < c + req)))"
  using assms by (rule AllocBitmapRange_spec)

theorem AllocBitmapRange_correct_witness:
  "\<exists>b' r. AllocBitmapRange (CreateBitmap 40) 3 = Inr (b', r) \<and> bm_ok b' \<and> bsize b' = bsize (CreateBitmap 40)
    \<and> (r = -1 \<and> b' = CreateBitmap 40 \<and> (\<forall>s. \<not> free_run (CreateBitmap 40) s 3)
       \<or> (\<exists>c. r = int c \<and> free_run (CreateBitmap 40) c 3
            \<and> (\<forall>j. marked b' j \<longleftrightarrow> marked (CreateBitmap 40) j \<or> c \<le> j \<and> j < c + 3)))"
  by (rule AllocBitmapRange_correct) (simp_all add: CreateBitmap_ok)

text \<open>
  C39: However many requests are made of a new bitmap, the ranges handed out lie inside it and no
  two of them overlap.
\<close>

theorem bitmap_allocations_disjoint:
  assumes "1 \<le> sz" and "\<forall>n \<in> set ns. 1 \<le> n"
  shows "\<exists>rs b. run_allocs AllocBitmapRange (CreateBitmap sz) ns = Inr (rs, b) \<and> bm_ok b
    \<and> (\<forall>(c, n) \<in> set rs. c + n \<le> sz)
    \<and> sorted_wrt (\<lambda>(c, n) (d, m). c + n \<le> d \<or> d + m \<le> c) rs"
proof -
  have "bm_ok (CreateBitmap sz)" "bsize (CreateBitmap sz) = sz"
    using CreateBitmap_ok [OF assms(1)] by (simp_all add: CreateBitmap_def)
  then show ?thesis
    using bitmap_alloc.run_allocs_disjoint [of "CreateBitmap sz" ns] assms(2) by fastforce
qed

theorem bitmap_allocations_disjoint_witness:
  "\<exists>rs b. run_allocs AllocBitmapRange (CreateBitmap 64) [3, 5, 60] = Inr (rs, b) \<and> bm_ok b
    \<and> (\<forall>(c, n) \<in> set rs. c + n \<le> 64)
    \<and> sorted_wrt (\<lambda>(c, n) (d, m). c + n \<le> d \<or> d + m \<le> c) rs"
  by (rule bitmap_allocations_disjoint) simp_all

end
