(* ===== verification/HeapObj.thy ===== *)
theory HeapObj
  imports Tags Bitmaps
begin

text \<open>
  Heaps, the contiguous regions objects are allocated from: \<open>Runtime/sparc/memobj.c\<close> (lines 418 to
  582) and the range and area primitives of \<open>sparc.h\<close> (lines 1646 to 1749).  A heap has a fixed
  mapped region (\<open>bottom\<close> to \<open>mappedTop\<close>), a logical size (\<open>top\<close>) that \<open>Heap_Resize\<close> changes and a
  \<open>cursor\<close>, the next free word.  The addresses that \<open>mmap\<close> returns and the answers of \<open>mprotect\<close>
  are arguments; the mutex of a heap is not modelled.
\<close>

definition TILT_PAGESIZE :: nat where
  "TILT_PAGESIZE = 8192"

definition NumHeap :: nat where
  "NumHeap = 20"

subsection \<open>Ranges\<close>

record range_t =
  low :: addr
  high :: addr
  diff :: "32 word"     \<comment> \<open>in bytes\<close>

definition SetRange :: "addr \<Rightarrow> addr \<Rightarrow> range_t" where
  "SetRange lo hi = \<lparr>low = lo, high = hi, diff = word_of_nat hi - word_of_nat lo\<rparr>"

definition InRange :: "addr \<Rightarrow> range_t \<Rightarrow> bool" where
  \<comment> \<open>one unsigned comparison: an address below \<open>low\<close> wraps around to a large difference\<close>
  "InRange a r \<longleftrightarrow> (word_of_nat a - word_of_nat (low r) :: 32 word) \<le> diff r"

definition NotInRange :: "addr \<Rightarrow> range_t \<Rightarrow> bool" where
  "NotInRange a r \<longleftrightarrow> (word_of_nat a - word_of_nat (low r) :: 32 word) > diff r"

definition range_ok :: "range_t \<Rightarrow> bool" where
  "range_ok r \<longleftrightarrow> low r \<le> high r \<and> high r < 2 ^ 32 \<and> diff r = word_of_nat (high r - low r)"

lemma SetRange_ok [simp]: "lo \<le> hi \<Longrightarrow> hi < 2 ^ 32 \<Longrightarrow> range_ok (SetRange lo hi)"
  by (simp add: range_ok_def SetRange_def)

lemma SetRange_sel [simp]: "low (SetRange lo hi) = lo" "high (SetRange lo hi) = hi"
  by (simp_all add: SetRange_def)

lemma InRange_iff:
  assumes "range_ok r" and "a < 2 ^ 32"
  shows "InRange a r \<longleftrightarrow> low r \<le> a \<and> a \<le> high r"
proof -
  have lo: "low r < 2 ^ 32" and d: "high r - low r < 2 ^ 32"
    using assms(1) by (auto simp: range_ok_def)
  have ud: "unat (diff r) = high r - low r"
    using assms(1) d by (simp add: range_ok_def unat_of_nat take_bit_eq_mod del: of_nat_diff)
  show ?thesis
  proof (cases "low r \<le> a")
    case True
    then have "word_of_nat a - word_of_nat (low r) = (word_of_nat (a - low r) :: 32 word)"
      by simp
    then have "unat (word_of_nat a - word_of_nat (low r) :: 32 word) = a - low r"
      using assms(2) by (simp add: unat_of_nat take_bit_eq_mod del: of_nat_diff)
    then show ?thesis
      using True assms(1) ud by (auto simp: InRange_def word_le_nat_alt range_ok_def le_diff_iff)
  next
    case False
    have "unat (word_of_nat a - word_of_nat (low r) :: 32 word) = a + 2 ^ 32 - low r"
    proof -
      have "\<not> (word_of_nat (low r) :: 32 word) \<le> word_of_nat a"
        using False lo assms(2) by (simp add: word_le_nat_alt unat_of_nat take_bit_eq_mod)
      then show ?thesis
        using lo assms(2) False
        by (simp add: unat_sub_if' word_le_nat_alt unat_of_nat take_bit_eq_mod)
    qed
    then have "high r - low r < unat (word_of_nat a - word_of_nat (low r) :: 32 word)"
      using assms(1) lo by (auto simp: range_ok_def)
    then show ?thesis
      using False ud by (simp add: InRange_def word_le_nat_alt)
  qed
qed

lemma NotInRange_iff: "NotInRange a r \<longleftrightarrow> \<not> InRange a r"
  by (simp add: NotInRange_def InRange_def not_le)

subsection \<open>Reading and writing memory\<close>

fun getTagLoop :: "nat \<Rightarrow> memory \<Rightarrow> val \<Rightarrow> val result" where
  \<comment> \<open>the second loop of \<open>getTag\<close>: follow forwarding pointers\<close>
  "getTagLoop 0 m t = Inl OutOfFuel"
| "getTagLoop (Suc n) m t = (if TAG_IS_FORWARD t then getTagLoop n m (m (unat t - 4)) else Inr t)"

lemma getTagLoop_stop: "0 < n \<Longrightarrow> \<not> TAG_IS_FORWARD t \<Longrightarrow> getTagLoop n m t = Inr t"
  by (cases n) auto

definition getTag :: "nat \<Rightarrow> memory \<Rightarrow> addr \<Rightarrow> val result" where
  \<comment> \<open>a tag that stays \<open>STALL_TAG\<close> is waited for, forwarding pointers are followed\<close>
  "getTag fuel m obj = (if m (obj - 4) = STALL_TAG then Inl (Spin ''getTag'') else getTagLoop fuel m (m (obj - 4)))"

datatype align_t = NoWordAlign | OddWordAlign | EvenWordAlign

definition AlignMemoryPointer :: "memory \<Rightarrow> addr \<Rightarrow> align_t \<Rightarrow> addr \<times> memory" where
  "AlignMemoryPointer m a align =
     (let curEven = (a mod 8 = 0)
      in if align = OddWordAlign \<and> curEven \<or> align = EvenWordAlign \<and> \<not> curEven
         then (a + 4, m(a := MAKE_SKIP 1))
         else (a, m))"

definition PadHeapArea :: "memory \<Rightarrow> addr \<Rightarrow> addr \<Rightarrow> memory result" where
  "PadHeapArea m lo hi =
     (if lo > hi then Inl (Die ''PadHeapArea failing beause bottom > top'')
      else if lo < hi then Inr (m(lo := MAKE_SKIP (word_of_nat ((hi - lo) div 4))))
      else Inr m)"

subsection \<open>Heaps\<close>

record heap =
  hid :: nat
  hvalid :: bool
  hbottom :: addr
  htop :: addr
  hmapped :: addr
  hwriteable :: addr
  hcursor :: addr
  hsize :: nat
  hrange :: range_t
  hfresh :: "32 word list"
  hstarts :: "bitmap option"     \<comment> \<open>the field \<open>bitmap\<close>: object starts, for debugging\<close>

record heaps =
  Heaps :: "heap list"
  heap_count :: nat

definition emptyHeap :: "nat \<Rightarrow> heap" where
  "emptyHeap i = \<lparr>hid = i, hvalid = False, hbottom = 0, htop = 0, hmapped = 0, hwriteable = 0,
     hcursor = 0, hsize = 0, hrange = SetRange 0 0, hfresh = [], hstarts = None\<rparr>"

definition HeapInitialize :: heaps where
  "HeapInitialize = \<lparr>Heaps = map emptyHeap [0..<NumHeap], heap_count = 0\<rparr>"

fun findHeap :: "(heap \<Rightarrow> bool) \<Rightarrow> nat \<Rightarrow> heap list \<Rightarrow> nat option" where
  \<comment> \<open>the search loop of \<open>GetHeap\<close> and \<open>inSomeHeap\<close>\<close>
  "findHeap P i [] = None"
| "findHeap P i (h # hs) = (if hvalid h \<and> hid h = i \<and> P h then Some i else findHeap P (i + 1) hs)"

definition GetHeap :: "heaps \<Rightarrow> addr \<Rightarrow> nat option" where
  "GetHeap hs a = findHeap (\<lambda>h. hbottom h \<le> a \<and> htop h \<ge> a) 0 (Heaps hs)"

definition inHeap :: "addr \<Rightarrow> heap \<Rightarrow> bool" where
  "inHeap v h \<longleftrightarrow> (word_of_nat v - word_of_nat (hbottom h) :: 32 word) < word_of_nat (hsize h)"

definition inSomeHeap :: "heaps \<Rightarrow> addr \<Rightarrow> bool" where
  "inSomeHeap hs v \<longleftrightarrow> findHeap (inHeap v) 0 (Heaps hs) \<noteq> None"

definition Heap_Alloc ::
    "bool \<Rightarrow> addr option \<Rightarrow> nat \<Rightarrow> nat \<Rightarrow> heaps \<Rightarrow> (nat \<times> heaps) result" where
  \<comment> \<open>\<open>mapped\<close> is the region that \<open>mmap\<close> returned, if any\<close>
  "Heap_Alloc paranoid mapped MinSize MaxSize hs =
     (let i = heap_count hs; maxsize_pageround = RoundUp MaxSize TILT_PAGESIZE
      in if length (Heaps hs) \<le> i then Inl (Overrun ''Heaps'')
         else case mapped of None \<Rightarrow> Inl (Die ''out of memory'')
         | Some lo \<Rightarrow>
           let wt = lo + 4 * (maxsize_pageround div 4);
               res = (Heaps hs ! i)\<lparr>hsize := maxsize_pageround, hbottom := lo, hcursor := lo,
                 htop := lo + 4 * (MinSize div 4), hwriteable := wt, hmapped := wt,
                 hrange := SetRange lo wt, hvalid := True,
                 hstarts := (if paranoid then Some (CreateBitmap (maxsize_pageround div 4)) else None),
                 hfresh := replicate (DivideUp (maxsize_pageround div TILT_PAGESIZE) 32) 0\<rparr>;
               hs' = \<lparr>Heaps = (Heaps hs)[i := res], heap_count = i + 1\<rparr>
           in bindE (assertE (heap_count hs' < NumHeap) ''heap_count < NumHeap'') (\<lambda>_.
              bindE (assertE (MaxSize \<ge> MinSize) ''MaxSize >= MinSize'') (\<lambda>_.
              Inr (i, hs'))))"

definition Heap_GetMaximumSize :: "heap \<Rightarrow> nat" where
  "Heap_GetMaximumSize h = 4 * ((hmapped h - hbottom h) div 4)"

definition Heap_GetSize :: "heap \<Rightarrow> nat" where
  "Heap_GetSize h = 4 * ((htop h - hbottom h) div 4)"

definition Heap_GetAvail :: "heap \<Rightarrow> nat" where
  "Heap_GetAvail h = 4 * ((htop h - hcursor h) div 4)"

definition Heap_GetUsed :: "heap \<Rightarrow> nat" where
  "Heap_GetUsed h = 4 * ((hcursor h - hbottom h) div 4)"

definition Heap_Reset :: "heap \<Rightarrow> heap" where
  "Heap_Reset h = h\<lparr>hcursor := hbottom h\<rparr>"

definition Heap_ResetFreshPages :: "heap \<Rightarrow> (nat \<times> heap) result" where
  "Heap_ResetFreshPages h =
     (let pages = DivideUp (Heap_GetMaximumSize h) TILT_PAGESIZE; n = DivideUp pages 32
      in if length (hfresh h) < n then Inl (Overrun ''Heap_ResetFreshPages'')
         else Inr (pages, h\<lparr>hfresh := replicate n 0 @ drop n (hfresh h)\<rparr>))"

definition my_mprotect :: "(addr \<Rightarrow> nat \<Rightarrow> bool) \<Rightarrow> addr \<Rightarrow> nat \<Rightarrow> unit result" where
  \<comment> \<open>\<open>mprot\<close> tells whether \<open>mprotect\<close> succeeds on a region\<close>
  "my_mprotect mprot lo sz = (if mprot lo sz then Inr () else Inl (Die ''out of memory''))"

definition Heap_Resize ::
    "(addr \<Rightarrow> nat \<Rightarrow> bool) \<Rightarrow> bool \<Rightarrow> heap \<Rightarrow> nat \<Rightarrow> bool \<Rightarrow> heap result" where
  "Heap_Resize mprot paranoid h newSize reset =
     (let maxSize = Heap_GetMaximumSize h;
          oldWriteableSize = 4 * ((hwriteable h - hbottom h) div 4);
          newSizeRound = RoundUp newSize TILT_PAGESIZE
      in if newSize > maxSize then Inl (Die ''resized heap too big'')
         else
           let h1 = (if reset then h\<lparr>hcursor := hbottom h\<rparr> else h)
           in bindE (assertE (Heap_GetUsed h1 \<le> newSize) ''usedSize <= newSize'') (\<lambda>_.
              let h2 = h1\<lparr>htop := hbottom h1 + 4 * (newSize div 4)\<rparr>
              in bindE
                   (if newSizeRound > oldWriteableSize
                    then bindE (my_mprotect mprot (hwriteable h2) (newSizeRound - oldWriteableSize)) (\<lambda>_.
                         Inr (h2\<lparr>hwriteable := hbottom h2 + 4 * (newSizeRound div 4)\<rparr>))
                    else if paranoid \<and> newSizeRound < oldWriteableSize
                    then bindE (my_mprotect mprot (hbottom h2 + 4 * (newSizeRound div 4))
                                  (oldWriteableSize - newSizeRound)) (\<lambda>_.
                         Inr (h2\<lparr>hwriteable := hbottom h2 + 4 * (newSizeRound div 4)\<rparr>))
                    else Inr h2) (\<lambda>h3.
                 bindE (assertE (hbottom h3 \<le> hcursor h3) ''bottom <= cursor'') (\<lambda>_.
                 bindE (assertE (hcursor h3 \<le> htop h3) ''cursor <= top'') (\<lambda>_.
                 bindE (assertE (htop h3 \<le> hwriteable h3) ''top <= writeableTop'') (\<lambda>_.
                 bindE (assertE (hwriteable h3 \<le> hmapped h3) ''writeableTop <= mappedTop'') (\<lambda>_.
                 Inr h3)))))))"

definition Heap_TouchPage :: "heap \<Rightarrow> addr \<Rightarrow> (bool \<times> heap) result" where
  "Heap_TouchPage h a =
     (let page = DivideDown (a - hbottom h) TILT_PAGESIZE;
          word = page div 32;
          msk = push_bit (page mod 32) 1
      in if length (hfresh h) \<le> word then Inl (Overrun ''Heap_TouchPage'')
         else let info = hfresh h ! word
         in bindE (assertE (a \<ge> hbottom h \<and> a < htop h) ''addr >= h->bottom && addr < h->top'') (\<lambda>_.
            Inr (msk AND info = 0, h\<lparr>hfresh := (hfresh h)[word := info OR msk]\<rparr>)))"

definition GetHeapArea :: "heap \<Rightarrow> nat \<Rightarrow> (addr \<times> addr \<times> addr) \<times> heap" where
  \<comment> \<open>bottom, cursor and top of the area, all \<open>NULL\<close> when the heap is full\<close>
  "GetHeapArea h sz =
     (let region = hcursor h;
          h1 = h\<lparr>hcursor := hcursor h + sz\<rparr>;
          newHeapCursor = region + 4 * (sz div 4)
      in if newHeapCursor > htop h1
         then ((NULL, NULL, NULL), h1\<lparr>hcursor := hcursor h1 - sz\<rparr>)
         else ((region, region, newHeapCursor), h1))"


subsection \<open>The heap invariant\<close>

text \<open>
  \<open>heap_ok\<close> is the invariant that the comment on \<open>struct Heap__t\<close> states, with the alignment of
  the pointers; its clause \<open>size = top - bottom\<close> is left out, because \<open>Heap_Alloc\<close> sets \<open>size\<close> to
  the mapped size and \<open>Heap_Resize\<close> never updates it.
\<close>

definition heap_ok :: "heap \<Rightarrow> bool" where
  "heap_ok h \<longleftrightarrow>
     0 < hbottom h \<and> hbottom h \<le> hcursor h \<and> hcursor h \<le> htop h \<and> htop h \<le> hwriteable h \<and>
     hwriteable h \<le> hmapped h \<and> hmapped h < 2 ^ 32 \<and>
     4 dvd hbottom h \<and> 4 dvd hcursor h \<and> 4 dvd htop h \<and>
     TILT_PAGESIZE dvd hwriteable h - hbottom h \<and> TILT_PAGESIZE dvd hmapped h - hbottom h \<and>
     hrange h = SetRange (hbottom h) (hmapped h)"

lemma page_dvd_4: "TILT_PAGESIZE dvd n \<Longrightarrow> 4 dvd n"
  unfolding TILT_PAGESIZE_def by (rule dvd_trans [of 4 8192]) simp_all

lemma dvd_size: "(4::nat) dvd n \<Longrightarrow> 4 * (n div 4) = n"
  by simp

lemma heap_ok_sizes:
  assumes "heap_ok h"
  shows "Heap_GetMaximumSize h = hmapped h - hbottom h" "Heap_GetSize h = htop h - hbottom h"
    "Heap_GetUsed h = hcursor h - hbottom h" "Heap_GetAvail h = htop h - hcursor h"
    "4 * ((hwriteable h - hbottom h) div 4) = hwriteable h - hbottom h"
  using assms unfolding Heap_GetMaximumSize_def Heap_GetSize_def Heap_GetUsed_def Heap_GetAvail_def
  by (auto simp: heap_ok_def dvd_size page_dvd_4 dvd_diff_nat)

lemma RoundUp_page_le:
  assumes "TILT_PAGESIZE dvd m" and "n \<le> m"
  shows "RoundUp n TILT_PAGESIZE \<le> m"
  using RoundUp_mono [of TILT_PAGESIZE n m] RoundUp_multiple [of TILT_PAGESIZE m] assms
  by (simp add: TILT_PAGESIZE_def)

lemma Heap_Resize_ok:
  assumes ok: "heap_ok h" and fits: "newSize \<le> Heap_GetMaximumSize h"
    and used: "reset \<or> Heap_GetUsed h \<le> newSize" and prot: "\<And>a n. mprot a n"
  obtains h' where "Heap_Resize mprot paranoid h newSize reset = Inr h'" "heap_ok h'"
    "hbottom h' = hbottom h" "hmapped h' = hmapped h" "hrange h' = hrange h"
    "htop h' = hbottom h + 4 * (newSize div 4)" "hcursor h' = (if reset then hbottom h else hcursor h)"
proof -
  define h1 where "h1 = (if reset then h\<lparr>hcursor := hbottom h\<rparr> else h)"
  define r where "r = RoundUp newSize TILT_PAGESIZE"
  have r: "newSize \<le> r" "TILT_PAGESIZE dvd r" "4 dvd r" "r \<le> hmapped h - hbottom h"
    using RoundUp_page_le [of "hmapped h - hbottom h" newSize] ok fits page_dvd_4 [of r]
    by (auto simp: r_def RoundUp_ge TILT_PAGESIZE_def heap_ok_def heap_ok_sizes [OF ok])
  have h1: "heap_ok h1" "hbottom h1 = hbottom h" "hmapped h1 = hmapped h" "hrange h1 = hrange h"
    "hwriteable h1 = hwriteable h" "hcursor h1 = (if reset then hbottom h else hcursor h)"
    using ok by (auto simp: h1_def heap_ok_def)
  have used1: "Heap_GetUsed h1 \<le> newSize"
    using used h1 heap_ok_sizes(3) [OF h1(1)] heap_ok_sizes(3) [OF ok] by auto
  have cur: "hcursor h1 \<le> hbottom h + 4 * (newSize div 4)"
  proof -
    have "4 dvd hcursor h1 - hbottom h1" "hbottom h1 \<le> hcursor h1"
      using h1(1) by (auto simp: heap_ok_def dvd_diff_nat)
    moreover have "(hcursor h1 - hbottom h1) div 4 \<le> newSize div 4"
      using used1 unfolding heap_ok_sizes(3) [OF h1(1)] by (rule div_le_mono)
    ultimately show ?thesis
      using dvd_size [of "hcursor h1 - hbottom h1"] h1(2) by linarith
  qed
  define w where "w = (if r > hwriteable h - hbottom h then hbottom h + r
    else if paranoid \<and> r < hwriteable h - hbottom h then hbottom h + r else hwriteable h)"
  define h' where "h' = h1\<lparr>htop := hbottom h + 4 * (newSize div 4), hwriteable := w\<rparr>"
  have w: "hbottom h + 4 * (newSize div 4) \<le> w" "w \<le> hmapped h" "TILT_PAGESIZE dvd w - hbottom h"
    using r ok by (auto simp: w_def heap_ok_def)
  have ok': "heap_ok h'"
    using h1 w cur by (auto simp: heap_ok_def h'_def)
  have eq: "Heap_Resize mprot paranoid h newSize reset = Inr h'"
    using fits used1 r(3) w cur h1 heap_ok_sizes(5) [OF ok] ok'
    unfolding Heap_Resize_def Let_def h1_def [symmetric] r_def [symmetric] my_mprotect_def
    by (auto simp: prot dvd_size h'_def w_def heap_ok_def heap_ok_sizes [OF ok])
  show ?thesis
    by (rule that [OF eq ok']) (simp_all add: h'_def h1)
qed

subsection \<open>Areas of a heap\<close>

text \<open>
  \<open>area_alloc\<close> asks \<open>GetHeapArea\<close> for \<open>n\<close> words and gives the word address of the area, or -1.
  With it a heap is an allocator of ranges in the sense of the interface of \<open>Bitmaps\<close>.
\<close>

definition area_alloc :: "heap \<Rightarrow> nat \<Rightarrow> (heap \<times> int) result" where
  "area_alloc h n =
     (case GetHeapArea h (4 * n) of ((b, c, t), h') \<Rightarrow> Inr (h', if b = NULL then -1 else int (b div 4)))"

definition area_ok :: "heap \<Rightarrow> bool" where
  "area_ok h \<longleftrightarrow> 0 < hcursor h \<and> hcursor h \<le> htop h \<and> 4 dvd hcursor h \<and> 4 dvd htop h"

lemma heap_area_ok: "heap_ok h \<Longrightarrow> area_ok h"
  by (auto simp: heap_ok_def area_ok_def)

lemma GetHeapArea_full:
  "4 dvd sz \<Longrightarrow> htop h < hcursor h + sz \<Longrightarrow> GetHeapArea h sz = ((NULL, NULL, NULL), h)"
  by (simp add: GetHeapArea_def Let_def)

lemma GetHeapArea_fits:
  "4 dvd sz \<Longrightarrow> hcursor h + sz \<le> htop h \<Longrightarrow>
   GetHeapArea h sz = ((hcursor h, hcursor h, hcursor h + sz), h\<lparr>hcursor := hcursor h + sz\<rparr>)"
  by (simp add: GetHeapArea_def Let_def)

interpretation area_alloc: range_allocator area_alloc "\<lambda>h j. 4 * j < hcursor h" "\<lambda>h. htop h div 4" area_ok
proof
  fix h and n :: nat assume ok: "area_ok h" and n: "1 \<le> n"
  obtain k t where kt: "hcursor h = 4 * k" "htop h = 4 * t" "0 < k" "k \<le> t"
    using ok by (auto simp: area_ok_def elim!: dvdE)
  show "\<exists>s' r. area_alloc h n = Inr (s', r) \<and> area_ok s' \<and> htop s' div 4 = htop h div 4
        \<and> (r = -1 \<and> s' = h \<and> (\<forall>c. c + n \<le> htop h div 4 \<longrightarrow> (\<exists>i<n. 4 * (c + i) < hcursor h))
           \<or> (\<exists>c. r = int c \<and> c + n \<le> htop h div 4 \<and> (\<forall>i<n. \<not> 4 * (c + i) < hcursor h)
                \<and> (\<forall>j. 4 * j < hcursor s' \<longleftrightarrow> 4 * j < hcursor h \<or> c \<le> j \<and> j < c + n)))"
  proof (cases "k + n \<le> t")
    case True
    then have "GetHeapArea h (4 * n) = ((4 * k, 4 * k, 4 * (k + n)), h\<lparr>hcursor := 4 * (k + n)\<rparr>)"
      using kt by (subst GetHeapArea_fits) auto
    then show ?thesis
      using True kt by (auto simp: area_alloc_def area_ok_def NULL_def)
  next
    case False
    then have "GetHeapArea h (4 * n) = ((NULL, NULL, NULL), h)"
      using kt by (intro GetHeapArea_full) auto
    moreover have "\<exists>i<n. 4 * (c + i) < hcursor h" if "c + n \<le> t" for c
      using False that n kt by (intro exI [of _ 0]) auto
    ultimately show ?thesis
      using ok kt by (auto simp: area_alloc_def)
  qed
qed

lemma Heap_Alloc_ok:
  assumes "heap_count hs + 1 < NumHeap" "length (Heaps hs) = NumHeap" and "0 < a" "4 dvd a"
    and "a + RoundUp MaxSize TILT_PAGESIZE < 2 ^ 32" and "MinSize \<le> MaxSize"
  obtains i hs' where "Heap_Alloc paranoid (Some a) MinSize MaxSize hs = Inr (i, hs')"
    "i = heap_count hs" "heap_ok (Heaps hs' ! i)" "heap_count hs' = i + 1" "length (Heaps hs') = NumHeap"
    "hbottom (Heaps hs' ! i) = a" "hcursor (Heaps hs' ! i) = a"
    "Heap_GetMaximumSize (Heaps hs' ! i) = RoundUp MaxSize TILT_PAGESIZE"
    "hsize (Heaps hs' ! i) = RoundUp MaxSize TILT_PAGESIZE"
    "Heap_GetSize (Heaps hs' ! i) = 4 * (MinSize div 4)"
proof -
  have r: "TILT_PAGESIZE dvd RoundUp MaxSize TILT_PAGESIZE" "4 * (MinSize div 4) \<le> RoundUp MaxSize TILT_PAGESIZE"
    using RoundUp_ge [of TILT_PAGESIZE MaxSize] assms(6) by (auto simp: TILT_PAGESIZE_def)
  let ?h = "(Heaps hs ! heap_count hs)\<lparr>hsize := RoundUp MaxSize TILT_PAGESIZE, hbottom := a, hcursor := a,
                 htop := a + 4 * (MinSize div 4), hwriteable := a + RoundUp MaxSize TILT_PAGESIZE,
                 hmapped := a + RoundUp MaxSize TILT_PAGESIZE,
                 hrange := SetRange a (a + RoundUp MaxSize TILT_PAGESIZE), hvalid := True,
                 hstarts := (if paranoid then Some (CreateBitmap (RoundUp MaxSize TILT_PAGESIZE div 4)) else None),
                 hfresh := replicate (DivideUp (RoundUp MaxSize TILT_PAGESIZE div TILT_PAGESIZE) 32) 0\<rparr>"
  have ok: "heap_ok ?h"
    using assms r by (auto simp: heap_ok_def)
  show ?thesis
    by (rule that [of "heap_count hs" "\<lparr>Heaps = (Heaps hs)[heap_count hs := ?h], heap_count = heap_count hs + 1\<rparr>"])
      (use assms r ok page_dvd_4 [OF r(1)] heap_ok_sizes [OF ok] in \<open>simp_all add: Heap_Alloc_def Let_def dvd_size\<close>)
qed

subsection \<open>Properties\<close>


definition demo_heap :: heap where
  "demo_heap = \<lparr>hid = 0, hvalid = True, hbottom = 8192, htop = 8192 + 400, hmapped = 24576, hwriteable = 24576,
     hcursor = 8192 + 100, hsize = 16384, hrange = SetRange 8192 24576, hfresh = [0], hstarts = None\<rparr>"

lemma demo_heap_ok: "heap_ok demo_heap"
  by (simp add: heap_ok_def demo_heap_def TILT_PAGESIZE_def)


text \<open>The areas that successive requests carve out of a heap lie between its cursor and its top and
  do not overlap.\<close>

theorem heap_areas_disjoint:
  assumes "heap_ok h" and "\<forall>n \<in> set ns. 1 \<le> n"
  shows "\<exists>rs h'. run_allocs area_alloc h ns = Inr (rs, h')
    \<and> (\<forall>(c, n) \<in> set rs. hcursor h \<le> 4 * c \<and> 4 * c + 4 * n \<le> htop h)
    \<and> sorted_wrt (\<lambda>(c, n) (d, m). c + n \<le> d \<or> d + m \<le> c) rs"
proof -
  obtain rs h' where r: "run_allocs area_alloc h ns = Inr (rs, h')"
    "\<forall>(c, n) \<in> set rs. 1 \<le> n \<and> c + n \<le> htop h div 4 \<and> (\<forall>j. c \<le> j \<and> j < c + n \<longrightarrow> \<not> 4 * j < hcursor h)"
    "sorted_wrt (\<lambda>(c, n) (d, m). c + n \<le> d \<or> d + m \<le> c) rs"
    using area_alloc.run_allocs_disjoint [OF heap_area_ok [OF assms(1)] assms(2)] by blast
  have "hcursor h \<le> 4 * c \<and> 4 * c + 4 * n \<le> htop h" if "(c, n) \<in> set rs" for c n
  proof -
    have cn: "1 \<le> n" "c + n \<le> htop h div 4" "\<not> 4 * c < hcursor h"
      using r(2) that by fastforce+
    have "4 * (c + n) \<le> 4 * (htop h div 4)"
      using cn(2) by simp
    with cn(3) show ?thesis by simp
  qed
  then show ?thesis using r(1,3) by blast
qed

theorem heap_areas_disjoint_witness:
  "\<exists>rs h'. run_allocs area_alloc demo_heap [10, 60, 5] = Inr (rs, h')
    \<and> (\<forall>(c, n) \<in> set rs. hcursor demo_heap \<le> 4 * c \<and> 4 * c + 4 * n \<le> htop demo_heap)
    \<and> sorted_wrt (\<lambda>(c, n) (d, m). c + n \<le> d \<or> d + m \<le> c) rs"
  by (rule heap_areas_disjoint [OF demo_heap_ok]) simp

end
