(* ===== verification/Sets.thy ===== *)
theory Sets
  imports Tilt_Prelude "HOL-Library.Multiset"
begin

text \<open>
  The growable array \<open>Set_t\<close> of \<open>Runtime/sparc/queue.c\<close> and \<open>sparc.h\<close> (lines 50 to 80 and 1751 to
  1848).  The C pointers \<open>first\<close>, \<open>last\<close> and \<open>limit\<close> point into the block \<open>data\<close>; the model
  keeps them as indices of that block (\<open>limit\<close> is always \<open>data + size\<close>).  The list \<open>sdata\<close> holds
  the cells that were really allocated, so a write past them is the fault \<open>Overrun\<close>.  Cells that
  \<open>emalloc\<close> leaves unspecified are \<open>NULL\<close> in the model; no operation reads a cell outside
  \<open>first .. last - 1\<close>.

  The contents of a set are \<open>set_items\<close>; \<open>set_ok\<close> is the invariant of the comment in \<open>sparc.h\<close>
  (the size is at least 16, the set is never full).  The locale \<open>worklist\<close> states what the
  collectors rely on when they drain a work list; it is interpreted for the stack discipline
  (\<open>SetPush\<close>, \<open>SetPop\<close>) and for the queue discipline (\<open>SetPush\<close>, \<open>SetDequeue\<close>).
\<close>

subsection \<open>State and operations\<close>

record pset =
  ssize :: nat
  sdata :: "addr list"
  sfirst :: nat
  slast :: nat

definition slimit :: "pset \<Rightarrow> nat" where
  "slimit s = ssize s"

definition SetInit :: "nat \<Rightarrow> pset" where
  "SetInit sz = \<lparr>ssize = max 16 sz, sdata = replicate sz NULL, sfirst = 0, slast = 0\<rparr>"

definition SetCreate :: "nat \<Rightarrow> pset" where
  "SetCreate sz = SetInit sz"

definition SetLength :: "pset \<Rightarrow> nat" where
  "SetLength s = slast s - sfirst s"

definition SetFullSize :: "pset \<Rightarrow> nat" where
  "SetFullSize s = ssize s"

definition SetReset :: "pset \<Rightarrow> pset" where
  "SetReset s = s\<lparr>sfirst := 0, slast := 0\<rparr>"

definition SetIsEmpty :: "pset \<Rightarrow> bool" where
  "SetIsEmpty s \<longleftrightarrow> sfirst s = slast s"

definition set_store :: "pset \<Rightarrow> nat \<Rightarrow> addr \<Rightarrow> pset result" where
  \<comment> \<open>the assignment \<open>data[i] = x\<close>\<close>
  "set_store s i x =
     (if i < length (sdata s) then Inr (s\<lparr>sdata := (sdata s)[i := x]\<rparr>)
      else Inl (Overrun ''Set data''))"

definition blit :: "addr list \<Rightarrow> nat \<Rightarrow> addr list \<Rightarrow> addr list result" where
  \<comment> \<open>\<open>memmove\<close> of the cells \<open>xs\<close> to position \<open>i\<close> of the block \<open>d\<close>\<close>
  "blit d i xs =
     (if i + length xs \<le> length d then Inr (take i d @ xs @ drop (i + length xs) d)
      else Inl (Overrun ''memmove''))"

definition SetNormalizeExpand :: "pset \<Rightarrow> nat \<Rightarrow> pset result" where
  "SetNormalizeExpand s addSize =
     (let numElem = slast s - sfirst s;
          effSize = numElem + addSize;
          grow = 4 + effSize \<ge> ssize s \<or> 4 * effSize \<ge> 3 * ssize s;
          newSize = (if grow then 2 * effSize else ssize s);
          newData = (if grow then replicate newSize NULL else sdata s)
      in bindE (blit newData 0 (take numElem (drop (sfirst s) (sdata s)))) (\<lambda>d.
         bindE (assertE (numElem + 3 < newSize) ''s->last + 3 < s->limit'') (\<lambda>_.
         Inr (s\<lparr>sdata := d, sfirst := 0, slast := numElem, ssize := newSize\<rparr>))))"

definition SetNormalize :: "pset \<Rightarrow> pset result" where
  "SetNormalize s = SetNormalizeExpand s 0"

definition SetPush :: "pset \<Rightarrow> addr \<Rightarrow> pset result" where
  "SetPush s item =
     bindE (if slast s + 1 \<ge> slimit s then SetNormalize s else Inr s) (\<lambda>s.
     bindE (set_store s (slast s) item) (\<lambda>s.
     Inr (s\<lparr>slast := slast s + 1\<rparr>)))"

definition SetPush2 :: "pset \<Rightarrow> addr \<Rightarrow> addr \<Rightarrow> pset result" where
  "SetPush2 s item1 item2 =
     bindE (if slast s + 2 \<ge> slimit s then SetNormalize s else Inr s) (\<lambda>s.
     bindE (set_store s (slast s) item1) (\<lambda>s.
     bindE (set_store s (slast s + 1) item2) (\<lambda>s.
     Inr (s\<lparr>slast := slast s + 2\<rparr>))))"

definition SetPush3 :: "pset \<Rightarrow> addr \<Rightarrow> addr \<Rightarrow> addr \<Rightarrow> pset result" where
  "SetPush3 s item1 item2 item3 =
     bindE (if slast s + 3 \<ge> slimit s then SetNormalize s else Inr s) (\<lambda>s.
     bindE (set_store s (slast s) item1) (\<lambda>s.
     bindE (set_store s (slast s + 1) item2) (\<lambda>s.
     bindE (set_store s (slast s + 2) item3) (\<lambda>s.
     Inr (s\<lparr>slast := slast s + 3\<rparr>)))))"

definition SetDequeue :: "pset \<Rightarrow> addr \<times> pset" where
  "SetDequeue s =
     (if sfirst s = slast s then (NULL, s)
      else (sdata s ! sfirst s, s\<lparr>sfirst := sfirst s + 1\<rparr>))"

definition SetPop :: "pset \<Rightarrow> addr \<times> pset" where
  "SetPop s =
     (if sfirst s = slast s then (NULL, s)
      else (sdata s ! (slast s - 1), s\<lparr>slast := slast s - 1\<rparr>))"

definition SetPop2 :: "pset \<Rightarrow> (addr \<times> addr option) \<times> pset" where
  \<comment> \<open>\<open>*item2Ref\<close> is the second component, \<open>None\<close> when it is not assigned\<close>
  "SetPop2 s =
     (if slast s > sfirst s + 1
      then ((sdata s ! (slast s - 2), Some (sdata s ! (slast s - 1))), s\<lparr>slast := slast s - 2\<rparr>)
      else ((NULL, None), s))"

definition SetPop3 :: "pset \<Rightarrow> (addr \<times> (addr \<times> addr) option) \<times> pset" where
  \<comment> \<open>\<open>*item2Ref\<close> and \<open>*item3Ref\<close> are the second component\<close>
  "SetPop3 s =
     (if slast s > sfirst s + 2
      then ((sdata s ! (slast s - 3), Some (sdata s ! (slast s - 2), sdata s ! (slast s - 1))),
            s\<lparr>slast := slast s - 3\<rparr>)
      else ((NULL, None), s))"

definition SetCopy :: "pset \<Rightarrow> pset \<Rightarrow> pset result" where
  \<comment> \<open>the result is the new \<open>to\<close>; \<open>from\<close> is not changed\<close>
  "SetCopy from to =
     (let srcLength = SetLength from; targetLength = SetLength to in
      bindE (assertE (sfirst from \<le> slast from) ''from->first <= from->last'') (\<lambda>_.
      bindE (assertE (sfirst to \<le> slast to) ''to->first <= to->last'') (\<lambda>_.
      let to = (if sfirst to = slast to then to\<lparr>sfirst := 0, slast := 0\<rparr> else to) in
      bindE (if targetLength + srcLength + 1 \<ge> ssize to then SetNormalizeExpand to srcLength
             else if sfirst to + srcLength + 1 \<ge> slimit to then SetNormalizeExpand to 0
             else Inr to) (\<lambda>to.
      bindE (assertE (sfirst to + srcLength < slimit to) ''to->first + srcLength < to->limit'') (\<lambda>_.
      bindE (blit (sdata to) (slast to) (take srcLength (drop (sfirst from) (sdata from)))) (\<lambda>d.
      Inr (to\<lparr>sdata := d, slast := slast to + srcLength\<rparr>)))))))"

definition SetTransfer :: "pset \<Rightarrow> pset \<Rightarrow> (pset \<times> pset) result" where
  \<comment> \<open>the result is the new \<open>from\<close> and the new \<open>to\<close>\<close>
  "SetTransfer from to = bindE (SetCopy from to) (\<lambda>to'. Inr (SetReset from, to'))"

subsection \<open>Contents and invariant\<close>

definition set_items :: "pset \<Rightarrow> addr list" where
  "set_items s = take (slast s - sfirst s) (drop (sfirst s) (sdata s))"

definition set_ok :: "pset \<Rightarrow> bool" where
  "set_ok s \<longleftrightarrow> 16 \<le> ssize s \<and> length (sdata s) = ssize s \<and> sfirst s \<le> slast s \<and> slast s < ssize s"

lemma set_okD:
  assumes "set_ok s"
  shows "16 \<le> ssize s" "length (sdata s) = ssize s" "sfirst s \<le> slast s" "slast s < ssize s"
  using assms by (simp_all add: set_ok_def)

lemma length_set_items: "set_ok s \<Longrightarrow> length (set_items s) = SetLength s"
  by (auto simp: set_items_def SetLength_def set_ok_def min_def)

lemma SetInit_ok: "16 \<le> sz \<Longrightarrow> set_ok (SetInit sz) \<and> set_items (SetInit sz) = []"
  by (simp add: set_ok_def SetInit_def set_items_def)

lemma SetReset_ok: "set_ok s \<Longrightarrow> set_ok (SetReset s) \<and> set_items (SetReset s) = []"
  by (simp add: set_ok_def SetReset_def set_items_def)

lemma SetIsEmpty_items: "set_ok s \<Longrightarrow> SetIsEmpty s \<longleftrightarrow> set_items s = []"
  by (auto simp: SetIsEmpty_def set_items_def set_ok_def)

lemma blit_ok: "i + length xs \<le> length d \<Longrightarrow> blit d i xs = Inr (take i d @ xs @ drop (i + length xs) d)"
  by (simp add: blit_def)

text \<open>Normalisation moves the contents to the front and leaves more than three free cells.\<close>

lemma SetNormalizeExpand_ok:
  assumes ok: "set_ok s"
  obtains s' where "SetNormalizeExpand s n = Inr s'" "set_ok s'" "set_items s' = set_items s"
    "sfirst s' = 0" "slast s' = SetLength s" "SetLength s + n + 3 < ssize s'"
proof -
  define k where "k = slast s - sfirst s"
  have items: "length (set_items s) = k" "k < ssize s"
    using ok by (auto simp: set_items_def set_ok_def k_def)
  define grow where "grow \<longleftrightarrow> 4 + (k + n) \<ge> ssize s \<or> 4 * (k + n) \<ge> 3 * ssize s"
  define ns where "ns = (if grow then 2 * (k + n) else ssize s)"
  define nd where "nd = (if grow then replicate ns NULL else sdata s)"
  have ns: "k + n + 3 < ns" "16 \<le> ns" "length nd = ns"
    using set_okD [OF ok] by (auto simp: ns_def nd_def grow_def)
  have b: "blit nd 0 (set_items s) = Inr (set_items s @ drop k nd)"
    using items ns by (simp add: blit_def)
  let ?s' = "s\<lparr>sdata := set_items s @ drop k nd, sfirst := 0, slast := k, ssize := ns\<rparr>"
  have "SetNormalizeExpand s n =
      bindE (blit nd 0 (set_items s)) (\<lambda>d.
      bindE (assertE (k + 3 < ns) ''s->last + 3 < s->limit'') (\<lambda>_.
      Inr (s\<lparr>sdata := d, sfirst := 0, slast := k, ssize := ns\<rparr>)))"
    unfolding SetNormalizeExpand_def Let_def k_def grow_def ns_def nd_def set_items_def
    by (rule refl)
  with b ns have "SetNormalizeExpand s n = Inr ?s'"
    by simp
  moreover have "set_ok ?s'" "set_items ?s' = set_items s"
    using items ns by (simp_all add: set_ok_def) (simp add: set_items_def k_def)
  ultimately show thesis
    using that [of ?s'] ns by (simp add: k_def SetLength_def)
qed


subsection \<open>Functional behaviour of the operations\<close>

lemma set_store_ok:
  "set_ok s \<Longrightarrow> i < ssize s \<Longrightarrow> set_store s i x = Inr (s\<lparr>sdata := (sdata s)[i := x]\<rparr>)"
  by (simp add: set_store_def set_ok_def)

lemma items_append_last:
  assumes "set_ok s" "slast s + length xs < ssize s" "d = take (slast s) (sdata s) @ xs @ ds"
    "length d = ssize s"
  shows "set_ok (s\<lparr>sdata := d, slast := slast s + length xs\<rparr>)"
    "set_items (s\<lparr>sdata := d, slast := slast s + length xs\<rparr>) = set_items s @ xs"
proof -
  have le: "sfirst s \<le> slast s" "slast s \<le> length (sdata s)"
    using assms(1) by (auto simp: set_ok_def)
  show "set_ok (s\<lparr>sdata := d, slast := slast s + length xs\<rparr>)"
    using assms by (simp add: set_ok_def)
  have "set_items (s\<lparr>sdata := d, slast := slast s + length xs\<rparr>)
      = take (slast s - sfirst s + length xs) (drop (sfirst s) (take (slast s) (sdata s)) @ xs @ ds)"
    using le by (simp add: set_items_def assms(3) drop_append min_def)
  also have "\<dots> = drop (sfirst s) (take (slast s) (sdata s)) @ xs"
    using le by (simp add: min_def)
  also have "drop (sfirst s) (take (slast s) (sdata s)) = set_items s"
    using le by (simp add: set_items_def drop_take)
  finally show "set_items (s\<lparr>sdata := d, slast := slast s + length xs\<rparr>) = set_items s @ xs" .
qed

lemma normalized_for_push:
  assumes "set_ok s" "n \<le> 3"
  obtains s' where
    "(if slast s + n \<ge> slimit s then SetNormalize s else Inr s) = Inr s'"
    "set_ok s'" "set_items s' = set_items s" "slast s' + n < ssize s'"
proof (cases "slast s + n \<ge> slimit s")
  case True
  obtain s' where "SetNormalizeExpand s 0 = Inr s'" "set_ok s'" "set_items s' = set_items s"
    "slast s' = SetLength s" "SetLength s + 0 + 3 < ssize s'"
    using SetNormalizeExpand_ok [OF assms(1)] by metis
  then show thesis
    using that [of s'] True assms(2) by (simp add: SetNormalize_def)
next
  case False
  then show thesis
    using that [of s] assms by (simp add: slimit_def)
qed

lemma SetPush_ok:
  assumes "set_ok s"
  obtains s' where "SetPush s x = Inr s'" "set_ok s'" "set_items s' = set_items s @ [x]"
proof -
  obtain s1 where n: "(if slast s + 1 \<ge> slimit s then SetNormalize s else Inr s) = Inr s1"
    "set_ok s1" "set_items s1 = set_items s" "slast s1 + 1 < ssize s1"
    using normalized_for_push [OF assms, of 1] by auto
  then have st: "set_store s1 (slast s1) x = Inr (s1\<lparr>sdata := (sdata s1)[slast s1 := x]\<rparr>)"
    by (simp add: set_store_ok)
  have "SetPush s x = Inr (s1\<lparr>sdata := (sdata s1)[slast s1 := x], slast := slast s1 + 1\<rparr>)"
    unfolding SetPush_def n(1) by (simp add: st)
  then show thesis
    using that items_append_last [OF n(2), of "[x]" _ "drop (Suc (slast s1)) (sdata s1)"] n(2-4)
    by (simp add: upd_conv_take_nth_drop set_okD)
qed

lemma store_append:
  assumes "set_ok s" "slast s + length xs < ssize s"
  shows "set_ok (s\<lparr>sdata := take (slast s) (sdata s) @ xs @ drop (slast s + length xs) (sdata s),
      slast := slast s + length xs\<rparr>)"
    "set_items (s\<lparr>sdata := take (slast s) (sdata s) @ xs @ drop (slast s + length xs) (sdata s),
      slast := slast s + length xs\<rparr>) = set_items s @ xs"
  using items_append_last [OF assms(1,2) refl] assms by (auto simp: set_ok_def)

lemma list_update2_append:
  "Suc i < length d \<Longrightarrow> d[i := x, Suc i := y] = take i d @ [x, y] @ drop (Suc (Suc i)) d"
  by (rule nth_equalityI)
    (auto simp: nth_append nth_list_update nth_Cons split: nat.split intro!: arg_cong [where f = "(!) d"])

lemma list_update3_append:
  "Suc (Suc i) < length d \<Longrightarrow> d[i := x, Suc i := y, Suc (Suc i) := z]
    = take i d @ [x, y, z] @ drop (Suc (Suc (Suc i))) d"
  by (rule nth_equalityI)
    (auto simp: nth_append nth_list_update nth_Cons split: nat.split intro!: arg_cong [where f = "(!) d"])

lemma SetPush2_ok:
  assumes "set_ok s"
  obtains s' where "SetPush2 s x y = Inr s'" "set_ok s'" "set_items s' = set_items s @ [x, y]"
proof -
  obtain t where n: "(if slast s + 2 \<ge> slimit s then SetNormalize s else Inr s) = Inr t"
    "set_ok t" "set_items t = set_items s" "slast t + 2 < ssize t"
    using normalized_for_push [OF assms, of 2] by auto
  have len: "length (sdata t) = ssize t"
    using n(2) by (simp add: set_ok_def)
  have eq: "SetPush2 s x y =
      Inr (t\<lparr>sdata := take (slast t) (sdata t) @ [x, y] @ drop (slast t + length [x, y]) (sdata t),
        slast := slast t + length [x, y]\<rparr>)"
    unfolding SetPush2_def n(1) using n(4) len
    by (simp add: set_store_def list_update2_append)
  have "slast t + length [x, y] < ssize t"
    using n(4) by simp
  note ap = store_append [OF n(2) this]
  show thesis
    by (rule that [OF eq ap(1)]) (simp only: ap(2) n(3))
qed

lemma SetPush3_ok:
  assumes "set_ok s"
  obtains s' where "SetPush3 s x y z = Inr s'" "set_ok s'" "set_items s' = set_items s @ [x, y, z]"
proof -
  obtain t where n: "(if slast s + 3 \<ge> slimit s then SetNormalize s else Inr s) = Inr t"
    "set_ok t" "set_items t = set_items s" "slast t + 3 < ssize t"
    using normalized_for_push [OF assms, of 3] by auto
  have len: "length (sdata t) = ssize t"
    using n(2) by (simp add: set_ok_def)
  have eq: "SetPush3 s x y z =
      Inr (t\<lparr>sdata := take (slast t) (sdata t) @ [x, y, z] @ drop (slast t + length [x, y, z]) (sdata t),
        slast := slast t + length [x, y, z]\<rparr>)"
    unfolding SetPush3_def n(1) using n(4) len
    by (simp add: set_store_def list_update3_append)
  have "slast t + length [x, y, z] < ssize t"
    using n(4) by simp
  note ap = store_append [OF n(2) this]
  show thesis
    by (rule that [OF eq ap(1)]) (simp only: ap(2) n(3))
qed

lemma SetDequeue_empty: "set_ok s \<Longrightarrow> set_items s = [] \<Longrightarrow> SetDequeue s = (NULL, s)"
  using SetIsEmpty_items [of s] by (simp add: SetDequeue_def SetIsEmpty_def)

lemma SetDequeue_items:
  assumes "set_ok s" "set_items s = x # xs"
  shows "\<exists>s'. SetDequeue s = (x, s') \<and> set_ok s' \<and> set_items s' = xs"
proof -
  have lt: "sfirst s < slast s" "slast s < length (sdata s)"
    using assms SetIsEmpty_items [OF assms(1)] by (auto simp: set_ok_def SetIsEmpty_def)
  then have d: "drop (sfirst s) (sdata s) = sdata s ! sfirst s # drop (Suc (sfirst s)) (sdata s)"
    by (simp add: Cons_nth_drop_Suc)
  have "slast s - sfirst s = Suc (slast s - Suc (sfirst s))"
    using lt by simp
  with assms(2) d have "x = sdata s ! sfirst s"
    "xs = take (slast s - Suc (sfirst s)) (drop (Suc (sfirst s)) (sdata s))"
    by (simp_all add: set_items_def)
  then show ?thesis
    using lt assms(1) by (auto simp: SetDequeue_def set_items_def set_ok_def)
qed

lemma SetPop_empty: "set_ok s \<Longrightarrow> set_items s = [] \<Longrightarrow> SetPop s = (NULL, s)"
  using SetIsEmpty_items [of s] by (simp add: SetPop_def SetIsEmpty_def)

lemma items_drop_last:
  assumes "set_ok s" "set_items s = xs @ ys"
  shows "set_ok (s\<lparr>slast := slast s - length ys\<rparr>)"
    "set_items (s\<lparr>slast := slast s - length ys\<rparr>) = xs"
    "\<And>i. i < length ys \<Longrightarrow> sdata s ! (slast s - length ys + i) = ys ! i"
    "sfirst s + length (xs @ ys) = slast s"
proof -
  have b: "sfirst s \<le> slast s" "slast s < length (sdata s)"
    using assms(1) by (auto simp: set_ok_def)
  have len: "length xs + length ys = slast s - sfirst s"
    using length_set_items [OF assms(1)] assms(2) by (simp add: SetLength_def)
  then have l: "slast s - length ys = sfirst s + length xs"
    using b by simp
  show "set_ok (s\<lparr>slast := slast s - length ys\<rparr>)"
    using assms(1) l by (auto simp: set_ok_def)
  have it: "xs @ ys = take (length xs + length ys) (drop (sfirst s) (sdata s))"
    using assms(2) len by (simp add: set_items_def)
  have "xs = take (length xs) (take (length xs + length ys) (drop (sfirst s) (sdata s)))"
    by (simp flip: it)
  then show "set_items (s\<lparr>slast := slast s - length ys\<rparr>) = xs"
    using l by (simp add: set_items_def)
  show "sdata s ! (slast s - length ys + i) = ys ! i" if "i < length ys" for i
  proof -
    have "ys ! i = (xs @ ys) ! (length xs + i)" by simp
    also have "\<dots> = sdata s ! (sfirst s + (length xs + i))"
      using that b len by (simp only: it) simp
    finally show ?thesis using l by (simp add: add.assoc)
  qed
  show "sfirst s + length (xs @ ys) = slast s" using len b by simp
qed

lemma SetPop_items:
  assumes "set_ok s" "set_items s = xs @ [x]"
  shows "\<exists>s'. SetPop s = (x, s') \<and> set_ok s' \<and> set_items s' = xs"
  using items_drop_last [OF assms] items_drop_last(3) [OF assms, of 0]
  by (auto simp: SetPop_def)

lemma SetPop2_items:
  assumes "set_ok s" "set_items s = xs @ [x, y]"
  shows "\<exists>s'. SetPop2 s = ((x, Some y), s') \<and> set_ok s' \<and> set_items s' = xs"
  using items_drop_last [OF assms] items_drop_last(3) [OF assms, of 0]
    items_drop_last(3) [OF assms, of 1]
  by (auto simp: SetPop2_def numeral_2_eq_2 Suc_diff_Suc)

lemma SetPop3_items:
  assumes "set_ok s" "set_items s = xs @ [x, y, z]"
  shows "\<exists>s'. SetPop3 s = ((x, Some (y, z)), s') \<and> set_ok s' \<and> set_items s' = xs"
  using items_drop_last [OF assms] items_drop_last(3) [OF assms, of 0]
    items_drop_last(3) [OF assms, of 1] items_drop_last(3) [OF assms, of 2]
  by (auto simp: SetPop3_def numeral_2_eq_2 numeral_3_eq_3 Suc_diff_Suc)

lemma SetPop2_short: "set_ok s \<Longrightarrow> length (set_items s) < 2 \<Longrightarrow> SetPop2 s = ((NULL, None), s)"
  using length_set_items [of s] by (auto simp: SetPop2_def SetLength_def set_ok_def)

lemma SetPop3_short: "set_ok s \<Longrightarrow> length (set_items s) < 3 \<Longrightarrow> SetPop3 s = ((NULL, None), s)"
  using length_set_items [of s] by (auto simp: SetPop3_def SetLength_def set_ok_def)

text \<open>
  \<open>SetCopy\<close> appends the contents of the source, provided the target is used like a stack
  (\<open>first\<close> is 0).  The guard \<open>to->first + srcLength + 1 >= to->limit\<close> looks at \<open>first\<close> where the
  copy starts at \<open>last\<close>; \<open>SetCopy_dequeued_overrun\<close> below is a target on which it is too weak.
\<close>

lemma SetCopy_ok:
  assumes f: "set_ok f" and t: "set_ok t" and t0: "sfirst t = 0"
  obtains t' where "SetCopy f t = Inr t'" "set_ok t'" "sfirst t' = 0"
    "set_items t' = set_items t @ set_items f"
proof -
  let ?n = "SetLength f"
  define t1 where "t1 = (if sfirst t = slast t then t\<lparr>sfirst := 0, slast := 0\<rparr> else t)"
  have t1: "set_ok t1" "set_items t1 = set_items t" "sfirst t1 = 0" "SetLength t1 = SetLength t"
    "ssize t1 = ssize t"
    using t t0 by (auto simp: t1_def set_ok_def set_items_def SetLength_def)
  obtain t2 where t2: "(if SetLength t + ?n + 1 \<ge> ssize t1 then SetNormalizeExpand t1 ?n
      else if sfirst t1 + ?n + 1 \<ge> slimit t1 then SetNormalizeExpand t1 0 else Inr t1) = Inr t2"
    "set_ok t2" "set_items t2 = set_items t" "sfirst t2 = 0" "slast t2 = SetLength t"
    "SetLength t + ?n < ssize t2"
  proof (cases "SetLength t + ?n + 1 \<ge> ssize t1")
    case True
    then show thesis
      using SetNormalizeExpand_ok [OF t1(1), of ?n] t1 that by (metis (no_types, lifting) add_lessD1)
  next
    case False
    then have "\<not> sfirst t1 + ?n + 1 \<ge> slimit t1"
      using t1 by (simp add: slimit_def)
    then show thesis
      using that [of t1] False t1 by (simp add: SetLength_def)
  qed
  have len: "length (set_items f) = ?n" "length (sdata t2) = ssize t2"
    using f t2(2) length_set_items by (auto simp: set_ok_def)
  have "slast t2 + length (set_items f) < ssize t2"
    using t2 len by simp
  note ap = store_append [OF t2(2) this]
  have "SetCopy f t = Inr (t2\<lparr>sdata := take (slast t2) (sdata t2) @ set_items f @
      drop (slast t2 + length (set_items f)) (sdata t2), slast := slast t2 + length (set_items f)\<rparr>)"
  proof -
    have "SetCopy f t = bindE (blit (sdata t2) (slast t2) (set_items f))
        (\<lambda>d. Inr (t2\<lparr>sdata := d, slast := slast t2 + ?n\<rparr>))"
      using set_okD [OF f] set_okD [OF t] t2(4-6)
      unfolding SetCopy_def Let_def t1_def [symmetric] t2(1)
      by (simp add: slimit_def set_items_def SetLength_def)
    then show ?thesis
      using t2(5,6) len by (simp add: blit_def)
  qed
  then show thesis
    using that ap t2(3,4) by auto
qed

lemma SetTransfer_ok:
  assumes "set_ok f" "set_ok t" "sfirst t = 0"
  obtains f' t' where "SetTransfer f t = Inr (f', t')" "set_ok f'" "set_items f' = []"
    "set_ok t'" "set_items t' = set_items t @ set_items f"
  using SetCopy_ok [OF assms] SetReset_ok [OF assms(1)] by (metis SetTransfer_def bindE_Inr)

subsection \<open>Draining a work list\<close>

text \<open>
  The collectors' loops \<open>while (x = SetPop(w)) body\<close>: take until the taken item is \<open>NULL\<close>.
\<close>

fun drain :: "nat \<Rightarrow> ('s \<Rightarrow> addr \<times> 's) \<Rightarrow> (addr \<Rightarrow> 's \<Rightarrow> 's result) \<Rightarrow> 's \<Rightarrow> 's result" where
  "drain 0 take1 body s = Inl OutOfFuel"
| "drain (Suc n) take1 body s =
     (case take1 s of (x, s') \<Rightarrow>
        if x = NULL then Inr s' else bindE (body x s') (drain n take1 body))"

locale worklist =
  fixes take1 :: "'s \<Rightarrow> addr \<times> 's"
    and contents :: "'s \<Rightarrow> addr list"
    and ok :: "'s \<Rightarrow> bool"
  assumes take1_empty: "ok s \<Longrightarrow> contents s = [] \<Longrightarrow> take1 s = (NULL, s)"
    and take1_some: "ok s \<Longrightarrow> contents s \<noteq> [] \<Longrightarrow>
      \<exists>x s'. take1 s = (x, s') \<and> ok s' \<and> mset (contents s) = add_mset x (mset (contents s'))"
begin

text \<open>
  A drain whose body keeps the rest of the list visits every item exactly once, ends with the
  empty list and keeps an invariant \<open>P\<close> of what was visited; one more unit of fuel than there are
  items is enough.
\<close>

lemma drain_all:
  assumes step: "\<And>dn x s s1. \<lbrakk>ok s1; take1 s1 = (x, s); P dn s1; ok s;
      mset dn + add_mset x (mset (contents s)) = M\<rbrakk>
      \<Longrightarrow> \<exists>s'. body x s = Inr s' \<and> ok s' \<and> contents s' = contents s \<and> P (dn @ [x]) s'"
    and "ok s" "NULL \<notin> set (contents s)" "P dn s" "length (contents s) < n"
    and "mset dn + mset (contents s) = M"
  shows "\<exists>s' dn'. drain n take1 body s = Inr s' \<and> ok s' \<and> contents s' = [] \<and> mset dn' = M \<and> P dn' s'"
  using assms(2-)
proof (induction n arbitrary: s dn)
  case 0
  then show ?case by simp
next
  case (Suc n)
  show ?case
  proof (cases "contents s = []")
    case True
    then show ?thesis
      using Suc.prems take1_empty [of s] by auto
  next
    case False
    then obtain x s1 where t: "take1 s = (x, s1)" "ok s1"
      "mset (contents s) = add_mset x (mset (contents s1))"
      using take1_some Suc.prems(1) by blast
    have sub: "set (contents s) = insert x (set (contents s1))"
      using t(3) by (metis set_mset_add_mset_insert set_mset_mset)
    have len: "length (contents s) = Suc (length (contents s1))"
      using t(3) by (metis size_add_mset size_mset)
    have M: "mset dn + add_mset x (mset (contents s1)) = M"
      using Suc.prems(5) t(3) by simp
    obtain s2 where b: "body x s1 = Inr s2" "ok s2" "contents s2 = contents s1" "P (dn @ [x]) s2"
      using step [OF Suc.prems(1) t(1) Suc.prems(3) t(2) M] by blast
    have "\<exists>s' dn'. drain n take1 body s2 = Inr s' \<and> ok s' \<and> contents s' = [] \<and> mset dn' = M \<and> P dn' s'"
      using b sub len M Suc.prems by (intro Suc.IH [where dn = "dn @ [x]"]) auto
    then show ?thesis
      using t(1) b(1) sub Suc.prems(2) by auto
  qed
qed

end

interpretation stack_list: worklist SetPop set_items set_ok
proof
  fix s assume ok: "set_ok s"
  show "set_items s = [] \<Longrightarrow> SetPop s = (NULL, s)"
    using ok by (rule SetPop_empty)
  assume "set_items s \<noteq> []"
  then have "set_items s = butlast (set_items s) @ [last (set_items s)]"
    by simp
  with SetPop_items [OF ok this]
  show "\<exists>x s'. SetPop s = (x, s') \<and> set_ok s' \<and> mset (set_items s) = add_mset x (mset (set_items s'))"
    by (metis mset.simps mset_append add_mset_add_single)
qed

interpretation queue_list: worklist SetDequeue set_items set_ok
proof
  fix s assume ok: "set_ok s"
  show "set_items s = [] \<Longrightarrow> SetDequeue s = (NULL, s)"
    using ok by (rule SetDequeue_empty)
  assume "set_items s \<noteq> []"
  then show "\<exists>x s'. SetDequeue s = (x, s') \<and> set_ok s' \<and> mset (set_items s) = add_mset x (mset (set_items s'))"
    using SetDequeue_items [OF ok] by (metis list.exhaust mset.simps(2))
qed

subsection \<open>Refinement of lists\<close>

datatype set_op =
    Push addr | Push2 addr addr | Push3 addr addr addr
  | Pop | Pop2 | Pop3 | Dequeue | Reset | Normalize

definition opt_items :: "addr \<Rightarrow> addr list option \<Rightarrow> addr list" where
  "opt_items x r = (case r of None \<Rightarrow> [] | Some ys \<Rightarrow> x # ys)"

fun set_step :: "set_op \<Rightarrow> pset \<Rightarrow> (addr list \<times> pset) result" where
  "set_step (Push x) s = bindE (SetPush s x) (\<lambda>s. Inr ([], s))"
| "set_step (Push2 x y) s = bindE (SetPush2 s x y) (\<lambda>s. Inr ([], s))"
| "set_step (Push3 x y z) s = bindE (SetPush3 s x y z) (\<lambda>s. Inr ([], s))"
| "set_step Pop s = (case SetPop s of (x, s') \<Rightarrow> Inr ([x], s'))"
| "set_step Pop2 s =
     (case SetPop2 s of ((x, r), s') \<Rightarrow> Inr (opt_items x (map_option (\<lambda>y. [y]) r), s'))"
| "set_step Pop3 s =
     (case SetPop3 s of ((x, r), s') \<Rightarrow> Inr (opt_items x (map_option (\<lambda>(y, z). [y, z]) r), s'))"
| "set_step Dequeue s = (case SetDequeue s of (x, s') \<Rightarrow> Inr ([x], s'))"
| "set_step Reset s = Inr ([], SetReset s)"
| "set_step Normalize s = bindE (SetNormalize s) (\<lambda>s. Inr ([], s))"

fun list_step :: "set_op \<Rightarrow> addr list \<Rightarrow> addr list \<times> addr list" where
  "list_step (Push x) xs = ([], xs @ [x])"
| "list_step (Push2 x y) xs = ([], xs @ [x, y])"
| "list_step (Push3 x y z) xs = ([], xs @ [x, y, z])"
| "list_step Pop xs = (if xs = [] then ([NULL], []) else ([last xs], butlast xs))"
| "list_step Pop2 xs =
     (if length xs < 2 then ([], xs) else (drop (length xs - 2) xs, take (length xs - 2) xs))"
| "list_step Pop3 xs =
     (if length xs < 3 then ([], xs) else (drop (length xs - 3) xs, take (length xs - 3) xs))"
| "list_step Dequeue xs = (case xs of [] \<Rightarrow> ([NULL], []) | x # ys \<Rightarrow> ([x], ys))"
| "list_step Reset xs = ([], [])"
| "list_step Normalize xs = ([], xs)"

fun set_run :: "set_op list \<Rightarrow> pset \<Rightarrow> (addr list \<times> pset) result" where
  "set_run [] s = Inr ([], s)"
| "set_run (a # ops) s =
     bindE (set_step a s) (\<lambda>(out, s). bindE (set_run ops s) (\<lambda>(outs, s). Inr (out @ outs, s)))"

fun list_run :: "set_op list \<Rightarrow> addr list \<Rightarrow> addr list \<times> addr list" where
  "list_run [] xs = ([], xs)"
| "list_run (a # ops) xs =
     (case list_step a xs of (out, ys) \<Rightarrow> case list_run ops ys of (outs, zs) \<Rightarrow> (out @ outs, zs))"

lemma last_two:
  fixes zs :: "'a list"
  assumes "2 \<le> length zs"
  shows "\<exists>x y. drop (length zs - 2) zs = [x, y]"
proof -
  have "\<exists>x y. us = [x, y]" if "length us = 2" for us :: "'a list"
    using that by (auto simp: numeral_2_eq_2 length_Suc_conv)
  then show ?thesis using assms by simp
qed

lemma last_three:
  fixes zs :: "'a list"
  assumes "3 \<le> length zs"
  shows "\<exists>x y z. drop (length zs - 3) zs = [x, y, z]"
proof -
  have "\<exists>x y z. us = [x, y, z]" if "length us = 3" for us :: "'a list"
    using that by (auto simp: numeral_3_eq_3 length_Suc_conv)
  then show ?thesis using assms by simp
qed

lemma set_step_refines:
  assumes ok: "set_ok s"
  shows "\<exists>out s'. set_step a s = Inr (out, s') \<and> set_ok s' \<and> (out, set_items s') = list_step a (set_items s)"
proof (cases a)
  case Pop
  show ?thesis
  proof (cases "set_items s = []")
    case True
    then show ?thesis using Pop SetPop_empty [OF ok] ok by simp
  next
    case False
    then have "set_items s = butlast (set_items s) @ [last (set_items s)]" by simp
    then show ?thesis
      using Pop False SetPop_items [OF ok] by fastforce
  qed
next
  case Pop2
  show ?thesis
  proof (cases "length (set_items s) < 2")
    case True
    then show ?thesis using Pop2 SetPop2_short [OF ok] ok by (auto simp: opt_items_def)
  next
    case False
    let ?k = "length (set_items s) - 2"
    obtain x y where d: "drop ?k (set_items s) = [x, y]"
      using False last_two [of "set_items s"] by auto
    have "set_items s = take ?k (set_items s) @ [x, y]"
      using append_take_drop_id [of ?k "set_items s"] d by simp
    with SetPop2_items [OF ok this] show ?thesis
      using Pop2 False d by (auto simp: opt_items_def)
  qed
next
  case Pop3
  show ?thesis
  proof (cases "length (set_items s) < 3")
    case True
    then show ?thesis using Pop3 SetPop3_short [OF ok] ok by (auto simp: opt_items_def)
  next
    case False
    let ?k = "length (set_items s) - 3"
    obtain x y z where d: "drop ?k (set_items s) = [x, y, z]"
      using False last_three [of "set_items s"] by auto
    have "set_items s = take ?k (set_items s) @ [x, y, z]"
      using append_take_drop_id [of ?k "set_items s"] d by simp
    with SetPop3_items [OF ok this] show ?thesis
      using Pop3 False d by (auto simp: opt_items_def)
  qed
next
  case Dequeue
  then show ?thesis
    using SetDequeue_empty [OF ok] SetDequeue_items [OF ok] ok
    by (cases "set_items s") fastforce+
next
  case (Push x)
  then show ?thesis by (rule_tac SetPush_ok [OF ok, of x]) auto
next
  case (Push2 x y)
  then show ?thesis by (rule_tac SetPush2_ok [OF ok, of x y]) auto
next
  case (Push3 x y z)
  then show ?thesis by (rule_tac SetPush3_ok [OF ok, of x y z]) auto
next
  case Normalize
  then show ?thesis by (rule_tac SetNormalizeExpand_ok [OF ok, of 0]) (auto simp: SetNormalize_def)
qed (use ok SetReset_ok in auto)



text \<open>
  \<open>SetTransfer\<close> moves everything: into a set used as a stack it appends the source's contents
  in order, and leaves the source empty.
\<close>

theorem SetTransfer_appends:
  assumes "set_ok f" and "set_ok t" and "sfirst t = 0"
  shows "\<exists>f' t'. SetTransfer f t = Inr (f', t') \<and> set_ok f' \<and> set_items f' = [] \<and> set_ok t'
    \<and> set_items t' = set_items t @ set_items f"
  using SetTransfer_ok [OF assms] by blast

theorem SetTransfer_appends_witness:
  "\<exists>f' t'. SetTransfer (SetCreate 20) (SetCreate 30) = Inr (f', t') \<and> set_ok f' \<and> set_items f' = []
    \<and> set_ok t' \<and> set_items t' = set_items (SetCreate 30) @ set_items (SetCreate 20)"
  by (rule SetTransfer_appends) (simp_all add: SetCreate_def SetInit_ok, simp add: SetInit_def)

subsection \<open>Two defects\<close>

text \<open>
  \<open>SetInit\<close> allocates \<open>size\<close> cells but records a size of at least 16, so a set created for fewer
  than 15 elements is overrun by its own pushes.
\<close>

fun push_list :: "pset \<Rightarrow> addr list \<Rightarrow> pset result" where
  "push_list s [] = Inr s"
| "push_list s (x # xs) = bindE (SetPush s x) (\<lambda>s. push_list s xs)"

lemma push_list_small:
  assumes "slast s + length xs = n" "n < 15" "ssize s = 16" "length (sdata s) = n" "sfirst s = 0"
  shows "bindE (push_list s xs) (\<lambda>s. SetPush s x) = Inl (Overrun ''Set data'')"
  using assms
proof (induction xs arbitrary: s)
  case Nil
  then show ?case by (simp add: SetPush_def slimit_def set_store_def)
next
  case (Cons y ys)
  let ?s1 = "s\<lparr>sdata := (sdata s)[slast s := y], slast := slast s + 1\<rparr>"
  have "SetPush s y = Inr ?s1"
    using Cons.prems by (simp add: SetPush_def slimit_def set_store_def)
  moreover have "bindE (push_list ?s1 ys) (\<lambda>s. SetPush s x) = Inl (Overrun ''Set data'')"
    using Cons.prems by (intro Cons.IH) auto
  ultimately show ?case by simp
qed

text \<open>
  A set created for fewer than 15 elements is written past its block by the push after it has
  been filled (\<open>SetInit\<close> allocates \<open>size\<close> cells and records \<open>Max(16, size)\<close>).
\<close>

theorem SetCreate_small_overrun:
  assumes "n < 15" and "length xs = n"
  shows "bindE (push_list (SetCreate n) xs) (\<lambda>s. SetPush s x) = Inl (Overrun ''Set data'')"
  using assms by (intro push_list_small) (auto simp: SetCreate_def SetInit_def)

theorem SetCreate_small_overrun_witness:
  "bindE (push_list (SetCreate 2) [4, 8]) (\<lambda>s. SetPush s 12) = Inl (Overrun ''Set data'')"
  by (rule SetCreate_small_overrun) simp_all

lemma SetCopy_dequeued_overrun:
  \<comment> \<open>a valid target from which 10 of 20 elements were dequeued, a valid source of 15 elements\<close>
  "set_ok (SetInit 32\<lparr>sfirst := 10, slast := 20\<rparr>) \<and> set_ok (SetInit 32\<lparr>slast := 15\<rparr>) \<and>
   SetCopy (SetInit 32\<lparr>slast := 15\<rparr>) (SetInit 32\<lparr>sfirst := 10, slast := 20\<rparr>) = Inl (Overrun ''memmove'')"
  by (simp add: set_ok_def SetInit_def SetCopy_def SetLength_def slimit_def blit_def)

end
