(* ===== verification/GcState.thy ===== *)
theory GcState
  imports HeapObj Sets
begin

text \<open>
  The state the collectors share: the settings of \<open>gc.c\<close> (record \<open>config\<close>), the work counters of
  \<open>struct Usage__t\<close> and the routines of \<open>sparc.h\<close> and \<open>thread.c\<close> that meter collector work, the
  local work sets, the copy range, and the processor with its memory and heaps (record \<open>gcst\<close>).
  One processor runs: \<open>memBarrier\<close> is a no-op and a loop that waits for another processor is the
  fault \<open>Spin\<close>.  The pointers of a \<open>gcst\<close> are byte addresses into its \<open>mem\<close>; a heap is named by
  its index in \<open>Heaps\<close>.
\<close>

datatype order_t = DefaultOrder | ImplicitOrder | QueueOrder | StackOrder | HybridOrder

record config =
  arraySegmentSize :: nat
  copyPageSize :: nat
  copyCheckSize :: nat
  copyChunkSize :: nat
  ordering :: order_t
  forceSpaceCheck :: bool
  doCopyCopySync :: bool
  primaryArrayOffset :: nat
  replicaArrayOffset :: nat
  primaryGlobalOffset :: nat
  replicaGlobalOffset :: nat
  minAllocRegion :: nat
  largeSpace :: nat          \<comment> \<open>the heap of large objects\<close>
  localWorkSize :: int
  usageCount :: int
  weights :: "nat \<Rightarrow> int"      \<comment> \<open>the nine work weights, in halves (all defaults are multiples of 0.5)\<close>
  chainFuel :: nat            \<comment> \<open>bound on the forwarding chains followed by \<open>getTag\<close>\<close>

subsection \<open>Work counters\<close>

record usage =
  numWrites :: int
  bytesAllocated :: int
  bytesReplicated :: int
  fieldsCopied :: int
  fieldsScanned :: int
  ptrFieldsScanned :: int
  objsCopied :: int
  objsScanned :: int
  pagesTouched :: int
  rootsProcessed :: int
  globalsProcessed :: int
  stackSlotsProcessed :: int
  workDone :: int
  checkWork :: int
  maxWork :: int
  counter :: int

definition resetUsage :: "config \<Rightarrow> usage" where
  "resetUsage cfg = \<lparr>numWrites = 0, bytesAllocated = 0, bytesReplicated = 0, fieldsCopied = 0,
     fieldsScanned = 0, ptrFieldsScanned = 0, objsCopied = 0, objsScanned = 0, pagesTouched = 0,
     rootsProcessed = 0, globalsProcessed = 0, stackSlotsProcessed = 0, workDone = 0, checkWork = 0,
     maxWork = 0, counter = usageCount cfg\<rparr>"

definition updateUsage :: "config \<Rightarrow> usage \<Rightarrow> usage" where
  \<comment> \<open>the weights are doubles; with weights in halves the sum is exact and \<open>(long)\<close> truncates it\<close>
  "updateUsage cfg u = u\<lparr>workDone := cdiv
     (fieldsCopied u * weights cfg 0 + fieldsScanned u * weights cfg 1 + ptrFieldsScanned u * weights cfg 2
      + objsCopied u * weights cfg 3 + objsScanned u * weights cfg 4 + pagesTouched u * weights cfg 5
      + rootsProcessed u * weights cfg 6 + globalsProcessed u * weights cfg 7
      + stackSlotsProcessed u * weights cfg 8) 2\<rparr>"

definition usageBytesCopied :: "usage \<Rightarrow> int" where
  \<comment> \<open>the function \<open>bytesCopied\<close>\<close>
  "usageBytesCopied u = 4 * (fieldsCopied u + objsCopied u)"

definition attributeUsage :: "config \<Rightarrow> usage \<Rightarrow> usage \<Rightarrow> usage \<times> usage" where
  \<comment> \<open>\<open>from\<close> and \<open>to\<close> afterwards\<close>
  "attributeUsage cfg from to = (resetUsage cfg,
     to\<lparr>numWrites := numWrites to + numWrites from,
        bytesAllocated := bytesAllocated to + bytesAllocated from,
        bytesReplicated := bytesReplicated to + bytesReplicated from,
        fieldsCopied := fieldsCopied to + fieldsCopied from,
        fieldsScanned := fieldsScanned to + fieldsScanned from,
        ptrFieldsScanned := ptrFieldsScanned to + ptrFieldsScanned from,
        objsCopied := objsCopied to + objsCopied from,
        objsScanned := objsScanned to + objsScanned from,
        pagesTouched := pagesTouched to + pagesTouched from,
        rootsProcessed := rootsProcessed to + rootsProcessed from,
        globalsProcessed := globalsProcessed to + globalsProcessed from,
        stackSlotsProcessed := stackSlotsProcessed to + stackSlotsProcessed from\<rparr>)"

definition INT_MAX :: int where
  "INT_MAX = 2147483647"

definition wrap32 :: "int \<Rightarrow> int" where
  \<comment> \<open>the value of a 32-bit signed sum\<close>
  "wrap32 x = (x + 2 ^ 31) mod 2 ^ 32 - 2 ^ 31"

definition addMaxWork :: "usage \<Rightarrow> int \<Rightarrow> usage" where
  "addMaxWork u additionalWork =
     (if additionalWork \<le> 0 then u
      else let u1 = u\<lparr>maxWork := wrap32 (maxWork u + additionalWork)\<rparr>
           in if maxWork u1 < 0 then u1\<lparr>maxWork := INT_MAX\<rparr> else u1)"

definition reachMaxWork :: "config \<Rightarrow> usage \<Rightarrow> bool \<times> usage" where
  "reachMaxWork cfg u =
     (let u1 = updateUsage cfg u;
          u2 = u1\<lparr>checkWork := min (maxWork u1) (workDone u1 + localWorkSize cfg)\<rparr>
      in (workDone u2 \<ge> maxWork u2, u2))"

definition updateReachCheckWork :: "config \<Rightarrow> usage \<Rightarrow> bool \<times> usage" where
  "updateReachCheckWork cfg u =
     (let u1 = updateUsage cfg u
      in if workDone u1 > checkWork u1
         then (True, u1\<lparr>checkWork := min (maxWork u1) (workDone u1 + localWorkSize cfg)\<rparr>)
         else (False, u1))"

definition reachCheckWork :: "config \<Rightarrow> usage \<Rightarrow> bool \<times> usage" where
  "reachCheckWork cfg u =
     (let u1 = u\<lparr>counter := counter u - 1\<rparr>;
          u2 = (if counter u1 = 0 then updateUsage cfg (u1\<lparr>counter := usageCount cfg\<rparr>) else u1)
      in if workDone u2 > checkWork u2
         then (True, u2\<lparr>checkWork := min (maxWork u2) (workDone u2 + localWorkSize cfg)\<rparr>)
         else (False, u2))"

subsection \<open>The processor\<close>

record localWork =
  objs :: pset
  grayRegion :: pset
  globals :: pset
  roots :: pset
  segments :: pset
  stacklets :: pset
  backObjs :: pset
  backLocs :: pset
  nextBackObjs :: pset
  nextBackLocs :: pset
  hasShared :: nat

record copyRange =
  crStart :: addr
  crCursor :: addr
  crStop :: addr
  crReserve :: addr
  crHeap :: "nat option"

record gcst =
  mem :: memory
  hp :: "nat \<Rightarrow> heap"             \<comment> \<open>the array \<open>Heaps\<close>\<close>
  copyRg :: copyRange
  work :: localWork
  segUsage :: usage
  cycleUsage :: usage
  bytesCopied :: nat
  needScan :: bool
  numShared :: nat
  numCopied :: nat
  numContention :: nat
  allocMap :: bitmap             \<comment> \<open>of \<open>gc_large.c\<close>\<close>
  markMap :: bitmap
  allocStart :: addr
  allocCursor :: addr
  allocLimit :: addr
  writelistStart :: addr
  writelistCursor :: addr
  writelistEnd :: addr
  segmentType :: "32 word"

definition storeAt :: "addr \<Rightarrow> val \<Rightarrow> gcst \<Rightarrow> gcst" where
  "storeAt a v s = s\<lparr>mem := (mem s)(a := v)\<rparr>"

definition updCopyRange :: "(copyRange \<Rightarrow> copyRange) \<Rightarrow> gcst \<Rightarrow> gcst" where
  "updCopyRange f s = s\<lparr>copyRg := f (copyRg s)\<rparr>"

definition updUsage :: "(usage \<Rightarrow> usage) \<Rightarrow> gcst \<Rightarrow> gcst" where
  "updUsage f s = s\<lparr>segUsage := f (segUsage s)\<rparr>"

definition updateWorkDone :: "config \<Rightarrow> gcst \<Rightarrow> gcst" where
  "updateWorkDone cfg s = updUsage (updateUsage cfg) s"

definition padArea :: "addr \<Rightarrow> addr \<Rightarrow> gcst \<Rightarrow> gcst result" where
  \<comment> \<open>\<open>PadHeapArea\<close> on the memory of the state\<close>
  "padArea lo hi s = bindE (PadHeapArea (mem s) lo hi) (\<lambda>m. Inr (s\<lparr>mem := m\<rparr>))"

definition getArea :: "nat \<Rightarrow> nat \<Rightarrow> gcst \<Rightarrow> (addr \<times> addr \<times> addr) \<times> gcst" where
  \<comment> \<open>\<open>GetHeapArea\<close> on a heap of the state\<close>
  "getArea h n s = (case GetHeapArea (hp s h) n of (r, h') \<Rightarrow> (r, s\<lparr>hp := (hp s)(h := h')\<rparr>))"

definition onObjs :: "(pset \<Rightarrow> pset result) \<Rightarrow> gcst \<Rightarrow> gcst result" where
  "onObjs f s = bindE (f (objs (work s))) (\<lambda>q. Inr (s\<lparr>work := (work s)\<lparr>objs := q\<rparr>\<rparr>))"

definition onGrayRegion :: "(pset \<Rightarrow> pset result) \<Rightarrow> gcst \<Rightarrow> gcst result" where
  "onGrayRegion f s = bindE (f (grayRegion (work s))) (\<lambda>q. Inr (s\<lparr>work := (work s)\<lparr>grayRegion := q\<rparr>\<rparr>))"

definition onSegments :: "(pset \<Rightarrow> pset result) \<Rightarrow> gcst \<Rightarrow> gcst result" where
  "onSegments f s = bindE (f (segments (work s))) (\<lambda>q. Inr (s\<lparr>work := (work s)\<lparr>segments := q\<rparr>\<rparr>))"

definition onRoots :: "(pset \<Rightarrow> pset result) \<Rightarrow> gcst \<Rightarrow> gcst result" where
  "onRoots f s = bindE (f (roots (work s))) (\<lambda>q. Inr (s\<lparr>work := (work s)\<lparr>roots := q\<rparr>\<rparr>))"

lemma gcst_upd_sel [simp]:
  "mem (storeAt a v s) = (mem s)(a := v)" "copyRg (storeAt a v s) = copyRg s" "work (storeAt a v s) = work s"
  "hp (storeAt a v s) = hp s"
  "mem (updCopyRange f s) = mem s" "copyRg (updCopyRange f s) = f (copyRg s)" "work (updCopyRange f s) = work s"
  "hp (updCopyRange f s) = hp s"
  "mem (updUsage g s) = mem s" "copyRg (updUsage g s) = copyRg s" "work (updUsage g s) = work s"
  "hp (updUsage g s) = hp s"
  "mem (updateWorkDone cfg s) = mem s" "copyRg (updateWorkDone cfg s) = copyRg s"
  "work (updateWorkDone cfg s) = work s" "hp (updateWorkDone cfg s) = hp s"
  by (simp_all add: storeAt_def updCopyRange_def updUsage_def updateWorkDone_def)

lemma padArea_ok:
  "lo \<le> hi \<Longrightarrow>
   padArea lo hi s = Inr (if lo < hi then storeAt lo (MAKE_SKIP (word_of_nat ((hi - lo) div 4))) s else s)"
  by (simp add: padArea_def PadHeapArea_def storeAt_def)

lemma storeAt_other [simp]: "allocMap (storeAt a v s) = allocMap s" "markMap (storeAt a v s) = markMap s"
  by (simp_all add: storeAt_def)

subsection \<open>Properties of the work meter\<close>

text \<open>Raising the work limit of a segment never wraps around: the limit grows by the amount asked
  for, up to \<open>INT_MAX\<close>, and a request that is not positive changes nothing.\<close>

theorem addMaxWork_saturates:
  assumes "0 \<le> maxWork u" "maxWork u \<le> INT_MAX" and "additional \<le> INT_MAX"
  shows "addMaxWork u additional =
    u\<lparr>maxWork := (if additional \<le> 0 then maxWork u else min INT_MAX (maxWork u + additional))\<rparr>"
proof (cases "additional \<le> 0")
  case False
  show ?thesis
  proof (cases "maxWork u + additional \<le> INT_MAX")
    case True
    then have "wrap32 (maxWork u + additional) = maxWork u + additional"
      using False assms by (simp add: wrap32_def INT_MAX_def)
    then show ?thesis
      using False True assms by (simp add: addMaxWork_def Let_def)
  next
    case over: False
    have "(maxWork u + additional + 2 ^ 31) mod 2 ^ 32 = maxWork u + additional + 2 ^ 31 - 2 ^ 32"
      using over assms by (subst mod_pos_geq) (simp_all add: INT_MAX_def)
    then have "wrap32 (maxWork u + additional) < 0"
      using assms by (simp add: wrap32_def INT_MAX_def)
    then show ?thesis
      using False over assms by (simp add: addMaxWork_def Let_def)
  qed
qed (simp add: addMaxWork_def)

definition demo_config :: config where
  "demo_config = \<lparr>arraySegmentSize = 0, copyPageSize = 4096, copyCheckSize = 4096, copyChunkSize = 256,
     ordering = ImplicitOrder, forceSpaceCheck = False, doCopyCopySync = True, primaryArrayOffset = 0,
     replicaArrayOffset = 4, primaryGlobalOffset = 0, replicaGlobalOffset = 4, minAllocRegion = 256, largeSpace = 3,
     localWorkSize = 4096, usageCount = 50, weights = (\<lambda>i. [2, 6, 6, 5, 3, 200, 12, 12, 20] ! i),
     chainFuel = 2\<rparr>"

theorem addMaxWork_saturates_witness:
  "addMaxWork ((resetUsage demo_config)\<lparr>maxWork := 2147483000\<rparr>) 1000
     = (resetUsage demo_config)\<lparr>maxWork := INT_MAX\<rparr>"
  using addMaxWork_saturates [of "(resetUsage demo_config)\<lparr>maxWork := 2147483000\<rparr>" 1000]
  by (simp add: INT_MAX_def)


subsection \<open>A state for examples\<close>

definition demo_work :: localWork where
  "demo_work = \<lparr>objs = SetInit 32, grayRegion = SetInit 32, globals = SetInit 32, roots = SetInit 32,
     segments = SetInit 32, stacklets = SetInit 32, backObjs = SetInit 32, backLocs = SetInit 32,
     nextBackObjs = SetInit 32, nextBackLocs = SetInit 32, hasShared = 0\<rparr>"

definition demo_gcst :: "memory \<Rightarrow> gcst" where
  "demo_gcst m = \<lparr>mem = m, hp = (\<lambda>_. demo_heap),
     copyRg = \<lparr>crStart = 8292, crCursor = 8292, crStop = 8592, crReserve = 8592, crHeap = Some 0\<rparr>,
     work = demo_work, segUsage = resetUsage demo_config, cycleUsage = resetUsage demo_config,
     bytesCopied = 0, needScan = False, numShared = 0, numCopied = 0, numContention = 0,
     allocMap = CreateBitmap 64, markMap = CreateBitmap 64, allocStart = 0, allocCursor = 0, allocLimit = 0,
     writelistStart = 0, writelistCursor = 0, writelistEnd = 0, segmentType = 0\<rparr>"

end
