(* ===== verification/Forward.thy ===== *)
theory Forward
  imports GcState
begin

text \<open>
  Copying and allocating replicas: \<open>Runtime/sparc/forward.c\<close> and \<open>allocFromCopyRange\<close> of
  \<open>gcinline.h\<close>.  An object pointer is the address of the first field; the tag is the word before it.
  \<open>genericAlloc\<close> makes room for a replica in the copy range, copies the fields (or leaves a
  backpointer), writes the tag and overwrites the tag of the original by the address of the replica.
\<close>

subsection \<open>Copy ranges\<close>

definition InitCopyRange :: "nat option \<Rightarrow> copyRange" where
  "InitCopyRange h = \<lparr>crStart = 0, crCursor = 0, crStop = 0, crReserve = 0, crHeap = h\<rparr>"

definition SetCopyRange :: "nat \<Rightarrow> gcst \<Rightarrow> gcst" where
  "SetCopyRange h s = (if crHeap (copyRg s) = Some h then s else s\<lparr>copyRg := InitCopyRange (Some h)\<rparr>)"

definition ClearCopyRange :: "gcst \<Rightarrow> gcst result" where
  "ClearCopyRange s =
     (if crStart (copyRg s) = NULL then Inr s
      else bindE (padArea (crCursor (copyRg s)) (crStop (copyRg s)) s) (\<lambda>s.
           Inr (s\<lparr>copyRg := InitCopyRange None\<rparr>)))"

definition AddGrayCopyRange :: "config \<Rightarrow> gcst \<Rightarrow> gcst result" where
  "AddGrayCopyRange cfg s =
     bindE (assertE (ordering cfg = HybridOrder) ''ordering == HybridOrder'') (\<lambda>_.
     let cr = copyRg s
     in if crStart cr < crCursor cr
        then bindE (onGrayRegion (\<lambda>q. SetPush2 q (crStart cr) (crCursor cr)) s) (\<lambda>s.
             Inr (updCopyRange (\<lambda>c. c\<lparr>crStart := crCursor c\<rparr>) s))
        else Inr s)"

definition alignCursor :: "addr \<Rightarrow> align_t \<Rightarrow> gcst \<Rightarrow> addr \<times> gcst" where
  \<comment> \<open>\<open>AlignMemoryPointer\<close> on the memory of the state\<close>
  "alignCursor a align s = (case AlignMemoryPointer (mem s) a align of (a', m) \<Rightarrow> (a', s\<lparr>mem := m\<rparr>))"

definition bumpCursor :: "nat \<Rightarrow> align_t \<Rightarrow> gcst \<Rightarrow> addr \<times> gcst" where
  \<comment> \<open>align the cursor of the copy range and allocate \<open>request\<close> bytes at it\<close>
  "bumpCursor request align s =
     (case alignCursor (crCursor (copyRg s)) align s of
        (region, s1) \<Rightarrow> (region, updCopyRange (\<lambda>c. c\<lparr>crCursor := region + 4 * (request div 4)\<rparr>) s1))"

definition AllocFromCopyRangeSlow :: "config \<Rightarrow> nat \<Rightarrow> align_t \<Rightarrow> gcst \<Rightarrow> (addr \<times> gcst) result" where
  \<comment> \<open>the branch \<open>if (0 && ...)\<close> of the source is dead\<close>
  "AllocFromCopyRangeSlow cfg request align s =
     (let alignedRequest = (if align = NoWordAlign then request else 4 + request)
      in bindE (if ordering cfg = HybridOrder then AddGrayCopyRange cfg s else Inr s) (\<lambda>s.
         case crHeap (copyRg s) of None \<Rightarrow> Inl (Overrun ''NULL heap'') | Some h \<Rightarrow>
         if alignedRequest \<ge> copyChunkSize cfg
         then case getArea h alignedRequest s of ((start, curs, stop), s) \<Rightarrow>
           if start = NULL then Inl (Die ''out of large object memory'')
           else (case alignCursor curs align s of (region, s) \<Rightarrow>
             let curs' = region + 4 * (request div 4)
             in bindE (if ordering cfg = HybridOrder
                       then onGrayRegion (\<lambda>q. SetPush2 q region curs') s else Inr s) (\<lambda>s.
                bindE (padArea curs' stop s) (\<lambda>s.
                Inr (region, s))))
         else
           bindE (padArea (crCursor (copyRg s)) (crReserve (copyRg s)) s) (\<lambda>s.
           case getArea h (copyPageSize cfg) s of ((start, curs, res), s) \<Rightarrow>
           let s = updCopyRange (\<lambda>c. c\<lparr>crStart := start, crCursor := curs, crReserve := res\<rparr>) s
           in bindE (assertE (start \<noteq> NULL) ''copyRange->start != NULL'') (\<lambda>_.
              case alignCursor curs align s of (region, s) \<Rightarrow>
              Inr (region, updCopyRange (\<lambda>c. c\<lparr>crCursor := region + 4 * (request div 4),
                                               crStop := crReserve c\<rparr>) s)))))"

definition allocFromCopyRange :: "config \<Rightarrow> nat \<Rightarrow> align_t \<Rightarrow> bool \<Rightarrow> gcst \<Rightarrow> (addr \<times> gcst) result" where
  "allocFromCopyRange cfg request align noCheck s =
     (let alignedRequest = (if align = NoWordAlign then request else 4 + request)
      in if noCheck then Inr (bumpCursor request align s)
         else if crCursor (copyRg s) + 4 * (alignedRequest div 4) < crStop (copyRg s)
         then Inr (bumpCursor request align s)
         else AllocFromCopyRangeSlow cfg request align s)"

definition AllocEntireCopyRange :: "gcst \<Rightarrow> gcst result" where
  "AllocEntireCopyRange s =
     (case crHeap (copyRg s) of None \<Rightarrow> Inl (Overrun ''NULL heap'') | Some h \<Rightarrow>
      let cur = hcursor (hp s h); tp = htop (hp s h)
      in Inr (s\<lparr>copyRg := (copyRg s)\<lparr>crStart := cur, crCursor := cur, crStop := tp, crReserve := tp\<rparr>,
                hp := (hp s)(h := (hp s h)\<lparr>hcursor := tp\<rparr>)\<rparr>))"

definition ReturnCopyRange :: "gcst \<Rightarrow> gcst result" where
  "ReturnCopyRange s =
     (case crHeap (copyRg s) of None \<Rightarrow> Inl (AssertFail ''copyRange->heap != NULL'') | Some h \<Rightarrow>
      bindE (assertE (hcursor (hp s h) = crReserve (copyRg s)) ''heap->cursor == copyRange->reserve'') (\<lambda>_.
      let cur = crCursor (copyRg s)
      in Inr (s\<lparr>hp := (hp s)(h := (hp s h)\<lparr>hcursor := cur\<rparr>),
                copyRg := (copyRg s)\<lparr>crReserve := cur, crStop := cur\<rparr>\<rparr>)))"

definition IsNullCopyRange :: "gcst \<Rightarrow> bool" where
  "IsNullCopyRange s \<longleftrightarrow> crHeap (copyRg s) = None"

definition PadCopyRange :: "gcst \<Rightarrow> gcst result" where
  "PadCopyRange s = padArea (crCursor (copyRg s)) (crStop (copyRg s)) s"

subsection \<open>The length of an object\<close>

definition segmentTags :: "config \<Rightarrow> nat \<Rightarrow> nat" where
  \<comment> \<open>the number of tag words of an array of that many bytes\<close>
  "segmentTags cfg byteLen =
     1 + (if arraySegmentSize cfg > 0
          then if byteLen > arraySegmentSize cfg then DivideUp byteLen (arraySegmentSize cfg) else 0
          else 0)"

definition objectLength :: "config \<Rightarrow> addr \<Rightarrow> memory \<Rightarrow> (nat \<times> addr) result" where
  \<comment> \<open>the length in bytes with the tags, and the start of the object\<close>
  "objectLength cfg obj m =
     bindE (getTag (chainFuel cfg) m obj) (\<lambda>tag.
     let ty = GET_TYPE tag
     in if ty = RECORD_TYPE
        then let numFields = unat (GET_RECLEN tag)
             in bindE (assertE (numFields \<noteq> 0) ''numFields != 0'') (\<lambda>_.
                Inr (4 * (1 + numFields), obj - 4))
        else if TYPE_IS_ARRAY ty
        then let byteLen = unat (GET_ANY_ARRAY_LEN tag);
                 dataWordLen = RoundUp byteLen 4;
                 numTags = segmentTags cfg byteLen
             in bindE (assertE (ty \<noteq> WORD_ARRAY_TYPE \<longrightarrow> byteLen mod 4 = 0) ''byteLen % 4 == 0'') (\<lambda>_.
                Inr (4 * numTags + dataWordLen, obj - 4 * numTags))
        else if IS_SKIP_TAG tag then Inr (4 * unat (GET_SKIPWORD tag), obj)
        else Inl (Die ''objectLength: bad tag''))"

subsection \<open>Copying\<close>

fun copyWords :: "memory \<Rightarrow> addr \<Rightarrow> addr \<Rightarrow> nat \<Rightarrow> memory" where
  \<comment> \<open>copy \<open>n\<close> words upwards: the field loops, and \<open>memcpy\<close> of disjoint areas\<close>
  "copyWords m dst src 0 = m"
| "copyWords m dst src (Suc n) = copyWords (m(dst := m src)) (dst + 4) (src + 4) n"

datatype stackType_t = NoSet | PrimarySet | ReplicaSet

definition acquireOwnership :: "addr \<Rightarrow> val \<Rightarrow> gcst \<Rightarrow> (val \<times> gcst) result" where
  \<comment> \<open>\<open>tag\<close> is the value the caller read; the \<open>cas\<close> instruction compares it with the current one\<close>
  "acquireOwnership white tag s =
     (if tag = STALL_TAG
      then (if mem s (white - 4) = STALL_TAG then Inl (Spin ''acquireOwnership'')
            else bindE (assertE (TAG_IS_FORWARD (mem s (white - 4))) ''TAG_IS_FORWARD(tag)'') (\<lambda>_.
                 Inr (mem s (white - 4), s)))
      else let cur = mem s (white - 4);
               s1 = (if cur = tag then storeAt (white - 4) STALL_TAG s else s)
           in if cur = tag then Inr (tag, s1)
              else if cur = STALL_TAG
              then Inl (Spin ''acquireOwnership'')
              else if TAG_IS_FORWARD cur then Inr (cur, s1)
              else Inl (Die ''odd tag from white object''))"

definition pushGray :: "stackType_t \<Rightarrow> addr \<Rightarrow> addr \<Rightarrow> gcst \<Rightarrow> gcst result" where
  "pushGray st white obj s =
     (case st of PrimarySet \<Rightarrow> onObjs (\<lambda>q. SetPush q white) s
      | ReplicaSet \<Rightarrow> onObjs (\<lambda>q. SetPush q obj) s
      | NoSet \<Rightarrow> Inr s)"

definition alreadyCopied :: "val \<Rightarrow> gcst \<Rightarrow> addr \<times> gcst" where
  "alreadyCopied tag s = (unat tag, s\<lparr>numShared := numShared s + 1, bytesCopied := 0\<rparr>)"

definition genericAlloc ::
    "config \<Rightarrow> addr \<Rightarrow> bool \<Rightarrow> bool \<Rightarrow> bool \<Rightarrow> stackType_t \<Rightarrow> gcst \<Rightarrow> (addr \<times> gcst) result" where
  "genericAlloc cfg white doCopy doCopyCopy skipSpaceCheck st s =
     (let tag = mem s (white - 4)
      in if TAG_IS_FORWARD tag then Inr (alreadyCopied tag s)
         else bindE (if doCopyCopy \<and> doCopyCopySync cfg then acquireOwnership white tag s else Inr (tag, s))
           (\<lambda>(tag, s).
           let s = updUsage (\<lambda>u. u\<lparr>objsCopied := objsCopied u + 1\<rparr>) s; ty = GET_TYPE tag
           in if ty = RECORD_TYPE
              then let numFields = unat (GET_RECLEN tag); objByteLen = 4 * (1 + numFields)
                in bindE (allocFromCopyRange cfg objByteLen NoWordAlign skipSpaceCheck s) (\<lambda>(region, s).
                   let obj = region + 4;
                       s = (if doCopy then s\<lparr>mem := copyWords (mem s) obj white numFields\<rparr>
                            else storeAt obj (word_of_nat white) s);
                       s = storeAt (obj - 4) tag s;
                       s = storeAt (white - 4) (word_of_nat obj) s;
                       s = updUsage (\<lambda>u. u\<lparr>fieldsCopied := fieldsCopied u + int numFields\<rparr>) s;
                       s = s\<lparr>numCopied := numCopied s + 1, bytesCopied := objByteLen,
                             needScan := (GET_RECMASK tag \<noteq> 0)\<rparr>
                   in bindE (pushGray st white obj s) (\<lambda>s. Inr (obj, s)))
              else if TYPE_IS_FORWARD ty then Inr (alreadyCopied tag s)
              else if TYPE_IS_ARRAY ty
              then let arrayByteLen = unat (GET_ANY_ARRAY_LEN tag);
                       dataByteLen = RoundUp arrayByteLen 4;
                       numTags = segmentTags cfg arrayByteLen;
                       objByteLen = dataByteLen + 4 * numTags;
                       align = (if ty = QUAD_ARRAY_TYPE
                                then if odd numTags then OddWordAlign else EvenWordAlign
                                else NoWordAlign)
                in bindE (allocFromCopyRange cfg objByteLen align skipSpaceCheck s) (\<lambda>(region, s).
                   let obj = region + 4 * numTags
                   in bindE (assertE (ty \<noteq> WORD_ARRAY_TYPE \<longrightarrow> arrayByteLen mod 4 = 0)
                               ''arrayByteLen % 4 == 0'') (\<lambda>_.
                      let s = (if doCopy then s\<lparr>mem := copyWords (mem s) obj white ((objByteLen - 4) div 4)\<rparr>
                               else if dataByteLen > 0 then storeAt obj (word_of_nat white) s
                               else s);
                          s = fold (\<lambda>i. storeAt (obj - 4 * (2 + i)) SEGPROCEED_TAG) [0..<numTags - 1] s;
                          s = storeAt (obj - 4) tag s;
                          s = storeAt (white - 4) (word_of_nat obj) s;
                          s = updUsage (\<lambda>u. u\<lparr>fieldsCopied := fieldsCopied u + int (objByteLen div 2)\<rparr>) s;
                          s = s\<lparr>numCopied := numCopied s + 1, bytesCopied := objByteLen,
                                needScan := (ty = PTR_ARRAY_TYPE \<or> ty = MIRROR_PTR_ARRAY_TYPE)\<rparr>
                      in bindE (pushGray st white obj s) (\<lambda>s. Inr (obj, s))))
              else Inl (Die ''bad tag value of white object'')))"

definition copy :: "config \<Rightarrow> addr \<Rightarrow> gcst \<Rightarrow> (addr \<times> gcst) result" where
  "copy cfg white = genericAlloc cfg white True False False NoSet"

definition alloc :: "config \<Rightarrow> addr \<Rightarrow> gcst \<Rightarrow> (addr \<times> gcst) result" where
  "alloc cfg white = genericAlloc cfg white False False False NoSet"

definition alloc_primarySet :: "config \<Rightarrow> addr \<Rightarrow> gcst \<Rightarrow> (addr \<times> gcst) result" where
  "alloc_primarySet cfg white = genericAlloc cfg white False False False PrimarySet"

definition copy_noSpaceCheck :: "config \<Rightarrow> addr \<Rightarrow> gcst \<Rightarrow> (addr \<times> gcst) result" where
  "copy_noSpaceCheck cfg white = genericAlloc cfg white True False True NoSet"

definition copy_noSpaceCheck_replicaSet :: "config \<Rightarrow> addr \<Rightarrow> gcst \<Rightarrow> (addr \<times> gcst) result" where
  "copy_noSpaceCheck_replicaSet cfg white = genericAlloc cfg white True False True ReplicaSet"

definition copy_replicaSet :: "config \<Rightarrow> addr \<Rightarrow> gcst \<Rightarrow> (addr \<times> gcst) result" where
  "copy_replicaSet cfg white = genericAlloc cfg white True False False ReplicaSet"

definition copy_copyCopySync :: "config \<Rightarrow> addr \<Rightarrow> gcst \<Rightarrow> (addr \<times> gcst) result" where
  "copy_copyCopySync cfg white = genericAlloc cfg white True True False NoSet"

definition copy_copyCopySync_primarySet :: "config \<Rightarrow> addr \<Rightarrow> gcst \<Rightarrow> (addr \<times> gcst) result" where
  "copy_copyCopySync_primarySet cfg white = genericAlloc cfg white True True False PrimarySet"

definition copy_copyCopySync_replicaSet :: "config \<Rightarrow> addr \<Rightarrow> gcst \<Rightarrow> (addr \<times> gcst) result" where
  "copy_copyCopySync_replicaSet cfg white = genericAlloc cfg white True True False ReplicaSet"

definition copy_noSpaceCheck_copyCopySync :: "config \<Rightarrow> addr \<Rightarrow> gcst \<Rightarrow> (addr \<times> gcst) result" where
  "copy_noSpaceCheck_copyCopySync cfg white = genericAlloc cfg white True True True NoSet"

definition copy_noSpaceCheck_copyCopySync_replicaSet :: "config \<Rightarrow> addr \<Rightarrow> gcst \<Rightarrow> (addr \<times> gcst) result" where
  "copy_noSpaceCheck_copyCopySync_replicaSet cfg white = genericAlloc cfg white True True True ReplicaSet"

definition alloc_copyCopySync :: "config \<Rightarrow> addr \<Rightarrow> gcst \<Rightarrow> (addr \<times> gcst) result" where
  "alloc_copyCopySync cfg white = genericAlloc cfg white False True False NoSet"

definition alloc_copyCopySync_primarySet :: "config \<Rightarrow> addr \<Rightarrow> gcst \<Rightarrow> (addr \<times> gcst) result" where
  "alloc_copyCopySync_primarySet cfg white = genericAlloc cfg white False True False PrimarySet"

definition alloc_copyCopySync_replicaSet :: "config \<Rightarrow> addr \<Rightarrow> gcst \<Rightarrow> (addr \<times> gcst) result" where
  "alloc_copyCopySync_replicaSet cfg white = genericAlloc cfg white False True False ReplicaSet"

subsection \<open>Facts about copying words\<close>

lemma copyWords_out: "(\<And>i. i < n \<Longrightarrow> a \<noteq> dst + 4 * i) \<Longrightarrow> copyWords m dst sr n a = m a"
proof (induction n arbitrary: m dst sr)
  case (Suc n)
  have "a \<noteq> dst + 4 + 4 * i" if "i < n" for i
    using Suc.prems [of "Suc i"] that by simp
  then show ?case
    using Suc.IH [of "dst + 4"] Suc.prems [of 0] by simp
qed simp

lemma copyWords_in:
  assumes "i < n" and "\<And>j k. j < n \<Longrightarrow> k < n \<Longrightarrow> sr + 4 * j \<noteq> dst + 4 * k"
  shows "copyWords m dst sr n (dst + 4 * i) = m (sr + 4 * i)"
  using assms
proof (induction n arbitrary: m dst sr i)
  case (Suc n)
  have apart: "sr + 4 + 4 * j \<noteq> dst + 4 + 4 * k" if "j < n" "k < n" for j k
    using Suc.prems(2) [of "Suc j" "Suc k"] that by simp
  show ?case
  proof (cases i)
    case 0
    have "copyWords (m(dst := m sr)) (dst + 4) (sr + 4) n dst = (m(dst := m sr)) dst"
      by (rule copyWords_out) simp
    then show ?thesis using 0 by simp
  next
    case (Suc i')
    have "copyWords (m(dst := m sr)) (dst + 4) (sr + 4) n (dst + 4 + 4 * i') = (m(dst := m sr)) (sr + 4 + 4 * i')"
      using Suc Suc.prems(1) apart by (intro Suc.IH) auto
    moreover have "sr + 4 + 4 * i' \<noteq> dst"
      using Suc.prems(2) [of i 0] Suc.prems(1) Suc by simp
    ultimately show ?thesis using Suc by (simp add: add.assoc)
  qed
qed simp

end
