(* ===== verification/LargeSpace.thy ===== *)
theory LargeSpace
  imports Forward
begin

text \<open>
  The space of large objects, \<open>Runtime/sparc/gc_large.c\<close>: objects of at least 1024 bytes are
  allocated in chunks of 512 bytes and never move.  \<open>allocMap\<close> has a bit for every chunk in use;
  during a collection \<open>gc_large_addRoot\<close> sets the bits of the chunks of every object it is given in
  \<open>markMap\<close>, and \<open>gc_large_endCollect\<close> makes that the new \<open>allocMap\<close>.
\<close>

definition largebitmapsize :: nat where
  "largebitmapsize = 512"

definition gc_large_alloc :: "config \<Rightarrow> nat \<Rightarrow> align_t \<Rightarrow> gcst \<Rightarrow> (addr \<times> gcst) result" where
  "gc_large_alloc cfg byteLen align s =
     (let padByteLen = byteLen + (if align = NoWordAlign then 0 else 4);
          chunksNeeded = DivideUp padByteLen largebitmapsize
      in bindE (assertE (byteLen \<ge> 1024) ''byteLen >= 1024'') (\<lambda>_.
         bindE (AllocBitmapRange (allocMap s) chunksNeeded) (\<lambda>(bm, bitmapPos).
         let s = s\<lparr>allocMap := bm\<rparr>
         in if bitmapPos < 0 then Inr (NULL, s)
            else let region = hbottom (hp s (largeSpace cfg)) + 4 * (largebitmapsize * nat bitmapPos div 4);
                     end = region + 4 * (chunksNeeded * largebitmapsize div 4)
                 in case alignCursor region align s of (region, s) \<Rightarrow>
                    bindE (padArea (region + 4 * (byteLen div 4)) end s) (\<lambda>s.
                    Inr (region, s)))))"

definition gc_large_startCollect :: "gcst \<Rightarrow> gcst result" where
  "gc_large_startCollect s = bindE (ClearBitmap (markMap s)) (\<lambda>b. Inr (s\<lparr>markMap := b\<rparr>))"

definition gc_large_addRoot :: "config \<Rightarrow> addr \<Rightarrow> gcst \<Rightarrow> gcst result" where
  "gc_large_addRoot cfg obj s =
     bindE (objectLength cfg obj (mem s)) (\<lambda>(byteLen, objStart).
     let bytePos = 4 * ((objStart - hbottom (hp s (largeSpace cfg))) div 4);
         chunkPos = DivideDown bytePos largebitmapsize;
         chunkLen = DivideUp byteLen largebitmapsize
     in if objStart < hbottom (hp s (largeSpace cfg)) then Inl (Overrun ''markMap'')
        else bindE (IsSet (markMap s) chunkPos) (\<lambda>b.
             if b = 0 then bindE (SetBitmapRange (markMap s) chunkPos chunkLen) (\<lambda>bm.
                           Inr (s\<lparr>markMap := bm\<rparr>))
             else Inr s))"

definition gc_large_endCollect :: "gcst \<Rightarrow> gcst result" where
  "gc_large_endCollect s =
     bindE (ClearBitmap (allocMap s)) (\<lambda>b. Inr (s\<lparr>allocMap := markMap s, markMap := b\<rparr>))"

definition gc_large_init ::
    "bool \<Rightarrow> addr option \<Rightarrow> nat \<Rightarrow> heaps \<Rightarrow> ((nat \<times> bitmap \<times> bitmap) \<times> heaps) result" where
  \<comment> \<open>the index of \<open>largeSpace\<close>, \<open>allocMap\<close> and \<open>markMap\<close>\<close>
  "gc_large_init paranoid mapped LargeHeapByte hs =
     bindE (Heap_Alloc paranoid mapped LargeHeapByte LargeHeapByte hs) (\<lambda>(i, hs).
     Inr ((i, CreateBitmap (LargeHeapByte div largebitmapsize),
              CreateBitmap (LargeHeapByte div largebitmapsize)), hs))"

subsection \<open>Marking and allocating the same chunks\<close>

definition chunk_range :: "config \<Rightarrow> gcst \<Rightarrow> nat \<Rightarrow> addr \<Rightarrow> nat set" where
  \<comment> \<open>the chunks that \<open>gc_large_addRoot\<close> takes an object of that length and start to occupy\<close>
  "chunk_range cfg s byteLen start =
     (let p = (start - hbottom (hp s (largeSpace cfg))) div 4 * 4 div largebitmapsize
      in {p ..< p + DivideUp byteLen largebitmapsize})"

fun addRoots :: "config \<Rightarrow> addr list \<Rightarrow> gcst \<Rightarrow> gcst result" where
  \<comment> \<open>the calls of \<open>gc_large_addRoot\<close> during one collection\<close>
  "addRoots cfg [] s = Inr s"
| "addRoots cfg (x # xs) s = bindE (gc_large_addRoot cfg x s) (addRoots cfg xs)"

lemma IsSet_ok:
  "bm_ok b \<Longrightarrow> i < bsize b \<Longrightarrow> IsSet b i = Inr (if marked b i then 1 else 0)"
  using GetBit_ok [of b i] by (simp add: IsSet_def bm_ok_def bm_len_def)

lemma addRoot_ok:
  assumes len: "objectLength cfg x (mem s) = Inr (n, st)" and st: "hbottom (hp s (largeSpace cfg)) \<le> st"
    and ok: "bm_ok (markMap s)" and pos: "0 < n" and fits: "\<forall>j \<in> chunk_range cfg s n st. j < bsize (markMap s)"
  obtains b where "gc_large_addRoot cfg x s = Inr (s\<lparr>markMap := b\<rparr>)" "bm_ok b" "bsize b = bsize (markMap s)"
    "(\<forall>j \<in> chunk_range cfg s n st. \<not> marked (markMap s) j) \<or> (\<forall>j \<in> chunk_range cfg s n st. marked (markMap s) j) \<Longrightarrow>
     marks b = marks (markMap s) \<union> chunk_range cfg s n st"
proof -
  define p where "p = (st - hbottom (hp s (largeSpace cfg))) div 4 * 4 div largebitmapsize"
  define l where "l = DivideUp n largebitmapsize"
  have cr: "chunk_range cfg s n st = {p ..< p + l}"
    by (simp add: chunk_range_def p_def l_def Let_def)
  have "0 < l"
    using DivideUp_le [of largebitmapsize n] pos by (cases l) (auto simp: l_def largebitmapsize_def)
  then have in_p: "p \<in> {p ..< p + l}" and p: "p < bsize (markMap s)" and pl: "p + l \<le> bsize (markMap s)"
    using fits unfolding cr by auto (metis Suc_pred add_gr_0 atLeastLessThan_iff le_add1 le_add_diff_inverse
        lessI less_Suc_eq_le add_Suc_right Suc_leI)
  have body: "gc_large_addRoot cfg x s =
     bindE (IsSet (markMap s) p) (\<lambda>b. if b = 0
       then bindE (SetBitmapRange (markMap s) p l) (\<lambda>bm. Inr (s\<lparr>markMap := bm\<rparr>)) else Inr s)"
    unfolding p_def l_def gc_large_addRoot_def Let_def DivideDown_def
    using len st by (simp add: mult.commute cong: if_cong)
  show ?thesis
  proof (cases "marked (markMap s) p")
    case True
    show ?thesis
    proof (rule that [of "markMap s"])
      show "gc_large_addRoot cfg x s = Inr (s\<lparr>markMap := markMap s\<rparr>)"
        using True p ok by (simp add: body IsSet_ok)
      assume "(\<forall>j \<in> chunk_range cfg s n st. \<not> marked (markMap s) j)
        \<or> (\<forall>j \<in> chunk_range cfg s n st. marked (markMap s) j)"
      then have "\<forall>j \<in> {p ..< p + l}. marked (markMap s) j"
        using in_p True unfolding cr by blast
      then show "marks (markMap s) = marks (markMap s) \<union> chunk_range cfg s n st"
        using pl unfolding cr marks_def by fastforce
    qed (use ok in simp_all)
  next
    case False
    obtain b where b: "SetBitmapRange (markMap s) p l = Inr b" "bm_ok b" "bsize b = bsize (markMap s)"
        "\<forall>j. marked b j \<longleftrightarrow> marked (markMap s) j \<or> p \<le> j \<and> j < p + l"
      using SetBitmapRange_spec [OF ok pl] by blast
    show ?thesis
    proof (rule that [of b])
      show "gc_large_addRoot cfg x s = Inr (s\<lparr>markMap := b\<rparr>)"
        using False p ok b(1) by (simp add: body IsSet_ok)
      show "marks b = marks (markMap s) \<union> chunk_range cfg s n st"
      proof (rule set_eqI)
        fix j
        show "j \<in> marks b \<longleftrightarrow> j \<in> marks (markMap s) \<union> chunk_range cfg s n st"
          using b(4) [rule_format, of j] pl by (auto simp: marks_def cr b(3))
      qed
    qed (rule b(2), rule b(3))
  qed
qed

lemma chunk_range_markMap [simp]: "chunk_range cfg (s\<lparr>markMap := b\<rparr>) n st = chunk_range cfg s n st"
  by (simp add: chunk_range_def)

lemma addRoots_ok:
  assumes "bm_ok (markMap s)"
    and "\<forall>x \<in> set xs. objectLength cfg x (mem s) = Inr (len x, st x) \<and> hbottom (hp s (largeSpace cfg)) \<le> st x
      \<and> 0 < len x \<and> (\<forall>j \<in> chunk_range cfg s (len x) (st x). j < bsize (markMap s))"
    and "\<forall>x \<in> set xs. (\<forall>j \<in> chunk_range cfg s (len x) (st x). \<not> marked (markMap s) j)
      \<or> (\<forall>j \<in> chunk_range cfg s (len x) (st x). marked (markMap s) j)"
    and "\<forall>x \<in> set xs. \<forall>y \<in> set xs. x \<noteq> y \<longrightarrow>
      chunk_range cfg s (len x) (st x) \<inter> chunk_range cfg s (len y) (st y) = {}"
  shows "\<exists>b. addRoots cfg xs s = Inr (s\<lparr>markMap := b\<rparr>) \<and> bm_ok b \<and> bsize b = bsize (markMap s)
    \<and> marks b = marks (markMap s) \<union> (\<Union>x \<in> set xs. chunk_range cfg s (len x) (st x))"
  using assms
proof (induction xs arbitrary: s)
  case Nil
  then show ?case by (intro exI [of _ "markMap s"]) simp
next
  case (Cons x xs)
  let ?R = "\<lambda>x. chunk_range cfg s (len x) (st x)"
  obtain b where b: "gc_large_addRoot cfg x s = Inr (s\<lparr>markMap := b\<rparr>)" "bm_ok b" "bsize b = bsize (markMap s)"
    "marks b = marks (markMap s) \<union> ?R x"
    using addRoot_ok [of cfg x s "len x" "st x"] Cons.prems by auto
  have in_b: "marked b j \<longleftrightarrow> marked (markMap s) j \<or> j \<in> ?R x" if "j < bsize (markMap s)" for j
  proof -
    have "j \<in> marks b \<longleftrightarrow> j \<in> marks (markMap s) \<or> j \<in> ?R x"
      by (simp add: b(4))
    then show ?thesis
      using that b(3) by (simp add: marks_def)
  qed
  have "(\<forall>j \<in> ?R y. \<not> marked b j) \<or> (\<forall>j \<in> ?R y. marked b j)" if y: "y \<in> set xs" for y
  proof (cases "y = x")
    case True
    then show ?thesis using in_b Cons.prems(2) by auto
  next
    case False
    then have "?R y \<inter> ?R x = {}"
      using Cons.prems(4) y by auto
    then show ?thesis
      using in_b Cons.prems(2,3) y by (metis disjoint_iff list.set_intros(2))
  qed
  then have apart: "\<forall>y \<in> set xs. (\<forall>j \<in> ?R y. \<not> marked b j) \<or> (\<forall>j \<in> ?R y. marked b j)"
    by blast
  have "\<forall>y \<in> set xs. objectLength cfg y (mem s) = Inr (len y, st y) \<and> hbottom (hp s (largeSpace cfg)) \<le> st y
      \<and> 0 < len y \<and> (\<forall>j \<in> ?R y. j < bsize b)"
    using Cons.prems(2) unfolding b(3) by (meson list.set_intros(2))
  moreover have "\<forall>x \<in> set xs. \<forall>y \<in> set xs. x \<noteq> y \<longrightarrow> ?R x \<inter> ?R y = {}"
    using Cons.prems(4) by (meson list.set_intros(2))
  ultimately have "\<exists>b'. addRoots cfg xs (s\<lparr>markMap := b\<rparr>) = Inr (s\<lparr>markMap := b\<rparr>\<lparr>markMap := b'\<rparr>)
      \<and> bm_ok b' \<and> bsize b' = bsize (markMap (s\<lparr>markMap := b\<rparr>)) \<and> marks b' = marks (markMap (s\<lparr>markMap := b\<rparr>))
        \<union> (\<Union>x \<in> set xs. chunk_range cfg (s\<lparr>markMap := b\<rparr>) (len x) (st x))"
    using b(2) apart by (intro Cons.IH) simp_all
  then obtain b' where "addRoots cfg xs (s\<lparr>markMap := b\<rparr>) = Inr (s\<lparr>markMap := b'\<rparr>)"
      "bm_ok b'" "bsize b' = bsize b" "marks b' = marks b \<union> (\<Union>x \<in> set xs. ?R x)"
    by auto
  then have "addRoots cfg (x # xs) s = Inr (s\<lparr>markMap := b'\<rparr>)" "bm_ok b'" "bsize b' = bsize (markMap s)"
      "marks b' = marks (markMap s) \<union> (\<Union>x \<in> set (x # xs). ?R x)"
    by (simp_all add: b(1,3,4) Un_assoc)
  then show ?case
    by blast
qed

definition large_collection :: "config \<Rightarrow> addr list \<Rightarrow> gcst \<Rightarrow> gcst result" where
  \<comment> \<open>one collection as the large object space sees it: the objects reached are \<open>xs\<close>\<close>
  "large_collection cfg xs s =
     bindE (gc_large_startCollect s) (\<lambda>s.
     bindE (addRoots cfg xs s) gc_large_endCollect)"

text \<open>C35: after a collection that reached the large objects \<open>xs\<close> the chunks in use are exactly the chunks
  of those objects: nothing reached is freed, everything else is.\<close>

theorem large_collection_keeps_reached:
  assumes "bm_ok (markMap s)" and "bm_ok (allocMap s)" and "bsize (markMap s) = bsize (allocMap s)"
    and objs: "\<forall>x \<in> set xs. objectLength cfg x (mem s) = Inr (len x, st x) \<and> hbottom (hp s (largeSpace cfg)) \<le> st x
      \<and> 0 < len x \<and> (\<forall>j \<in> chunk_range cfg s (len x) (st x). j < bsize (markMap s))"
    and apart: "\<forall>x \<in> set xs. \<forall>y \<in> set xs. x \<noteq> y \<longrightarrow>
      chunk_range cfg s (len x) (st x) \<inter> chunk_range cfg s (len y) (st y) = {}"
  shows "\<exists>s'. large_collection cfg xs s = Inr s' \<and> bm_ok (allocMap s') \<and> mem s' = mem s
    \<and> marks (allocMap s') = (\<Union>x \<in> set xs. chunk_range cfg s (len x) (st x)) \<and> marks (markMap s') = {}"
proof -
  obtain b where b: "ClearBitmap (markMap s) = Inr b" "bm_ok b" "bsize b = bsize (markMap s)" "marks b = {}"
    using ClearBitmap_spec [OF assms(1)] by blast
  have none: "\<not> marked b j" if "j < bsize (markMap s)" for j
    using b(3,4) that by (auto simp: marks_def)
  have "\<exists>b'. addRoots cfg xs (s\<lparr>markMap := b\<rparr>) = Inr (s\<lparr>markMap := b\<rparr>\<lparr>markMap := b'\<rparr>) \<and> bm_ok b'
      \<and> bsize b' = bsize (markMap (s\<lparr>markMap := b\<rparr>))
      \<and> marks b' = marks (markMap (s\<lparr>markMap := b\<rparr>)) \<union> (\<Union>x \<in> set xs. chunk_range cfg (s\<lparr>markMap := b\<rparr>) (len x) (st x))"
    using b objs apart none by (intro addRoots_ok) auto
  then obtain b' where b': "addRoots cfg xs (s\<lparr>markMap := b\<rparr>) = Inr (s\<lparr>markMap := b'\<rparr>)" "bm_ok b'"
      "marks b' = (\<Union>x \<in> set xs. chunk_range cfg s (len x) (st x))"
    using b(4) by auto
  obtain a where a: "ClearBitmap (allocMap s) = Inr a" "marks a = {}"
    using ClearBitmap_spec [OF assms(2)] by blast
  show ?thesis
    using b(1) b' a by (simp add: large_collection_def gc_large_startCollect_def gc_large_endCollect_def)
qed


definition demo_large :: memory where
  \<comment> \<open>a byte array of 1200 bytes at the bottom of the heap\<close>
  "demo_large a = (if a = 8192 then MAKE_ARRAY WORD_ARRAY_TYPE 1200 else 0)"

lemma demo_large_length: "objectLength demo_config 8196 demo_large = Inr (1204, 8192)"
proof -
  have tag: "demo_large 8192 = 9602"
    by (simp add: demo_large_def MAKE_ARRAY_def tag_consts)
  have "getTag (chainFuel demo_config) demo_large 8196 = Inr 9602"
    by (simp add: getTag_def tag tag_consts tag_unat getTagLoop_stop demo_config_def)
  moreover have "GET_TYPE 9602 = WORD_ARRAY_TYPE" "unat (GET_ANY_ARRAY_LEN 9602) = 1200"
    by (simp_all add: word_unat_eq_iff tag_unat tag_consts)
  ultimately show ?thesis
    by (simp add: objectLength_def TYPE_IS_ARRAY_def RoundUp_def segmentTags_def demo_config_def)
      (simp add: tag_consts)
qed

theorem large_collection_keeps_reached_witness:
  "\<exists>s'. large_collection demo_config [8196 :: addr] (demo_gcst demo_large) = Inr s' \<and> bm_ok (allocMap s')
    \<and> mem s' = mem (demo_gcst demo_large)
    \<and> marks (allocMap s') = (\<Union>x \<in> set [8196 :: addr]. chunk_range demo_config (demo_gcst demo_large) 1204 8192)
    \<and> marks (markMap s') = {}"
proof (rule large_collection_keeps_reached [where len = "\<lambda>_. 1204" and st = "\<lambda>_. 8192"])
  show "\<forall>x \<in> set [8196 :: addr]. objectLength demo_config x (mem (demo_gcst demo_large)) = Inr (1204, 8192)
      \<and> hbottom (hp (demo_gcst demo_large) (largeSpace demo_config)) \<le> 8192 \<and> (0::nat) < 1204
      \<and> (\<forall>j \<in> chunk_range demo_config (demo_gcst demo_large) 1204 8192. j < bsize (markMap (demo_gcst demo_large)))"
    using demo_large_length
    by (auto simp: demo_gcst_def chunk_range_def demo_heap_def largebitmapsize_def DivideUp_def CreateBitmap_def)
qed (auto simp: demo_gcst_def CreateBitmap_ok)



end
