(* ===== verification/Stacklets.thy ===== *)
theory Stacklets
  imports Forward
begin

text \<open>
  Stacks: \<open>Runtime/sparc/memobj.c\<close> up to \<open>CurrentStacklet\<close>.  The stack of a thread is a chain of
  stacklets; a stacklet may belong to several chains (a snapshot of a stack shares its stacklets) and
  counts them.  A \<open>Stacklet_t*\<close> or \<open>StackChain_t*\<close> is an index into the arrays \<open>Stacklets\<close> and
  \<open>StackChains\<close>; \<open>mmap\<close> is the parameter \<open>mm\<close> (the region it gives for a stacklet), \<open>mprotect\<close> is
  \<open>mprot\<close>.  The invariant \<open>stks_ok\<close> says that the count of every stacklet is the number of chains
  that hold it; the last section shows that every operation keeps it and that no assertion fails.
\<close>

subsection \<open>State\<close>

datatype stackletState = Inconsistent | Pending | Copying | InactiveCopied | ActiveCopied

record stacklet =
  sl_count :: nat
  sl_mapped :: bool
  sl_state :: stackletState
  baseExtendedBottom :: addr
  baseBottom :: addr
  baseCursor :: addr
  baseTop :: addr
  retadd :: addr
  replicaCursor :: addr
  replicaRetadd :: addr
  bottomBaseRegs :: "val list"
  callinfoStack :: pset
  sl_parent :: "nat option"

record stackChain =
  sc_used :: bool
  sc_cursor :: nat
  sc_avail :: nat
  sc_stacklets :: "nat option list"
  sc_thread :: "nat option"

record stks =
  Stacklets :: "stacklet list"
  StackChains :: "stackChain list"
  smem :: memory
  primaryOff :: nat               \<comment> \<open>\<open>primaryStackletOffset\<close>\<close>
  replicaOff :: nat               \<comment> \<open>\<open>replicaStackletOffset\<close>\<close>
  threadStack :: "nat \<Rightarrow> nat"     \<comment> \<open>the field \<open>stack\<close> of a thread\<close>

definition NumStackChain :: nat where
  "NumStackChain = 200"

definition NumStacklet :: nat where
  "NumStacklet = 200"

definition NumStackletPerChain :: nat where
  "NumStackletPerChain = 10"

definition kilobyte :: nat where
  "kilobyte = 1024"

definition MLStackletSize :: nat where
  "MLStackletSize = 128"

definition CStackletSize :: nat where
  "CStackletSize = 32"

definition GuardStackletSize :: nat where
  "GuardStackletSize = TILT_PAGESIZE div kilobyte"

definition stackletOffset :: nat where
  "stackletOffset = (GuardStackletSize + MLStackletSize + CStackletSize) * kilobyte"

definition initStacklet :: stacklet where
  "initStacklet = \<lparr>sl_count = 0, sl_mapped = False, sl_state = Inconsistent, baseExtendedBottom = 0,
     baseBottom = 0, baseCursor = 0, baseTop = 0, retadd = 0, replicaCursor = 0, replicaRetadd = 0,
     bottomBaseRegs = replicate 64 0, callinfoStack = SetInit 0, sl_parent = None\<rparr>"

definition initChain :: stackChain where
  "initChain = \<lparr>sc_used = False, sc_cursor = 0, sc_avail = 0, sc_stacklets = [], sc_thread = None\<rparr>"

definition StackInitialize :: "memory \<Rightarrow> stks" where
  \<comment> \<open>with the offsets that \<open>memobj_init\<close> sets; what the source leaves uninitialized is 0\<close>
  "StackInitialize m = \<lparr>Stacklets = replicate NumStacklet initStacklet,
     StackChains = replicate NumStackChain initChain, smem = m,
     primaryOff = 0, replicaOff = stackletOffset, threadStack = (\<lambda>_. 0)\<rparr>"

definition updSt :: "nat \<Rightarrow> (stacklet \<Rightarrow> stacklet) \<Rightarrow> stks \<Rightarrow> stks" where
  "updSt i f s = s\<lparr>Stacklets := (Stacklets s)[i := f (Stacklets s ! i)]\<rparr>"

definition updChain :: "nat \<Rightarrow> (stackChain \<Rightarrow> stackChain) \<Rightarrow> stks \<Rightarrow> stks" where
  "updChain c f s = s\<lparr>StackChains := (StackChains s)[c := f (StackChains s ! c)]\<rparr>"

fun firstFree :: "('a \<Rightarrow> bool) \<Rightarrow> nat \<Rightarrow> 'a list \<Rightarrow> nat option" where
  \<comment> \<open>the loops that claim a free slot by \<open>CompareAndSwap\<close>\<close>
  "firstFree P i [] = None"
| "firstFree P i (x # xs) = (if P x then Some i else firstFree P (i + 1) xs)"

subsection \<open>Stacklets\<close>

definition Stacklet_Dealloc :: "nat option \<Rightarrow> stks \<Rightarrow> stks result" where
  "Stacklet_Dealloc p s =
     (case p of None \<Rightarrow> Inl (Overrun ''NULL stacklet'') | Some i \<Rightarrow>
      bindE (assertE (sl_count (Stacklets s ! i) > 0) ''stacklet->count > 0'') (\<lambda>_.
      Inr (updSt i (\<lambda>x. x\<lparr>sl_parent := (if sl_count x = 1 then None else sl_parent x),
                           sl_count := sl_count x - 1\<rparr>) s)))"

definition StackletPrimaryTop :: "nat \<Rightarrow> stks \<Rightarrow> addr" where
  "StackletPrimaryTop i s = baseTop (Stacklets s ! i) + 4 * (primaryOff s div 4)"

definition StackletPrimaryCursor :: "nat \<Rightarrow> stks \<Rightarrow> addr" where
  "StackletPrimaryCursor i s = baseCursor (Stacklets s ! i) + 4 * (primaryOff s div 4)"

definition StackletPrimaryBottom :: "nat \<Rightarrow> stks \<Rightarrow> addr" where
  "StackletPrimaryBottom i s = baseBottom (Stacklets s ! i) + 4 * (primaryOff s div 4)"

definition mapStacklet :: "(addr \<Rightarrow> nat \<Rightarrow> bool) \<Rightarrow> addr \<Rightarrow> stacklet \<Rightarrow> stacklet result" where
  \<comment> \<open>the block \<open>if (!res->mapped)\<close> of \<open>Stacklet_Alloc\<close> for the region that starts at \<open>start\<close>\<close>
  "mapStacklet mprot start r =
     (let middle = start + 4 * (stackletOffset div 4);
          eb = start + 4 * (GuardStackletSize * kilobyte div 4);
          bb = eb + 4 * (CStackletSize * kilobyte div 4);
          tp = bb + 4 * (MLStackletSize * kilobyte div 4)
      in bindE (assertE (tp = middle) ''res->baseTop == middle'') (\<lambda>_.
         bindE (my_mprotect mprot start (GuardStackletSize * kilobyte)) (\<lambda>_.
         bindE (my_mprotect mprot middle (GuardStackletSize * kilobyte)) (\<lambda>_.
         Inr (r\<lparr>baseExtendedBottom := eb, baseBottom := bb, baseTop := tp - 4 * (128 div 4),
                callinfoStack := SetCreate (stackletOffset div (32 * 4)), sl_mapped := True\<rparr>)))))"

definition Stacklet_Alloc ::
    "(nat \<Rightarrow> addr option) \<Rightarrow> (addr \<Rightarrow> nat \<Rightarrow> bool) \<Rightarrow> nat option \<Rightarrow> stks \<Rightarrow> (nat \<times> stks) result" where
  "Stacklet_Alloc mm mprot chain s =
     (case firstFree (\<lambda>x. sl_count x = 0) 0 (Stacklets s) of
        None \<Rightarrow> Inl (Die ''out of stack space'')
      | Some i \<Rightarrow>
        let r = (Stacklets s ! i)\<lparr>sl_count := 1, sl_parent := chain, sl_state := Inconsistent\<rparr>
        in bindE (if sl_mapped r then Inr r
                  else case mm i of None \<Rightarrow> Inl (Die ''out of memory'') | Some start \<Rightarrow> mapStacklet mprot start r)
             (\<lambda>r. Inr (i, s\<lparr>Stacklets := (Stacklets s)[i := r\<lparr>baseCursor := baseTop r,
                bottomBaseRegs := replicate 32 0 @ drop 32 (bottomBaseRegs r),
                callinfoStack := SetReset (callinfoStack r)\<rparr>]\<rparr>)))"

definition Stacklet_Copy :: "nat \<Rightarrow> stks \<Rightarrow> (bool \<times> stks) result" where
  \<comment> \<open>copy primary into replica; \<open>primaryRegs\<close> and \<open>replicaRegs\<close> are halves of the register array\<close>
  "Stacklet_Copy i s =
     (let x = Stacklets s ! i
      in if sl_state x = Pending
         then let activeWords = (baseTop x - baseCursor x) div 4;
                  pregs = (if primaryOff s = 0 then take 32 (bottomBaseRegs x) else drop 32 (bottomBaseRegs x))
              in bindE (assertE (sl_count x > 0) ''stacklet->count > 0'') (\<lambda>_.
                 bindE (assertE (baseExtendedBottom x \<le> baseCursor x) ''baseExtendedBottom <= baseCursor'') (\<lambda>_.
                 bindE (assertE (baseCursor x \<le> baseTop x) ''baseCursor <= baseTop'') (\<lambda>_.
                 let s1 = updSt i (\<lambda>x. x\<lparr>callinfoStack := SetReset (callinfoStack x),
                            replicaCursor := baseCursor x, replicaRetadd := retadd x,
                            bottomBaseRegs := (if primaryOff s = 0 then take 32 (bottomBaseRegs x) @ pregs
                                               else pregs @ drop 32 (bottomBaseRegs x)),
                            sl_state := InactiveCopied\<rparr>) s
                 in Inr (True, s1\<lparr>smem := copyWords (smem s1) (baseCursor x + 4 * (replicaOff s div 4))
                                     (baseCursor x + 4 * (primaryOff s div 4)) activeWords\<rparr>))))
         else if sl_state x = Copying then Inl (Spin ''Stacklet_Copy'')
         else bindE (assertE (sl_state x \<noteq> Inconsistent) ''stacklet->state != Inconsistent'') (\<lambda>_.
              Inr (False, s)))"

definition Stacklet_KillReplica :: "nat \<Rightarrow> stks \<Rightarrow> stks result" where
  "Stacklet_KillReplica i s =
     bindE (assertE (sl_count (Stacklets s ! i) > 0) ''stacklet->count > 0'') (\<lambda>_.
     bindE (if sl_state (Stacklets s ! i) = Pending
            then bindE (Stacklet_Copy i s) (\<lambda>(b, s). Inr s) else Inr s) (\<lambda>s.
     if sl_state (Stacklets s ! i) = Copying then Inl (Spin ''Stacklet_KillReplica'')
     else let s = updSt i (\<lambda>x. if sl_state x = InactiveCopied then x\<lparr>sl_state := ActiveCopied\<rparr> else x) s
          in bindE (assertE (sl_state (Stacklets s ! i) \<in> {Inconsistent, ActiveCopied})
               ''stacklet->state == Inconsistent || ActiveCopied'') (\<lambda>_. Inr s)))"

subsection \<open>Stack chains\<close>

definition activeSt :: "stackChain \<Rightarrow> nat option list" where
  \<comment> \<open>the stacklets below the cursor\<close>
  "activeSt ch = take (sc_cursor ch) (sc_stacklets ch)"

definition countPositive :: "stks \<Rightarrow> nat option \<Rightarrow> bool" where
  "countPositive s p \<longleftrightarrow> (case p of None \<Rightarrow> False | Some i \<Rightarrow> sl_count (Stacklets s ! i) > 0)"

definition NewStacklet ::
    "(nat \<Rightarrow> addr option) \<Rightarrow> (addr \<Rightarrow> nat \<Rightarrow> bool) \<Rightarrow> nat \<Rightarrow> stks \<Rightarrow> (nat \<times> stks) result" where
  "NewStacklet mm mprot c s =
     bindE (Stacklet_Alloc mm mprot (Some c) s) (\<lambda>(i, s).
     let ch = StackChains s ! c; n = sc_avail ch; grow = (sc_cursor ch + 1 = n)
     in bindE (if grow then assertE (n * 2 > 0) ''avail > 0'' else Inr ()) (\<lambda>_.
        let ch = (if grow then ch\<lparr>sc_stacklets := take n (sc_stacklets ch) @ replicate n None, sc_avail := n * 2\<rparr>
                  else ch)
        in if length (sc_stacklets ch) \<le> sc_cursor ch then Inl (Overrun ''stackChain->stacklets'')
           else let s = updChain c (\<lambda>_. ch\<lparr>sc_stacklets := (sc_stacklets ch)[sc_cursor ch := Some i],
                                            sc_cursor := sc_cursor ch + 1\<rparr>) s
                in bindE (assertE (\<forall>p \<in> set (activeSt (StackChains s ! c)). countPositive s p)
                            ''stacklets[i]->count > 0'') (\<lambda>_. Inr (i, s))))"

fun deallocAll :: "nat option list \<Rightarrow> stks \<Rightarrow> stks result" where
  \<comment> \<open>the loops that drop the stacklets of a chain; they also set the entries to \<open>NULL\<close>\<close>
  "deallocAll [] s = Inr s"
| "deallocAll (p # ps) s = bindE (Stacklet_Dealloc p s) (deallocAll ps)"

fun findActive :: "stks \<Rightarrow> addr \<Rightarrow> nat option list \<Rightarrow> nat \<Rightarrow> (nat \<times> nat) option result" where
  \<comment> \<open>the search of \<open>EstablishStacklet\<close> from index \<open>n - 1\<close> down: the index and the stacklet\<close>
  "findActive s sp ps 0 = Inr None"
| "findActive s sp ps (Suc n) =
     (case ps ! n of
        Some i \<Rightarrow> if baseExtendedBottom (Stacklets s ! i) \<le> sp \<and> sp \<le> baseTop (Stacklets s ! i)
                  then Inr (Some (n, i)) else findActive s sp ps n
      | None \<Rightarrow> Inl (Overrun ''NULL stacklet''))"

definition EstablishStacklet :: "nat \<Rightarrow> addr \<Rightarrow> stks \<Rightarrow> (nat \<times> stks) result" where
  "EstablishStacklet c sp s =
     (let ch = StackChains s ! c; sp_base = sp - 4 * (primaryOff s div 4)
      in bindE (findActive s sp_base (sc_stacklets ch) (sc_cursor ch)) (\<lambda>r.
         case r of None \<Rightarrow> Inl (Die ''stack pointer not in stack chain'')
         | Some (k, i) \<Rightarrow>
           let s = updSt i (\<lambda>x. x\<lparr>baseCursor := sp_base\<rparr>) s
           in bindE (deallocAll (drop (k + 1) (activeSt ch)) s) (\<lambda>s.
              Inr (i, updChain c (\<lambda>ch. ch\<lparr>sc_stacklets := take (k + 1) (sc_stacklets ch)
                          @ replicate (sc_cursor ch - (k + 1)) None @ drop (sc_cursor ch) (sc_stacklets ch),
                        sc_cursor := k + 1\<rparr>) s))))"

definition PopStacklet :: "nat \<Rightarrow> stks \<Rightarrow> stks result" where
  "PopStacklet c s =
     (let ch = StackChains s ! c
      in if sc_cursor ch = 0 then Inl (Overrun ''stacklets[-1]'')
         else bindE (Stacklet_Dealloc (sc_stacklets ch ! (sc_cursor ch - 1)) s) (\<lambda>s.
              Inr (updChain c (\<lambda>ch. ch\<lparr>sc_stacklets := (sc_stacklets ch)[sc_cursor ch - 1 := None],
                                        sc_cursor := sc_cursor ch - 1\<rparr>) s)))"

definition DequeueStacklet :: "nat \<Rightarrow> stks \<Rightarrow> stks result" where
  "DequeueStacklet c s =
     (let ch = StackChains s ! c
      in if sc_cursor ch = 0 then Inl (Overrun ''stacklets[-1]'')
         else bindE (Stacklet_Dealloc (sc_stacklets ch ! 0) s) (\<lambda>s.
              bindE (assertE (\<forall>p \<in> set (tl (activeSt ch)). countPositive s p) ''stacklets[i-1]->count > 0'') (\<lambda>_.
              Inr (updChain c (\<lambda>ch. ch\<lparr>sc_stacklets := tl (activeSt ch) @ None # drop (sc_cursor ch) (sc_stacklets ch),
                                        sc_cursor := sc_cursor ch - 1\<rparr>) s))))"

definition StackChain_BaseAlloc :: "nat option \<Rightarrow> nat \<Rightarrow> stks \<Rightarrow> (nat \<times> stks) result" where
  "StackChain_BaseAlloc t n s =
     (case firstFree (\<lambda>ch. \<not> sc_used ch) 0 (StackChains s) of
        None \<Rightarrow> Inl (Die ''could not allocate new stack chain'')
      | Some c \<Rightarrow> bindE (assertE (n > 0) ''n > 0'') (\<lambda>_.
          Inr (c, updChain c (\<lambda>ch. ch\<lparr>sc_used := True, sc_cursor := 0, sc_thread := t, sc_avail := n,
                                       sc_stacklets := replicate n None\<rparr>) s)))"

fun countUp :: "nat option list \<Rightarrow> stks \<Rightarrow> stks result" where
  \<comment> \<open>\<open>src->stacklets[i]->count++\<close>\<close>
  "countUp [] s = Inr s"
| "countUp (p # ps) s =
     (case p of None \<Rightarrow> Inl (Overrun ''NULL stacklet'')
      | Some i \<Rightarrow> countUp ps (updSt i (\<lambda>x. x\<lparr>sl_count := sl_count x + 1\<rparr>) s))"

definition StackChain_Copy :: "nat \<Rightarrow> nat \<Rightarrow> stks \<Rightarrow> (nat \<times> stks) result" where
  "StackChain_Copy t src s =
     bindE (StackChain_BaseAlloc (Some t) (sc_avail (StackChains s ! src)) s) (\<lambda>(c, s).
     bindE (assertE (sc_thread (StackChains s ! threadStack s t) = Some t) ''t == t->stack->thread'') (\<lambda>_.
     bindE (assertE (sc_used (StackChains s ! src)) ''src->used'') (\<lambda>_.
     let ps = activeSt (StackChains s ! src)
     in bindE (countUp ps s) (\<lambda>s.
        Inr (c, updChain c (\<lambda>ch. ch\<lparr>sc_cursor := sc_cursor (StackChains s ! src),
                   sc_stacklets := ps @ drop (length ps) (sc_stacklets ch)\<rparr>) s)))))"

definition StackChain_Size :: "nat \<Rightarrow> stks \<Rightarrow> nat" where
  "StackChain_Size c s =
     (\<Sum>p \<leftarrow> activeSt (StackChains s ! c).
        case p of None \<Rightarrow> 0 | Some i \<Rightarrow> 4 * ((baseTop (Stacklets s ! i) - baseCursor (Stacklets s ! i)) div 4))"

definition StackChain_Alloc ::
    "(nat \<Rightarrow> addr option) \<Rightarrow> (addr \<Rightarrow> nat \<Rightarrow> bool) \<Rightarrow> nat \<Rightarrow> stks \<Rightarrow> (nat \<times> stks) result" where
  "StackChain_Alloc mm mprot t s =
     bindE (StackChain_BaseAlloc (Some t) NumStackletPerChain s) (\<lambda>(c, s).
     bindE (NewStacklet mm mprot c s) (\<lambda>(i, s). Inr (c, s)))"

definition StackChain_Dealloc :: "nat \<Rightarrow> stks \<Rightarrow> stks result" where
  "StackChain_Dealloc c s =
     bindE (deallocAll (activeSt (StackChains s ! c)) s) (\<lambda>s.
     Inr (updChain c (\<lambda>ch. ch\<lparr>sc_stacklets := replicate (sc_cursor ch) None @ drop (sc_cursor ch) (sc_stacklets ch),
                               sc_cursor := 0, sc_thread := None, sc_used := False\<rparr>) s))"

fun getStackletLoop :: "addr \<Rightarrow> nat \<Rightarrow> stacklet list \<Rightarrow> nat option" where
  "getStackletLoop a i [] = None"
| "getStackletLoop a i (x # xs) =
     (let off = int a - 4 * int (stackletOffset div 4)
      in if sl_count x \<noteq> 0 \<and> (baseExtendedBottom x \<le> a \<and> a \<le> baseTop x \<or>
            int (baseExtendedBottom x) \<le> off \<and> off \<le> int (baseTop x))
         then Some i else getStackletLoop a (i + 1) xs)"

definition GetStacklet :: "addr \<Rightarrow> stks \<Rightarrow> nat option" where
  "GetStacklet a s = getStackletLoop a 0 (Stacklets s)"

definition CurrentStacklet :: "nat \<Rightarrow> stks \<Rightarrow> nat result" where
  "CurrentStacklet c s =
     (let ch = StackChains s ! c
      in if sc_cursor ch = 0 then Inl (Overrun ''stacklets[-1]'')
         else bindE (assertE (sc_used ch) ''stackChain->used'') (\<lambda>_.
              bindE (assertE (sc_cursor ch < sc_avail ch) ''cursor < avail'') (\<lambda>_.
              case sc_stacklets ch ! (sc_cursor ch - 1) of None \<Rightarrow> Inl (Overrun ''NULL stacklet'')
              | Some i \<Rightarrow> bindE (assertE (sl_count (Stacklets s ! i) > 0) ''stacklet->count > 0'') (\<lambda>_. Inr i))))"

subsection \<open>The invariant\<close>

definition chain_ok :: "nat \<Rightarrow> stackChain \<Rightarrow> bool" where
  "chain_ok n ch \<longleftrightarrow>
     (if sc_used ch then sc_cursor ch < sc_avail ch \<and> length (sc_stacklets ch) = sc_avail ch else sc_cursor ch = 0) \<and>
     distinct (activeSt ch) \<and> (\<forall>p \<in> set (activeSt ch). \<exists>i < n. p = Some i)"

definition refs :: "stackChain list \<Rightarrow> nat \<Rightarrow> nat" where
  \<comment> \<open>how often a stacklet occurs in the chains\<close>
  "refs chs i = (\<Sum>ch \<leftarrow> chs. count_list (activeSt ch) (Some i))"

definition counts_exact :: "stks \<Rightarrow> bool" where
  "counts_exact s \<longleftrightarrow> (\<forall>i < length (Stacklets s). sl_count (Stacklets s ! i) = refs (StackChains s) i)"

definition stks_ok :: "stks \<Rightarrow> bool" where
  "stks_ok s \<longleftrightarrow> counts_exact s \<and> (\<forall>ch \<in> set (StackChains s). chain_ok (length (Stacklets s)) ch)"

lemma stks_okD:
  assumes "stks_ok s"
  shows stks_counts: "i < length (Stacklets s) \<Longrightarrow> sl_count (Stacklets s ! i) = refs (StackChains s) i"
    and stks_chain: "c < length (StackChains s) \<Longrightarrow> chain_ok (length (Stacklets s)) (StackChains s ! c)"
  using assms by (auto simp: stks_ok_def counts_exact_def)

lemma refs_upd:
  assumes "c < length chs"
  shows "refs (chs[c := ch]) i + count_list (activeSt (chs ! c)) (Some i) = refs chs i + count_list (activeSt ch) (Some i)"
proof -
  have *: "map (\<lambda>ch. count_list (activeSt ch) (Some i)) (chs[c := ch])
      = (map (\<lambda>ch. count_list (activeSt ch) (Some i)) chs)[c := count_list (activeSt ch) (Some i)]"
    by (simp add: map_update)
  have "count_list (activeSt (chs ! c)) (Some i) \<le> refs chs i"
    unfolding refs_def using assms elem_le_sum_list [of c "map (\<lambda>ch. count_list (activeSt ch) (Some i)) chs"] by simp
  then show ?thesis
    using assms unfolding refs_def * by (subst sum_list_update) simp_all
qed

lemma refs_pos:
  assumes "c < length chs" "Some i \<in> set (activeSt (chs ! c))"
  shows "0 < refs chs i"
proof -
  have "count_list (activeSt (chs ! c)) (Some i) \<le> refs chs i"
    unfolding refs_def using assms(1) elem_le_sum_list [of c "map (\<lambda>ch. count_list (activeSt ch) (Some i)) chs"]
    by simp
  moreover have "count_list (activeSt (chs ! c)) (Some i) \<noteq> 0"
    using assms(2) by (simp add: count_list_0_iff)
  ultimately show ?thesis by simp
qed

lemma stks_positive:
  assumes "stks_ok s" "c < length (StackChains s)" "p \<in> set (activeSt (StackChains s ! c))"
  shows "\<exists>i < length (Stacklets s). p = Some i \<and> 0 < sl_count (Stacklets s ! i)"
proof -
  obtain i where i: "i < length (Stacklets s)" "p = Some i"
    using stks_chain [OF assms(1,2)] assms(3) by (auto simp: chain_ok_def)
  then show ?thesis
    using refs_pos [OF assms(2)] assms(3) stks_counts [OF assms(1) i(1)] by auto
qed

lemma stks_countPositive:
  assumes "stks_ok s" "c < length (StackChains s)"
  shows "\<forall>p \<in> set (activeSt (StackChains s ! c)). countPositive s p"
proof
  fix p assume "p \<in> set (activeSt (StackChains s ! c))"
  then obtain i where "p = Some i" "0 < sl_count (Stacklets s ! i)"
    using stks_positive [OF assms] by blast
  then show "countPositive s p"
    by (simp add: countPositive_def)
qed

lemma upd_sel [simp]:
  "Stacklets (updChain c f s) = Stacklets s" "StackChains (updSt i g s) = StackChains s"
  "StackChains (updChain c f s) = (StackChains s)[c := f (StackChains s ! c)]"
  "Stacklets (updSt i g s) = (Stacklets s)[i := g (Stacklets s ! i)]"
  "length (StackChains (updChain c f s)) = length (StackChains s)"
  by (simp_all add: updSt_def updChain_def)

lemma countPositive_updChain [simp]: "countPositive (updChain c f s) p = countPositive s p"
  by (simp add: countPositive_def split: option.splits)

lemma firstFree_Some:
  "firstFree P k xs = Some i \<Longrightarrow> k \<le> i \<and> i < k + length xs \<and> P (xs ! (i - k))"
proof (induction xs arbitrary: k)
  case (Cons x xs)
  show ?case
  proof (cases "P x")
    case False
    then have "Suc k \<le> i \<and> i < Suc k + length xs \<and> P (xs ! (i - Suc k))"
      using Cons.IH [of "Suc k"] Cons.prems by simp
    then show ?thesis
      by (simp add: nth_Cons' Suc_diff_Suc)
  qed (use Cons in simp)
qed simp

lemma deallocAll_ok:
  assumes "distinct ps" "\<forall>p \<in> set ps. \<exists>i < length (Stacklets s). p = Some i \<and> 0 < sl_count (Stacklets s ! i)"
  shows "\<exists>s'. deallocAll ps s = Inr s' \<and> StackChains s' = StackChains s \<and> length (Stacklets s') = length (Stacklets s) \<and>
    (\<forall>i < length (Stacklets s). sl_count (Stacklets s' ! i) + count_list ps (Some i) = sl_count (Stacklets s ! i))"
  using assms
proof (induction ps arbitrary: s)
  case (Cons p ps)
  obtain i where i: "i < length (Stacklets s)" "p = Some i" "0 < sl_count (Stacklets s ! i)"
    using Cons.prems(2) by auto
  define s1 where "s1 = updSt i (\<lambda>x. x\<lparr>sl_parent := (if sl_count x = 1 then None else sl_parent x),
                           sl_count := sl_count x - 1\<rparr>) s"
  have s1: "Stacklet_Dealloc p s = Inr s1"
    using i by (simp add: Stacklet_Dealloc_def s1_def)
  have len: "length (Stacklets s1) = length (Stacklets s)" "StackChains s1 = StackChains s"
    by (simp_all add: s1_def)
  have cnt: "sl_count (Stacklets s1 ! j) = (if j = i then sl_count (Stacklets s ! j) - 1 else sl_count (Stacklets s ! j))"
    if "j < length (Stacklets s)" for j
    using that i(1) by (simp add: s1_def nth_list_update)
  have "\<forall>q \<in> set ps. \<exists>j < length (Stacklets s1). q = Some j \<and> 0 < sl_count (Stacklets s1 ! j)"
    using Cons.prems i(2) cnt len by fastforce
  then obtain s' where s': "deallocAll ps s1 = Inr s'" "StackChains s' = StackChains s1"
    "length (Stacklets s') = length (Stacklets s1)"
    "\<forall>j < length (Stacklets s1). sl_count (Stacklets s' ! j) + count_list ps (Some j) = sl_count (Stacklets s1 ! j)"
    using Cons.IH [of s1] Cons.prems(1) by auto
  then show ?case
    using s1 len cnt i by (intro exI [of _ s']) auto
qed simp

definition resource_fault :: "fault \<Rightarrow> bool" where
  \<comment> \<open>running out of stacklets, chains or memory, and a stack pointer outside the stack\<close>
  "resource_fault e \<longleftrightarrow> e \<in> {Die ''out of stack space'', Die ''out of memory'',
     Die ''could not allocate new stack chain'', Die ''stack pointer not in stack chain''}"

lemma mapStacklet_result:
  "(\<exists>e. mapStacklet mprot a r = Inl e \<and> resource_fault e) \<or> (\<exists>r'. mapStacklet mprot a r = Inr r' \<and> sl_count r' = sl_count r)"
  by (auto simp: mapStacklet_def Let_def my_mprotect_def stackletOffset_def GuardStackletSize_def CStackletSize_def
      MLStackletSize_def kilobyte_def TILT_PAGESIZE_def resource_fault_def)

lemma Stacklet_Alloc_ok:
  "(\<exists>e. Stacklet_Alloc mm mprot c s = Inl e \<and> resource_fault e) \<or>
   (\<exists>i s'. Stacklet_Alloc mm mprot c s = Inr (i, s') \<and> i < length (Stacklets s) \<and> sl_count (Stacklets s ! i) = 0 \<and>
      StackChains s' = StackChains s \<and> length (Stacklets s') = length (Stacklets s) \<and>
      (\<forall>j < length (Stacklets s). sl_count (Stacklets s' ! j) = (if j = i then 1 else sl_count (Stacklets s ! j))))"
proof (cases "firstFree (\<lambda>x. sl_count x = 0) 0 (Stacklets s)")
  case None
  then show ?thesis by (simp add: Stacklet_Alloc_def resource_fault_def)
next
  case (Some i)
  note i = firstFree_Some [OF Some, simplified]
  define r where "r = (Stacklets s ! i)\<lparr>sl_count := 1, sl_parent := c, sl_state := Inconsistent\<rparr>"
  show ?thesis
  proof (cases "sl_mapped r")
    case True
    then show ?thesis
      using Some i by (simp add: Stacklet_Alloc_def r_def nth_list_update)
  next
    case False
    show ?thesis
    proof (cases "mm i")
      case None
      then show ?thesis
        using Some False by (simp add: Stacklet_Alloc_def r_def resource_fault_def)
    next
      case (Some start)
      then show ?thesis
        using \<open>firstFree _ _ _ = Some i\<close> False i mapStacklet_result [of mprot start r]
        by (auto simp: Stacklet_Alloc_def r_def nth_list_update)
    qed
  qed
qed

lemma chain_ok_push:
  assumes "chain_ok n ch" "sc_used ch" "i < n" "Some i \<notin> set (activeSt ch)"
  defines "ch1 \<equiv> (if sc_cursor ch + 1 = sc_avail ch
    then ch\<lparr>sc_stacklets := take (sc_avail ch) (sc_stacklets ch) @ replicate (sc_avail ch) None, sc_avail := sc_avail ch * 2\<rparr>
    else ch)"
  defines "ch2 \<equiv> ch1\<lparr>sc_stacklets := (sc_stacklets ch1)[sc_cursor ch1 := Some i], sc_cursor := sc_cursor ch1 + 1\<rparr>"
  shows "sc_cursor ch1 < length (sc_stacklets ch1)" "activeSt ch2 = activeSt ch @ [Some i]" "chain_ok n ch2"
proof -
  have c: "sc_cursor ch < sc_avail ch" "length (sc_stacklets ch) = sc_avail ch"
    using assms(1,2) by (simp_all add: chain_ok_def)
  show l: "sc_cursor ch1 < length (sc_stacklets ch1)"
    using c by (auto simp: ch1_def)
  have "activeSt ch1 = activeSt ch"
    using c by (simp add: ch1_def activeSt_def)
  then show a: "activeSt ch2 = activeSt ch @ [Some i]"
    using l by (simp add: ch2_def activeSt_def take_Suc_conv_app_nth)
  have "sc_used ch2" "sc_cursor ch2 < sc_avail ch2" "length (sc_stacklets ch2) = sc_avail ch2"
    using c assms(2) by (auto simp: ch2_def ch1_def)
  then show "chain_ok n ch2"
    using assms(1,3,4) by (auto simp: chain_ok_def a)
qed

lemma count_list_notin: "p \<notin> set xs \<Longrightarrow> count_list xs p = 0"
  by simp

lemma NewStacklet_ok:
  assumes ok: "stks_ok s" and c: "c < length (StackChains s)" "sc_used (StackChains s ! c)"
  shows "(\<exists>e. NewStacklet mm mprot c s = Inl e \<and> resource_fault e) \<or>
    (\<exists>i s'. NewStacklet mm mprot c s = Inr (i, s') \<and> stks_ok s' \<and> length (StackChains s') = length (StackChains s) \<and>
       sl_count (Stacklets s ! i) = 0 \<and> activeSt (StackChains s' ! c) = activeSt (StackChains s ! c) @ [Some i])"
proof (cases "\<exists>e. Stacklet_Alloc mm mprot (Some c) s = Inl e \<and> resource_fault e")
  case True
  then show ?thesis by (auto simp: NewStacklet_def)
next
  case False
  then obtain i s1 where a: "Stacklet_Alloc mm mprot (Some c) s = Inr (i, s1)" "i < length (Stacklets s)"
    "sl_count (Stacklets s ! i) = 0" "StackChains s1 = StackChains s" "length (Stacklets s1) = length (Stacklets s)"
    and cnt: "\<forall>j < length (Stacklets s). sl_count (Stacklets s1 ! j) = (if j = i then 1 else sl_count (Stacklets s ! j))"
    using Stacklet_Alloc_ok by blast
  let ?ch = "StackChains s ! c" and ?n = "length (Stacklets s)"
  have fresh: "Some i \<notin> set (activeSt (StackChains s ! d))" if "d < length (StackChains s)" for d
    using refs_pos [OF that] stks_counts [OF ok a(2)] a(3) by (metis less_irrefl)
  define ch1 where "ch1 = (if sc_cursor ?ch + 1 = sc_avail ?ch
    then ?ch\<lparr>sc_stacklets := take (sc_avail ?ch) (sc_stacklets ?ch) @ replicate (sc_avail ?ch) None, sc_avail := sc_avail ?ch * 2\<rparr>
    else ?ch)"
  define ch2 where "ch2 = ch1\<lparr>sc_stacklets := (sc_stacklets ch1)[sc_cursor ch1 := Some i], sc_cursor := sc_cursor ch1 + 1\<rparr>"
  note ch2 = chain_ok_push [OF stks_chain [OF ok c(1)] c(2) a(2) fresh [OF c(1)], folded ch1_def, folded ch2_def]
  define s2 where "s2 = updChain c (\<lambda>_. ch2) s1"
  have sel: "StackChains s2 = (StackChains s)[c := ch2]" "Stacklets s2 = Stacklets s1"
    by (simp_all add: s2_def a(4))
  have ok2: "stks_ok s2"
    unfolding stks_ok_def counts_exact_def
  proof (intro conjI allI impI ballI)
    fix j assume j: "j < length (Stacklets s2)"
    then have "refs (StackChains s2) j = refs (StackChains s) j + (if j = i then 1 else 0)"
      using refs_upd [OF c(1), of ch2 j] ch2(2) by (simp add: sel)
    then show "sl_count (Stacklets s2 ! j) = refs (StackChains s2) j"
      using cnt j a(3,5) stks_counts [OF ok, of j] by (auto simp: sel)
  next
    fix ch assume "ch \<in> set (StackChains s2)"
    then have "ch = ch2 \<or> ch \<in> set (StackChains s)"
      using set_update_subset_insert [of "StackChains s" c ch2] by (auto simp: sel)
    then show "chain_ok (length (Stacklets s2)) ch"
      using ch2(3) ok a(5) by (auto simp: sel stks_ok_def)
  qed
  have ch: "StackChains s2 ! c = ch2"
    using c(1) by (simp add: sel)
  have "\<forall>p \<in> set (activeSt (StackChains s2 ! c)). countPositive s2 p"
    using stks_countPositive [OF ok2, of c] c(1) by (simp add: sel(1))
  then have "NewStacklet mm mprot c s = Inr (i, s2)"
    using c(2) ch2(1) stks_chain [OF ok c(1)]
    unfolding NewStacklet_def a(1) bindE_Inr prod.case Let_def a(4) ch1_def [symmetric] ch2_def [symmetric] s2_def [symmetric]
    by (auto simp: chain_ok_def ch1_def [symmetric])
  then show ?thesis
    using ok2 a(3) ch ch2(2) sel(1) by simp
qed

lemma drop_stacklets_ok:
  \<comment> \<open>dropping the stacklets \<open>ps\<close> and making the chain hold the rest keeps the invariant\<close>
  assumes ok: "stks_ok s" and c: "c < length (StackChains s)"
    and ps: "set ps \<subseteq> set (activeSt (StackChains s ! c))" "distinct ps"
    and rest: "\<And>p. count_list (activeSt ch) p + count_list ps p = count_list (activeSt (StackChains s ! c)) p"
    and ch: "chain_ok (length (Stacklets s)) ch"
  shows "\<exists>s'. deallocAll ps s = Inr s' \<and> StackChains s' = StackChains s \<and> length (Stacklets s') = length (Stacklets s) \<and>
    stks_ok (updChain c (\<lambda>_. ch) s')"
proof -
  have "\<forall>p \<in> set ps. \<exists>i < length (Stacklets s). p = Some i \<and> 0 < sl_count (Stacklets s ! i)"
    using stks_positive [OF ok c] ps(1) by blast
  then obtain s' where s': "deallocAll ps s = Inr s'" "StackChains s' = StackChains s"
    "length (Stacklets s') = length (Stacklets s)"
    "\<forall>i < length (Stacklets s). sl_count (Stacklets s' ! i) + count_list ps (Some i) = sl_count (Stacklets s ! i)"
    using deallocAll_ok [OF ps(2)] by blast
  have "stks_ok (updChain c (\<lambda>_. ch) s')"
    unfolding stks_ok_def counts_exact_def
  proof (intro conjI allI impI ballI)
    fix j assume j: "j < length (Stacklets (updChain c (\<lambda>_. ch) s'))"
    then have "sl_count (Stacklets s' ! j) + count_list ps (Some j) = refs (StackChains s) j"
      using s'(3,4) stks_counts [OF ok, of j] by simp
    then show "sl_count (Stacklets (updChain c (\<lambda>_. ch) s') ! j) = refs (StackChains (updChain c (\<lambda>_. ch) s')) j"
      using refs_upd [OF c, of ch j] rest [of "Some j"] by (simp add: s'(2))
  next
    fix ch' assume "ch' \<in> set (StackChains (updChain c (\<lambda>_. ch) s'))"
    then have "ch' = ch \<or> ch' \<in> set (StackChains s)"
      using set_update_subset_insert [of "StackChains s" c ch] by (auto simp: s'(2))
    then show "chain_ok (length (Stacklets (updChain c (\<lambda>_. ch) s'))) ch'"
      using ch ok s'(3) by (auto simp: stks_ok_def)
  qed
  then show ?thesis
    using s' by blast
qed

lemma chain_ok_active:
  "chain_ok n ch \<Longrightarrow> sc_used ch \<Longrightarrow> length (activeSt ch) = sc_cursor ch \<and> sc_cursor ch < length (sc_stacklets ch)"
  by (auto simp: chain_ok_def activeSt_def)

lemma PopStacklet_ok:
  assumes ok: "stks_ok s" and c: "c < length (StackChains s)" "sc_used (StackChains s ! c)"
    and ne: "activeSt (StackChains s ! c) \<noteq> []"
  shows "\<exists>s'. PopStacklet c s = Inr s' \<and> stks_ok s' \<and> length (StackChains s') = length (StackChains s) \<and>
    activeSt (StackChains s' ! c) = butlast (activeSt (StackChains s ! c))"
proof -
  let ?ch = "StackChains s ! c"
  let ?ch' = "?ch\<lparr>sc_stacklets := (sc_stacklets ?ch)[sc_cursor ?ch - 1 := None], sc_cursor := sc_cursor ?ch - 1\<rparr>"
  note len = chain_ok_active [OF stks_chain [OF ok c(1)] c(2)]
  have cur: "0 < sc_cursor ?ch"
    using ne by (auto simp: activeSt_def)
  have a: "activeSt ?ch' = butlast (activeSt ?ch)"
    using len by (simp add: activeSt_def butlast_take)
  have l: "activeSt ?ch = butlast (activeSt ?ch) @ [sc_stacklets ?ch ! (sc_cursor ?ch - 1)]"
  proof -
    obtain m where m: "sc_cursor ?ch = Suc m"
      using cur gr0_implies_Suc by blast
    then have "m < length (sc_stacklets ?ch)"
      using len by linarith
    then show ?thesis
      unfolding a [symmetric] by (simp add: activeSt_def m take_Suc_conv_app_nth)
  qed
  have d: "distinct (butlast (activeSt ?ch) @ [sc_stacklets ?ch ! (sc_cursor ?ch - 1)])"
    using stks_chain [OF ok c(1)] l by (simp add: chain_ok_def)
  have "\<exists>s'. deallocAll [sc_stacklets ?ch ! (sc_cursor ?ch - 1)] s = Inr s' \<and> StackChains s' = StackChains s \<and>
      length (Stacklets s') = length (Stacklets s) \<and> stks_ok (updChain c (\<lambda>_. ?ch') s')"
  proof (rule drop_stacklets_ok [OF ok c(1)])
    show "set [sc_stacklets ?ch ! (sc_cursor ?ch - 1)] \<subseteq> set (activeSt ?ch)"
      by (subst l) simp
    show "count_list (activeSt ?ch') p + count_list [sc_stacklets ?ch ! (sc_cursor ?ch - 1)] p = count_list (activeSt ?ch) p" for p
      unfolding a by (subst (2) l) simp
    show "chain_ok (length (Stacklets s)) ?ch'"
      using stks_chain [OF ok c(1)] c(2) d in_set_butlastD [of _ "activeSt ?ch"]
      unfolding chain_ok_def a by auto
  qed simp
  then show ?thesis
    using cur c(1) a by (auto simp: PopStacklet_def updChain_def Let_def)
qed

lemma DequeueStacklet_ok:
  assumes ok: "stks_ok s" and c: "c < length (StackChains s)" "sc_used (StackChains s ! c)"
    and ne: "activeSt (StackChains s ! c) \<noteq> []"
  shows "\<exists>s'. DequeueStacklet c s = Inr s' \<and> stks_ok s' \<and> length (StackChains s') = length (StackChains s) \<and>
    activeSt (StackChains s' ! c) = tl (activeSt (StackChains s ! c))"
proof -
  let ?ch = "StackChains s ! c"
  let ?ch' = "?ch\<lparr>sc_stacklets := tl (activeSt ?ch) @ None # drop (sc_cursor ?ch) (sc_stacklets ?ch), sc_cursor := sc_cursor ?ch - 1\<rparr>"
  note len = chain_ok_active [OF stks_chain [OF ok c(1)] c(2)]
  have cur: "0 < sc_cursor ?ch"
    using ne by (auto simp: activeSt_def)
  have a: "activeSt ?ch' = tl (activeSt ?ch)"
    using len by (simp add: activeSt_def)
  have l: "activeSt ?ch = sc_stacklets ?ch ! 0 # tl (activeSt ?ch)"
    using len cur ne by (cases "sc_stacklets ?ch") (auto simp: activeSt_def take_Cons')
  have d: "distinct (sc_stacklets ?ch ! 0 # tl (activeSt ?ch))"
    using stks_chain [OF ok c(1)] l by (simp add: chain_ok_def)
  have "\<exists>s'. deallocAll [sc_stacklets ?ch ! 0] s = Inr s' \<and> StackChains s' = StackChains s \<and>
      length (Stacklets s') = length (Stacklets s) \<and> stks_ok (updChain c (\<lambda>_. ?ch') s')"
  proof (rule drop_stacklets_ok [OF ok c(1)])
    show "set [sc_stacklets ?ch ! 0] \<subseteq> set (activeSt ?ch)"
      by (subst l) simp
    show "count_list (activeSt ?ch') p + count_list [sc_stacklets ?ch ! 0] p = count_list (activeSt ?ch) p" for p
      unfolding a by (subst (2) l) simp
    have "length (sc_stacklets ?ch') = sc_avail ?ch'" "sc_cursor ?ch' < sc_avail ?ch'"
      using stks_chain [OF ok c(1)] c(2) len cur by (auto simp: chain_ok_def)
    moreover have "\<forall>p \<in> set (tl (activeSt ?ch)). \<exists>i < length (Stacklets s). p = Some i"
      using stks_chain [OF ok c(1)] list.set_sel(2) [of "activeSt ?ch"] ne by (fastforce simp: chain_ok_def)
    ultimately show "chain_ok (length (Stacklets s)) ?ch'"
      using c(2) d unfolding chain_ok_def a by simp
  qed simp
  then obtain s' where s': "Stacklet_Dealloc (sc_stacklets ?ch ! 0) s = Inr s'" "StackChains s' = StackChains s"
    "length (Stacklets s') = length (Stacklets s)" "stks_ok (updChain c (\<lambda>_. ?ch') s')"
    by auto
  have "\<forall>p \<in> set (tl (activeSt ?ch)). countPositive s' p"
  proof -
    have "activeSt (StackChains (updChain c (\<lambda>_. ?ch') s') ! c) = tl (activeSt ?ch)"
      using a c(1) by (simp add: s'(2))
    then show ?thesis
      using stks_countPositive [OF s'(4), of c] c(1) by (simp add: s'(2))
  qed
  then show ?thesis
    using s' cur c(1) a by (auto simp: DequeueStacklet_def updChain_def Let_def)
qed

lemma StackChain_Dealloc_ok:
  assumes ok: "stks_ok s" and c: "c < length (StackChains s)" "sc_used (StackChains s ! c)"
  shows "\<exists>s'. StackChain_Dealloc c s = Inr s' \<and> stks_ok s' \<and> length (StackChains s') = length (StackChains s) \<and>
    \<not> sc_used (StackChains s' ! c)"
proof -
  let ?ch = "StackChains s ! c"
  let ?ch' = "?ch\<lparr>sc_stacklets := replicate (sc_cursor ?ch) None @ drop (sc_cursor ?ch) (sc_stacklets ?ch),
     sc_cursor := 0, sc_thread := None, sc_used := False\<rparr>"
  have "\<exists>s'. deallocAll (activeSt ?ch) s = Inr s' \<and> StackChains s' = StackChains s \<and>
      length (Stacklets s') = length (Stacklets s) \<and> stks_ok (updChain c (\<lambda>_. ?ch') s')"
    using stks_chain [OF ok c(1)]
    by (intro drop_stacklets_ok [OF ok c(1)]) (auto simp: chain_ok_def activeSt_def)
  then show ?thesis
    using c(1) by (auto simp: StackChain_Dealloc_def updChain_def)
qed

lemma updSt_ok:
  assumes "stks_ok s" "\<And>x. sl_count (f x) = sl_count x"
  shows "stks_ok (updSt i f s)"
proof -
  have "sl_count ((Stacklets s)[i := f (Stacklets s ! i)] ! j) = sl_count (Stacklets s ! j)" if "j < length (Stacklets s)" for j
    using that assms(2) by (cases "j = i") simp_all
  then show ?thesis
    using assms(1) by (simp add: stks_ok_def counts_exact_def)
qed

lemma findActive_Some:
  "findActive s sp ps n = Inr (Some (k, i)) \<Longrightarrow> k < n \<and> ps ! k = Some i \<and>
     baseExtendedBottom (Stacklets s ! i) \<le> sp \<and> sp \<le> baseTop (Stacklets s ! i)"
  by (induction n) (auto split: option.splits if_splits)

lemma findActive_total:
  "(\<And>k. k < n \<Longrightarrow> ps ! k \<noteq> None) \<Longrightarrow> \<exists>r. findActive s sp ps n = Inr r"
  by (induction n) (fastforce split: option.splits)+

lemma EstablishStacklet_ok:
  assumes ok: "stks_ok s" and c: "c < length (StackChains s)" "sc_used (StackChains s ! c)"
  shows "(\<exists>e. EstablishStacklet c sp s = Inl e \<and> resource_fault e) \<or>
    (\<exists>k i s'. EstablishStacklet c sp s = Inr (i, s') \<and> stks_ok s' \<and> length (StackChains s') = length (StackChains s) \<and>
      activeSt (StackChains s' ! c) = take (k + 1) (activeSt (StackChains s ! c)) \<and>
      k < length (activeSt (StackChains s ! c)) \<and> activeSt (StackChains s ! c) ! k = Some i)"
proof -
  let ?ch = "StackChains s ! c" and ?sp = "sp - 4 * (primaryOff s div 4)"
  note len = chain_ok_active [OF stks_chain [OF ok c(1)] c(2)]
  have "sc_stacklets ?ch ! k \<noteq> None" if "k < sc_cursor ?ch" for k
  proof -
    have "activeSt ?ch ! k \<in> set (activeSt ?ch)"
      using that len by (intro nth_mem) simp
    then have "activeSt ?ch ! k \<noteq> None"
      using stks_positive [OF ok c(1)] by fastforce
    then show ?thesis
      using that by (simp add: activeSt_def)
  qed
  then obtain r where r: "findActive s ?sp (sc_stacklets ?ch) (sc_cursor ?ch) = Inr r"
    using findActive_total by blast
  show ?thesis
  proof (cases r)
    case None
    then show ?thesis
      using r by (simp add: EstablishStacklet_def Let_def resource_fault_def)
  next
    case (Some ki)
    obtain k i where ki: "r = Some (k, i)"
      using Some by (cases ki) auto
    have k: "k < sc_cursor ?ch" "sc_stacklets ?ch ! k = Some i"
      using findActive_Some r ki by blast+
    define s1 where "s1 = updSt i (\<lambda>x. x\<lparr>baseCursor := ?sp\<rparr>) s"
    have s1: "StackChains s1 = StackChains s" "length (Stacklets s1) = length (Stacklets s)" "stks_ok s1"
      using updSt_ok [OF ok] by (simp_all add: s1_def)
    let ?ch' = "?ch\<lparr>sc_stacklets := take (k + 1) (sc_stacklets ?ch)
       @ replicate (sc_cursor ?ch - (k + 1)) None @ drop (sc_cursor ?ch) (sc_stacklets ?ch), sc_cursor := k + 1\<rparr>"
    have a: "activeSt ?ch' = take (k + 1) (activeSt ?ch)"
      using k(1) len by (simp add: activeSt_def min_def)
    have ch: "distinct (activeSt ?ch)" "\<forall>p \<in> set (activeSt ?ch). \<exists>i < length (Stacklets s). p = Some i"
      "sc_cursor ?ch < sc_avail ?ch" "length (sc_stacklets ?ch) = sc_avail ?ch"
      using stks_chain [OF ok c(1)] c(2) by (auto simp: chain_ok_def)
    have "\<exists>s'. deallocAll (drop (k + 1) (activeSt ?ch)) s1 = Inr s' \<and> StackChains s' = StackChains s1 \<and>
        length (Stacklets s') = length (Stacklets s1) \<and> stks_ok (updChain c (\<lambda>_. ?ch') s')"
    proof (rule drop_stacklets_ok [OF s1(3)])
      show "count_list (activeSt ?ch') p + count_list (drop (k + 1) (activeSt ?ch)) p = count_list (activeSt (StackChains s1 ! c)) p" for p
        unfolding a s1(1) count_list_append [symmetric] by simp
      have "set (take (k + 1) (activeSt ?ch)) \<subseteq> set (activeSt ?ch)"
        by (rule set_take_subset)
      then show "chain_ok (length (Stacklets s1)) ?ch'"
        using ch c(2) k(1) unfolding chain_ok_def a s1(2) by auto
    qed (use c(1) s1(1) ch(1) in \<open>auto dest: in_set_dropD\<close>)
    then obtain s' where "deallocAll (drop (k + 1) (activeSt ?ch)) s1 = Inr s'" "StackChains s' = StackChains s"
      "stks_ok (updChain c (\<lambda>_. ?ch') s')"
      by (auto simp: s1)
    then show ?thesis
      using r ki a c(1) k len unfolding EstablishStacklet_def Let_def
      by (intro disjI2 exI [of _ k] exI [of _ i] exI [of _ "updChain c (\<lambda>_. ?ch') s'"])
        (simp add: s1_def [symmetric] activeSt_def, simp add: updChain_def)
  qed
qed

lemma stks_ok_updChain:
  assumes ok: "stks_ok s" and c: "c < length (StackChains s)" and ch: "chain_ok (length (Stacklets s)) ch"
    and len: "length (Stacklets s') = length (Stacklets s)" "StackChains s' = StackChains s"
    and cnt: "\<And>i. i < length (Stacklets s) \<Longrightarrow> sl_count (Stacklets s' ! i) + count_list (activeSt (StackChains s ! c)) (Some i)
      = sl_count (Stacklets s ! i) + count_list (activeSt ch) (Some i)"
  shows "stks_ok (updChain c (\<lambda>_. ch) s')"
  unfolding stks_ok_def counts_exact_def
proof (intro conjI allI impI ballI)
  fix j assume j: "j < length (Stacklets (updChain c (\<lambda>_. ch) s'))"
  then show "sl_count (Stacklets (updChain c (\<lambda>_. ch) s') ! j) = refs (StackChains (updChain c (\<lambda>_. ch) s')) j"
    using refs_upd [OF c, of ch j] cnt [of j] stks_counts [OF ok, of j] by (simp add: len)
next
  fix ch' assume "ch' \<in> set (StackChains (updChain c (\<lambda>_. ch) s'))"
  then have "ch' = ch \<or> ch' \<in> set (StackChains s)"
    using set_update_subset_insert [of "StackChains s" c ch] by (auto simp: len)
  then show "chain_ok (length (Stacklets (updChain c (\<lambda>_. ch) s'))) ch'"
    using ch ok len(1) by (auto simp: stks_ok_def)
qed

lemma StackChain_BaseAlloc_ok:
  assumes ok: "stks_ok s" and n: "0 < n"
  shows "(\<exists>e. StackChain_BaseAlloc t n s = Inl e \<and> resource_fault e) \<or>
    (\<exists>c ch. StackChain_BaseAlloc t n s = Inr (c, updChain c (\<lambda>_. ch) s) \<and> c < length (StackChains s) \<and>
       \<not> sc_used (StackChains s ! c) \<and> sc_used ch \<and> activeSt ch = [] \<and> sc_thread ch = t \<and> sc_avail ch = n \<and>
       sc_stacklets ch = replicate n None \<and> sc_cursor ch = 0 \<and> stks_ok (updChain c (\<lambda>_. ch) s))"
proof (cases "firstFree (\<lambda>ch. \<not> sc_used ch) 0 (StackChains s)")
  case None
  then show ?thesis by (simp add: StackChain_BaseAlloc_def resource_fault_def)
next
  case (Some c)
  note c = firstFree_Some [OF Some, simplified]
  let ?ch = "(StackChains s ! c)\<lparr>sc_used := True, sc_cursor := 0, sc_thread := t, sc_avail := n,
    sc_stacklets := replicate n None\<rparr>"
  have "activeSt (StackChains s ! c) = []"
    using stks_chain [OF ok conjunct1 [OF c]] c by (simp add: chain_ok_def activeSt_def)
  then have "stks_ok (updChain c (\<lambda>_. ?ch) s)"
    using c n by (intro stks_ok_updChain [OF ok]) (auto simp: chain_ok_def activeSt_def)
  then show ?thesis
    using Some c n by (intro disjI2 exI [of _ c] exI [of _ ?ch]) (auto simp: StackChain_BaseAlloc_def activeSt_def updChain_def)
qed

lemma countUp_ok:
  "\<forall>p \<in> set ps. \<exists>i < length (Stacklets s). p = Some i \<Longrightarrow>
   \<exists>s'. countUp ps s = Inr s' \<and> StackChains s' = StackChains s \<and> length (Stacklets s') = length (Stacklets s) \<and>
     (\<forall>i < length (Stacklets s). sl_count (Stacklets s' ! i) = sl_count (Stacklets s ! i) + count_list ps (Some i))"
proof (induction ps arbitrary: s)
  case (Cons p ps)
  obtain i where i: "i < length (Stacklets s)" "p = Some i"
    using Cons.prems by auto
  define s1 where "s1 = updSt i (\<lambda>x. x\<lparr>sl_count := sl_count x + 1\<rparr>) s"
  have len: "length (Stacklets s1) = length (Stacklets s)" "StackChains s1 = StackChains s"
    by (simp_all add: s1_def)
  have cnt: "sl_count (Stacklets s1 ! j) = (if j = i then sl_count (Stacklets s ! j) + 1 else sl_count (Stacklets s ! j))"
    if "j < length (Stacklets s)" for j
    using that i(1) by (simp add: s1_def nth_list_update)
  obtain s' where "countUp ps s1 = Inr s'" "StackChains s' = StackChains s" "length (Stacklets s') = length (Stacklets s)"
    "\<forall>j < length (Stacklets s). sl_count (Stacklets s' ! j) = sl_count (Stacklets s1 ! j) + count_list ps (Some j)"
    using Cons.IH [of s1] Cons.prems len by auto
  then show ?case
    using i cnt by (intro exI [of _ s']) (auto simp: s1_def)
qed simp

lemma StackChain_Copy_ok:
  assumes ok: "stks_ok s" and src: "src < length (StackChains s)" "sc_used (StackChains s ! src)"
    and t: "threadStack s t < length (StackChains s)" "sc_used (StackChains s ! threadStack s t)"
      "sc_thread (StackChains s ! threadStack s t) = Some t"
  shows "(\<exists>e. StackChain_Copy t src s = Inl e \<and> resource_fault e) \<or>
    (\<exists>c s'. StackChain_Copy t src s = Inr (c, s') \<and> stks_ok s' \<and> length (StackChains s') = length (StackChains s) \<and>
       sc_used (StackChains s' ! c) \<and> activeSt (StackChains s' ! c) = activeSt (StackChains s ! src))"
proof -
  let ?src = "StackChains s ! src"
  have av: "sc_cursor ?src < sc_avail ?src" "length (sc_stacklets ?src) = sc_avail ?src"
    using stks_chain [OF ok src(1)] src(2) by (auto simp: chain_ok_def)
  then have n: "0 < sc_avail ?src" by simp
  show ?thesis
    using StackChain_BaseAlloc_ok [OF ok n, of "Some t"]
  proof
    assume "\<exists>e. StackChain_BaseAlloc (Some t) (sc_avail ?src) s = Inl e \<and> resource_fault e"
    then show ?thesis by (auto simp: StackChain_Copy_def)
  next
    assume "\<exists>c ch. StackChain_BaseAlloc (Some t) (sc_avail ?src) s = Inr (c, updChain c (\<lambda>_. ch) s) \<and> c < length (StackChains s) \<and>
       \<not> sc_used (StackChains s ! c) \<and> sc_used ch \<and> activeSt ch = [] \<and> sc_thread ch = Some t \<and> sc_avail ch = sc_avail ?src \<and>
       sc_stacklets ch = replicate (sc_avail ?src) None \<and> sc_cursor ch = 0 \<and> stks_ok (updChain c (\<lambda>_. ch) s)"
    then obtain c ch where b: "StackChain_BaseAlloc (Some t) (sc_avail ?src) s = Inr (c, updChain c (\<lambda>_. ch) s)"
      "c < length (StackChains s)" "\<not> sc_used (StackChains s ! c)" "sc_used ch" "activeSt ch = []"
      "sc_avail ch = sc_avail ?src" "sc_stacklets ch = replicate (sc_avail ?src) None" "stks_ok (updChain c (\<lambda>_. ch) s)"
      by blast
    define s1 where "s1 = updChain c (\<lambda>_. ch) s"
    have ne: "c \<noteq> src" "c \<noteq> threadStack s t"
      using b(3) src(2) t(2) by auto
    have s1: "StackChains s1 ! src = ?src" "StackChains s1 ! threadStack s1 t = StackChains s ! threadStack s t"
      "length (StackChains s1) = length (StackChains s)" "Stacklets s1 = Stacklets s" "StackChains s1 ! c = ch"
      using ne b(2) by (simp_all add: s1_def, simp add: updChain_def)
    have act: "\<forall>p \<in> set (activeSt ?src). \<exists>i < length (Stacklets s1). p = Some i" "distinct (activeSt ?src)"
      using stks_chain [OF ok src(1)] by (auto simp: chain_ok_def s1)
    obtain s2 where s2: "countUp (activeSt ?src) s1 = Inr s2" "StackChains s2 = StackChains s1"
      "length (Stacklets s2) = length (Stacklets s1)"
      "\<forall>i < length (Stacklets s1). sl_count (Stacklets s2 ! i) = sl_count (Stacklets s1 ! i) + count_list (activeSt ?src) (Some i)"
      using countUp_ok [OF act(1)] by blast
    let ?ch' = "ch\<lparr>sc_cursor := sc_cursor ?src,
       sc_stacklets := activeSt ?src @ drop (length (activeSt ?src)) (sc_stacklets ch)\<rparr>"
    have a: "activeSt ?ch' = activeSt ?src"
      using av by (simp add: activeSt_def)
    have "chain_ok (length (Stacklets s1)) ?ch'"
      using av b(4,6,7) act unfolding chain_ok_def a by (auto simp: activeSt_def)
    then have "stks_ok (updChain c (\<lambda>_. ?ch') s2)"
      using b(2,5,8) s2 s1 a by (intro stks_ok_updChain [of s1]) (auto simp: s1_def [symmetric])
    moreover have "StackChain_Copy t src s = Inr (c, updChain c (\<lambda>_. ?ch') s2)"
      using b(1) s1 s2(1,2) src(2) t(3)
      by (simp add: StackChain_Copy_def s1_def [symmetric] Let_def) (simp add: updChain_def [of c _ s2])
    ultimately show ?thesis
      using b(2,4) a s2(2) s1(3) by (intro disjI2 exI [of _ c] exI [of _ "updChain c (\<lambda>_. ?ch') s2"]) simp
  qed
qed

lemma StackChain_Alloc_ok:
  assumes ok: "stks_ok s"
  shows "(\<exists>e. StackChain_Alloc mm mprot t s = Inl e \<and> resource_fault e) \<or>
    (\<exists>c s'. StackChain_Alloc mm mprot t s = Inr (c, s') \<and> stks_ok s' \<and> length (StackChains s') = length (StackChains s) \<and>
       length (activeSt (StackChains s' ! c)) = 1)"
proof -
  have n: "0 < NumStackletPerChain"
    by (simp add: NumStackletPerChain_def)
  show ?thesis
    using StackChain_BaseAlloc_ok [OF ok n, of "Some t"]
  proof (elim disjE exE conjE)
    fix e assume "StackChain_BaseAlloc (Some t) NumStackletPerChain s = Inl e" "resource_fault e"
    then show ?thesis by (simp add: StackChain_Alloc_def)
  next
    fix c ch assume b: "StackChain_BaseAlloc (Some t) NumStackletPerChain s = Inr (c, updChain c (\<lambda>_. ch) s)"
      "c < length (StackChains s)" "sc_used ch" "activeSt ch = []" "stks_ok (updChain c (\<lambda>_. ch) s)"
    have "StackChains (updChain c (\<lambda>_. ch) s) ! c = ch"
      using b(2) by simp
    then show ?thesis
      using NewStacklet_ok [OF b(5), of c mm mprot] b by (auto simp: StackChain_Alloc_def)
  qed
qed

subsection \<open>Reachable states\<close>

datatype stk_op =
    AllocChain nat | CopyChain nat nat | DeallocChain nat | PushStacklet nat | PopOp nat | DequeueOp nat
  | EstablishOp nat addr

definition live_chain :: "nat \<Rightarrow> stks \<Rightarrow> bool" where
  "live_chain c s \<longleftrightarrow> c < length (StackChains s) \<and> sc_used (StackChains s ! c)"

fun stk_pre :: "stk_op \<Rightarrow> stks \<Rightarrow> bool" where
  \<comment> \<open>what the callers see to: the chain is in use, a chain that loses a stacklet has one, and a thread
     whose stack is copied owns its chain\<close>
  "stk_pre (AllocChain t) s \<longleftrightarrow> True"
| "stk_pre (CopyChain t c) s \<longleftrightarrow> live_chain c s \<and> live_chain (threadStack s t) s \<and>
     sc_thread (StackChains s ! threadStack s t) = Some t"
| "stk_pre (DeallocChain c) s \<longleftrightarrow> live_chain c s"
| "stk_pre (PushStacklet c) s \<longleftrightarrow> live_chain c s"
| "stk_pre (PopOp c) s \<longleftrightarrow> live_chain c s \<and> activeSt (StackChains s ! c) \<noteq> []"
| "stk_pre (DequeueOp c) s \<longleftrightarrow> live_chain c s \<and> activeSt (StackChains s ! c) \<noteq> []"
| "stk_pre (EstablishOp c sp) s \<longleftrightarrow> live_chain c s"

definition dropFst :: "('a \<times> 'b) result \<Rightarrow> 'b result" where
  "dropFst r = bindE r (\<lambda>p. Inr (snd p))"

fun stk_do :: "(nat \<Rightarrow> addr option) \<Rightarrow> (addr \<Rightarrow> nat \<Rightarrow> bool) \<Rightarrow> stk_op \<Rightarrow> stks \<Rightarrow> stks result" where
  "stk_do mm mprot (AllocChain t) s = dropFst (StackChain_Alloc mm mprot t s)"
| "stk_do mm mprot (CopyChain t c) s = dropFst (StackChain_Copy t c s)"
| "stk_do mm mprot (DeallocChain c) s = StackChain_Dealloc c s"
| "stk_do mm mprot (PushStacklet c) s = dropFst (NewStacklet mm mprot c s)"
| "stk_do mm mprot (PopOp c) s = PopStacklet c s"
| "stk_do mm mprot (DequeueOp c) s = DequeueStacklet c s"
| "stk_do mm mprot (EstablishOp c sp) s = dropFst (EstablishStacklet c sp s)"

inductive stk_reach :: "(nat \<Rightarrow> addr option) \<Rightarrow> (addr \<Rightarrow> nat \<Rightarrow> bool) \<Rightarrow> stks \<Rightarrow> bool" for mm mprot where
  init: "stk_reach mm mprot (StackInitialize m)"
| step: "stk_reach mm mprot s \<Longrightarrow> stk_pre op s \<Longrightarrow> stk_do mm mprot op s = Inr s' \<Longrightarrow> stk_reach mm mprot s'"
| assign: "stk_reach mm mprot s \<Longrightarrow> stk_reach mm mprot (s\<lparr>threadStack := f\<rparr>)"
    \<comment> \<open>\<open>th->stack = ...\<close>\<close>

lemma dropFst_simps [simp]: "dropFst (Inl e) = Inl e" "dropFst (Inr (a, s)) = Inr s"
  by (simp_all add: dropFst_def)

lemma stk_do_ok:
  assumes ok: "stks_ok s" and pre: "stk_pre op s"
  shows "(\<exists>e. stk_do mm mprot op s = Inl e \<and> resource_fault e) \<or> (\<exists>s'. stk_do mm mprot op s = Inr s' \<and> stks_ok s')"
proof (cases op)
  case (AllocChain t)
  then show ?thesis using StackChain_Alloc_ok [OF ok, of mm mprot t] by auto
next
  case (CopyChain t c)
  then show ?thesis using StackChain_Copy_ok [OF ok, of c t] pre by (auto simp: live_chain_def)
next
  case (DeallocChain c)
  then show ?thesis using StackChain_Dealloc_ok [OF ok, of c] pre by (auto simp: live_chain_def)
next
  case (PushStacklet c)
  then show ?thesis using NewStacklet_ok [OF ok, of c mm mprot] pre by (auto simp: live_chain_def)
next
  case (PopOp c)
  then show ?thesis using PopStacklet_ok [OF ok, of c] pre by (auto simp: live_chain_def)
next
  case (DequeueOp c)
  then show ?thesis using DequeueStacklet_ok [OF ok, of c] pre by (auto simp: live_chain_def)
next
  case (EstablishOp c sp)
  then show ?thesis using EstablishStacklet_ok [OF ok, of c sp] pre by (auto simp: live_chain_def)
qed

lemma stks_ok_init: "stks_ok (StackInitialize m)"
proof -
  have "refs (StackChains (StackInitialize m)) i = 0" for i
    by (simp add: refs_def StackInitialize_def activeSt_def initChain_def map_replicate_const sum_list_replicate)
  then show ?thesis
    by (auto simp: stks_ok_def counts_exact_def chain_ok_def activeSt_def StackInitialize_def initStacklet_def initChain_def)
qed

lemma reach_ok: "stk_reach mm mprot s \<Longrightarrow> stks_ok s"
proof (induction rule: stk_reach.induct)
  case (step s op s')
  then show ?case using stk_do_ok [of s op mm mprot] by auto
next
  case (assign s f)
  then show ?case by (simp add: stks_ok_def counts_exact_def)
qed (rule stks_ok_init)

lemma count_list_distinct: "distinct xs \<Longrightarrow> count_list xs x = (if x \<in> set xs then 1 else 0)"
  by (induction xs) auto

lemma replicate_unfold: "replicate 10 x = x # replicate 9 x" "replicate 200 y = y # replicate 199 y"
  by (simp_all add: numeral_eq_Suc)

definition demo_mm :: "nat \<Rightarrow> addr option" where
  "demo_mm i = Some (stackletOffset * (2 * i + 1))"

definition demo_stks :: stks where
  \<comment> \<open>one chain with one stacklet\<close>
  "demo_stks = snd (projr (StackChain_Alloc demo_mm (\<lambda>_ _. True) 7 (StackInitialize (\<lambda>_. 0))))"

lemma demo_stks:
  "stk_reach demo_mm (\<lambda>_ _. True) demo_stks" "live_chain 0 demo_stks" "activeSt (StackChains demo_stks ! 0) = [Some 0]"
  "length (Stacklets demo_stks) = 200"
proof -
  have "\<exists>c s. StackChain_Alloc demo_mm (\<lambda>_ _. True) 7 (StackInitialize (\<lambda>_. 0)) = Inr (c, s) \<and>
      live_chain 0 s \<and> activeSt (StackChains s ! 0) = [Some 0] \<and> length (Stacklets s) = 200"
    by (simp add: StackChain_Alloc_def StackChain_BaseAlloc_def NumStackletPerChain_def NewStacklet_def
        Stacklet_Alloc_def mapStacklet_def StackInitialize_def NumStacklet_def NumStackChain_def initStacklet_def
        initChain_def Let_def my_mprotect_def stackletOffset_def GuardStackletSize_def CStackletSize_def
        MLStackletSize_def kilobyte_def TILT_PAGESIZE_def countPositive_def activeSt_def updChain_def
        replicate_unfold demo_mm_def live_chain_def)
  then obtain c s where s: "StackChain_Alloc demo_mm (\<lambda>_ _. True) 7 (StackInitialize (\<lambda>_. 0)) = Inr (c, s)"
    "live_chain 0 s" "activeSt (StackChains s ! 0) = [Some 0]" "length (Stacklets s) = 200"
    by blast
  then have "demo_stks = s"
    by (simp add: demo_stks_def)
  with s show "stk_reach demo_mm (\<lambda>_ _. True) demo_stks" "live_chain 0 demo_stks"
    "activeSt (StackChains demo_stks ! 0) = [Some 0]" "length (Stacklets demo_stks) = 200"
    using stk_reach.step [OF stk_reach.init [where m = "\<lambda>_. 0"], of "AllocChain 7"] by simp_all
qed

subsection \<open>Properties\<close>

text \<open>C25: in every state that the stack operations reach, the reference count of each stacklet is the
  number of live chains that hold it, no chain holds a stacklet twice, and every chain in use has
  room for one more stacklet.\<close>

theorem stacklet_counts_exact:
  assumes "stk_reach mm mprot s" and "i < length (Stacklets s)"
  shows "sl_count (Stacklets s ! i) = card {c. c < length (StackChains s) \<and> Some i \<in> set (activeSt (StackChains s ! c))}
    \<and> (\<forall>c < length (StackChains s). distinct (activeSt (StackChains s ! c)) \<and>
         (sc_used (StackChains s ! c) \<longrightarrow> sc_cursor (StackChains s ! c) < sc_avail (StackChains s ! c)))"
proof -
  have ok: "stks_ok s"
    using assms(1) by (rule reach_ok)
  have d: "\<forall>c < length (StackChains s). distinct (activeSt (StackChains s ! c))"
    using stks_chain [OF ok] by (simp add: chain_ok_def)
  have "refs (StackChains s) i =
      (\<Sum>c < length (StackChains s). if Some i \<in> set (activeSt (StackChains s ! c)) then 1 else 0)"
    unfolding refs_def sum_list_sum_nth using d by (auto simp: count_list_distinct atLeast0LessThan intro!: sum.cong)
  also have "\<dots> = card {c. c < length (StackChains s) \<and> Some i \<in> set (activeSt (StackChains s ! c))}"
    by (simp add: sum.If_cases Int_def)
  finally show ?thesis
    using stks_counts [OF ok assms(2)] d stks_chain [OF ok] by (auto simp: chain_ok_def)
qed

theorem stacklet_counts_exact_witness:
  "sl_count (Stacklets demo_stks ! 0) =
     card {c. c < length (StackChains demo_stks) \<and> Some 0 \<in> set (activeSt (StackChains demo_stks ! c))}"
  using stacklet_counts_exact [OF demo_stks(1), of 0] demo_stks(4) by simp



text \<open>Copying a pending stacklet makes the replica a snapshot: the active words of the replica area
  are those of the primary area, the cursor, return address and registers are recorded, the primary
  area is unchanged, and a second copy does nothing.\<close>

theorem Stacklet_Copy_snapshot:
  assumes i: "i < length (Stacklets s)" "sl_state (Stacklets s ! i) = Pending" "0 < sl_count (Stacklets s ! i)"
    and off: "primaryOff s = 0" "replicaOff s = stackletOffset"
    and geo: "baseExtendedBottom (Stacklets s ! i) \<le> baseCursor (Stacklets s ! i)"
      "baseCursor (Stacklets s ! i) \<le> baseTop (Stacklets s ! i)"
      "baseTop (Stacklets s ! i) \<le> baseExtendedBottom (Stacklets s ! i) + stackletOffset"
    and regs: "length (bottomBaseRegs (Stacklets s ! i)) = 64"
  shows "\<exists>s'. Stacklet_Copy i s = Inr (True, s') \<and> Stacklet_Copy i s' = Inr (False, s') \<and>
    sl_state (Stacklets s' ! i) = InactiveCopied \<and> replicaCursor (Stacklets s' ! i) = baseCursor (Stacklets s ! i) \<and>
    replicaRetadd (Stacklets s' ! i) = retadd (Stacklets s ! i) \<and>
    drop 32 (bottomBaseRegs (Stacklets s' ! i)) = take 32 (bottomBaseRegs (Stacklets s ! i)) \<and>
    (\<forall>k < (baseTop (Stacklets s ! i) - baseCursor (Stacklets s ! i)) div 4.
       smem s' (baseCursor (Stacklets s ! i) + stackletOffset + 4 * k) = smem s (baseCursor (Stacklets s ! i) + 4 * k) \<and>
       smem s' (baseCursor (Stacklets s ! i) + 4 * k) = smem s (baseCursor (Stacklets s ! i) + 4 * k))"
proof -
  define x where "x = Stacklets s ! i"
  define n where "n = (baseTop x - baseCursor x) div 4"
  define x' where "x' = x\<lparr>callinfoStack := SetReset (callinfoStack x), replicaCursor := baseCursor x,
    replicaRetadd := retadd x, bottomBaseRegs := take 32 (bottomBaseRegs x) @ take 32 (bottomBaseRegs x),
    sl_state := InactiveCopied\<rparr>"
  define s' where "s' = (updSt i (\<lambda>_. x') s)\<lparr>smem := copyWords (smem s) (baseCursor x + stackletOffset) (baseCursor x) n\<rparr>"
  have off4: "4 * (stackletOffset div 4) = stackletOffset"
    by (simp add: stackletOffset_def GuardStackletSize_def MLStackletSize_def CStackletSize_def kilobyte_def TILT_PAGESIZE_def)
  have copy: "Stacklet_Copy i s = Inr (True, s')"
    using i(2,3) off geo unfolding Stacklet_Copy_def x_def [symmetric] Let_def
    by (simp add: off4 s'_def n_def x'_def updSt_def x_def [symmetric])
  have x': "Stacklets s' ! i = x'"
    using i(1) by (simp add: s'_def)
  have again: "Stacklet_Copy i s' = Inr (False, s')"
    by (simp add: Stacklet_Copy_def x' Let_def x'_def)
  have small: "4 * n \<le> stackletOffset"
    using geo by (simp add: n_def x_def)
  have "smem s' (baseCursor x + stackletOffset + 4 * k) = smem s (baseCursor x + 4 * k)"
    "smem s' (baseCursor x + 4 * k) = smem s (baseCursor x + 4 * k)" if "k < n" for k
    unfolding s'_def using that small copyWords_in [of k n "baseCursor x" "baseCursor x + stackletOffset" "smem s"]
      copyWords_out [of n "baseCursor x + 4 * k" "baseCursor x + stackletOffset" "smem s" "baseCursor x"]
    by (auto simp: add.assoc)
  then show ?thesis
    using copy again x' regs unfolding n_def x_def by (intro exI [of _ s']) (simp add: x'_def x_def)
qed

definition demo_pending :: stks where
  "demo_pending = (StackInitialize (\<lambda>a. word_of_nat a))\<lparr>Stacklets := [initStacklet\<lparr>sl_count := 1, sl_state := Pending,
     baseExtendedBottom := 8192, baseTop := 40000, baseCursor := 39992\<rparr>]\<rparr>"

theorem Stacklet_Copy_snapshot_witness:
  "\<exists>s'. Stacklet_Copy 0 demo_pending = Inr (True, s') \<and> Stacklet_Copy 0 s' = Inr (False, s') \<and>
    smem s' (39996 + stackletOffset) = 39996"
proof -
  have "stackletOffset = 172032"
    by (simp add: stackletOffset_def GuardStackletSize_def MLStackletSize_def CStackletSize_def kilobyte_def TILT_PAGESIZE_def)
  then have "\<exists>s'. Stacklet_Copy 0 demo_pending = Inr (True, s') \<and> Stacklet_Copy 0 s' = Inr (False, s') \<and>
      (\<forall>k < 2. smem s' (39992 + stackletOffset + 4 * k) = smem demo_pending (39992 + 4 * k))"
    using Stacklet_Copy_snapshot [of 0 demo_pending] by (auto simp: demo_pending_def StackInitialize_def initStacklet_def)
  then obtain s' where s': "Stacklet_Copy 0 demo_pending = Inr (True, s')" "Stacklet_Copy 0 s' = Inr (False, s')"
    "\<forall>k < 2. smem s' (39992 + stackletOffset + 4 * k) = smem demo_pending (39992 + 4 * k)"
    by blast
  have "smem s' (39992 + stackletOffset + 4 * 1) = smem demo_pending (39992 + 4 * 1)"
    by (rule s'(3) [rule_format]) simp
  then show ?thesis
    using s'(1,2) by (intro exI [of _ s']) (simp add: demo_pending_def StackInitialize_def add.commute)
qed

end
