(* ===== verification/Barriers.thy ===== *)
theory Barriers
  imports Tilt_Prelude
begin

text \<open>
  The barriers of the parallel collectors: \<open>Runtime/sparc/barriers.c\<close>.  There is one counter for each
  barrier of a collection, used cyclically; a processor draws its place at a barrier with
  \<open>FetchAndAdd\<close>, waits at a strong barrier until all have arrived, and passes a weak barrier at once.
  A counter can be used again because every processor that passes a strong barrier clears the
  counters from the previous strong barrier (\<open>lastUsed\<close>) up to the one it passes.

  Every access to the shared counters is a step of its own, so every interleaving is covered.  All
  processors run the same sequence of barriers, as the collectors do: \<open>strong k\<close> says whether the
  \<open>k\<close>-th is strong.  The calls are numbered from \<open>M\<close> (the number of counters), so that the place
  \<open>M - 1\<close> stands for the value \<open>maxBarrier - 1\<close> of \<open>lastUsed\<close> at the start.  The counters are used
  safely if two further strong barriers follow each strong barrier within the next \<open>M - 1\<close> calls
  (\<open>spaced\<close>).
\<close>

subsection \<open>State and steps\<close>

datatype bpc =
    BReady
  | BWait nat nat          \<comment> \<open>the barrier and the place drawn; waits for the others\<close>
  | BAssert nat nat        \<comment> \<open>has seen all arrive\<close>
  | BRead nat nat          \<comment> \<open>about to read \<open>lastUsed\<close>\<close>
  | BLoop nat nat nat      \<comment> \<open>clearing counters, next the third argument\<close>
  | BDied

record barriers =
  bcount :: "nat \<Rightarrow> nat"                  \<comment> \<open>\<open>barriers\<close>\<close>
  bindex :: "nat \<Rightarrow> nat \<Rightarrow> nat option"   \<comment> \<open>\<open>index\<close>, \<open>None\<close> for -1\<close>
  lastUsed :: nat
  barrierPhase :: "nat \<Rightarrow> nat"            \<comment> \<open>of each processor\<close>
  bpcs :: "nat \<Rightarrow> bpc"
  bpos :: "nat \<Rightarrow> nat"                    \<comment> \<open>the number of the next call of each processor\<close>
  bplace :: "nat \<Rightarrow> nat \<Rightarrow> nat"          \<comment> \<open>the place a processor got at a call\<close>

definition createBarriers :: "nat \<Rightarrow> barriers" where
  "createBarriers maxBarrier = \<lparr>bcount = (\<lambda>_. 0), bindex = (\<lambda>_ _. None), lastUsed = maxBarrier - 1,
     barrierPhase = (\<lambda>_. 0), bpcs = (\<lambda>_. BReady), bpos = (\<lambda>_. maxBarrier), bplace = (\<lambda>_ _. 0)\<rparr>"

definition arrive :: "nat \<Rightarrow> nat \<Rightarrow> bpc \<Rightarrow> barriers \<Rightarrow> barriers" where
  \<comment> \<open>the common start: draw a place, advance the phase, enter the processor in the index\<close>
  "arrive M p pc s =
     (let which = barrierPhase s p; place = bcount s which in
      s\<lparr>bcount := (bcount s)(which := place + 1),
        barrierPhase := (barrierPhase s)(p := (which + 1) mod M),
        bindex := (bindex s)(which := (bindex s which)(place := Some p)),
        bpcs := (bpcs s)(p := pc),
        bpos := (bpos s)(p := bpos s p + 1),
        bplace := (bplace s)(p := (bplace s p)(bpos s p := place))\<rparr>)"

definition setPc :: "nat \<Rightarrow> bpc \<Rightarrow> barriers \<Rightarrow> barriers" where
  "setPc p pc s = s\<lparr>bpcs := (bpcs s)(p := pc)\<rparr>"

definition checkBarrier :: "nat \<Rightarrow> barriers \<Rightarrow> nat" where
  "checkBarrier p s = bcount s (barrierPhase s p)"

inductive bstep :: "nat \<Rightarrow> nat \<Rightarrow> (nat \<Rightarrow> bool) \<Rightarrow> barriers \<Rightarrow> barriers \<Rightarrow> bool"
  for N M :: nat and strong :: "nat \<Rightarrow> bool" where
  weakBarrier: "p < N \<Longrightarrow> bpcs s p = BReady \<Longrightarrow> \<not> strong (bpos s p) \<Longrightarrow>
     bstep N M strong s (arrive M p BReady s)"
| strongBarrier: "p < N \<Longrightarrow> bpcs s p = BReady \<Longrightarrow> strong (bpos s p) \<Longrightarrow>
     bstep N M strong s (arrive M p (BWait (barrierPhase s p) (bcount s (barrierPhase s p))) s)"
| see_all: "p < N \<Longrightarrow> bpcs s p = BWait w i \<Longrightarrow> N \<le> bcount s w \<Longrightarrow>
     bstep N M strong s (setPc p (BAssert w i) s)"
| check_all: "p < N \<Longrightarrow> bpcs s p = BAssert w i \<Longrightarrow>
     bstep N M strong s (setPc p (if bcount s w = N then BRead w i else BDied) s)"
| read_last: "p < N \<Longrightarrow> bpcs s p = BRead w i \<Longrightarrow>
     bstep N M strong s (setPc p (BLoop w i (lastUsed s)) s)"
| clear_one: "p < N \<Longrightarrow> bpcs s p = BLoop w i j \<Longrightarrow> j \<noteq> w \<Longrightarrow>
     bstep N M strong s (setPc p (BLoop w i ((j + 1) mod M)) (s\<lparr>bcount := (bcount s)(j := 0)\<rparr>))"
| leave_barrier: "p < N \<Longrightarrow> bpcs s p = BLoop w i j \<Longrightarrow> j = w \<Longrightarrow>
     bstep N M strong s (setPc p BReady (s\<lparr>lastUsed := w\<rparr>))"

inductive breach :: "nat \<Rightarrow> nat \<Rightarrow> (nat \<Rightarrow> bool) \<Rightarrow> barriers \<Rightarrow> bool"
  for N M :: nat and strong :: "nat \<Rightarrow> bool" where
  breach_start: "breach N M strong (createBarriers M)"
| breach_step: "breach N M strong s \<Longrightarrow> bstep N M strong s s' \<Longrightarrow> breach N M strong s'"

subsection \<open>The invariant\<close>

definition spaced :: "nat \<Rightarrow> (nat \<Rightarrow> bool) \<Rightarrow> bool" where
  "spaced M strong \<longleftrightarrow> (\<forall>a. M - 1 \<le> a \<and> (a = M - 1 \<or> strong a) \<longrightarrow>
     (\<exists>b c. a < b \<and> b < c \<and> c < a + M \<and> strong b \<and> strong c))"

definition arrived :: "nat \<Rightarrow> barriers \<Rightarrow> nat \<Rightarrow> nat set" where
  "arrived N s x = {p. p < N \<and> x < bpos s p}"

fun is_wait :: "bpc \<Rightarrow> bool" where
  "is_wait (BWait w i) = True"
| "is_wait _ = False"

definition bpc_ok :: "nat \<Rightarrow> (nat \<Rightarrow> bool) \<Rightarrow> nat \<Rightarrow> nat \<Rightarrow> (nat \<Rightarrow> nat) \<Rightarrow> nat \<Rightarrow> bpc \<Rightarrow> bool" where
  "bpc_ok M strong S0 S cnt pos pc \<longleftrightarrow> (case pc of
       BReady \<Rightarrow> True
     | BWait w i \<Rightarrow> 0 < pos \<and> w = (pos - 1) mod M \<and> strong (pos - 1)
     | BAssert w i \<Rightarrow> pos = Suc S \<and> w = S mod M
     | BRead w i \<Rightarrow> pos = Suc S \<and> w = S mod M
     | BLoop w i j \<Rightarrow> pos = Suc S \<and> w = S mod M \<and>
         (\<exists>y. S0 \<le> y \<and> y \<le> S \<and> j = y mod M \<and> (\<forall>z. S0 \<le> z \<and> z < y \<longrightarrow> cnt (z mod M) = 0))
     | BDied \<Rightarrow> False)"

definition counters_ok :: "nat \<Rightarrow> nat \<Rightarrow> (nat \<Rightarrow> bool) \<Rightarrow> nat \<Rightarrow> nat \<Rightarrow> barriers \<Rightarrow> bool" where
  \<comment> \<open>\<open>S\<close> is the last strong barrier where all have arrived, \<open>S0\<close> the one before\<close>
  "counters_ok N M strong S0 S s \<longleftrightarrow>
     ((\<exists>p<N. bpos s p = Suc S \<and> bpcs s p \<noteq> BReady) \<longrightarrow> bcount s (S mod M) = N) \<and>
     (\<forall>x. S < x \<and> x < S0 + M \<longrightarrow> bcount s (x mod M) = card (arrived N s x)) \<and>
     (lastUsed s = S0 mod M \<or> lastUsed s = S mod M) \<and>
     (lastUsed s = S mod M \<longrightarrow> (\<forall>z. S0 \<le> z \<and> z < S \<longrightarrow> bcount s (z mod M) = 0)) \<and>
     (\<forall>p<N. (bpos s p = Suc S \<longrightarrow> bpcs s p = BReady) \<longrightarrow> lastUsed s = S mod M)"

definition places_ok :: "nat \<Rightarrow> nat \<Rightarrow> barriers \<Rightarrow> bool" where
  "places_ok N M s \<longleftrightarrow> (\<forall>x\<ge>M. inj_on (\<lambda>p. bplace s p x) (arrived N s x) \<and>
     (\<forall>p\<in>arrived N s x. bplace s p x < card (arrived N s x)))"

definition barrier_inv :: "nat \<Rightarrow> nat \<Rightarrow> (nat \<Rightarrow> bool) \<Rightarrow> nat \<Rightarrow> nat \<Rightarrow> barriers \<Rightarrow> bool" where
  "barrier_inv N M strong S0 S s \<longleftrightarrow>
     (S = M - 1 \<or> strong S) \<and> (S0 = M - 1 \<or> strong S0) \<and> M - 1 \<le> S0 \<and> S0 \<le> S \<and>
     (\<forall>x. S0 < x \<and> x < S \<longrightarrow> \<not> strong x) \<and>
     (\<forall>p<N. S < bpos s p \<and> barrierPhase s p = bpos s p mod M) \<and>
     (\<forall>x. S < x \<longrightarrow> strong x \<longrightarrow> (\<exists>q<N. bpos s q \<le> x)) \<and>
     (\<forall>p<N. \<forall>x. S < x \<longrightarrow> strong x \<longrightarrow> x < bpos s p \<longrightarrow> bpos s p = Suc x \<and> is_wait (bpcs s p)) \<and>
     (\<forall>p<N. bpc_ok M strong S0 S (bcount s) (bpos s p) (bpcs s p)) \<and>
     counters_ok N M strong S0 S s \<and> places_ok N M s"

lemma barrier_invD:
  assumes "barrier_inv N M strong S0 S s"
  shows "S = M - 1 \<or> strong S" "S0 = M - 1 \<or> strong S0" "M - 1 \<le> S0" "S0 \<le> S"
    "\<And>x. S0 < x \<Longrightarrow> x < S \<Longrightarrow> \<not> strong x"
    "\<And>p. p < N \<Longrightarrow> S < bpos s p" "\<And>p. p < N \<Longrightarrow> barrierPhase s p = bpos s p mod M"
    "\<And>x. S < x \<Longrightarrow> strong x \<Longrightarrow> \<exists>q<N. bpos s q \<le> x"
    "\<And>p x. p < N \<Longrightarrow> S < x \<Longrightarrow> strong x \<Longrightarrow> x < bpos s p \<Longrightarrow> bpos s p = Suc x \<and> is_wait (bpcs s p)"
    "\<And>p. p < N \<Longrightarrow> bpc_ok M strong S0 S (bcount s) (bpos s p) (bpcs s p)"
    "counters_ok N M strong S0 S s" "places_ok N M s"
  using assms by (simp_all add: barrier_inv_def)

lemma barrier_invI:
  assumes "S = M - 1 \<or> strong S" "S0 = M - 1 \<or> strong S0" "M - 1 \<le> S0" "S0 \<le> S"
    "\<And>x. S0 < x \<Longrightarrow> x < S \<Longrightarrow> \<not> strong x"
    "\<And>p. p < N \<Longrightarrow> S < bpos s p" "\<And>p. p < N \<Longrightarrow> barrierPhase s p = bpos s p mod M"
    "\<And>x. S < x \<Longrightarrow> strong x \<Longrightarrow> \<exists>q<N. bpos s q \<le> x"
    "\<And>p x. p < N \<Longrightarrow> S < x \<Longrightarrow> strong x \<Longrightarrow> x < bpos s p \<Longrightarrow> bpos s p = Suc x \<and> is_wait (bpcs s p)"
    "\<And>p. p < N \<Longrightarrow> bpc_ok M strong S0 S (bcount s) (bpos s p) (bpcs s p)"
    "counters_ok N M strong S0 S s" "places_ok N M s"
  shows "barrier_inv N M strong S0 S s"
  using assms by (simp add: barrier_inv_def)

lemma mod_window:
  fixes x y :: nat
  assumes m: "x mod M = y mod M" and "a \<le> x" "x < a + M" "a \<le> y" "y < a + M"
  shows "x = y"
proof -
  have le: "u = v" if "u mod M = v mod M" "u \<le> v" "v < u + M" for u v :: nat
  proof -
    have "M dvd v - u" using that mod_eq_dvd_iff_nat [of u v M] by simp
    moreover have "v - u < M" using that by simp
    ultimately show ?thesis using that(2) nat_dvd_not_less [of "v - u" M] by (cases "v = u") auto
  qed
  show ?thesis
    using le [of x y] le [of y x] assms by (cases "x \<le> y") auto
qed

lemma next_strong:
  assumes "barrier_inv N M strong S0 S s" and "spaced M strong"
  shows "\<exists>c. S < c \<and> c < S0 + M \<and> strong c"
proof -
  note i = barrier_invD [OF assms(1)]
  obtain b c where "S0 < b" "b < c" "c < S0 + M" "strong b" "strong c"
    using assms(2) i(2,3) unfolding spaced_def by blast
  moreover have "S \<le> b" using i(5) [of b] calculation by (cases "b < S") auto
  ultimately show ?thesis by (intro exI [of _ c]) simp
qed

lemma pos_bound:
  assumes "barrier_inv N M strong S0 S s" and "spaced M strong" and "p < N"
  shows "bpos s p \<le> S0 + M" "bpcs s p = BReady \<Longrightarrow> bpos s p < S0 + M"
proof -
  obtain c where c: "S < c" "c < S0 + M" "strong c" using next_strong [OF assms(1,2)] by blast
  have "c < bpos s p \<Longrightarrow> bpos s p = Suc c \<and> is_wait (bpcs s p)"
    using barrier_invD(9) [OF assms(1,3) c(1,3)] .
  then show "bpos s p \<le> S0 + M" "bpcs s p = BReady \<Longrightarrow> bpos s p < S0 + M"
    using c(2) by (cases "c < bpos s p"; auto)+
qed

lemma setPc_sel [simp]:
  "bcount (setPc p pc s) = bcount s" "bpos (setPc p pc s) = bpos s" "barrierPhase (setPc p pc s) = barrierPhase s"
  "lastUsed (setPc p pc s) = lastUsed s" "bpcs (setPc p pc s) = (bpcs s)(p := pc)" "bplace (setPc p pc s) = bplace s"
  "arrived N (setPc p pc s) x = arrived N s x"
  by (simp_all add: setPc_def arrived_def)

lemma inv_setPc:
  assumes "barrier_inv N M strong S0 S s" and "p < N" and "bpcs s p \<noteq> BReady" and "pc \<noteq> BReady"
    and "bpc_ok M strong S0 S (bcount s) (bpos s p) pc" and "bpos s p = Suc S"
  shows "barrier_inv N M strong S0 S (setPc p pc s)"
proof (rule barrier_invI)
  note i = barrier_invD [OF assms(1)]
  show "bpos (setPc p pc s) q = Suc x \<and> is_wait (bpcs (setPc p pc s) q)"
    if "q < N" "S < x" "strong x" "x < bpos (setPc p pc s) q" for q x
    using i(9) [of q x] that assms(6) by (cases "q = p") auto
  show "bpc_ok M strong S0 S (bcount (setPc p pc s)) (bpos (setPc p pc s) q) (bpcs (setPc p pc s) q)" if "q < N" for q
    using i(10) [OF that] assms(5) by simp
  show "counters_ok N M strong S0 S (setPc p pc s)"
  proof -
    have eq: "(((bpcs s)(p := pc)) q = BReady) = (bpcs s q = BReady)" for q using assms(3,4) by simp
    show ?thesis using i(11) unfolding counters_ok_def setPc_sel eq .
  qed
  show "places_ok N M (setPc p pc s)"
    using i(12) unfolding places_ok_def by simp
  show "\<exists>q<N. bpos (setPc p pc s) q \<le> x" if "S < x" "strong x" for x
    using i(8) [OF that] by simp
  show "S = M - 1 \<or> strong S" "S0 = M - 1 \<or> strong S0" using i(1,2) by auto
qed (use barrier_invD [OF assms(1)] in auto)

lemma arrived_card_less:
  assumes "q < N" and "bpos s q \<le> x" shows "card (arrived N s x) < N"
proof -
  have "arrived N s x \<subseteq> {..<N} - {q}" using assms(2) unfolding arrived_def by (clarsimp simp: not_less)
  then have "card (arrived N s x) \<le> card ({..<N} - {q})" by (intro card_mono) simp_all
  then show ?thesis using assms(1) by simp
qed

lemma wait_passed:
  assumes inv: "barrier_inv N M strong S0 S s" and sp: "spaced M strong" and p: "p < N"
    and "bpcs s p = BWait w i" and "N \<le> bcount s w"
  shows "bpos s p = Suc S"
proof (rule ccontr)
  assume n: "bpos s p \<noteq> Suc S"
  define x where "x = bpos s p - 1"
  have x: "S < x" "x < bpos s p" "strong x" "w = x mod M"
    using barrier_invD(6,10) [OF inv p] n assms(4) by (auto simp: x_def bpc_ok_def)
  obtain q where "q < N" "bpos s q \<le> x" using barrier_invD(8) [OF inv x(1,3)] by blast
  then have "card (arrived N s x) < N" by (rule arrived_card_less)
  moreover have "x < S0 + M" using pos_bound(1) [OF inv sp p] x(2) by simp
  ultimately have "bcount s w < N"
    using barrier_invD(11) [OF inv] x by (simp add: counters_ok_def)
  with assms(5) show False by simp
qed

lemma strong_in_window:
  assumes "barrier_inv N M strong S0 S s" and "spaced M strong" shows "S < S0 + M"
  using next_strong [OF assms] by auto

lemma inv_clear:
  assumes inv: "barrier_inv N M strong S0 S s" and sp: "spaced M strong" and p: "p < N"
    and pc: "bpcs s p = BLoop w i j" and "j \<noteq> w"
  shows "barrier_inv N M strong S0 S (setPc p (BLoop w i ((j + 1) mod M)) (s\<lparr>bcount := (bcount s)(j := 0)\<rparr>))"
    (is "barrier_inv _ _ _ _ _ ?s")
proof (rule barrier_invI)
  note i = barrier_invD [OF inv] and SM = strong_in_window [OF inv sp]
  obtain y where y: "S0 \<le> y" "y \<le> S" "j = y mod M" "\<And>z. S0 \<le> z \<Longrightarrow> z < y \<Longrightarrow> bcount s (z mod M) = 0"
    and w: "bpos s p = Suc S" "w = S mod M"
    using i(10) [OF p] pc by (auto simp: bpc_ok_def)
  have yS: "y < S" using y(2,3) w(2) assms(5) by (cases "y = S") auto
  have ne: "x mod M \<noteq> j" if "S \<le> x" "x < S0 + M" for x
    using mod_window [of x M y S0] that y yS i(4) by auto
  have cnt: "bcount ?s = (bcount s)(j := 0)" "bpos ?s = bpos s" "lastUsed ?s = lastUsed s"
    "bpcs ?s = (bpcs s)(p := BLoop w i ((j + 1) mod M))" "bplace ?s = bplace s" "arrived N ?s = arrived N s"
    "barrierPhase ?s = barrierPhase s"
    by (simp_all add: setPc_def arrived_def fun_eq_iff)
  have rdy: "(bpcs ?s q = BReady) = (bpcs s q = BReady)" for q using pc by (simp add: cnt)
  show "bpos ?s q = Suc x \<and> is_wait (bpcs ?s q)" if "q < N" "S < x" "strong x" "x < bpos ?s q" for q x
    using i(9) [of q x] that w by (cases "q = p") (auto simp: cnt)
  show "bpc_ok M strong S0 S (bcount ?s) (bpos ?s q) (bpcs ?s q)" if q: "q < N" for q
  proof (cases "q = p")
    case True
    have "(j + 1) mod M = Suc y mod M" by (simp add: y(3) mod_Suc_eq)
    moreover have "\<forall>z. S0 \<le> z \<and> z < Suc y \<longrightarrow> ((bcount s)(j := 0)) (z mod M) = 0"
      using y(3,4) by (auto simp: less_Suc_eq)
    ultimately show ?thesis
      using True w yS y(1) by (simp add: bpc_ok_def cnt) (intro exI [of _ "Suc y"], auto)
  next
    case False
    then show ?thesis using i(10) [OF q] by (auto simp: bpc_ok_def cnt split: bpc.splits)
  qed
  have "bcount ?s (x mod M) = bcount s (x mod M)" if "S \<le> x" "x < S0 + M" for x
    using ne [OF that] by (simp add: cnt)
  then show "counters_ok N M strong S0 S ?s"
    using i(11) SM i(4) unfolding counters_ok_def rdy cnt(2,3,6) by (simp add: cnt(1))
  show "places_ok N M ?s" using i(12) unfolding places_ok_def cnt .
  show "\<exists>q<N. bpos ?s q \<le> x" if "S < x" "strong x" for x using i(8) [OF that] by (simp add: cnt)
  show "S = M - 1 \<or> strong S" "S0 = M - 1 \<or> strong S0" using i(1,2) by auto
  show "barrierPhase ?s q = bpos ?s q mod M" "S < bpos ?s q" if "q < N" for q using i(6,7) [OF that] by (simp_all add: cnt)
qed (use barrier_invD [OF inv] in auto)

lemma inv_leave:
  assumes inv: "barrier_inv N M strong S0 S s" and sp: "spaced M strong" and p: "p < N"
    and pc: "bpcs s p = BLoop w i w"
  shows "barrier_inv N M strong S0 S (setPc p BReady (s\<lparr>lastUsed := w\<rparr>))" (is "barrier_inv _ _ _ _ _ ?s")
proof (rule barrier_invI)
  note i = barrier_invD [OF inv] and SM = strong_in_window [OF inv sp]
  obtain y where y: "S0 \<le> y" "y \<le> S" "w = y mod M" "\<And>z. S0 \<le> z \<Longrightarrow> z < y \<Longrightarrow> bcount s (z mod M) = 0"
    and w: "bpos s p = Suc S" "w = S mod M"
    using i(10) [OF p] pc by (auto simp: bpc_ok_def)
  have yS: "y = S" using mod_window [of y M S S0] y SM w i(4) by auto
  have cnt: "bcount ?s = bcount s" "bpos ?s = bpos s" "lastUsed ?s = w"
    "bpcs ?s = (bpcs s)(p := BReady)" "bplace ?s = bplace s" "arrived N ?s = arrived N s"
    "barrierPhase ?s = barrierPhase s"
    by (simp_all add: setPc_def arrived_def fun_eq_iff)
  show "bpos ?s q = Suc x \<and> is_wait (bpcs ?s q)" if "q < N" "S < x" "strong x" "x < bpos ?s q" for q x
    using i(9) [of q x] that w by (cases "q = p") (auto simp: cnt)
  show "bpc_ok M strong S0 S (bcount ?s) (bpos ?s q) (bpcs ?s q)" if q: "q < N" for q
    using i(10) [OF q] by (cases "q = p") (auto simp: cnt bpc_ok_def)
  have "(\<exists>q<N. bpos ?s q = Suc S \<and> bpcs ?s q \<noteq> BReady) \<longrightarrow> (\<exists>q<N. bpos s q = Suc S \<and> bpcs s q \<noteq> BReady)"
    by (auto simp: cnt split: if_splits)
  then show "counters_ok N M strong S0 S ?s"
    using i(11) y(4) yS unfolding counters_ok_def cnt(1,2,3,6) by (simp add: w(2))
  show "places_ok N M ?s" using i(12) unfolding places_ok_def cnt .
  show "\<exists>q<N. bpos ?s q \<le> x" if "S < x" "strong x" for x using i(8) [OF that] by (simp add: cnt)
  show "S = M - 1 \<or> strong S" "S0 = M - 1 \<or> strong S0" using i(1,2) by auto
  show "barrierPhase ?s q = bpos ?s q mod M" "S < bpos ?s q" if "q < N" for q using i(6,7) [OF that] by (simp_all add: cnt)
qed (use barrier_invD [OF inv] in auto)

lemma arrive_sel:
  "bpos (arrive M p pc s) = (bpos s)(p := bpos s p + 1)"
  "bpcs (arrive M p pc s) = (bpcs s)(p := pc)"
  "bcount (arrive M p pc s) = (bcount s)(barrierPhase s p := bcount s (barrierPhase s p) + 1)"
  "barrierPhase (arrive M p pc s) = (barrierPhase s)(p := (barrierPhase s p + 1) mod M)"
  "lastUsed (arrive M p pc s) = lastUsed s"
  "bplace (arrive M p pc s) = (bplace s)(p := (bplace s p)(bpos s p := bcount s (barrierPhase s p)))"
  by (simp_all add: arrive_def Let_def)

lemma arrived_arrive:
  assumes "p < N"
  shows "arrived N (arrive M p pc s) x = (if x = bpos s p then insert p (arrived N s x) else arrived N s x)"
  using assms by (auto simp: arrived_def arrive_sel split: if_splits)

lemma finite_arrived [simp]: "finite (arrived N s x)"
  by (simp add: arrived_def)

lemma arrive_facts:
  assumes inv: "barrier_inv N M strong S0 S s" and sp: "spaced M strong" and p: "p < N" and pc: "bpcs s p = BReady"
  shows "S < bpos s p" "bpos s p < S0 + M" "barrierPhase s p = bpos s p mod M"
    "bcount s (bpos s p mod M) = card (arrived N s (bpos s p))" "p \<notin> arrived N s (bpos s p)"
    "\<And>y. S < y \<Longrightarrow> y < bpos s p \<Longrightarrow> \<not> strong y" "lastUsed s = S mod M" "M \<le> bpos s p"
    "\<And>x. S0 \<le> x \<Longrightarrow> x < S0 + M \<Longrightarrow> x \<noteq> bpos s p \<Longrightarrow> x mod M \<noteq> bpos s p mod M"
proof -
  note i = barrier_invD [OF inv]
  show a: "S < bpos s p" "bpos s p < S0 + M" using i(6) p pos_bound(2) [OF inv sp p pc] by auto
  show "barrierPhase s p = bpos s p mod M" using i(7) p by simp
  show "bcount s (bpos s p mod M) = card (arrived N s (bpos s p))"
    using i(11) a unfolding counters_ok_def by blast
  show "p \<notin> arrived N s (bpos s p)" by (simp add: arrived_def)
  show "\<not> strong y" if "S < y" "y < bpos s p" for y
    using i(9) [OF p that(1) _ that(2)] pc by auto
  show "lastUsed s = S mod M" using i(11) p pc unfolding counters_ok_def by blast
  show "M \<le> bpos s p" using a i(3,4) by simp
  show "x mod M \<noteq> bpos s p mod M" if "S0 \<le> x" "x < S0 + M" "x \<noteq> bpos s p" for x
    using mod_window [of x M "bpos s p" S0] that a i(4) by auto
qed

lemma places_arrive:
  assumes inv: "barrier_inv N M strong S0 S s" and sp: "spaced M strong" and p: "p < N" and pc: "bpcs s p = BReady"
  shows "places_ok N M (arrive M p pc' s)"
proof -
  note f = arrive_facts [OF assms] and pl = barrier_invD(12) [OF inv]
  have place: "bplace (arrive M p pc' s) q x = (if q = p \<and> x = bpos s p then card (arrived N s x) else bplace s q x)" for q x
    using f(3,4) by (simp add: arrive_sel)
  have "inj_on (\<lambda>q. bplace (arrive M p pc' s) q x) (arrived N (arrive M p pc' s) x) \<and>
      (\<forall>q\<in>arrived N (arrive M p pc' s) x. bplace (arrive M p pc' s) q x < card (arrived N (arrive M p pc' s) x))"
    if "M \<le> x" for x
  proof (cases "x = bpos s p")
    case False
    then show ?thesis using pl that by (simp add: places_ok_def place arrived_arrive [OF p])
  next
    case True
    let ?A = "arrived N s x"
    have inj: "inj_on (\<lambda>q. bplace s q x) ?A" and lt: "\<And>q. q \<in> ?A \<Longrightarrow> bplace s q x < card ?A"
      using pl that by (auto simp: places_ok_def)
    have np: "p \<notin> ?A" using f(5) True by simp
    have other: "\<And>q. q \<in> ?A \<Longrightarrow> bplace (arrive M p pc' s) q x = bplace s q x" using np by (auto simp: place)
    have self: "bplace (arrive M p pc' s) p x = card ?A" using True by (simp add: place)
    have "inj_on (\<lambda>q. bplace (arrive M p pc' s) q x) (insert p ?A)"
      using inj lt np other self by (auto simp: inj_on_def dest!: lt)
    moreover have "card (insert p ?A) = Suc (card ?A)" using np by simp
    ultimately show ?thesis
      using True lt other self by (simp add: arrived_arrive [OF p] less_Suc_eq)
  qed
  then show ?thesis by (simp add: places_ok_def)
qed

lemma bpc_ok_cong:
  assumes ok: "bpc_ok M strong S0 S cnt pos pc"
    and "\<And>z. S0 \<le> z \<Longrightarrow> z < S \<Longrightarrow> cnt (z mod M) = 0 \<Longrightarrow> cnt' (z mod M) = 0"
  shows "bpc_ok M strong S0 S cnt' pos pc"
proof (cases pc)
  case (BLoop w i j)
  then obtain y where "pos = Suc S" "w = S mod M" "S0 \<le> y" "y \<le> S" "j = y mod M"
    "\<forall>z. S0 \<le> z \<and> z < y \<longrightarrow> cnt (z mod M) = 0"
    using ok by (auto simp: bpc_ok_def)
  then show ?thesis using assms(2) BLoop by (auto simp: bpc_ok_def intro!: exI [of _ y])
qed (use ok in \<open>simp_all add: bpc_ok_def\<close>)

lemma inv_arrive_part:
  assumes inv: "barrier_inv N M strong S0 S s" and sp: "spaced M strong" and p: "p < N" and pc: "bpcs s p = BReady"
    and pc': "if strong (bpos s p) then is_wait pc' \<and> (\<exists>q<N. q \<noteq> p \<and> bpos s q \<le> bpos s p) else pc' = BReady"
    and ok: "strong (bpos s p) \<Longrightarrow> \<exists>i. pc' = BWait (bpos s p mod M) i"
  shows "barrier_inv N M strong S0 S (arrive M p pc' s)"
proof (rule barrier_invI)
  note i = barrier_invD [OF inv] and f = arrive_facts [OF inv sp p pc]
  let ?s = "arrive M p pc' s" and ?x = "bpos s p"
  have old: "bcount ?s (x mod M) = bcount s (x mod M)" if "S0 \<le> x" "x < S0 + M" "x \<noteq> ?x" for x
    using f(3) f(9) [OF that] by (simp add: arrive_sel)
  have new: "bcount ?s (?x mod M) = card (arrived N ?s ?x)"
    using f(3,4,5) by (simp add: arrive_sel(3) arrived_arrive [OF p])
  have SM: "S < S0 + M" by (rule strong_in_window [OF inv sp])
  have inside: "bpos ?s q = Suc S \<and> bpcs ?s q \<noteq> BReady \<longleftrightarrow> bpos s q = Suc S \<and> bpcs s q \<noteq> BReady" if "q < N" for q
    using pc f(1) by (auto simp: arrive_sel)
  show "\<exists>q<N. bpos ?s q \<le> y" if y: "S < y" "strong y" for y
  proof -
    obtain q where q: "q < N" "bpos s q \<le> y" using i(8) [OF y] by blast
    show ?thesis
    proof (cases "q = p \<and> y = ?x")
      case True
      then obtain r where "r < N" "r \<noteq> p" "bpos s r \<le> ?x" using pc' y(2) by auto
      then show ?thesis using True by (intro exI [of _ r]) (simp add: arrive_sel)
    next
      case False
      then show ?thesis using q by (intro exI [of _ q]) (auto simp: arrive_sel)
    qed
  qed
  show "bpos ?s q = Suc y \<and> is_wait (bpcs ?s q)" if "q < N" "S < y" "strong y" "y < bpos ?s q" for q y
  proof (cases "q = p")
    case True
    have "y = ?x" using that f(6) [of y] True by (cases "y < ?x") (auto simp: arrive_sel)
    then show ?thesis using True that(3) pc' by (simp add: arrive_sel)
  next
    case False
    then show ?thesis using i(9) [of q y] that by (simp add: arrive_sel)
  qed
  show "bpc_ok M strong S0 S (bcount ?s) (bpos ?s q) (bpcs ?s q)" if q: "q < N" for q
  proof (cases "q = p")
    case True
    show ?thesis
    proof (cases "strong ?x")
      case True
      then obtain k where "pc' = BWait (?x mod M) k" using ok by blast
      then show ?thesis using \<open>q = p\<close> True by (simp add: bpc_ok_def arrive_sel)
    next
      case False
      then show ?thesis using \<open>q = p\<close> pc' by (simp add: bpc_ok_def arrive_sel)
    qed
  next
    case False
    have same: "bpcs ?s q = bpcs s q" "bpos ?s q = bpos s q" using False by (simp_all add: arrive_sel)
    have "bcount ?s (z mod M) = bcount s (z mod M)" if "S0 \<le> z" "z \<le> S" for z
      using old that f(1) SM by simp
    then show ?thesis
      unfolding same by (intro bpc_ok_cong [OF i(10) [OF q]]) simp
  qed
  show "counters_ok N M strong S0 S ?s"
    unfolding counters_ok_def
  proof (intro conjI)
    show "(\<exists>q<N. bpos ?s q = Suc S \<and> bpcs ?s q \<noteq> BReady) \<longrightarrow> bcount ?s (S mod M) = N"
    proof -
      have "(\<exists>q<N. bpos ?s q = Suc S \<and> bpcs ?s q \<noteq> BReady) \<longrightarrow> (\<exists>q<N. bpos s q = Suc S \<and> bpcs s q \<noteq> BReady)"
        using inside by blast
      moreover have "bcount ?s (S mod M) = bcount s (S mod M)" using old [OF i(4) SM] f(1) by simp
      ultimately show ?thesis using i(11) unfolding counters_ok_def by argo
    qed
    show "\<forall>x. S < x \<and> x < S0 + M \<longrightarrow> bcount ?s (x mod M) = card (arrived N ?s x)"
      using i(4,11) old new unfolding counters_ok_def by (auto simp: arrived_arrive [OF p])
    show "lastUsed ?s = S0 mod M \<or> lastUsed ?s = S mod M" using f(7) by (simp add: arrive_sel)
    show "lastUsed ?s = S mod M \<longrightarrow> (\<forall>z. S0 \<le> z \<and> z < S \<longrightarrow> bcount ?s (z mod M) = 0)"
      using i(11) f(1,7) old SM unfolding counters_ok_def by auto
    show "\<forall>q<N. (bpos ?s q = Suc S \<longrightarrow> bpcs ?s q = BReady) \<longrightarrow> lastUsed ?s = S mod M"
      using f(7) by (simp add: arrive_sel)
  qed
  show "barrierPhase ?s q = bpos ?s q mod M" "S < bpos ?s q" if "q < N" for q
    using i(6,7) [OF that] f(1,3) by (auto simp: arrive_sel mod_Suc_eq)
  show "S = M - 1 \<or> strong S" "S0 = M - 1 \<or> strong S0" using i(1,2) by auto
  show "places_ok N M ?s" by (rule places_arrive [OF inv sp p pc])
qed (use barrier_invD [OF inv] in auto)

lemma inv_arrive_last:
  assumes inv: "barrier_inv N M strong S0 S s" and sp: "spaced M strong" and p: "p < N" and pc: "bpcs s p = BReady"
    and st: "strong (bpos s p)" and all: "\<And>q. q < N \<Longrightarrow> q \<noteq> p \<Longrightarrow> bpos s p < bpos s q"
  shows "barrier_inv N M strong S (bpos s p) (arrive M p (BWait (bpos s p mod M) k) s)"
proof (rule barrier_invI)
  note i = barrier_invD [OF inv] and f = arrive_facts [OF inv sp p pc]
  let ?s = "arrive M p (BWait (bpos s p mod M) k) s" and ?x = "bpos s p"
  have w: "bpos s q = Suc ?x \<and> is_wait (bpcs s q)" if "q < N" "q \<noteq> p" for q
    using i(9) [OF that(1) f(1) st all [OF that]] .
  have w': "bpos ?s q = Suc ?x \<and> is_wait (bpcs ?s q)" if "q < N" for q
    using w [OF that] by (cases "q = p") (simp_all add: arrive_sel)
  have "arrived N s ?x = {..<N} - {p}" using all by (auto simp: arrived_def)
  then have cN: "bcount ?s (?x mod M) = N" using f(3,4) p by (simp add: arrive_sel)
  have none: "arrived N ?s y = {}" if "?x < y" for y using w' that by (auto simp: arrived_def)
  have zero: "bcount ?s (y mod M) = 0" if y: "?x < y" "y < S + M" for y
  proof (cases "y < S0 + M")
    case True
    have "arrived N s y = {}" using w that by (force simp: arrived_def)
    then have "bcount s (y mod M) = 0" using i(11) True y f(1) unfolding counters_ok_def by simp
    moreover have "y mod M \<noteq> ?x mod M" using f(9) [of y] True y f(1) i(4) by simp
    ultimately show ?thesis using f(3) by (simp add: arrive_sel)
  next
    case False
    define z where "z = y - M"
    have z: "S0 \<le> z" "z < S" "y mod M = z mod M" using False y by (auto simp: z_def le_mod_geq)
    then have "bcount s (z mod M) = 0" using i(11) f(7) unfolding counters_ok_def by blast
    moreover have "z mod M \<noteq> ?x mod M" using f(9) [of z] z f(1) strong_in_window [OF inv sp] by simp
    ultimately show ?thesis using f(3) z(3) by (simp add: arrive_sel)
  qed
  have neS: "S mod M \<noteq> ?x mod M" using f(9) [of S] f(1) i(4) strong_in_window [OF inv sp] by simp
  show "counters_ok N M strong S ?x ?s"
    unfolding counters_ok_def
  proof (intro conjI)
    show "\<forall>y. ?x < y \<and> y < S + M \<longrightarrow> bcount ?s (y mod M) = card (arrived N ?s y)"
      using zero none by simp
    show "lastUsed ?s = ?x mod M \<longrightarrow> (\<forall>z. S \<le> z \<and> z < ?x \<longrightarrow> bcount ?s (z mod M) = 0)"
      using f(7) neS by (simp add: arrive_sel)
    show "\<forall>q<N. (bpos ?s q = Suc ?x \<longrightarrow> bpcs ?s q = BReady) \<longrightarrow> lastUsed ?s = ?x mod M"
      using w' by (metis is_wait.simps(2))
  qed (use cN f(7) in \<open>simp_all add: arrive_sel\<close>)
  show "bpc_ok M strong S ?x (bcount ?s) (bpos ?s q) (bpcs ?s q)" if q: "q < N" for q
  proof (cases "q = p")
    case True
    then show ?thesis using st by (simp add: bpc_ok_def arrive_sel)
  next
    case False
    then obtain w2 j where "bpcs s q = BWait w2 j" using w [OF q False] by (cases "bpcs s q") auto
    then show ?thesis using i(10) [OF q] False by (simp add: bpc_ok_def arrive_sel)
  qed
  show "\<exists>q<N. bpos ?s q \<le> y" if "?x < y" "strong y" for y
    using that p by (intro exI [of _ p]) (simp add: arrive_sel)
  show "bpos ?s q = Suc y \<and> is_wait (bpcs ?s q)" if "q < N" "?x < y" "strong y" "y < bpos ?s q" for q y
    using w' [OF that(1)] that by simp
  show "barrierPhase ?s q = bpos ?s q mod M" if "q < N" for q
    using i(7) [OF that] f(1,3) by (auto simp: arrive_sel mod_Suc_eq)
  show "?x < bpos ?s q" if "q < N" for q using w' [OF that] by simp
  show "\<not> strong x" if "S < x" "x < ?x" for x using f(6) that by simp
  show "places_ok N M ?s" by (rule places_arrive [OF inv sp p pc])
qed (use barrier_invD [OF inv] st arrive_facts [OF inv sp p pc] in auto)

lemma bstep_inv:
  assumes "bstep N M strong s s'" and sp: "spaced M strong" and inv: "barrier_inv N M strong S0 S s"
  shows "\<exists>S0 S. barrier_inv N M strong S0 S s'"
  using assms(1)
proof (cases rule: bstep.cases)
  case (weakBarrier p)
  then show ?thesis using inv_arrive_part [OF inv sp weakBarrier(2,3), of BReady] by auto
next
  case (strongBarrier p)
  let ?pc = "BWait (barrierPhase s p) (bcount s (barrierPhase s p))"
  have ph: "barrierPhase s p = bpos s p mod M" using barrier_invD(7) [OF inv strongBarrier(2)] .
  show ?thesis
  proof (cases "\<exists>q<N. q \<noteq> p \<and> bpos s q \<le> bpos s p")
    case True
    then show ?thesis
      unfolding strongBarrier(1) using inv_arrive_part [OF inv sp strongBarrier(2,3), of ?pc] strongBarrier(4) ph by auto
  next
    case False
    then show ?thesis
      unfolding strongBarrier(1) ph using inv_arrive_last [OF inv sp strongBarrier(2,3,4)] by (meson not_le)
  qed
next
  case (see_all p w i)
  have "bpos s p = Suc S" by (rule wait_passed [OF inv sp see_all(2,3,4)])
  moreover have "w = S mod M" using barrier_invD(10) [OF inv see_all(2)] see_all(3) calculation by (simp add: bpc_ok_def)
  ultimately show ?thesis
    unfolding see_all(1) using inv_setPc [OF inv see_all(2), of "BAssert w i"] see_all(3) by (auto simp: bpc_ok_def)
next
  case (check_all p w i)
  have a: "bpos s p = Suc S" "w = S mod M" using barrier_invD(10) [OF inv check_all(2)] check_all(3) by (auto simp: bpc_ok_def)
  have "bcount s (S mod M) = N"
    using barrier_invD(11) [OF inv] check_all(2,3) a(1) unfolding counters_ok_def by auto
  then show ?thesis
    unfolding check_all(1) using inv_setPc [OF inv check_all(2), of "BRead w i"] check_all(3) a by (auto simp: bpc_ok_def)
next
  case (read_last p w i)
  have a: "bpos s p = Suc S" "w = S mod M" using barrier_invD(10) [OF inv read_last(2)] read_last(3) by (auto simp: bpc_ok_def)
  have "\<exists>y. S0 \<le> y \<and> y \<le> S \<and> lastUsed s = y mod M \<and> (\<forall>z. S0 \<le> z \<and> z < y \<longrightarrow> bcount s (z mod M) = 0)"
  proof (cases "lastUsed s = S mod M")
    case True
    then show ?thesis using barrier_invD(4,11) [OF inv] unfolding counters_ok_def by (intro exI [of _ S]) auto
  next
    case False
    then show ?thesis using barrier_invD(4,11) [OF inv] unfolding counters_ok_def by (intro exI [of _ S0]) auto
  qed
  then show ?thesis
    unfolding read_last(1) using inv_setPc [OF inv read_last(2), of "BLoop w i (lastUsed s)"] read_last(3) a by (auto simp: bpc_ok_def)
next
  case (clear_one p w i j)
  then show ?thesis using inv_clear [OF inv sp clear_one(2,3,4)] by auto
next
  case (leave_barrier p w i j)
  then show ?thesis using inv_leave [OF inv sp leave_barrier(2), of w i] by auto
qed

lemma breach_inv: "breach N M strong s \<Longrightarrow> spaced M strong \<Longrightarrow> 0 < N \<Longrightarrow> 0 < M \<Longrightarrow> \<exists>S0 S. barrier_inv N M strong S0 S s"
proof (induction rule: breach.induct)
  case breach_start
  have "arrived N (createBarriers M) x = (if x < M then {..<N} else {})" for x
    by (auto simp: arrived_def createBarriers_def)
  then have "barrier_inv N M strong (M - 1) (M - 1) (createBarriers M)"
    using breach_start
    by (intro barrier_invI)
      (auto simp: createBarriers_def bpc_ok_def counters_ok_def places_ok_def Suc_diff_1)
  then show ?case by blast
next
  case (breach_step s s')
  then show ?case using bstep_inv by blast
qed

subsection \<open>What the collectors rely on\<close>

lemma spaced_rounds:
  \<comment> \<open>every round of the four collectors is one weak barrier followed by two or more strong ones
      (\<open>stop_copy\<close>, \<open>GCCollect_GenPara\<close>, \<open>CollectorOn\<close>, \<open>CollectorTransition\<close>, \<open>CollectorOff\<close>), and they
      have 5, 7, 10 and 14 counters\<close>
  assumes "4 \<le> M" and "\<And>k. M \<le> k \<Longrightarrow> \<not> strong k \<Longrightarrow> strong (k + 1) \<and> strong (k + 2)"
  shows "spaced M strong"
  unfolding spaced_def
proof (intro allI impI)
  fix a assume a: "M - 1 \<le> a \<and> (a = M - 1 \<or> strong a)"
  show "\<exists>b c. a < b \<and> b < c \<and> c < a + M \<and> strong b \<and> strong c"
  proof (cases "strong (a + 1)")
    case False
    then have "strong (a + 2)" "strong (a + 3)" using assms(2) [of "a + 1"] a assms(1) by (auto simp: eval_nat_numeral)
    then show ?thesis using assms(1) by (intro exI [of _ "a + 2"] exI [of _ "a + 3"]) auto
  next
    case True
    show ?thesis
    proof (cases "strong (a + 2)")
      case False
      then have "strong (a + 3)" using assms(2) [of "a + 2"] a assms(1) by (auto simp: eval_nat_numeral)
      with True show ?thesis using assms(1) by (intro exI [of _ "a + 1"] exI [of _ "a + 3"]) auto
    next
      case b: True
      with True show ?thesis using assms(1) by (intro exI [of _ "a + 1"] exI [of _ "a + 2"]) auto
    qed
  qed
qed

text \<open>C15: A strong barrier separates the phases of a collection: when a processor has left its \<open>x\<close>-th
  barrier, a strong one, every processor has arrived at it.  No assertion fails, and the places drawn
  at a barrier are different numbers below the number of processors, so exactly one processor is the
  first (place 0) and the index is never overrun.\<close>

theorem barriers_separate_phases:
  assumes "spaced M strong" and "0 < N" and "0 < M" and "breach N M strong s" and "p < N" and "M \<le> x" and "x < bpos s p"
  shows "bpcs s p \<noteq> BDied \<and> bplace s p x < N \<and>
         (\<forall>q<N. q \<noteq> p \<longrightarrow> x < bpos s q \<longrightarrow> bplace s q x \<noteq> bplace s p x) \<and>
         (strong x \<longrightarrow> \<not> (bpos s p = Suc x \<and> is_wait (bpcs s p)) \<longrightarrow> (\<forall>q<N. x < bpos s q))"
proof -
  obtain S0 S where inv: "barrier_inv N M strong S0 S s" using breach_inv [OF assms(4,1,2,3)] by blast
  note i = barrier_invD [OF inv]
  have pl: "inj_on (\<lambda>p. bplace s p x) (arrived N s x)" "\<And>p. p \<in> arrived N s x \<Longrightarrow> bplace s p x < card (arrived N s x)"
    using i(12) assms(6) by (auto simp: places_ok_def)
  have "card (arrived N s x) \<le> card {..<N}" by (intro card_mono) (auto simp: arrived_def)
  then have "bplace s p x < N" using pl(2) [of p] assms(5,7) by (simp add: arrived_def)
  moreover have "\<forall>q<N. q \<noteq> p \<longrightarrow> x < bpos s q \<longrightarrow> bplace s q x \<noteq> bplace s p x"
    using pl(1) assms(5,7) by (auto simp: inj_on_def arrived_def)
  moreover have "bpcs s p \<noteq> BDied" using i(10) [OF assms(5)] by (auto simp: bpc_ok_def)
  moreover have "x < bpos s q" if "strong x" "\<not> (bpos s p = Suc x \<and> is_wait (bpcs s p))" "q < N" for q
    using i(9) [OF assms(5), of x] i(6) [OF that(3)] that assms(7) by (cases "S < x") auto
  ultimately show ?thesis by blast
qed

definition bdemo :: "nat \<Rightarrow> barriers" where
  \<comment> \<open>two processors, three counters, all barriers strong: a run up to step \<open>k\<close>\<close>
  "bdemo k = (let s1 = arrive 3 0 (BWait 0 0) (createBarriers 3);
                  s2 = arrive 3 1 (BWait 0 1) s1;
                  s3 = setPc 0 (BAssert 0 0) s2; s4 = setPc 0 (BRead 0 0) s2; s5 = setPc 0 (BLoop 0 0 2) s2;
                  s6 = setPc 0 (BLoop 0 0 0) (s2\<lparr>bcount := (bcount s2)(2 := 0)\<rparr>);
                  s7 = setPc 0 BReady (s2\<lparr>bcount := (bcount s2)(2 := 0), lastUsed := 0\<rparr>)
              in [createBarriers 3, s1, s2, s3, s4, s5, s6, s7] ! k)"

lemma bdemo_reach: "breach 2 3 (\<lambda>_. True) (bdemo 7)"
proof -
  note st = breach_step [of 2 3 "\<lambda>_. True"]
    and d = bdemo_def Let_def createBarriers_def arrive_def setPc_def
  have r: "breach 2 3 (\<lambda>_. True) (bdemo 0)" using breach_start by (simp add: bdemo_def Let_def)
  have "bstep 2 3 (\<lambda>_. True) (bdemo 0) (bdemo 1)"
    using strongBarrier [where p = 0 and N = 2 and M = 3 and s = "bdemo 0" and strong = "\<lambda>_. True"] by (simp add: d)
  with r have r: "breach 2 3 (\<lambda>_. True) (bdemo 1)" by (rule st)
  have "bstep 2 3 (\<lambda>_. True) (bdemo 1) (bdemo 2)"
    using strongBarrier [where p = 1 and N = 2 and M = 3 and s = "bdemo 1" and strong = "\<lambda>_. True"] by (simp add: d)
  with r have r: "breach 2 3 (\<lambda>_. True) (bdemo 2)" by (rule st)
  have "bstep 2 3 (\<lambda>_. True) (bdemo 2) (bdemo 3)"
    using see_all [where p = 0 and N = 2 and M = 3 and s = "bdemo 2" and strong = "\<lambda>_. True" and w = 0 and i = 0] by (simp add: d)
  with r have r: "breach 2 3 (\<lambda>_. True) (bdemo 3)" by (rule st)
  have "bstep 2 3 (\<lambda>_. True) (bdemo 3) (bdemo 4)"
    using check_all [where p = 0 and N = 2 and M = 3 and s = "bdemo 3" and strong = "\<lambda>_. True" and w = 0 and i = 0] by (simp add: d)
  with r have r: "breach 2 3 (\<lambda>_. True) (bdemo 4)" by (rule st)
  have "bstep 2 3 (\<lambda>_. True) (bdemo 4) (bdemo 5)"
    using read_last [where p = 0 and N = 2 and M = 3 and s = "bdemo 4" and strong = "\<lambda>_. True" and w = 0 and i = 0] by (simp add: d)
  with r have r: "breach 2 3 (\<lambda>_. True) (bdemo 5)" by (rule st)
  have "bstep 2 3 (\<lambda>_. True) (bdemo 5) (bdemo 6)"
    using clear_one [where p = 0 and N = 2 and M = 3 and s = "bdemo 5" and strong = "\<lambda>_. True" and w = 0 and i = 0 and j = 2] by (simp add: d)
  with r have r: "breach 2 3 (\<lambda>_. True) (bdemo 6)" by (rule st)
  have "bstep 2 3 (\<lambda>_. True) (bdemo 6) (bdemo 7)"
    using leave_barrier [where p = 0 and N = 2 and M = 3 and s = "bdemo 6" and strong = "\<lambda>_. True" and w = 0 and i = 0 and j = 0] by (simp add: d)
  with r show ?thesis by (rule st)
qed

theorem barriers_separate_phases_witness: "bplace (bdemo 7) 0 3 < 2 \<and> 3 < bpos (bdemo 7) 1"
proof -
  have "spaced 3 (\<lambda>_. True)" unfolding spaced_def by (intro allI impI) (rule_tac x = "a + 1" in exI, rule_tac x = "a + 2" in exI, simp)
  moreover have "3 < bpos (bdemo 7) 0" "\<not> is_wait (bpcs (bdemo 7) 0)"
    by (simp_all add: bdemo_def Let_def createBarriers_def arrive_def setPc_def)
  ultimately show ?thesis
    using barriers_separate_phases [OF _ _ _ bdemo_reach, of 0 3] by auto
qed

end
