(* ===== verification/Callinfo.thy ===== *)
theory Callinfo
  imports GcState HashTab
begin

text \<open>
  The GC tables: the first half of \<open>Runtime/sparc/stack.c\<close> with \<open>struct Callinfo__t\<close> and
  \<open>struct CallinfoCursor__t\<close> of \<open>sparc.h\<close>.  For every call site the compiler
  (\<open>Backend/tracetable.sml\<close>) writes an entry that says which slots of the caller's frame and which
  registers hold pointers.  The runtime finds the entry of a return address in a hash table and reads
  it through a cursor, which also caches the interesting slots of a frame that is seen again.

  The entries live in the memory \<open>m\<close>; a \<open>Callinfo_t*\<close> is the address of an entry.  The platform is
  SPARC: \<open>char\<close> is signed and memory is big-endian.  The section \<open>The slots of a frame\<close> proves that
  the three ways to scan the slots of a frame (by cached slots, by words and bytes with shortcuts, one
  by one) agree.  The last section states the encoding of the paths of special traces by the compiler
  and that the runtime decodes it.
\<close>

unbundle bit_operations_syntax

subsection \<open>Entries\<close>

definition byteAt :: "memory \<Rightarrow> addr \<Rightarrow> int" where
  \<comment> \<open>a signed \<open>char\<close> of big-endian memory\<close>
  "byteAt m a =
     (let b = (unat (m (a - a mod 4)) div 256 ^ (3 - a mod 4)) mod 256
      in if b \<ge> 128 then int b - 256 else int b)"

definition ci_retadd :: "memory \<Rightarrow> addr \<Rightarrow> val" where "ci_retadd m ci = m ci"
definition ci_size0 :: "memory \<Rightarrow> addr \<Rightarrow> val" where "ci_size0 m ci = m (ci + 4)"
definition ci_size1 :: "memory \<Rightarrow> addr \<Rightarrow> val" where "ci_size1 m ci = m (ci + 8)"
definition regtrace_a :: "memory \<Rightarrow> addr \<Rightarrow> val" where "regtrace_a m ci = m (ci + 12)"
definition regtrace_b :: "memory \<Rightarrow> addr \<Rightarrow> val" where "regtrace_b m ci = m (ci + 16)"
definition rawdata :: "addr \<Rightarrow> addr" where "rawdata ci = ci + 20"

definition GET_ENTRYSIZE :: "val \<Rightarrow> nat" where
  "GET_ENTRYSIZE x = unat (x AND 65535)"

definition GET_FRAMESIZE :: "val \<Rightarrow> nat" where
  "GET_FRAMESIZE x = unat (drop_bit 16 x AND 65535)"

definition GET_BYTESTUFFSIZE :: "val \<Rightarrow> nat" where
  "GET_BYTESTUFFSIZE x = unat (x AND 65535)"

definition GET_QUAD_RA_OFFSET :: "val \<Rightarrow> nat" where
  "GET_QUAD_RA_OFFSET x = unat (drop_bit 16 x AND 31)"

definition stackBot :: "memory \<Rightarrow> addr \<Rightarrow> nat \<Rightarrow> nat" where
  \<comment> \<open>\<open>LookupStackBot\<close>: the two bits of a slot\<close>
  "stackBot m ci pos =
     (let v = m (rawdata ci + 4 * (pos div 16)) in unat (drop_bit (2 * (pos mod 16)) v AND 3))"

definition TRACE_NO :: nat where "TRACE_NO = 0"
definition TRACE_YES :: nat where "TRACE_YES = 1"
definition TRACE_CALLEE :: nat where "TRACE_CALLEE = 2"
definition TRACE_SPECIAL :: nat where "TRACE_SPECIAL = 3"

record senv =
  datastart :: addr
  dataend :: addr
  textstart :: addr
  textend :: addr
  globalOff :: nat                \<comment> \<open>\<open>primaryGlobalOffset\<close>\<close>
  callTable :: hashTable          \<comment> \<open>\<open>CallinfoHashTable\<close>\<close>

definition IsText :: "senv \<Rightarrow> val \<Rightarrow> bool" where
  "IsText e a \<longleftrightarrow> textstart e \<le> unat a \<and> unat a \<le> textend e"

definition IsGlobalData :: "senv \<Rightarrow> val \<Rightarrow> bool" where
  "IsGlobalData e a \<longleftrightarrow> datastart e \<le> unat a \<and> unat a \<le> dataend e"

definition IsTagData :: "val \<Rightarrow> bool" where
  "IsTagData a \<longleftrightarrow> unat a \<le> 256"

subsection \<open>The cursor\<close>

record cursor =
  cCallinfo :: addr
  cEntrySize :: nat
  cFrameSize :: nat
  cRAQuadOffset :: int
  cByteOffset :: nat
  cWordOffset :: nat
  cYesBits :: "32 word"
  cCalleeMask :: "32 word"
  cSpecialBits :: "32 word"
  cByteData :: addr
  cWordData :: addr
  cSlotCount :: int
  cSlots :: "(nat \<times> nat) list"    \<comment> \<open>the arrays \<open>slot\<close> and \<open>trace\<close>, as far as they are filled\<close>

definition LookupSpecialByte :: "memory \<Rightarrow> cursor \<Rightarrow> int \<times> cursor" where
  "LookupSpecialByte m c =
     (byteAt m (cByteData c + cByteOffset c), c\<lparr>cByteOffset := cByteOffset c + 1\<rparr>)"

definition LookupSpecialWord :: "memory \<Rightarrow> cursor \<Rightarrow> val \<times> cursor" where
  "LookupSpecialWord m c =
     (m (cWordData c + 4 * cWordOffset c), c\<lparr>cWordOffset := cWordOffset c + 1\<rparr>)"

definition LookupSpecialWordPair :: "memory \<Rightarrow> cursor \<Rightarrow> (val \<times> val) \<times> cursor" where
  "LookupSpecialWordPair m c =
     (case LookupSpecialWord m c of (a, c) \<Rightarrow> case LookupSpecialWord m c of (b, c) \<Rightarrow> ((a, b), c))"

definition getCursor :: "memory \<Rightarrow> addr \<Rightarrow> cursor \<Rightarrow> cursor" where
  \<comment> \<open>For the offset 31 the byte is read before \<open>byteData\<close> is set, as in the source.\<close>
  "getCursor m ci c =
     (let c = c\<lparr>cByteOffset := 0, cWordOffset := 0\<rparr> in
      if cCallinfo c \<noteq> ci then
        let ra = regtrace_a m ci; rb = regtrace_b m ci;
            size0 = ci_size0 m ci; size1 = ci_size1 m ci;
            offset = GET_QUAD_RA_OFFSET size1;
            c = c\<lparr>cCallinfo := ci, cFrameSize := GET_FRAMESIZE size0, cEntrySize := GET_ENTRYSIZE size0\<rparr>;
            (off, c) = (if offset = 31 then LookupSpecialByte m c else (int offset, c));
            rawbytes = GET_FRAMESIZE size0 div 4;
            bytes = (rawbytes + 3) div 4 * 4;
            bytedata = GET_BYTESTUFFSIZE size1 * 4
        in c\<lparr>cRAQuadOffset := off, cSlotCount := - 1,
             cYesBits := ra AND NOT rb, cCalleeMask := ra AND rb, cSpecialBits := NOT ra AND rb,
             cByteData := rawdata ci + bytes, cWordData := rawdata ci + bytes + bytedata\<rparr>
      else c)"

fun cacheLoop :: "memory \<Rightarrow> addr \<Rightarrow> nat \<Rightarrow> nat \<Rightarrow> (nat \<times> nat) list \<Rightarrow> bool \<times> (nat \<times> nat) list" where
  \<comment> \<open>the loop of \<open>CacheCursor\<close> over the remaining slots, from slot \<open>i\<close>\<close>
  "cacheLoop m ci 0 i acc = (True, acc)"
| "cacheLoop m ci (Suc n) i acc =
     (let trace = stackBot m ci i in
      if trace \<noteq> TRACE_NO then
        let acc = acc @ [(i, trace)] in
        if length acc \<ge> 10 then (False, acc) else cacheLoop m ci n (i + 1) acc
      else cacheLoop m ci n (i + 1) acc)"

definition CacheCursor :: "memory \<Rightarrow> cursor \<Rightarrow> bool \<times> cursor" where
  "CacheCursor m c =
     (if cSlotCount c \<ge> 0 then (True, c)
      else let c = c\<lparr>cSlotCount := cSlotCount c - 1\<rparr> in
        if cSlotCount c = - 3 then
          (case cacheLoop m (cCallinfo c) (cFrameSize c) 0 [] of (ok, slots) \<Rightarrow>
             (ok, c\<lparr>cSlots := slots, cSlotCount := (if ok then int (length slots) else - 4)\<rparr>))
        else (False, c))"

subsection \<open>Special traces\<close>

fun pathSteps :: "memory \<Rightarrow> nat \<Rightarrow> val \<Rightarrow> val \<Rightarrow> val \<times> bool" where
  \<comment> \<open>\<open>STEP\<close>, so often; the flag is \<open>*stop\<close>\<close>
  "pathSteps m 0 base indices = (base, False)"
| "pathSteps m (Suc n) base indices =
     (let index = unat (indices AND 31) in
      if index = 0 then (base, True)
      else pathSteps m n (m (unat base + 4 * (index - 1))) (signed_drop_bit 5 indices))"

definition PathProjectStep :: "memory \<Rightarrow> val \<Rightarrow> val \<Rightarrow> val \<times> bool" where
  "PathProjectStep m base indices = pathSteps m 6 base indices"

fun PathProject :: "nat \<Rightarrow> memory \<Rightarrow> cursor \<Rightarrow> val \<Rightarrow> val \<Rightarrow> (val \<times> cursor) result" where
  \<comment> \<open>with a bound on the words that are read\<close>
  "PathProject 0 m c base indices = Inl OutOfFuel"
| "PathProject (Suc n) m c base indices =
     (case PathProjectStep m base indices of (base, stop) \<Rightarrow>
      if stop then Inr (base, c)
      else case LookupSpecialWord m c of (indices, c) \<Rightarrow> PathProject n m c base indices)"

definition GET_SPECIAL_TYPE :: "val \<Rightarrow> nat" where
  "GET_SPECIAL_TYPE x = unat (signed_drop_bit 30 x AND 3)"

definition should_trace_special :: "senv \<Rightarrow> memory \<Rightarrow> cursor \<Rightarrow> addr \<Rightarrow> (bool \<times> cursor) result" where
  "should_trace_special e m c cur_sp =
     (case LookupSpecialWordPair m c of ((special_type, special_data), c) \<Rightarrow>
      let type = GET_SPECIAL_TYPE special_type in
      bindE (if type = 0 then Inr (m (nat (int cur_sp + 4 * cdiv (sint special_data) 4)))
             else if type = 1 then Inr special_data
             else if type = 2 then Inr (m (unat special_data + 4 * (globalOff e div 4)))
             else Inl (Die ''Registers/Stack locations of type UNSET are not supported'')) (\<lambda>base.
      bindE (PathProject (cEntrySize c + 1) m c base special_type) (\<lambda>(res, c).
      Inr (unat res > 3, c))))"

definition should_trace :: "senv \<Rightarrow> memory \<Rightarrow> nat \<Rightarrow> cursor \<Rightarrow> addr \<Rightarrow> 32 word \<Rightarrow> (bool \<times> cursor) result" where
  "should_trace e m trace c cur_sp regstate =
     (if trace = TRACE_NO then Inr (False, c)
      else if trace = TRACE_YES then Inr (True, c)
      else if trace = TRACE_CALLEE then
        (case LookupSpecialByte m c of (pos, c) \<Rightarrow>
           if 0 \<le> pos \<and> pos < 32 then Inr (bit regstate (nat pos), c) else Inl (Overrun ''shift''))
      else should_trace_special e m c cur_sp)"

subsection \<open>The hash table of entries\<close>

definition LookupCallinfo :: "senv \<Rightarrow> val \<Rightarrow> val \<times> addr \<Rightarrow> (addr \<times> (val \<times> addr)) result" where
  \<comment> \<open>the last argument and result are \<open>lastHashKey\<close> and \<open>lastHashData\<close> of the processor\<close>
  "LookupCallinfo e retAdd lst =
     (let key = retAdd + 8 in
      if fst lst = key then Inr (snd lst, lst)
      else bindE (HashTableLookup (callTable e) key False) (\<lambda>r.
        case r of None \<Rightarrow> Inl (Die ''unknown return address during stack trace'')
        | Some i \<Rightarrow> Inr (snd (htable (callTable e) ! i), htable (callTable e) ! i)))"

fun tableEntries :: "nat \<Rightarrow> memory \<Rightarrow> addr \<Rightarrow> (val \<times> addr) list result" where
  \<comment> \<open>the entries of one module, up to the word 0\<close>
  "tableEntries 0 m curpos = Inl OutOfFuel"
| "tableEntries (Suc n) m curpos =
     (if m curpos = 0 then Inr []
      else let entrySize = GET_ENTRYSIZE (ci_size0 m curpos) in
        bindE (assertE (entrySize \<noteq> 0) ''entrySize != 0'') (\<lambda>_.
        bindE (tableEntries n m (curpos + 4 * entrySize)) (\<lambda>es. Inr ((m curpos, curpos) # es))))"

fun moduleEntries :: "nat \<Rightarrow> memory \<Rightarrow> addr list \<Rightarrow> (val \<times> addr) list result" where
  "moduleEntries n m [] = Inr []"
| "moduleEntries n m (p # ps) =
     bindE (tableEntries n m p) (\<lambda>es. bindE (moduleEntries n m ps) (\<lambda>es'. Inr (es @ es')))"

fun insertEntries :: "senv \<Rightarrow> (val \<times> addr) list \<Rightarrow> hashTable \<Rightarrow> hashTable result" where
  "insertEntries e [] h = Inr h"
| "insertEntries e (x # xs) h =
     bindE (assertE (IsText e (fst x)) ''IsText(e.key)'') (\<lambda>_.
     bindE (HashTableInsert h x) (insertEntries e xs))"

definition stack_init :: "nat \<Rightarrow> senv \<Rightarrow> memory \<Rightarrow> addr list \<Rightarrow> senv result" where
  \<comment> \<open>for the tables of all modules; \<open>n\<close> bounds the entries of a module\<close>
  "stack_init n e m modules =
     bindE (moduleEntries n m modules) (\<lambda>es.
     bindE (insertEntries e es (CreateHashTable (2 * length es))) (\<lambda>h.
     Inr (e\<lparr>callTable := h\<rparr>)))"

subsection \<open>The slots of a frame\<close>

fun foldE :: "('a \<Rightarrow> 's \<Rightarrow> 's result) \<Rightarrow> 'a list \<Rightarrow> 's \<Rightarrow> 's result" where
  "foldE f [] s = Inr s"
| "foldE f (x # xs) s = bindE (f x s) (foldE f xs)"

definition visitSlot ::
    "senv \<Rightarrow> memory \<Rightarrow> addr \<Rightarrow> 32 word \<Rightarrow> nat \<times> nat \<Rightarrow> cursor \<times> pset \<Rightarrow> (cursor \<times> pset) result" where
  \<comment> \<open>the body of the slot loops of \<open>downtrace_stacklet\<close>, for a slot and its trace\<close>
  "visitSlot e m cur_sp regstate st cr =
     bindE (should_trace e m (snd st) (fst cr) cur_sp regstate) (\<lambda>(b, c).
     if b then
       let data = m (cur_sp + 4 * fst st) in
       if IsTagData data \<or> IsGlobalData e data then Inr (c, snd cr)
       else bindE (SetPush (snd cr) (cur_sp + 4 * fst st)) (\<lambda>r. Inr (c, r))
     else Inr (c, snd cr))"

fun kLoop :: "(nat \<times> nat \<Rightarrow> 's \<Rightarrow> 's result) \<Rightarrow> nat \<Rightarrow> nat \<Rightarrow> 32 word \<Rightarrow> 's \<Rightarrow> 's result" where
  "kLoop f 0 curSlot info s = Inr s"
| "kLoop f (Suc n) curSlot info s =
     bindE (f (curSlot, unat (info AND 3)) s) (kLoop f n (curSlot + 1) (drop_bit 2 info))"

fun jLoop :: "(nat \<times> nat \<Rightarrow> 's \<Rightarrow> 's result) \<Rightarrow> nat \<Rightarrow> nat \<Rightarrow> 32 word \<Rightarrow> 's \<Rightarrow> 's result" where
  "jLoop f 0 sl info s = Inr s"
| "jLoop f (Suc n) sl info s =
     (if info AND 0xff = 0 then jLoop f n (sl + 4) (drop_bit 8 info) s
      else bindE (kLoop f 4 sl info s) (jLoop f n (sl + 4) (drop_bit 8 info)))"

fun iLoop :: "(nat \<times> nat \<Rightarrow> 's \<Rightarrow> 's result) \<Rightarrow> memory \<Rightarrow> addr \<Rightarrow> nat \<Rightarrow> nat \<Rightarrow> 's \<Rightarrow> 's result" where
  "iLoop f m ci 0 i s = Inr s"
| "iLoop f m ci (Suc n) i s =
     (let info = m (rawdata ci + 4 * i) in
      if info = 0 then iLoop f m ci n (i + 1) s
      else bindE (jLoop f 4 (16 * i) info s) (iLoop f m ci n (i + 1)))"

definition scanSlots ::
    "senv \<Rightarrow> memory \<Rightarrow> addr \<Rightarrow> 32 word \<Rightarrow> cursor \<times> pset \<Rightarrow> (cursor \<times> pset) result" where
  \<comment> \<open>the slots of one frame in \<open>downtrace_stacklet\<close>\<close>
  "scanSlots e m cur_sp regstate cr =
     (let numChunks = (cFrameSize (fst cr) + 15) div 16 in
      case CacheCursor m (fst cr) of (cached, c) \<Rightarrow>
      if cached then foldE (visitSlot e m cur_sp regstate) (cSlots c) (c, snd cr)
      else iLoop (visitSlot e m cur_sp regstate) m (cCallinfo c) numChunks 0 (c, snd cr))"

lemma foldE_append: "foldE f (xs @ ys) s = bindE (foldE f xs s) (foldE f ys)"
proof (induction xs arbitrary: s)
  case (Cons x xs)
  have "foldE f (xs @ ys) = (\<lambda>s. bindE (foldE f xs s) (foldE f ys))" using Cons.IH by (intro ext)
  then show ?case by (simp add: bindE_assoc)
qed simp

lemma foldE_skip:
  assumes "\<And>x s. \<not> P x \<Longrightarrow> f x s = Inr s" shows "foldE f (filter P xs) s = foldE f xs s"
proof (induction xs arbitrary: s)
  case (Cons x xs)
  have "foldE f (filter P xs) = foldE f xs" using Cons.IH by (intro ext)
  then show ?case using assms by simp
qed simp

lemma foldE_noop: "(\<And>x. x \<in> set xs \<Longrightarrow> f x s = Inr s) \<Longrightarrow> foldE f xs s = Inr s"
  by (induction xs) simp_all

definition ignores_no :: "(nat \<times> nat \<Rightarrow> 's \<Rightarrow> 's result) \<Rightarrow> bool" where
  "ignores_no f \<longleftrightarrow> (\<forall>i s. f (i, 0) s = Inr s)"

lemma visitSlot_ignores: "ignores_no (visitSlot e m sp reg)"
  by (simp add: ignores_no_def visitSlot_def should_trace_def TRACE_NO_def)

definition bots :: "32 word \<Rightarrow> nat \<Rightarrow> nat" where
  "bots info k = unat (drop_bit (2 * k) info AND 3)"

lemma bots_shift: "bots (drop_bit (2 * j) info) k = bots info (j + k)"
  by (simp add: bots_def drop_bit_drop_bit algebra_simps)

lemma kLoop_foldE: "kLoop f n sl info s = foldE f (map (\<lambda>k. (sl + k, bots info k)) [0..<n]) s"
proof (induction n arbitrary: sl info s)
  case (Suc n)
  have "map (\<lambda>k. (sl + k, bots info k)) [0..<Suc n] =
      (sl, unat (info AND 3)) # map (\<lambda>k. (sl + 1 + k, bots (drop_bit 2 info) k)) [0..<n]"
    using bots_shift [of 1 info] by (simp add: upt_conv_Cons map_Suc_upt [symmetric] bots_def del: upt_Suc)
  then show ?case by (simp add: Suc.IH del: upt_Suc cong: bindE_cong)
qed simp

lemma low_byte_bots: "info AND 0xff = (0 :: 32 word) \<Longrightarrow> k < 4 \<Longrightarrow> bots info k = 0"
proof -
  assume z: "info AND 0xff = 0" and k: "k < 4"
  have "\<not> bit info j" if "j < 8" for j
  proof -
    have "bit (info AND mask 8) j = bit info j" using that by (simp add: bit_simps)
    moreover have "(mask 8 :: 32 word) = 0xff" by (simp add: mask_eq_decr_exp)
    ultimately show ?thesis using z by simp
  qed
  then have "drop_bit (2 * k) info AND mask 2 = 0"
    using k by (intro bit_eqI) (auto simp: bit_simps)
  then show ?thesis by (simp add: bots_def mask_eq_decr_exp)
qed

lemma jLoop_foldE:
  assumes "ignores_no f"
  shows "jLoop f n sl info s = foldE f (map (\<lambda>k. (sl + k, bots info k)) [0..<4 * n]) s"
proof (induction n arbitrary: sl info s)
  case (Suc n)
  have split: "map (\<lambda>k. (sl + k, bots info k)) [0..<4 * Suc n] =
      map (\<lambda>k. (sl + k, bots info k)) [0..<4] @
      map (\<lambda>k. (sl + 4 + k, bots (drop_bit 8 info) k)) [0..<4 * n]"
  proof -
    have "[0..<4 * Suc n] = [0..<4] @ map (\<lambda>k. 4 + k) [0..<4 * n]"
      by (simp add: upt_add_eq_append [of 0 4 "4 * n", simplified] map_add_upt add.commute)
    then show ?thesis using bots_shift [of 4 info] by (simp add: algebra_simps)
  qed
  have "foldE f (map (\<lambda>k. (sl + k, bots info k)) [0..<4]) s = Inr s" if "info AND 0xff = 0"
    using assms low_byte_bots [OF that] by (intro foldE_noop) (auto simp: ignores_no_def)
  then show ?case
    unfolding split foldE_append by (simp add: kLoop_foldE Suc.IH del: upt_Suc cong: bindE_cong)
qed simp

lemma zero_bots: "bots 0 k = 0"
  by (simp add: bots_def)

lemma iLoop_foldE:
  assumes "ignores_no f"
  shows "iLoop f m ci n i s = foldE f (map (\<lambda>k. (k, stackBot m ci k)) [16 * i..<16 * (i + n)]) s"
proof (induction n arbitrary: i s)
  case (Suc n)
  let ?g = "\<lambda>k. (k, stackBot m ci k)" and ?info = "m (rawdata ci + 4 * i)"
  have split: "map ?g [16 * i..<16 * (i + Suc n)] =
      map (\<lambda>k. (16 * i + k, bots ?info k)) [0..<16] @ map ?g [16 * (i + 1)..<16 * (i + 1 + n)]"
  proof -
    have "[16 * i..<16 * (i + Suc n)] = [16 * i..<16 * i + 16] @ [16 * i + 16..<16 * (i + Suc n)]"
      using upt_add_eq_append [of "16 * i" "16 * i + 16" "16 * n"] by (simp add: algebra_simps)
    moreover have "map ?g [16 * i..<16 * i + 16] = map (\<lambda>k. (16 * i + k, bots ?info k)) [0..<16]"
      by (intro nth_equalityI) (simp_all add: stackBot_def bots_def)
    ultimately show ?thesis by (simp add: algebra_simps)
  qed
  have "foldE f (map (\<lambda>k. (16 * i + k, bots ?info k)) [0..<16]) s = Inr s" if "?info = 0"
    using assms that zero_bots by (intro foldE_noop) (auto simp: ignores_no_def)
  then show ?case
    unfolding split foldE_append using jLoop_foldE [OF assms, of 4] by (simp add: Suc.IH Let_def del: upt_Suc cong: bindE_cong)
qed simp

definition frameSlots :: "memory \<Rightarrow> addr \<Rightarrow> (nat \<times> nat) list" where
  \<comment> \<open>all slots of the frame with their traces\<close>
  "frameSlots m ci = map (\<lambda>i. (i, stackBot m ci i)) [0..<GET_FRAMESIZE (ci_size0 m ci)]"

definition entry_wf :: "memory \<Rightarrow> addr \<Rightarrow> bool" where
  \<comment> \<open>what the compiler promises of an entry: the return address offset is given directly, and the
      bits of slots past the end of the frame are \<open>TRACE_NO\<close>\<close>
  "entry_wf m ci \<longleftrightarrow> ci \<noteq> 0 \<and> GET_QUAD_RA_OFFSET (ci_size1 m ci) \<noteq> 31 \<and>
     (let n = GET_FRAMESIZE (ci_size0 m ci) in \<forall>i. n \<le> i \<and> i < 16 * ((n + 15) div 16) \<longrightarrow> stackBot m ci i = 0)"

definition cursor_ok :: "memory \<Rightarrow> cursor \<Rightarrow> bool" where
  "cursor_ok m c \<longleftrightarrow> (let ci = cCallinfo c; ra = regtrace_a m ci; rb = regtrace_b m ci;
       bytes = (GET_FRAMESIZE (ci_size0 m ci) div 4 + 3) div 4 * 4 in
     ci \<noteq> 0 \<longrightarrow>
       cFrameSize c = GET_FRAMESIZE (ci_size0 m ci) \<and> cEntrySize c = GET_ENTRYSIZE (ci_size0 m ci) \<and>
       cRAQuadOffset c = int (GET_QUAD_RA_OFFSET (ci_size1 m ci)) \<and>
       cYesBits c = (ra AND NOT rb) \<and> cCalleeMask c = (ra AND rb) \<and> cSpecialBits c = (NOT ra AND rb) \<and>
       cByteData c = rawdata ci + bytes \<and>
       cWordData c = rawdata ci + bytes + GET_BYTESTUFFSIZE (ci_size1 m ci) * 4 \<and>
       (0 \<le> cSlotCount c \<longrightarrow> cSlots c = filter (\<lambda>st. snd st \<noteq> 0) (frameSlots m ci)))"

lemma getCursor_ok:
  assumes "entry_wf m ci" and "cursor_ok m c"
  shows "cursor_ok m (getCursor m ci c)" "cCallinfo (getCursor m ci c) = ci"
    "cByteOffset (getCursor m ci c) = 0" "cWordOffset (getCursor m ci c) = 0"
  using assms by (auto simp: getCursor_def cursor_ok_def Let_def entry_wf_def)

lemma getCursor_again: "cCallinfo c = ci \<Longrightarrow> getCursor m ci c = c\<lparr>cByteOffset := 0, cWordOffset := 0\<rparr>"
  by (simp add: getCursor_def)

lemma cacheLoop_ok:
  "cacheLoop m ci n i acc = (True, slots) \<Longrightarrow>
     slots = acc @ filter (\<lambda>st. snd st \<noteq> 0) (map (\<lambda>i. (i, stackBot m ci i)) [i..<i + n])"
proof (induction n arbitrary: i acc)
  case (Suc n)
  have "[i..<i + Suc n] = i # [i + 1..<i + 1 + n]" by (simp add: upt_conv_Cons)
  with Suc.prems show ?case
    using Suc.IH [of "i + 1" "acc @ [(i, stackBot m ci i)]"] Suc.IH [of "i + 1" acc]
    by (auto simp: Let_def TRACE_NO_def split: if_splits simp del: upt_Suc)
qed simp

lemma CacheCursor_ok:
  assumes ok: "cursor_ok m c" and "cCallinfo c \<noteq> 0" and r: "CacheCursor m c = (b, c')"
  shows "cursor_ok m c'" "cCallinfo c' = cCallinfo c" "cFrameSize c' = cFrameSize c"
    "cByteOffset c' = cByteOffset c" "cWordOffset c' = cWordOffset c"
    "b \<Longrightarrow> cSlots c' = filter (\<lambda>st. snd st \<noteq> 0) (frameSlots m (cCallinfo c))"
proof -
  have fs: "cFrameSize c = GET_FRAMESIZE (ci_size0 m (cCallinfo c))"
    using ok assms(2) by (simp add: cursor_ok_def Let_def)
  obtain k slots where cl: "cacheLoop m (cCallinfo c) (cFrameSize c) 0 [] = (k, slots)" by fastforce
  have good: "k \<Longrightarrow> slots = filter (\<lambda>st. snd st \<noteq> 0) (frameSlots m (cCallinfo c))"
    using cacheLoop_ok [of m "cCallinfo c" "cFrameSize c" 0 "[]"] cl by (simp add: fs frameSlots_def)
  show "cursor_ok m c'" "cCallinfo c' = cCallinfo c" "cFrameSize c' = cFrameSize c"
    "cByteOffset c' = cByteOffset c" "cWordOffset c' = cWordOffset c"
    "b \<Longrightarrow> cSlots c' = filter (\<lambda>st. snd st \<noteq> 0) (frameSlots m (cCallinfo c))"
    using r ok assms(2) good cl
    by (auto simp: CacheCursor_def Let_def cursor_ok_def split: if_splits)
qed

lemma scanSlots_foldE:
  assumes "cursor_ok m c" and "entry_wf m (cCallinfo c)"
  shows "scanSlots e m sp regstate (c, rts) =
    foldE (visitSlot e m sp regstate) (frameSlots m (cCallinfo c)) (snd (CacheCursor m c), rts)"
proof -
  let ?f = "visitSlot e m sp regstate" and ?ci = "cCallinfo c" and ?n = "GET_FRAMESIZE (ci_size0 m (cCallinfo c))"
  have ci: "?ci \<noteq> 0" using assms(2) by (simp add: entry_wf_def)
  obtain b c' where cc: "CacheCursor m c = (b, c')" by fastforce
  note k = CacheCursor_ok [OF assms(1) ci cc]
  have n: "cFrameSize c = ?n" using assms(1) ci by (simp add: cursor_ok_def Let_def)
  have no: "?f st s = Inr s" if "\<not> snd st \<noteq> 0" for st s
    using visitSlot_ignores [of e m sp regstate] that by (cases st; cases s) (simp add: ignores_no_def)
  show ?thesis
  proof (cases b)
    case True
    then show ?thesis
      using cc k(6) foldE_skip [of "\<lambda>st. snd st \<noteq> 0" ?f "frameSlots m ?ci", OF no] by (simp add: scanSlots_def)
  next
    case False
    let ?N = "16 * ((?n + 15) div 16)"
    have "?n \<le> ?N" by linarith
    then have "map (\<lambda>i. (i, stackBot m ?ci i)) [0..<?N] =
        frameSlots m ?ci @ map (\<lambda>i. (i, stackBot m ?ci i)) [?n..<?N]"
      using upt_add_eq_append [of 0 ?n "?N - ?n"] by (simp add: frameSlots_def)
    moreover have "foldE ?f (map (\<lambda>i. (i, stackBot m ?ci i)) [?n..<?N]) s = Inr s" for s
      using assms(2) visitSlot_ignores [of e m sp regstate]
      by (cases s, intro foldE_noop) (auto simp: entry_wf_def Let_def ignores_no_def)
    ultimately have "foldE ?f (map (\<lambda>i. (i, stackBot m ?ci i)) [0..<?N]) s = foldE ?f (frameSlots m ?ci) s" for s
      by (simp add: foldE_append) (cases "foldE ?f (frameSlots m ?ci) s"; simp)
    with False show ?thesis
      using cc k(2) iLoop_foldE [OF visitSlot_ignores, of e m sp regstate m ?ci _ 0] by (simp add: scanSlots_def n)
  qed
qed

text \<open>C21: The slots of a frame are scanned in three ways: by the list of cached slots, by the words of the
  table with shortcuts for zero words and zero bytes, and (after the first visits) again by the cache.
  Each of them does exactly what a loop over all slots of the frame in order would do: the same
  decisions, the same use of the byte and word sections, the same roots.\<close>

theorem scanSlots_equivalent:
  assumes "cursor_ok m c" and "entry_wf m (cCallinfo c)"
  shows "scanSlots e m sp regstate (c, rts) =
    foldE (visitSlot e m sp regstate) (frameSlots m (cCallinfo c)) (snd (CacheCursor m c), rts)"
  using assms by (rule scanSlots_foldE)

subsection \<open>Paths of special traces\<close>

definition packNat :: "nat list \<Rightarrow> nat" where
  \<comment> \<open>digits of five bits, the first in the lowest bits\<close>
  "packNat bs = foldr (\<lambda>b acc. b + 32 * acc) bs 0"

fun encPath :: "nat list \<Rightarrow> nat list" where
  \<comment> \<open>the words described in the comment of \<open>tracetable.sml\<close>, without the type bits: six indices
      plus one in each word, 0 after the last\<close>
  "encPath is =
     (if length is < 6 then [packNat (map Suc is)]
      else packNat (map Suc (take 6 is)) # encPath (drop 6 is))"

declare encPath.simps [simp del]

definition indices2words :: "nat list \<Rightarrow> nat \<times> nat list" where
  \<comment> \<open>what \<open>tracetable.sml\<close> computes: \<open>foldr pack\<close> over the indices plus one and the final 0\<close>
  "indices2words is =
     (case foldr (\<lambda>b (cnt, w, acc).
         if cnt = 6 then (1 :: nat, b, w # acc) else (cnt + 1, 32 * w + b, acc))
       (map Suc is @ [0]) (0, 0, []) of (cnt, w, acc) \<Rightarrow> (w, acc))"

definition project :: "memory \<Rightarrow> val \<Rightarrow> nat list \<Rightarrow> val" where
  \<comment> \<open>the field reached from a record by a path\<close>
  "project m base is = foldl (\<lambda>b i. m (unat b + 4 * i)) base is"

lemma packNat_simps [simp]: "packNat [] = 0" "packNat (b # bs) = b + 32 * packNat bs"
  by (simp_all add: packNat_def)

lemma packNat_less: "\<forall>b \<in> set bs. b < 32 \<Longrightarrow> packNat bs < 32 ^ length bs"
proof (induction bs)
  case (Cons b bs)
  then have "packNat bs + 1 \<le> 32 ^ length bs" by simp
  then have "32 * packNat bs + 32 \<le> 32 * 32 ^ length bs" by linarith
  then show ?case using Cons.prems by simp
qed simp

lemma packNat_digit: "\<forall>b \<in> set bs. b < 32 \<Longrightarrow> packNat bs div 32 ^ k mod 32 = (if k < length bs then bs ! k else 0)"
proof (induction bs arbitrary: k)
  case (Cons b bs)
  show ?case
  proof (cases k)
    case (Suc j)
    have "(b + 32 * packNat bs) div 32 ^ Suc j = packNat bs div 32 ^ j"
      using Cons.prems by (simp add: div_mult2_eq)
    then show ?thesis using Cons Suc by simp
  qed (use Cons.prems in simp)
qed simp

fun digitSteps :: "memory \<Rightarrow> nat list \<Rightarrow> val \<Rightarrow> val \<times> bool" where
  "digitSteps m [] base = (base, False)"
| "digitSteps m (d # ds) base = (if d = 0 then (base, True) else digitSteps m ds (m (unat base + 4 * (d - 1))))"

definition sdigit :: "32 word \<Rightarrow> nat \<Rightarrow> nat" where
  "sdigit w k = unat (signed_drop_bit (5 * k) w AND 31)"

lemma pathSteps_digits: "pathSteps m n base w = digitSteps m (map (sdigit w) [0..<n]) base"
proof (induction n arbitrary: base w)
  case (Suc n)
  have "map (sdigit w) [0..<Suc n] = sdigit w 0 # map (sdigit (signed_drop_bit 5 w)) [0..<n]"
    by (simp add: upt_conv_Cons map_Suc_upt [symmetric] sdigit_def algebra_simps del: upt_Suc)
  moreover have "sdigit w 0 = unat (w AND 31)" by (simp add: sdigit_def)
  ultimately show ?case by (simp add: Suc.IH Let_def del: upt_Suc)
qed simp

lemma sdigit_unat:
  assumes "k < 6" shows "sdigit w k = unat w div 32 ^ k mod 32"
proof -
  have "signed_drop_bit (5 * k) w AND mask 5 = drop_bit (5 * k) w AND mask 5"
    using assms by (intro bit_eqI) (auto simp: bit_simps bit_signed_drop_bit_iff)
  moreover have "(mask 5 :: 32 word) = 31" by (simp add: mask_eq_decr_exp)
  ultimately have "sdigit w k = unat (drop_bit (5 * k) w AND 31)" by (simp add: sdigit_def)
  also have "\<dots> = unat w div 2 ^ (5 * k) mod 32" by (simp only: and_mask_unat drop_bit_unat)
  also have "\<dots> = unat w div 32 ^ k mod 32" by (simp add: power_mult)
  finally show ?thesis .
qed

lemma digitSteps_project:
  "digitSteps m (map Suc is @ ds) base = digitSteps m ds (project m base is)"
  by (induction "is" arbitrary: base) (simp_all add: project_def)

lemma path_word_digit:
  assumes "ty < 4" and "\<forall>b \<in> set bs. b < 32" and "length bs \<le> 6" and "k < 6"
  shows "sdigit (word_of_nat (ty * 2 ^ 30 + packNat bs)) k = (if k < length bs then bs ! k else 0)"
proof -
  have p: "packNat bs < 2 ^ 30"
    using packNat_less [OF assms(2)] power_increasing [OF assms(3), of "32 :: nat"] by simp
  then have "unat (word_of_nat (ty * 2 ^ 30 + packNat bs) :: 32 word) = ty * 2 ^ 30 + packNat bs"
    using assms(1) by (intro unat_of_addr) simp
  moreover have "(ty * 2 ^ 30 + packNat bs) div 32 ^ k mod 32 = packNat bs div 32 ^ k mod 32"
  proof -
    have e: "(2 :: nat) ^ 30 = 32 ^ (5 - k) * 32 * 32 ^ k"
    proof -
      have "(2 :: nat) ^ 30 = 32 ^ 6" by simp
      also have "6 = (5 - k) + 1 + k" using assms(4) by simp
      finally show ?thesis by (simp only: power_add power_one_right)
    qed
    have "ty * 2 ^ 30 + packNat bs = packNat bs + ty * 32 ^ (5 - k) * 32 * 32 ^ k"
      unfolding e by simp
    then have "(ty * 2 ^ 30 + packNat bs) div 32 ^ k = packNat bs div 32 ^ k + ty * 32 ^ (5 - k) * 32"
      by (simp only: div_mult_self1) simp
    then show ?thesis by (simp only: mod_mult_self1)
  qed
  ultimately show ?thesis using sdigit_unat [OF assms(4)] packNat_digit [OF assms(2)] by simp
qed

lemma PathProjectStep_word:
  assumes "ty < 4" and "\<forall>i \<in> set is. i \<le> 30" and "length is \<le> 6"
  shows "PathProjectStep m base (word_of_nat (ty * 2 ^ 30 + packNat (map Suc is))) =
    (project m base is, length is < 6)"
proof -
  let ?w = "word_of_nat (ty * 2 ^ 30 + packNat (map Suc is)) :: val"
  have b: "\<forall>b \<in> set (map Suc is). b < 32" using assms(2) by auto
  have "map (sdigit ?w) [0..<6] = map Suc is @ replicate (6 - length is) 0"
  proof (rule nth_equalityI)
    fix k assume "k < length (map (sdigit ?w) [0..<6])"
    then have k: "k < 6" by simp
    then have "sdigit ?w k = (if k < length is then map Suc is ! k else 0)"
      using path_word_digit [OF assms(1) b _ k] assms(3) by simp
    then show "map (sdigit ?w) [0..<6] ! k = (map Suc is @ replicate (6 - length is) 0) ! k"
      using k by (simp add: nth_append del: upt_Suc)
  qed (use assms(3) in simp)
  then show ?thesis
    by (simp only: PathProjectStep_def pathSteps_digits digitSteps_project) (cases "6 - length is"; simp)
qed

lemma encPath_length: "length (encPath is) = Suc (length is div 6)"
proof (induction "is" rule: encPath.induct)
  case (1 "is")
  then show ?case by (subst encPath.simps) (auto simp: div_if [of "length is" 6])
qed

lemma PathProject_encPath:
  assumes "ty < 4" and "\<forall>i \<in> set is. i \<le> 30" and "length (encPath is) \<le> n"
    and "\<And>j. j < length (tl (encPath is)) \<Longrightarrow>
          m (cWordData c + 4 * (cWordOffset c + j)) = word_of_nat (tl (encPath is) ! j)"
  shows "PathProject n m c base (word_of_nat (ty * 2 ^ 30 + hd (encPath is))) =
    Inr (project m base is, c\<lparr>cWordOffset := cWordOffset c + length (tl (encPath is))\<rparr>)"
  using assms
proof (induction "is" arbitrary: ty base n c rule: encPath.induct)
  case (1 "is")
  obtain n' where n: "n = Suc n'" using "1.prems"(3) encPath_length [of "is"] by (cases n) auto
  show ?case
  proof (cases "length is < 6")
    case True
    have e: "encPath is = [packNat (map Suc is)]" using True by (subst encPath.simps) simp
    have "PathProjectStep m base (word_of_nat (ty * 2 ^ 30 + packNat (map Suc is))) = (project m base is, True)"
      using PathProjectStep_word [OF "1.prems"(1,2), of m base] True by simp
    then show ?thesis unfolding n e by simp
  next
    case False
    let ?a = "take 6 is" and ?b = "drop 6 is"
    have e: "encPath is = packNat (map Suc ?a) # encPath ?b" using False by (subst encPath.simps) simp
    have pj: "project m (project m base ?a) ?b = project m base is"
      by (simp add: project_def flip: foldl_append)
    have "\<forall>i \<in> set ?a. i \<le> 30" using "1.prems"(2) by (meson in_set_takeD)
    from PathProjectStep_word [OF "1.prems"(1) this, of m base]
    have st: "PathProjectStep m base (word_of_nat (ty * 2 ^ 30 + packNat (map Suc ?a))) = (project m base ?a, False)"
      using False by simp
    obtain w ws where ws: "encPath ?b = w # ws" by (cases "encPath ?b") (simp_all add: encPath_length flip: length_0_conv)
    let ?c = "c\<lparr>cWordOffset := cWordOffset c + 1\<rparr>"
    have rd: "LookupSpecialWord m c = (word_of_nat w, ?c)"
      using "1.prems"(4) [of 0] by (simp add: LookupSpecialWord_def e ws)
    have "PathProject n' m ?c (project m base ?a) (word_of_nat (0 * 2 ^ 30 + hd (encPath ?b))) =
        Inr (project m (project m base ?a) ?b, ?c\<lparr>cWordOffset := cWordOffset ?c + length (tl (encPath ?b))\<rparr>)"
    proof (rule "1.IH" [OF False])
      show "\<forall>i \<in> set ?b. i \<le> 30" using "1.prems"(2) by (meson in_set_dropD)
      show "length (encPath ?b) \<le> n'" using "1.prems"(3) by (simp add: n e)
      show "m (cWordData ?c + 4 * (cWordOffset ?c + j)) = word_of_nat (tl (encPath ?b) ! j)"
        if "j < length (tl (encPath ?b))" for j
        using "1.prems"(4) [of "j + 1"] that by (simp add: e ws algebra_simps)
    qed simp
    then show ?thesis
      unfolding n e using st rd pj by (simp add: ws)
  qed
qed


lemma indices2words_short:
  \<comment> \<open>for paths of at most five indices the compiler writes the documented words\<close>
  assumes "length is < 6" shows "indices2words is = (hd (encPath is), tl (encPath is))"
proof -
  let ?f = "\<lambda>b (cnt, w, acc). if cnt = 6 then (1 :: nat, b, w # acc) else (cnt + 1, 32 * w + b, acc)"
  have "foldr ?f xs (1, 0, []) = (1 + length xs, packNat xs, [])" if "length xs < 6" for xs
    using that by (induction xs) simp_all
  from this [of "map Suc is"] show ?thesis
    using assms by (simp add: indices2words_def encPath.simps)
qed

lemma indices2words_long:
  \<comment> \<open>with six indices it fills the words from the wrong end, and the runtime stops after the first index\<close>
  "indices2words [0, 1, 2, 3, 4, 5] = (1, [packNat [2, 3, 4, 5, 6]]) \<and>
   PathProjectStep m base (word_of_nat 1) = (m (unat base), True)"
proof
  show "indices2words [0, 1, 2, 3, 4, 5] = (1, [packNat [2, 3, 4, 5, 6]])"
    by (simp add: indices2words_def)
  show "PathProjectStep m base (word_of_nat 1) = (m (unat base), True)"
    using PathProjectStep_word [of 0 "[0]" m base] by (simp add: project_def)
qed

lemma getCursor_escape_stale:
  \<comment> \<open>the escape value 31 of the return address offset: the byte comes from the data of the previous
      entry, and a second look at the same entry leaves the byte section at another place\<close>
  assumes "GET_QUAD_RA_OFFSET (ci_size1 m ci) = 31" and "cCallinfo c \<noteq> ci"
  shows "cRAQuadOffset (getCursor m ci c) = byteAt m (cByteData c) \<and>
    cByteOffset (getCursor m ci c) = 1 \<and> cByteOffset (getCursor m ci (getCursor m ci c)) = 0"
  using assms by (simp add: getCursor_def Let_def LookupSpecialByte_def)

definition cursor0 :: cursor where
  "cursor0 = \<lparr>cCallinfo = 0, cEntrySize = 0, cFrameSize = 0, cRAQuadOffset = 0, cByteOffset = 0, cWordOffset = 0,
     cYesBits = 0, cCalleeMask = 0, cSpecialBits = 0, cByteData = 0, cWordData = 0, cSlotCount = 0, cSlots = []\<rparr>"

definition demo_senv :: senv where
  "demo_senv = \<lparr>datastart = 20000, dataend = 30000, textstart = 400, textend = 900, globalOff = 0,
     callTable = CreateHashTable 4\<rparr>"

definition demo_table :: memory where
  \<comment> \<open>an entry at 1000 for a frame of four slots, slot 0 a pointer and the return address in slot 1;
      a special trace at 2000 (a label and the path 2)\<close>
  "demo_table = (\<lambda>_. 0)(1000 := 500, 1004 := 0x00040006, 1008 := 0x00010000, 1020 := 1,
     2000 := 0x40000003, 2004 := 3000, 3008 := 9)"

lemma demo_table_entry: "ci_size0 demo_table 1000 = 0x00040006" "ci_size1 demo_table 1000 = 0x00010000"
  "GET_FRAMESIZE (ci_size0 demo_table 1000) = 4" "GET_QUAD_RA_OFFSET (ci_size1 demo_table 1000) = 1"
  by (simp_all add: demo_table_def ci_size0_def ci_size1_def GET_FRAMESIZE_def GET_QUAD_RA_OFFSET_def
      and_mask_unat drop_bit_unat del: drop_bit_numeral_bit0 drop_bit_numeral_bit1) (code_simp+)

lemma demo_table_wf: "entry_wf demo_table 1000"
proof -
  have "stackBot demo_table 1000 i = 0" if "4 \<le> i" "i < 16" for i
  proof -
    have d: "demo_table 1020 = 1" by (simp add: demo_table_def)
    have "i div 16 = 0" "i mod 16 = i" using that by simp_all
    then show ?thesis using that by (simp add: stackBot_def rawdata_def d drop_bit_of_1)
  qed
  then show ?thesis by (simp add: entry_wf_def demo_table_entry(3,4) Let_def)
qed

lemma cursor0_ok: "cursor_ok m cursor0"
  by (simp add: cursor_ok_def cursor0_def Let_def)

theorem scanSlots_equivalent_witness:
  "scanSlots demo_senv demo_table 4000 0 (getCursor demo_table 1000 cursor0, SetInit 32) =
   foldE (visitSlot demo_senv demo_table 4000 0) (frameSlots demo_table 1000)
     (snd (CacheCursor demo_table (getCursor demo_table 1000 cursor0)), SetInit 32)"
  using scanSlots_equivalent [OF getCursor_ok(1) [OF demo_table_wf cursor0_ok], of demo_senv 4000 0 "SetInit 32"]
    demo_table_wf getCursor_ok(2) [OF demo_table_wf cursor0_ok] by simp


end
