(* ===== verification/StackScan.thy ===== *)
theory StackScan
  imports Callinfo Stacklets
begin

text \<open>
  Root scanning: the second half of \<open>Runtime/sparc/stack.c\<close>.  A stacklet is scanned in two passes.
  \<open>uptrace_stacklet\<close> walks from the newest frame to the oldest and pushes the table entry of every
  frame; \<open>downtrace_stacklet\<close> pops them, so that it sees the oldest frame first, and computes which
  registers hold pointers at every call.  The functions that scan a thread combine these passes for
  the stacklets of its chain and add the roots in registers.

  \<open>frames\<close> says what the stack of a stacklet is: a list of entries and frame addresses linked by the
  return addresses.  \<open>refFrames\<close> is a direct description of the roots: all slots of all frames in
  order, oldest frame first, without caches or shortcuts.  The scan of a stacklet is proved equal to
  it.  Root locations are addresses; those inside a thread or stacklet structure are given by the
  addresses of the fields.
\<close>

subsection \<open>State\<close>

record tracest =
  tRoots :: pset                  \<comment> \<open>\<open>work.roots\<close> of the processor\<close>
  tUsage :: usage                 \<comment> \<open>\<open>segUsage\<close>\<close>
  tHash :: "val \<times> addr"          \<comment> \<open>\<open>lastHashKey\<close>, \<open>lastHashData\<close>\<close>
  tCur :: cursor                  \<comment> \<open>\<open>lastCallinfoCursor\<close>\<close>

definition addSlots :: "int \<Rightarrow> tracest \<Rightarrow> tracest" where
  "addSlots n t = t\<lparr>tUsage := (tUsage t)\<lparr>stackSlotsProcessed := stackSlotsProcessed (tUsage t) + n\<rparr>\<rparr>"

subsection \<open>The two passes over a stacklet\<close>

fun upLoop ::
    "nat \<Rightarrow> senv \<Rightarrow> memory \<Rightarrow> addr \<Rightarrow> addr \<Rightarrow> val \<Rightarrow> pset \<Rightarrow> tracest \<Rightarrow> (addr \<times> pset \<times> tracest) result" where
  "upLoop 0 e m tp curSP curRA cs t = Inl OutOfFuel"
| "upLoop (Suc n) e m tp curSP curRA cs t =
     (if curSP < tp then
        bindE (LookupCallinfo e curRA (tHash t)) (\<lambda>(ci, h).
        let c = getCursor m ci (tCur t) in
        bindE (SetPush cs ci) (\<lambda>cs.
        upLoop n e m tp (curSP + 4 * cFrameSize c) (m (nat (int curSP + 4 * cRAQuadOffset c))) cs
          (t\<lparr>tHash := h, tCur := c\<rparr>)))
      else Inr (curSP, cs, t))"

definition uptrace_stacklet :: "senv \<Rightarrow> memory \<Rightarrow> nat \<Rightarrow> stacklet \<Rightarrow> tracest \<Rightarrow> (stacklet \<times> tracest) result" where
  "uptrace_stacklet e m off x t =
     (let curSP = replicaCursor x + 4 * (off div 4);
          tp = baseTop x + 4 * (off div 4)
      in bindE (assertE (SetIsEmpty (callinfoStack x)) ''SetIsEmpty(callinfoStack)'') (\<lambda>_.
         bindE (upLoop ((tp - curSP) div 4 + 1) e m tp curSP (word_of_nat (replicaRetadd x)) (callinfoStack x) t)
           (\<lambda>(sp, cs, t).
         bindE (assertE (sp = tp) ''curSP == top'') (\<lambda>_.
         Inr (x\<lparr>callinfoStack := cs\<rparr>, addSlots (int (SetLength cs) * 4) t)))))"

fun regJ :: "(32 word \<times> cursor \<Rightarrow> nat \<Rightarrow> (32 word \<times> cursor) result) \<Rightarrow> 32 word \<Rightarrow> nat \<Rightarrow> nat \<Rightarrow>
    32 word \<times> cursor \<Rightarrow> (32 word \<times> cursor) result" where
  "regJ f special 0 pos s = Inr s"
| "regJ f special (Suc n) pos s =
     bindE (if bit special pos then f s pos else Inr s) (regJ f special n (pos + 1))"

fun regI :: "(32 word \<times> cursor \<Rightarrow> nat \<Rightarrow> (32 word \<times> cursor) result) \<Rightarrow> 32 word \<Rightarrow> nat \<Rightarrow> nat \<Rightarrow>
    32 word \<times> cursor \<Rightarrow> (32 word \<times> cursor) result" where
  "regI f special 0 i s = Inr s"
| "regI f special (Suc n) i s =
     (if drop_bit (4 * i) special AND 0xf = 0 then regI f special n (i + 1) s
      else bindE (regJ f special 4 (4 * i) s) (regI f special n (i + 1)))"

definition traceReg :: "senv \<Rightarrow> memory \<Rightarrow> addr \<Rightarrow> 32 word \<times> cursor \<Rightarrow> nat \<Rightarrow> (32 word \<times> cursor) result" where
  "traceReg e m cur_sp s pos =
     bindE (should_trace_special e m (snd s) cur_sp) (\<lambda>(b, c).
     Inr (if b then set_bit pos (fst s) else fst s, c))"

definition regState :: "senv \<Rightarrow> memory \<Rightarrow> addr \<Rightarrow> 32 word \<Rightarrow> cursor \<Rightarrow> (32 word \<times> cursor) result" where
  \<comment> \<open>the block \<open>Compute the state of the registers\<close>\<close>
  "regState e m cur_sp regstate c =
     (let temp = cYesBits c OR (cCalleeMask c AND regstate) in
      if cSpecialBits c \<noteq> 0 then regI (traceReg e m cur_sp) (cSpecialBits c) 8 0 (temp, c) else Inr (temp, c))"

fun downLoop ::
    "nat \<Rightarrow> senv \<Rightarrow> memory \<Rightarrow> addr \<Rightarrow> 32 word \<Rightarrow> pset \<Rightarrow> tracest \<Rightarrow> (32 word \<times> pset \<times> tracest) result" where
  "downLoop 0 e m cur_sp regstate cs t = (if SetIsEmpty cs then Inr (regstate, cs, t) else Inl OutOfFuel)"
| "downLoop (Suc n) e m cur_sp regstate cs t =
     (if SetIsEmpty cs then Inr (regstate, cs, t)
      else case SetPop cs of (ci, cs) \<Rightarrow>
        let c = getCursor m ci (tCur t); cur_sp = cur_sp - 4 * cFrameSize c; t = addSlots (int (cFrameSize c)) t in
        bindE (scanSlots e m cur_sp regstate (c, tRoots t)) (\<lambda>(c, r).
        bindE (regState e m cur_sp regstate c) (\<lambda>(regstate, c).
        downLoop n e m cur_sp regstate cs (t\<lparr>tRoots := r, tCur := c\<rparr>))))"

definition downtrace_stacklet ::
    "senv \<Rightarrow> memory \<Rightarrow> nat \<Rightarrow> stacklet \<Rightarrow> tracest \<Rightarrow> (32 word \<times> stacklet \<times> tracest) result" where
  "downtrace_stacklet e m off x t =
     bindE (downLoop (SetLength (callinfoStack x)) e m (baseTop x + 4 * (off div 4)) 0 (callinfoStack x) t)
       (\<lambda>(regstate, cs, t). Inr (regstate, x\<lparr>callinfoStack := cs\<rparr>, t))"

subsection \<open>What the frames of a stack are\<close>

fun frames :: "senv \<Rightarrow> memory \<Rightarrow> addr \<Rightarrow> val \<Rightarrow> (addr \<times> addr) list \<Rightarrow> addr \<Rightarrow> bool" where
  \<comment> \<open>from the stack pointer and return address of the newest frame up to the top: the entry of the
      return address and the address of each frame\<close>
  "frames e m sp ra [] tp \<longleftrightarrow> sp = tp"
| "frames e m sp ra ((ci, sp') # fs) tp \<longleftrightarrow>
     sp' = sp \<and> sp < tp \<and> ra + 8 \<noteq> 0 \<and> ra + 8 \<noteq> UNINIT_KEY \<and> hmap (callTable e) (ra + 8) = Some ci \<and>
     entry_wf m ci \<and> 0 < GET_FRAMESIZE (ci_size0 m ci) \<and>
     frames e m (sp + 4 * GET_FRAMESIZE (ci_size0 m ci)) (m (sp + 4 * GET_QUAD_RA_OFFSET (ci_size1 m ci))) fs tp"

definition freshCursor :: "memory \<Rightarrow> addr \<Rightarrow> cursor" where
  "freshCursor m ci = getCursor m ci cursor0"

definition refFrame ::
    "senv \<Rightarrow> memory \<Rightarrow> addr \<times> addr \<Rightarrow> 32 word \<times> pset \<Rightarrow> (32 word \<times> pset) result" where
  \<comment> \<open>one frame: all slots in order, then the registers in order\<close>
  "refFrame e m fr s = (case fr of (ci, sp) \<Rightarrow> case s of (reg, r) \<Rightarrow>
     bindE (foldE (visitSlot e m sp reg) (frameSlots m ci) (freshCursor m ci, r)) (\<lambda>(c, r).
     bindE (foldE (\<lambda>pos s. traceReg e m sp s pos) (filter (bit (NOT (regtrace_a m ci) AND regtrace_b m ci)) [0..<32])
       ((regtrace_a m ci AND NOT (regtrace_b m ci)) OR (regtrace_a m ci AND regtrace_b m ci AND reg), c)) (\<lambda>(reg, c).
     Inr (reg, r))))"

definition refFrames :: "senv \<Rightarrow> memory \<Rightarrow> (addr \<times> addr) list \<Rightarrow> pset \<Rightarrow> (32 word \<times> pset) result" where
  \<comment> \<open>oldest frame first; no register holds a pointer at the top\<close>
  "refFrames e m fs r = foldE (refFrame e m) (rev fs) (0, r)"

subsection \<open>Caches do not matter\<close>

definition withSlots :: "int \<Rightarrow> (nat \<times> nat) list \<Rightarrow> cursor \<Rightarrow> cursor" where
  "withSlots k l c = c\<lparr>cSlotCount := k, cSlots := l\<rparr>"

definition mapE :: "('a \<Rightarrow> 'b) \<Rightarrow> 'a result \<Rightarrow> 'b result" where
  "mapE f r = bindE r (\<lambda>x. Inr (f x))"

lemma mapE_simps [simp]: "mapE f (Inl x) = Inl x" "mapE f (Inr y) = Inr (f y)"
  by (simp_all add: mapE_def)

lemma mapE_bindE: "mapE f (bindE r g) = bindE r (\<lambda>x. mapE f (g x))"
  by (cases r) simp_all

lemma bindE_mapE: "bindE (mapE f r) g = bindE r (\<lambda>x. g (f x))"
  by (cases r) simp_all

lemma withSlots_sel [simp]:
  "cCallinfo (withSlots k l c) = cCallinfo c" "cEntrySize (withSlots k l c) = cEntrySize c"
  "cFrameSize (withSlots k l c) = cFrameSize c" "cRAQuadOffset (withSlots k l c) = cRAQuadOffset c"
  "cByteOffset (withSlots k l c) = cByteOffset c" "cWordOffset (withSlots k l c) = cWordOffset c"
  "cYesBits (withSlots k l c) = cYesBits c" "cCalleeMask (withSlots k l c) = cCalleeMask c"
  "cSpecialBits (withSlots k l c) = cSpecialBits c" "cByteData (withSlots k l c) = cByteData c"
  "cWordData (withSlots k l c) = cWordData c"
  by (simp_all add: withSlots_def)

lemma lookups_withSlots:
  "LookupSpecialByte m (withSlots k l c) = (case LookupSpecialByte m c of (b, c) \<Rightarrow> (b, withSlots k l c))"
  "LookupSpecialWord m (withSlots k l c) = (case LookupSpecialWord m c of (w, c) \<Rightarrow> (w, withSlots k l c))"
  "LookupSpecialWordPair m (withSlots k l c) = (case LookupSpecialWordPair m c of (w, c) \<Rightarrow> (w, withSlots k l c))"
  by (simp_all add: LookupSpecialByte_def LookupSpecialWord_def LookupSpecialWordPair_def withSlots_def)

lemma PathProject_withSlots:
  "PathProject n m (withSlots k l c) base ix = mapE (\<lambda>(r, c). (r, withSlots k l c)) (PathProject n m c base ix)"
  by (induction n arbitrary: c base ix) (simp_all add: lookups_withSlots split: prod.split)

lemma should_trace_special_withSlots:
  "should_trace_special e m (withSlots k l c) sp = mapE (\<lambda>(b, c). (b, withSlots k l c)) (should_trace_special e m c sp)"
proof -
  obtain w1 w2 c' where "LookupSpecialWordPair m c = ((w1, w2), c')" by (metis surj_pair)
  then show ?thesis
    unfolding should_trace_special_def lookups_withSlots prod.case
    by (simp add: Let_def PathProject_withSlots mapE_bindE bindE_mapE split_beta del: PathProject.simps cong: bindE_cong)
qed

lemma should_trace_withSlots:
  "should_trace e m tr (withSlots k l c) sp reg = mapE (\<lambda>(b, c). (b, withSlots k l c)) (should_trace e m tr c sp reg)"
proof -
  obtain b c' where "LookupSpecialByte m c = (b, c')" by fastforce
  then show ?thesis
    by (simp add: should_trace_def lookups_withSlots should_trace_special_withSlots)
qed

lemma visitSlot_withSlots:
  "visitSlot e m sp reg st (withSlots k l c, r) = mapE (\<lambda>(c, r). (withSlots k l c, r)) (visitSlot e m sp reg st (c, r))"
  by (auto simp: visitSlot_def should_trace_withSlots bindE_mapE mapE_bindE split_beta Let_def intro!: bindE_cong)

lemma foldE_visit_withSlots:
  "foldE (visitSlot e m sp reg) xs (withSlots k l c, r) =
   mapE (\<lambda>(c, r). (withSlots k l c, r)) (foldE (visitSlot e m sp reg) xs (c, r))"
proof (induction xs arbitrary: c r)
  case (Cons x xs)
  then show ?case
    by (simp add: visitSlot_withSlots bindE_mapE mapE_bindE split_beta cong: bindE_cong)
qed simp

lemma traceReg_withSlots:
  "traceReg e m sp (w, withSlots k l c) pos = mapE (\<lambda>(w, c). (w, withSlots k l c)) (traceReg e m sp (w, c) pos)"
  by (cases "should_trace_special e m c sp") (auto simp: traceReg_def should_trace_special_withSlots)

lemma foldE_traceReg_withSlots:
  "foldE (\<lambda>pos s. traceReg e m sp s pos) xs (w, withSlots k l c) =
   mapE (\<lambda>(w, c). (w, withSlots k l c)) (foldE (\<lambda>pos s. traceReg e m sp s pos) xs (w, c))"
proof (induction xs arbitrary: c w)
  case (Cons x xs)
  then show ?case
    by (simp add: traceReg_withSlots bindE_mapE mapE_bindE split_beta cong: bindE_cong)
qed simp

lemma regJ_foldE: "regJ f sp n pos s = foldE (\<lambda>p s. f s p) (filter (bit sp) [pos..<pos + n]) s"
proof (induction n arbitrary: pos s)
  case (Suc n)
  have "[pos..<pos + Suc n] = pos # [pos + 1..<pos + 1 + n]" by (simp add: upt_conv_Cons)
  then show ?case by (simp add: Suc.IH del: upt_Suc cong: bindE_cong)
qed simp

lemma zero_nibble:
  fixes w :: "32 word"
  assumes "drop_bit (4 * i) w AND 0xf = 0" and "p < 4" shows "\<not> bit w (4 * i + p)"
proof -
  have "bit (drop_bit (4 * i) w AND mask 4) p = bit w (4 * i + p)" using assms(2) by (simp add: bit_simps)
  moreover have "(mask 4 :: 32 word) = 0xf" by (simp add: mask_eq_decr_exp)
  ultimately show ?thesis using assms(1) by simp
qed

lemma regI_foldE: "regI f w n i s = foldE (\<lambda>p s. f s p) (filter (bit w) [4 * i..<4 * (i + n)]) s"
proof (induction n arbitrary: i s)
  case (Suc n)
  have sp: "[4 * i..<4 * (i + Suc n)] = [4 * i..<4 * i + 4] @ [4 * (i + 1)..<4 * (i + 1 + n)]"
    using upt_add_eq_append [of "4 * i" "4 * i + 4" "4 * n"] by (simp add: algebra_simps)
  have none: "filter (bit w) [4 * i..<4 * i + 4] = []" if z: "drop_bit (4 * i) w AND 0xf = 0"
  proof -
    have "\<not> bit w q" if "4 * i \<le> q" "q < 4 * i + 4" for q
      using zero_nibble [OF z, of "q - 4 * i"] that by simp
    then show ?thesis by (simp add: filter_empty_conv del: upt_Suc)
  qed
  show ?case
    unfolding sp filter_append foldE_append
    using none by (simp add: Suc.IH regJ_foldE del: upt_Suc cong: bindE_cong)
qed simp

lemma regState_foldE:
  "regState e m sp reg c = foldE (\<lambda>pos s. traceReg e m sp s pos) (filter (bit (cSpecialBits c)) [0..<32])
     (cYesBits c OR (cCalleeMask c AND reg), c)"
  by (simp add: regState_def Let_def regI_foldE)

subsection \<open>The scan of a stacklet\<close>

definition cache_ok :: "senv \<Rightarrow> val \<times> addr \<Rightarrow> bool" where
  \<comment> \<open>the last lookup of the processor, key 0 before the first\<close>
  "cache_ok e h \<longleftrightarrow> fst h = 0 \<or> hmap (callTable e) (fst h) = Some (snd h)"

definition table_ok :: "senv \<Rightarrow> bool" where
  "table_ok e \<longleftrightarrow> hash_ok (callTable e) \<and> 0 < free_slots (callTable e)"

definition trace_ok :: "senv \<Rightarrow> memory \<Rightarrow> tracest \<Rightarrow> bool" where
  "trace_ok e m t \<longleftrightarrow> table_ok e \<and> cache_ok e (tHash t) \<and> cursor_ok m (tCur t) \<and>
     cCallinfo (tCur t) \<in> insert 0 (ran (hmap (callTable e)))"

lemma lookupLoop_key: "lookupLoop n h key False cur = Inr (Some i) \<Longrightarrow> fst (htable h ! i) = key"
  by (induction n h key False cur rule: lookupLoop.induct) (auto simp: Let_def split: if_splits)

lemma LookupCallinfo_ok:
  assumes "table_ok e" and "cache_ok e h" and "ra + 8 \<noteq> 0" "ra + 8 \<noteq> UNINIT_KEY"
    and ci: "hmap (callTable e) (ra + 8) = Some ci"
  shows "\<exists>h'. LookupCallinfo e ra h = Inr (ci, h') \<and> cache_ok e h'"
proof (cases "fst h = ra + 8")
  case True
  then show ?thesis using assms by (auto simp: LookupCallinfo_def cache_ok_def)
next
  case False
  note l = lookup_spec [of "callTable e" "ra + 8"]
  obtain i where i: "HashTableLookup (callTable e) (ra + 8) False = Inr (Some i)" "snd (htable (callTable e) ! i) = ci"
    using l assms(1,4) ci unfolding table_ok_def by (metis (no_types, lifting) map_option_eq_Some)
  have "fst (htable (callTable e) ! i) = ra + 8"
    using i(1) lookupLoop_key unfolding HashTableLookup_def by blast
  then show ?thesis
    using False i ci by (simp add: LookupCallinfo_def cache_ok_def)
qed

lemma frames_bound: "frames e m sp ra fs tp \<Longrightarrow> sp + 4 * length fs \<le> tp"
proof (induction fs arbitrary: sp ra)
  case (Cons f fs)
  then show ?case by (cases f) fastforce
qed simp

lemma frames_snoc:
  assumes "frames e m sp ra (fs @ [(ci, s)]) tp"
  shows "frames e m sp ra fs s" "s + 4 * GET_FRAMESIZE (ci_size0 m ci) = tp" "entry_wf m ci"
proof -
  have "frames e m sp ra fs s \<and> s + 4 * GET_FRAMESIZE (ci_size0 m ci) = tp \<and> entry_wf m ci"
    using assms
  proof (induction fs arbitrary: sp ra)
    case (Cons f fs)
    obtain ci' s' where f: "f = (ci', s')" by (cases f)
    let ?sp = "sp + 4 * GET_FRAMESIZE (ci_size0 m ci')" and ?ra = "m (sp + 4 * GET_QUAD_RA_OFFSET (ci_size1 m ci'))"
    have "frames e m ?sp ?ra (fs @ [(ci, s)]) tp" "0 < GET_FRAMESIZE (ci_size0 m ci')" using Cons.prems by (simp_all add: f)
    with Cons.IH [OF this(1)] have "frames e m ?sp ?ra fs s" "s + 4 * GET_FRAMESIZE (ci_size0 m ci) = tp" "entry_wf m ci" by auto
    moreover from frames_bound [OF this(1)] have "sp < s" using \<open>0 < GET_FRAMESIZE (ci_size0 m ci')\<close> by simp
    ultimately show ?case using Cons.prems by (simp add: f)
  qed auto
  then show "frames e m sp ra fs s" "s + 4 * GET_FRAMESIZE (ci_size0 m ci) = tp" "entry_wf m ci" by auto
qed

lemma frames_known: "frames e m sp ra fs tp \<Longrightarrow> x \<in> set fs \<Longrightarrow> fst x \<in> ran (hmap (callTable e))"
  by (induction fs arbitrary: sp ra) (auto intro: ranI)

lemma upLoop_frames:
  assumes "frames e m sp ra fs tp" and "trace_ok e m t" and "set_ok cs" and "length fs < n"
  shows "\<exists>cs' t'. upLoop n e m tp sp ra cs t = Inr (tp, cs', t') \<and> set_ok cs' \<and>
    set_items cs' = set_items cs @ map fst fs \<and> trace_ok e m t' \<and> tRoots t' = tRoots t \<and> tUsage t' = tUsage t"
  using assms
proof (induction fs arbitrary: sp ra n cs t)
  case Nil
  then show ?case by (cases n) simp_all
next
  case (Cons f fs)
  obtain ci s' where f: "f = (ci, s')" by (cases f)
  obtain n' where n: "n = Suc n'" using Cons.prems(4) by (cases n) auto
  have F: "sp < tp" "ra + 8 \<noteq> 0" "ra + 8 \<noteq> UNINIT_KEY" "hmap (callTable e) (ra + 8) = Some ci" "entry_wf m ci"
    "frames e m (sp + 4 * GET_FRAMESIZE (ci_size0 m ci)) (m (sp + 4 * GET_QUAD_RA_OFFSET (ci_size1 m ci))) fs tp"
    using Cons.prems(1) by (auto simp: f)
  have T: "table_ok e" "cache_ok e (tHash t)" "cursor_ok m (tCur t)" using Cons.prems(2) by (auto simp: trace_ok_def)
  obtain h where h: "LookupCallinfo e ra (tHash t) = Inr (ci, h)" "cache_ok e h"
    using LookupCallinfo_ok [OF T(1,2) F(2,3,4)] by blast
  let ?c = "getCursor m ci (tCur t)"
  note g = getCursor_ok [OF F(5) T(3)]
  have c: "cFrameSize ?c = GET_FRAMESIZE (ci_size0 m ci)" "cRAQuadOffset ?c = int (GET_QUAD_RA_OFFSET (ci_size1 m ci))"
    using g(1,2) F(5) by (simp_all add: cursor_ok_def Let_def entry_wf_def)
  obtain cs1 where cs1: "SetPush cs ci = Inr cs1" "set_ok cs1" "set_items cs1 = set_items cs @ [ci]"
    using SetPush_ok [OF Cons.prems(3)] by blast
  have ra: "m (nat (int sp + 4 * cRAQuadOffset ?c)) = m (sp + 4 * GET_QUAD_RA_OFFSET (ci_size1 m ci))"
  proof -
    have "int sp + 4 * cRAQuadOffset ?c = int (sp + 4 * GET_QUAD_RA_OFFSET (ci_size1 m ci))" by (simp add: c)
    then show ?thesis by (simp only: nat_int)
  qed
  have t1: "trace_ok e m (t\<lparr>tHash := h, tCur := ?c\<rparr>)"
    using T(1) h(2) g(1,2) F(4) by (auto simp: trace_ok_def intro: ranI)
  from Cons.IH [OF F(6) t1 cs1(2), of n'] Cons.prems(4) obtain cs' t' where
    "upLoop n' e m tp (sp + 4 * GET_FRAMESIZE (ci_size0 m ci)) (m (sp + 4 * GET_QUAD_RA_OFFSET (ci_size1 m ci))) cs1
       (t\<lparr>tHash := h, tCur := ?c\<rparr>) = Inr (tp, cs', t')" "set_ok cs'" "set_items cs' = set_items cs1 @ map fst fs"
    "trace_ok e m t'" "tRoots t' = tRoots t" "tUsage t' = tUsage t"
    by (auto simp: n)
  then show ?case
    using h(1) cs1 F(1) ra c(1) by (simp add: n f Let_def)
qed

lemma cursors_equal:
  assumes "cursor_ok m c" "cursor_ok m d" "cCallinfo c = cCallinfo d" "cCallinfo c \<noteq> 0"
    "cByteOffset c = cByteOffset d" "cWordOffset c = cWordOffset d"
  shows "c = withSlots (cSlotCount c) (cSlots c) d"
  using assms by (simp add: cursor_ok_def Let_def withSlots_def)

definition sameEntry :: "cursor \<Rightarrow> cursor \<Rightarrow> bool" where
  \<comment> \<open>the cursors differ at most in the offsets into the byte and word sections\<close>
  "sameEntry c c' \<longleftrightarrow> c' = c\<lparr>cByteOffset := cByteOffset c', cWordOffset := cWordOffset c'\<rparr>"

lemma sameEntry_refl [simp]: "sameEntry c c"
  by (simp add: sameEntry_def)

lemma sameEntry_iff:
  "sameEntry c c' \<longleftrightarrow> cCallinfo c' = cCallinfo c \<and> cEntrySize c' = cEntrySize c \<and> cFrameSize c' = cFrameSize c \<and>
     cRAQuadOffset c' = cRAQuadOffset c \<and> cYesBits c' = cYesBits c \<and> cCalleeMask c' = cCalleeMask c \<and>
     cSpecialBits c' = cSpecialBits c \<and> cByteData c' = cByteData c \<and> cWordData c' = cWordData c \<and>
     cSlotCount c' = cSlotCount c \<and> cSlots c' = cSlots c"
  by (cases c; cases c') (auto simp: sameEntry_def)

lemma sameEntry_trans: "sameEntry a b \<Longrightarrow> sameEntry b c \<Longrightarrow> sameEntry a c"
  by (simp add: sameEntry_iff)

lemma cursor_ok_same: "sameEntry c c' \<Longrightarrow> cursor_ok m c \<Longrightarrow> cursor_ok m c'"
  by (simp add: sameEntry_iff cursor_ok_def Let_def)

lemma lookups_same:
  "LookupSpecialByte m c = (b, c') \<Longrightarrow> sameEntry c c'"
  "LookupSpecialWord m c = (w, c') \<Longrightarrow> sameEntry c c'"
  "LookupSpecialWordPair m c = (p, c') \<Longrightarrow> sameEntry c c'"
  by (auto simp: LookupSpecialByte_def LookupSpecialWord_def LookupSpecialWordPair_def sameEntry_iff)

lemma PathProject_same: "PathProject n m c base ix = Inr (r, c') \<Longrightarrow> sameEntry c c'"
proof (induction n arbitrary: c base ix)
  case (Suc n)
  then show ?case
    by (auto split: prod.splits if_splits dest!: lookups_same(2) intro: sameEntry_trans)
qed simp

lemma should_trace_special_same: "should_trace_special e m c sp = Inr (b, c') \<Longrightarrow> sameEntry c c'"
  unfolding should_trace_special_def
  by (auto simp: Let_def split: prod.splits dest!: lookups_same(3) PathProject_same intro: sameEntry_trans simp del: PathProject.simps)

lemma should_trace_same: "should_trace e m tr c sp reg = Inr (b, c') \<Longrightarrow> sameEntry c c'"
  by (auto simp: should_trace_def split: if_splits prod.splits dest: lookups_same(1) should_trace_special_same)

lemma foldE_visit_same:
  "foldE (visitSlot e m sp reg) xs (c, r) = Inr (c', r') \<Longrightarrow> sameEntry c c'"
proof (induction xs arbitrary: c r)
  case (Cons x xs)
  obtain c1 r1 where v: "visitSlot e m sp reg x (c, r) = Inr (c1, r1)" "foldE (visitSlot e m sp reg) xs (c1, r1) = Inr (c', r')"
    using Cons.prems by auto
  have "sameEntry c c1"
    using v(1) by (auto simp: visitSlot_def Let_def split: if_splits dest: should_trace_same)
  then show ?case using Cons.IH [OF v(2)] sameEntry_trans by blast
qed simp

lemma foldE_traceReg_same:
  "foldE (\<lambda>pos s. traceReg e m sp s pos) xs (w, c) = Inr (w', c') \<Longrightarrow> sameEntry c c'"
proof (induction xs arbitrary: c w)
  case (Cons x xs)
  obtain w1 c1 where v: "traceReg e m sp (w, c) x = Inr (w1, c1)" "foldE (\<lambda>pos s. traceReg e m sp s pos) xs (w1, c1) = Inr (w', c')"
    using Cons.prems by auto
  have "sameEntry c c1"
    using v(1) by (auto simp: traceReg_def dest: should_trace_special_same)
  then show ?case using Cons.IH [OF v(2)] sameEntry_trans by blast
qed simp

definition doFrame :: "senv \<Rightarrow> memory \<Rightarrow> addr \<Rightarrow> 32 word \<Rightarrow> cursor \<Rightarrow> pset \<Rightarrow> (32 word \<times> cursor \<times> pset) result" where
  \<comment> \<open>one round of \<open>downLoop\<close>\<close>
  "doFrame e m sp reg c r = bindE (scanSlots e m sp reg (c, r)) (\<lambda>(c, r).
     bindE (regState e m sp reg c) (\<lambda>(reg, c). Inr (reg, c, r)))"

lemma downLoop_doFrame:
  "\<not> SetIsEmpty cs \<Longrightarrow> SetPop cs = (ci, cs') \<Longrightarrow> downLoop (Suc n) e m sp reg cs t =
     (let c = getCursor m ci (tCur t); sp = sp - 4 * cFrameSize c; t = addSlots (int (cFrameSize c)) t in
      bindE (doFrame e m sp reg c (tRoots t)) (\<lambda>(reg, c, r). downLoop n e m sp reg cs' (t\<lparr>tRoots := r, tCur := c\<rparr>)))"
  by (simp add: doFrame_def Let_def bindE_assoc split_beta cong: bindE_cong)

lemma doFrame_ref:
  assumes wf: "entry_wf m ci" and ok: "cursor_ok m cur"
  shows "mapE (\<lambda>(reg, c, r). (reg, r)) (doFrame e m sp reg (getCursor m ci cur) r) = refFrame e m (ci, sp) (reg, r)"
    "doFrame e m sp reg (getCursor m ci cur) r = Inr (reg', c', r') \<Longrightarrow> cursor_ok m c' \<and> cCallinfo c' = ci"
proof -
  let ?c = "getCursor m ci cur" and ?d = "freshCursor m ci"
  note g = getCursor_ok [OF wf ok]
  note f = getCursor_ok [OF wf cursor0_ok [of m], folded freshCursor_def]
  have ci: "ci \<noteq> 0" using wf by (simp add: entry_wf_def)
  obtain b c1 where cc: "CacheCursor m ?c = (b, c1)" by fastforce
  have c0: "cCallinfo ?c \<noteq> 0" using g(2) ci by simp
  note k = CacheCursor_ok [OF g(1) c0 cc]
  have c1: "c1 = withSlots (cSlotCount c1) (cSlots c1) ?d"
    using cursors_equal [OF k(1) f(1)] k f g ci by simp
  have bits: "cYesBits ?d = (regtrace_a m ci AND NOT (regtrace_b m ci))" "cCalleeMask ?d = (regtrace_a m ci AND regtrace_b m ci)"
    "cSpecialBits ?d = (NOT (regtrace_a m ci) AND regtrace_b m ci)"
    using f(1,2) ci by (simp_all add: cursor_ok_def Let_def)
  have sl: "scanSlots e m sp reg (?c, r) =
      mapE (\<lambda>(c, r). (withSlots (cSlotCount c1) (cSlots c1) c, r)) (foldE (visitSlot e m sp reg) (frameSlots m ci) (?d, r))"
    using scanSlots_foldE [OF g(1), of e sp reg r] wf g(2) cc c1 foldE_visit_withSlots [of e m sp reg "frameSlots m ci" "cSlotCount c1" "cSlots c1" ?d r]
    by simp
  show "mapE (\<lambda>(reg, c, r). (reg, r)) (doFrame e m sp reg ?c r) = refFrame e m (ci, sp) (reg, r)"
  proof (cases "foldE (visitSlot e m sp reg) (frameSlots m ci) (?d, r)")
    case (Inl x)
    then show ?thesis by (simp add: doFrame_def refFrame_def sl)
  next
    case (Inr p)
    obtain c2 r2 where p: "p = (c2, r2)" by (cases p)
    have same: "sameEntry ?d c2" using foldE_visit_same Inr p by blast
    let ?k = "withSlots (cSlotCount c1) (cSlots c1)"
    define R where "R = foldE (\<lambda>pos s. traceReg e m sp s pos) (filter (bit (NOT (regtrace_a m ci) AND regtrace_b m ci)) [0..<32])
       ((regtrace_a m ci AND NOT (regtrace_b m ci)) OR (regtrace_a m ci AND regtrace_b m ci AND reg), c2)"
    have "regState e m sp reg (?k c2) = mapE (\<lambda>(w, c). (w, ?k c)) R"
      using same bits by (simp add: regState_foldE foldE_traceReg_withSlots R_def sameEntry_iff word_bw_assocs)
    moreover have "refFrame e m (ci, sp) (reg, r) = bindE R (\<lambda>(reg, c). Inr (reg, r2))"
      using Inr by (simp add: p refFrame_def R_def word_bw_assocs)
    ultimately show ?thesis
      using Inr by (cases R) (auto simp: p doFrame_def sl)
  qed
  assume d: "doFrame e m sp reg ?c r = Inr (reg', c', r')"
  obtain c2 where c2: "scanSlots e m sp reg (?c, r) = Inr (c2, r')" "regState e m sp reg c2 = Inr (reg', c')"
    using d by (auto simp: doFrame_def)
  have "foldE (visitSlot e m sp reg) (frameSlots m ci) (c1, r) = Inr (c2, r')"
    using scanSlots_foldE [OF g(1), of e sp reg r] wf g(2) cc c2(1) by simp
  then have "sameEntry c1 c2" by (rule foldE_visit_same)
  moreover have "sameEntry c2 c'" using c2(2) foldE_traceReg_same by (simp add: regState_foldE)
  moreover have "cCallinfo c1 = ci" using k f g c1 by (metis withSlots_sel(1))
  ultimately show "cursor_ok m c' \<and> cCallinfo c' = ci" using k(1) cursor_ok_same by (metis sameEntry_iff)
qed

lemma set_items_empty: "set_ok cs \<Longrightarrow> SetIsEmpty cs \<longleftrightarrow> set_items cs = []"
  by (rule SetIsEmpty_items)

lemma addSlots_sel [simp]: "tRoots (addSlots n t) = tRoots t" "tHash (addSlots n t) = tHash t" "tCur (addSlots n t) = tCur t"
  by (simp_all add: addSlots_def)

lemma downLoop_frames:
  assumes "frames e m sp ra fs tp" and "trace_ok e m t" and "set_ok cs" and "set_items cs = map fst fs" and "length fs \<le> n"
  shows "mapE (\<lambda>(reg, cs, t). (reg, tRoots t)) (downLoop n e m tp reg cs t) = foldE (refFrame e m) (rev fs) (reg, tRoots t) \<and>
    (\<forall>reg' cs' t'. downLoop n e m tp reg cs t = Inr (reg', cs', t') \<longrightarrow> set_ok cs' \<and> set_items cs' = [] \<and> trace_ok e m t')"
  using assms
proof (induction fs arbitrary: tp reg n cs t rule: rev_induct)
  case Nil
  then show ?case by (cases n) (simp_all add: set_items_empty)
next
  case (snoc f fs)
  obtain ci s where f: "f = (ci, s)" by (cases f)
  obtain n' where n: "n = Suc n'" using snoc.prems(5) by (cases n) auto
  note fr = frames_snoc [OF snoc.prems(1) [unfolded f]]
  have ne: "\<not> SetIsEmpty cs" using snoc.prems(3,4) by (simp add: set_items_empty f)
  obtain cs1 where cs1: "SetPop cs = (ci, cs1)" "set_ok cs1" "set_items cs1 = map fst fs"
    using SetPop_items [OF snoc.prems(3)] snoc.prems(4) by (auto simp: f)
  have T: "table_ok e" "cache_ok e (tHash t)" "cursor_ok m (tCur t)" using snoc.prems(2) by (auto simp: trace_ok_def)
  let ?c = "getCursor m ci (tCur t)"
  note g = getCursor_ok [OF fr(3) T(3)]
  have fs: "cFrameSize ?c = GET_FRAMESIZE (ci_size0 m ci)" using g(1,2) fr(3) by (simp add: cursor_ok_def Let_def entry_wf_def)
  have sp: "tp - 4 * cFrameSize ?c = s" using fr(2) fs by simp
  have run: "downLoop n e m tp reg cs t = bindE (doFrame e m s reg ?c (tRoots t)) (\<lambda>(reg, c, r).
      downLoop n' e m s reg cs1 ((addSlots (int (cFrameSize ?c)) t)\<lparr>tRoots := r, tCur := c\<rparr>))"
    using downLoop_doFrame [OF ne cs1(1), of n' e m tp reg t] by (simp add: n sp Let_def)
  note dr = doFrame_ref [OF fr(3) T(3), of e s reg "tRoots t"]
  show ?case
  proof (cases "doFrame e m s reg ?c (tRoots t)")
    case (Inl x)
    then have "refFrame e m (ci, s) (reg, tRoots t) = Inl x" using dr(1) by simp
    then show ?thesis unfolding run Inl by (simp add: f)
  next
    case (Inr q)
    obtain reg1 c1 r1 where q: "q = (reg1, c1, r1)" by (cases q)
    have rf: "refFrame e m (ci, s) (reg, tRoots t) = Inr (reg1, r1)" using dr(1) Inr q by simp
    let ?t = "(addSlots (int (cFrameSize ?c)) t)\<lparr>tRoots := r1, tCur := c1\<rparr>"
    have "trace_ok e m ?t" using dr(2) Inr q T frames_known [OF snoc.prems(1), of f] by (auto simp: trace_ok_def f)
    from snoc.IH [OF fr(1) this cs1(2,3), of n' reg1] snoc.prems(5)
    show ?thesis unfolding run Inr q using rf by (simp add: f n del: downLoop.simps)
  qed
qed

lemma SetLength_items: "set_ok s \<Longrightarrow> SetLength s = length (set_items s)"
  by (simp add: length_set_items)

lemma uptrace_ok:
  assumes fr: "frames e m (replicaCursor x + 4 * (off div 4)) (word_of_nat (replicaRetadd x)) fs (baseTop x + 4 * (off div 4))"
    and t: "trace_ok e m t" and cs: "set_ok (callinfoStack x)" "set_items (callinfoStack x) = []"
  shows "\<exists>cs' t'. uptrace_stacklet e m off x t = Inr (x\<lparr>callinfoStack := cs'\<rparr>, t') \<and> set_ok cs' \<and>
    set_items cs' = map fst fs \<and> trace_ok e m t' \<and> tRoots t' = tRoots t"
proof -
  let ?sp = "replicaCursor x + 4 * (off div 4)" and ?tp = "baseTop x + 4 * (off div 4)"
  have "length fs < (?tp - ?sp) div 4 + 1" using frames_bound [OF fr] by linarith
  from upLoop_frames [OF fr t cs(1) this] obtain cs' t' where
    "upLoop ((?tp - ?sp) div 4 + 1) e m ?tp ?sp (word_of_nat (replicaRetadd x)) (callinfoStack x) t = Inr (?tp, cs', t')"
    "set_ok cs'" "set_items cs' = map fst fs" "trace_ok e m t'" "tRoots t' = tRoots t"
    using cs(2) by auto
  then show ?thesis
    using cs set_items_empty [OF cs(1)]
    by (intro exI [of _ cs'] exI [of _ "addSlots (int (SetLength cs') * 4) t'"])
      (simp add: uptrace_stacklet_def Let_def trace_ok_def del: upLoop.simps)
qed

lemma downtrace_ok:
  assumes fr: "frames e m sp ra fs (baseTop x + 4 * (off div 4))"
    and t: "trace_ok e m t" and cs: "set_ok (callinfoStack x)" "set_items (callinfoStack x) = map fst fs"
  shows "mapE (\<lambda>(reg, x, t). (reg, tRoots t)) (downtrace_stacklet e m off x t) = refFrames e m fs (tRoots t)"
    "downtrace_stacklet e m off x t = Inr (reg, x', t') \<Longrightarrow> \<exists>cs'. x' = x\<lparr>callinfoStack := cs'\<rparr> \<and>
       set_ok cs' \<and> set_items cs' = [] \<and> trace_ok e m t'"
proof -
  have n: "length fs \<le> SetLength (callinfoStack x)" using cs by (simp add: SetLength_items)
  note d = downLoop_frames [OF fr t cs n, of 0]
  show "mapE (\<lambda>(reg, x, t). (reg, tRoots t)) (downtrace_stacklet e m off x t) = refFrames e m fs (tRoots t)"
    using conjunct1 [OF d]
    by (simp add: downtrace_stacklet_def refFrames_def mapE_bindE split_beta) (simp add: mapE_def split_beta)
  show "downtrace_stacklet e m off x t = Inr (reg, x', t') \<Longrightarrow> \<exists>cs'. x' = x\<lparr>callinfoStack := cs'\<rparr> \<and>
       set_ok cs' \<and> set_items cs' = [] \<and> trace_ok e m t'"
    using conjunct2 [OF d] by (auto simp: downtrace_stacklet_def)
qed

text \<open>C16: Scanning a stacklet finds exactly its roots: for any stack of frames linked by return addresses
  that the tables know, \<open>uptrace_stacklet\<close> records every frame and \<open>downtrace_stacklet\<close> then visits
  the same frames at the same addresses, oldest first, and pushes exactly the slots that the tables
  mark (directly, by the state of a callee-save register, or by the type found along a path), whatever
  the caches hold; the register state it returns is that of the newest frame.\<close>

theorem stacklet_scan_exact:
  assumes "frames e m (replicaCursor x + 4 * (off div 4)) (word_of_nat (replicaRetadd x)) fs (baseTop x + 4 * (off div 4))"
    and "trace_ok e m t" and "set_ok (callinfoStack x)" and "set_items (callinfoStack x) = []"
  shows "\<exists>x' t'. uptrace_stacklet e m off x t = Inr (x', t') \<and> SetLength (callinfoStack x') = length fs \<and>
    mapE (\<lambda>(reg, x, t). (reg, tRoots t)) (downtrace_stacklet e m off x' t') = refFrames e m fs (tRoots t)"
proof -
  obtain cs' t' where u: "uptrace_stacklet e m off x t = Inr (x\<lparr>callinfoStack := cs'\<rparr>, t')" "set_ok cs'"
    "set_items cs' = map fst fs" "trace_ok e m t'" "tRoots t' = tRoots t"
    using uptrace_ok [OF assms] by blast
  have "frames e m (replicaCursor x + 4 * (off div 4)) (word_of_nat (replicaRetadd x)) fs
      (baseTop (x\<lparr>callinfoStack := cs'\<rparr>) + 4 * (off div 4))" using assms(1) by simp
  from downtrace_ok(1) [OF this u(4)] u show ?thesis by (simp add: SetLength_items)
qed

definition demo_hash :: hashTable where
  "demo_hash = (case HashTableInsert (CreateHashTable 4) (500, 1000) of Inr h \<Rightarrow> h | Inl _ \<Rightarrow> CreateHashTable 4)"

lemma demo_hash_ok: "hash_ok demo_hash \<and> hmap demo_hash = [500 \<mapsto> 1000] \<and> 0 < free_slots demo_hash"
proof -
  have c: "hash_ok (CreateHashTable 4)" "hmap (CreateHashTable 4) = Map.empty" "4 < free_slots (CreateHashTable 4)"
    using CreateHashTable_ok [of 4] by simp_all
  have "(500 :: val) \<noteq> UNINIT_KEY" by (simp add: UNINIT_KEY_def)
  with insert_spec [OF c(1) _ this, of 1000] c(2,3) obtain h' where
    "HashTableInsert (CreateHashTable 4) (500, 1000) = Inr h'" "hash_ok h'" "hmap h' = [500 \<mapsto> 1000]"
    "free_slots (CreateHashTable 4) = Suc (free_slots h')" by auto
  then show ?thesis using c(3) by (simp add: demo_hash_def)
qed

definition demo_tracest :: tracest where
  "demo_tracest = \<lparr>tRoots = SetInit 32, tUsage = resetUsage demo_config, tHash = (0, 0), tCur = cursor0\<rparr>"

definition demo_stacklet :: stacklet where
  "demo_stacklet = initStacklet\<lparr>replicaCursor := 4000, replicaRetadd := 492, baseTop := 4016, callinfoStack := SetInit 32\<rparr>"

theorem stacklet_scan_exact_witness:
  "\<exists>x' t'. uptrace_stacklet (demo_senv\<lparr>callTable := demo_hash\<rparr>) demo_table 0 demo_stacklet demo_tracest = Inr (x', t') \<and>
     SetLength (callinfoStack x') = 1 \<and>
     mapE (\<lambda>(reg, x, t). (reg, tRoots t)) (downtrace_stacklet (demo_senv\<lparr>callTable := demo_hash\<rparr>) demo_table 0 x' t') =
       refFrames (demo_senv\<lparr>callTable := demo_hash\<rparr>) demo_table [(1000, 4000)] (SetInit 32)"
proof -
  let ?e = "demo_senv\<lparr>callTable := demo_hash\<rparr>"
  have fr: "frames ?e demo_table 4000 492 [(1000, 4000)] 4016"
    using demo_table_wf demo_hash_ok by (simp add: demo_table_entry(3,4) UNINIT_KEY_def)
  have t: "trace_ok ?e demo_table demo_tracest"
    using demo_hash_ok cursor0_ok by (simp add: trace_ok_def table_ok_def cache_ok_def demo_tracest_def cursor0_def)
  show ?thesis
    using stacklet_scan_exact [of ?e demo_table demo_stacklet 0 "[(1000, 4000)]" demo_tracest] fr t SetInit_ok [of 32]
    by (simp add: demo_stacklet_def demo_tracest_def)
qed

end
