(* ===== verification/Jobs.thy ===== *)
theory Jobs
  imports Stacklets
begin

text \<open>
  User threads and the job queue: \<open>Runtime/sparc/thread.c\<close> (the parts on jobs, threads and \<open>work\<close>)
  with \<open>struct Thread__t\<close> of \<open>sparc.h\<close> and the functions of \<open>gc.c\<close> that a thread calls when it stops
  or its stack grows.  A \<open>Thread_t*\<close> is an index into the array \<open>Threads\<close>, a \<open>Proc_t*\<close> one into
  \<open>Procs\<close>.  A section between \<open>LocalLock\<close> and \<open>LocalUnlock\<close> is one function here; functions that
  release the lock or run without it are split at the points where other processors may see a
  difference, and the theory \<open>Scheduler\<close> interleaves the pieces.

  The collector hook \<open>GCReleaseFun\<close> is that of the four stop-and-copy collectors, which all do the
  same.  Assembly stubs that switch to ML code are where a processor leaves the model and its thread
  runs.  Timers, statistics and diagnostic output are left out.
\<close>

subsection \<open>State\<close>

datatype request = NoRequest | YieldRequest | StartRequest | GCRequestFromML | GCRequestFromC | MajorGCRequestFromC

definition EXNPTR :: nat where "EXNPTR = 1"
definition THREADPTR :: nat where "THREADPTR = 2"
definition ALLOCPTR :: nat where "ALLOCPTR = 4"
definition ALLOCLIMIT :: nat where "ALLOCLIMIT = 5"
definition RESULT :: nat where "RESULT = 8"
definition SP :: nat where "SP = 14"
definition RA :: nat where "RA = 15"
definition ASMTMP2 :: nat where "ASMTMP2 = 17"

definition StopHeapLimit :: addr where "StopHeapLimit = 1"
definition StartHeapLimit :: addr where "StartHeapLimit = 2"

record thread =
  saveregs :: "val list"
  thProc :: "nat option"
  request :: request
  requestInfo :: int
  writelistAlloc :: addr
  writelistLimit :: addr
  stackLimit :: addr
  stackTop :: addr
  thGlobalOffset :: nat
  thStackletOffset :: nat
  thArrayOffset :: nat
  thunk :: val
  rootVals :: "val list"
  rootLocs :: "addr list"
  thStack :: "nat option"
  tid :: int
  thId :: nat
  thUsed :: bool
  thStatus :: int                 \<comment> \<open>\<open>status\<close>\<close>
  thPinned :: bool
  thParent :: "nat option"

record sproc =
  userThread :: "nat option"
  prAllocStart :: addr
  prAllocCursor :: addr
  prAllocLimit :: addr
  prWritelistStart :: addr
  prWritelistCursor :: addr
  prWritelistEnd :: addr
  prUsage :: usage

record sched =
  Threads :: "thread list"
  Procs :: "sproc list"
  JobQueue :: "nat option list"
  activeThread :: int
  maxThread :: int
  totalThread :: int
  curThread :: nat
  EmptyPlain :: bool
  stk :: stks

definition updTh :: "nat \<Rightarrow> (thread \<Rightarrow> thread) \<Rightarrow> sched \<Rightarrow> sched" where
  "updTh t f s = s\<lparr>Threads := (Threads s)[t := f (Threads s ! t)]\<rparr>"

definition updPr :: "nat \<Rightarrow> (sproc \<Rightarrow> sproc) \<Rightarrow> sched \<Rightarrow> sched" where
  "updPr p f s = s\<lparr>Procs := (Procs s)[p := f (Procs s ! p)]\<rparr>"

definition setReg :: "nat \<Rightarrow> val \<Rightarrow> thread \<Rightarrow> thread" where
  "setReg r v th = th\<lparr>saveregs := (saveregs th)[r := v]\<rparr>"

definition addStatus :: "nat \<Rightarrow> int \<Rightarrow> sched \<Rightarrow> sched" where
  \<comment> \<open>\<open>FetchAndAdd(&th->status, n)\<close>\<close>
  "addStatus t n s = updTh t (\<lambda>th. th\<lparr>thStatus := thStatus th + n\<rparr>) s"

subsection \<open>The job queue\<close>

definition NumTotalJob :: "sched \<Rightarrow> int" where
  "NumTotalJob s = activeThread s"

definition NumReadyJob :: "sched \<Rightarrow> nat" where
  "NumReadyJob s = length (filter (\<lambda>x. case x of None \<Rightarrow> False | Some t \<Rightarrow> 0 \<le> thStatus (Threads s ! t)) (JobQueue s))"

definition ResetJob :: "sched \<Rightarrow> sched" where
  "ResetJob s = s\<lparr>curThread := 0\<rparr>"

fun nextLoop :: "nat option list \<Rightarrow> nat \<Rightarrow> nat option \<times> nat" where
  \<comment> \<open>the loop of \<open>NextJob\<close> over the rest of the queue, which starts at the index\<close>
  "nextLoop [] i = (None, i)"
| "nextLoop (x # xs) i = (case x of None \<Rightarrow> nextLoop xs (i + 1) | Some t \<Rightarrow> (Some t, i + 1))"

definition NextJob :: "sched \<Rightarrow> nat option \<times> sched" where
  "NextJob s = (case nextLoop (drop (curThread s) (JobQueue s)) (curThread s) of (r, i) \<Rightarrow> (r, s\<lparr>curThread := i\<rparr>))"

definition AddJob :: "nat \<Rightarrow> sched \<Rightarrow> sched result" where
  "AddJob t s =
     (let s = updTh t (\<lambda>th. th\<lparr>thStatus := 0\<rparr>) s;
          s = (case thParent (Threads s ! t) of None \<Rightarrow> s | Some u \<Rightarrow> addStatus u 1 s)
      in case firstFree (\<lambda>x. x = None) 0 (JobQueue s) of
           None \<Rightarrow> Inl (AssertFail ''i < NumThread'')
         | Some i \<Rightarrow>
             let s = s\<lparr>JobQueue := (JobQueue s)[i := Some t], activeThread := activeThread s + 1\<rparr>
             in Inr (s\<lparr>maxThread := max (activeThread s) (maxThread s)\<rparr>))"

fun fetchLoop :: "thread list \<Rightarrow> nat option list \<Rightarrow> nat option" where
  \<comment> \<open>the loop of \<open>FetchJob\<close>; the list is the rest of the queue from its end\<close>
  "fetchLoop ths [] = None"
| "fetchLoop ths (x # xs) =
     (case x of None \<Rightarrow> fetchLoop ths xs
      | Some t \<Rightarrow> if thStatus (ths ! t) = 0 then Some t else fetchLoop ths xs)"

definition FetchJob :: "sched \<Rightarrow> nat option \<times> sched" where
  "FetchJob s = (case fetchLoop (Threads s) (rev (JobQueue s)) of
       None \<Rightarrow> (None, s) | Some t \<Rightarrow> (Some t, addStatus t 1 s))"

definition StopAllThreads :: "sched \<Rightarrow> sched" where
  "StopAllThreads s = foldl (\<lambda>s x. case x of None \<Rightarrow> s
     | Some t \<Rightarrow> updTh t (setReg ALLOCLIMIT (word_of_nat StopHeapLimit)) s) s (JobQueue s)"

subsection \<open>Stopping a thread\<close>

definition GCReleaseThread :: "nat \<Rightarrow> sched \<Rightarrow> sched" where
  \<comment> \<open>\<open>GCRelease_Semi\<close>, \<open>GCRelease_Gen\<close>, \<open>GCRelease_SemiPara\<close>, \<open>GCRelease_GenPara\<close>\<close>
  "GCReleaseThread p s = updPr p (\<lambda>pr. pr\<lparr>prAllocStart := prAllocCursor pr\<rparr>) s"

definition UpdateJob :: "nat \<Rightarrow> nat \<Rightarrow> sched \<Rightarrow> sched result" where
  \<comment> \<open>\<open>t\<close> is \<open>proc->userThread\<close>\<close>
  "UpdateJob p t s =
     (let regs = saveregs (Threads s ! t); pr = Procs s ! p;
          cur = unat (regs ! ALLOCPTR); wl = writelistAlloc (Threads s ! t)
      in if unat (regs ! ALLOCLIMIT) \<noteq> prAllocLimit pr \<and> unat (regs ! ALLOCLIMIT) \<noteq> StopHeapLimit \<or> cur > prAllocLimit pr
         then Inl (Die ''invariants not met in UpdateJob'')
         else
           let s = updPr p (\<lambda>pr. pr\<lparr>prAllocCursor := cur, prWritelistCursor := wl\<rparr>) s
           in bindE (PadHeapArea (smem (stk s)) cur (prAllocLimit pr)) (\<lambda>m.
              let s = s\<lparr>stk := (stk s)\<lparr>smem := m\<rparr>\<rparr>;
                  s = updPr p (\<lambda>pr. pr\<lparr>prUsage := (prUsage pr)\<lparr>
                        numWrites := numWrites (prUsage pr) + cdiv (cdiv (int wl - int (prWritelistStart pr)) 4) 3,
                        bytesAllocated := bytesAllocated (prUsage pr) + 4 * cdiv (int cur - int (prAllocStart pr)) 4\<rparr>\<rparr>) s;
                  s = GCReleaseThread p s
              in case thStack (Threads s ! t) of
                   None \<Rightarrow> Inl (Overrun ''NULL stack'')
                 | Some c \<Rightarrow>
                   bindE (EstablishStacklet c (unat (regs ! SP)) (stk s)) (\<lambda>(i, k).
                   let s = s\<lparr>stk := updSt i (\<lambda>x. x\<lparr>retadd := unat (regs ! RA)\<rparr>) k\<rparr>
                   in Inr (updTh t (\<lambda>th. setReg ALLOCPTR 0 (setReg ALLOCLIMIT 0 th)
                        \<lparr>writelistAlloc := 0, writelistLimit := 0\<rparr>) s))))"

definition ReleaseJob_unmap :: "nat \<Rightarrow> nat \<Rightarrow> sched \<Rightarrow> sched result" where
  \<comment> \<open>\<open>ReleaseJob\<close> up to the barrier\<close>
  "ReleaseJob_unmap p t s =
     bindE (UpdateJob p t s) (\<lambda>s.
     Inr (updTh t (\<lambda>th. th\<lparr>thProc := None\<rparr>) (updPr p (\<lambda>pr. pr\<lparr>userThread := None\<rparr>) s)))"

definition ReleaseJob_release :: "nat \<Rightarrow> sched \<Rightarrow> sched result" where
  \<comment> \<open>its last two statements\<close>
  "ReleaseJob_release t s =
     bindE (assertE (thStatus (Threads s ! t) \<ge> 1) ''th->status >= 1'') (\<lambda>_. Inr (addStatus t (- 1) s))"

definition ReleaseJob :: "nat \<Rightarrow> nat \<Rightarrow> sched \<Rightarrow> sched result" where
  "ReleaseJob p t s = bindE (ReleaseJob_unmap p t s) (ReleaseJob_release t)"

subsection \<open>Creation and deletion of threads\<close>

definition fillThread :: "thread \<Rightarrow> nat \<Rightarrow> thread" where
  "fillThread th i = setReg ALLOCLIMIT 0 (setReg THREADPTR (word_of_nat i)
     (th\<lparr>rootVals := replicate 10 0, rootLocs := replicate 10 0, thProc := None, thId := i, tid := - 1, thStatus := - 1,
         thUsed := False, thPinned := False, thParent := None, request := StartRequest, thStack := None, thunk := 0\<rparr>))"

definition Thread_Create ::
    "(nat \<Rightarrow> addr option) \<Rightarrow> (addr \<Rightarrow> nat \<Rightarrow> bool) \<Rightarrow> nat \<Rightarrow> nat option \<Rightarrow> val \<Rightarrow> sched \<Rightarrow> sched result" where
  "Thread_Create mm mprot t par thnk s =
     bindE (assertE (\<not> thUsed (Threads s ! t)) ''th->used == 0'') (\<lambda>_.
     bindE (assertE (thStatus (Threads s ! t) = - 1) ''th->status == -1'') (\<lambda>_.
     bindE (assertE (\<not> thPinned (Threads s ! t)) ''!th->pinned'') (\<lambda>_.
     let s = updTh t (\<lambda>th. setReg ALLOCLIMIT 0 (setReg THREADPTR (word_of_nat t)
                (th\<lparr>rootVals := replicate 10 0, rootLocs := replicate 10 0, thUsed := True, thStatus := 0,
                    tid := totalThread s, thParent := par, request := StartRequest, thGlobalOffset := 0,
                    thArrayOffset := 0, thStackletOffset := 0, thunk := thnk\<rparr>)))
              (s\<lparr>totalThread := totalThread s + 1\<rparr>)
     in case thStack (Threads s ! t) of
          Some c \<Rightarrow> Inr s
        | None \<Rightarrow> bindE (StackChain_Alloc mm mprot t (stk s)) (\<lambda>(c, k).
            Inr (updTh t (\<lambda>th. th\<lparr>thStack := Some c\<rparr>)
                   (s\<lparr>stk := k\<lparr>threadStack := (threadStack k)(t := c)\<rparr>\<rparr>))))))"

definition thread_create ::
    "(nat \<Rightarrow> addr option) \<Rightarrow> (addr \<Rightarrow> nat \<Rightarrow> bool) \<Rightarrow> nat option \<Rightarrow> val \<Rightarrow> sched \<Rightarrow> (nat \<times> sched) result" where
  "thread_create mm mprot par thnk s =
     (case firstFree (\<lambda>th. \<not> thUsed th) 0 (Threads s) of
        None \<Rightarrow> Inl (Die ''out of threads in thread_create'')
      | Some t \<Rightarrow> bindE (Thread_Create mm mprot t par thnk s) (\<lambda>s. Inr (t, s)))"

definition Thread_Pin :: "nat \<Rightarrow> sched \<Rightarrow> sched result" where
  "Thread_Pin t s = bindE (assertE (\<not> thPinned (Threads s ! t)) ''th->pinned == 0'') (\<lambda>_.
     Inr (updTh t (\<lambda>th. th\<lparr>thPinned := True\<rparr>) s))"

definition Thread_Free :: "nat \<Rightarrow> sched \<Rightarrow> sched result" where
  "Thread_Free t s =
     bindE (case firstFree (\<lambda>x. x = Some t) 0 (JobQueue s) of
         None \<Rightarrow> Inl (AssertFail ''i < NumThread'')
       | Some i \<Rightarrow>
           bindE (assertE (thStatus (Threads s ! t) < 0 \<or> \<not> thPinned (Threads s ! t)) ''th->status < 0 || !th->pinned'') (\<lambda>_.
           if thStatus (Threads s ! t) < 0 \<and> \<not> thPinned (Threads s ! t) then
             let s = s\<lparr>JobQueue := (JobQueue s)[i := None], activeThread := activeThread s - 1\<rparr>
             in case thStack (Threads s ! t) of
                  None \<Rightarrow> Inl (Overrun ''NULL stack'')
                | Some c \<Rightarrow> bindE (StackChain_Dealloc c (stk s)) (\<lambda>k.
                    Inr (updTh t (\<lambda>th. th\<lparr>thStack := None, thUsed := False\<rparr>) (s\<lparr>stk := k\<rparr>)))
           else Inr s)) (\<lambda>s.
     Inr (if activeThread s = 0 then s\<lparr>EmptyPlain := True\<rparr> else s))"

definition Thread_Unpin :: "nat \<Rightarrow> sched \<Rightarrow> sched result" where
  "Thread_Unpin t s = Thread_Free t (updTh t (\<lambda>th. th\<lparr>thPinned := False\<rparr>) s)"

definition DeleteJob_start :: "nat \<Rightarrow> nat \<Rightarrow> sched \<Rightarrow> sched result" where
  "DeleteJob_start p t s =
     bindE (assertE (thProc (Threads s ! t) = Some p) ''th->proc == proc'') (\<lambda>_. Inr (addStatus t 1 s))"

definition DeleteJob_parent :: "nat \<Rightarrow> sched \<Rightarrow> sched result" where
  "DeleteJob_parent t s =
     (case thParent (Threads s ! t) of None \<Rightarrow> Inr s
      | Some u \<Rightarrow> let s = addStatus u (- 1) s in
          bindE (assertE (thStatus (Threads s ! u) \<ge> 0) ''th->parent->status >= 0'') (\<lambda>_. Inr s))"

definition DeleteJob_mark :: "nat \<Rightarrow> sched \<Rightarrow> sched result" where
  "DeleteJob_mark t s =
     bindE (assertE (thStatus (Threads s ! t) = 1) ''th->status == 1'') (\<lambda>_.
     Inr (updTh t (\<lambda>th. th\<lparr>thStatus := - 1\<rparr>) s))"

definition DeleteJob :: "nat \<Rightarrow> nat \<Rightarrow> sched \<Rightarrow> sched result" where
  "DeleteJob p t s =
     bindE (DeleteJob_start p t s) (\<lambda>s. bindE (ReleaseJob p t s) (\<lambda>s. bindE (DeleteJob_parent t s) (\<lambda>s.
     bindE (DeleteJob_mark t s) (\<lambda>s. Thread_Free t s))))"


subsection \<open>Mapping a thread onto a processor\<close>

definition assignThread :: "nat \<Rightarrow> nat \<Rightarrow> sched \<Rightarrow> sched result" where
  \<comment> \<open>the \<open>if\<close> statement of \<open>mapThread\<close>\<close>
  "assignThread p t s =
     (if userThread (Procs s ! p) = None
      then bindE (assertE (thProc (Threads s ! t) = None) ''th->proc == NULL'') (\<lambda>_.
           Inr (updTh t (\<lambda>th. th\<lparr>thProc := Some p\<rparr>) (updPr p (\<lambda>pr. pr\<lparr>userThread := Some t\<rparr>) s)))
      else bindE (assertE (userThread (Procs s ! p) = Some t) ''proc->userThread == th'') (\<lambda>_.
           bindE (assertE (thProc (Threads s ! t) = Some p) ''th->proc == proc'') (\<lambda>_. Inr s)))"

definition loadThread :: "config \<Rightarrow> nat \<Rightarrow> nat \<Rightarrow> nat \<Rightarrow> sched \<Rightarrow> sched" where
  \<comment> \<open>its remaining assignments, for the current stacklet \<open>i\<close>\<close>
  "loadThread cfg p t i s =
     (let pr = Procs s ! p; k = stk s in
      updTh t (\<lambda>th. setReg SP (word_of_nat (StackletPrimaryCursor i k)) (setReg THREADPTR (word_of_nat t)
             (setReg ALLOCLIMIT (word_of_nat (prAllocLimit pr)) (setReg ALLOCPTR (word_of_nat (prAllocCursor pr)) th)))
           \<lparr>writelistAlloc := prWritelistCursor pr, writelistLimit := prWritelistEnd pr,
            thGlobalOffset := primaryGlobalOffset cfg, thArrayOffset := primaryArrayOffset cfg,
            thStackletOffset := primaryOff k,
            stackLimit := StackletPrimaryBottom i k, stackTop := StackletPrimaryTop i k\<rparr>) s)"

definition mapThread :: "config \<Rightarrow> nat \<Rightarrow> nat \<Rightarrow> sched \<Rightarrow> sched result" where
  "mapThread cfg p t s =
     (case thStack (Threads s ! t) of None \<Rightarrow> Inl (Overrun ''NULL stack'') | Some c \<Rightarrow>
      bindE (CurrentStacklet c (stk s)) (\<lambda>i.
      bindE (Stacklet_KillReplica i (stk s)) (\<lambda>k.
      bindE (assignThread p t (s\<lparr>stk := k\<rparr>)) (\<lambda>s. Inr (loadThread cfg p t i s)))))"

definition GCSatisfiable :: "config \<Rightarrow> nat \<Rightarrow> nat \<Rightarrow> sched \<Rightarrow> bool result" where
  "GCSatisfiable cfg p t s =
     (let r = requestInfo (Threads s ! t); pr = Procs s ! p
      in if r < 0 then Inr (int (prWritelistCursor pr) - r \<le> int (prWritelistEnd pr))
         else if r > 0 then
           let left = int (prAllocLimit pr) - int (prAllocCursor pr)
           in Inr (left > int (minAllocRegion cfg) \<and> r < left)
         else Inl (Die ''bad GC request''))"

definition ResetAllocation :: "nat \<Rightarrow> heap option \<Rightarrow> sched \<Rightarrow> heap option \<times> sched" where
  "ResetAllocation p h s =
     (case h of
        None \<Rightarrow> (None, updPr p (\<lambda>pr. pr\<lparr>prAllocStart := StartHeapLimit, prAllocCursor := StartHeapLimit,
                   prAllocLimit := StartHeapLimit\<rparr>) s)
      | Some h \<Rightarrow> (Some (h\<lparr>hcursor := htop h\<rparr>),
          updPr p (\<lambda>pr. pr\<lparr>prAllocStart := hcursor h, prAllocCursor := hcursor h, prAllocLimit := htop h\<rparr>) s))"

definition GCFromScheduler ::
    "(nat \<Rightarrow> nat \<Rightarrow> sched \<Rightarrow> sched result) \<Rightarrow> config \<Rightarrow> nat \<Rightarrow> nat \<Rightarrow> sched \<Rightarrow> sched result" where
  \<comment> \<open>\<open>gcFun\<close> is the function pointer \<open>GCFun\<close>\<close>
  "GCFromScheduler gcFun cfg p t s =
     bindE (gcFun p t s) (\<lambda>s. bindE (GCSatisfiable cfg p t s) (\<lambda>b.
     bindE (assertE b ''GCSatisfiable(proc,th)'') (\<lambda>_. Inr s)))"

subsection \<open>The scheduler of a processor\<close>

datatype resume = FromYield | StartClient val | FromGCFromML | FromGCFromC

definition work_take :: "nat \<Rightarrow> sched \<Rightarrow> nat option \<times> sched" where
  \<comment> \<open>one round of the loop of \<open>work\<close> that waits for a thread: the mapped thread or a fetched one\<close>
  "work_take p s = (case userThread (Procs s ! p) of Some t \<Rightarrow> (Some t, s) | None \<Rightarrow> FetchJob s)"

fun resumeGC :: "request \<Rightarrow> resume result" where
  \<comment> \<open>how a thread that asked for memory continues\<close>
  "resumeGC GCRequestFromML = Inr FromGCFromML"
| "resumeGC GCRequestFromC = Inr FromGCFromC"
| "resumeGC MajorGCRequestFromC = Inr FromGCFromC"
| "resumeGC _ = Inl (Die ''impossible'')"

definition work_dispatch ::
    "(nat \<Rightarrow> nat \<Rightarrow> sched \<Rightarrow> sched result) \<Rightarrow> config \<Rightarrow> nat \<Rightarrow> nat \<Rightarrow> sched \<Rightarrow> (resume \<times> sched) result" where
  \<comment> \<open>the rest of \<open>work\<close>, up to the switch to ML code\<close>
  "work_dispatch gcFun cfg p t s =
     bindE (assertE (thStatus (Threads s ! t) = 1) ''work: th->status == 1'') (\<lambda>_.
     case request (Threads s ! t) of
       YieldRequest \<Rightarrow>
         bindE (mapThread cfg p t (updTh t (setReg 16 (word_of_nat t)) s)) (\<lambda>s. Inr (FromYield, s))
     | StartRequest \<Rightarrow>
         let thnk = thunk (Threads s ! t) in
         bindE (mapThread cfg p t s) (\<lambda>s.
         let s = updTh t (\<lambda>th. th\<lparr>thunk := 0\<rparr>) s in
         bindE (assertE (thnk \<noteq> 0) ''thunk != NULL'') (\<lambda>_. Inr (StartClient thnk, s)))
     | NoRequest \<Rightarrow> Inl (Die ''bad request'')
     | _ \<Rightarrow>
         bindE (GCFromScheduler gcFun cfg p t s) (\<lambda>s.
         bindE (GCSatisfiable cfg p t s) (\<lambda>b.
         bindE (assertE b ''GCSatisfiable(proc,th)'') (\<lambda>_.
         bindE (mapThread cfg p t s) (\<lambda>s.
         bindE (resumeGC (request (Threads s ! t))) (\<lambda>r. Inr (r, s)))))))"

subsection \<open>What the mutator calls\<close>

definition SpawnRest ::
    "(nat \<Rightarrow> addr option) \<Rightarrow> (addr \<Rightarrow> nat \<Rightarrow> bool) \<Rightarrow> nat \<Rightarrow> nat \<Rightarrow> val \<Rightarrow> sched \<Rightarrow> (nat \<times> sched) result" where
  \<comment> \<open>\<open>t\<close> is \<open>proc->userThread\<close>, which is also the result; the child is given too\<close>
  "SpawnRest mm mprot p t thnk s =
     bindE (assertE (thProc (Threads s ! t) = Some p) ''parent->proc == proc'') (\<lambda>_.
     bindE (thread_create mm mprot (Some t) thnk s) (\<lambda>(c, s).
     bindE (AddJob c s) (\<lambda>s. Inr (c, s))))"

definition YieldRest_start :: "nat \<Rightarrow> nat \<Rightarrow> sched \<Rightarrow> sched result" where
  \<comment> \<open>up to the point where the thread can be fetched again\<close>
  "YieldRest_start p t s =
     ReleaseJob_unmap p t (updTh t (\<lambda>th. setReg RESULT 256 (th\<lparr>request := YieldRequest\<rparr>)) s)"

definition YieldRest :: "nat \<Rightarrow> nat \<Rightarrow> sched \<Rightarrow> sched result" where
  "YieldRest p t s = bindE (YieldRest_start p t s) (ReleaseJob_release t)"

definition saveRegsInto :: "nat \<Rightarrow> val list \<Rightarrow> stks \<Rightarrow> stks" where
  \<comment> \<open>the loops that copy \<open>saveregs\<close> into the primary half of \<open>bottomBaseRegs\<close>\<close>
  "saveRegsInto i regs k = updSt i (\<lambda>x. x\<lparr>bottomBaseRegs :=
     (if primaryOff k = 0 then take 32 regs @ drop 32 (bottomBaseRegs x) else take 32 (bottomBaseRegs x) @ take 32 regs)\<rparr>) k"

definition GCFromMutator :: "nat \<Rightarrow> nat \<Rightarrow> sched \<Rightarrow> sched result" where
  \<comment> \<open>up to the call of \<open>scheduler\<close>, which continues in \<open>work\<close> with the thread still mapped;
      \<open>p\<close> is \<open>curThread->proc\<close>\<close>
  "GCFromMutator p t s =
     (let regs = saveregs (Threads s ! t); pr = Procs s ! p
      in case thStack (Threads s ! t) of None \<Rightarrow> Inl (Overrun ''NULL stack'') | Some c \<Rightarrow>
         bindE (CurrentStacklet c (stk s)) (\<lambda>i.
         let s = s\<lparr>stk := saveRegsInto i regs (stk s)\<rparr> in
         bindE (assertE (userThread (Procs s ! p) = Some t) ''proc->userThread == curThread'') (\<lambda>_.
         bindE (assertE (unat (regs ! ALLOCLIMIT) = prAllocLimit pr \<or> unat (regs ! ALLOCLIMIT) = StopHeapLimit)
                  ''(limit == sysAllocLimit) || (limit == StopHeapLimit)'') (\<lambda>_.
         bindE (assertE (unat (regs ! ALLOCPTR) \<le> prAllocLimit pr) ''alloc <= sysAllocLimit'') (\<lambda>_.
         UpdateJob p t s)))))"

definition switchStacklet :: "nat \<Rightarrow> nat \<Rightarrow> val \<Rightarrow> sched \<Rightarrow> sched" where
  \<comment> \<open>the registers and limits of the thread for a new current stacklet\<close>
  "switchStacklet t i ra s = updTh t (\<lambda>th. setReg RA ra (setReg SP (word_of_nat (StackletPrimaryCursor i (stk s))) th)
     \<lparr>stackLimit := StackletPrimaryBottom i (stk s), stackTop := StackletPrimaryTop i (stk s)\<rparr>) s"

definition NewStackletFromMutator ::
    "(nat \<Rightarrow> addr option) \<Rightarrow> (addr \<Rightarrow> nat \<Rightarrow> bool) \<Rightarrow> val \<Rightarrow> bool \<Rightarrow> nat \<Rightarrow> nat \<Rightarrow> pset \<Rightarrow> sched \<Rightarrow> (val \<times> pset \<times> sched) result" where
  \<comment> \<open>\<open>popRA\<close> is the address of \<open>PopStackletFromML\<close>, \<open>addOld\<close> says whether the old stacklet is given to
      the collector (\<open>addOldStackletOnUnderflow && GCStatus != GCOff\<close>), \<open>w\<close> is \<open>proc->work.stacklets\<close>;
      the first result is the address where ML continues.  \<open>calleeSaveMask\<close> is 0, so no register is cleared.\<close>
  "NewStackletFromMutator mm mprot popRA addOld t maxOffset w s =
     (let regs = saveregs (Threads s ! t)
      in case thStack (Threads s ! t) of None \<Rightarrow> Inl (Overrun ''NULL stack'') | Some c \<Rightarrow>
         bindE (EstablishStacklet c (unat (regs ! SP)) (stk s)) (\<lambda>(i, k).
         let k = saveRegsInto i regs (updSt i (\<lambda>x. x\<lparr>retadd := unat (regs ! ASMTMP2)\<rparr>) k);
             push = addOld \<and> sl_state (Stacklets k ! i) = Inconsistent;
             k = (if push then updSt i (\<lambda>x. x\<lparr>sl_state := Pending\<rparr>) k else k)
         in bindE (if push then SetPush w i else Inr w) (\<lambda>w.
            bindE (assertE (maxOffset = 0) ''maxOffset == 0'') (\<lambda>_.
            bindE (NewStacklet mm mprot c k) (\<lambda>(j, k).
            let s = switchStacklet t j (popRA - 8) (s\<lparr>stk := k\<rparr>) in
            bindE (Stacklet_KillReplica j (stk s)) (\<lambda>k. Inr (regs ! RA, w, s\<lparr>stk := k\<rparr>)))))))"

definition PopStackletFromMutator :: "nat \<Rightarrow> sched \<Rightarrow> (val \<times> sched) result" where
  "PopStackletFromMutator t s =
     (case thStack (Threads s ! t) of None \<Rightarrow> Inl (Overrun ''NULL stack'') | Some c \<Rightarrow>
      bindE (EstablishStacklet c (unat (saveregs (Threads s ! t) ! SP)) (stk s)) (\<lambda>(_, k).
      bindE (PopStacklet c k) (\<lambda>k.
      bindE (CurrentStacklet c k) (\<lambda>i.
      let ra = word_of_nat (retadd (Stacklets k ! i)); s = switchStacklet t i ra (s\<lparr>stk := k\<rparr>) in
      bindE (Stacklet_KillReplica i (stk s)) (\<lambda>k. Inr (ra, s\<lparr>stk := k\<rparr>))))))"

subsection \<open>Allocating for a thread from C\<close>

definition AllocFromThread :: "nat \<Rightarrow> nat \<Rightarrow> align_t \<Rightarrow> sched \<Rightarrow> (addr \<times> sched) result" where
  "AllocFromThread t bytes align s =
     (let regs = saveregs (Threads s ! t); alloc = unat (regs ! ALLOCPTR); limit = unat (regs ! ALLOCLIMIT);
          n = bytes div 4
      in if alloc + 4 * (n + (if align = NoWordAlign then 0 else 1)) \<le> limit
         then case AlignMemoryPointer (smem (stk s)) alloc align of (region, m) \<Rightarrow>
                Inr (region, updTh t (setReg ALLOCPTR (word_of_nat (region + 4 * n))) (s\<lparr>stk := (stk s)\<lparr>smem := m\<rparr>\<rparr>))
         else Inr (NULL, s))"

definition AllocFromHeap :: "heap \<Rightarrow> nat \<Rightarrow> align_t \<Rightarrow> memory \<Rightarrow> ((addr \<times> memory) \<times> heap) result" where
  \<comment> \<open>the heap is always \<open>fromSpace\<close>, whatever the argument \<open>heap\<close>\<close>
  "AllocFromHeap fromSpace bytes align m =
     (let padBytes = bytes + (if align = NoWordAlign then 0 else 4)
      in case GetHeapArea fromSpace (RoundUp padBytes TILT_PAGESIZE) of ((start, cursor, limit), h) \<Rightarrow>
         if start = NULL then Inr ((NULL, m), h)
         else case AlignMemoryPointer m cursor align of (cursor, m) \<Rightarrow>
           bindE (PadHeapArea m (cursor + 4 * (bytes div 4)) limit) (\<lambda>m. Inr ((cursor, m), h)))"

end
