(* ===== verification/RootScan.thy ===== *)
theory RootScan
  imports StackScan Jobs
begin

text \<open>
  The roots of a thread and the global roots: the rest of \<open>Runtime/sparc/stack.c\<close>.  A root location
  is an address.  The locations inside the structure of a thread are its \<open>saveregs\<close>, \<open>thunk\<close> and
  \<open>rootVals\<close>, those inside a stacklet its \<open>bottomBaseRegs\<close>; the record \<open>raddr\<close> says where the
  structures lie (the field offsets are those of \<open>struct Thread__t\<close>).  The state of a scan is the
  scheduler state, which holds threads and stacks, with the working set and caches of the scanning
  processor and the statistics on stack depth.

  \<open>thread_root_scan\<close> is the scan of the stop-and-copy collectors, the other scans are the pieces of
  the concurrent ones.  \<open>refThread\<close> is the reference: for every stacklet, oldest first, all slots of
  all its frames and its registers, then the registers of the thread.
\<close>

subsection \<open>State\<close>

record raddr =
  thAddr :: "nat \<Rightarrow> addr"         \<comment> \<open>the address of a thread structure\<close>
  regsAddr :: "nat \<Rightarrow> addr"       \<comment> \<open>the address of \<open>bottomBaseRegs\<close> of a stacklet\<close>

record rscan =
  rsSched :: sched
  rsTrace :: tracest
  rsStacklets :: pset             \<comment> \<open>\<open>work.stacklets\<close> of the processor\<close>
  TotalStackDepth :: int
  MaxStackDepth :: int
  TotalStackSize :: int

definition thunkAddr :: "raddr \<Rightarrow> nat \<Rightarrow> addr" where
  "thunkAddr A t = thAddr A t + 828"

definition rootValAddr :: "raddr \<Rightarrow> nat \<Rightarrow> nat \<Rightarrow> addr" where
  "rootValAddr A t i = thAddr A t + 832 + 4 * i"

definition readLoc :: "raddr \<Rightarrow> nat \<Rightarrow> thread \<Rightarrow> memory \<Rightarrow> addr \<Rightarrow> val" where
  \<comment> \<open>what a root location of thread \<open>t\<close> holds\<close>
  "readLoc A t th m a =
     (if a = thunkAddr A t then thunk th
      else if rootValAddr A t 0 \<le> a \<and> a < rootValAddr A t (length (rootVals th))
        then rootVals th ! ((a - rootValAddr A t 0) div 4)
      else if thAddr A t \<le> a \<and> a < thAddr A t + 128 then saveregs th ! ((a - thAddr A t) div 4)
      else m a)"

definition rsStk :: "rscan \<Rightarrow> stks" where
  "rsStk s = stk (rsSched s)"

definition setStk :: "stks \<Rightarrow> rscan \<Rightarrow> rscan" where
  "setStk k s = s\<lparr>rsSched := (rsSched s)\<lparr>stk := k\<rparr>\<rparr>"

definition rsThread :: "nat \<Rightarrow> rscan \<Rightarrow> thread" where
  "rsThread t s = Threads (rsSched s) ! t"

definition withRoots :: "pset \<Rightarrow> tracest \<Rightarrow> tracest" where
  "withRoots r t = t\<lparr>tRoots := r\<rparr>"

subsection \<open>Roots in registers and installed roots\<close>

definition addRegRoots :: "senv \<Rightarrow> addr \<Rightarrow> val list \<Rightarrow> 32 word \<Rightarrow> pset \<Rightarrow> pset result" where
  \<comment> \<open>for registers that lie at \<open>base\<close>\<close>
  "addRegRoots e base regs regMask r =
     foldE (\<lambda>i r. if bit regMask i \<and> \<not> IsTagData (regs ! i) \<and> \<not> IsGlobalData e (regs ! i)
                   then SetPush r (base + 4 * i) else Inr r) [0..<32] r"

fun installLoop :: "addr \<Rightarrow> nat \<Rightarrow> addr list \<Rightarrow> nat option result" where
  \<comment> \<open>the free entry to use, or \<open>None\<close> when the location is installed\<close>
  "installLoop rootLoc i [] = Inl (Die ''installThreadRoot out of rootLocs entries'')"
| "installLoop rootLoc i (l # ls) =
     (if l = rootLoc then Inr None else if l = NULL then Inr (Some i) else installLoop rootLoc (i + 1) ls)"

definition installThreadRoot :: "raddr \<Rightarrow> nat \<Rightarrow> memory \<Rightarrow> addr \<Rightarrow> thread \<Rightarrow> thread result" where
  "installThreadRoot A t m rootLoc th =
     bindE (installLoop rootLoc 0 (rootLocs th)) (\<lambda>r. Inr (case r of None \<Rightarrow> th
       | Some i \<Rightarrow> th\<lparr>rootLocs := (rootLocs th)[i := rootLoc],
                      rootVals := (rootVals th)[i := readLoc A t th m rootLoc]\<rparr>))"

fun uninstallLoop :: "addr \<Rightarrow> nat \<Rightarrow> addr list \<Rightarrow> nat option" where
  "uninstallLoop rootLoc i [] = None"
| "uninstallLoop rootLoc i (l # ls) = (if l = rootLoc then Some i else uninstallLoop rootLoc (i + 1) ls)"

definition uninstallThreadRoot :: "addr \<Rightarrow> thread \<Rightarrow> thread" where
  "uninstallThreadRoot rootLoc th =
     (case uninstallLoop rootLoc 0 (rootLocs th) of None \<Rightarrow> th
      | Some i \<Rightarrow> th\<lparr>rootLocs := (rootLocs th)[i := NULL], rootVals := (rootVals th)[i := 0]\<rparr>)"

definition pushLoc :: "senv \<Rightarrow> (addr \<Rightarrow> val) \<Rightarrow> addr \<Rightarrow> pset \<Rightarrow> pset result" where
  \<comment> \<open>the body of the loops over \<open>rootLocs\<close>; also the test for the thunk\<close>
  "pushLoc e rd l r =
     (if l \<noteq> NULL \<and> \<not> IsTagData (rd l) \<and> \<not> IsGlobalData e (rd l) then SetPush r l else Inr r)"

subsection \<open>Scanning a thread at once\<close>

fun upStacklets ::
    "senv \<Rightarrow> nat \<Rightarrow> nat option list \<Rightarrow> int \<Rightarrow> int \<Rightarrow> stks \<Rightarrow> tracest \<Rightarrow> (int \<times> int \<times> stks \<times> tracest) result" where
  \<comment> \<open>copy the stacklets and walk up their frames; counts frames and words\<close>
  "upStacklets e off [] nf nw k t = Inr (nf, nw, k, t)"
| "upStacklets e off (p # ps) nf nw k t =
     (case p of None \<Rightarrow> Inl (Overrun ''NULL stacklet'') | Some i \<Rightarrow>
      bindE (Stacklet_Copy i (updSt i (\<lambda>x. x\<lparr>sl_state := Pending\<rparr>) k)) (\<lambda>(_, k).
      bindE (uptrace_stacklet e (smem k) off (Stacklets k ! i) t) (\<lambda>(x, t).
      upStacklets e off ps (nf + int (SetLength (callinfoStack x)))
        (nw + int ((baseTop x - baseCursor x) div 4)) (updSt i (\<lambda>_. x) k) t)))"

definition stackletRegs :: "nat \<Rightarrow> stacklet \<Rightarrow> val list" where
  \<comment> \<open>the half of \<open>bottomBaseRegs\<close> for an offset\<close>
  "stackletRegs off x = take 32 (drop (if off = 0 then 0 else 32) (bottomBaseRegs x))"

fun downStacklets ::
    "senv \<Rightarrow> raddr \<Rightarrow> nat \<Rightarrow> nat \<Rightarrow> val list \<Rightarrow> nat option list \<Rightarrow> stks \<Rightarrow> tracest \<Rightarrow> (stks \<times> tracest) result" where
  \<comment> \<open>visit the frames and the registers of the stacklets, and \<open>saveregs\<close> with the last one\<close>
  "downStacklets e A t off regs [] k T = Inr (k, T)"
| "downStacklets e A t off regs (p # ps) k T =
     (case p of None \<Rightarrow> Inl (Overrun ''NULL stacklet'') | Some i \<Rightarrow>
      bindE (downtrace_stacklet e (smem k) off (Stacklets k ! i) T) (\<lambda>(reg, x, T).
      let k = updSt i (\<lambda>_. x) k; mask = set_bit EXNPTR reg in
      bindE (addRegRoots e (regsAddr A i + (if off = 0 then 0 else 128)) (stackletRegs off x) mask (tRoots T)) (\<lambda>r.
      bindE (if ps = [] then addRegRoots e (thAddr A t) regs mask r else Inr r) (\<lambda>r.
      downStacklets e A t off regs ps k (withRoots r T)))))"

definition thread_root_scan :: "senv \<Rightarrow> raddr \<Rightarrow> nat \<Rightarrow> rscan \<Rightarrow> rscan result" where
  "thread_root_scan e A t s =
     (let th = rsThread t s; k = rsStk s; rd = readLoc A t th (smem k) in
      bindE (assertE (primaryOff k = 0) ''primaryStackletOffset == 0'') (\<lambda>_.
      bindE (foldE (pushLoc e rd) (rootLocs th) (tRoots (rsTrace s))) (\<lambda>r.
      if thunk th \<noteq> 0
      then bindE (pushLoc e rd (thunkAddr A t) r) (\<lambda>r. Inr (s\<lparr>rsTrace := withRoots r (rsTrace s)\<rparr>))
      else case thStack th of None \<Rightarrow> Inl (Overrun ''NULL stack'') | Some c \<Rightarrow>
        let ps = activeSt (StackChains k ! c) in
        bindE (upStacklets e (primaryOff k) (rev ps) 0 0 k (withRoots r (rsTrace s))) (\<lambda>(nf, nw, k, T).
        let s = s\<lparr>TotalStackDepth := TotalStackDepth s + nf, MaxStackDepth := max nf (MaxStackDepth s),
                  TotalStackSize := TotalStackSize s + 4 * nw\<rparr> in
        bindE (downStacklets e A t (primaryOff k) (saveregs th) ps k T) (\<lambda>(k, T).
        Inr (setStk k (s\<lparr>rsTrace := T\<rparr>)))))))"
subsection \<open>Scanning a thread in pieces\<close>

definition initial_root_scan :: "senv \<Rightarrow> raddr \<Rightarrow> nat \<Rightarrow> rscan \<Rightarrow> rscan result" where
  \<comment> \<open>\<open>Thread_Pin\<close>, the roots that are installed, and all stacklets as work\<close>
  "initial_root_scan e A t s =
     (let thnk = thunk (rsThread t s) in
      bindE (Thread_Pin t (rsSched s)) (\<lambda>sc.
      bindE (installThreadRoot A t (smem (stk sc)) (thunkAddr A t) (Threads sc ! t)) (\<lambda>th.
      let s = s\<lparr>rsSched := updTh t (\<lambda>_. th) sc\<rparr> in
      bindE (foldE (\<lambda>i r. let v = rootVals th ! i in
          if v \<noteq> 0 \<and> \<not> IsTagData v \<and> \<not> IsGlobalData e v then SetPush r (rootValAddr A t i) else Inr r)
        [0..<length (rootLocs th)] (tRoots (rsTrace s))) (\<lambda>r.
      let s = s\<lparr>rsTrace := withRoots r (rsTrace s)\<rparr> in
      if thnk \<noteq> 0 then Inr s
      else case thStack th of None \<Rightarrow> Inl (Overrun ''NULL stack'') | Some c \<Rightarrow>
        let ch = StackChains (rsStk s) ! c in
        bindE (assertE (sc_cursor ch > 0) ''stack->cursor > 0'') (\<lambda>_.
        foldE (\<lambda>p s. case p of None \<Rightarrow> Inl (Overrun ''NULL stacklet'') | Some i \<Rightarrow>
            bindE (SetPush (rsStacklets s) i) (\<lambda>w.
            Inr (setStk (updSt i (\<lambda>x. x\<lparr>sl_state := Pending\<rparr>) (rsStk s)) (s\<lparr>rsStacklets := w\<rparr>))))
          (activeSt ch) s)))))"

definition workLimit :: "config \<Rightarrow> rscan \<Rightarrow> bool \<times> rscan" where
  \<comment> \<open>\<open>updateReachCheckWork(proc)\<close>\<close>
  "workLimit cfg s = (case updateReachCheckWork cfg (tUsage (rsTrace s)) of (b, u) \<Rightarrow>
     (b, s\<lparr>rsTrace := (rsTrace s)\<lparr>tUsage := u\<rparr>\<rparr>))"

definition work_copy :: "nat \<Rightarrow> rscan \<Rightarrow> rscan result" where
  \<comment> \<open>copy the stacklet unless it is active; its size is charged when it was copied here\<close>
  "work_copy i s =
     (if sl_state (Stacklets (rsStk s) ! i) \<noteq> ActiveCopied then
        bindE (Stacklet_Copy i (rsStk s)) (\<lambda>(copied, k).
        let x = Stacklets k ! i; s = setStk k s in
        Inr (if copied then s\<lparr>rsTrace := addSlots (int ((baseTop x - baseCursor x) div 4 div 40)) (rsTrace s)\<rparr> else s))
      else Inr s)"

definition work_up :: "senv \<Rightarrow> int \<Rightarrow> int \<Rightarrow> nat \<Rightarrow> rscan \<Rightarrow> rscan result" where
  \<comment> \<open>\<open>nf\<close> and \<open>nw\<close> are the uninitialized \<open>numFrames\<close> and \<open>numWords\<close>\<close>
  "work_up e nf nw i s =
     (let k = rsStk s; x = Stacklets k ! i in
      if SetIsEmpty (callinfoStack x) then
        bindE (uptrace_stacklet e (smem k) (replicaOff k) x (rsTrace s)) (\<lambda>(x, T).
        Inr ((setStk (updSt i (\<lambda>_. x) k) s)\<lparr>rsTrace := T,
          TotalStackDepth := TotalStackDepth s + (nf + int (SetLength (callinfoStack x))),
          TotalStackSize := TotalStackSize s + 4 * (nw + int ((baseTop x - baseCursor x) div 4))\<rparr>))
      else Inr s)"

definition work_down :: "senv \<Rightarrow> raddr \<Rightarrow> nat \<Rightarrow> rscan \<Rightarrow> rscan result" where
  "work_down e A i s =
     (let k = rsStk s; off = replicaOff k in
      bindE (downtrace_stacklet e (smem k) off (Stacklets k ! i) (rsTrace s)) (\<lambda>(reg, x, T).
      bindE (addRegRoots e (regsAddr A i + (if off = 0 then 0 else 128)) (stackletRegs off x) (set_bit EXNPTR reg) (tRoots T)) (\<lambda>r.
      Inr ((setStk (updSt i (\<lambda>_. x) k) s)\<lparr>rsTrace := withRoots r T\<rparr>))))"

definition work_root_scan ::
    "config \<Rightarrow> bool \<Rightarrow> senv \<Rightarrow> raddr \<Rightarrow> int \<Rightarrow> int \<Rightarrow> nat \<Rightarrow> rscan \<Rightarrow> (bool \<times> rscan) result" where
  \<comment> \<open>False: the processor has done its share and the stacklet is not finished\<close>
  "work_root_scan cfg useGenStack e A nf nw i s =
     bindE (assertE (\<not> useGenStack) ''!useGenStack'') (\<lambda>_.
     bindE (work_copy i s) (\<lambda>s.
     case workLimit cfg s of (b, s) \<Rightarrow> if b then Inr (False, s) else
     bindE (work_up e nf nw i s) (\<lambda>s.
     case workLimit cfg s of (b, s) \<Rightarrow> if b then Inr (False, s) else
     bindE (work_down e A i s) (\<lambda>s. Inr (True, s)))))"

fun activeUp :: "senv \<Rightarrow> nat \<Rightarrow> nat option list \<Rightarrow> nat \<Rightarrow> nat option \<Rightarrow> stks \<Rightarrow> tracest \<Rightarrow> (nat option \<times> stks \<times> tracest) result" where
  \<comment> \<open>copy again and walk up the stacklets that were active; the first of them\<close>
  "activeUp e off [] j first k T = Inr (first, k, T)"
| "activeUp e off (p # ps) j first k T =
     (case p of None \<Rightarrow> Inl (Overrun ''NULL stacklet'') | Some i \<Rightarrow>
      if sl_state (Stacklets k ! i) \<noteq> InactiveCopied then
        bindE (Stacklet_Copy i (updSt i (\<lambda>x. x\<lparr>sl_state := Pending\<rparr>) k)) (\<lambda>(_, k).
        bindE (uptrace_stacklet e (smem k) off (Stacklets k ! i) T) (\<lambda>(x, T).
        activeUp e off ps (j + 1) (if first = None then Some j else first) (updSt i (\<lambda>_. x) k) T))
      else activeUp e off ps (j + 1) first k T)"

definition complete_root_scan :: "senv \<Rightarrow> raddr \<Rightarrow> nat \<Rightarrow> rscan \<Rightarrow> rscan result" where
  "complete_root_scan e A t s =
     bindE (Thread_Unpin t (rsSched s)) (\<lambda>sc.
     if \<not> thUsed (Threads sc ! t) then Inr (s\<lparr>rsSched := sc\<rparr>) else
     bindE (installThreadRoot A t (smem (stk sc)) (thunkAddr A t) (Threads sc ! t)) (\<lambda>th.
     bindE (foldE (pushLoc e (readLoc A t th (smem (stk sc)))) (rootLocs th) (tRoots (rsTrace s))) (\<lambda>r.
     let s = s\<lparr>rsSched := updTh t (\<lambda>_. uninstallThreadRoot (thunkAddr A t) th) sc, rsTrace := withRoots r (rsTrace s)\<rparr>
     in if thunk th \<noteq> 0 then Inr s
        else case thStack th of None \<Rightarrow> Inl (Overrun ''NULL stack'') | Some c \<Rightarrow>
          let k = rsStk s; off = replicaOff k; ps = activeSt (StackChains k ! c) in
          bindE (activeUp e off ps 0 None k (rsTrace s)) (\<lambda>(first, k, T).
          let firstActive = (case first of None \<Rightarrow> length ps | Some j \<Rightarrow> j) in
          bindE (downStacklets e A t off (saveregs th) (drop firstActive ps) k T) (\<lambda>(k, T).
          Inr (setStk k (s\<lparr>rsTrace := T\<rparr>)))))))"

definition discard_root_scan :: "raddr \<Rightarrow> nat \<Rightarrow> rscan \<Rightarrow> rscan result" where
  "discard_root_scan A t s =
     bindE (Thread_Unpin t (rsSched s)) (\<lambda>sc.
     Inr (s\<lparr>rsSched := (if \<not> thUsed (Threads sc ! t) then sc else updTh t (uninstallThreadRoot (thunkAddr A t)) sc)\<rparr>))"

subsection \<open>Global variables\<close>

record globst =
  promotedGlobal :: pset          \<comment> \<open>initialized globals the write barrier has reported\<close>
  tenuredGlobal :: pset
  globUsage :: usage

definition TAG_REC_TRACE :: val where
  "TAG_REC_TRACE = MAKE_REC 1 1"

definition uninit_val :: val where
  "uninit_val = 258"

definition global_root_init :: "addr list list \<Rightarrow> usage \<Rightarrow> globst" where
  \<comment> \<open>for the traced globals of all modules, between \<open>traceglobalstart\<close> and \<open>traceglobalend\<close>\<close>
  "global_root_init mods u =
     (let numGlobals = sum_list (map length mods)
      in \<lparr>promotedGlobal = SetCreate numGlobals, tenuredGlobal = SetCreate numGlobals, globUsage = u\<rparr>)"

definition addGlobals :: "int \<Rightarrow> globst \<Rightarrow> globst" where
  "addGlobals n g = g\<lparr>globUsage := (globUsage g)\<lparr>globalsProcessed := globalsProcessed (globUsage g) + n\<rparr>\<rparr>"

definition DupGlobal :: "config \<Rightarrow> addr \<Rightarrow> memory \<Rightarrow> addr \<times> memory" where
  "DupGlobal cfg g m =
     (let primaryLoc = g + 4 * (primaryGlobalOffset cfg div 4); replicaLoc = g + 4 * (replicaGlobalOffset cfg div 4)
      in (replicaLoc, m(replicaLoc := m primaryLoc)))"

definition add_global_root :: "config \<Rightarrow> senv \<Rightarrow> addr \<Rightarrow> memory \<Rightarrow> globst \<Rightarrow> (memory \<times> globst) result" where
  "add_global_root cfg e global m g =
     (let tag = m (global - 4) in
      bindE (if tag = TAG_REC_TRACE then
          let v = m global in
          if \<not> IsGlobalData e v \<and> \<not> IsTagData v
          then bindE (SetPush (promotedGlobal g) global) (\<lambda>q. Inr (m, g\<lparr>promotedGlobal := q\<rparr>)) else Inr (m, g)
        else if tag = MIRROR_GLOBAL_PTR_TAG then
          let v = m (global + 4 * (primaryGlobalOffset cfg div 4)) in
          bindE (assertE (m (global + 4 * (replicaGlobalOffset cfg div 4)) = uninit_val) ''global[replica] == uninit_val'') (\<lambda>_.
          if \<not> IsGlobalData e v \<and> \<not> IsTagData v
          then bindE (SetPush (promotedGlobal g) global) (\<lambda>q. Inr (m, g\<lparr>promotedGlobal := q\<rparr>))
          else Inr (snd (DupGlobal cfg global m), g))
        else Inl (Die ''add_global_root bad tag'')) (\<lambda>(m, g).
      Inr (m, addGlobals 1 g)))"

definition minor_global_scan :: "globst \<Rightarrow> pset \<Rightarrow> pset result" where
  "minor_global_scan g gl = SetCopy (promotedGlobal g) gl"

definition minor_global_promote :: "globst \<Rightarrow> globst result" where
  "minor_global_promote g =
     (let g = addGlobals (int (SetLength (promotedGlobal g)) div 10) g in
      bindE (SetTransfer (promotedGlobal g) (tenuredGlobal g)) (\<lambda>(p, q).
      Inr (g\<lparr>promotedGlobal := p, tenuredGlobal := q\<rparr>)))"

definition major_global_scan :: "globst \<Rightarrow> pset \<Rightarrow> (pset \<times> globst) result" where
  "major_global_scan g gl =
     bindE (minor_global_promote g) (\<lambda>g.
     bindE (assertE (SetIsEmpty (promotedGlobal g)) ''SetIsEmpty(promotedGlobal)'') (\<lambda>_.
     let g = addGlobals (int (SetLength (tenuredGlobal g)) div 10) g in
     bindE (SetCopy (tenuredGlobal g) gl) (\<lambda>q. Inr (q, g))))"

definition NullGlobals :: "nat \<Rightarrow> addr list list \<Rightarrow> memory \<Rightarrow> memory" where
  "NullGlobals globalOffset mods m =
     fold (\<lambda>g m. m(g + 4 * (globalOffset div 4) := uninit_val)) (concat mods) m"

subsection \<open>Memory that the copies do not touch\<close>

definition agree :: "addr set \<Rightarrow> memory \<Rightarrow> memory \<Rightarrow> bool" where
  "agree R m m' \<longleftrightarrow> (\<forall>a. a \<notin> R \<longrightarrow> m' a = m a)"

definition entryArea :: "addr \<Rightarrow> addr set" where
  \<comment> \<open>the fixed part of a table entry and its slot bits, for the largest frame there is\<close>
  "entryArea ci = {ci ..< ci + 20 + 4 * 4096}"

definition tables_clear :: "senv \<Rightarrow> addr set \<Rightarrow> bool" where
  "tables_clear e R \<longleftrightarrow> (\<forall>ci \<in> ran (hmap (callTable e)). entryArea ci \<inter> R = {})"

definition stackletWords :: "stacklet \<Rightarrow> nat" where
  "stackletWords x = (baseTop x - baseCursor x) div 4"

definition replicaWords :: "stks \<Rightarrow> stacklet \<Rightarrow> addr set" where
  "replicaWords k x = {a. \<exists>j < stackletWords x. a = baseCursor x + 4 * (replicaOff k div 4) + 4 * j}"

definition copyStacklet :: "stks \<Rightarrow> nat \<Rightarrow> memory \<Rightarrow> memory" where
  "copyStacklet k i m = (let x = Stacklets k ! i in
     copyWords m (baseCursor x + 4 * (replicaOff k div 4)) (baseCursor x) (stackletWords x))"

lemma agree_trans: "agree R m m' \<Longrightarrow> agree R m' m'' \<Longrightarrow> agree R m m''"
  by (simp add: agree_def)

lemma agree_copy: "replicaWords k (Stacklets k ! i) \<subseteq> R \<Longrightarrow> agree R m (copyStacklet k i m)"
  unfolding agree_def copyStacklet_def Let_def replicaWords_def by (auto intro!: copyWords_out)

lemma framesize_bound: "GET_FRAMESIZE x \<le> 65535"
proof -
  have "drop_bit 16 x AND 65535 \<le> (65535 :: 32 word)" by (rule word_and_le1)
  then show ?thesis by (simp add: GET_FRAMESIZE_def word_le_nat_alt)
qed

lemma entry_agree:
  assumes "agree R m m'" and "entryArea ci \<inter> R = {}"
  shows "ci_size0 m' ci = ci_size0 m ci" "ci_size1 m' ci = ci_size1 m ci" "regtrace_a m' ci = regtrace_a m ci"
    "regtrace_b m' ci = regtrace_b m ci" "frameSlots m' ci = frameSlots m ci"
proof -
  have a: "m' a = m a" if "ci \<le> a" "a < ci + 20 + 4 * 4096" for a
  proof -
    have "a \<in> entryArea ci" using that by (simp add: entryArea_def)
    then have "a \<notin> R" using assms(2) by blast
    then show ?thesis using assms(1) by (simp add: agree_def)
  qed
  show f: "ci_size0 m' ci = ci_size0 m ci" "ci_size1 m' ci = ci_size1 m ci" "regtrace_a m' ci = regtrace_a m ci"
    "regtrace_b m' ci = regtrace_b m ci"
    by (simp_all add: ci_size0_def ci_size1_def regtrace_a_def regtrace_b_def a)
  have "stackBot m' ci p = stackBot m ci p" if "p < GET_FRAMESIZE (ci_size0 m ci)" for p
  proof -
    have "p div 16 < 4096" using that framesize_bound [of "ci_size0 m ci"] by simp
    then show ?thesis by (simp add: stackBot_def rawdata_def a)
  qed
  then show "frameSlots m' ci = frameSlots m ci" by (simp add: frameSlots_def f)
qed

lemma trace_ok_agree:
  assumes "agree R m m'" and "tables_clear e R" and "trace_ok e m t"
  shows "trace_ok e m' t"
proof (cases "cCallinfo (tCur t) = 0")
  case True
  then show ?thesis using assms(3) by (simp add: trace_ok_def cursor_ok_def Let_def)
next
  case False
  then have "entryArea (cCallinfo (tCur t)) \<inter> R = {}" using assms(2,3) by (simp add: trace_ok_def tables_clear_def)
  note entry_agree [OF assms(1) this]
  then show ?thesis using assms(3) by (simp add: trace_ok_def cursor_ok_def Let_def)
qed

subsection \<open>The scan of a thread against the reference\<close>

definition stacklet_frames :: "senv \<Rightarrow> addr set \<Rightarrow> memory \<Rightarrow> stacklet \<Rightarrow> (addr \<times> addr) list \<Rightarrow> bool" where
  \<comment> \<open>the stacklet can be scanned and has these frames, whatever \<open>R\<close> holds\<close>
  "stacklet_frames e R m x fs \<longleftrightarrow> sl_count x > 0 \<and> length (bottomBaseRegs x) = 64 \<and> baseExtendedBottom x \<le> baseCursor x \<and> baseCursor x \<le> baseTop x \<and>
     set_ok (callinfoStack x) \<and>
     (\<forall>m'. agree R m m' \<longrightarrow> frames e m' (baseCursor x) (word_of_nat (retadd x)) fs (baseTop x))"

definition scanned_as :: "stacklet \<Rightarrow> (addr \<times> addr) list \<Rightarrow> stacklet \<Rightarrow> bool" where
  \<comment> \<open>after copying and walking up a stacklet\<close>
  "scanned_as x fs y \<longleftrightarrow> baseTop y = baseTop x \<and> take 32 (bottomBaseRegs y) = take 32 (bottomBaseRegs x) \<and>
     set_ok (callinfoStack y) \<and> set_items (callinfoStack y) = map fst fs"

fun refThread :: "senv \<Rightarrow> raddr \<Rightarrow> nat \<Rightarrow> val list \<Rightarrow> memory \<Rightarrow> (nat \<times> val list \<times> (addr \<times> addr) list) list \<Rightarrow> pset \<Rightarrow> pset result" where
  \<comment> \<open>the roots of a thread with these stacklets (index, registers, frames), oldest first\<close>
  "refThread e A t regs m [] r = Inr r"
| "refThread e A t regs m ((i, pregs, fs) # xs) r =
     bindE (refFrames e m fs r) (\<lambda>(reg, r).
     bindE (addRegRoots e (regsAddr A i) pregs (set_bit EXNPTR reg) r) (\<lambda>r.
     bindE (if xs = [] then addRegRoots e (thAddr A t) regs (set_bit EXNPTR reg) r else Inr r) (\<lambda>r.
     refThread e A t regs m xs r)))"

lemma copy_one:
  assumes "primaryOff k = 0" and "i < length (Stacklets k)" and "stacklet_frames e R m (Stacklets k ! i) fs"
  shows "\<exists>k'. Stacklet_Copy i (updSt i (\<lambda>x. x\<lparr>sl_state := Pending\<rparr>) k) = Inr (True, k') \<and>
    Stacklets k' = (Stacklets k)[i := (Stacklets k ! i)\<lparr>callinfoStack := SetReset (callinfoStack (Stacklets k ! i)),
      replicaCursor := baseCursor (Stacklets k ! i), replicaRetadd := retadd (Stacklets k ! i),
      bottomBaseRegs := take 32 (bottomBaseRegs (Stacklets k ! i)) @ take 32 (bottomBaseRegs (Stacklets k ! i)),
      sl_state := InactiveCopied\<rparr>] \<and>
    smem k' = copyStacklet k i (smem k) \<and> primaryOff k' = 0 \<and> replicaOff k' = replicaOff k"
  using assms
  by (simp add: Stacklet_Copy_def updSt_def Let_def stacklet_frames_def copyStacklet_def stackletWords_def)

lemma up_one:
  assumes p: "primaryOff k = 0" "i < length (Stacklets k)" and F: "stacklet_frames e R m0 (Stacklets k ! i) fs"
    and m: "agree R m0 (smem k)" "replicaWords k (Stacklets k ! i) \<subseteq> R" "tables_clear e R" and t: "trace_ok e (smem k) T"
  shows "\<exists>k1 x T'. Stacklet_Copy i (updSt i (\<lambda>x. x\<lparr>sl_state := Pending\<rparr>) k) = Inr (True, k1) \<and>
    uptrace_stacklet e (smem k1) 0 (Stacklets k1 ! i) T = Inr (x, T') \<and> scanned_as (Stacklets k ! i) fs x \<and>
    Stacklets (updSt i (\<lambda>_. x) k1) = (Stacklets k)[i := x] \<and> smem k1 = copyStacklet k i (smem k) \<and>
    primaryOff k1 = 0 \<and> replicaOff k1 = replicaOff k \<and> trace_ok e (smem k1) T' \<and> tRoots T' = tRoots T"
proof -
  let ?x = "Stacklets k ! i"
  from copy_one [OF p F] obtain k1 where k1: "Stacklet_Copy i (updSt i (\<lambda>x. x\<lparr>sl_state := Pending\<rparr>) k) = Inr (True, k1)"
    "Stacklets k1 = (Stacklets k)[i := ?x\<lparr>callinfoStack := SetReset (callinfoStack ?x),
      replicaCursor := baseCursor ?x, replicaRetadd := retadd ?x,
      bottomBaseRegs := take 32 (bottomBaseRegs ?x) @ take 32 (bottomBaseRegs ?x), sl_state := InactiveCopied\<rparr>]"
    "smem k1 = copyStacklet k i (smem k)" "primaryOff k1 = 0" "replicaOff k1 = replicaOff k" by blast
  have a: "agree R (smem k) (smem k1)" using agree_copy [OF m(2)] by (simp add: k1(3))
  have fr: "frames e (smem k1) (baseCursor ?x) (word_of_nat (retadd ?x)) fs (baseTop ?x)"
    using F agree_trans [OF m(1) a] by (simp add: stacklet_frames_def)
  let ?y = "Stacklets k1 ! i"
  have "frames e (smem k1) (replicaCursor ?y + 4 * (0 div 4)) (word_of_nat (replicaRetadd ?y)) fs (baseTop ?y + 4 * (0 div 4))"
    "set_ok (callinfoStack ?y)" "set_items (callinfoStack ?y) = []"
    using fr p(2) F SetReset_ok [of "callinfoStack ?x"] by (simp_all add: k1(2) stacklet_frames_def)
  from uptrace_ok [OF this(1) trace_ok_agree [OF a m(3) t] this(2,3)] obtain cs T' where
    u: "uptrace_stacklet e (smem k1) 0 ?y T = Inr (?y\<lparr>callinfoStack := cs\<rparr>, T')" "set_ok cs"
      "set_items cs = map fst fs" "trace_ok e (smem k1) T'" "tRoots T' = tRoots T" by blast
  moreover have "scanned_as ?x fs (?y\<lparr>callinfoStack := cs\<rparr>)" 
    using p(2) u(2,3) F by (simp add: scanned_as_def k1(2) stacklet_frames_def)
  ultimately show ?thesis using k1 by (intro exI [of _ k1] exI [of _ "?y\<lparr>callinfoStack := cs\<rparr>"] exI [of _ T']) (simp add: updSt_def)
qed

lemma upStacklets_ok:
  assumes "primaryOff k = 0" "distinct js" "\<forall>i \<in> set js. i < length (Stacklets k) \<and> stacklet_frames e R m0 (Stacklets k ! i) (F i)
      \<and> replicaWords k (Stacklets k ! i) \<subseteq> R"
    and "agree R m0 (smem k)" "tables_clear e R" and "trace_ok e (smem k) T"
  shows "\<exists>nf' nw' k' T'. upStacklets e 0 (map Some js) nf nw k T = Inr (nf', nw', k', T') \<and>
    length (Stacklets k') = length (Stacklets k) \<and> (\<forall>i \<in> set js. scanned_as (Stacklets k ! i) (F i) (Stacklets k' ! i)) \<and>
    (\<forall>i. i \<notin> set js \<longrightarrow> Stacklets k' ! i = Stacklets k ! i) \<and> smem k' = fold (copyStacklet k) js (smem k) \<and>
    primaryOff k' = 0 \<and> agree R m0 (smem k') \<and> trace_ok e (smem k') T' \<and> tRoots T' = tRoots T"
  using assms
proof (induction js arbitrary: nf nw k T)
  case (Cons i js)
  have i: "i < length (Stacklets k)" "stacklet_frames e R m0 (Stacklets k ! i) (F i)" "replicaWords k (Stacklets k ! i) \<subseteq> R"
    using Cons.prems(3) by simp_all
  from up_one [OF Cons.prems(1) i(1,2) Cons.prems(4) i(3) Cons.prems(5,6)] obtain k1 x T' where
    u: "Stacklet_Copy i (updSt i (\<lambda>x. x\<lparr>sl_state := Pending\<rparr>) k) = Inr (True, k1)"
      "uptrace_stacklet e (smem k1) 0 (Stacklets k1 ! i) T = Inr (x, T')" "scanned_as (Stacklets k ! i) (F i) x"
      "Stacklets (updSt i (\<lambda>_. x) k1) = (Stacklets k)[i := x]" "smem k1 = copyStacklet k i (smem k)"
      "primaryOff k1 = 0" "replicaOff k1 = replicaOff k" "trace_ok e (smem k1) T'" "tRoots T' = tRoots T" by blast
  let ?k2 = "updSt i (\<lambda>_. x) k1"
  have k2: "smem ?k2 = copyStacklet k i (smem k)" "primaryOff ?k2 = 0" "replicaOff ?k2 = replicaOff k"
    using u by (simp_all add: updSt_def)
  have oth: "Stacklets ?k2 ! j = Stacklets k ! j" if "j \<noteq> i" for j
    by (subst u(4)) (use that in simp)
  have len: "length (Stacklets ?k2) = length (Stacklets k)" by (subst u(4)) simp
  have cp: "copyStacklet ?k2 j = copyStacklet k j" if "j \<noteq> i" for j
    using oth [OF that] by (intro ext) (simp add: copyStacklet_def k2)
  have ag: "agree R m0 (smem ?k2)" using agree_trans [OF Cons.prems(4) agree_copy [OF i(3)]] by (simp add: k2)
  have js: "\<forall>j \<in> set js. j < length (Stacklets ?k2) \<and> stacklet_frames e R m0 (Stacklets ?k2 ! j) (F j)
      \<and> replicaWords ?k2 (Stacklets ?k2 ! j) \<subseteq> R"
  proof
    fix j assume "j \<in> set js"
    then have j: "j \<noteq> i" "j < length (Stacklets k)" "stacklet_frames e R m0 (Stacklets k ! j) (F j)" "replicaWords k (Stacklets k ! j) \<subseteq> R"
      using Cons.prems(2,3) by auto
    then show "j < length (Stacklets ?k2) \<and> stacklet_frames e R m0 (Stacklets ?k2 ! j) (F j) \<and> replicaWords ?k2 (Stacklets ?k2 ! j) \<subseteq> R"
      unfolding oth [OF j(1)] len replicaWords_def k2(3) by blast
  qed
  have "trace_ok e (smem ?k2) T'" using u(8) by (simp add: updSt_def)
  from Cons.IH [OF k2(2) _ js ag Cons.prems(5) this, of "nf + int (SetLength (callinfoStack x))"
      "nw + int ((baseTop x - baseCursor x) div 4)"] Cons.prems(2) obtain nf' nw' k' T2 where
    w: "upStacklets e 0 (map Some js) (nf + int (SetLength (callinfoStack x))) (nw + int ((baseTop x - baseCursor x) div 4)) ?k2 T'
        = Inr (nf', nw', k', T2)" "length (Stacklets k') = length (Stacklets ?k2)"
      "\<forall>j \<in> set js. scanned_as (Stacklets ?k2 ! j) (F j) (Stacklets k' ! j)"
      "\<forall>j. j \<notin> set js \<longrightarrow> Stacklets k' ! j = Stacklets ?k2 ! j" "smem k' = fold (copyStacklet ?k2) js (smem ?k2)"
      "primaryOff k' = 0" "agree R m0 (smem k')" "trace_ok e (smem k') T2" "tRoots T2 = tRoots T'" by auto
  have fo: "fold (copyStacklet ?k2) js m = fold (copyStacklet k) js m" for m
    by (rule fold_cong, simp, simp, rule cp) (use Cons.prems(2) in auto)
  moreover have "upStacklets e 0 (map Some (i # js)) nf nw k T = Inr (nf', nw', k', T2)"
    using u(1,2) w(1) by simp
  moreover have "\<forall>j \<in> set (i # js). scanned_as (Stacklets k ! j) (F j) (Stacklets k' ! j)"
  proof
    fix j assume "j \<in> set (i # js)"
    then show "scanned_as (Stacklets k ! j) (F j) (Stacklets k' ! j)"
      using Cons.prems(2) w(3,4) oth [of j] u(3,4) i(1) by (cases "j = i") auto
  qed
  moreover have "\<forall>j. j \<notin> set (i # js) \<longrightarrow> Stacklets k' ! j = Stacklets k ! j" 
    using w(4) oth by (metis list.set_intros(1) list.set_intros(2))
  moreover have "length (Stacklets k') = length (Stacklets k)" by (simp only: w(2) len)
  moreover have "smem k' = fold (copyStacklet k) (i # js) (smem k)" by (simp only: w(5) fo k2(1) fold.simps comp_apply)
  moreover have "tRoots T2 = tRoots T" by (simp only: w(9) u(9))
  ultimately show ?case using w(6-8) by blast
qed simp

lemma down_one:
  assumes "frames e (smem k) sp ra fs (baseTop x)" and "trace_ok e (smem k) T" and "scanned_as x fs (Stacklets k ! i)"
  shows "mapE (\<lambda>(reg, x, t). (reg, tRoots t)) (downtrace_stacklet e (smem k) 0 (Stacklets k ! i) T) = refFrames e (smem k) fs (tRoots T)"
    "downtrace_stacklet e (smem k) 0 (Stacklets k ! i) T = Inr (reg, y, T') \<Longrightarrow>
       (\<exists>cs. y = (Stacklets k ! i)\<lparr>callinfoStack := cs\<rparr>) \<and> trace_ok e (smem k) T'"
proof -
  let ?y = "Stacklets k ! i"
  have "frames e (smem k) sp ra fs (baseTop ?y + 4 * (0 div 4))" "set_ok (callinfoStack ?y)" "set_items (callinfoStack ?y) = map fst fs"
    using assms(1,3) by (simp_all add: scanned_as_def)
  note d = downtrace_ok [OF this(1) assms(2) this(2,3)]
  show "mapE (\<lambda>(reg, x, t). (reg, tRoots t)) (downtrace_stacklet e (smem k) 0 ?y T) = refFrames e (smem k) fs (tRoots T)" by (rule d(1))
  show "downtrace_stacklet e (smem k) 0 ?y T = Inr (reg, y, T') \<Longrightarrow>
       (\<exists>cs. y = ?y\<lparr>callinfoStack := cs\<rparr>) \<and> trace_ok e (smem k) T'" using d(2) by blast
qed

lemma trace_ok_withRoots [simp]: "trace_ok e m (withRoots r T) = trace_ok e m T" "tRoots (withRoots r T) = r"
  by (simp_all add: trace_ok_def withRoots_def)

lemma downStacklets_ok:
  assumes "distinct js" and "\<forall>i \<in> set js. i < length (Stacklets k) \<and> scanned_as (X i) (F i) (Stacklets k ! i) \<and>
      (\<exists>sp ra. frames e (smem k) sp ra (F i) (baseTop (X i)))" and "trace_ok e (smem k) T"
  shows "mapE (\<lambda>(k, T). tRoots T) (downStacklets e A t 0 regs (map Some js) k T) =
    refThread e A t regs (smem k) (map (\<lambda>i. (i, take 32 (bottomBaseRegs (X i)), F i)) js) (tRoots T)"
  using assms
proof (induction js arbitrary: k T)
  case (Cons i js)
  obtain sp ra where i: "i < length (Stacklets k)" "scanned_as (X i) (F i) (Stacklets k ! i)" "frames e (smem k) sp ra (F i) (baseTop (X i))"
    using Cons.prems(2) by auto
  note d = down_one [OF i(3) Cons.prems(3) i(2)]
  show ?case
  proof (cases "downtrace_stacklet e (smem k) 0 (Stacklets k ! i) T")
    case (Inl f)
    then have "refFrames e (smem k) (F i) (tRoots T) = Inl f" using d(1) by simp
    then show ?thesis using Inl by simp
  next
    case (Inr q)
    obtain reg y T' where q: "q = (reg, y, T')" by (cases q)
    have ref: "refFrames e (smem k) (F i) (tRoots T) = Inr (reg, tRoots T')" using d(1) Inr q by simp
    obtain cs where y: "y = (Stacklets k ! i)\<lparr>callinfoStack := cs\<rparr>" and T': "trace_ok e (smem k) T'" using d(2) Inr q by blast
    have rg: "stackletRegs 0 y = take 32 (bottomBaseRegs (X i))" using i(2) by (simp add: y stackletRegs_def scanned_as_def)
    let ?k = "updSt i (\<lambda>_. y) k"
    have k: "smem ?k = smem k" by (simp add: updSt_def)
    have js: "\<forall>j \<in> set js. j < length (Stacklets ?k) \<and> scanned_as (X j) (F j) (Stacklets ?k ! j) \<and>
      (\<exists>sp ra. frames e (smem ?k) sp ra (F j) (baseTop (X j)))"
      using Cons.prems(1,2) by (auto simp: updSt_def nth_list_update)
    have rest: "mapE (\<lambda>(k, T). tRoots T) (downStacklets e A t 0 regs (map Some js) ?k (withRoots r T')) =
      refThread e A t regs (smem k) (map (\<lambda>i. (i, take 32 (bottomBaseRegs (X i)), F i)) js) r" for r
      using Cons.IH [OF _ js, of "withRoots r T'"] Cons.prems(1) T' by (simp add: k)
    show ?thesis
      using Inr by (simp add: q Let_def rg ref mapE_bindE rest)
  qed
qed simp

lemma rs_sel [simp]: "rsStk (setStk k s) = k" "rsTrace (setStk k s) = rsTrace s"
  by (simp_all add: rsStk_def setStk_def)

text \<open>C12: Scanning a thread finds exactly its roots: the installed locations, then for every stacklet of
  its stack, oldest first, all slots that the tables mark and the registers of the stacklet, and at the
  end the registers of the thread.  Neither the order in which the stacklets are copied nor the caches
  of the tables matter, and the copies change only the replica areas.\<close>

theorem thread_root_scan_exact:
  assumes "primaryOff (rsStk s) = 0" and "thunk (rsThread t s) = 0" and "thStack (rsThread t s) = Some c"
    and "activeSt (StackChains (rsStk s) ! c) = map Some js" and "distinct js"
    and js: "\<forall>i \<in> set js. i < length (Stacklets (rsStk s)) \<and> replicaWords (rsStk s) (Stacklets (rsStk s) ! i) \<subseteq> R \<and>
      stacklet_frames e R (smem (rsStk s)) (Stacklets (rsStk s) ! i) (F i)"
    and "tables_clear e R" and "trace_ok e (smem (rsStk s)) (rsTrace s)"
  shows "mapE (\<lambda>s'. tRoots (rsTrace s')) (thread_root_scan e A t s) =
     bindE (foldE (pushLoc e (readLoc A t (rsThread t s) (smem (rsStk s)))) (rootLocs (rsThread t s)) (tRoots (rsTrace s)))
       (refThread e A t (saveregs (rsThread t s)) (fold (copyStacklet (rsStk s)) (rev js) (smem (rsStk s)))
         (map (\<lambda>i. (i, take 32 (bottomBaseRegs (Stacklets (rsStk s) ! i)), F i)) js)) \<and>
     agree R (smem (rsStk s)) (fold (copyStacklet (rsStk s)) (rev js) (smem (rsStk s)))"
proof -
  let ?k = "rsStk s" and ?m = "smem (rsStk s)" and ?th = "rsThread t s"
  have a: "agree R ?m ?m" by (simp add: agree_def)
  have up: "\<exists>nf' nw' k' T'. upStacklets e 0 (map Some (rev js)) 0 0 ?k (withRoots r (rsTrace s)) = Inr (nf', nw', k', T') \<and>
    length (Stacklets k') = length (Stacklets ?k) \<and> (\<forall>i \<in> set (rev js). scanned_as (Stacklets ?k ! i) (F i) (Stacklets k' ! i)) \<and>
    (\<forall>i. i \<notin> set (rev js) \<longrightarrow> Stacklets k' ! i = Stacklets ?k ! i) \<and> smem k' = fold (copyStacklet ?k) (rev js) ?m \<and>
    primaryOff k' = 0 \<and> agree R ?m (smem k') \<and> trace_ok e (smem k') T' \<and> tRoots T' = r" for r
    using upStacklets_ok [OF assms(1) _ _ a assms(7), of "rev js" F "withRoots r (rsTrace s)" 0 0] assms(5,8) js by simp
  have "mapE (\<lambda>s'. tRoots (rsTrace s')) (thread_root_scan e A t s) =
     bindE (foldE (pushLoc e (readLoc A t ?th ?m)) (rootLocs ?th) (tRoots (rsTrace s))) (\<lambda>r.
     bindE (upStacklets e 0 (map Some (rev js)) 0 0 ?k (withRoots r (rsTrace s))) (\<lambda>(nf, nw, k, T).
     mapE (\<lambda>(k, T). tRoots T) (downStacklets e A t (primaryOff k) (saveregs ?th) (map Some js) k T)))"
    using assms(1-4)
    by (simp add: thread_root_scan_def Let_def mapE_bindE rev_map split_beta) (simp add: mapE_def split_def rsStk_def setStk_def)
  also have "\<dots> = bindE (foldE (pushLoc e (readLoc A t ?th ?m)) (rootLocs ?th) (tRoots (rsTrace s)))
       (refThread e A t (saveregs ?th) (fold (copyStacklet ?k) (rev js) ?m)
         (map (\<lambda>i. (i, take 32 (bottomBaseRegs (Stacklets ?k ! i)), F i)) js))"
  proof (rule bindE_cong [OF refl])
    fix r
    from up [of r] obtain nf nw k' T' where u: "upStacklets e 0 (map Some (rev js)) 0 0 ?k (withRoots r (rsTrace s)) = Inr (nf, nw, k', T')"
      "length (Stacklets k') = length (Stacklets ?k)" "\<forall>i \<in> set (rev js). scanned_as (Stacklets ?k ! i) (F i) (Stacklets k' ! i)"
      "smem k' = fold (copyStacklet ?k) (rev js) ?m" "primaryOff k' = 0" "agree R ?m (smem k')" "trace_ok e (smem k') T'" "tRoots T' = r"
      by blast
    have "\<forall>i \<in> set js. i < length (Stacklets k') \<and> scanned_as (Stacklets ?k ! i) (F i) (Stacklets k' ! i) \<and>
      (\<exists>sp ra. frames e (smem k') sp ra (F i) (baseTop (Stacklets ?k ! i)))"
      using js u(2,3,6) unfolding stacklet_frames_def by auto
    from downStacklets_ok [OF assms(5) this u(7), of A t "saveregs ?th"]
    show "bindE (upStacklets e 0 (map Some (rev js)) 0 0 ?k (withRoots r (rsTrace s))) (\<lambda>(nf, nw, k, T).
        mapE (\<lambda>(k, T). tRoots T) (downStacklets e A t (primaryOff k) (saveregs ?th) (map Some js) k T)) =
      refThread e A t (saveregs ?th) (fold (copyStacklet ?k) (rev js) ?m)
         (map (\<lambda>i. (i, take 32 (bottomBaseRegs (Stacklets ?k ! i)), F i)) js) r"
      using u(1,4,5,8) by simp
  qed
  moreover have "agree R ?m (fold (copyStacklet ?k) (rev js) ?m)" using up by metis
  ultimately show ?thesis by simp
qed

lemma entry_wf_agree:
  assumes "agree R m m'" and "entryArea ci \<inter> R = {}" and "entry_wf m ci"
  shows "entry_wf m' ci"
proof -
  note f = entry_agree [OF assms(1,2)]
  let ?n = "GET_FRAMESIZE (ci_size0 m ci)"
  have "stackBot m' ci i = 0" if "?n \<le> i" "i < 16 * ((?n + 15) div 16)" for i
  proof -
    have "(?n + 15) div 16 \<le> 65550 div 16" using framesize_bound [of "ci_size0 m ci"] by (intro div_le_mono) simp
    then have "i < 4096 * 16" using that(2) by simp
    then have "i div 16 < 4096" by (rule less_mult_imp_div_less)
    then have "rawdata ci + 4 * (i div 16) \<in> entryArea ci" by (simp add: entryArea_def rawdata_def)
    then have "rawdata ci + 4 * (i div 16) \<notin> R" using assms(2) by blast
    then have "stackBot m' ci i = stackBot m ci i" using assms(1) by (simp add: stackBot_def agree_def)
    then show ?thesis using assms(3) that by (simp add: entry_wf_def Let_def)
  qed
  then show ?thesis using assms(3) f by (simp add: entry_wf_def Let_def)
qed

definition demo_rthread :: thread where
  "demo_rthread = \<lparr>saveregs = replicate 32 60000, thProc = None, request = YieldRequest, requestInfo = 0, writelistAlloc = 0,
     writelistLimit = 0, stackLimit = 0, stackTop = 0, thGlobalOffset = 0, thStackletOffset = 0, thArrayOffset = 0, thunk = 0,
     rootVals = replicate 10 0, rootLocs = replicate 10 0, thStack = Some 0, tid = 0, thId = 0, thUsed = True, thStatus = 0,
     thPinned = False, thParent = None\<rparr>"

definition demo_rscan :: rscan where
  \<comment> \<open>one thread with one stacklet with one frame\<close>
  "demo_rscan = \<lparr>rsSched = \<lparr>Threads = [demo_rthread], Procs = [], JobQueue = [Some 0], activeThread = 1, maxThread = 1,
       totalThread = 1, curThread = 0, EmptyPlain = False,
       stk = (StackInitialize demo_table)\<lparr>Stacklets := [initStacklet\<lparr>sl_count := 1, sl_mapped := True, baseExtendedBottom := 3000,
           baseBottom := 3500, baseCursor := 4000, baseTop := 4016, retadd := 492, callinfoStack := SetInit 32\<rparr>],
         StackChains := [\<lparr>sc_used = True, sc_cursor = 1, sc_avail = 10, sc_stacklets = Some 0 # replicate 9 None, sc_thread = Some 0\<rparr>]\<rparr>\<rparr>,
     rsTrace = demo_tracest, rsStacklets = SetInit 32, TotalStackDepth = 0, MaxStackDepth = 0, TotalStackSize = 0\<rparr>"

definition demo_raddr :: raddr where
  "demo_raddr = \<lparr>thAddr = (\<lambda>t. 500000 + 1000 * t), regsAddr = (\<lambda>i. 600000 + 300 * i)\<rparr>"

theorem thread_root_scan_exact_witness:
  "mapE (\<lambda>s'. tRoots (rsTrace s')) (thread_root_scan (demo_senv\<lparr>callTable := demo_hash\<rparr>) demo_raddr 0 demo_rscan) =
     bindE (foldE (pushLoc (demo_senv\<lparr>callTable := demo_hash\<rparr>) (readLoc demo_raddr 0 demo_rthread demo_table))
         (replicate 10 0) (SetInit 32))
       (refThread (demo_senv\<lparr>callTable := demo_hash\<rparr>) demo_raddr 0 (replicate 32 60000)
         (fold (copyStacklet (rsStk demo_rscan)) [0] demo_table) [(0, replicate 32 0, [(1000, 4000)])])"
proof -
  let ?e = "demo_senv\<lparr>callTable := demo_hash\<rparr>" and ?x = "Stacklets (rsStk demo_rscan) ! 0"
  let ?R = "replicaWords (rsStk demo_rscan) ?x"
  have sel: "rsThread 0 demo_rscan = demo_rthread" "smem (rsStk demo_rscan) = demo_table" "primaryOff (rsStk demo_rscan) = 0"
    "baseCursor ?x = 4000" "baseTop ?x = 4016" "retadd ?x = 492" "bottomBaseRegs ?x = replicate 64 0"
    "sl_count ?x = 1" "baseExtendedBottom ?x = 3000" "callinfoStack ?x = SetInit 32" "length (Stacklets (rsStk demo_rscan)) = 1"
    "activeSt (StackChains (rsStk demo_rscan) ! 0) = map Some [0]" "rsTrace demo_rscan = demo_tracest"
    "replicaOff (rsStk demo_rscan) = 172032"
    by (simp_all add: demo_rscan_def rsThread_def rsStk_def StackInitialize_def initStacklet_def activeSt_def stackletOffset_def
        GuardStackletSize_def MLStackletSize_def CStackletSize_def kilobyte_def TILT_PAGESIZE_def)
  have clear: "entryArea 1000 \<inter> ?R = {}" by (auto simp: replicaWords_def sel(4,14) entryArea_def)
  have hm: "hmap demo_hash = [500 \<mapsto> 1000]" "hash_ok demo_hash" "0 < free_slots demo_hash" using demo_hash_ok by simp_all
  have fr: "frames ?e m' 4000 492 [(1000, 4000)] 4016" if "agree ?R demo_table m'" for m'
    using entry_wf_agree [OF that clear demo_table_wf] entry_agree(1) [OF that clear] hm(1)
    by (simp add: demo_table_entry(3) UNINIT_KEY_def)
  have sf: "stacklet_frames ?e ?R demo_table ?x [(1000, 4000)]"
    using fr SetInit_ok [of 32] by (simp add: stacklet_frames_def sel)
  have t: "trace_ok ?e demo_table demo_tracest"
    using hm cursor0_ok by (simp add: trace_ok_def table_ok_def cache_ok_def demo_tracest_def cursor0_def)
  have tc: "tables_clear ?e ?R" using clear hm(1) by (simp add: tables_clear_def)
  from thread_root_scan_exact [of demo_rscan 0 0 "[0]" ?R ?e "\<lambda>_. [(1000, 4000)]" demo_raddr] sf t tc
  show ?thesis by (simp add: sel demo_rthread_def demo_tracest_def)
qed

end
