(* ===== verification/SchedView.thy ===== *)
theory SchedView
  imports Jobs
begin

text \<open>
  The invariant of the scheduler, over the fields of a state that matter (\<open>view\<close>): the threads in the
  queue, their status, who holds them, where they are mapped.

  The field \<open>status\<close> of a thread counts: one for the processor that fetched it, one for each child
  that is not finished, and one more while it is being deleted.  A thread with status 0 is ready.  The
  invariant \<open>vinv\<close> states this together with what the queue, the threads and the processors say of
  each other; the lemmas show that each kind of change keeps it.  The theory \<open>Scheduler\<close> shows that
  the steps of the processors are such changes.
\<close>

subsection \<open>Where a processor is\<close>

datatype spc =
    SIdle
  | SCheck "nat option"    \<comment> \<open>in the loop of \<open>work\<close>, after \<open>FetchJob\<close>\<close>
  | SWork nat              \<comment> \<open>in \<open>work\<close> with a thread, which is mapped after a request for memory\<close>
  | SRun nat               \<comment> \<open>the thread runs\<close>
  | SSpawn nat nat         \<comment> \<open>in \<open>SpawnRest\<close>, the child is created\<close>
  | SYield nat             \<comment> \<open>in \<open>ReleaseJob\<close> for \<open>YieldRest\<close>, before the status is lowered\<close>
  | SDel1 nat | SDel2 nat | SDel3 nat | SDel4 nat | SDel5 nat   \<comment> \<open>in \<open>DeleteJob\<close>\<close>
  | SExit

subsection \<open>What matters of a state\<close>

record view =
  vq :: "nat set"                  \<comment> \<open>the threads in the queue\<close>
  vst :: "nat \<Rightarrow> int"
  vused :: "nat \<Rightarrow> bool"
  vpin :: "nat \<Rightarrow> bool"
  vpar :: "nat \<Rightarrow> nat option"
  vproc :: "nat \<Rightarrow> nat option"
  vuser :: "nat \<Rightarrow> nat option"
  vact :: int
  vempty :: bool
  vpc :: "nat \<Rightarrow> spc"

fun pcThread :: "spc \<Rightarrow> nat option" where
  \<comment> \<open>the thread a processor holds\<close>
  "pcThread SIdle = None"
| "pcThread (SCheck r) = r"
| "pcThread (SWork t) = Some t"
| "pcThread (SRun t) = Some t"
| "pcThread (SSpawn t c) = Some t"
| "pcThread (SYield t) = Some t"
| "pcThread (SDel1 t) = Some t"
| "pcThread (SDel2 t) = Some t"
| "pcThread (SDel3 t) = Some t"
| "pcThread (SDel4 t) = Some t"
| "pcThread (SDel5 t) = Some t"
| "pcThread SExit = None"

fun pcWeight :: "spc \<Rightarrow> int" where
  \<comment> \<open>what it adds to the status\<close>
  "pcWeight (SDel1 t) = 2"
| "pcWeight (SDel2 t) = 2"
| "pcWeight _ = 1"

fun pcMapped :: "spc \<Rightarrow> nat option \<Rightarrow> bool" where
  \<comment> \<open>the possible values of \<open>userThread\<close>\<close>
  "pcMapped (SRun t) u = (u = Some t)"
| "pcMapped (SSpawn t c) u = (u = Some t)"
| "pcMapped (SDel1 t) u = (u = Some t)"
| "pcMapped (SWork t) u = (u = None \<or> u = Some t)"
| "pcMapped _ u = (u = None)"

definition counted :: "nat \<Rightarrow> view \<Rightarrow> nat \<Rightarrow> bool" where
  \<comment> \<open>a thread that its parent counts\<close>
  "counted N v c \<longleftrightarrow> c \<in> vq v \<and> vst v c \<noteq> - 1 \<and> (\<forall>p<N. vpc v p \<noteq> SDel4 c)"

definition kids :: "nat \<Rightarrow> view \<Rightarrow> nat \<Rightarrow> nat" where
  \<comment> \<open>the number of unfinished children\<close>
  "kids N v t = card {c. counted N v c \<and> vpar v c = Some t}"

definition vqueue :: "nat \<Rightarrow> nat \<Rightarrow> view \<Rightarrow> bool" where
  \<comment> \<open>the queue and the slots of threads\<close>
  "vqueue N NT v \<longleftrightarrow>
     (\<forall>t\<in>vq v. t < NT \<and> vused v t) \<and>
     (\<forall>t<NT. vused v t \<longrightarrow> t \<in> vq v \<or> (\<exists>p<N. \<exists>u. vpc v p = SSpawn u t)) \<and>
     (\<forall>t<NT. \<not> vused v t \<longrightarrow> vst v t = - 1 \<and> \<not> vpin v t) \<and>
     vact v = int (card (vq v)) \<and> (vempty v \<longleftrightarrow> vq v = {})"

definition vhold :: "nat \<Rightarrow> nat \<Rightarrow> view \<Rightarrow> bool" where
  \<comment> \<open>who holds a thread\<close>
  "vhold N NT v \<longleftrightarrow>
     (\<forall>p<N. \<forall>q<N. \<forall>t. pcThread (vpc v p) = Some t \<longrightarrow> pcThread (vpc v q) = Some t \<longrightarrow> p = q) \<and>
     (\<forall>p<N. \<forall>t. pcThread (vpc v p) = Some t \<longrightarrow> t \<in> vq v) \<and>
     (\<forall>p<N. \<forall>u c. vpc v p = SSpawn u c \<longrightarrow> c < NT \<and> vused v c \<and> c \<notin> vq v \<and> vpar v c = Some u \<and> \<not> vpin v c) \<and>
     (\<forall>p<N. \<forall>q<N. \<forall>u w c. vpc v p = SSpawn u c \<longrightarrow> vpc v q = SSpawn w c \<longrightarrow> p = q)"

definition vmap :: "nat \<Rightarrow> nat \<Rightarrow> view \<Rightarrow> bool" where
  \<comment> \<open>threads mapped onto processors\<close>
  "vmap N NT v \<longleftrightarrow>
     (\<forall>p<N. pcMapped (vpc v p) (vuser v p)) \<and>
     (\<forall>p<N. \<forall>t. vuser v p = Some t \<longleftrightarrow> t < NT \<and> vproc v t = Some p) \<and>
     (\<forall>t<NT. \<forall>p. vproc v t = Some p \<longrightarrow> p < N)"

definition vstatus :: "nat \<Rightarrow> view \<Rightarrow> bool" where
  \<comment> \<open>what the status counts\<close>
  "vstatus N v \<longleftrightarrow>
     (\<forall>p<N. \<forall>t. vpc v p = SDel5 t \<longrightarrow> vst v t = - 1) \<and>
     (\<forall>t\<in>vq v. vst v t = - 1 \<longrightarrow> vpin v t \<or> (\<exists>p<N. vpc v p = SDel5 t)) \<and>
     (\<forall>c u. counted N v c \<longrightarrow> vpar v c = Some u \<longrightarrow> u \<in> vq v \<and> vst v u \<noteq> - 1) \<and>
     (\<forall>p<N. \<forall>t. pcThread (vpc v p) = Some t \<longrightarrow> vpc v p \<noteq> SDel5 t \<longrightarrow> vst v t = pcWeight (vpc v p) + int (kids N v t)) \<and>
     (\<forall>t\<in>vq v. vst v t \<noteq> - 1 \<longrightarrow> (\<forall>p<N. pcThread (vpc v p) \<noteq> Some t) \<longrightarrow> vst v t = int (kids N v t))"

definition vinv :: "nat \<Rightarrow> nat \<Rightarrow> view \<Rightarrow> bool" where
  "vinv N NT v \<longleftrightarrow> vqueue N NT v \<and> vhold N NT v \<and> vmap N NT v \<and> vstatus N v"


subsection \<open>The invariant is kept: on views\<close>

lemma vqueueD:
  assumes "vinv N NT v"
  shows vq_used: "\<And>t. t \<in> vq v \<Longrightarrow> t < NT \<and> vused v t"
    and v_used: "\<And>t. t < NT \<Longrightarrow> vused v t \<Longrightarrow> t \<in> vq v \<or> (\<exists>p<N. \<exists>u. vpc v p = SSpawn u t)"
    and v_unused: "\<And>t. t < NT \<Longrightarrow> \<not> vused v t \<Longrightarrow> vst v t = - 1 \<and> \<not> vpin v t"
    and v_act: "vact v = int (card (vq v))" and v_empty: "vempty v \<longleftrightarrow> vq v = {}"
  using assms by (simp_all add: vinv_def vqueue_def)

lemma vholdD:
  assumes "vinv N NT v"
  shows v_once: "\<And>p q t. p < N \<Longrightarrow> q < N \<Longrightarrow> pcThread (vpc v p) = Some t \<Longrightarrow> pcThread (vpc v q) = Some t \<Longrightarrow> p = q"
    and v_held: "\<And>p t. p < N \<Longrightarrow> pcThread (vpc v p) = Some t \<Longrightarrow> t \<in> vq v"
    and v_spawn: "\<And>p u c. p < N \<Longrightarrow> vpc v p = SSpawn u c \<Longrightarrow> c < NT \<and> vused v c \<and> c \<notin> vq v \<and> vpar v c = Some u \<and> \<not> vpin v c"
    and v_spawn1: "\<And>p q u w c. p < N \<Longrightarrow> q < N \<Longrightarrow> vpc v p = SSpawn u c \<Longrightarrow> vpc v q = SSpawn w c \<Longrightarrow> p = q"
proof -
  have h: "vhold N NT v" using assms by (simp add: vinv_def)
  show "\<And>p q t. p < N \<Longrightarrow> q < N \<Longrightarrow> pcThread (vpc v p) = Some t \<Longrightarrow> pcThread (vpc v q) = Some t \<Longrightarrow> p = q"
    "\<And>p t. p < N \<Longrightarrow> pcThread (vpc v p) = Some t \<Longrightarrow> t \<in> vq v"
    "\<And>p u c. p < N \<Longrightarrow> vpc v p = SSpawn u c \<Longrightarrow> c < NT \<and> vused v c \<and> c \<notin> vq v \<and> vpar v c = Some u \<and> \<not> vpin v c"
    "\<And>p q u w c. p < N \<Longrightarrow> q < N \<Longrightarrow> vpc v p = SSpawn u c \<Longrightarrow> vpc v q = SSpawn w c \<Longrightarrow> p = q"
    using h unfolding vhold_def by blast+
qed

lemma vmapD:
  assumes "vinv N NT v"
  shows v_mapped: "\<And>p. p < N \<Longrightarrow> pcMapped (vpc v p) (vuser v p)"
    and v_user: "\<And>p t. p < N \<Longrightarrow> vuser v p = Some t \<longleftrightarrow> t < NT \<and> vproc v t = Some p"
    and v_proc: "\<And>p t. t < NT \<Longrightarrow> vproc v t = Some p \<Longrightarrow> p < N"
  using assms by (simp_all add: vinv_def vmap_def)

lemma vstatusD:
  assumes "vinv N NT v"
  shows v_del5: "\<And>p t. p < N \<Longrightarrow> vpc v p = SDel5 t \<Longrightarrow> vst v t = - 1"
    and v_dead: "\<And>t. t \<in> vq v \<Longrightarrow> vst v t = - 1 \<Longrightarrow> vpin v t \<or> (\<exists>p<N. vpc v p = SDel5 t)"
    and v_kid: "\<And>c u. counted N v c \<Longrightarrow> vpar v c = Some u \<Longrightarrow> u \<in> vq v \<and> vst v u \<noteq> - 1"
    and v_status: "\<And>p t. p < N \<Longrightarrow> pcThread (vpc v p) = Some t \<Longrightarrow> vpc v p \<noteq> SDel5 t \<Longrightarrow>
       vst v t = pcWeight (vpc v p) + int (kids N v t)"
    and v_free: "\<And>t. t \<in> vq v \<Longrightarrow> vst v t \<noteq> - 1 \<Longrightarrow> (\<And>p. p < N \<Longrightarrow> pcThread (vpc v p) \<noteq> Some t) \<Longrightarrow> vst v t = int (kids N v t)"
  using assms by (simp_all add: vinv_def vstatus_def)

lemma kids_cong: "(\<And>c. counted N v' c \<and> vpar v' c = Some t \<longleftrightarrow> counted N v c \<and> vpar v c = Some t) \<Longrightarrow> kids N v' t = kids N v t"
  by (simp add: kids_def)

definition heldWeight :: "spc \<Rightarrow> nat \<Rightarrow> int" where
  "heldWeight c t = (if pcThread c = Some t then pcWeight c else 0)"

text \<open>A processor changes what it does with a thread that no other processor holds: it may take it,
  drop it, map it, unmap it or keep it, and adjusts the status.\<close>

lemma vinv_pc:
  assumes i: "vinv N NT v" and p: "p < N" and t: "pcThread (vpc v p) \<in> {None, Some t}" "pcThread c \<in> {None, Some t}"
    and tq: "t \<in> vq v" "vst v t \<noteq> - 1"
    and other: "\<And>q. q < N \<Longrightarrow> pcThread (vpc v q) = Some t \<Longrightarrow> q = p"
    and c: "vpc v p \<noteq> SDel4 t" "c \<noteq> SDel4 t" "c \<noteq> SDel5 t" "\<And>u w. vpc v p \<noteq> SSpawn u w" "\<And>u w. c \<noteq> SSpawn u w"
    and n: "n = vst v t + heldWeight c t - heldWeight (vpc v p) t"
    and m: "vuser v p \<in> {None, Some t}" "vproc v t \<in> {None, Some p}" "x = Some p \<and> y = Some t \<or> x = None \<and> y = None" "pcMapped c y"
  shows "vinv N NT (v\<lparr>vst := (vst v)(t := n), vpc := (vpc v)(p := c), vproc := (vproc v)(t := x), vuser := (vuser v)(p := y)\<rparr>)"
proof -
  let ?v = "v\<lparr>vst := (vst v)(t := n), vpc := (vpc v)(p := c), vproc := (vproc v)(t := x), vuser := (vuser v)(p := y)\<rparr>"
  have old5: "vpc v p \<noteq> SDel5 t" using v_del5 [OF i p, of t] tq(2) by auto
  have st: "vst v t = heldWeight (vpc v p) t + int (kids N v t)"
  proof (cases "pcThread (vpc v p) = Some t")
    case True
    then show ?thesis using v_status [OF i p True old5] by (simp add: heldWeight_def)
  next
    case False
    then have "\<And>q. q < N \<Longrightarrow> pcThread (vpc v q) \<noteq> Some t" using other by blast
    then show ?thesis using v_free [OF i tq] False by (simp add: heldWeight_def)
  qed
  have w: "pcWeight x \<ge> 1" for x by (cases x) auto
  have n1: "n = heldWeight c t + int (kids N v t)" "n \<noteq> - 1" using n st w [of c] by (auto simp: heldWeight_def)
  have cnt: "counted N ?v d \<longleftrightarrow> counted N v d" for d
  proof -
    have "((vpc v)(p := c)) q \<noteq> SDel4 d \<longleftrightarrow> vpc v q \<noteq> SDel4 d" for q using c(1,2) t by (cases "q = p") auto
    then show ?thesis using n1 tq(2) by (simp add: counted_def)
  qed
  have k: "kids N ?v u = kids N v u" for u using cnt by (intro kids_cong) simp
  have same: "pcThread (((vpc v)(p := c)) q) = Some u \<longleftrightarrow> pcThread (vpc v q) = Some u" if "u \<noteq> t" for q u
    using t that by auto
  have held: "q < N \<Longrightarrow> pcThread (((vpc v)(p := c)) q) = Some t \<Longrightarrow> q = p" for q using other by (cases "q = p") auto
  have "vqueue N NT ?v"
    unfolding vqueue_def
  proof (intro conjI ballI allI impI)
    fix u assume u: "u < NT" "vused ?v u"
    from v_used [OF i] u have "u \<in> vq v \<or> (\<exists>q<N. \<exists>w. vpc v q = SSpawn w u)" by simp
    then show "u \<in> vq ?v \<or> (\<exists>q<N. \<exists>w. vpc ?v q = SSpawn w u)"
    proof (elim disjE exE conjE)
      fix q w assume q: "q < N" "vpc v q = SSpawn w u"
      then have "vpc ?v q = SSpawn w u" using c(4) by (cases "q = p") auto
      then show ?thesis using q(1) by blast
    qed simp
  qed (use vqueueD [OF i] tq in auto)
  moreover have "vhold N NT ?v"
    unfolding vhold_def
  proof (intro conjI ballI allI impI)
    fix q r u assume "q < N" "r < N" "pcThread (vpc ?v q) = Some u" "pcThread (vpc ?v r) = Some u"
    then show "q = r" using v_once [OF i, of q r u] held [of q] held [of r] by (cases "u = t") (simp_all add: same del: fun_upd_apply)
  next
    fix q u assume "q < N" "pcThread (vpc ?v q) = Some u"
    then show "u \<in> vq ?v" using v_held [OF i, of q u] tq by (cases "u = t") (simp_all add: same del: fun_upd_apply)
  next
    fix q u d assume "q < N" "vpc ?v q = SSpawn u d"
    then have "vpc v q = SSpawn u d" using c(5) by (cases "q = p") simp_all
    then show "d < NT" "vused ?v d" "d \<notin> vq ?v" "vpar ?v d = Some u" "\<not> vpin ?v d"
      using v_spawn [OF i \<open>q < N\<close>] by auto
  next
    fix q r u w d assume "q < N" "r < N" "vpc ?v q = SSpawn u d" "vpc ?v r = SSpawn w d"
    then show "q = r" using v_spawn1 [OF i, of q r u d w] c(5) by (cases "q = p"; cases "r = p") simp_all
  qed
  moreover have "vmap N NT ?v"
    unfolding vmap_def
  proof (intro conjI ballI allI impI)
    fix q assume "q < N"
    then show "pcMapped (vpc ?v q) (vuser ?v q)" using v_mapped [OF i] m(4) by (cases "q = p") auto
  next
    fix q u assume q: "q < N"
    have tn: "t < NT" using vq_used [OF i tq(1)] by simp
    show "vuser ?v q = Some u \<longleftrightarrow> u < NT \<and> vproc ?v u = Some q"
    proof (cases "q = p")
      case True
      then show ?thesis using v_user [OF i p, of u] m(1,3) tn by (cases "u = t") auto
    next
      case False
      then show ?thesis using v_user [OF i q, of u] m(2,3) by (cases "u = t") auto
    qed
  next
    fix u q assume "u < NT" "vproc ?v u = Some q"
    then show "q < N" using v_proc [OF i, of u q] m(3) p by (cases "u = t") auto
  qed
  moreover have "vstatus N ?v"
    unfolding vstatus_def
  proof (intro conjI ballI allI impI)
    fix q u assume q: "q < N" "pcThread (vpc ?v q) = Some u" "vpc ?v q \<noteq> SDel5 u"
    have "vst ?v u = pcWeight (vpc ?v q) + int (kids N v u)"
    proof (cases "u = t")
      case True
      then have "pcThread (((vpc v)(p := c)) q) = Some t" using q(2) by simp
      then have "q = p" by (rule held [OF q(1)])
      then have "vst ?v u = n" "vpc ?v q = c" "pcThread c = Some t" using True q(2) by simp_all
      then show ?thesis using n1(1) True by (simp only: heldWeight_def simp_thms if_True)
    next
      case False
      then have "pcThread (vpc v q) = Some u" "q = p \<longrightarrow> pcThread c \<noteq> Some u" using q(2) same [OF False, of q] t by auto
      then show ?thesis using False v_status [OF i q(1)] q(2,3) by (cases "q = p") simp_all
    qed
    then show "vst ?v u = pcWeight (vpc ?v q) + int (kids N ?v u)" unfolding k .
  next
    fix u assume u: "u \<in> vq ?v" "vst ?v u \<noteq> - 1" and no: "\<forall>q<N. pcThread (vpc ?v q) \<noteq> Some u"
    have "vst ?v u = int (kids N v u)"
    proof (cases "u = t")
      case True
      then have "pcThread c \<noteq> Some t" using no p by auto
      then show ?thesis using True n1(1) by (simp add: heldWeight_def)
    next
      case False
      have "pcThread (vpc v q) \<noteq> Some u" if "q < N" for q using no that same [OF False, of q] by simp
      then show ?thesis using v_free [OF i, of u] u False by simp
    qed
    then show "vst ?v u = int (kids N ?v u)" unfolding k .
  next
    fix d u assume "counted N ?v d" "vpar ?v d = Some u"
    then have "u \<in> vq v \<and> vst v u \<noteq> - 1" unfolding cnt by (intro v_kid [OF i]) simp_all
    then show "u \<in> vq ?v" "vst ?v u \<noteq> - 1" using n1(2) by simp_all
  next
    fix q u assume q: "q < N" "vpc ?v q = SDel5 u"
    have "u \<noteq> t"
    proof
      assume "u = t"
      then have "q = p" using q(2) by (intro held [OF q(1)]) simp
      then show False using q(2) c(3) \<open>u = t\<close> by simp
    qed
    moreover have "vpc v q = SDel5 u" using q(2) t(2) \<open>u \<noteq> t\<close> by (cases "q = p") auto
    ultimately show "vst ?v u = - 1" using v_del5 [OF i \<open>q < N\<close>] by simp
  next
    fix u assume "u \<in> vq ?v" "vst ?v u = - 1"
    then have "u \<noteq> t" "vpin v u \<or> (\<exists>q<N. vpc v q = SDel5 u)" using n1 v_dead [OF i, of u] by (cases "u = t"; simp)+
    then show "vpin ?v u \<or> (\<exists>q<N. vpc ?v q = SDel5 u)"
    proof (elim disjE exE conjE)
      fix q assume q: "q < N" "vpc v q = SDel5 u"
      then have "vpc ?v q = SDel5 u" using t(1) \<open>u \<noteq> t\<close> by (cases "q = p") auto
      then show ?thesis using q(1) by blast
    qed simp
  qed
  ultimately show ?thesis by (simp add: vinv_def)
qed


lemma counted_cong:
  assumes "\<And>q. q < N \<Longrightarrow> vpc v' q = SDel4 c \<longleftrightarrow> vpc v q = SDel4 c" and "c \<in> vq v' \<longleftrightarrow> c \<in> vq v"
    and "c \<in> vq v \<Longrightarrow> vst v' c = - 1 \<longleftrightarrow> vst v c = - 1"
  shows "counted N v' c \<longleftrightarrow> counted N v c"
  using assms unfolding counted_def by blast

lemma vinv_none:
  assumes i: "vinv N NT v" and p: "p < N" and c: "pcThread (vpc v p) = None" "pcThread c = None"
  shows "vinv N NT (v\<lparr>vpc := (vpc v)(p := c)\<rparr>)"
proof -
  let ?v = "v\<lparr>vpc := (vpc v)(p := c)\<rparr>"
  have pcs: "vpc ?v q = d \<longleftrightarrow> vpc v q = d" if "pcThread d \<noteq> None" for q d using c that by (cases "q = p") auto
  have th: "pcThread (vpc ?v q) = pcThread (vpc v q)" for q using c by simp
  have sp: "vpc ?v q = SSpawn u d \<longleftrightarrow> vpc v q = SSpawn u d" for q u d by (rule pcs) simp
  have d5: "vpc ?v q = SDel5 u \<longleftrightarrow> vpc v q = SDel5 u" for q u by (rule pcs) simp
  have cnt: "counted N ?v d = counted N v d" for d using pcs [of "SDel4 d"] by (intro counted_cong) simp_all
  have k: "kids N ?v u = kids N v u" for u unfolding kids_def cnt by simp
  have m: "pcMapped c (vuser v p)" using v_mapped [OF i p] c by (cases "vpc v p"; cases c) auto
  have "vqueue N NT ?v" unfolding vqueue_def sp using vqueueD [OF i] by simp
  moreover have "vhold N NT ?v" using i unfolding vinv_def vhold_def sp th by simp
  moreover have "vmap N NT ?v" unfolding vmap_def using vmapD [OF i] m by simp
  moreover have "vstatus N ?v"
    unfolding vstatus_def d5 th cnt k
  proof (intro conjI ballI allI impI)
    fix q u assume q: "q < N" "pcThread (vpc v q) = Some u" "vpc v q \<noteq> SDel5 u"
    then have "q \<noteq> p" using c(1) by auto
    then show "vst ?v u = pcWeight (vpc ?v q) + int (kids N v u)" using v_status [OF i q] by simp
  qed (use vstatusD [OF i] in \<open>simp_all\<close>)
  ultimately show ?thesis by (simp add: vinv_def)
qed

lemma vinv_create:
  assumes i: "vinv N NT v" and p: "p < N" and pc: "vpc v p = SRun t" and c: "c < NT" "\<not> vused v c"
  shows "vinv N NT (v\<lparr>vused := (vused v)(c := True), vst := (vst v)(c := 0), vpar := (vpar v)(c := Some t), vpc := (vpc v)(p := SSpawn t c)\<rparr>)"
    (is "vinv N NT ?v")
proof -
  have cq: "c \<notin> vq v" using vq_used [OF i] c by blast
  have th: "pcThread (vpc ?v q) = pcThread (vpc v q)" "pcWeight (vpc ?v q) = pcWeight (vpc v q)" for q using pc by simp_all
  have cnt: "counted N ?v d = counted N v d" for d
    using cq pc by (intro counted_cong) auto
  have k: "kids N ?v u = kids N v u" for u
    unfolding kids_def cnt using cq by (intro arg_cong [where f = card]) (auto simp: counted_def)
  have d5: "vpc ?v q = SDel5 u \<longleftrightarrow> vpc v q = SDel5 u" for q u using pc by simp
  have held: "q < N \<Longrightarrow> pcThread (vpc v q) = Some u \<Longrightarrow> u \<noteq> c" for q u using v_held [OF i] cq by blast
  have nospawn: "q < N \<Longrightarrow> vpc v q \<noteq> SSpawn u c" for q u using v_spawn [OF i, of q u c] c(2) by blast
  have "vqueue N NT ?v"
    unfolding vqueue_def
  proof (intro conjI ballI allI impI)
    fix u assume u: "u < NT" "vused ?v u"
    show "u \<in> vq ?v \<or> (\<exists>q<N. \<exists>w. vpc ?v q = SSpawn w u)"
    proof (cases "u = c")
      case True
      then show ?thesis using p by auto
    next
      case False
      then have "u \<in> vq v \<or> (\<exists>q<N. \<exists>w. vpc v q = SSpawn w u)" using v_used [OF i] u by simp
      then show ?thesis using pc by fastforce
    qed
  qed (use vqueueD [OF i] in \<open>auto split: if_splits\<close>)
  moreover have "vhold N NT ?v"
    unfolding vhold_def th
  proof (intro conjI allI impI)
    fix q u d assume q: "q < N" "vpc ?v q = SSpawn u d"
    then show "d < NT" "vused ?v d" "d \<notin> vq ?v" "vpar ?v d = Some u" "\<not> vpin ?v d"
      using v_spawn [OF i, of q u d] nospawn [of q u] cq c v_unused [OF i] by (cases "q = p"; cases "d = c"; simp)+
  next
    fix q r u w d assume "q < N" "r < N" "vpc ?v q = SSpawn u d" "vpc ?v r = SSpawn w d"
    then show "q = r" using v_spawn1 [OF i, of q r u d w] nospawn by (cases "q = p"; cases "r = p") auto
  next
    fix q r u assume "q < N" "r < N" "pcThread (vpc v q) = Some u" "pcThread (vpc v r) = Some u"
    then show "q = r" by (rule v_once [OF i])
  next
    fix q u assume "q < N" "pcThread (vpc v q) = Some u"
    then show "u \<in> vq ?v" using v_held [OF i] by simp
  qed
  moreover have "vmap N NT ?v"
    using vmapD [OF i] v_mapped [OF i p] pc unfolding vmap_def by auto
  moreover have "vstatus N ?v"
    unfolding vstatus_def th cnt k d5
  proof (intro conjI ballI allI impI)
    fix q u assume "q < N" "pcThread (vpc v q) = Some u" "vpc v q \<noteq> SDel5 u"
    then show "vst ?v u = pcWeight (vpc v q) + int (kids N v u)" using v_status [OF i, of q u] held by auto
  next
    fix q u assume "q < N" "vpc v q = SDel5 u"
    then show "vst ?v u = - 1" using v_del5 [OF i, of q u] held [of q u] by simp
  next
    fix u assume "u \<in> vq ?v" "vst ?v u = - 1"
    then show "vpin ?v u \<or> (\<exists>q<N. vpc v q = SDel5 u)" using v_dead [OF i, of u] cq by (cases "u = c") auto
  next
    fix u assume "u \<in> vq ?v" "vst ?v u \<noteq> - 1" "\<forall>q<N. pcThread (vpc v q) \<noteq> Some u"
    then show "vst ?v u = int (kids N v u)" using v_free [OF i, of u] cq by (cases "u = c") auto
  next
    fix d u assume d: "counted N v d" "vpar ?v d = Some u"
    then have "d \<noteq> c" using cq by (auto simp: counted_def)
    then have "u \<in> vq v \<and> vst v u \<noteq> - 1" using d by (intro v_kid [OF i d(1)]) simp
    then show "u \<in> vq ?v" "vst ?v u \<noteq> - 1" using cq by auto
  qed
  ultimately show ?thesis by (simp add: vinv_def)
qed


lemma finite_vq: "vinv N NT v \<Longrightarrow> finite (vq v)"
  using finite_subset [of "vq v" "{..<NT}"] vq_used by blast

lemma finite_kids: "vinv N NT v \<Longrightarrow> finite {c. counted N v c \<and> vpar v c = Some t}"
  by (rule finite_subset [OF _ finite_vq]) (auto simp: counted_def)

lemma vinv_add:
  assumes i: "vinv N NT v" and p: "p < N" and pc: "vpc v p = SSpawn t c"
  shows "vinv N NT (v\<lparr>vq := insert c (vq v), vst := ((vst v)(c := 0))(t := vst v t + 1), vact := vact v + 1,
    vpc := (vpc v)(p := SRun t)\<rparr>)" (is "vinv N NT ?v")
proof -
  note c = v_spawn [OF i p pc]
  have tq: "t \<in> vq v" using v_held [OF i p] pc by simp
  have tc: "t \<noteq> c" using tq c by auto
  have th: "pcThread (vpc ?v q) = pcThread (vpc v q)" "pcWeight (vpc ?v q) = pcWeight (vpc v q)" for q using pc by simp_all
  have other: "q < N \<Longrightarrow> pcThread (vpc v q) = Some t \<Longrightarrow> q = p" for q using v_once [OF i, of q p t] p pc by simp
  have held: "q < N \<Longrightarrow> pcThread (vpc v q) = Some u \<Longrightarrow> u \<noteq> c" for q u using v_held [OF i] c by blast
  have stt: "vst v t = 1 + int (kids N v t)" using v_status [OF i p, of t] pc by simp
  have d4: "q < N \<Longrightarrow> vpc ?v q = SDel4 u \<longleftrightarrow> vpc v q = SDel4 u" and d5: "vpc ?v q = SDel5 u \<longleftrightarrow> vpc v q = SDel5 u" for q u
    using pc by simp_all
  have "q < N \<Longrightarrow> vpc v q \<noteq> SDel4 c" for q using held [of q c] by auto
  then have cc: "counted N ?v c" unfolding counted_def using tc d4 by simp
  have cnt: "counted N ?v d \<longleftrightarrow> counted N v d" if "d \<noteq> c" for d
    using that d4 stt by (intro counted_cong) (auto simp: fun_upd_def)
  have nc: "\<not> counted N v c" using c by (simp add: counted_def)
  have set: "{d. counted N ?v d \<and> vpar ?v d = Some u} =
      (if u = t then insert c {d. counted N v d \<and> vpar v d = Some u} else {d. counted N v d \<and> vpar v d = Some u})" for u
  proof -
    have "counted N ?v d \<longleftrightarrow> d = c \<or> counted N v d" for d using cc cnt [of d] by (cases "d = c") auto
    then show ?thesis using c by auto
  qed
  have k: "int (kids N ?v u) = int (kids N v u) + (if u = t then 1 else 0)" for u
    unfolding kids_def set using finite_kids [OF i, of t] nc by simp
  have "vqueue N NT ?v"
    unfolding vqueue_def
  proof (intro conjI ballI allI impI)
    fix u assume u: "u < NT" "vused ?v u"
    then have "u \<in> vq v \<or> (\<exists>q<N. \<exists>w. vpc v q = SSpawn w u)" using v_used [OF i] by simp
    then show "u \<in> vq ?v \<or> (\<exists>q<N. \<exists>w. vpc ?v q = SSpawn w u)"
    proof (elim disjE exE conjE)
      fix q w assume q: "q < N" "vpc v q = SSpawn w u"
      show ?thesis
      proof (cases "q = p")
        case False
        then have "vpc ?v q = SSpawn w u" using q by simp
        then show ?thesis using q(1) by blast
      qed (use q pc in simp)
    qed simp
  next
    fix u assume "u < NT" "\<not> vused ?v u"
    then show "vst ?v u = - 1" "\<not> vpin ?v u" using v_unused [OF i, of u] c vq_used [OF i tq] by auto
  next
    show "vact ?v = int (card (vq ?v))" using v_act [OF i] c finite_vq [OF i] by simp
  qed (use vqueueD [OF i] c tq in auto)
  moreover have "vhold N NT ?v"
    unfolding vhold_def th
  proof (intro conjI allI impI)
    fix q u d assume q: "q < N" "vpc ?v q = SSpawn u d"
    then have "q \<noteq> p" "vpc v q = SSpawn u d" by (cases "q = p"; simp)+
    moreover have "d \<noteq> c" using calculation v_spawn1 [OF i q(1) p, of u c t] pc by auto
    ultimately show "d < NT" "vused ?v d" "d \<notin> vq ?v" "vpar ?v d = Some u" "\<not> vpin ?v d"
      using v_spawn [OF i q(1), of u d] by auto
  next
    fix q r u w d assume "q < N" "r < N" "vpc ?v q = SSpawn u d" "vpc ?v r = SSpawn w d"
    then show "q = r" using v_spawn1 [OF i, of q r u d w] by (cases "q = p"; cases "r = p") auto
  next
    fix q r u assume "q < N" "r < N" "pcThread (vpc v q) = Some u" "pcThread (vpc v r) = Some u"
    then show "q = r" by (rule v_once [OF i])
  next
    fix q u assume "q < N" "pcThread (vpc v q) = Some u"
    then show "u \<in> vq ?v" using v_held [OF i] by simp
  qed
  moreover have "vmap N NT ?v" using vmapD [OF i] v_mapped [OF i p] pc unfolding vmap_def by auto
  moreover have "vstatus N ?v"
    unfolding vstatus_def th k d5
  proof (intro conjI ballI allI impI)
    fix q u assume "q < N" "pcThread (vpc v q) = Some u" "vpc v q \<noteq> SDel5 u"
    then show "vst ?v u = pcWeight (vpc v q) + (int (kids N v u) + (if u = t then 1 else 0))"
      using v_status [OF i, of q u] held by auto
  next
    fix q u assume q: "q < N" "vpc v q = SDel5 u"
    then have "u \<noteq> t" using other [OF q(1)] pc by auto
    then show "vst ?v u = - 1" using v_del5 [OF i q] held [OF q(1), of u] q by simp
  next
    fix u assume u: "u \<in> vq ?v" "vst ?v u = - 1"
    then have "u \<noteq> t" "u \<noteq> c" using stt tc by (auto split: if_splits)
    then show "vpin ?v u \<or> (\<exists>q<N. vpc v q = SDel5 u)" using v_dead [OF i, of u] u by auto
  next
    fix u assume u: "u \<in> vq ?v" "vst ?v u \<noteq> - 1" "\<forall>q<N. pcThread (vpc v q) \<noteq> Some u"
    have "u \<noteq> t" using u(3) p pc by auto
    moreover have "kids N v c = 0"
    proof -
      have "{d. counted N v d \<and> vpar v d = Some c} = {}" using v_kid [OF i, of _ c] c by blast
      then show ?thesis unfolding kids_def by (simp only: card.empty)
    qed
    ultimately show "vst ?v u = int (kids N v u) + (if u = t then 1 else 0)"
      using v_free [OF i, of u] u by (cases "u = c") auto
  next
    fix d u assume d: "counted N ?v d" "vpar ?v d = Some u"
    show "u \<in> vq ?v" "vst ?v u \<noteq> - 1"
    proof -
      have "u = t \<or> u \<in> vq v \<and> vst v u \<noteq> - 1"
        using v_kid [OF i, of d u] cnt [of d] d c by (cases "d = c") auto
      then show "u \<in> vq ?v" "vst ?v u \<noteq> - 1" using tq stt tc c by auto
    qed
  qed
  ultimately show ?thesis by (simp add: vinv_def)
qed


lemma v_status_ge:
  assumes i: "vinv N NT v" and t: "t \<in> vq v" "vst v t \<noteq> - 1"
  shows "int (kids N v t) \<le> vst v t"
proof (cases "\<exists>p<N. pcThread (vpc v p) = Some t")
  case True
  then obtain p where p: "p < N" "pcThread (vpc v p) = Some t" by blast
  moreover have "vpc v p \<noteq> SDel5 t" using v_del5 [OF i p(1), of t] t(2) by auto
  moreover have "0 \<le> pcWeight (vpc v p)" by (cases "vpc v p") auto
  ultimately show ?thesis using v_status [OF i] by simp
next
  case False
  then show ?thesis using v_free [OF i t] by simp
qed

lemma no_kids: "vinv N NT v \<Longrightarrow> kids N v t = 0 \<Longrightarrow> counted N v c \<Longrightarrow> vpar v c \<noteq> Some t"
  using finite_kids [of N NT v t] by (auto simp: kids_def)

lemma vinv_parent:
  assumes i: "vinv N NT v" and p: "p < N" and pc: "vpc v p = SDel3 t"
  shows "vinv N NT (v\<lparr>vst := (\<lambda>u. if vpar v t = Some u then vst v u - 1 else vst v u), vpc := (vpc v)(p := SDel4 t)\<rparr>)" (is "vinv N NT ?v")
    "vpar v t = Some u \<Longrightarrow> 1 \<le> vst v u"
proof -
  have tq: "t \<in> vq v" using v_held [OF i p] pc by simp
  have stt: "vst v t = 1 + int (kids N v t)" using v_status [OF i p, of t] pc by simp
  have th: "pcThread (vpc ?v q) = pcThread (vpc v q)" "pcWeight (vpc ?v q) = pcWeight (vpc v q)" for q using pc by simp_all
  have other: "q < N \<Longrightarrow> pcThread (vpc v q) = Some t \<Longrightarrow> q = p" for q using v_once [OF i, of q p t] p pc by simp
  have d5: "vpc ?v q = SDel5 u \<longleftrightarrow> vpc v q = SDel5 u" and sp: "vpc ?v q = SSpawn u d \<longleftrightarrow> vpc v q = SSpawn u d" for q u d
    using pc by simp_all
  have "vpc v q \<noteq> SDel4 t" if "q < N" for q using other [OF that] pc by auto
  then have ct: "counted N v t" using tq stt by (simp add: counted_def)
  have par: "u \<in> vq v \<and> vst v u \<noteq> - 1 \<and> 1 \<le> kids N v u" if "vpar v t = Some u" for u
  proof -
    have "u \<in> vq v \<and> vst v u \<noteq> - 1" using v_kid [OF i ct that] .
    moreover have "t \<in> {c. counted N v c \<and> vpar v c = Some u}" using ct that by simp
    ultimately show ?thesis using finite_kids [OF i, of u] by (auto simp: kids_def Suc_le_eq card_gt_0_iff)
  qed
  then have ge: "1 \<le> vst v u" if "vpar v t = Some u" for u using that v_status_ge [OF i, of u] by fastforce
  then show "vpar v t = Some u \<Longrightarrow> 1 \<le> vst v u" .
  have minus: "vst ?v u = - 1 \<longleftrightarrow> vst v u = - 1" for u using ge [of u] by auto
  have cnt: "counted N ?v d \<longleftrightarrow> counted N v d \<and> d \<noteq> t" for d
  proof (cases "d = t")
    case True
    then show ?thesis using p by (auto simp: counted_def)
  next
    case False
    then have "counted N ?v d \<longleftrightarrow> counted N v d"
      using pc by (intro counted_cong minus) auto
    then show ?thesis using False by simp
  qed
  have "{c. counted N ?v c \<and> vpar ?v c = Some u} = {c. counted N v c \<and> vpar v c = Some u} - {t}" for u using cnt by auto
  then have k: "int (kids N ?v u) = int (kids N v u) - (if vpar v t = Some u then 1 else 0)" for u
    using ct par [of u] finite_kids [OF i, of u] unfolding kids_def by (auto simp: card_Diff_singleton_if of_nat_diff)
  have "vqueue N NT ?v" unfolding vqueue_def sp minus using vqueueD [OF i] by simp
  moreover have "vhold N NT ?v" using i unfolding vinv_def vhold_def sp th by simp
  moreover have "vmap N NT ?v" using vmapD [OF i] v_mapped [OF i p] pc unfolding vmap_def by auto
  moreover have "vstatus N ?v"
    unfolding vstatus_def th k d5 minus
  proof (intro conjI ballI allI impI)
    fix q u assume "q < N" "pcThread (vpc v q) = Some u" "vpc v q \<noteq> SDel5 u"
    then show "vst ?v u = pcWeight (vpc v q) + (int (kids N v u) - (if vpar v t = Some u then 1 else 0))"
      using v_status [OF i, of q u] by simp
  next
    fix u assume "u \<in> vq ?v" "vst v u \<noteq> - 1" "\<forall>q<N. pcThread (vpc v q) \<noteq> Some u"
    then show "vst ?v u = int (kids N v u) - (if vpar v t = Some u then 1 else 0)" using v_free [OF i, of u] by simp
  next
    fix d u assume d: "counted N ?v d" "vpar ?v d = Some u"
    then show "u \<in> vq ?v" "vst v u \<noteq> - 1" using v_kid [OF i, of d u] cnt [of d] by simp_all
  qed (use vstatusD [OF i] in simp_all)
  ultimately show "vinv N NT ?v" by (simp add: vinv_def)
qed

lemma vinv_mark:
  assumes i: "vinv N NT v" and p: "p < N" and pc: "vpc v p = SDel4 t" and st: "vst v t = 1"
  shows "vinv N NT (v\<lparr>vst := (vst v)(t := - 1), vpc := (vpc v)(p := SDel5 t)\<rparr>)" (is "vinv N NT ?v")
proof -
  have tq: "t \<in> vq v" using v_held [OF i p] pc by simp
  have k0: "kids N v t = 0" using v_status [OF i p, of t] pc st by simp
  have th: "pcThread (vpc ?v q) = pcThread (vpc v q)" "pcWeight (vpc ?v q) = pcWeight (vpc v q)" for q using pc by simp_all
  have other: "q < N \<Longrightarrow> pcThread (vpc v q) = Some t \<Longrightarrow> q = p" for q using v_once [OF i, of q p t] p pc by simp
  have sp: "vpc ?v q = SSpawn u d \<longleftrightarrow> vpc v q = SSpawn u d" for q u d using pc by simp
  have cnt: "counted N ?v d \<longleftrightarrow> counted N v d" for d
  proof (cases "d = t")
    case True
    then show ?thesis using pc p by (auto simp: counted_def)
  next
    case False
    then show ?thesis using pc by (intro counted_cong) auto
  qed
  have k: "kids N ?v u = kids N v u" for u using cnt by (intro kids_cong) simp
  have "vqueue N NT ?v" unfolding vqueue_def sp using vqueueD [OF i] by simp
  moreover have "vhold N NT ?v" using i unfolding vinv_def vhold_def sp th by simp
  moreover have "vmap N NT ?v" using vmapD [OF i] v_mapped [OF i p] pc unfolding vmap_def by auto
  moreover have "vstatus N ?v"
    unfolding vstatus_def th k cnt
  proof (intro conjI ballI allI impI)
    fix q u assume q: "q < N" "pcThread (vpc v q) = Some u" "vpc ?v q \<noteq> SDel5 u"
    then have "u \<noteq> t" "q \<noteq> p" using other [of q] pc by auto
    then show "vst ?v u = pcWeight (vpc v q) + int (kids N v u)" using v_status [OF i q(1,2)] q(3) by simp
  next
    fix u assume "u \<in> vq ?v" "vst ?v u \<noteq> - 1" "\<forall>q<N. pcThread (vpc v q) \<noteq> Some u"
    then show "vst ?v u = int (kids N v u)" using v_free [OF i, of u] by (cases "u = t") simp_all
  next
    fix d u assume d: "counted N v d" "vpar ?v d = Some u"
    then have "u \<noteq> t" using no_kids [OF i k0 d(1)] by auto
    then show "u \<in> vq ?v" "vst ?v u \<noteq> - 1" using v_kid [OF i, of d u] d by simp_all
  next
    fix q u assume "q < N" "vpc ?v q = SDel5 u"
    then show "vst ?v u = - 1" using v_del5 [OF i, of q u] by (cases "q = p") auto
  next
    fix u assume u: "u \<in> vq ?v" "vst ?v u = - 1"
    show "vpin ?v u \<or> (\<exists>q<N. vpc ?v q = SDel5 u)"
    proof (cases "u = t")
      case True
      then show ?thesis using p by auto
    next
      case False
      then have "vpin v u \<or> (\<exists>q<N. vpc v q = SDel5 u)" using v_dead [OF i, of u] u by simp
      then show ?thesis using pc by fastforce
    qed
  qed
  ultimately show ?thesis by (simp add: vinv_def)
qed


lemma vinv_remove:
  assumes i: "vinv N NT v" and t: "t \<in> vq v" "vst v t = - 1"
    and pc: "\<And>q. q < N \<Longrightarrow> pc' q = (if pcThread (vpc v q) = Some t then SIdle else vpc v q)"
  shows "vinv N NT (v\<lparr>vq := vq v - {t}, vused := (vused v)(t := False), vpin := (vpin v)(t := False), vact := vact v - 1,
    vempty := (vq v - {t} = {}), vpc := pc'\<rparr>)" (is "vinv N NT ?v")
proof -
  have d5: "vpc v q = SDel5 t" if "q < N" "pcThread (vpc v q) = Some t" for q
  proof (rule ccontr)
    assume "vpc v q \<noteq> SDel5 t"
    then have "vst v t = pcWeight (vpc v q) + int (kids N v t)" using v_status [OF i that] by simp
    moreover have "1 \<le> pcWeight (vpc v q)" by (cases "vpc v q") auto
    ultimately show False using t(2) by simp
  qed
  have eq: "pc' q = vpc v q" if "q < N" "pcThread (vpc v q) \<noteq> Some t" for q using pc that by simp
  have th: "q < N \<Longrightarrow> pcThread (pc' q) = Some u \<longleftrightarrow> pcThread (vpc v q) = Some u \<and> u \<noteq> t" for q u using pc [of q] by auto
  have sp: "q < N \<Longrightarrow> pc' q = SSpawn u d \<longleftrightarrow> vpc v q = SSpawn u d" for q u d
    using pc [of q] d5 [of q] by (cases "pcThread (vpc v q) = Some t") auto
  have nospawn: "q < N \<Longrightarrow> vpc v q \<noteq> SSpawn u t" for q u using v_spawn [OF i, of q u t] t(1) by blast
  have cnt: "counted N ?v d \<longleftrightarrow> counted N v d" for d
  proof (cases "d = t")
    case False
    have "pc' q = SDel4 d \<longleftrightarrow> vpc v q = SDel4 d" if "q < N" for q
      using pc [OF that] d5 [OF that] by (cases "pcThread (vpc v q) = Some t") auto
    then show ?thesis using False by (intro counted_cong) auto
  qed (use t(2) in \<open>simp add: counted_def\<close>)
  have k: "kids N ?v u = kids N v u" for u using cnt by (intro kids_cong) simp
  have "vqueue N NT ?v"
    unfolding vqueue_def
  proof (intro conjI ballI allI impI)
    fix u assume u: "u < NT" "vused ?v u"
    then have "u \<noteq> t" "u \<in> vq v \<or> (\<exists>q<N. \<exists>w. vpc v q = SSpawn w u)" using v_used [OF i, of u] by (auto split: if_splits)
    then show "u \<in> vq ?v \<or> (\<exists>q<N. \<exists>w. vpc ?v q = SSpawn w u)" using sp by auto
  next
    fix u assume "u < NT" "\<not> vused ?v u"
    then show "vst ?v u = - 1" "\<not> vpin ?v u" using v_unused [OF i, of u] t by (cases "u = t"; simp)+
  next
    have "card (vq v) > 0" using t(1) finite_vq [OF i] by (auto simp: card_gt_0_iff)
    then show "vact ?v = int (card (vq ?v))" using v_act [OF i] t(1) finite_vq [OF i] by (simp add: of_nat_diff)
  qed (use vqueueD [OF i] in auto)
  moreover have "vhold N NT ?v"
    unfolding vhold_def
  proof (intro conjI allI impI)
    fix q u d assume q: "q < N" "vpc ?v q = SSpawn u d"
    then have "vpc v q = SSpawn u d" "d \<noteq> t" using sp nospawn [of q u] by auto
    then show "d < NT" "vused ?v d" "d \<notin> vq ?v" "vpar ?v d = Some u" "\<not> vpin ?v d"
      using v_spawn [OF i q(1), of u d] by auto
  next
    fix q r u w d assume "q < N" "r < N" "vpc ?v q = SSpawn u d" "vpc ?v r = SSpawn w d"
    then show "q = r" using v_spawn1 [OF i, of q r u d w] sp by simp
  next
    fix q r u assume "q < N" "r < N" "pcThread (vpc ?v q) = Some u" "pcThread (vpc ?v r) = Some u"
    then show "q = r" using v_once [OF i, of q r u] th by simp
  next
    fix q u assume "q < N" "pcThread (vpc ?v q) = Some u"
    then show "u \<in> vq ?v" using v_held [OF i, of q u] th by simp
  qed
  moreover have "vmap N NT ?v"
  proof -
    have "pcMapped (pc' q) (vuser v q)" if "q < N" for q
      using v_mapped [OF i that] pc [OF that] d5 [OF that] by (cases "pcThread (vpc v q) = Some t") auto
    then show ?thesis using vmapD [OF i] unfolding vmap_def by simp
  qed
  moreover have "vstatus N ?v"
    unfolding vstatus_def k cnt
  proof (intro conjI ballI allI impI)
    fix q u assume q: "q < N" "pcThread (vpc ?v q) = Some u" "vpc ?v q \<noteq> SDel5 u"
    then have u: "pcThread (vpc v q) = Some u" "u \<noteq> t" using th by simp_all
    then have "vpc ?v q = vpc v q" using eq [OF q(1)] by simp
    then show "vst ?v u = pcWeight (vpc ?v q) + int (kids N v u)" using v_status [OF i q(1) u(1)] q(3) by simp
  next
    fix u assume u: "u \<in> vq ?v" "vst ?v u \<noteq> - 1" "\<forall>q<N. pcThread (vpc ?v q) \<noteq> Some u"
    then have "pcThread (vpc v q) \<noteq> Some u" if "q < N" for q using that th by simp
    then show "vst ?v u = int (kids N v u)" using v_free [OF i, of u] u by simp
  next
    fix d u assume d: "counted N v d" "vpar ?v d = Some u"
    then have "u \<in> vq v \<and> vst v u \<noteq> - 1" using v_kid [OF i, of d u] by simp
    then show "u \<in> vq ?v" "vst ?v u \<noteq> - 1" using t(2) by auto
  next
    fix q u assume q: "q < N" "vpc ?v q = SDel5 u"
    then have "pcThread (vpc ?v q) = Some u" by simp
    then have "pc' q = vpc v q" using th [OF q(1), of u] eq [OF q(1)] by auto
    then show "vst ?v u = - 1" using v_del5 [OF i, of q u] q by simp
  next
    fix u assume u: "u \<in> vq ?v" "vst ?v u = - 1"
    then have "vpin v u \<or> (\<exists>q<N. vpc v q = SDel5 u)" using v_dead [OF i, of u] by simp
    then show "vpin ?v u \<or> (\<exists>q<N. vpc ?v q = SDel5 u)"
    proof (elim disjE exE conjE)
      fix q assume q: "q < N" "vpc v q = SDel5 u"
      then have "pc' q = SDel5 u" using eq [OF q(1)] u by simp
      then show ?thesis using q(1) by auto
    qed (use u in simp)
  qed
  ultimately show ?thesis by (simp add: vinv_def)
qed

lemma vinv_pinned:
  assumes i: "vinv N NT v" and t: "t \<in> vq v" and b: "b \<or> vst v t \<noteq> - 1"
  shows "vinv N NT (v\<lparr>vpin := (vpin v)(t := b)\<rparr>)" (is "vinv N NT ?v")
proof -
  have cnt: "counted N ?v d \<longleftrightarrow> counted N v d" for d by (simp add: counted_def)
  have k: "kids N ?v u = kids N v u" for u by (simp add: kids_def cnt)
  have used: "vused v t" using vq_used [OF i t] by simp
  have "vqueue N NT ?v" unfolding vqueue_def using vqueueD [OF i] used by auto
  moreover have "vhold N NT ?v"
  proof -
    have "\<not> vpin ?v d" if "q < N" "vpc v q = SSpawn u d" for q u d using v_spawn [OF i that] t by auto
    then show ?thesis using i unfolding vinv_def vhold_def by simp
  qed
  moreover have "vmap N NT ?v" unfolding vmap_def using vmapD [OF i] by simp
  moreover have "vstatus N ?v" unfolding vstatus_def cnt k using vstatusD [OF i] b by auto
  ultimately show ?thesis by (simp add: vinv_def)
qed

lemma vinv_undel:
  assumes i: "vinv N NT v" and p: "p < N" and pc: "vpc v p = SDel5 t" and pin: "vpin v t"
  shows "vinv N NT (v\<lparr>vpc := (vpc v)(p := SIdle)\<rparr>)" (is "vinv N NT ?v")
proof -
  have other: "q < N \<Longrightarrow> pcThread (vpc v q) = Some t \<Longrightarrow> q = p" for q using v_once [OF i, of q p t] p pc by simp
  have cnt: "counted N ?v d \<longleftrightarrow> counted N v d" for d using pc by (intro counted_cong) auto
  have k: "kids N ?v u = kids N v u" for u using cnt by (intro kids_cong) simp
  have sp: "vpc ?v q = SSpawn u d \<longleftrightarrow> vpc v q = SSpawn u d" for q u d using pc by simp
  have th: "q < N \<Longrightarrow> pcThread (vpc ?v q) = Some u \<longleftrightarrow> pcThread (vpc v q) = Some u \<and> u \<noteq> t" for q u
    using other [of q] pc by (cases "q = p") auto
  have "vqueue N NT ?v" unfolding vqueue_def sp using vqueueD [OF i] by simp
  moreover have "vhold N NT ?v"
    unfolding vhold_def sp
  proof (intro conjI allI impI)
    fix q r u assume "q < N" "r < N" "pcThread (vpc ?v q) = Some u" "pcThread (vpc ?v r) = Some u"
    then show "q = r" using v_once [OF i, of q r u] th by simp
  next
    fix q u assume "q < N" "pcThread (vpc ?v q) = Some u"
    then show "u \<in> vq ?v" using v_held [OF i, of q u] th by simp
  next
    fix q r u w d assume "q < N" "r < N" "vpc v q = SSpawn u d" "vpc v r = SSpawn w d"
    then show "q = r" using v_spawn1 [OF i, of q r u d w] by simp
  qed (use v_spawn [OF i] in simp_all)
  moreover have "vmap N NT ?v" using vmapD [OF i] v_mapped [OF i p] pc unfolding vmap_def by auto
  moreover have "vstatus N ?v"
    unfolding vstatus_def k cnt
  proof (intro conjI ballI allI impI)
    fix q u assume q: "q < N" "pcThread (vpc ?v q) = Some u" "vpc ?v q \<noteq> SDel5 u"
    then have "q \<noteq> p" by auto
    then show "vst ?v u = pcWeight (vpc ?v q) + int (kids N v u)" using v_status [OF i q(1), of u] q by simp
  next
    fix u assume u: "u \<in> vq ?v" "vst ?v u \<noteq> - 1" "\<forall>q<N. pcThread (vpc ?v q) \<noteq> Some u"
    then have "u \<noteq> t" using v_del5 [OF i p pc] by auto
    then have "pcThread (vpc v q) \<noteq> Some u" if "q < N" for q using that th u(3) by simp
    then show "vst ?v u = int (kids N v u)" using v_free [OF i, of u] u by simp
  next
    fix u assume u: "u \<in> vq ?v" "vst ?v u = - 1"
    then have "vpin v u \<or> (\<exists>q<N. vpc v q = SDel5 u)" using v_dead [OF i, of u] by simp
    then show "vpin ?v u \<or> (\<exists>q<N. vpc ?v q = SDel5 u)" using pc pin by fastforce
  qed (use vstatusD [OF i] pc in \<open>auto split: if_splits\<close>)
  ultimately show ?thesis by (simp add: vinv_def)
qed


end
