(* ===== verification/Scheduler.thy ===== *)
theory Scheduler
  imports SchedView
begin

text \<open>
  The interleaving of the processors in \<open>Runtime/sparc/thread.c\<close>.  The pieces of \<open>work\<close>,
  \<open>SpawnRest\<close>, \<open>YieldRest\<close> and \<open>Finish\<close> (see \<open>Jobs\<close>) are the steps of a processor; between them
  other processors run.  A running thread may change its registers, its request, the memory and the
  stacklets in any way.  Every step keeps the invariant of \<open>SchedView\<close>; the properties at the end
  follow from it.
\<close>

subsection \<open>Steps of the processors\<close>

definition setSpc :: "nat \<Rightarrow> spc \<Rightarrow> (nat \<Rightarrow> spc) \<Rightarrow> sched result \<Rightarrow> (sched \<times> (nat \<Rightarrow> spc)) result" where
  "setSpc p c pc r = bindE r (\<lambda>s. Inr (s, pc(p := c)))"

fun stoppedPc :: "spc \<Rightarrow> bool" where
  "stoppedPc SIdle = True"
| "stoppedPc (SCheck x) = True"
| "stoppedPc (SWork t) = True"
| "stoppedPc SExit = True"
| "stoppedPc _ = False"

inductive sstep ::
    "(nat \<Rightarrow> nat \<Rightarrow> sched \<Rightarrow> sched result) \<Rightarrow> config \<Rightarrow> (nat \<Rightarrow> addr option) \<Rightarrow> (addr \<Rightarrow> nat \<Rightarrow> bool) \<Rightarrow> nat \<Rightarrow>
     sched \<times> (nat \<Rightarrow> spc) \<Rightarrow> (sched \<times> (nat \<Rightarrow> spc)) result \<Rightarrow> bool"
  for gcFun cfg mm mprot N where
  fetch: "p < N \<Longrightarrow> pc p = SIdle \<Longrightarrow> work_take p s = (r, s') \<Longrightarrow>
     sstep gcFun cfg mm mprot N (s, pc) (Inr (s', pc(p := SCheck r)))"
| check: "p < N \<Longrightarrow> pc p = SCheck r \<Longrightarrow>
     sstep gcFun cfg mm mprot N (s, pc)
       (Inr (s, pc(p := (if EmptyPlain s then SExit else case r of None \<Rightarrow> SIdle | Some t \<Rightarrow> SWork t))))"
| dispatch: "p < N \<Longrightarrow> pc p = SWork t \<Longrightarrow>
     sstep gcFun cfg mm mprot N (s, pc)
       (setSpc p (SRun t) pc (bindE (work_dispatch gcFun cfg p t s) (\<lambda>(_, s). Inr s)))"
| mutate: "p < N \<Longrightarrow> pc p = SRun t \<Longrightarrow>
     sstep gcFun cfg mm mprot N (s, pc)
       (Inr ((updTh t (\<lambda>th. th\<lparr>saveregs := regs, writelistAlloc := wl, request := rq, requestInfo := ri\<rparr>) s)\<lparr>stk := k\<rparr>, pc))"
| yield: "p < N \<Longrightarrow> pc p = SRun t \<Longrightarrow>
     sstep gcFun cfg mm mprot N (s, pc) (setSpc p (SYield t) pc (YieldRest_start p t s))"
| yielded: "p < N \<Longrightarrow> pc p = SYield t \<Longrightarrow>
     sstep gcFun cfg mm mprot N (s, pc) (setSpc p SIdle pc (ReleaseJob_release t s))"
| collect: "p < N \<Longrightarrow> pc p = SRun t \<Longrightarrow>
     sstep gcFun cfg mm mprot N (s, pc) (setSpc p (SWork t) pc (GCFromMutator p t s))"
| spawn: "p < N \<Longrightarrow> pc p = SRun t \<Longrightarrow> c < length (Threads s) \<Longrightarrow> \<not> thUsed (Threads s ! c) \<Longrightarrow>
     sstep gcFun cfg mm mprot N (s, pc) (setSpc p (SSpawn t c) pc
       (bindE (assertE (thProc (Threads s ! t) = Some p) ''parent->proc == proc'') (\<lambda>_.
        Thread_Create mm mprot c (Some t) thnk s)))"
| spawned: "p < N \<Longrightarrow> pc p = SSpawn t c \<Longrightarrow>
     sstep gcFun cfg mm mprot N (s, pc) (setSpc p (SRun t) pc (AddJob c s))"
| finish: "p < N \<Longrightarrow> pc p = SRun t \<Longrightarrow>
     sstep gcFun cfg mm mprot N (s, pc) (setSpc p (SDel1 t) pc (DeleteJob_start p t s))"
| delete1: "p < N \<Longrightarrow> pc p = SDel1 t \<Longrightarrow>
     sstep gcFun cfg mm mprot N (s, pc) (setSpc p (SDel2 t) pc (ReleaseJob_unmap p t s))"
| delete2: "p < N \<Longrightarrow> pc p = SDel2 t \<Longrightarrow>
     sstep gcFun cfg mm mprot N (s, pc) (setSpc p (SDel3 t) pc (ReleaseJob_release t s))"
| delete3: "p < N \<Longrightarrow> pc p = SDel3 t \<Longrightarrow>
     sstep gcFun cfg mm mprot N (s, pc) (setSpc p (SDel4 t) pc (DeleteJob_parent t s))"
| delete4: "p < N \<Longrightarrow> pc p = SDel4 t \<Longrightarrow>
     sstep gcFun cfg mm mprot N (s, pc) (setSpc p (SDel5 t) pc (DeleteJob_mark t s))"
| delete5: "p < N \<Longrightarrow> pc p = SDel5 t \<Longrightarrow>
     sstep gcFun cfg mm mprot N (s, pc) (setSpc p SIdle pc (Thread_Free t s))"
| stop: "p < N \<Longrightarrow> sstep gcFun cfg mm mprot N (s, pc) (Inr (StopAllThreads s, pc))"
| pin: "\<forall>q<N. stoppedPc (pc q) \<Longrightarrow> Some t \<in> set (JobQueue s) \<Longrightarrow> \<not> thPinned (Threads s ! t) \<Longrightarrow>
     sstep gcFun cfg mm mprot N (s, pc) (bindE (Thread_Pin t s) (\<lambda>s. Inr (s, pc)))"
| unpin: "\<forall>q<N. stoppedPc (pc q) \<Longrightarrow> Some t \<in> set (JobQueue s) \<Longrightarrow>
     sstep gcFun cfg mm mprot N (s, pc) (bindE (Thread_Unpin t s) (\<lambda>s. Inr (s, pc)))"

text \<open>
  A processor yields the lock in \<open>thread_create\<close> between two candidates, so any free slot may be the
  one it takes (\<open>spawn\<close>).  The concurrent collectors pin and unpin threads while all processors are
  stopped at a barrier (\<open>pin\<close>, \<open>unpin\<close>).
\<close>

definition thread_init :: "thread list \<Rightarrow> sproc list \<Rightarrow> stks \<Rightarrow> sched" where
  \<comment> \<open>with the uninitialized threads, and processors without a thread\<close>
  "thread_init ths prs k = \<lparr>Threads = map (\<lambda>i. fillThread (ths ! i) i) [0..<length ths],
     Procs = map (\<lambda>pr. pr\<lparr>userThread := None\<rparr>) prs, JobQueue = replicate (length ths) None,
     activeThread = 0, maxThread = 0, totalThread = 0, curThread = 0, EmptyPlain = False, stk = k\<rparr>"

definition thread_go :: "(nat \<Rightarrow> addr option) \<Rightarrow> (addr \<Rightarrow> nat \<Rightarrow> bool) \<Rightarrow> val \<Rightarrow> sched \<Rightarrow> sched result" where
  \<comment> \<open>the part that sets up the main thread\<close>
  "thread_go mm mprot thnk s =
     bindE (thread_create mm mprot None thnk s) (\<lambda>(t, s). AddJob t s)"

inductive sreach ::
    "(nat \<Rightarrow> nat \<Rightarrow> sched \<Rightarrow> sched result) \<Rightarrow> config \<Rightarrow> (nat \<Rightarrow> addr option) \<Rightarrow> (addr \<Rightarrow> nat \<Rightarrow> bool) \<Rightarrow> nat \<Rightarrow>
     sched \<times> (nat \<Rightarrow> spc) \<Rightarrow> bool"
  for gcFun cfg mm mprot N where
  sreach_start: "length prs = N \<Longrightarrow> thread_go mm mprot thnk (thread_init ths prs k) = Inr s \<Longrightarrow>
     sreach gcFun cfg mm mprot N (s, \<lambda>_. SIdle)"
| sreach_step: "sreach gcFun cfg mm mprot N c \<Longrightarrow> sstep gcFun cfg mm mprot N c (Inr c') \<Longrightarrow>
     sreach gcFun cfg mm mprot N c'"

subsection \<open>The view of a state\<close>

definition viewOf :: "sched \<Rightarrow> (nat \<Rightarrow> spc) \<Rightarrow> view" where
  "viewOf s pc = \<lparr>vq = {t. Some t \<in> set (JobQueue s)}, vst = (\<lambda>t. thStatus (Threads s ! t)),
     vused = (\<lambda>t. thUsed (Threads s ! t)), vpin = (\<lambda>t. thPinned (Threads s ! t)),
     vpar = (\<lambda>t. thParent (Threads s ! t)), vproc = (\<lambda>t. thProc (Threads s ! t)),
     vuser = (\<lambda>p. userThread (Procs s ! p)), vact = activeThread s, vempty = EmptyPlain s, vpc = pc\<rparr>"

subsection \<open>The effect of the operations\<close>

definition sched_msgs :: "string set" where
  \<comment> \<open>the assertions of the scheduler itself\<close>
  "sched_msgs = {''i < NumThread'', ''th->status >= 1'', ''th->used == 0'', ''th->status == -1'', ''!th->pinned'',
     ''th->pinned == 0'', ''th->status < 0 || !th->pinned'', ''th->proc == proc'', ''th->parent->status >= 0'',
     ''th->status == 1'', ''th->proc == NULL'', ''proc->userThread == th'', ''work: th->status == 1'',
     ''parent->proc == proc'', ''proc->userThread == curThread''}"

definition schedFault :: "fault \<Rightarrow> bool" where
  "schedFault e \<longleftrightarrow> (\<exists>msg. e = AssertFail msg \<and> msg \<in> sched_msgs)"

definition noSched :: "'a result \<Rightarrow> bool" where
  "noSched r \<longleftrightarrow> (\<forall>e. r = Inl e \<longrightarrow> \<not> schedFault e)"

lemma noSched_simps [simp, intro]:
  "noSched (Inr x)" "noSched (Inl (Die m))" "noSched (Inl (Overrun m))" "noSched (Inl (Spin m))" "noSched (Inl OutOfFuel)"
  by (simp_all add: noSched_def schedFault_def)

lemma noSched_assert [intro]: "b \<or> msg \<notin> sched_msgs \<Longrightarrow> noSched (assertE b msg)"
  by (auto simp: noSched_def schedFault_def assertE_def)

lemma noSched_bind [intro]: "noSched r \<Longrightarrow> (\<And>x. r = Inr x \<Longrightarrow> noSched (f x)) \<Longrightarrow> noSched (bindE r f)"
  by (cases r) (simp_all add: noSched_def)

lemma noSched_if: "(b \<Longrightarrow> noSched x) \<Longrightarrow> (\<not> b \<Longrightarrow> noSched y) \<Longrightarrow> noSched (if b then x else y)"
  by simp

lemma noSched_option: "(x = None \<Longrightarrow> noSched y) \<Longrightarrow> (\<And>a. x = Some a \<Longrightarrow> noSched (z a)) \<Longrightarrow> noSched (case x of None \<Rightarrow> y | Some a \<Rightarrow> z a)"
  by (cases x) simp_all

lemma noSched_prod: "(\<And>a b. x = (a, b) \<Longrightarrow> noSched (z a b)) \<Longrightarrow> noSched (case x of (a, b) \<Rightarrow> z a b)"
  by (cases x) simp_all

lemmas noSched_rules = noSched_bind noSched_if noSched_option noSched_prod noSched_assert

lemma noSched_stacklets:
  "noSched (Stacklet_Dealloc q k)" "noSched (Stacklet_Copy i k)" "noSched (Stacklet_KillReplica i k)" "noSched (deallocAll qs k)"
  "noSched (findActive k sp ps n)" "noSched (EstablishStacklet c sp k)" "noSched (CurrentStacklet c k)"
  "noSched (StackChain_Dealloc c k)"
proof -
  show d: "noSched (Stacklet_Dealloc q k)" for q k
    unfolding Stacklet_Dealloc_def by (intro noSched_rules) (simp_all add: sched_msgs_def)
  show cp: "noSched (Stacklet_Copy i k)" for i k
    unfolding Stacklet_Copy_def Let_def by (intro noSched_rules) (simp_all add: sched_msgs_def)
  show "noSched (Stacklet_KillReplica i k)"
    unfolding Stacklet_KillReplica_def Let_def by (intro noSched_rules cp) (simp_all add: sched_msgs_def)
  show da: "noSched (deallocAll qs k)" for qs k
  proof (induction qs arbitrary: k)
    case (Cons q qs)
    then show ?case by (simp add: noSched_bind d)
  qed simp
  show f: "noSched (findActive k sp ps n)" for k sp ps n
    by (induction n) (auto split: option.split)
  show "noSched (EstablishStacklet c sp k)"
    unfolding EstablishStacklet_def Let_def by (intro noSched_rules f da) (simp_all add: sched_msgs_def)
  show "noSched (CurrentStacklet c k)"
    unfolding CurrentStacklet_def Let_def by (intro noSched_rules) (simp_all add: sched_msgs_def)
  show "noSched (StackChain_Dealloc c k)"
    unfolding StackChain_Dealloc_def by (intro noSched_rules da) simp
qed

lemma noSched_alloc: "noSched (StackChain_Alloc mm mprot t k)"
proof -
  have m: "noSched (my_mprotect mprot a n)" for a n by (simp add: my_mprotect_def)
  have "noSched (mapStacklet mprot a r)" for a r
    unfolding mapStacklet_def Let_def by (intro noSched_rules m) (simp_all add: sched_msgs_def)
  then have "noSched (Stacklet_Alloc mm mprot c k)" for c k
    unfolding Stacklet_Alloc_def Let_def by (intro noSched_rules) simp_all
  then have "noSched (NewStacklet mm mprot c k)" for c k
    unfolding NewStacklet_def Let_def by (intro noSched_rules) (simp_all add: sched_msgs_def)
  moreover have "noSched (StackChain_BaseAlloc u n k)" for u n
    unfolding StackChain_BaseAlloc_def by (intro noSched_rules) (simp_all add: sched_msgs_def)
  ultimately show ?thesis unfolding StackChain_Alloc_def by (intro noSched_rules) simp_all
qed

definition undisturbed :: "sched \<Rightarrow> sched \<Rightarrow> bool" where
  \<comment> \<open>nothing changed that the invariant speaks of\<close>
  "undisturbed s s' \<longleftrightarrow> (\<forall>pc. viewOf s' pc = viewOf s pc) \<and> JobQueue s' = JobQueue s \<and>
     length (Threads s') = length (Threads s) \<and> length (Procs s') = length (Procs s)"

lemma undisturbed_trans [trans]: "undisturbed s s' \<Longrightarrow> undisturbed s' s'' \<Longrightarrow> undisturbed s s''"
  by (simp add: undisturbed_def)

lemma undisturbed_refl [simp]: "undisturbed s s"
  by (simp add: undisturbed_def)

lemma undisturbed_stk: "undisturbed s (s\<lparr>stk := k\<rparr>)"
  by (simp add: undisturbed_def viewOf_def)

lemma undisturbed_updTh:
  assumes "\<And>th. thStatus (f th) = thStatus th \<and> thUsed (f th) = thUsed th \<and> thPinned (f th) = thPinned th \<and>
    thParent (f th) = thParent th \<and> thProc (f th) = thProc th"
  shows "undisturbed s (updTh t f s)"
proof -
  have "g ((Threads s)[t := f (Threads s ! t)] ! u) = g (Threads s ! u)" if "\<And>th. g (f th) = g th" for g :: "thread \<Rightarrow> 'a" and u
    using that by (cases "t < length (Threads s)"; cases "u = t") (simp_all add: not_less list_update_beyond)
  note u = this
  show ?thesis using u [of thStatus] u [of thUsed] u [of thPinned] u [of thParent] u [of thProc] assms
    by (simp add: undisturbed_def viewOf_def updTh_def)
qed

lemma undisturbed_updPr:
  assumes "\<And>pr. userThread (f pr) = userThread pr"
  shows "undisturbed s (updPr p f s)"
proof -
  have "userThread ((Procs s)[p := f (Procs s ! p)] ! q) = userThread (Procs s ! q)" for q
    using assms by (cases "p < length (Procs s)"; cases "q = p") (simp_all add: not_less list_update_beyond)
  then show ?thesis by (simp add: undisturbed_def viewOf_def updPr_def)
qed

lemma setReg_sel [simp]:
  "thStatus (setReg r x th) = thStatus th" "thUsed (setReg r x th) = thUsed th" "thPinned (setReg r x th) = thPinned th"
  "thParent (setReg r x th) = thParent th" "thProc (setReg r x th) = thProc th" "thStack (setReg r x th) = thStack th"
  "request (setReg r x th) = request th" "thunk (setReg r x th) = thunk th"
  by (simp_all add: setReg_def)

lemma undisturbed_intros:
  "undisturbed s s1 \<Longrightarrow> undisturbed s (s1\<lparr>stk := k\<rparr>)"
  "undisturbed s s1 \<Longrightarrow> (\<And>pr. userThread (h pr) = userThread pr) \<Longrightarrow> undisturbed s (updPr p h s1)"
  "undisturbed s s1 \<Longrightarrow> (\<And>th. thStatus (f th) = thStatus th \<and> thUsed (f th) = thUsed th \<and> thPinned (f th) = thPinned th \<and>
    thParent (f th) = thParent th \<and> thProc (f th) = thProc th) \<Longrightarrow> undisturbed s (updTh t f s1)"
  by (erule undisturbed_trans, rule undisturbed_stk undisturbed_updPr undisturbed_updTh; assumption)+

lemma UpdateJob_undisturbed: "UpdateJob p t s = Inr s' \<Longrightarrow> undisturbed s s'"
  unfolding UpdateJob_def Let_def GCReleaseThread_def
  by (clarsimp split: if_splits option.splits) (intro undisturbed_intros undisturbed_refl; simp)

lemma UpdateJob_noSched: "noSched (UpdateJob p t s)"
proof -
  have "noSched (PadHeapArea m lo hi)" for m lo hi by (simp add: PadHeapArea_def)
  then show ?thesis unfolding UpdateJob_def Let_def by (intro noSched_rules noSched_stacklets) simp_all
qed

lemma GCFromMutator_undisturbed: "GCFromMutator p t s = Inr s' \<Longrightarrow> undisturbed s s'"
  unfolding GCFromMutator_def Let_def
  by (clarsimp split: option.splits) (erule undisturbed_trans [OF undisturbed_stk UpdateJob_undisturbed])

lemma GCFromMutator_noSched: "userThread (Procs s ! p) = Some t \<Longrightarrow> noSched (GCFromMutator p t s)"
  unfolding GCFromMutator_def Let_def
  by (intro noSched_rules noSched_stacklets UpdateJob_noSched) (simp_all add: sched_msgs_def)

lemma GCSatisfiable_noSched: "noSched (GCSatisfiable cfg p t s)"
  by (simp add: GCSatisfiable_def Let_def)

lemma StopAllThreads_undisturbed: "undisturbed s (StopAllThreads s)"
proof -
  have "undisturbed s1 (foldl (\<lambda>s x. case x of None \<Rightarrow> s
     | Some t \<Rightarrow> updTh t (setReg ALLOCLIMIT (word_of_nat StopHeapLimit)) s) s1 q)" for s1 q
  proof (induction q arbitrary: s1)
    case (Cons x q)
    have "undisturbed s1 (case x of None \<Rightarrow> s1 | Some t \<Rightarrow> updTh t (setReg ALLOCLIMIT (word_of_nat StopHeapLimit)) s1)"
      by (cases x) (simp_all add: undisturbed_updTh)
    then show ?case using Cons.IH by (simp add: undisturbed_trans)
  qed simp
  then show ?thesis by (simp add: StopAllThreads_def)
qed


lemma viewOf_sel [simp]:
  "vq (viewOf s pc) = {t. Some t \<in> set (JobQueue s)}" "vst (viewOf s pc) t = thStatus (Threads s ! t)"
  "vused (viewOf s pc) t = thUsed (Threads s ! t)" "vpin (viewOf s pc) t = thPinned (Threads s ! t)"
  "vpar (viewOf s pc) t = thParent (Threads s ! t)" "vproc (viewOf s pc) t = thProc (Threads s ! t)"
  "vuser (viewOf s pc) p = userThread (Procs s ! p)" "vact (viewOf s pc) = activeThread s"
  "vempty (viewOf s pc) = EmptyPlain s" "vpc (viewOf s pc) = pc"
  by (simp_all add: viewOf_def)

lemma view_eqI:
  assumes "vq v = vq w" "vst v = vst w" "vused v = vused w" "vpin v = vpin w" "vpar v = vpar w" "vproc v = vproc w"
    "vuser v = vuser w" "vact v = vact w" "vempty v = vempty w" "vpc v = vpc w"
  shows "(v :: view) = w"
  using assms by (cases v; cases w) simp

lemma Threads_updTh: "t < length (Threads s) \<Longrightarrow> Threads (updTh t f s) ! u = (if u = t then f (Threads s ! t) else Threads s ! u)"
  by (simp add: updTh_def)

lemma updTh_sel [simp]:
  "Procs (updTh t f s) = Procs s" "JobQueue (updTh t f s) = JobQueue s" "activeThread (updTh t f s) = activeThread s"
  "EmptyPlain (updTh t f s) = EmptyPlain s" "length (Threads (updTh t f s)) = length (Threads s)" "stk (updTh t f s) = stk s"
  "maxThread (updTh t f s) = maxThread s" "totalThread (updTh t f s) = totalThread s"
  by (simp_all add: updTh_def)

lemma updPr_sel [simp]:
  "Threads (updPr p f s) = Threads s" "JobQueue (updPr p f s) = JobQueue s" "activeThread (updPr p f s) = activeThread s"
  "EmptyPlain (updPr p f s) = EmptyPlain s" "length (Procs (updPr p f s)) = length (Procs s)" "stk (updPr p f s) = stk s"
  by (simp_all add: updPr_def)

lemma Procs_updPr: "p < length (Procs s) \<Longrightarrow> Procs (updPr p f s) ! q = (if q = p then f (Procs s ! p) else Procs s ! q)"
  by (simp add: updPr_def)

lemma addStatus_sel [simp]:
  "Procs (addStatus t n s) = Procs s" "JobQueue (addStatus t n s) = JobQueue s" "length (Threads (addStatus t n s)) = length (Threads s)"
  "activeThread (addStatus t n s) = activeThread s"
  by (simp_all add: addStatus_def)

lemma view_addStatus:
  "t < length (Threads s) \<Longrightarrow> viewOf (addStatus t n s) pc =
     (viewOf s pc)\<lparr>vst := (vst (viewOf s pc))(t := thStatus (Threads s ! t) + n)\<rparr>"
  by (rule view_eqI) (simp_all add: addStatus_def Threads_updTh fun_eq_iff)

lemma view_mapping:
  "t < length (Threads s) \<Longrightarrow> p < length (Procs s) \<Longrightarrow>
   viewOf (updTh t (\<lambda>th. th\<lparr>thProc := x\<rparr>) (updPr p (\<lambda>pr. pr\<lparr>userThread := y\<rparr>) s)) pc =
     (viewOf s pc)\<lparr>vproc := (vproc (viewOf s pc))(t := x), vuser := (vuser (viewOf s pc))(p := y)\<rparr>"
  by (rule view_eqI) (simp_all add: Threads_updTh Procs_updPr fun_eq_iff)

lemma ReleaseJob_unmap_view:
  assumes "ReleaseJob_unmap p t s = Inr s'" and "t < length (Threads s)" and "p < length (Procs s)"
  shows "viewOf s' pc = (viewOf s pc)\<lparr>vproc := (vproc (viewOf s pc))(t := None), vuser := (vuser (viewOf s pc))(p := None)\<rparr>"
    "JobQueue s' = JobQueue s" "length (Threads s') = length (Threads s)" "length (Procs s') = length (Procs s)"
proof -
  obtain s1 where s1: "UpdateJob p t s = Inr s1" "s' = updTh t (\<lambda>th. th\<lparr>thProc := None\<rparr>) (updPr p (\<lambda>pr. pr\<lparr>userThread := None\<rparr>) s1)"
    using assms(1) by (auto simp: ReleaseJob_unmap_def)
  note u = UpdateJob_undisturbed [OF s1(1), unfolded undisturbed_def]
  show "JobQueue s' = JobQueue s" "length (Threads s') = length (Threads s)" "length (Procs s') = length (Procs s)"
    using u by (simp_all add: s1(2))
  have "t < length (Threads s1)" "p < length (Procs s1)" using u assms by simp_all
  from view_mapping [OF this, of None None pc] u show "viewOf s' pc =
      (viewOf s pc)\<lparr>vproc := (vproc (viewOf s pc))(t := None), vuser := (vuser (viewOf s pc))(p := None)\<rparr>" by (simp add: s1(2))
qed

lemma mapThread_view:
  assumes "mapThread cfg p t s = Inr s'" and "t < length (Threads s)" and "p < length (Procs s)"
  shows "viewOf s' pc = (viewOf s pc)\<lparr>vproc := (vproc (viewOf s pc))(t := Some p), vuser := (vuser (viewOf s pc))(p := Some t)\<rparr>"
    "JobQueue s' = JobQueue s" "length (Threads s') = length (Threads s)" "length (Procs s') = length (Procs s)"
proof -
  obtain k i s1 where k: "assignThread p t (s\<lparr>stk := k\<rparr>) = Inr s1" "s' = loadThread cfg p t i s1"
    using assms(1) by (auto simp: mapThread_def split: option.splits)
  have vk: "viewOf (s\<lparr>stk := k\<rparr>) pc = viewOf s pc" using undisturbed_stk by (simp add: undisturbed_def)
  have v1: "viewOf s1 pc = (viewOf s pc)\<lparr>vproc := (vproc (viewOf s pc))(t := Some p), vuser := (vuser (viewOf s pc))(p := Some t)\<rparr>"
    "JobQueue s1 = JobQueue s" "length (Threads s1) = length (Threads s)" "length (Procs s1) = length (Procs s)"
  proof -
    show "viewOf s1 pc = (viewOf s pc)\<lparr>vproc := (vproc (viewOf s pc))(t := Some p), vuser := (vuser (viewOf s pc))(p := Some t)\<rparr>"
    proof (cases "userThread (Procs s ! p) = None")
      case True
      then show ?thesis using view_mapping [of t "s\<lparr>stk := k\<rparr>" p "Some p" "Some t" pc] assms k(1) vk by (auto simp: assignThread_def)
    next
      case False
      then show ?thesis using k(1) by (intro view_eqI) (auto simp: assignThread_def fun_eq_iff)
    qed
    show "JobQueue s1 = JobQueue s" "length (Threads s1) = length (Threads s)" "length (Procs s1) = length (Procs s)"
      using k(1) by (auto simp: assignThread_def split: if_splits)
  qed
  have u: "undisturbed s1 s'" unfolding k(2) loadThread_def Let_def by (intro undisturbed_updTh) simp
  then show "viewOf s' pc = (viewOf s pc)\<lparr>vproc := (vproc (viewOf s pc))(t := Some p), vuser := (vuser (viewOf s pc))(p := Some t)\<rparr>"
    "JobQueue s' = JobQueue s" "length (Threads s') = length (Threads s)" "length (Procs s') = length (Procs s)"
    using v1 by (simp_all add: undisturbed_def)
qed


definition gc_keeps :: "(nat \<Rightarrow> nat \<Rightarrow> sched \<Rightarrow> sched result) \<Rightarrow> bool" where
  \<comment> \<open>the collector does not touch the fields of the scheduler, and its assertions are its own\<close>
  "gc_keeps gcFun \<longleftrightarrow> (\<forall>p t s. noSched (gcFun p t s) \<and> (\<forall>s'. gcFun p t s = Inr s' \<longrightarrow> undisturbed s s'))"

definition mappable :: "nat \<Rightarrow> nat \<Rightarrow> sched \<Rightarrow> bool" where
  "mappable p t s \<longleftrightarrow> (userThread (Procs s ! p) = None \<and> thProc (Threads s ! t) = None) \<or>
     (userThread (Procs s ! p) = Some t \<and> thProc (Threads s ! t) = Some p)"

lemma mappable_undisturbed: "undisturbed s s' \<Longrightarrow> mappable p t s' = mappable p t s"
proof -
  assume "undisturbed s s'"
  then have "viewOf s' (\<lambda>_. SIdle) = viewOf s (\<lambda>_. SIdle)" by (simp add: undisturbed_def)
  then have "vuser (viewOf s' (\<lambda>_. SIdle)) p = vuser (viewOf s (\<lambda>_. SIdle)) p" "vproc (viewOf s' (\<lambda>_. SIdle)) t = vproc (viewOf s (\<lambda>_. SIdle)) t"
    by simp_all
  then show ?thesis by (simp add: mappable_def)
qed

lemma mapThread_noSched: "mappable p t s \<Longrightarrow> noSched (mapThread cfg p t s)"
proof -
  assume m: "mappable p t s"
  have "noSched (assignThread p t (s\<lparr>stk := k\<rparr>))" for k
    using m unfolding assignThread_def by (intro noSched_rules) (auto simp: mappable_def)
  then show ?thesis unfolding mapThread_def by (intro noSched_rules noSched_stacklets) simp_all
qed

definition changes_to :: "sched \<Rightarrow> sched \<Rightarrow> (view \<Rightarrow> view) \<Rightarrow> bool" where
  "changes_to s s' f \<longleftrightarrow> (\<forall>pc. viewOf s' pc = f (viewOf s pc)) \<and> JobQueue s' = JobQueue s \<and>
     length (Threads s') = length (Threads s) \<and> length (Procs s') = length (Procs s)"

lemma changes_before: "undisturbed s s1 \<Longrightarrow> changes_to s1 s' f \<Longrightarrow> changes_to s s' f"
  by (simp add: changes_to_def undisturbed_def)

lemma changes_after: "changes_to s s1 f \<Longrightarrow> undisturbed s1 s' \<Longrightarrow> changes_to s s' f"
  by (simp add: changes_to_def undisturbed_def)

definition vmapped :: "nat \<Rightarrow> nat \<Rightarrow> view \<Rightarrow> view" where
  "vmapped p t v = v\<lparr>vproc := (vproc v)(t := Some p), vuser := (vuser v)(p := Some t)\<rparr>"

definition vunmapped :: "nat \<Rightarrow> nat \<Rightarrow> view \<Rightarrow> view" where
  "vunmapped p t v = v\<lparr>vproc := (vproc v)(t := None), vuser := (vuser v)(p := None)\<rparr>"

lemma mapThread_changes:
  "mapThread cfg p t s = Inr s' \<Longrightarrow> t < length (Threads s) \<Longrightarrow> p < length (Procs s) \<Longrightarrow> changes_to s s' (vmapped p t)"
  using mapThread_view by (simp add: changes_to_def vmapped_def)

lemma unmap_changes:
  "ReleaseJob_unmap p t s = Inr s' \<Longrightarrow> t < length (Threads s) \<Longrightarrow> p < length (Procs s) \<Longrightarrow> changes_to s s' (vunmapped p t)"
  using ReleaseJob_unmap_view by (simp add: changes_to_def vunmapped_def)

lemma GCFromScheduler_undisturbed:
  assumes "gc_keeps gcFun" and "GCFromScheduler gcFun cfg p t s = Inr s'" shows "undisturbed s s'"
  using assms by (auto simp: GCFromScheduler_def gc_keeps_def)

lemma GCFromScheduler_noSched: "gc_keeps gcFun \<Longrightarrow> noSched (GCFromScheduler gcFun cfg p t s)"
  unfolding GCFromScheduler_def gc_keeps_def by (intro noSched_rules GCSatisfiable_noSched) (simp_all add: sched_msgs_def)

lemma work_dispatch_changes:
  assumes gc: "gc_keeps gcFun" and w: "work_dispatch gcFun cfg p t s = Inr (r, s')"
    and b: "t < length (Threads s)" "p < length (Procs s)"
  shows "changes_to s s' (vmapped p t)"
proof -
  have gcreq: ?thesis if g: "GCFromScheduler gcFun cfg p t s = Inr s1" "mapThread cfg p t s1 = Inr s'" for s1
  proof -
    have u: "undisturbed s s1" using GCFromScheduler_undisturbed [OF gc g(1)] .
    then show ?thesis using changes_before [OF u mapThread_changes [OF g(2)]] b by (simp add: undisturbed_def)
  qed
  show ?thesis
  proof (cases "request (Threads s ! t)")
    case YieldRequest
    then have m: "mapThread cfg p t (updTh t (setReg 16 (word_of_nat t)) s) = Inr s'" using w by (auto simp: work_dispatch_def)
    show ?thesis using b by (intro changes_before [OF undisturbed_updTh mapThread_changes [OF m]]) simp_all
  next
    case StartRequest
    then obtain s1 where m: "mapThread cfg p t s = Inr s1" "s' = updTh t (\<lambda>th. th\<lparr>thunk := 0\<rparr>) s1"
      using w by (auto simp: work_dispatch_def Let_def)
    show ?thesis unfolding m(2) by (intro changes_after [OF mapThread_changes [OF m(1) b]] undisturbed_updTh) simp
  qed (use w gcreq in \<open>auto simp: work_dispatch_def\<close>)
qed

lemma work_dispatch_noSched:
  assumes gc: "gc_keeps gcFun" and m: "mappable p t s" and s: "thStatus (Threads s ! t) = 1"
  shows "noSched (work_dispatch gcFun cfg p t s)"
proof -
  have gcreq: "noSched (bindE (GCFromScheduler gcFun cfg p t s) (\<lambda>s. bindE (GCSatisfiable cfg p t s) (\<lambda>b.
         bindE (assertE b ''GCSatisfiable(proc,th)'') (\<lambda>_. bindE (mapThread cfg p t s) (\<lambda>s.
         bindE (resumeGC (request (Threads s ! t))) (\<lambda>r. Inr (r, s)))))))"
    apply (intro noSched_rules GCFromScheduler_noSched gc GCSatisfiable_noSched mapThread_noSched)
      apply (simp add: sched_msgs_def)
     apply (use mappable_undisturbed GCFromScheduler_undisturbed [OF gc] m in blast)
    subgoal for s1 b u s2 by (cases "request (Threads s2 ! t)") simp_all
    apply simp
    done
  have u: "undisturbed s (updTh t (setReg 16 (word_of_nat t)) s)" by (rule undisturbed_updTh) simp
  have y: "noSched (mapThread cfg p t (updTh t (setReg 16 (word_of_nat t)) s))"
    using m by (intro mapThread_noSched) (simp add: mappable_undisturbed [OF u])
  have st: "noSched (mapThread cfg p t s)" using m by (rule mapThread_noSched)
  show ?thesis
  proof (cases "request (Threads s ! t)")
    case YieldRequest
    then show ?thesis using s y by (auto simp: work_dispatch_def)
  next
    case StartRequest
    then show ?thesis using s st
      by (simp add: work_dispatch_def Let_def) (intro noSched_rules; simp add: sched_msgs_def)
  qed (use s gcreq in \<open>simp_all add: work_dispatch_def\<close>)
qed


subsection \<open>Queue operations\<close>

definition queue_ok :: "sched \<Rightarrow> bool" where
  "queue_ok s \<longleftrightarrow> length (JobQueue s) = length (Threads s) \<and> distinct (filter (\<lambda>x. x \<noteq> None) (JobQueue s))"

lemma distinct_put:
  assumes "distinct (filter (\<lambda>x. x \<noteq> None) q)" and "i < length q" and "q ! i = None" and "Some c \<notin> set q"
  shows "distinct (filter (\<lambda>x. x \<noteq> None) (q[i := Some c]))" "set (q[i := Some c]) - {None} = insert (Some c) (set q - {None})"
proof -
  have q: "q = take i q @ None # drop (Suc i) q" using id_take_nth_drop [OF assms(2)] assms(3) by simp
  have u: "q[i := Some c] = take i q @ Some c # drop (Suc i) q" using assms(2) by (simp add: upd_conv_take_nth_drop)
  have "distinct (filter (\<lambda>x. x \<noteq> None) (take i q @ None # drop (Suc i) q))" using assms(1) q by simp
  then show "distinct (filter (\<lambda>x. x \<noteq> None) (q[i := Some c]))"
    unfolding u using assms(4) by (auto dest: in_set_takeD in_set_dropD)
  show "set (q[i := Some c]) - {None} = insert (Some c) (set q - {None})"
    unfolding u by (subst (3) q) auto
qed

lemma distinct_drop:
  assumes "distinct (filter (\<lambda>x. x \<noteq> None) q)" and "i < length q" and "q ! i = Some c"
  shows "distinct (filter (\<lambda>x. x \<noteq> None) (q[i := None]))" "set (q[i := None]) - {None} = set q - {None, Some c}"
proof -
  have q: "q = take i q @ Some c # drop (Suc i) q" using id_take_nth_drop [OF assms(2)] assms(3) by simp
  have u: "q[i := None] = take i q @ None # drop (Suc i) q" using assms(2) by (simp add: upd_conv_take_nth_drop)
  have d: "distinct (filter (\<lambda>x. x \<noteq> None) (take i q @ Some c # drop (Suc i) q))" using assms(1) q by simp
  then show "distinct (filter (\<lambda>x. x \<noteq> None) (q[i := None]))" unfolding u by auto
  have "Some c \<notin> set (take i q)" "Some c \<notin> set (drop (Suc i) q)" using d by auto
  then show "set (q[i := None]) - {None} = set q - {None, Some c}"
    unfolding u by (subst (3) q) auto
qed

lemma firstFree_None: "firstFree P k xs = None \<longleftrightarrow> (\<forall>x\<in>set xs. \<not> P x)"
  by (induction xs arbitrary: k) simp_all

lemma queue_room:
  assumes "queue_ok s" and "\<And>t. Some t \<in> set (JobQueue s) \<Longrightarrow> t < length (Threads s)" and "c < length (Threads s)" and "Some c \<notin> set (JobQueue s)"
  shows "None \<in> set (JobQueue s)"
proof (rule ccontr)
  assume no: "None \<notin> set (JobQueue s)"
  let ?q = "JobQueue s"
  have "filter (\<lambda>x. x \<noteq> None) ?q = ?q" using no by (intro filter_True) metis
  then have d: "distinct ?q" "length ?q = length (Threads s)" using assms(1) by (simp_all add: queue_ok_def)
  have "set ?q \<subseteq> Some ` ({..<length (Threads s)} - {c})"
  proof
    fix x assume x: "x \<in> set ?q"
    then have "x \<noteq> None" using no by metis
    then obtain t where "x = Some t" by (cases x) simp_all
    then show "x \<in> Some ` ({..<length (Threads s)} - {c})" using assms(2,4) x by auto
  qed
  then have "card (set ?q) \<le> card (Some ` ({..<length (Threads s)} - {c}))" by (intro card_mono) simp_all
  also have "\<dots> = length (Threads s) - 1" using assms(3) by (simp add: card_image)
  finally show False using d assms(3) distinct_card [OF d(1)] by linarith
qed

lemma AddJob_effect:
  assumes q: "queue_ok s" "\<And>t. Some t \<in> set (JobQueue s) \<Longrightarrow> t < length (Threads s)"
    and c: "c < length (Threads s)" "Some c \<notin> set (JobQueue s)"
  shows "\<exists>s'. AddJob c s = Inr s' \<and> queue_ok s' \<and> length (Threads s') = length (Threads s) \<and> length (Procs s') = length (Procs s) \<and>
    (\<forall>pc. \<forall>u < length (Threads s). thParent (Threads s ! c) = Some u \<longrightarrow> u \<noteq> c \<longrightarrow> viewOf s' pc =
       (viewOf s pc)\<lparr>vq := insert c (vq (viewOf s pc)), vst := ((vst (viewOf s pc))(c := 0))(u := thStatus (Threads s ! u) + 1),
          vact := activeThread s + 1\<rparr>) \<and>
    (\<forall>pc. thParent (Threads s ! c) = None \<longrightarrow> viewOf s' pc =
       (viewOf s pc)\<lparr>vq := insert c (vq (viewOf s pc)), vst := (vst (viewOf s pc))(c := 0), vact := activeThread s + 1\<rparr>)"
proof -
  let ?s1 = "updTh c (\<lambda>th. th\<lparr>thStatus := 0\<rparr>) s"
  let ?s2 = "case thParent (Threads ?s1 ! c) of None \<Rightarrow> ?s1 | Some u \<Rightarrow> addStatus u 1 ?s1"
  have "None \<in> set (JobQueue s)" using queue_room [OF q c] .
  then obtain i where i: "firstFree (\<lambda>x. x = None) 0 (JobQueue s) = Some i"
    using firstFree_None [of "\<lambda>x. x = None" 0 "JobQueue s"] by fastforce
  note ii = firstFree_Some [OF i, simplified]
  have j2: "JobQueue ?s2 = JobQueue s" "length (Threads ?s2) = length (Threads s)" "Procs ?s2 = Procs s" "activeThread ?s2 = activeThread s"
    by (simp_all split: option.split)
  let ?s' = "?s2\<lparr>JobQueue := (JobQueue s)[i := Some c], activeThread := activeThread s + 1, maxThread := max (activeThread s + 1) (maxThread ?s2)\<rparr>"
  have a: "AddJob c s = Inr ?s'"
    unfolding AddJob_def Let_def using i j2 by (simp split: option.split)
  have d: "distinct (filter (\<lambda>x. x \<noteq> None) (JobQueue s))" using q(1) by (simp add: queue_ok_def)
  note p = distinct_put [OF d _ _ c(2), of i]
  have st: "{t. Some t \<in> set ((JobQueue s)[i := Some c])} = insert c {t. Some t \<in> set (JobQueue s)}"
  proof -
    have "Some t \<in> set ((JobQueue s)[i := Some c]) - {None} \<longleftrightarrow> Some t \<in> insert (Some c) (set (JobQueue s) - {None})" for t
      using p(2) ii by simp
    then show ?thesis by auto
  qed
  have "queue_ok ?s'" using p(1) ii q(1) j2 by (simp add: queue_ok_def)
  moreover have "viewOf ?s' pc = (viewOf s pc)\<lparr>vq := insert c (vq (viewOf s pc)),
      vst := ((vst (viewOf s pc))(c := 0))(u := thStatus (Threads s ! u) + 1), vact := activeThread s + 1\<rparr>"
    if "u < length (Threads s)" "thParent (Threads s ! c) = Some u" "u \<noteq> c" for u pc
    using that c st by (intro view_eqI) (simp_all add: Threads_updTh addStatus_def fun_eq_iff)
  moreover have "viewOf ?s' pc = (viewOf s pc)\<lparr>vq := insert c (vq (viewOf s pc)), vst := (vst (viewOf s pc))(c := 0), vact := activeThread s + 1\<rparr>"
    if "thParent (Threads s ! c) = None" for pc
    using that c st by (intro view_eqI) (simp_all add: Threads_updTh fun_eq_iff)
  ultimately show ?thesis unfolding a using j2 by auto
qed


lemma Thread_Free_noSched:
  assumes "Some t \<in> set (JobQueue s)" and "thStatus (Threads s ! t) < 0 \<or> \<not> thPinned (Threads s ! t)"
  shows "noSched (Thread_Free t s)"
proof -
  have "firstFree (\<lambda>x. x = Some t) 0 (JobQueue s) \<noteq> None" using assms(1) firstFree_None [of "\<lambda>x. x = Some t"] by fastforce
  then show ?thesis
    unfolding Thread_Free_def Let_def using assms(2) by (intro noSched_rules noSched_stacklets) auto
qed

lemma Thread_Free_effect:
  assumes r: "Thread_Free t s = Inr s'" and q: "queue_ok s" and t: "Some t \<in> set (JobQueue s)" "t < length (Threads s)"
    and a: "0 < activeThread s"
  shows "queue_ok s' \<and> length (Threads s') = length (Threads s) \<and> length (Procs s') = length (Procs s) \<and>
    (if thStatus (Threads s ! t) < 0 \<and> \<not> thPinned (Threads s ! t)
     then \<forall>pc. viewOf s' pc = (viewOf s pc)\<lparr>vq := vq (viewOf s pc) - {t}, vused := (vused (viewOf s pc))(t := False),
            vact := activeThread s - 1, vempty := (EmptyPlain s \<or> activeThread s = 1)\<rparr>
     else s' = s)"
proof (cases "thStatus (Threads s ! t) < 0 \<and> \<not> thPinned (Threads s ! t)")
  case False
  then have "s' = s" using r a by (auto simp: Thread_Free_def split: option.splits if_splits)
  then show ?thesis using False q by auto
next
  case True
  obtain i where i: "firstFree (\<lambda>x. x = Some t) 0 (JobQueue s) = Some i"
    using t(1) firstFree_None [of "\<lambda>x. x = Some t" 0 "JobQueue s"] by fastforce
  note ii = firstFree_Some [OF i, simplified]
  let ?s1 = "s\<lparr>JobQueue := (JobQueue s)[i := None], activeThread := activeThread s - 1\<rparr>"
  obtain c k where k: "thStack (Threads s ! t) = Some c" "StackChain_Dealloc c (stk s) = Inr k"
    "s' = (if activeThread s - 1 = 0 then (updTh t (\<lambda>th. th\<lparr>thStack := None, thUsed := False\<rparr>) (?s1\<lparr>stk := k\<rparr>))\<lparr>EmptyPlain := True\<rparr>
           else updTh t (\<lambda>th. th\<lparr>thStack := None, thUsed := False\<rparr>) (?s1\<lparr>stk := k\<rparr>))"
    using r i True by (auto simp: Thread_Free_def Let_def split: option.splits)
  have d: "distinct (filter (\<lambda>x. x \<noteq> None) (JobQueue s))" using q by (simp add: queue_ok_def)
  have qi: "i < length (JobQueue s)" "JobQueue s ! i = Some t" using ii by simp_all
  note p = distinct_drop [OF d qi]
  have st: "{u. Some u \<in> set ((JobQueue s)[i := None])} = {u. Some u \<in> set (JobQueue s)} - {t}"
  proof -
    have "Some u \<in> set ((JobQueue s)[i := None]) - {None} \<longleftrightarrow> Some u \<in> set (JobQueue s) - {None, Some t}" for u
      unfolding p(2) by simp
    then show ?thesis by auto
  qed
  have "queue_ok s'" using p(1) ii q by (simp add: k(3) queue_ok_def)
  moreover have "viewOf s' pc = (viewOf s pc)\<lparr>vq := vq (viewOf s pc) - {t}, vused := (vused (viewOf s pc))(t := False),
            vact := activeThread s - 1, vempty := (EmptyPlain s \<or> activeThread s = 1)\<rparr>" for pc
    using st t(2) by (intro view_eqI) (simp_all add: k(3) updTh_def nth_list_update fun_eq_iff)
  moreover have "length (Threads s') = length (Threads s)" "length (Procs s') = length (Procs s)" by (simp_all add: k(3))
  ultimately show ?thesis using True by simp
qed

lemma fetchLoop_Some: "fetchLoop ths q = Some t \<Longrightarrow> Some t \<in> set q \<and> thStatus (ths ! t) = 0"
  by (induction q) (auto split: option.splits if_splits)

lemma fetchLoop_None: "fetchLoop ths q = None \<Longrightarrow> Some t \<in> set q \<Longrightarrow> thStatus (ths ! t) \<noteq> 0"
  by (induction q) (auto split: option.splits if_splits)

lemma Thread_Create_effect:
  assumes r: "Thread_Create mm mprot c par thnk s = Inr s'" and c: "c < length (Threads s)"
  shows "viewOf s' pc = (viewOf s pc)\<lparr>vused := (vused (viewOf s pc))(c := True), vst := (vst (viewOf s pc))(c := 0),
      vpar := (vpar (viewOf s pc))(c := par)\<rparr>"
    "JobQueue s' = JobQueue s" "length (Threads s') = length (Threads s)" "length (Procs s') = length (Procs s)"
proof -
  let ?f = "\<lambda>th. setReg ALLOCLIMIT 0 (setReg THREADPTR (word_of_nat c)
                (th\<lparr>rootVals := replicate 10 0, rootLocs := replicate 10 0, thUsed := True, thStatus := 0,
                    tid := totalThread s, thParent := par, request := StartRequest, thGlobalOffset := 0,
                    thArrayOffset := 0, thStackletOffset := 0, thunk := thnk\<rparr>))"
  let ?s1 = "updTh c ?f (s\<lparr>totalThread := totalThread s + 1\<rparr>)"
  have v1: "viewOf ?s1 pc = (viewOf s pc)\<lparr>vused := (vused (viewOf s pc))(c := True), vst := (vst (viewOf s pc))(c := 0),
      vpar := (vpar (viewOf s pc))(c := par)\<rparr>"
    using c by (intro view_eqI) (simp_all add: updTh_def nth_list_update fun_eq_iff)
  have "undisturbed ?s1 s'"
    using r unfolding Thread_Create_def Let_def
    by (auto split: option.splits intro!: undisturbed_intros(3) undisturbed_stk)
  then show "viewOf s' pc = (viewOf s pc)\<lparr>vused := (vused (viewOf s pc))(c := True), vst := (vst (viewOf s pc))(c := 0),
      vpar := (vpar (viewOf s pc))(c := par)\<rparr>"
    "JobQueue s' = JobQueue s" "length (Threads s') = length (Threads s)" "length (Procs s') = length (Procs s)"
    using v1 by (simp_all add: undisturbed_def)
qed

lemma Thread_Create_noSched:
  assumes "\<not> thUsed (Threads s ! c)" and "thStatus (Threads s ! c) = - 1" and "\<not> thPinned (Threads s ! c)"
  shows "noSched (Thread_Create mm mprot c par thnk s)"
  unfolding Thread_Create_def Let_def using assms by (intro noSched_rules noSched_alloc) auto


subsection \<open>Every step keeps the invariant\<close>

definition sys_ok :: "nat \<Rightarrow> sched \<times> (nat \<Rightarrow> spc) \<Rightarrow> bool" where
  "sys_ok N c \<longleftrightarrow> (case c of (s, pc) \<Rightarrow>
     vinv N (length (Threads s)) (viewOf s pc) \<and> queue_ok s \<and> length (Procs s) = N)"

lemma sys_okD:
  assumes "sys_ok N (s, pc)"
  shows "vinv N (length (Threads s)) (viewOf s pc)" "queue_ok s" "length (Procs s) = N"
  using assms by (simp_all add: sys_ok_def)

lemma holder:
  assumes ok: "sys_ok N (s, pc)" and p: "p < N" and h: "pcThread (pc p) = Some t"
  shows holder_queued: "Some t \<in> set (JobQueue s)" "t < length (Threads s)" "p < length (Procs s)"
    and holder_only: "\<And>q. q < N \<Longrightarrow> pcThread (pc q) = Some t \<Longrightarrow> q = p"
    and holder_map: "userThread (Procs s ! p) \<in> {None, Some t}"
      "thProc (Threads s ! t) = (if userThread (Procs s ! p) = Some t then Some p else None)"
    and holder_status: "pc p \<noteq> SDel5 t \<Longrightarrow> thStatus (Threads s ! t) = pcWeight (pc p) + int (kids N (viewOf s pc) t)"
proof -
  note i = sys_okD(1) [OF ok]
  show "Some t \<in> set (JobQueue s)" using v_held [OF i p, of t] h by simp
  then show tl: "t < length (Threads s)" using vq_used [OF i, of t] by simp
  show "p < length (Procs s)" using p sys_okD(3) [OF ok] by simp
  show only: "q = p" if "q < N" "pcThread (pc q) = Some t" for q using v_once [OF i that(1) p, of t] that h by simp
  have m: "pcThread (pc q) = Some u" if "q < N" "userThread (Procs s ! q) = Some u" for q u
    using v_mapped [OF i that(1)] that(2) by (cases "pc q") auto
  show u: "userThread (Procs s ! p) \<in> {None, Some t}" using m [OF p] h by (cases "userThread (Procs s ! p)") auto
  show "thProc (Threads s ! t) = (if userThread (Procs s ! p) = Some t then Some p else None)"
  proof (cases "thProc (Threads s ! t)")
    case None
    then show ?thesis using v_user [OF i p, of t] by auto
  next
    case (Some q)
    then have "q < N" using v_proc [OF i tl] by simp
    then have "userThread (Procs s ! q) = Some t" using v_user [OF i, of q t] Some tl by simp
    then show ?thesis using only [OF \<open>q < N\<close>] m [OF \<open>q < N\<close>] Some by auto
  qed
  show "pc p \<noteq> SDel5 t \<Longrightarrow> thStatus (Threads s ! t) = pcWeight (pc p) + int (kids N (viewOf s pc) t)"
    using v_status [OF i p, of t] h by simp
qed

lemma hold_change:
  assumes ok: "sys_ok N (s, pc)" and p: "p < N" and h: "pcThread (pc p) = Some t"
    and c: "pc p \<notin> {SDel4 t, SDel5 t}" "\<And>u w. pc p \<noteq> SSpawn u w" "pcThread c \<in> {None, Some t}" "c \<notin> {SDel4 t, SDel5 t}" "\<And>u w. c \<noteq> SSpawn u w"
    and s': "viewOf s' (pc(p := c)) = (viewOf s pc)\<lparr>vst := (vst (viewOf s pc))(t := thStatus (Threads s ! t) + heldWeight c t - pcWeight (pc p)),
       vpc := pc(p := c), vproc := (vproc (viewOf s pc))(t := x), vuser := (vuser (viewOf s pc))(p := y)\<rparr>"
    "JobQueue s' = JobQueue s" "length (Threads s') = length (Threads s)" "length (Procs s') = length (Procs s)"
    and m: "x = Some p \<and> y = Some t \<or> x = None \<and> y = None" "pcMapped c y"
  shows "sys_ok N (s', pc(p := c))"
proof -
  note i = sys_okD(1) [OF ok]
  note H = holder [OF ok p h]
  have w: "1 \<le> pcWeight (pc p)" by (cases "pc p") auto
  have "thStatus (Threads s ! t) \<noteq> - 1" using H(7) c(1) w by auto
  with H c h m have "vinv N (length (Threads s)) ((viewOf s pc)\<lparr>vst := (vst (viewOf s pc))(t := thStatus (Threads s ! t) + heldWeight c t - pcWeight (pc p)),
       vpc := (vpc (viewOf s pc))(p := c), vproc := (vproc (viewOf s pc))(t := x), vuser := (vuser (viewOf s pc))(p := y)\<rparr>)"
    by (intro vinv_pc [OF i p, where t = t]) (auto simp: heldWeight_def)
  then show ?thesis using s' sys_okD [OF ok] by (simp add: sys_ok_def queue_ok_def)
qed

lemma hold_keep:
  assumes ok: "sys_ok N (s, pc)" and p: "p < N" and h: "pcThread (pc p) = Some t"
    and c: "pc p \<notin> {SDel4 t, SDel5 t}" "\<And>u w. pc p \<noteq> SSpawn u w" "pcThread c \<in> {None, Some t}" "c \<notin> {SDel4 t, SDel5 t}" "\<And>u w. c \<noteq> SSpawn u w"
    and s': "\<And>pc. viewOf s' pc = (viewOf s pc)\<lparr>vst := (vst (viewOf s pc))(t := n)\<rparr>"
    "JobQueue s' = JobQueue s" "length (Threads s') = length (Threads s)" "length (Procs s') = length (Procs s)"
    and n: "n = thStatus (Threads s ! t) + heldWeight c t - pcWeight (pc p)"
    and m: "pcMapped c (userThread (Procs s ! p))"
  shows "sys_ok N (s', pc(p := c))"
proof -
  note H = holder [OF ok p h]
  have v: "viewOf s' (pc(p := c)) = (viewOf s pc)\<lparr>vst := (vst (viewOf s pc))(t := thStatus (Threads s ! t) + heldWeight c t - pcWeight (pc p)),
       vpc := pc(p := c), vproc := (vproc (viewOf s pc))(t := thProc (Threads s ! t)),
       vuser := (vuser (viewOf s pc))(p := userThread (Procs s ! p))\<rparr>"
    unfolding s' n by (intro view_eqI) (simp_all add: fun_eq_iff)
  show ?thesis by (rule hold_change [OF ok p h c v s'(2-4) _ m]) (use H(5,6) in auto)
qed

lemma hold_map:
  assumes ok: "sys_ok N (s, pc)" and p: "p < N" and h: "pcThread (pc p) = Some t"
    and c: "pc p \<notin> {SDel4 t, SDel5 t}" "\<And>u w. pc p \<noteq> SSpawn u w" "pcThread c = Some t" "c \<notin> {SDel4 t, SDel5 t}" "\<And>u w. c \<noteq> SSpawn u w"
      "pcWeight c = pcWeight (pc p)"
    and s': "changes_to s s' f" "f = vmapped p t \<and> pcMapped c (Some t) \<or> f = vunmapped p t \<and> pcMapped c None"
  shows "sys_ok N (s', pc(p := c))"
proof -
  have eq: "viewOf s' (pc(p := c)) = f (viewOf s (pc(p := c)))" "JobQueue s' = JobQueue s" "length (Threads s') = length (Threads s)"
    "length (Procs s') = length (Procs s)" using s'(1) by (simp_all add: changes_to_def)
  have w: "heldWeight c t = pcWeight (pc p)" using c(3,6) by (simp add: heldWeight_def)
  from s'(2) show ?thesis
  proof (elim disjE conjE)
    assume f: "f = vmapped p t" "pcMapped c (Some t)"
    have "viewOf s' (pc(p := c)) = (viewOf s pc)\<lparr>vst := (vst (viewOf s pc))(t := thStatus (Threads s ! t) + heldWeight c t - pcWeight (pc p)),
       vpc := pc(p := c), vproc := (vproc (viewOf s pc))(t := Some p), vuser := (vuser (viewOf s pc))(p := Some t)\<rparr>"
      unfolding eq f w vmapped_def by (intro view_eqI) (simp_all add: fun_eq_iff)
    then show ?thesis using c f by (intro hold_change [OF ok p h _ _ _ _ _ _ eq(2-4)]) auto
  next
    assume f: "f = vunmapped p t" "pcMapped c None"
    have "viewOf s' (pc(p := c)) = (viewOf s pc)\<lparr>vst := (vst (viewOf s pc))(t := thStatus (Threads s ! t) + heldWeight c t - pcWeight (pc p)),
       vpc := pc(p := c), vproc := (vproc (viewOf s pc))(t := None), vuser := (vuser (viewOf s pc))(p := None)\<rparr>"
      unfolding eq f w vunmapped_def by (intro view_eqI) (simp_all add: fun_eq_iff)
    then show ?thesis using c f by (intro hold_change [OF ok p h _ _ _ _ _ _ eq(2-4)]) auto
  qed
qed

lemma sys_ok_undisturbed: "sys_ok N (s, pc) \<Longrightarrow> undisturbed s s' \<Longrightarrow> sys_ok N (s', pc)"
  by (simp add: sys_ok_def undisturbed_def queue_ok_def)


lemma view_pc: "viewOf s (pc(p := c)) = (viewOf s pc)\<lparr>vpc := pc(p := c)\<rparr>"
  by (rule view_eqI) (simp_all add: fun_eq_iff)

lemma sys_ok_none:
  "sys_ok N (s, pc) \<Longrightarrow> p < N \<Longrightarrow> pcThread (pc p) = None \<Longrightarrow> pcThread c = None \<Longrightarrow> sys_ok N (s, pc(p := c))"
  using vinv_none [of N "length (Threads s)" "viewOf s pc" p c] by (simp add: sys_ok_def view_pc)

lemma fetch_ok:
  assumes ok: "sys_ok N (s, pc)" and p: "p < N" and pc: "pc p = SIdle" and w: "work_take p s = (r, s')"
  shows "sys_ok N (s', pc(p := SCheck r))"
proof -
  note i = sys_okD(1) [OF ok]
  have u: "userThread (Procs s ! p) = None" using v_mapped [OF i p] pc by simp
  show ?thesis
  proof (cases "fetchLoop (Threads s) (rev (JobQueue s))")
    case None
    then show ?thesis using w u sys_ok_none [OF ok p] pc by (simp add: work_take_def FetchJob_def)
  next
    case (Some t)
    then have rs: "r = Some t" "s' = addStatus t 1 s" using w u by (simp_all add: work_take_def FetchJob_def)
    have t: "Some t \<in> set (JobQueue s)" "thStatus (Threads s ! t) = 0" using fetchLoop_Some [OF Some] by simp_all
    then have tl: "t < length (Threads s)" using vq_used [OF i, of t] by simp
    have free: "pcThread (pc q) \<noteq> Some t" if "q < N" for q
    proof
      assume h: "pcThread (pc q) = Some t"
      then have "pc q \<noteq> SDel5 t" using v_del5 [OF i that, of t] t(2) by auto
      moreover have "1 \<le> pcWeight (pc q)" by (cases "pc q") auto
      ultimately show False using holder(7) [OF ok that h] t(2) by simp
    qed
    have pr: "thProc (Threads s ! t) = None"
    proof (rule ccontr)
      assume "thProc (Threads s ! t) \<noteq> None"
      then obtain q where q: "thProc (Threads s ! t) = Some q" by blast
      then have "q < N" "userThread (Procs s ! q) = Some t" using v_proc [OF i tl, of q] v_user [OF i, of q t] tl by simp_all
      then have "pcThread (pc q) = Some t" using v_mapped [OF i \<open>q < N\<close>] by (cases "pc q") auto
      then show False using free [OF \<open>q < N\<close>] by simp
    qed
    have "vinv N (length (Threads s)) ((viewOf s pc)\<lparr>vst := (vst (viewOf s pc))(t := 1),
       vpc := (vpc (viewOf s pc))(p := SCheck (Some t)), vproc := (vproc (viewOf s pc))(t := None), vuser := (vuser (viewOf s pc))(p := None)\<rparr>)"
      using t free pc u pr by (intro vinv_pc [OF i p, where t = t]) (auto simp: heldWeight_def)
    moreover have "viewOf s' (pc(p := SCheck r)) = (viewOf s pc)\<lparr>vst := (vst (viewOf s pc))(t := 1),
       vpc := (vpc (viewOf s pc))(p := SCheck (Some t)), vproc := (vproc (viewOf s pc))(t := None), vuser := (vuser (viewOf s pc))(p := None)\<rparr>"
      using tl t u pr by (intro view_eqI) (simp_all add: rs addStatus_def Threads_updTh fun_eq_iff)
    ultimately show ?thesis using sys_okD [OF ok] by (simp add: sys_ok_def queue_ok_def rs)
  qed
qed

lemma spawn_ok:
  assumes ok: "sys_ok N (s, pc)" and p: "p < N" and pc: "pc p = SRun t" and c: "c < length (Threads s)" "\<not> thUsed (Threads s ! c)"
    and r: "Thread_Create mm mprot c (Some t) thnk s = Inr s'"
  shows "sys_ok N (s', pc(p := SSpawn t c))"
proof -
  note i = sys_okD(1) [OF ok]
  note e = Thread_Create_effect [OF r c(1)]
  have "viewOf s' (pc(p := SSpawn t c)) = (viewOf s pc)\<lparr>vused := (vused (viewOf s pc))(c := True), vst := (vst (viewOf s pc))(c := 0),
      vpar := (vpar (viewOf s pc))(c := Some t), vpc := (vpc (viewOf s pc))(p := SSpawn t c)\<rparr>"
    unfolding e(1) by (intro view_eqI) (simp_all add: fun_eq_iff)
  then show ?thesis using vinv_create [OF i p, of t c] pc c e(2-4) sys_okD [OF ok] by (simp add: sys_ok_def queue_ok_def)
qed

lemma spawned_ok:
  assumes ok: "sys_ok N (s, pc)" and p: "p < N" and pc: "pc p = SSpawn t c"
  shows "\<exists>s'. AddJob c s = Inr s' \<and> sys_ok N (s', pc(p := SRun t))"
proof -
  note i = sys_okD(1) [OF ok]
  have c: "c < length (Threads s)" "Some c \<notin> set (JobQueue s)" "thParent (Threads s ! c) = Some t"
    using v_spawn [OF i p, of t c] pc by simp_all
  have t: "Some t \<in> set (JobQueue s)" "t < length (Threads s)" using holder(1,2) [OF ok p, of t] pc by simp_all
  then have tc: "t \<noteq> c" using c by auto
  have q: "Some u \<in> set (JobQueue s) \<Longrightarrow> u < length (Threads s)" for u using vq_used [OF i, of u] by simp
  from AddJob_effect [OF sys_okD(2) [OF ok] q c(1,2)] c(3) t(2) tc obtain s' where s': "AddJob c s = Inr s'" "queue_ok s'"
    "length (Threads s') = length (Threads s)" "length (Procs s') = length (Procs s)" and
    v: "\<And>pc. viewOf s' pc = (viewOf s pc)\<lparr>vq := insert c (vq (viewOf s pc)), vst := ((vst (viewOf s pc))(c := 0))(t := thStatus (Threads s ! t) + 1),
          vact := activeThread s + 1\<rparr>" by auto
  have "viewOf s' (pc(p := SRun t)) = (viewOf s pc)\<lparr>vq := insert c (vq (viewOf s pc)), vst := ((vst (viewOf s pc))(c := 0))(t := vst (viewOf s pc) t + 1),
      vact := vact (viewOf s pc) + 1, vpc := (vpc (viewOf s pc))(p := SRun t)\<rparr>"
    unfolding v by (intro view_eqI) (simp_all add: fun_eq_iff)
  then show ?thesis using vinv_add [OF i p, of t c] pc s' sys_okD(3) [OF ok] by (simp add: sys_ok_def)
qed

lemma parent_ok:
  assumes ok: "sys_ok N (s, pc)" and p: "p < N" and pc: "pc p = SDel3 t"
  shows "\<exists>s'. DeleteJob_parent t s = Inr s' \<and> sys_ok N (s', pc(p := SDel4 t))"
proof -
  note i = sys_okD(1) [OF ok]
  note vp = vinv_parent [OF i p, of t, simplified, OF pc]
  show ?thesis
  proof (cases "thParent (Threads s ! t)")
    case None
    have "viewOf s (pc(p := SDel4 t)) = (viewOf s pc)\<lparr>vst := (\<lambda>u. if vpar (viewOf s pc) t = Some u then vst (viewOf s pc) u - 1 else vst (viewOf s pc) u),
        vpc := (vpc (viewOf s pc))(p := SDel4 t)\<rparr>"
      using None by (intro view_eqI) (simp_all add: fun_eq_iff)
    then show ?thesis using vp(1) None sys_okD [OF ok] by (simp add: sys_ok_def DeleteJob_parent_def)
  next
    case (Some u)
    have ge: "1 \<le> thStatus (Threads s ! u)" using vp(2) Some by simp
    have ul: "u < length (Threads s)"
    proof -
      have st: "thStatus (Threads s ! t) = 1 + int (kids N (viewOf s pc) t)" using holder(7) [OF ok p, of t] pc by simp
      have "counted N (viewOf s pc) t"
        using holder(1,4) [OF ok p, of t] pc st by (fastforce simp: counted_def)
      then have "u \<in> vq (viewOf s pc)" using v_kid [OF i, of t u] Some by simp
      then show ?thesis using vq_used [OF i] by blast
    qed
    have "viewOf (addStatus u (- 1) s) (pc(p := SDel4 t)) = (viewOf s pc)\<lparr>vst := (\<lambda>w. if vpar (viewOf s pc) t = Some w then vst (viewOf s pc) w - 1 else vst (viewOf s pc) w),
        vpc := (vpc (viewOf s pc))(p := SDel4 t)\<rparr>"
      using Some ul by (intro view_eqI) (auto simp add: addStatus_def Threads_updTh fun_eq_iff)
    then show ?thesis using vp(1) Some ge ul sys_okD [OF ok]
      by (simp add: sys_ok_def queue_ok_def DeleteJob_parent_def Let_def addStatus_def Threads_updTh)
  qed
qed


lemma mark_ok:
  assumes ok: "sys_ok N (s, pc)" and p: "p < N" and pc: "pc p = SDel4 t" and r: "DeleteJob_mark t s = Inr s'"
  shows "sys_ok N (s', pc(p := SDel5 t))"
proof -
  note i = sys_okD(1) [OF ok]
  have t: "t < length (Threads s)" using holder(2) [OF ok p, of t] pc by simp
  have s': "thStatus (Threads s ! t) = 1" "s' = updTh t (\<lambda>th. th\<lparr>thStatus := - 1\<rparr>) s" using r by (auto simp: DeleteJob_mark_def)
  have "viewOf s' (pc(p := SDel5 t)) = (viewOf s pc)\<lparr>vst := (vst (viewOf s pc))(t := - 1), vpc := (vpc (viewOf s pc))(p := SDel5 t)\<rparr>"
    using t by (intro view_eqI) (simp_all add: s' Threads_updTh fun_eq_iff)
  then show ?thesis using vinv_mark [OF i p, of t] pc s' sys_okD [OF ok] by (simp add: sys_ok_def queue_ok_def)
qed

lemma active_pos: "sys_ok N (s, pc) \<Longrightarrow> Some t \<in> set (JobQueue s) \<Longrightarrow> 0 < activeThread s"
proof -
  assume ok: "sys_ok N (s, pc)" and t: "Some t \<in> set (JobQueue s)"
  note i = sys_okD(1) [OF ok]
  have "0 < card (vq (viewOf s pc))" using t finite_vq [OF i] by (simp add: card_gt_0_iff) blast
  then show ?thesis using v_act [OF i] by simp
qed

lemma removed_ok:
  assumes ok: "sys_ok N (s, pc)" and t: "Some t \<in> set (JobQueue s)" "thStatus (Threads s ! t) = - 1"
    and pc': "\<And>q. q < N \<Longrightarrow> pc' q = (if pcThread (pc q) = Some t then SIdle else pc q)"
    and v: "viewOf s' pc' = (viewOf s pc')\<lparr>vq := vq (viewOf s pc') - {t}, vused := (vused (viewOf s pc'))(t := False),
      vpin := (vpin (viewOf s pc'))(t := False), vact := activeThread s - 1, vempty := (EmptyPlain s \<or> activeThread s = 1)\<rparr>"
    and q: "queue_ok s'" "length (Threads s') = length (Threads s)" "length (Procs s') = length (Procs s)"
  shows "sys_ok N (s', pc')"
proof -
  note i = sys_okD(1) [OF ok]
  have "(EmptyPlain s \<or> activeThread s = 1) \<longleftrightarrow> vq (viewOf s pc) - {t} = {}"
  proof -
    have "\<not> EmptyPlain s" using v_empty [OF i] t(1) by auto
    moreover have "card (vq (viewOf s pc) - {t}) = card (vq (viewOf s pc)) - 1" using t(1) finite_vq [OF i] by simp
    moreover have "0 < card (vq (viewOf s pc))" using t(1) finite_vq [OF i] by (simp add: card_gt_0_iff) blast
    moreover have "finite (vq (viewOf s pc) - {t})" using finite_vq [OF i] by simp
    ultimately show ?thesis using v_act [OF i] card_eq_0_iff [of "vq (viewOf s pc) - {t}"] by auto
  qed
  then have "viewOf s' pc' = (viewOf s pc)\<lparr>vq := vq (viewOf s pc) - {t}, vused := (vused (viewOf s pc))(t := False),
      vpin := (vpin (viewOf s pc))(t := False), vact := vact (viewOf s pc) - 1,
      vempty := (vq (viewOf s pc) - {t} = {}), vpc := pc'\<rparr>"
    unfolding v by (intro view_eqI) (simp_all add: fun_eq_iff)
  then show ?thesis using vinv_remove [OF i, of t pc'] t pc' q sys_okD(3) [OF ok] by (simp add: sys_ok_def)
qed

lemma free_ok:
  assumes ok: "sys_ok N (s, pc)" and p: "p < N" and pc: "pc p = SDel5 t" and r: "Thread_Free t s = Inr s'"
  shows "sys_ok N (s', pc(p := SIdle))"
proof -
  note i = sys_okD(1) [OF ok]
  have t: "Some t \<in> set (JobQueue s)" "t < length (Threads s)" using holder(1,2) [OF ok p, of t] pc by simp_all
  have st: "thStatus (Threads s ! t) = - 1" using v_del5 [OF i p, of t] pc by simp
  note e = Thread_Free_effect [OF r sys_okD(2) [OF ok] t active_pos [OF ok t(1)]]
  show ?thesis
  proof (cases "thPinned (Threads s ! t)")
    case True
    then have "s' = s" using e by simp
    then show ?thesis using vinv_undel [OF i p, of t] pc True sys_okD [OF ok] by (simp add: sys_ok_def view_pc)
  next
    case False
    show ?thesis
    proof (rule removed_ok [OF ok t(1) st])
      show "(pc(p := SIdle)) q = (if pcThread (pc q) = Some t then SIdle else pc q)" if "q < N" for q
        using holder(4) [OF ok p, of t q] pc that by (cases "q = p") auto
      show "viewOf s' (pc(p := SIdle)) = (viewOf s (pc(p := SIdle)))\<lparr>vq := vq (viewOf s (pc(p := SIdle))) - {t},
        vused := (vused (viewOf s (pc(p := SIdle))))(t := False), vpin := (vpin (viewOf s (pc(p := SIdle))))(t := False),
        vact := activeThread s - 1, vempty := (EmptyPlain s \<or> activeThread s = 1)\<rparr>"
        using e st False by (intro view_eqI) (simp_all add: fun_eq_iff)
    qed (use e in simp_all)
  qed
qed

lemma stopped_status:
  assumes ok: "sys_ok N (s, pc)" and st: "\<forall>q<N. stoppedPc (pc q)" and t: "Some t \<in> set (JobQueue s)"
  shows "thStatus (Threads s ! t) = - 1 \<or> 0 \<le> thStatus (Threads s ! t)"
  using v_status_ge [OF sys_okD(1) [OF ok], of t] t by (cases "thStatus (Threads s ! t) = - 1") auto

lemma pin_ok:
  assumes ok: "sys_ok N (s, pc)" and t: "Some t \<in> set (JobQueue s)" and r: "Thread_Pin t s = Inr s'"
  shows "sys_ok N (s', pc)"
proof -
  note i = sys_okD(1) [OF ok]
  have tl: "t < length (Threads s)" using vq_used [OF i, of t] t by simp
  have s': "s' = updTh t (\<lambda>th. th\<lparr>thPinned := True\<rparr>) s" using r by (auto simp: Thread_Pin_def)
  have "viewOf s' pc = (viewOf s pc)\<lparr>vpin := (vpin (viewOf s pc))(t := True)\<rparr>"
    using tl by (intro view_eqI) (simp_all add: s' Threads_updTh fun_eq_iff)
  then show ?thesis using vinv_pinned [OF i, of t True] t sys_okD [OF ok] by (simp add: sys_ok_def queue_ok_def s')
qed

lemma unpin_ok:
  assumes ok: "sys_ok N (s, pc)" and t: "Some t \<in> set (JobQueue s)" and st: "\<forall>q<N. stoppedPc (pc q)"
    and r: "Thread_Unpin t s = Inr s'"
  shows "sys_ok N (s', pc)"
proof -
  note i = sys_okD(1) [OF ok]
  let ?s1 = "updTh t (\<lambda>th. th\<lparr>thPinned := False\<rparr>) s"
  have tl: "t < length (Threads s)" using vq_used [OF i, of t] t by simp
  have f: "Thread_Free t ?s1 = Inr s'" using r by (simp add: Thread_Unpin_def)
  have q1: "queue_ok ?s1" "Some t \<in> set (JobQueue ?s1)" "t < length (Threads ?s1)" "0 < activeThread ?s1"
    using sys_okD(2) [OF ok] t tl active_pos [OF ok t] by (simp_all add: queue_ok_def)
  note e = Thread_Free_effect [OF f q1]
  have v1: "viewOf ?s1 pc = (viewOf s pc)\<lparr>vpin := (vpin (viewOf s pc))(t := False)\<rparr>"
    using tl by (intro view_eqI) (simp_all add: Threads_updTh fun_eq_iff)
  show ?thesis
  proof (cases "thStatus (Threads s ! t) = - 1")
    case True
    show ?thesis
    proof (rule removed_ok [OF ok t True])
      show "pc q = (if pcThread (pc q) = Some t then SIdle else pc q)" if "q < N" for q
      proof -
        have "pcThread (pc q) \<noteq> Some t"
        proof
          assume h: "pcThread (pc q) = Some t"
          have "pc q \<noteq> SDel5 t" using st that by auto
          moreover have "1 \<le> pcWeight (pc q)" by (cases "pc q") auto
          ultimately show False using holder(7) [OF ok that h] True by simp
        qed
        then show ?thesis by simp
      qed
      show "viewOf s' pc = (viewOf s pc)\<lparr>vq := vq (viewOf s pc) - {t}, vused := (vused (viewOf s pc))(t := False),
        vpin := (vpin (viewOf s pc))(t := False), vact := activeThread s - 1, vempty := (EmptyPlain s \<or> activeThread s = 1)\<rparr>"
        using e True tl v1 by (intro view_eqI) (simp_all add: Threads_updTh fun_eq_iff)
    qed (use e in simp_all)
  next
    case False
    then have "s' = ?s1" using e stopped_status [OF ok st t] tl by (simp add: Threads_updTh)
    then show ?thesis using v1 vinv_pinned [OF i, of t False] t False sys_okD [OF ok] by (simp add: sys_ok_def queue_ok_def)
  qed
qed


lemma setSpc_Inr [simp]:
  "setSpc p c pc r = Inr x \<longleftrightarrow> (\<exists>s. r = Inr s \<and> x = (s, pc(p := c)))"
  "Inr x = setSpc p c pc r \<longleftrightarrow> (\<exists>s. r = Inr s \<and> x = (s, pc(p := c)))"
  by (cases r; auto simp: setSpc_def)+

lemma setSpc_Inl [simp]: "setSpc p c pc r = Inl e \<longleftrightarrow> r = Inl e" "Inl e = setSpc p c pc r \<longleftrightarrow> r = Inl e"
  by (cases r; auto simp: setSpc_def)+

lemma bindE_eq_Inr' [simp]: "Inr y = bindE m f \<longleftrightarrow> (\<exists>x. m = Inr x \<and> f x = Inr y)"
  by (cases m) auto

lemma sstep_ok:
  assumes gc: "gc_keeps gcFun" and ok: "sys_ok N (s, pc)" and st: "sstep gcFun cfg mm mprot N (s, pc) (Inr c')"
  shows "sys_ok N c'"
  using st
proof cases
  case (fetch p r s')
  then show ?thesis using fetch_ok [OF ok] by simp
next
  case (check p r)
  note i = sys_okD(1) [OF ok]
  show ?thesis
  proof (cases r)
    case None
    then show ?thesis using check sys_ok_none [OF ok] by simp
  next
    case (Some t)
    then have h: "pcThread (pc p) = Some t" using check by simp
    have "\<not> EmptyPlain s" using holder(1) [OF ok check(2) h] v_empty [OF i] by auto
    moreover have "sys_ok N (s, pc(p := SWork t))"
    proof (rule hold_keep [OF ok check(2) h])
      show "pcMapped (SWork t) (userThread (Procs s ! p))" using holder(5) [OF ok check(2) h] by auto
      show "viewOf s pc = (viewOf s pc)\<lparr>vst := (vst (viewOf s pc))(t := thStatus (Threads s ! t))\<rparr>" for pc
        by (intro view_eqI) (simp_all add: fun_eq_iff)
    qed (use check Some in \<open>simp_all add: heldWeight_def\<close>)
    ultimately show ?thesis using check Some by simp
  qed
next
  case (dispatch p t)
  then obtain r s' where s': "work_dispatch gcFun cfg p t s = Inr (r, s')" "c' = (s', pc(p := SRun t))" by auto
  have h: "pcThread (pc p) = Some t" using dispatch by simp
  show ?thesis unfolding s'(2)
    using dispatch by (intro hold_map [OF ok dispatch(2) h _ _ _ _ _ _
      work_dispatch_changes [OF gc s'(1) holder(2) [OF ok dispatch(2) h] holder(3) [OF ok dispatch(2) h]]]) simp_all
next
  case (mutate p t k ri rq wl regs)
  have "undisturbed s ((updTh t (\<lambda>th. th\<lparr>saveregs := regs, writelistAlloc := wl, request := rq, requestInfo := ri\<rparr>) s)\<lparr>stk := k\<rparr>)"
    by (intro undisturbed_intros undisturbed_refl) simp
  then show ?thesis using sys_ok_undisturbed [OF ok] mutate by simp
next
  case (yield p t)
  then obtain s' where s': "YieldRest_start p t s = Inr s'" "c' = (s', pc(p := SYield t))" by auto
  have h: "pcThread (pc p) = Some t" using yield by simp
  let ?s1 = "updTh t (\<lambda>th. setReg RESULT 256 (th\<lparr>request := YieldRequest\<rparr>)) s"
  have u: "undisturbed s ?s1" by (rule undisturbed_updTh) simp
  have ch: "changes_to s s' (vunmapped p t)"
    using s'(1) holder(2,3) [OF ok yield(2) h] unfolding YieldRest_start_def
    by (intro changes_before [OF u unmap_changes]) simp_all
  show ?thesis unfolding s'(2) using yield by (intro hold_map [OF ok yield(2) h _ _ _ _ _ _ ch]) simp_all
next
  case (yielded p t)
  have h: "pcThread (pc p) = Some t" using yielded by simp
  have u: "userThread (Procs s ! p) = None" using v_mapped [OF sys_okD(1) [OF ok] yielded(2)] yielded(3) by simp
  have "sys_ok N (addStatus t (- 1) s, pc(p := SIdle))"
    by (rule hold_keep [OF ok yielded(2) h _ _ _ _ _ view_addStatus [OF holder(2) [OF ok yielded(2) h]]])
      (use yielded u in \<open>simp_all add: heldWeight_def\<close>)
  then show ?thesis using yielded by (auto simp: ReleaseJob_release_def)
next
  case (collect p t)
  then obtain s' where s': "GCFromMutator p t s = Inr s'" "c' = (s', pc(p := SWork t))" by auto
  have h: "pcThread (pc p) = Some t" using collect by simp
  have u: "undisturbed s s'" using GCFromMutator_undisturbed [OF s'(1)] .
  have "userThread (Procs s ! p) = Some t" "thProc (Threads s ! t) = Some p"
    using v_mapped [OF sys_okD(1) [OF ok] collect(2)] collect holder(6) [OF ok collect(2) h] by simp_all
  then have ch: "changes_to s s' (vmapped p t)"
    using u unfolding changes_to_def vmapped_def undisturbed_def by (auto intro!: view_eqI simp: fun_eq_iff)
  show ?thesis unfolding s'(2) using collect by (intro hold_map [OF ok collect(2) h _ _ _ _ _ _ ch]) simp_all
next
  case (spawn p t c thnk)
  then show ?thesis using spawn_ok [OF ok] by auto
next
  case (spawned p t c)
  then show ?thesis using spawned_ok [OF ok spawned(2,3)] by auto
next
  case (finish p t)
  have h: "pcThread (pc p) = Some t" using finish by simp
  have u: "userThread (Procs s ! p) = Some t" using v_mapped [OF sys_okD(1) [OF ok] finish(2)] finish(3) by simp
  have "sys_ok N (addStatus t 1 s, pc(p := SDel1 t))"
    by (rule hold_keep [OF ok finish(2) h _ _ _ _ _ view_addStatus [OF holder(2) [OF ok finish(2) h]]])
      (use finish u in \<open>simp_all add: heldWeight_def\<close>)
  then show ?thesis using finish by (auto simp: DeleteJob_start_def)
next
  case (delete1 p t)
  then obtain s' where s': "ReleaseJob_unmap p t s = Inr s'" "c' = (s', pc(p := SDel2 t))" by auto
  have h: "pcThread (pc p) = Some t" using delete1 by simp
  show ?thesis unfolding s'(2)
    using delete1 by (intro hold_map [OF ok delete1(2) h _ _ _ _ _ _ unmap_changes [OF s'(1) holder(2,3) [OF ok delete1(2) h]]]) simp_all
next
  case (delete2 p t)
  have h: "pcThread (pc p) = Some t" using delete2 by simp
  have u: "userThread (Procs s ! p) = None" using v_mapped [OF sys_okD(1) [OF ok] delete2(2)] delete2(3) by simp
  have "sys_ok N (addStatus t (- 1) s, pc(p := SDel3 t))"
    by (rule hold_keep [OF ok delete2(2) h _ _ _ _ _ view_addStatus [OF holder(2) [OF ok delete2(2) h]]])
      (use delete2 u in \<open>simp_all add: heldWeight_def\<close>)
  then show ?thesis using delete2 by (auto simp: ReleaseJob_release_def)
next
  case (delete3 p t)
  then show ?thesis using parent_ok [OF ok delete3(2,3)] by auto
next
  case (delete4 p t)
  then show ?thesis using mark_ok [OF ok delete4(2,3)] by auto
next
  case (delete5 p t)
  then show ?thesis using free_ok [OF ok delete5(2,3)] by auto
next
  case (stop p)
  then show ?thesis using sys_ok_undisturbed [OF ok StopAllThreads_undisturbed] by simp
next
  case (pin t)
  then show ?thesis using pin_ok [OF ok pin(3)] by auto
next
  case (unpin t)
  then show ?thesis using unpin_ok [OF ok unpin(3,2)] by auto
qed


lemma sstep_faults:
  assumes gc: "gc_keeps gcFun" and ok: "sys_ok N (s, pc)" and st: "sstep gcFun cfg mm mprot N (s, pc) (Inl e)" and f: "schedFault e"
  shows "\<exists>p<N. \<exists>t. (pc p = SWork t \<or> pc p = SDel4 t) \<and> 0 < kids N (viewOf s pc) t"
  using st
proof cases
  case (dispatch p t)
  have h: "pcThread (pc p) = Some t" using dispatch by simp
  have m: "mappable p t s" using holder(5,6) [OF ok dispatch(2) h] by (auto simp: mappable_def)
  have "thStatus (Threads s ! t) \<noteq> 1"
  proof
    assume "thStatus (Threads s ! t) = 1"
    then have "noSched (work_dispatch gcFun cfg p t s)" by (rule work_dispatch_noSched [OF gc m])
    then have "noSched (bindE (work_dispatch gcFun cfg p t s) (\<lambda>(_, s). Inr s))" by (intro noSched_bind) (simp_all split: prod.split)
    then show False using dispatch f by (auto simp: noSched_def)
  qed
  then have "0 < kids N (viewOf s pc) t" using holder(7) [OF ok dispatch(2) h] dispatch by auto
  then show ?thesis using dispatch by blast
next
  case (yield p t)
  have "noSched (YieldRest_start p t s)" unfolding YieldRest_start_def ReleaseJob_unmap_def
    by (intro noSched_bind UpdateJob_noSched) simp
  then show ?thesis using yield f by (auto simp: noSched_def)
next
  case (yielded p t)
  have h: "pcThread (pc p) = Some t" using yielded by simp
  have "1 \<le> thStatus (Threads s ! t)" using holder(7) [OF ok yielded(2) h] yielded by simp
  then show ?thesis using yielded by (simp add: ReleaseJob_release_def)
next
  case (collect p t)
  have "userThread (Procs s ! p) = Some t" using v_mapped [OF sys_okD(1) [OF ok] collect(2)] collect by simp
  then show ?thesis using GCFromMutator_noSched [of s p t] collect f by (auto simp: noSched_def)
next
  case (spawn p t c thnk)
  have h: "pcThread (pc p) = Some t" using spawn by simp
  have "userThread (Procs s ! p) = Some t" using v_mapped [OF sys_okD(1) [OF ok] spawn(2)] spawn(3) by simp
  then have "thProc (Threads s ! t) = Some p" using holder(6) [OF ok spawn(2) h] by simp
  moreover have "noSched (Thread_Create mm mprot c (Some t) thnk s)"
    using v_unused [OF sys_okD(1) [OF ok], of c] spawn(4,5) by (intro Thread_Create_noSched) simp_all
  ultimately show ?thesis using spawn f by (auto simp: noSched_def)
next
  case (spawned p t c)
  then show ?thesis using spawned_ok [OF ok spawned(2,3)] by auto
next
  case (finish p t)
  have h: "pcThread (pc p) = Some t" using finish by simp
  have "userThread (Procs s ! p) = Some t" using v_mapped [OF sys_okD(1) [OF ok] finish(2)] finish(3) by simp
  then have "thProc (Threads s ! t) = Some p" using holder(6) [OF ok finish(2) h] by simp
  then show ?thesis using finish by (simp add: DeleteJob_start_def)
next
  case (delete1 p t)
  have "noSched (ReleaseJob_unmap p t s)" unfolding ReleaseJob_unmap_def by (intro noSched_bind UpdateJob_noSched) simp
  then show ?thesis using delete1 f by (auto simp: noSched_def)
next
  case (delete2 p t)
  have h: "pcThread (pc p) = Some t" using delete2 by simp
  have "1 \<le> thStatus (Threads s ! t)" using holder(7) [OF ok delete2(2) h] delete2 by simp
  then show ?thesis using delete2 by (simp add: ReleaseJob_release_def)
next
  case (delete3 p t)
  then show ?thesis using parent_ok [OF ok delete3(2,3)] by auto
next
  case (delete4 p t)
  have h: "pcThread (pc p) = Some t" using delete4 by simp
  have "thStatus (Threads s ! t) = 1 + int (kids N (viewOf s pc) t)" using holder(7) [OF ok delete4(2) h] delete4 by simp
  then have "0 < kids N (viewOf s pc) t" using delete4
    by (cases "kids N (viewOf s pc) t = 0") (auto simp: DeleteJob_mark_def)
  then show ?thesis using delete4 by blast
next
  case (delete5 p t)
  have h: "pcThread (pc p) = Some t" using delete5 by simp
  have "thStatus (Threads s ! t) = - 1" using v_del5 [OF sys_okD(1) [OF ok] delete5(2), of t] delete5(3) by simp
  then have "noSched (Thread_Free t s)" using holder(1) [OF ok delete5(2) h] by (intro Thread_Free_noSched) simp_all
  then show ?thesis using delete5 f by (auto simp: noSched_def)
next
  case (pin t)
  then show ?thesis by (cases "thPinned (Threads s ! t)") (simp_all add: Thread_Pin_def)
next
  case (unpin t)
  have tl: "t < length (Threads s)" using vq_used [OF sys_okD(1) [OF ok], of t] unpin(3) by simp
  have "noSched (Thread_Unpin t s)"
    unfolding Thread_Unpin_def using unpin(3) tl by (intro Thread_Free_noSched) (simp_all add: Threads_updTh)
  then have "noSched (bindE (Thread_Unpin t s) (\<lambda>s. Inr (s, pc)))" by (intro noSched_bind) simp_all
  then show ?thesis using unpin f by (auto simp: noSched_def)
qed

lemma sys_ok_start:
  assumes N: "length prs = N" and g: "thread_go mm mprot thnk (thread_init ths prs k) = Inr s"
  shows "sys_ok N (s, \<lambda>_. SIdle)"
proof -
  let ?s0 = "thread_init ths prs k"
  have len: "length (Threads ?s0) = length ths" "length (JobQueue ?s0) = length ths" "length (Procs ?s0) = N"
    "activeThread ?s0 = 0" "\<not> EmptyPlain ?s0" "set (JobQueue ?s0) \<subseteq> {None}"
    using N by (auto simp: thread_init_def)
  have th: "thStatus (Threads ?s0 ! u) = - 1" "\<not> thUsed (Threads ?s0 ! u)" "\<not> thPinned (Threads ?s0 ! u)"
    "thProc (Threads ?s0 ! u) = None" if "u < length ths" for u
    using that by (simp_all add: thread_init_def fillThread_def)
  have pr: "userThread (Procs ?s0 ! p) = None" if "p < N" for p using that N by (simp add: thread_init_def)
  obtain t s1 where t: "firstFree (\<lambda>th. \<not> thUsed th) 0 (Threads ?s0) = Some t" "Thread_Create mm mprot t None thnk ?s0 = Inr s1"
    "AddJob t s1 = Inr s"
    using g by (auto simp: thread_go_def thread_create_def split: option.splits)
  have tl: "t < length ths" using firstFree_Some [OF t(1)] len(1) by simp
  note e = Thread_Create_effect [OF t(2), unfolded len, OF tl]
  have q1: "queue_ok s1" "Some u \<in> set (JobQueue s1) \<Longrightarrow> u < length (Threads s1)" "t < length (Threads s1)" "Some t \<notin> set (JobQueue s1)" for u
    using e(2,3) len tl by (auto simp: queue_ok_def thread_init_def)
  have par: "thParent (Threads s1 ! t) = None" using arg_cong [OF e(1), of "\<lambda>v. vpar v t"] by simp
  from AddJob_effect [OF q1] t(3) par have s: "queue_ok s" "length (Threads s) = length ths" "length (Procs s) = N" and
    v: "viewOf s (\<lambda>_. SIdle) = (viewOf s1 (\<lambda>_. SIdle))\<lparr>vq := insert t (vq (viewOf s1 (\<lambda>_. SIdle))),
      vst := (vst (viewOf s1 (\<lambda>_. SIdle)))(t := 0), vact := activeThread s1 + 1\<rparr>"
    using e(3,4) len by auto
  have a1: "activeThread s1 = 0" "EmptyPlain s1 = False" using arg_cong [OF e(1), of vact] arg_cong [OF e(1), of vempty] len by simp_all
  let ?v = "viewOf s (\<lambda>_. SIdle)"
  have q: "vq ?v = {t}" unfolding v using e(2) len by auto
  have f: "vst ?v t = 0" "vused ?v t" "\<not> vpin ?v t" "vpar ?v t = None"
    unfolding v using e(1) th(3) [OF tl] by simp_all
  have o: "vst ?v u = - 1" "\<not> vused ?v u" "\<not> vpin ?v u" if "u < length ths" "u \<noteq> t" for u
    unfolding v using e(1) th [OF that(1)] that(2) by simp_all
  have pn: "vproc ?v u = None" if "u < length ths" for u unfolding v using e(1) th(4) [OF that] by simp
  have un: "vuser ?v p = None" if "p < N" for p unfolding v using e(1) pr [OF that] by simp
  have pc: "vpc ?v = (\<lambda>_. SIdle)" by simp
  have ve: "vact ?v = 1" "\<not> vempty ?v" unfolding v using e(1) a1 len(5) by simp_all
  have k: "kids N ?v u = 0" for u
  proof -
    have "{c. counted N ?v c \<and> vpar ?v c = Some u} = {}" using q f(4) by (auto simp: counted_def)
    then show ?thesis unfolding kids_def by (simp only: card.empty)
  qed
  have "vqueue N (length ths) ?v" unfolding vqueue_def q ve(1) pc using f o tl ve(2) by auto
  moreover have "vhold N (length ths) ?v" unfolding vhold_def pc by simp
  moreover have "vmap N (length ths) ?v" unfolding vmap_def pc using pn un by auto
  moreover have "vstatus N ?v" unfolding vstatus_def q k pc using f q by (auto simp: counted_def)
  ultimately show ?thesis using s by (simp add: sys_ok_def vinv_def)
qed

lemma sreach_ok: "sreach gcFun cfg mm mprot N c \<Longrightarrow> gc_keeps gcFun \<Longrightarrow> sys_ok N c"
proof (induction rule: sreach.induct)
  case (sreach_start prs)
  then show ?case by (intro sys_ok_start)
next
  case (sreach_step c c')
  then show ?case by (cases c) (auto intro: sstep_ok)
qed


subsection \<open>Properties\<close>

definition children :: "nat \<Rightarrow> sched \<Rightarrow> (nat \<Rightarrow> spc) \<Rightarrow> nat \<Rightarrow> nat set" where
  \<comment> \<open>the children of a thread that are in the queue and have not lowered its status yet\<close>
  "children N s pc t = {c. Some c \<in> set (JobQueue s) \<and> thStatus (Threads s ! c) \<noteq> - 1 \<and> (\<forall>p<N. pc p \<noteq> SDel4 c) \<and>
     thParent (Threads s ! c) = Some t}"

lemma kids_children: "kids N (viewOf s pc) t = card (children N s pc t)"
proof -
  have "{c. counted N (viewOf s pc) c \<and> vpar (viewOf s pc) c = Some t} = children N s pc t"
    by (auto simp: children_def counted_def)
  then show ?thesis by (simp add: kids_def)
qed

lemma finite_children: "finite (children N s pc t)"
proof -
  have "children N s pc t \<subseteq> the ` set (JobQueue s)" by (force simp: children_def)
  then show ?thesis by (rule finite_subset) simp
qed

lemma held_sum:
  assumes ok: "sys_ok N (s, pc)" and t: "Some t \<in> set (JobQueue s)" "thStatus (Threads s ! t) \<noteq> - 1"
  shows "thStatus (Threads s ! t) = (\<Sum>p<N. heldWeight (pc p) t) + int (card (children N s pc t))"
proof (cases "\<exists>p<N. pcThread (pc p) = Some t")
  case True
  then obtain p where p: "p < N" "pcThread (pc p) = Some t" by blast
  have d: "pc p \<noteq> SDel5 t" using v_del5 [OF sys_okD(1) [OF ok] p(1), of t] t(2) by auto
  have z: "heldWeight (pc q) t = 0" if "q \<in> {..<N} - {p}" for q using holder(4) [OF ok p, of q] that by (auto simp: heldWeight_def)
  have "(\<Sum>q<N. heldWeight (pc q) t) = heldWeight (pc p) t + (\<Sum>q\<in>{..<N} - {p}. heldWeight (pc q) t)"
    using p(1) by (intro sum.remove) simp_all
  then have "(\<Sum>q<N. heldWeight (pc q) t) = pcWeight (pc p)" using z p(2) by (simp add: heldWeight_def)
  then show ?thesis using holder(7) [OF ok p d] by (simp add: kids_children)
next
  case False
  then have "(\<Sum>q<N. heldWeight (pc q) t) = 0" by (intro sum.neutral) (auto simp: heldWeight_def)
  then show ?thesis using v_free [OF sys_okD(1) [OF ok], of t] t False by (simp add: kids_children)
qed

subsection \<open>An execution\<close>

text \<open>One processor starts the main thread, which spawns a child and then asks for memory.\<close>

definition demo_thread :: thread where
  "demo_thread = \<lparr>saveregs = replicate 32 0, thProc = None, request = NoRequest, requestInfo = 0, writelistAlloc = 0,
     writelistLimit = 0, stackLimit = 0, stackTop = 0, thGlobalOffset = 0, thStackletOffset = 0, thArrayOffset = 0, thunk = 0,
     rootVals = [], rootLocs = [], thStack = None, tid = 0, thId = 0, thUsed = False, thStatus = 0, thPinned = False, thParent = None\<rparr>"

definition demo_proc :: sproc where
  "demo_proc = \<lparr>userThread = None, prAllocStart = 2, prAllocCursor = 2, prAllocLimit = 2, prWritelistStart = 0,
     prWritelistCursor = 0, prWritelistEnd = 0, prUsage = resetUsage demo_config\<rparr>"

definition demo_gc :: "nat \<Rightarrow> nat \<Rightarrow> sched \<Rightarrow> sched result" where
  "demo_gc p t s = Inr (snd (ResetAllocation p None s))"

definition demo_init :: sched where
  "demo_init = thread_init [demo_thread, demo_thread] [demo_proc]
     ((StackInitialize (\<lambda>_. 0))\<lparr>Stacklets := [initStacklet, initStacklet], StackChains := [initChain, initChain]\<rparr>)"

definition demo_go :: "sched result" where
  "demo_go = thread_go demo_mm (\<lambda>_ _. True) 4000 demo_init"

definition demo_started :: "sched result" where
  "demo_started = bindE demo_go (\<lambda>s. bindE (work_dispatch demo_gc demo_config 0 0 (addStatus 0 1 s)) (\<lambda>(_, s). Inr s))"

definition demo_spawned :: "sched result" where
  "demo_spawned = bindE demo_started (\<lambda>s. bindE (Thread_Create demo_mm (\<lambda>_ _. True) 1 (Some 0) 4004 s) (AddJob 1))"

definition demo_asking :: "sched result" where
  "demo_asking = bindE demo_spawned (GCFromMutator 0 0)"

lemmas stack_defs = StackChain_Alloc_def StackChain_BaseAlloc_def NumStackletPerChain_def NewStacklet_def
  Stacklet_Alloc_def mapStacklet_def StackInitialize_def initStacklet_def initChain_def my_mprotect_def stackletOffset_def
  GuardStackletSize_def CStackletSize_def MLStackletSize_def kilobyte_def TILT_PAGESIZE_def countPositive_def activeSt_def
  updChain_def updSt_def demo_mm_def CurrentStacklet_def Stacklet_KillReplica_def EstablishStacklet_def
  StackletPrimaryCursor_def StackletPrimaryBottom_def StackletPrimaryTop_def saveRegsInto_def

lemmas start_defs = demo_go_def demo_init_def thread_go_def thread_create_def thread_init_def demo_thread_def demo_proc_def
  fillThread_def setReg_def Thread_Create_def updTh_def updPr_def AddJob_def addStatus_def work_dispatch_def mapThread_def
  assignThread_def loadThread_def replicate_unfold Let_def
  THREADPTR_def ALLOCPTR_def ALLOCLIMIT_def SP_def RA_def RESULT_def

lemma demo_go_runs: "\<exists>s. demo_go = Inr s \<and> JobQueue s = [Some 0, None] \<and> thStatus (Threads s ! 0) = 0 \<and>
    userThread (Procs s ! 0) = None \<and> \<not> EmptyPlain s"
  by (simp add: start_defs stack_defs)

lemma demo_started_runs: "\<exists>s. demo_started = Inr s \<and> length (Threads s) = 2 \<and> \<not> thUsed (Threads s ! 1) \<and> thProc (Threads s ! 0) = Some 0"
  by (simp add: demo_started_def start_defs stack_defs)

lemma demo_asking_runs: "\<exists>s. demo_asking = Inr s \<and> JobQueue s = [Some 0, Some 1] \<and> thStatus (Threads s ! 1) = 0 \<and> thParent (Threads s ! 1) = Some 0"
  by (simp add: demo_asking_def demo_spawned_def demo_started_def start_defs stack_defs GCFromMutator_def UpdateJob_def
      GCReleaseThread_def PadHeapArea_def StopHeapLimit_def cdiv_def)

lemma demo_gc_keeps: "gc_keeps demo_gc"
  by (auto simp: gc_keeps_def demo_gc_def ResetAllocation_def intro!: undisturbed_updPr)

abbreviation demo_reach :: "sched \<times> (nat \<Rightarrow> spc) \<Rightarrow> bool" where
  "demo_reach \<equiv> sreach demo_gc demo_config demo_mm (\<lambda>_ _. True) 1"

lemma demo_srun:
  "\<exists>s0 s3. demo_reach (s0, \<lambda>_. SIdle) \<and> demo_reach (addStatus 0 1 s0, (\<lambda>_. SIdle)(0 := SCheck (Some 0))) \<and>
     demo_reach (s3, (\<lambda>_. SIdle)(0 := SWork 0)) \<and> JobQueue s0 = [Some 0, None] \<and> thStatus (Threads s0 ! 0) = 0 \<and>
     JobQueue s3 = [Some 0, Some 1] \<and> thStatus (Threads s3 ! 1) = 0 \<and> thParent (Threads s3 ! 1) = Some 0"
proof -
  obtain s0 where s0: "demo_go = Inr s0" "JobQueue s0 = [Some 0, None]" "thStatus (Threads s0 ! 0) = 0" "userThread (Procs s0 ! 0) = None"
    "\<not> EmptyPlain s0" using demo_go_runs by blast
  obtain s1 where s1: "demo_started = Inr s1" "length (Threads s1) = 2" "\<not> thUsed (Threads s1 ! 1)" "thProc (Threads s1 ! 0) = Some 0"
    using demo_started_runs by blast
  obtain s3 where s3: "demo_asking = Inr s3" "JobQueue s3 = [Some 0, Some 1]" "thStatus (Threads s3 ! 1) = 0" "thParent (Threads s3 ! 1) = Some 0"
    using demo_asking_runs by blast
  obtain r where r: "work_dispatch demo_gc demo_config 0 0 (addStatus 0 1 s0) = Inr (r, s1)"
    using s1(1) unfolding demo_started_def s0(1) bindE_Inr by auto
  obtain s2 s2' where s2: "Thread_Create demo_mm (\<lambda>_ _. True) 1 (Some 0) 4004 s1 = Inr s2'" "AddJob 1 s2' = Inr s2" "GCFromMutator 0 0 s2 = Inr s3"
    using s3(1) unfolding demo_asking_def demo_spawned_def s1(1) bindE_Inr by auto
  let ?st = "sstep demo_gc demo_config demo_mm (\<lambda>_ _. True) 1"
  have r0: "demo_reach (s0, \<lambda>_. SIdle)"
    using s0(1) unfolding demo_go_def demo_init_def by (intro sreach_start) simp_all
  have "?st (s0, \<lambda>_. SIdle) (Inr (addStatus 0 1 s0, (\<lambda>_. SIdle)(0 := SCheck (Some 0))))"
    using s0 by (intro fetch) (simp_all add: work_take_def FetchJob_def)
  then have r1: "demo_reach (addStatus 0 1 s0, (\<lambda>_. SIdle)(0 := SCheck (Some 0)))" by (rule sreach_step [OF r0])
  have "?st (addStatus 0 1 s0, (\<lambda>_. SIdle)(0 := SCheck (Some 0))) (Inr (addStatus 0 1 s0, (\<lambda>_. SIdle)(0 := SWork 0)))"
    using check [of 0 1 "(\<lambda>_. SIdle)(0 := SCheck (Some 0))" "Some 0" demo_gc demo_config demo_mm "\<lambda>_ _. True" "addStatus 0 1 s0"] s0(5)
    by (simp add: addStatus_def)
  then have r2: "demo_reach (addStatus 0 1 s0, (\<lambda>_. SIdle)(0 := SWork 0))" by (rule sreach_step [OF r1])
  have "?st (addStatus 0 1 s0, (\<lambda>_. SIdle)(0 := SWork 0)) (Inr (s1, (\<lambda>_. SIdle)(0 := SRun 0)))"
    using dispatch [of 0 1 "(\<lambda>_. SIdle)(0 := SWork 0)" 0 demo_gc demo_config demo_mm "\<lambda>_ _. True" "addStatus 0 1 s0"] r
    by (simp add: setSpc_def)
  then have r3: "demo_reach (s1, (\<lambda>_. SIdle)(0 := SRun 0))" by (rule sreach_step [OF r2])
  have "?st (s1, (\<lambda>_. SIdle)(0 := SRun 0)) (Inr (s2', (\<lambda>_. SIdle)(0 := SSpawn 0 1)))"
    using spawn [of 0 1 "(\<lambda>_. SIdle)(0 := SRun 0)" 0 1 s1 demo_gc demo_config demo_mm "\<lambda>_ _. True" 4004] s1 s2(1)
    by (simp add: setSpc_def)
  then have r4: "demo_reach (s2', (\<lambda>_. SIdle)(0 := SSpawn 0 1))" by (rule sreach_step [OF r3])
  have "?st (s2', (\<lambda>_. SIdle)(0 := SSpawn 0 1)) (Inr (s2, (\<lambda>_. SIdle)(0 := SRun 0)))"
    using spawned [of 0 1 "(\<lambda>_. SIdle)(0 := SSpawn 0 1)" 0 1 demo_gc demo_config demo_mm "\<lambda>_ _. True" s2'] s2(2)
    by (simp add: setSpc_def)
  then have r5: "demo_reach (s2, (\<lambda>_. SIdle)(0 := SRun 0))" by (rule sreach_step [OF r4])
  have "?st (s2, (\<lambda>_. SIdle)(0 := SRun 0)) (Inr (s3, (\<lambda>_. SIdle)(0 := SWork 0)))"
    using collect [of 0 1 "(\<lambda>_. SIdle)(0 := SRun 0)" 0 demo_gc demo_config demo_mm "\<lambda>_ _. True" s2] s2(3)
    by (simp add: setSpc_def)
  then have "demo_reach (s3, (\<lambda>_. SIdle)(0 := SWork 0))" by (rule sreach_step [OF r5])
  then show ?thesis using r0 r1 s0 s3 by blast
qed

text \<open>C9: In every interleaving a thread is held by at most one processor: never do two processors fetch, run,
  stop or delete the same thread, the processor that runs a thread is the one it is mapped on, and a
  thread that is held stays in the queue.\<close>

theorem thread_on_one_processor:
  assumes "gc_keeps gcFun" and "sreach gcFun cfg mm mprot N (s, pc)" and "p < N" and "pcThread (pc p) = Some t"
  shows "(\<forall>q<N. pcThread (pc q) = Some t \<longrightarrow> q = p) \<and> Some t \<in> set (JobQueue s) \<and>
    (pc p = SRun t \<longrightarrow> userThread (Procs s ! p) = Some t) \<and>
    (userThread (Procs s ! p) = Some t \<longleftrightarrow> thProc (Threads s ! t) = Some p)"
proof -
  have ok: "sys_ok N (s, pc)" by (rule sreach_ok [OF assms(2,1)])
  note h = holder [OF ok assms(3,4)]
  have "pc p = SRun t \<longrightarrow> userThread (Procs s ! p) = Some t" using v_mapped [OF sys_okD(1) [OF ok] assms(3)] by auto
  then show ?thesis using h(1,4,6) by auto
qed

theorem thread_on_one_processor_witness:
  "\<exists>s pc. demo_reach (s, pc) \<and> pc 0 = SCheck (Some 0) \<and> Some 0 \<in> set (JobQueue s)"
proof -
  obtain s0 where "demo_reach (addStatus 0 1 s0, (\<lambda>_. SIdle)(0 := SCheck (Some 0)))" using demo_srun by blast
  then show ?thesis using thread_on_one_processor [OF demo_gc_keeps, of demo_config demo_mm _ 1 "addStatus 0 1 s0" _ 0 0]
    by (intro exI [of _ "addStatus 0 1 s0"] exI [of _ "(\<lambda>_. SIdle)(0 := SCheck (Some 0))"]) (auto simp del: addStatus_sel)
qed





text \<open>C36: Memory requests of parents: when a processor is about to resume a thread in \<open>work\<close>, the assertion
  \<open>th->status == 1\<close> fails exactly if the thread has unfinished children.  A thread that is waiting
  never gets there, but a running thread that spawned a child and then asks for memory does.\<close>

theorem memory_request_with_children:
  assumes "gc_keeps gcFun" and "sreach gcFun cfg mm mprot N (s, pc)" and "p < N" and "pc p = SWork t"
  shows "work_dispatch gcFun cfg p t s = Inl (AssertFail ''work: th->status == 1'') \<longleftrightarrow> children N s pc t \<noteq> {}"
proof -
  have ok: "sys_ok N (s, pc)" by (rule sreach_ok [OF assms(2,1)])
  have h: "pcThread (pc p) = Some t" using assms(4) by simp
  have m: "mappable p t s" using holder(5,6) [OF ok assms(3) h] by (auto simp: mappable_def)
  have st: "thStatus (Threads s ! t) = 1 + int (card (children N s pc t))"
    using holder(7) [OF ok assms(3) h] assms(4) by (simp add: kids_children)
  show ?thesis
  proof (cases "children N s pc t = {}")
    case True
    then have "noSched (work_dispatch gcFun cfg p t s)" using st by (intro work_dispatch_noSched [OF assms(1) m]) simp
    moreover have "schedFault (AssertFail ''work: th->status == 1'')" by (simp add: schedFault_def sched_msgs_def)
    ultimately have "work_dispatch gcFun cfg p t s \<noteq> Inl (AssertFail ''work: th->status == 1'')" unfolding noSched_def by blast
    then show ?thesis using True by simp
  next
    case False
    then have "thStatus (Threads s ! t) \<noteq> 1" using st finite_children [of N s pc t] by (simp add: card_eq_0_iff)
    then show ?thesis using False by (simp add: work_dispatch_def assertE_def)
  qed
qed

theorem memory_request_with_children_witness:
  "\<exists>s. demo_reach (s, (\<lambda>_. SIdle)(0 := SWork 0)) \<and>
     work_dispatch demo_gc demo_config 0 0 s = Inl (AssertFail ''work: th->status == 1'')"
proof -
  obtain s where s: "demo_reach (s, (\<lambda>_. SIdle)(0 := SWork 0))" "JobQueue s = [Some 0, Some 1]" "thStatus (Threads s ! 1) = 0"
    "thParent (Threads s ! 1) = Some 0" using demo_srun by blast
  then have "1 \<in> children 1 s ((\<lambda>_. SIdle)(0 := SWork 0)) 0" by (simp add: children_def)
  then show ?thesis using memory_request_with_children [OF demo_gc_keeps s(1), of 0 0] s(1) by auto
qed

end
