(* ===== verification/Scan.thy ===== *)
theory Scan
  imports LargeSpace
begin

text \<open>
  Forwarding locations and scanning gray objects: \<open>Runtime/sparc/gcinline.h\<close>.  The \<open>loc\<close> wrappers
  update a location that holds a pointer into the source space(s) by the address of the replica;
  \<open>genericField\<close> selects one of them and \<open>genericScan\<close> applies it to the pointer fields of an
  object, transferring the fields from the primary first when asked to.  The \<open>Heap_t*\<close> arguments of
  the source are used for their \<open>range\<close> only, which never changes after \<open>Heap_Alloc\<close>; here they are
  the ranges (\<open>noRange\<close> where the source passes \<open>NULL\<close> and never looks at it).
\<close>

definition noRange :: range_t where
  "noRange = SetRange 0 0"

subsection \<open>Wrappers for one pointer\<close>

definition ptrAt :: "addr \<Rightarrow> gcst \<Rightarrow> addr" where
  "ptrAt loc s = unat (mem s loc)"

definition storeResult :: "addr \<Rightarrow> (addr \<times> gcst) result \<Rightarrow> gcst result" where
  \<comment> \<open>\<open>*loc = f(...)\<close>\<close>
  "storeResult loc r = bindE r (\<lambda>(obj, s). Inr (storeAt loc (word_of_nat obj) s))"

definition dropResult :: "(addr \<times> gcst) result \<Rightarrow> gcst result" where
  "dropResult r = bindE r (\<lambda>(obj, s). Inr s)"

definition belowRange :: "addr \<Rightarrow> range_t \<Rightarrow> bool" where
  \<comment> \<open>the strict test of the uniprocessor wrappers for large objects\<close>
  "belowRange a r \<longleftrightarrow> (word_of_nat a - word_of_nat (low r) :: 32 word) < diff r"

definition copy1_noSpaceCheck :: "config \<Rightarrow> addr \<Rightarrow> range_t \<Rightarrow> gcst \<Rightarrow> gcst result" where
  "copy1_noSpaceCheck cfg obj from s =
     (if InRange obj from then dropResult (copy_noSpaceCheck cfg obj s)
      else Inr s)"

definition locCopy1_noSpaceCheck :: "config \<Rightarrow> addr \<Rightarrow> range_t \<Rightarrow> gcst \<Rightarrow> gcst result" where
  "locCopy1_noSpaceCheck cfg loc from s =
     (let obj = ptrAt loc s in
      if InRange obj from then storeResult loc (copy_noSpaceCheck cfg obj s)
       else Inr s)"

definition locCopy1 :: "config \<Rightarrow> addr \<Rightarrow> range_t \<Rightarrow> gcst \<Rightarrow> gcst result" where
  "locCopy1 cfg loc from s =
     (let obj = ptrAt loc s in
      if InRange obj from then storeResult loc (copy cfg obj s)
       else Inr s)"

definition locCopy2L_noSpaceCheck :: "config \<Rightarrow> addr \<Rightarrow> range_t \<Rightarrow> range_t \<Rightarrow> range_t \<Rightarrow> gcst \<Rightarrow> gcst result" where
  "locCopy2L_noSpaceCheck cfg loc from from2 large s =
     (let obj = ptrAt loc s in
      if InRange obj from \<or> InRange obj from2 then storeResult loc (copy_noSpaceCheck cfg obj s)
       else if belowRange obj large then gc_large_addRoot cfg obj s
       else Inr s)"

definition copy2L_noSpaceCheck :: "config \<Rightarrow> addr \<Rightarrow> range_t \<Rightarrow> range_t \<Rightarrow> range_t \<Rightarrow> gcst \<Rightarrow> gcst result" where
  "copy2L_noSpaceCheck cfg obj from from2 large s =
     (if InRange obj from \<or> InRange obj from2 then dropResult (copy_noSpaceCheck cfg obj s)
      else if belowRange obj large then gc_large_addRoot cfg obj s
      else Inr s)"

definition copy1_copyCopySync_replicaSet :: "config \<Rightarrow> addr \<Rightarrow> range_t \<Rightarrow> gcst \<Rightarrow> gcst result" where
  "copy1_copyCopySync_replicaSet cfg obj from s =
     (if InRange obj from then dropResult (copy_copyCopySync_replicaSet cfg obj s)
      else Inr s)"

definition alloc1_copyCopySync_primarySet :: "config \<Rightarrow> addr \<Rightarrow> range_t \<Rightarrow> gcst \<Rightarrow> gcst result" where
  "alloc1_copyCopySync_primarySet cfg obj from s =
     (if InRange obj from then dropResult (alloc_copyCopySync_primarySet cfg obj s)
      else Inr s)"

definition alloc1_copyCopySync :: "config \<Rightarrow> addr \<Rightarrow> range_t \<Rightarrow> gcst \<Rightarrow> gcst result" where
  "alloc1_copyCopySync cfg obj from s =
     (if InRange obj from then dropResult (alloc_copyCopySync cfg obj s)
      else Inr s)"

definition alloc1_copyCopySync_replicaSet :: "config \<Rightarrow> addr \<Rightarrow> range_t \<Rightarrow> gcst \<Rightarrow> gcst result" where
  "alloc1_copyCopySync_replicaSet cfg obj from s =
     (if InRange obj from then dropResult (alloc_copyCopySync_replicaSet cfg obj s)
      else Inr s)"

definition alloc1L_copyCopySync_primarySet :: "config \<Rightarrow> addr \<Rightarrow> range_t \<Rightarrow> range_t \<Rightarrow> gcst \<Rightarrow> gcst result" where
  "alloc1L_copyCopySync_primarySet cfg obj from large s =
     (if InRange obj from then dropResult (alloc_copyCopySync_primarySet cfg obj s)
      else if InRange obj large then gc_large_addRoot cfg obj s
      else Inr s)"

definition locAlloc1_copyCopySync_primarySet :: "config \<Rightarrow> addr \<Rightarrow> range_t \<Rightarrow> gcst \<Rightarrow> gcst result" where
  "locAlloc1_copyCopySync_primarySet cfg loc from s =
     (let obj = ptrAt loc s in
      if InRange obj from then storeResult loc (alloc_copyCopySync_primarySet cfg obj s)
       else Inr s)"

definition locAlloc1_copyCopySync :: "config \<Rightarrow> addr \<Rightarrow> range_t \<Rightarrow> gcst \<Rightarrow> gcst result" where
  "locAlloc1_copyCopySync cfg loc from s =
     (let obj = ptrAt loc s in
      if InRange obj from then storeResult loc (alloc_copyCopySync cfg obj s)
       else Inr s)"

definition locAlloc1_copyCopySync_replicaSet :: "config \<Rightarrow> addr \<Rightarrow> range_t \<Rightarrow> gcst \<Rightarrow> gcst result" where
  "locAlloc1_copyCopySync_replicaSet cfg loc from s =
     (let obj = ptrAt loc s in
      if InRange obj from then storeResult loc (alloc_copyCopySync_replicaSet cfg obj s)
       else Inr s)"

definition locAlloc1L_copyCopySync_primarySet :: "config \<Rightarrow> addr \<Rightarrow> range_t \<Rightarrow> range_t \<Rightarrow> gcst \<Rightarrow> gcst result" where
  "locAlloc1L_copyCopySync_primarySet cfg loc from large s =
     (let obj = ptrAt loc s in
      if InRange obj from then storeResult loc (alloc_copyCopySync_primarySet cfg obj s)
       else if InRange obj large then gc_large_addRoot cfg obj s
       else Inr s)"

definition locCopy1_copyCopySync :: "config \<Rightarrow> addr \<Rightarrow> range_t \<Rightarrow> gcst \<Rightarrow> gcst result" where
  "locCopy1_copyCopySync cfg loc from s =
     (let obj = ptrAt loc s in
      if InRange obj from then storeResult loc (copy_copyCopySync cfg obj s)
       else Inr s)"

definition locCopy1_copyCopySync_replicaSet :: "config \<Rightarrow> addr \<Rightarrow> range_t \<Rightarrow> gcst \<Rightarrow> gcst result" where
  "locCopy1_copyCopySync_replicaSet cfg loc from s =
     (let obj = ptrAt loc s in
      if InRange obj from then storeResult loc (copy_copyCopySync_replicaSet cfg obj s)
       else Inr s)"

definition locCopy1_replicaSet :: "config \<Rightarrow> addr \<Rightarrow> range_t \<Rightarrow> gcst \<Rightarrow> gcst result" where
  "locCopy1_replicaSet cfg loc from s =
     (let obj = ptrAt loc s in
      if InRange obj from then storeResult loc (copy_replicaSet cfg obj s)
       else Inr s)"

definition locCopy1_noSpaceCheck_copyCopySync_replicaSet :: "config \<Rightarrow> addr \<Rightarrow> range_t \<Rightarrow> gcst \<Rightarrow> gcst result" where
  "locCopy1_noSpaceCheck_copyCopySync_replicaSet cfg loc from s =
     (let obj = ptrAt loc s in
      if InRange obj from then storeResult loc (copy_noSpaceCheck_copyCopySync_replicaSet cfg obj s)
       else Inr s)"

definition locCopy1_noSpaceCheck_replicaSet :: "config \<Rightarrow> addr \<Rightarrow> range_t \<Rightarrow> gcst \<Rightarrow> gcst result" where
  "locCopy1_noSpaceCheck_replicaSet cfg loc from s =
     (let obj = ptrAt loc s in
      if InRange obj from then storeResult loc (copy_noSpaceCheck_replicaSet cfg obj s)
       else Inr s)"

definition locCopy1_noSpaceCheck_copyCopySync :: "config \<Rightarrow> addr \<Rightarrow> range_t \<Rightarrow> gcst \<Rightarrow> gcst result" where
  "locCopy1_noSpaceCheck_copyCopySync cfg loc from s =
     (let obj = ptrAt loc s in
      if InRange obj from then storeResult loc (copy_noSpaceCheck_copyCopySync cfg obj s)
       else Inr s)"

definition copy1_copyCopySync_primarySet :: "config \<Rightarrow> addr \<Rightarrow> range_t \<Rightarrow> gcst \<Rightarrow> gcst result" where
  "copy1_copyCopySync_primarySet cfg obj from s =
     (if InRange obj from then dropResult (copy_copyCopySync_primarySet cfg obj s)
      else Inr s)"

definition locCopy1_copyCopySync_primarySet :: "config \<Rightarrow> addr \<Rightarrow> range_t \<Rightarrow> gcst \<Rightarrow> gcst result" where
  "locCopy1_copyCopySync_primarySet cfg loc from s =
     (let obj = ptrAt loc s in
      if InRange obj from then storeResult loc (copy_copyCopySync_primarySet cfg obj s)
       else Inr s)"

definition locCopy1L_copyCopySync_primarySet :: "config \<Rightarrow> addr \<Rightarrow> range_t \<Rightarrow> range_t \<Rightarrow> gcst \<Rightarrow> gcst result" where
  "locCopy1L_copyCopySync_primarySet cfg loc from large s =
     (let obj = ptrAt loc s in
      if InRange obj from then storeResult loc (copy_copyCopySync_primarySet cfg obj s)
       else if InRange obj large then gc_large_addRoot cfg obj s
       else Inr s)"

definition locCopy2L_copyCopySync_replicaSet :: "config \<Rightarrow> addr \<Rightarrow> range_t \<Rightarrow> range_t \<Rightarrow> range_t \<Rightarrow> gcst \<Rightarrow> gcst result" where
  "locCopy2L_copyCopySync_replicaSet cfg loc from from2 large s =
     (let obj = ptrAt loc s in
      if InRange obj from \<or> InRange obj from2 then storeResult loc (copy_copyCopySync_replicaSet cfg obj s)
       else if InRange obj large then gc_large_addRoot cfg obj s
       else Inr s)"

definition copy2L_copyCopySync_primarySet :: "config \<Rightarrow> addr \<Rightarrow> range_t \<Rightarrow> range_t \<Rightarrow> range_t \<Rightarrow> gcst \<Rightarrow> gcst result" where
  "copy2L_copyCopySync_primarySet cfg obj from from2 large s =
     (if InRange obj from \<or> InRange obj from2 then dropResult (copy_copyCopySync_primarySet cfg obj s)
      else if InRange obj large then gc_large_addRoot cfg obj s
      else Inr s)"

definition locCopy2L_copyCopySync_primarySet :: "config \<Rightarrow> addr \<Rightarrow> range_t \<Rightarrow> range_t \<Rightarrow> range_t \<Rightarrow> gcst \<Rightarrow> gcst result" where
  "locCopy2L_copyCopySync_primarySet cfg loc from from2 large s =
     (let obj = ptrAt loc s in
      if InRange obj from \<or> InRange obj from2 then storeResult loc (copy_copyCopySync_primarySet cfg obj s)
       else if InRange obj large then gc_large_addRoot cfg obj s
       else Inr s)"

definition locCopy2L_copyCopySync_replica :: "config \<Rightarrow> addr \<Rightarrow> range_t \<Rightarrow> range_t \<Rightarrow> range_t \<Rightarrow> gcst \<Rightarrow> gcst result" where
  "locCopy2L_copyCopySync_replica cfg loc from from2 large s =
     (let obj = ptrAt loc s in
      if InRange obj from \<or> InRange obj from2 then storeResult loc (copy_copyCopySync_replicaSet cfg obj s)
       else if InRange obj large then gc_large_addRoot cfg obj s
       else Inr s)"

definition locAlloc2L_copyCopySync_primarySet :: "config \<Rightarrow> addr \<Rightarrow> range_t \<Rightarrow> range_t \<Rightarrow> range_t \<Rightarrow> gcst \<Rightarrow> gcst result" where
  "locAlloc2L_copyCopySync_primarySet cfg loc from from2 large s =
     (let obj = ptrAt loc s in
      if InRange obj from \<or> InRange obj from2 then storeResult loc (alloc_copyCopySync_primarySet cfg obj s)
       else if InRange obj large then gc_large_addRoot cfg obj s
       else Inr s)"
subsection \<open>Scanning: parameters\<close>

datatype locAllocCopy_t = Copy | LocCopy | LocAlloc
datatype sourceSpaceCheck_t = OneSpace | OneSpaceLarge | TwoSpaceLarge
datatype transfer_t = NoTransfer | Transfer | SelfTransfer | BackTransfer

record scanParams =
  spFrom :: range_t
  spFrom2 :: range_t
  spLarge :: range_t
  spCopyCopy :: bool             \<comment> \<open>\<open>DoCopyCopy\<close>\<close>
  spCopyWrite :: bool            \<comment> \<open>\<open>DoCopyWrite\<close>\<close>
  spLocAllocCopy :: locAllocCopy_t
  spSource :: sourceSpaceCheck_t
  spTransfer :: transfer_t
  spStack :: stackType_t
  spSpaceCheck :: bool           \<comment> \<open>\<open>DoSpaceCheck\<close>\<close>

definition genericField :: "config \<Rightarrow> scanParams \<Rightarrow> addr \<Rightarrow> gcst \<Rightarrow> gcst result" where
  "genericField cfg sp field s =
     (case spLocAllocCopy sp of
        LocAlloc \<Rightarrow>
          bindE (assertE (spCopyCopy sp) ''copyCopy == DoCopyCopy'') (\<lambda>_.
          bindE (assertE (spSpaceCheck sp) ''spaceCheck == DoSpaceCheck'') (\<lambda>_.
          case spSource sp of
            OneSpace \<Rightarrow>
              (case spStack sp of
                 PrimarySet \<Rightarrow> locAlloc1_copyCopySync_primarySet cfg field (spFrom sp) s
               | ReplicaSet \<Rightarrow> locAlloc1_copyCopySync_replicaSet cfg field (spFrom sp) s
               | NoSet \<Rightarrow> locAlloc1_copyCopySync cfg field (spFrom sp) s)
          | OneSpaceLarge \<Rightarrow>
              if spStack sp = PrimarySet
              then locAlloc1L_copyCopySync_primarySet cfg field (spFrom sp) (spLarge sp) s
              else Inl (Die ''scan2'')
          | TwoSpaceLarge \<Rightarrow>
              if spStack sp = PrimarySet
              then locAlloc2L_copyCopySync_primarySet cfg field (spFrom sp) (spFrom2 sp) (spLarge sp) s
              else Inl (Die ''scan3'')))
      | LocCopy \<Rightarrow>
          (case spSource sp of
             OneSpace \<Rightarrow>
               (case spStack sp of
                  NoSet \<Rightarrow>
                    if \<not> spCopyCopy sp
                    then if \<not> spSpaceCheck sp then locCopy1_noSpaceCheck cfg field (spFrom sp) s
                         else locCopy1 cfg field (spFrom sp) s
                    else bindE (assertE (spSpaceCheck sp) ''spaceCheck == DoSpaceCheck'') (\<lambda>_.
                         locCopy1_copyCopySync cfg field (spFrom sp) s)
                | PrimarySet \<Rightarrow>
                    bindE (assertE (spCopyCopy sp) ''copyCopy == DoCopyCopy'') (\<lambda>_.
                    bindE (assertE (spSpaceCheck sp) ''spaceCheck == DoSpaceCheck'') (\<lambda>_.
                    locCopy1_copyCopySync_primarySet cfg field (spFrom sp) s))
                | ReplicaSet \<Rightarrow>
                    if spSpaceCheck sp
                    then if spCopyCopy sp then locCopy1_copyCopySync_replicaSet cfg field (spFrom sp) s
                         else locCopy1_replicaSet cfg field (spFrom sp) s
                    else if spCopyCopy sp
                         then locCopy1_noSpaceCheck_copyCopySync_replicaSet cfg field (spFrom sp) s
                         else locCopy1_noSpaceCheck_replicaSet cfg field (spFrom sp) s)
           | OneSpaceLarge \<Rightarrow>
               bindE (assertE (spCopyCopy sp) ''copyCopy == DoCopyCopy'') (\<lambda>_.
               bindE (assertE (spStack sp = PrimarySet) ''stackType == PrimarySet'') (\<lambda>_.
               bindE (assertE (spSpaceCheck sp) ''spaceCheck == DoSpaceCheck'') (\<lambda>_.
               locCopy1L_copyCopySync_primarySet cfg field (spFrom sp) (spLarge sp) s)))
           | TwoSpaceLarge \<Rightarrow>
               (case spStack sp of
                  PrimarySet \<Rightarrow>
                    bindE (assertE (spSpaceCheck sp) ''spaceCheck == DoSpaceCheck'') (\<lambda>_.
                    bindE (assertE (spCopyCopy sp) ''copyCopy == DoCopyCopy'') (\<lambda>_.
                    locCopy2L_copyCopySync_primarySet cfg field (spFrom sp) (spFrom2 sp) (spLarge sp) s))
                | ReplicaSet \<Rightarrow>
                    bindE (assertE (spSpaceCheck sp) ''spaceCheck == DoSpaceCheck'') (\<lambda>_.
                    bindE (assertE (spCopyCopy sp) ''copyCopy == DoCopyCopy'') (\<lambda>_.
                    locCopy2L_copyCopySync_replicaSet cfg field (spFrom sp) (spFrom2 sp) (spLarge sp) s))
                | NoSet \<Rightarrow>
                    bindE (assertE (\<not> spSpaceCheck sp) ''spaceCheck == NoSpaceCheck'') (\<lambda>_.
                    bindE (assertE (\<not> spCopyCopy sp) ''copyCopy == NoCopyCopy'') (\<lambda>_.
                    locCopy2L_noSpaceCheck cfg field (spFrom sp) (spFrom2 sp) (spLarge sp) s))))
      | Copy \<Rightarrow>
          bindE (assertE (spCopyCopy sp) ''copyCopy == DoCopyCopy'') (\<lambda>_.
          bindE (assertE (spStack sp = PrimarySet) ''stackType == PrimarySet'') (\<lambda>_.
          bindE (assertE (spSpaceCheck sp) ''spaceCheck == DoSpaceCheck'') (\<lambda>_.
          if spSource sp = OneSpace then copy1_copyCopySync_primarySet cfg (ptrAt field s) (spFrom sp) s
          else Inl (Die ''scan7'')))))"

subsection \<open>Scanning one object\<close>

definition transfers :: "scanParams \<Rightarrow> bool" where
  "transfers sp \<longleftrightarrow> spTransfer sp = Transfer \<or> spTransfer sp = BackTransfer"

fun recordFields ::
    "config \<Rightarrow> scanParams \<Rightarrow> addr \<Rightarrow> addr \<Rightarrow> val \<Rightarrow> nat \<Rightarrow> nat \<Rightarrow> gcst \<Rightarrow> (nat \<times> gcst) result" where
  \<comment> \<open>fields \<open>i\<close> to \<open>i + n - 1\<close> of a record, \<open>msk\<close> already shifted; the number of pointer fields\<close>
  "recordFields cfg sp prim repl msk i 0 s = Inr (0, s)"
| "recordFields cfg sp prim repl msk i (Suc n) s =
     (let s = (if transfers sp then storeAt (repl + 4 * i) (mem s (prim + 4 * i)) s else s)
      in if msk AND 1 \<noteq> 0
         then bindE (genericField cfg sp (repl + 4 * i) s) (\<lambda>s.
              bindE (recordFields cfg sp prim repl (drop_bit 1 msk) (i + 1) n s) (\<lambda>(k, s).
              Inr (k + 1, s)))
         else recordFields cfg sp prim repl (drop_bit 1 msk) (i + 1) n s)"

fun ptrFields :: "config \<Rightarrow> scanParams \<Rightarrow> addr \<Rightarrow> addr \<Rightarrow> nat list \<Rightarrow> gcst \<Rightarrow> gcst result" where
  \<comment> \<open>the loop over the fields with the given indices of a pointer array\<close>
  "ptrFields cfg sp prim repl [] s = Inr s"
| "ptrFields cfg sp prim repl (i # is) s =
     (let s = (if transfers sp then storeAt (repl + 4 * i) (mem s (prim + 4 * i)) s else s)
      in if spCopyWrite sp \<and> ptrAt (prim + 4 * i) s = prim
         then ptrFields cfg sp prim repl is (storeAt (repl + 4 * i) (word_of_nat repl) s)
         else bindE (genericField cfg sp (repl + 4 * i) s) (ptrFields cfg sp prim repl is))"

fun mirrorFields :: "config \<Rightarrow> scanParams \<Rightarrow> addr \<Rightarrow> addr \<Rightarrow> nat list \<Rightarrow> gcst \<Rightarrow> gcst result" where
  \<comment> \<open>the same for the pairs of fields of a mirrored pointer array\<close>
  "mirrorFields cfg sp prim repl [] s = Inr s"
| "mirrorFields cfg sp prim repl (i # is) s =
     (let p = 4 * (i + primaryArrayOffset cfg div 4); r = 4 * (i + replicaArrayOffset cfg div 4);
          v = mem s (prim + p);
          s = (if transfers sp \<or> spTransfer sp = SelfTransfer
               then let s1 = storeAt (repl + r) v s;
                        s2 = storeAt (prim + r) (mem s1 (prim + p)) s1
                    in storeAt (repl + p) (mem s2 (prim + p)) s2
               else s)
      in if spCopyWrite sp \<and> ptrAt (prim + p) s = prim
         then mirrorFields cfg sp prim repl is (storeAt (repl + r) (word_of_nat repl) s)
         else bindE (genericField cfg sp (repl + r) s) (\<lambda>s.
              let s = (if transfers sp then storeAt (repl + p) (mem s (repl + r)) s else s)
              in mirrorFields cfg sp prim repl is s))"

definition mirrorIndices :: "nat \<Rightarrow> nat \<Rightarrow> nat list" where
  \<comment> \<open>first, first + 2, ... below last\<close>
  "mirrorIndices firstField lastField = map (\<lambda>k. firstField + 2 * k) [0..<(lastField - firstField + 1) div 2]"

fun pushSegments :: "config \<Rightarrow> addr \<Rightarrow> nat \<Rightarrow> nat list \<Rightarrow> gcst \<Rightarrow> gcst result" where
  \<comment> \<open>the loop at \<open>breakUpArray\<close>\<close>
  "pushSegments cfg prim byteLen [] s = Inr s"
| "pushSegments cfg prim byteLen (i # is) s =
     (let start = i * arraySegmentSize cfg; end = min (start + arraySegmentSize cfg) byteLen
      in bindE (onSegments (\<lambda>q. SetPush3 q prim start end) s) (pushSegments cfg prim byteLen is))"

definition breakUpArray ::
    "config \<Rightarrow> scanParams \<Rightarrow> addr option \<Rightarrow> addr \<Rightarrow> addr \<Rightarrow> nat \<Rightarrow> gcst \<Rightarrow> (addr \<times> gcst) result" where
  "breakUpArray cfg sp prim repl gray byteLen s =
     (case prim of None \<Rightarrow> Inl (AssertFail ''primaryGray != NULL'') | Some p \<Rightarrow>
      let s = (if spTransfer sp \<noteq> SelfTransfer then storeAt repl 555 s else s)
      in bindE (pushSegments cfg p byteLen [0..<DivideUp byteLen (arraySegmentSize cfg)] s) (\<lambda>s.
         Inr (gray + 4 * (byteLen div 4), s)))"

definition isLarge :: "config \<Rightarrow> nat \<Rightarrow> bool" where
  "isLarge cfg byteLen \<longleftrightarrow> arraySegmentSize cfg > 0 \<and> byteLen > arraySegmentSize cfg"

definition syncAddr :: "config \<Rightarrow> bool \<Rightarrow> addr \<Rightarrow> nat \<Rightarrow> addr" where
  \<comment> \<open>the address of \<open>replicaGray[syncIndex]\<close>: the tag or a segment tag\<close>
  "syncAddr cfg large repl start =
     (if large then repl - 4 * (2 + DivideUp start (arraySegmentSize cfg)) else repl - 4)"

definition scanWordArray ::
    "config \<Rightarrow> scanParams \<Rightarrow> addr option \<Rightarrow> addr \<Rightarrow> addr \<Rightarrow> nat \<Rightarrow> nat \<Rightarrow> val \<Rightarrow> gcst \<Rightarrow> (addr \<times> gcst) result" where
  "scanWordArray cfg sp prim repl gray start end tag s =
     (let arrayByteLen = unat (GET_ANY_ARRAY_LEN tag);
          byteLen = 4 * DivideUp arrayByteLen 4;
          large = isLarge cfg byteLen;
          sync = syncAddr cfg large repl start
      in if large \<and> start = end then breakUpArray cfg sp prim repl gray byteLen s
         else
           let firstField = (if large then start div 4 else 0);
               lastField = (if large then end div 4 else DivideUp arrayByteLen 4);
               fieldLen = lastField - firstField;
               s' = (if fieldLen > 0 \<and> transfers sp
                     then let s = (if spCopyWrite sp
                                   then storeAt sync (if large then SEGSTALL_TAG else STALL_TAG) s else s);
                              s = s\<lparr>mem := copyWords (mem s) (repl + 4 * firstField)
                                            (the prim + 4 * firstField) (lastField - firstField)\<rparr>;
                              s = updUsage (\<lambda>u. u\<lparr>fieldsScanned := fieldsScanned u + int (lastField - firstField)\<rparr>) s;
                              s = (if lastField - firstField > 32 then updateWorkDone cfg s else s)
                          in if spCopyWrite sp
                             then storeAt sync (if large then SEGPROCEED_TAG else tag) s else s
                     else s)
           in Inr (gray + 4 * fieldLen, s'))"

definition scanPtrArray ::
    "config \<Rightarrow> scanParams \<Rightarrow> addr option \<Rightarrow> addr \<Rightarrow> addr \<Rightarrow> nat \<Rightarrow> nat \<Rightarrow> val \<Rightarrow> gcst \<Rightarrow> (addr \<times> gcst) result" where
  "scanPtrArray cfg sp prim repl gray start end tag s =
     (let byteLen = unat (GET_ANY_ARRAY_LEN tag);
          large = isLarge cfg byteLen;
          sync = syncAddr cfg large repl start
      in if large \<and> start = end then breakUpArray cfg sp prim repl gray byteLen s
         else
           let firstField = (if large then start div 4 else 0);
               lastField = (if large then end div 4 else byteLen div 4);
               fieldLen = lastField - firstField
           in bindE (if fieldLen > 0
                     then let s = (if spCopyWrite sp
                                   then storeAt sync (if large then SEGSTALL_TAG else STALL_TAG) s else s)
                          in if GET_TYPE tag = PTR_ARRAY_TYPE
                             then ptrFields cfg sp (case prim of None \<Rightarrow> 0 | Some p \<Rightarrow> p) repl
                                    [firstField..<lastField] s
                             else mirrorFields cfg sp (case prim of None \<Rightarrow> 0 | Some p \<Rightarrow> p) repl
                                    (mirrorIndices firstField lastField) s
                     else Inr s) (\<lambda>s.
              let s = updUsage (\<lambda>u. u\<lparr>ptrFieldsScanned := ptrFieldsScanned u + int fieldLen\<rparr>) s;
                  s = (if spCopyWrite sp then storeAt sync (if large then SEGPROCEED_TAG else tag) s else s);
                  s = (if fieldLen > 32 then updateWorkDone cfg s else s)
              in Inr (gray + 4 * fieldLen, s)))"

definition scanRecord ::
    "config \<Rightarrow> scanParams \<Rightarrow> addr option \<Rightarrow> addr \<Rightarrow> addr \<Rightarrow> val \<Rightarrow> gcst \<Rightarrow> (addr \<times> gcst) result" where
  "scanRecord cfg sp prim repl gray tag s =
     (let fieldLen = unat (GET_RECLEN tag)
      in bindE (recordFields cfg sp (case prim of None \<Rightarrow> 0 | Some p \<Rightarrow> p) repl (GET_RECMASK tag) 0 fieldLen s)
           (\<lambda>(n, s).
           let s = updUsage (\<lambda>u. u\<lparr>fieldsScanned := fieldsScanned u + (int fieldLen - int n),
                                   ptrFieldsScanned := ptrFieldsScanned u + int n\<rparr>) s
           in Inr (gray + 4 * fieldLen, s)))"

definition genericScan ::
    "config \<Rightarrow> addr \<Rightarrow> nat \<Rightarrow> nat \<Rightarrow> scanParams \<Rightarrow> gcst \<Rightarrow> (addr \<times> gcst) result" where
  \<comment> \<open>the result is the address after the object; a tag that stays \<open>STALL_TAG\<close> (or is any other
     \<open>OTHER_TYPE\<close> tag but a skip) is waited for\<close>
  "genericScan cfg gray start end sp s =
     (let (prim, repl) =
            (case spTransfer sp of
               NoTransfer \<Rightarrow> (None, gray)
             | Transfer \<Rightarrow> (Some gray, ptrAt (gray - 4) s)
             | SelfTransfer \<Rightarrow> (Some gray, gray)
             | BackTransfer \<Rightarrow> (Some (ptrAt gray s), gray));
          tag = mem s (repl - 4);
          ty = GET_TYPE tag
      in bindE (assertE (spCopyWrite sp \<longrightarrow> spTransfer sp \<noteq> NoTransfer) ''transfer != NoTransfer'') (\<lambda>_.
         let s = updUsage (\<lambda>u. u\<lparr>objsScanned := objsScanned u + 1\<rparr>) s
         in if ty = RECORD_TYPE then scanRecord cfg sp prim repl gray tag s
            else if ty = WORD_ARRAY_TYPE \<or> ty = QUAD_ARRAY_TYPE
            then scanWordArray cfg sp prim repl gray start end tag s
            else if ty = PTR_ARRAY_TYPE \<or> ty = MIRROR_PTR_ARRAY_TYPE
            then scanPtrArray cfg sp prim repl gray start end tag s
            else if TYPE_IS_FORWARD ty then Inl (Die ''scan8'')
            else if IS_SKIP_TAG tag
            then Inr (gray + 4 * unat (GET_SKIPWORD tag) - 4,
                      updUsage (\<lambda>u. u\<lparr>fieldsScanned := fieldsScanned u + 1\<rparr>) s)
            else Inl (Spin ''genericScan'')))"

subsection \<open>Scanning wrappers\<close>

definition mkScan ::
    "range_t \<Rightarrow> range_t \<Rightarrow> range_t \<Rightarrow> bool \<Rightarrow> bool \<Rightarrow> locAllocCopy_t \<Rightarrow> sourceSpaceCheck_t \<Rightarrow>
     transfer_t \<Rightarrow> stackType_t \<Rightarrow> bool \<Rightarrow> scanParams" where
  \<comment> \<open>the parameters in the order in which the wrappers pass them\<close>
  "mkScan from from2 large cc cw lac src tr st sc =
     \<lparr>spFrom = from, spFrom2 = from2, spLarge = large, spCopyCopy = cc, spCopyWrite = cw,
      spLocAllocCopy = lac, spSource = src, spTransfer = tr, spStack = st, spSpaceCheck = sc\<rparr>"

definition scanTag_locCopy1_noSpaceCheck ::
    "config \<Rightarrow> addr \<Rightarrow> range_t \<Rightarrow> gcst \<Rightarrow> (addr \<times> gcst) result" where
  "scanTag_locCopy1_noSpaceCheck cfg start from s =
     genericScan cfg (start + 4) 0 0
       (mkScan from noRange noRange False False LocCopy OneSpace NoTransfer NoSet False) s"

definition scanTag_locCopy1 ::
    "config \<Rightarrow> addr \<Rightarrow> range_t \<Rightarrow> gcst \<Rightarrow> (addr \<times> gcst) result" where
  "scanTag_locCopy1 cfg start from s =
     genericScan cfg (start + 4) 0 0
       (mkScan from noRange noRange False False LocCopy OneSpace NoTransfer NoSet True) s"

definition scanTag_locCopy1_replicaSet ::
    "config \<Rightarrow> addr \<Rightarrow> range_t \<Rightarrow> gcst \<Rightarrow> (addr \<times> gcst) result" where
  "scanTag_locCopy1_replicaSet cfg start from s =
     genericScan cfg (start + 4) 0 0
       (mkScan from noRange noRange False False LocCopy OneSpace NoTransfer ReplicaSet True) s"

definition scanTag_locCopy1_copyCopySync ::
    "config \<Rightarrow> addr \<Rightarrow> range_t \<Rightarrow> gcst \<Rightarrow> (addr \<times> gcst) result" where
  "scanTag_locCopy1_copyCopySync cfg start from s =
     genericScan cfg (start + 4) 0 0
       (mkScan from noRange noRange True False LocCopy OneSpace NoTransfer NoSet True) s"

definition scanTag_locCopy2L_noSpaceCheck ::
    "config \<Rightarrow> addr \<Rightarrow> range_t \<Rightarrow> range_t \<Rightarrow> range_t \<Rightarrow> gcst \<Rightarrow> (addr \<times> gcst) result" where
  "scanTag_locCopy2L_noSpaceCheck cfg start from from2 large s =
     genericScan cfg (start + 4) 0 0
       (mkScan from from2 large False False LocCopy TwoSpaceLarge NoTransfer NoSet False) s"

definition scanObj_copy1_copyCopySync_primarySet ::
    "config \<Rightarrow> addr \<Rightarrow> range_t \<Rightarrow> gcst \<Rightarrow> gcst result" where
  "scanObj_copy1_copyCopySync_primarySet cfg replicaGray from s =
     dropResult (genericScan cfg replicaGray 0 0
       (mkScan from noRange noRange True False Copy OneSpace NoTransfer PrimarySet True) s)"

definition scanObj_locCopy1_copyCopySync_primarySet ::
    "config \<Rightarrow> addr \<Rightarrow> range_t \<Rightarrow> gcst \<Rightarrow> gcst result" where
  "scanObj_locCopy1_copyCopySync_primarySet cfg replicaGray from s =
     dropResult (genericScan cfg replicaGray 0 0
       (mkScan from noRange noRange True False LocCopy OneSpace NoTransfer PrimarySet True) s)"

definition scanObj_locCopy1L_copyCopySync_primarySet ::
    "config \<Rightarrow> addr \<Rightarrow> range_t \<Rightarrow> range_t \<Rightarrow> gcst \<Rightarrow> gcst result" where
  "scanObj_locCopy1L_copyCopySync_primarySet cfg replicaGray from large s =
     dropResult (genericScan cfg replicaGray 0 0
       (mkScan from noRange large True False LocCopy OneSpaceLarge NoTransfer PrimarySet True) s)"

definition transferScanObj_locCopy1_copyCopySync_primarySet ::
    "config \<Rightarrow> addr \<Rightarrow> range_t \<Rightarrow> gcst \<Rightarrow> gcst result" where
  "transferScanObj_locCopy1_copyCopySync_primarySet cfg primaryGray from s =
     dropResult (genericScan cfg primaryGray 0 0
       (mkScan from noRange noRange True False LocCopy OneSpace Transfer PrimarySet True) s)"

definition scanObj_locCopy1_copyCopySync_replicaSet ::
    "config \<Rightarrow> addr \<Rightarrow> range_t \<Rightarrow> gcst \<Rightarrow> gcst result" where
  "scanObj_locCopy1_copyCopySync_replicaSet cfg replicaGray from s =
     dropResult (genericScan cfg replicaGray 0 0
       (mkScan from noRange noRange True False LocCopy OneSpace NoTransfer ReplicaSet True) s)"

definition scanObj_locCopy1_replicaSet ::
    "config \<Rightarrow> addr \<Rightarrow> range_t \<Rightarrow> gcst \<Rightarrow> gcst result" where
  "scanObj_locCopy1_replicaSet cfg replicaGray from s =
     dropResult (genericScan cfg replicaGray 0 0
       (mkScan from noRange noRange False False LocCopy OneSpace NoTransfer ReplicaSet True) s)"

definition scanObj_locCopy2L_copyCopySync_replicaSet ::
    "config \<Rightarrow> addr \<Rightarrow> range_t \<Rightarrow> range_t \<Rightarrow> range_t \<Rightarrow> gcst \<Rightarrow> gcst result" where
  "scanObj_locCopy2L_copyCopySync_replicaSet cfg replicaGray from from2 large s =
     dropResult (genericScan cfg replicaGray 0 0
       (mkScan from from2 large True False LocCopy TwoSpaceLarge NoTransfer ReplicaSet True) s)"

definition scanObj_locCopy1_noSpaceCheck_copyCopySync_replicaSet ::
    "config \<Rightarrow> addr \<Rightarrow> range_t \<Rightarrow> gcst \<Rightarrow> gcst result" where
  "scanObj_locCopy1_noSpaceCheck_copyCopySync_replicaSet cfg replicaGray from s =
     dropResult (genericScan cfg replicaGray 0 0
       (mkScan from noRange noRange True False LocCopy OneSpace NoTransfer ReplicaSet False) s)"

definition scanObj_locCopy1_noSpaceCheck_replicaSet ::
    "config \<Rightarrow> addr \<Rightarrow> range_t \<Rightarrow> gcst \<Rightarrow> gcst result" where
  "scanObj_locCopy1_noSpaceCheck_replicaSet cfg replicaGray from s =
     dropResult (genericScan cfg replicaGray 0 0
       (mkScan from noRange noRange False False LocCopy OneSpace NoTransfer ReplicaSet False) s)"

definition selfTransferScanObj_locAlloc1_copyCopySync_primarySet ::
    "config \<Rightarrow> addr \<Rightarrow> range_t \<Rightarrow> gcst \<Rightarrow> gcst result" where
  "selfTransferScanObj_locAlloc1_copyCopySync_primarySet cfg primaryGray from s =
     dropResult (genericScan cfg primaryGray 0 0
       (mkScan from noRange noRange True False LocAlloc OneSpace SelfTransfer PrimarySet True) s)"

definition transferScanObj_locCopy2L_copyCopySync_primarySet ::
    "config \<Rightarrow> addr \<Rightarrow> range_t \<Rightarrow> range_t \<Rightarrow> range_t \<Rightarrow> gcst \<Rightarrow> gcst result" where
  "transferScanObj_locCopy2L_copyCopySync_primarySet cfg primaryGray from from2 large s =
     dropResult (genericScan cfg primaryGray 0 0
       (mkScan from from2 large True False LocCopy TwoSpaceLarge Transfer PrimarySet True) s)"

definition transferScanObj_copyWriteSync_locAlloc1_copyCopySync_primarySet ::
    "config \<Rightarrow> addr \<Rightarrow> range_t \<Rightarrow> gcst \<Rightarrow> gcst result" where
  "transferScanObj_copyWriteSync_locAlloc1_copyCopySync_primarySet cfg primaryGray from s =
     dropResult (genericScan cfg primaryGray 0 0
       (mkScan from noRange noRange True True LocAlloc OneSpace Transfer PrimarySet True) s)"

definition backTransferScanObj_copyWriteSync_locAlloc1_copyCopySync_replicaSet ::
    "config \<Rightarrow> addr \<Rightarrow> range_t \<Rightarrow> gcst \<Rightarrow> gcst result" where
  "backTransferScanObj_copyWriteSync_locAlloc1_copyCopySync_replicaSet cfg primaryGray from s =
     dropResult (genericScan cfg primaryGray 0 0
       (mkScan from noRange noRange True True LocAlloc OneSpace BackTransfer ReplicaSet True) s)"

definition backTransferScanObj_copyWriteSync_locAlloc1_copyCopySync ::
    "config \<Rightarrow> addr \<Rightarrow> range_t \<Rightarrow> gcst \<Rightarrow> gcst result" where
  "backTransferScanObj_copyWriteSync_locAlloc1_copyCopySync cfg primaryGray from s =
     dropResult (genericScan cfg primaryGray 0 0
       (mkScan from noRange noRange True True LocAlloc OneSpace BackTransfer NoSet True) s)"

definition transferScanObj_copyWriteSync_locAlloc1L_copyCopySync_primarySet ::
    "config \<Rightarrow> addr \<Rightarrow> range_t \<Rightarrow> range_t \<Rightarrow> gcst \<Rightarrow> gcst result" where
  "transferScanObj_copyWriteSync_locAlloc1L_copyCopySync_primarySet cfg primaryGray from large s =
     dropResult (genericScan cfg primaryGray 0 0
       (mkScan from noRange large True True LocAlloc OneSpaceLarge Transfer PrimarySet True) s)"

definition scanObj_copyWriteSync_locCopy1_copyCopySync_replicaSet ::
    "config \<Rightarrow> addr \<Rightarrow> range_t \<Rightarrow> range_t \<Rightarrow> gcst \<Rightarrow> gcst result" where
  "scanObj_copyWriteSync_locCopy1_copyCopySync_replicaSet cfg replicaGray from large s =
     dropResult (genericScan cfg replicaGray 0 0
       (mkScan from noRange large True True LocCopy OneSpaceLarge NoTransfer ReplicaSet True) s)"

definition transferScanSegment_copyWriteSync_locAlloc1_copyCopySync_primarySet ::
    "config \<Rightarrow> addr \<Rightarrow> nat \<Rightarrow> nat \<Rightarrow> range_t \<Rightarrow> gcst \<Rightarrow> gcst result" where
  "transferScanSegment_copyWriteSync_locAlloc1_copyCopySync_primarySet cfg primaryGray start end from s =
     dropResult (genericScan cfg primaryGray start end
       (mkScan from noRange noRange True True LocAlloc OneSpace Transfer PrimarySet True) s)"

definition transferScanSegment_copyWriteSync_locAlloc1_copyCopySync ::
    "config \<Rightarrow> addr \<Rightarrow> nat \<Rightarrow> nat \<Rightarrow> range_t \<Rightarrow> gcst \<Rightarrow> gcst result" where
  "transferScanSegment_copyWriteSync_locAlloc1_copyCopySync cfg primaryGray start end from s =
     dropResult (genericScan cfg primaryGray start end
       (mkScan from noRange noRange True True LocAlloc OneSpace Transfer NoSet True) s)"

definition transferScanSegment_copyWriteSync_locAlloc1_copyCopySync_replicaSet ::
    "config \<Rightarrow> addr \<Rightarrow> nat \<Rightarrow> nat \<Rightarrow> range_t \<Rightarrow> gcst \<Rightarrow> gcst result" where
  "transferScanSegment_copyWriteSync_locAlloc1_copyCopySync_replicaSet cfg primaryGray start end from s =
     dropResult (genericScan cfg primaryGray start end
       (mkScan from noRange noRange True True LocAlloc OneSpace Transfer ReplicaSet True) s)"

definition selfTransferScanSegment_copyWriteSync_locAlloc1_copyCopySync_primarySet ::
    "config \<Rightarrow> addr \<Rightarrow> nat \<Rightarrow> nat \<Rightarrow> range_t \<Rightarrow> gcst \<Rightarrow> gcst result" where
  "selfTransferScanSegment_copyWriteSync_locAlloc1_copyCopySync_primarySet cfg primaryGray start end from s =
     dropResult (genericScan cfg primaryGray start end
       (mkScan from noRange noRange True True LocAlloc OneSpace SelfTransfer PrimarySet True) s)"

definition transferScanSegment_copyWriteSync_locAlloc1L_copyCopySync_primarySet ::
    "config \<Rightarrow> addr \<Rightarrow> nat \<Rightarrow> nat \<Rightarrow> range_t \<Rightarrow> range_t \<Rightarrow> gcst \<Rightarrow> gcst result" where
  "transferScanSegment_copyWriteSync_locAlloc1L_copyCopySync_primarySet cfg primaryGray start end from large s =
     dropResult (genericScan cfg primaryGray start end
       (mkScan from noRange large True True LocAlloc OneSpace Transfer PrimarySet True) s)"

definition selfTransferScanSegment_copyWriteSync_locAlloc1L_copyCopySync_primarySet ::
    "config \<Rightarrow> addr \<Rightarrow> nat \<Rightarrow> nat \<Rightarrow> range_t \<Rightarrow> range_t \<Rightarrow> gcst \<Rightarrow> gcst result" where
  "selfTransferScanSegment_copyWriteSync_locAlloc1L_copyCopySync_primarySet cfg primaryGray start end from large s =
     dropResult (genericScan cfg primaryGray start end
       (mkScan from noRange large True True LocAlloc OneSpace SelfTransfer PrimarySet True) s)"
fun skipSegTags :: "nat \<Rightarrow> memory \<Rightarrow> addr \<Rightarrow> val \<Rightarrow> addr result" where
  \<comment> \<open>\<open>while (tag is a segment tag) tag = *(replicaGray++)\<close>\<close>
  "skipSegTags 0 m gray tag = Inl OutOfFuel"
| "skipSegTags (Suc n) m gray tag =
     (if tag = SEGPROCEED_TAG \<or> tag = SEGSTALL_TAG then skipSegTags n m (gray + 4) (m gray) else Inr gray)"

definition backTransferScanTag_copyWriteSync_locAlloc1_copyCopySync ::
    "nat \<Rightarrow> config \<Rightarrow> addr \<Rightarrow> range_t \<Rightarrow> gcst \<Rightarrow> (addr \<times> gcst) result" where
  "backTransferScanTag_copyWriteSync_locAlloc1_copyCopySync fuel cfg start from s =
     bindE (skipSegTags fuel (mem s) (start + 4) (mem s start)) (\<lambda>replicaGray.
     genericScan cfg replicaGray 0 0
       (mkScan from noRange noRange True True LocAlloc OneSpace BackTransfer NoSet True) s)"

definition scanObj_locCopy1_noSpaceCheck :: "config \<Rightarrow> addr \<Rightarrow> range_t \<Rightarrow> gcst \<Rightarrow> gcst result" where
  "scanObj_locCopy1_noSpaceCheck cfg obj from s =
     dropResult (scanTag_locCopy1_noSpaceCheck cfg (obj - 4) from s)"

definition scanObj_locCopy1 :: "config \<Rightarrow> addr \<Rightarrow> range_t \<Rightarrow> gcst \<Rightarrow> gcst result" where
  "scanObj_locCopy1 cfg obj from s = dropResult (scanTag_locCopy1 cfg (obj - 4) from s)"

subsection \<open>Scanning areas\<close>

fun scanLoop ::
    "nat \<Rightarrow> (addr \<Rightarrow> gcst \<Rightarrow> (addr \<times> gcst) result) \<Rightarrow> (gcst \<Rightarrow> addr) \<Rightarrow> addr \<Rightarrow> gcst \<Rightarrow> (addr \<times> gcst) result" where
  \<comment> \<open>\<open>while (cur < stop) cur = scanTag(cur)\<close>, where scanning may move \<open>stop\<close>\<close>
  "scanLoop 0 scanTag stop cur s = (if cur < stop s then Inl OutOfFuel else Inr (cur, s))"
| "scanLoop (Suc n) scanTag stop cur s =
     (if cur < stop s
      then bindE (scanTag cur s) (\<lambda>(cur, s). scanLoop n scanTag stop cur s)
      else Inr (cur, s))"

definition scanArea ::
    "nat \<Rightarrow> (addr \<Rightarrow> gcst \<Rightarrow> (addr \<times> gcst) result) \<Rightarrow> (gcst \<Rightarrow> addr) \<Rightarrow> addr \<Rightarrow> gcst \<Rightarrow> gcst result" where
  "scanArea fuel scanTag stop start s =
     bindE (scanLoop fuel scanTag stop start s) (\<lambda>(cur, s).
     bindE (assertE (cur = stop s) ''cur == stop'') (\<lambda>_. Inr s))"

definition scanUntil_locCopy1_noSpaceCheck :: "nat \<Rightarrow> config \<Rightarrow> addr \<Rightarrow> range_t \<Rightarrow> gcst \<Rightarrow> gcst result" where
  "scanUntil_locCopy1_noSpaceCheck fuel cfg start from s =
     scanArea fuel (\<lambda>cur. scanTag_locCopy1_noSpaceCheck cfg cur from) (\<lambda>s. crCursor (copyRg s)) start s"

definition scanUntil_locCopy1 :: "nat \<Rightarrow> config \<Rightarrow> addr \<Rightarrow> range_t \<Rightarrow> gcst \<Rightarrow> gcst result" where
  "scanUntil_locCopy1 fuel cfg start from s =
     scanArea fuel (\<lambda>cur. scanTag_locCopy1 cfg cur from) (\<lambda>s. crCursor (copyRg s)) start s"

definition scanRegion_locCopy1 :: "nat \<Rightarrow> config \<Rightarrow> addr \<Rightarrow> addr \<Rightarrow> range_t \<Rightarrow> gcst \<Rightarrow> gcst result" where
  "scanRegion_locCopy1 fuel cfg start stop from s =
     scanArea fuel (\<lambda>cur. scanTag_locCopy1 cfg cur from) (\<lambda>_. stop) start s"

definition scanRegion_locCopy1_replicaSet ::
    "nat \<Rightarrow> config \<Rightarrow> addr \<Rightarrow> addr \<Rightarrow> range_t \<Rightarrow> gcst \<Rightarrow> gcst result" where
  "scanRegion_locCopy1_replicaSet fuel cfg start stop from s =
     scanArea fuel (\<lambda>cur. scanTag_locCopy1_replicaSet cfg cur from) (\<lambda>_. stop) start s"

definition scanRegion_locCopy1_copyCopySync ::
    "nat \<Rightarrow> config \<Rightarrow> addr \<Rightarrow> addr \<Rightarrow> range_t \<Rightarrow> gcst \<Rightarrow> gcst result" where
  "scanRegion_locCopy1_copyCopySync fuel cfg start stop from s =
     scanArea fuel (\<lambda>cur. scanTag_locCopy1_copyCopySync cfg cur from) (\<lambda>_. stop) start s"

definition scanUntil_locCopy2L_noSpaceCheck ::
    "nat \<Rightarrow> config \<Rightarrow> addr \<Rightarrow> range_t \<Rightarrow> range_t \<Rightarrow> range_t \<Rightarrow> gcst \<Rightarrow> gcst result" where
  "scanUntil_locCopy2L_noSpaceCheck fuel cfg start from from2 large s =
     scanArea fuel (\<lambda>cur. scanTag_locCopy2L_noSpaceCheck cfg cur from from2 large)
       (\<lambda>s. crCursor (copyRg s)) start s"

definition backTransferScanRegion_copyWriteSync_locAlloc1_copyCopySync ::
    "nat \<Rightarrow> config \<Rightarrow> addr \<Rightarrow> addr \<Rightarrow> range_t \<Rightarrow> gcst \<Rightarrow> gcst result" where
  "backTransferScanRegion_copyWriteSync_locAlloc1_copyCopySync fuel cfg start stop from s =
     scanArea fuel (\<lambda>cur. backTransferScanTag_copyWriteSync_locAlloc1_copyCopySync fuel cfg cur from)
       (\<lambda>_. stop) start s"

end
