(* ===== verification/Cheney.thy ===== *)
theory Cheney
  imports Scan
begin

text \<open>
  Correctness of the uniprocessor copying collection (\<open>locCopy1_noSpaceCheck\<close> on the roots, then
  \<open>scanUntil_locCopy1_noSpaceCheck\<close>, as in \<open>GCCollect_Semi\<close> and in the minor collections of
  \<open>GCCollect_Gen\<close>) with unsegmented arrays.  The abstract view: the objects of the source space
  with their fields form a graph in the memory \<open>m0\<close> at the start; to-space is a sequence of tiles,
  each the copy of an object or a one-word skip, whose order alone determines where every copy is
  (\<open>layout\<close>, \<open>place\<close>).  The invariant \<open>cinv\<close> relates the memory to the tiles and to the number of
  fields of each copy scanned so far.
\<close>

subsection \<open>Objects of the source space\<close>

definition otag :: "memory \<Rightarrow> addr \<Rightarrow> val" where
  "otag m x = m (x - 4)"

definition olen :: "memory \<Rightarrow> addr \<Rightarrow> nat" where
  \<comment> \<open>the number of words after the tag\<close>
  "olen m x = (if GET_TYPE (otag m x) = RECORD_TYPE then unat (GET_RECLEN (otag m x))
               else RoundUp (unat (GET_ANY_ARRAY_LEN (otag m x))) 4 div 4)"

definition is_ptr :: "memory \<Rightarrow> addr \<Rightarrow> nat \<Rightarrow> bool" where
  "is_ptr m x i \<longleftrightarrow> (if GET_TYPE (otag m x) = RECORD_TYPE then bit (GET_RECMASK (otag m x)) i
                    else GET_TYPE (otag m x) = PTR_ARRAY_TYPE)"

definition osize :: "memory \<Rightarrow> addr \<Rightarrow> nat" where
  \<comment> \<open>the words an object may take in to-space: tag, fields and for a double array the skip word
     that aligns it\<close>
  "osize m x = 1 + olen m x + (if GET_TYPE (otag m x) = QUAD_ARRAY_TYPE then 1 else 0)"

record env =
  m0 :: memory          \<comment> \<open>memory when the collection starts\<close>
  src :: range_t        \<comment> \<open>the source space\<close>
  cobjs :: "addr set"   \<comment> \<open>the objects in it\<close>
  tbase :: addr         \<comment> \<open>where copies start\<close>
  tlimit :: addr        \<comment> \<open>and the end of to-space\<close>

definition env_ok :: "env \<Rightarrow> bool" where
  "env_ok E \<longleftrightarrow>
     range_ok (src E) \<and> finite (cobjs E) \<and> 0 < tbase E \<and> 4 dvd tbase E \<and> tlimit E < 2 ^ 32 \<and>
     (tlimit E < low (src E) \<or> high (src E) \<le> tbase E) \<and>
     (\<forall>x \<in> cobjs E. low (src E) + 4 \<le> x \<and> x + 4 * olen (m0 E) x \<le> high (src E) \<and>
        \<not> TAG_IS_FORWARD (otag (m0 E) x) \<and>
        GET_TYPE (otag (m0 E) x) \<in> {RECORD_TYPE, WORD_ARRAY_TYPE, QUAD_ARRAY_TYPE, PTR_ARRAY_TYPE} \<and>
        (GET_TYPE (otag (m0 E) x) \<in> {QUAD_ARRAY_TYPE, PTR_ARRAY_TYPE} \<longrightarrow>
           unat (GET_ANY_ARRAY_LEN (otag (m0 E) x)) mod 4 = 0) \<and>
        (\<forall>i < olen (m0 E) x. is_ptr (m0 E) x i \<longrightarrow> InRange (unat (m0 E (x + 4 * i))) (src E) \<longrightarrow>
           unat (m0 E (x + 4 * i)) \<in> cobjs E)) \<and>
     (\<forall>x \<in> cobjs E. \<forall>y \<in> cobjs E. x \<noteq> y \<longrightarrow>
        x + 4 * olen (m0 E) x \<le> y - 4 \<or> y + 4 * olen (m0 E) y \<le> x - 4)"

lemma env_okD:
  assumes "env_ok E"
  shows env_range: "range_ok (src E)" and env_finite: "finite (cobjs E)" and env_base: "0 < tbase E" "4 dvd tbase E"
    and env_limit: "tlimit E < 2 ^ 32" and env_sides: "tlimit E < low (src E) \<or> high (src E) \<le> tbase E"
  using assms by (auto simp: env_ok_def)

lemma env_objD:
  assumes "env_ok E" and "x \<in> cobjs E"
  shows obj_low: "low (src E) + 4 \<le> x" and obj_high: "x + 4 * olen (m0 E) x \<le> high (src E)"
    and obj_tag: "\<not> TAG_IS_FORWARD (otag (m0 E) x)"
    and obj_type: "GET_TYPE (otag (m0 E) x) \<in> {RECORD_TYPE, WORD_ARRAY_TYPE, QUAD_ARRAY_TYPE, PTR_ARRAY_TYPE}"
    and obj_len4: "GET_TYPE (otag (m0 E) x) \<in> {QUAD_ARRAY_TYPE, PTR_ARRAY_TYPE} \<Longrightarrow>
      unat (GET_ANY_ARRAY_LEN (otag (m0 E) x)) mod 4 = 0"
    and obj_closed: "i < olen (m0 E) x \<Longrightarrow> is_ptr (m0 E) x i \<Longrightarrow>
      InRange (unat (m0 E (x + 4 * i))) (src E) \<Longrightarrow> unat (m0 E (x + 4 * i)) \<in> cobjs E"
    and obj_apart: "y \<in> cobjs E \<Longrightarrow> x \<noteq> y \<Longrightarrow>
      x + 4 * olen (m0 E) x \<le> y - 4 \<or> y + 4 * olen (m0 E) y \<le> x - 4"
  using assms by (auto simp: env_ok_def)

subsection \<open>Tiles and their layout\<close>

definition tlen :: "memory \<Rightarrow> addr option \<Rightarrow> nat" where
  "tlen m t = (case t of None \<Rightarrow> 1 | Some x \<Rightarrow> 1 + olen m x)"

fun layout :: "memory \<Rightarrow> addr \<Rightarrow> addr option list \<Rightarrow> (addr \<times> addr option) list" where
  "layout m a [] = []"
| "layout m a (t # ts) = (a, t) # layout m (a + 4 * tlen m t) ts"

fun lend :: "memory \<Rightarrow> addr \<Rightarrow> addr option list \<Rightarrow> addr" where
  "lend m a [] = a"
| "lend m a (t # ts) = lend m (a + 4 * tlen m t) ts"

fun place :: "memory \<Rightarrow> addr \<Rightarrow> addr option list \<Rightarrow> addr \<Rightarrow> addr" where
  \<comment> \<open>the address of the copy of \<open>x\<close> (0 if there is none)\<close>
  "place m a [] x = 0"
| "place m a (t # ts) x = (if t = Some x then a + 4 else place m (a + 4 * tlen m t) ts x)"

lemma tlen_pos [simp]: "0 < tlen m t"
  by (simp add: tlen_def split: option.splits)

lemma layout_append: "layout m a (ts @ us) = layout m a ts @ layout m (lend m a ts) us"
  by (induction ts arbitrary: a) auto

lemma lend_append [simp]: "lend m a (ts @ us) = lend m (lend m a ts) us"
  by (induction ts arbitrary: a) auto

lemma lend_ge: "a \<le> lend m a ts"
proof (induction ts arbitrary: a)
  case (Cons t ts)
  have "a \<le> a + 4 * tlen m t"
    by simp
  also have "\<dots> \<le> lend m (a + 4 * tlen m t) ts"
    by (rule Cons)
  finally show ?case
    by simp
qed simp

lemma lend_Cons_ge: "a + 4 \<le> lend m a (t # us)"
proof -
  have "1 \<le> tlen m t"
    using tlen_pos [of m t] by linarith
  then show ?thesis
    using lend_ge [of "a + 4 * tlen m t" m us] by simp
qed

lemma lend_dvd: "4 dvd a \<Longrightarrow> 4 dvd lend m a ts"
  by (induction ts arbitrary: a) auto

lemma layout_bounds:
  "(p, t) \<in> set (layout m a ts) \<Longrightarrow> a \<le> p \<and> p + 4 * tlen m t \<le> lend m a ts"
proof (induction ts arbitrary: a)
  case (Cons u us)
  then show ?case
    using lend_ge [of "a + 4 * tlen m u" m us] by fastforce
qed simp

lemma layout_tile: "(p, t) \<in> set (layout m a ts) \<Longrightarrow> t \<in> set ts"
  by (induction ts arbitrary: a) auto

lemma layout_dvd: "(p, t) \<in> set (layout m a ts) \<Longrightarrow> 4 dvd a \<Longrightarrow> 4 dvd p"
proof (induction ts arbitrary: a)
  case (Cons u us)
  then show ?case by fastforce
qed simp

lemma layout_apart:
  "(p, t) \<in> set (layout m a ts) \<Longrightarrow> (q, u) \<in> set (layout m a ts) \<Longrightarrow>
   (p, t) = (q, u) \<or> p + 4 * tlen m t \<le> q \<or> q + 4 * tlen m u \<le> p"
proof (induction ts arbitrary: a)
  case (Cons v vs)
  then show ?case
    using layout_bounds [of p t m "a + 4 * tlen m v" vs] layout_bounds [of q u m "a + 4 * tlen m v" vs]
    by auto
qed simp

lemma place_append:
  "place m a (ts @ us) x = (if Some x \<in> set ts then place m a ts x else place m (lend m a ts) us x)"
  by (induction ts arbitrary: a) auto

lemma place_layout:
  "Some x \<in> set ts \<Longrightarrow> \<exists>p. (p, Some x) \<in> set (layout m a ts) \<and> place m a ts x = p + 4"
proof (induction ts arbitrary: a)
  case (Cons t ts)
  then show ?case
    by (cases "t = Some x") fastforce+
qed simp

lemma layout_place:
  "(p, Some x) \<in> set (layout m a ts) \<Longrightarrow> distinct (filter (\<lambda>t. t \<noteq> None) ts) \<Longrightarrow> place m a ts x = p + 4"
proof (induction ts arbitrary: a)
  case (Cons t ts)
  then show ?case
    using layout_tile [of p "Some x" m "a + 4 * tlen m t" ts] by (auto split: if_splits)
qed simp

lemma place_bounds:
  assumes "Some x \<in> set ts"
  shows "a + 4 \<le> place m a ts x" "place m a ts x + 4 * olen m x \<le> lend m a ts"
proof -
  obtain p where p: "(p, Some x) \<in> set (layout m a ts)" "place m a ts x = p + 4"
    using place_layout [OF assms] by blast
  show "a + 4 \<le> place m a ts x" "place m a ts x + 4 * olen m x \<le> lend m a ts"
    using layout_bounds [OF p(1)] p(2) by (simp_all add: tlen_def)
qed

lemma place_apart:
  assumes "Some x \<in> set ts" "Some y \<in> set ts" "x \<noteq> y"
  shows "place m a ts x + 4 * olen m x \<le> place m a ts y - 4 \<or> place m a ts y + 4 * olen m y \<le> place m a ts x - 4"
proof -
  obtain p q where "(p, Some x) \<in> set (layout m a ts)" "place m a ts x = p + 4"
    "(q, Some y) \<in> set (layout m a ts)" "place m a ts y = q + 4"
    using place_layout assms by metis
  then show ?thesis
    using layout_apart [of p "Some x" m a ts q "Some y"] assms(3) by (auto simp: tlen_def)
qed

lemma place_inj:
  "Some x \<in> set ts \<Longrightarrow> Some y \<in> set ts \<Longrightarrow> place m a ts x = place m a ts y \<Longrightarrow> x = y"
  using place_apart [of x ts y m a] place_bounds(1) [of x ts a m] by fastforce

subsection \<open>The invariant\<close>

definition copied :: "addr option list \<Rightarrow> addr set" where
  "copied ts = {x. Some x \<in> set ts}"

definition phi :: "env \<Rightarrow> addr option list \<Rightarrow> addr \<Rightarrow> addr" where
  "phi E ts x = place (m0 E) (tbase E) ts x"

definition fwd :: "env \<Rightarrow> addr option list \<Rightarrow> val \<Rightarrow> val" where
  \<comment> \<open>what a pointer into the source space becomes\<close>
  "fwd E ts v = (if InRange (unat v) (src E) then word_of_nat (phi E ts (unat v)) else v)"

definition fval :: "env \<Rightarrow> addr option list \<Rightarrow> addr \<Rightarrow> nat \<Rightarrow> val" where
  \<comment> \<open>field \<open>i\<close> of the copy of \<open>x\<close>\<close>
  "fval E ts x i = (if is_ptr (m0 E) x i then fwd E ts (m0 E (x + 4 * i)) else m0 E (x + 4 * i))"

definition target_copied :: "env \<Rightarrow> addr option list \<Rightarrow> addr \<Rightarrow> nat \<Rightarrow> bool" where
  "target_copied E ts x i \<longleftrightarrow>
     (is_ptr (m0 E) x i \<longrightarrow> InRange (unat (m0 E (x + 4 * i))) (src E) \<longrightarrow>
      unat (m0 E (x + 4 * i)) \<in> copied ts)"

definition tiles_ok :: "env \<Rightarrow> (addr \<Rightarrow> nat) \<Rightarrow> addr option list \<Rightarrow> memory \<Rightarrow> bool" where
  "tiles_ok E g ts m \<longleftrightarrow>
     (\<forall>x \<in> copied ts. m (phi E ts x - 4) = otag (m0 E) x \<and>
        (\<forall>i < olen (m0 E) x. m (phi E ts x + 4 * i) = (if i < g x then fval E ts x i else m0 E (x + 4 * i)))) \<and>
     (\<forall>p. (p, None) \<in> set (layout (m0 E) (tbase E) ts) \<longrightarrow> m p = MAKE_SKIP 1)"

definition source_ok :: "env \<Rightarrow> addr option list \<Rightarrow> memory \<Rightarrow> bool" where
  "source_ok E ts m \<longleftrightarrow>
     (\<forall>x \<in> cobjs E. m (x - 4) = (if x \<in> copied ts then word_of_nat (phi E ts x) else otag (m0 E) x) \<and>
        (\<forall>i < olen (m0 E) x. m (x + 4 * i) = m0 E (x + 4 * i)))"

definition space_ok :: "env \<Rightarrow> addr option list \<Rightarrow> bool" where
  "space_ok E ts \<longleftrightarrow>
     lend (m0 E) (tbase E) ts + 4 * (\<Sum>x \<in> cobjs E - copied ts. osize (m0 E) x) \<le> tlimit E"

definition cinv :: "env \<Rightarrow> (addr \<Rightarrow> nat) \<Rightarrow> addr option list \<Rightarrow> memory \<Rightarrow> addr \<Rightarrow> bool" where
  "cinv E g ts m c \<longleftrightarrow>
     distinct (filter (\<lambda>t. t \<noteq> None) ts) \<and> copied ts \<subseteq> cobjs E \<and> c = lend (m0 E) (tbase E) ts \<and>
     space_ok E ts \<and> tiles_ok E g ts m \<and> source_ok E ts m \<and>
     (\<forall>x. x \<notin> copied ts \<longrightarrow> g x = 0) \<and>
     (\<forall>x \<in> copied ts. \<forall>i < g x. i < olen (m0 E) x \<longrightarrow> target_copied E ts x i)"

lemma cinvD:
  assumes "cinv E g ts m c"
  shows cinv_distinct: "distinct (filter (\<lambda>t. t \<noteq> None) ts)" and cinv_copied: "copied ts \<subseteq> cobjs E"
    and cinv_end: "c = lend (m0 E) (tbase E) ts" and cinv_space: "space_ok E ts"
    and cinv_tiles: "tiles_ok E g ts m" and cinv_source: "source_ok E ts m"
    and cinv_unscanned: "x \<notin> copied ts \<Longrightarrow> g x = 0"
    and cinv_closed: "x \<in> copied ts \<Longrightarrow> i < g x \<Longrightarrow> i < olen (m0 E) x \<Longrightarrow> target_copied E ts x i"
  using assms by (auto simp: cinv_def)

lemma lend_limit: "space_ok E ts \<Longrightarrow> lend (m0 E) (tbase E) ts \<le> tlimit E"
  by (simp add: space_ok_def)

lemma phi_bounds:
  assumes E: "env_ok E" and space: "space_ok E ts" and "x \<in> copied ts"
  shows "tbase E + 4 \<le> phi E ts x" "phi E ts x + 4 * olen (m0 E) x \<le> lend (m0 E) (tbase E) ts"
    "phi E ts x + 4 * olen (m0 E) x \<le> tlimit E" "phi E ts x < 2 ^ 32" "4 dvd phi E ts x"
    "\<not> InRange (phi E ts x) (src E)"
proof -
  have x: "Some x \<in> set ts"
    using assms(3) by (simp add: copied_def)
  show b: "tbase E + 4 \<le> phi E ts x" "phi E ts x + 4 * olen (m0 E) x \<le> lend (m0 E) (tbase E) ts"
    using place_bounds [OF x] by (simp_all add: phi_def)
  then show l: "phi E ts x + 4 * olen (m0 E) x \<le> tlimit E"
    using lend_limit [OF space] by linarith
  then show w: "phi E ts x < 2 ^ 32"
    using env_limit [OF E] by linarith
  obtain p where "(p, Some x) \<in> set (layout (m0 E) (tbase E) ts)" "phi E ts x = p + 4"
    using place_layout [OF x] unfolding phi_def by blast
  then show "4 dvd phi E ts x"
    using layout_dvd env_base(2) [OF E] by simp
  show "\<not> InRange (phi E ts x) (src E)"
    using env_sides [OF E] b(1) l by (auto simp: InRange_iff [OF env_range [OF E] w])
qed

lemma to_apart_from:
  \<comment> \<open>no address of an object of the source space lies in to-space\<close>
  assumes E: "env_ok E" and "x \<in> cobjs E" and "tbase E \<le> a" "a < tlimit E"
  shows "a \<noteq> x - 4" "i < olen (m0 E) x \<Longrightarrow> a \<noteq> x + 4 * i"
  using env_sides [OF E] obj_low [OF E assms(2)] obj_high [OF E assms(2)] assms(3,4) by auto

subsection \<open>Scanning one field\<close>

lemma copied_simps [simp]:
  "copied [] = {}" "copied (None # ts) = copied ts" "copied (Some x # ts) = insert x (copied ts)"
  "copied (ts @ us) = copied ts \<union> copied us"
  by (auto simp: copied_def)

lemma cinv_unscanned_field:
  assumes "cinv E g ts m c" and "x \<in> copied ts" "g x \<le> i" "i < olen (m0 E) x"
  shows "m (phi E ts x + 4 * i) = m0 E (x + 4 * i)"
  using cinv_tiles [OF assms(1)] assms(2-) by (simp add: tiles_ok_def)

lemma phi_apart:
  assumes "x \<in> copied ts" "y \<in> copied ts" "x \<noteq> y"
  shows "phi E ts x + 4 * olen (m0 E) x \<le> phi E ts y - 4 \<or> phi E ts y + 4 * olen (m0 E) y \<le> phi E ts x - 4"
  using assms place_apart [of x ts y "m0 E" "tbase E"] by (simp add: copied_def phi_def)

lemma skip_apart:
  assumes "(p, None) \<in> set (layout (m0 E) (tbase E) ts)" and "x \<in> copied ts"
  shows "p + 4 \<le> phi E ts x - 4 \<or> phi E ts x + 4 * olen (m0 E) x \<le> p"
proof -
  obtain q where "(q, Some x) \<in> set (layout (m0 E) (tbase E) ts)" "phi E ts x = q + 4"
    using place_layout [of x ts "m0 E" "tbase E"] assms(2) unfolding phi_def copied_def by blast
  then show ?thesis
    using layout_apart [OF assms(1), of q "Some x"] by (auto simp: tlen_def)
qed

lemma cinv_scan_field:
  assumes E: "env_ok E" and inv: "cinv E g ts m c" and x: "x \<in> copied ts"
    and i: "g x = i" "i < olen (m0 E) x" and tgt: "target_copied E ts x i"
  shows "cinv E (g(x := Suc i)) ts (m(phi E ts x + 4 * i := fval E ts x i)) c"
proof -
  let ?m = "m(phi E ts x + 4 * i := fval E ts x i)"
  note b = phi_bounds [OF E cinv_space [OF inv]]
  have to: "tbase E \<le> phi E ts x + 4 * i" "phi E ts x + 4 * i < tlimit E"
    using b(1,3) [OF x] i by linarith+
  have src: "source_ok E ts ?m"
    using cinv_source [OF inv] to_apart_from [OF E _ to] unfolding source_ok_def by (metis fun_upd_apply)
  have other: "?m (phi E ts y - 4) = m (phi E ts y - 4)" if "y \<in> copied ts" for y
  proof (cases "y = x")
    case True
    then show ?thesis using b(1) [OF x] by auto
  next
    case False
    then show ?thesis
      using phi_apart [OF x that, of E] b(1) [OF x] b(1) [OF that] i(2) by auto
  qed
  have fields: "?m (phi E ts y + 4 * j) =
      (if j < (g(x := Suc i)) y then fval E ts y j else m0 E (y + 4 * j))"
    if y: "y \<in> copied ts" and j: "j < olen (m0 E) y" for y j
  proof (cases "y = x")
    case True
    then show ?thesis
      using cinv_tiles [OF inv] x i j by (auto simp: tiles_ok_def less_Suc_eq)
  next
    case False
    then have "phi E ts y + 4 * j \<noteq> phi E ts x + 4 * i"
      using phi_apart [OF x y, of E] b(1) [OF x] b(1) [OF y] i(2) j by auto
    then show ?thesis
      using cinv_tiles [OF inv] y j False by (simp add: tiles_ok_def)
  qed
  have skips: "?m p = MAKE_SKIP 1" if "(p, None) \<in> set (layout (m0 E) (tbase E) ts)" for p
    using skip_apart [OF that x] that cinv_tiles [OF inv] b(1) [OF x] i(2) by (auto simp: tiles_ok_def)
  have "tiles_ok E (g(x := Suc i)) ts ?m"
    using other fields skips cinv_tiles [OF inv] unfolding tiles_ok_def by simp
  moreover have "target_copied E ts y j"
    if "y \<in> copied ts" "j < (g(x := Suc i)) y" "j < olen (m0 E) y" for y j
    using that cinv_closed [OF inv] i tgt by (cases "y = x") (auto simp: less_Suc_eq)
  ultimately show ?thesis
    using inv src x unfolding cinv_def by auto
qed

subsection \<open>A new copy at the end of to-space\<close>

lemma cinv_extend:
  assumes E: "env_ok E" and inv: "cinv E g ts m c" and v: "v \<in> cobjs E" "v \<notin> copied ts"
    and pads: "pads = [] \<or> pads = [None] \<and> GET_TYPE (otag (m0 E) v) = QUAD_ARRAY_TYPE"
    and r: "r = c + 4 * length pads"
    and outside: "\<And>a. \<not> (c \<le> a \<and> a < r + 4 + 4 * olen (m0 E) v) \<Longrightarrow> a \<noteq> v - 4 \<Longrightarrow> m' a = m a"
    and skip: "pads \<noteq> [] \<Longrightarrow> m' c = MAKE_SKIP 1"
    and tag: "m' r = otag (m0 E) v" and fw: "m' (v - 4) = word_of_nat (r + 4)"
    and fields: "\<And>i. i < olen (m0 E) v \<Longrightarrow> m' (r + 4 + 4 * i) = m0 E (v + 4 * i)"
    and ts': "ts' = ts @ pads @ [Some v]"
  shows "cinv E g ts' m' (r + 4 + 4 * olen (m0 E) v)" "phi E ts' v = r + 4"
    "\<And>x. x \<in> copied ts \<Longrightarrow> phi E ts' x = phi E ts x"
proof -
  let ?n = "olen (m0 E) v"
  have c: "lend (m0 E) (tbase E) ts = c"
    using cinv_end [OF inv] by simp
  have ts'_c: "copied ts' = insert v (copied ts)"
    using pads by (auto simp: ts')
  have phi_v: "phi E ts' v = r + 4"
    using v(2) pads c by (auto simp: phi_def ts' place_append copied_def r tlen_def)
  have phi_old: "phi E ts' x = phi E ts x" if "x \<in> copied ts" for x
    using that by (simp add: phi_def ts' place_append copied_def)
  have lend': "lend (m0 E) (tbase E) ts' = r + 4 + 4 * ?n"
    using pads c by (auto simp: ts' r tlen_def)
  have split: "cobjs E - copied ts = insert v (cobjs E - copied ts')"
    using v ts'_c by auto
  have "(\<Sum>x \<in> cobjs E - copied ts. osize (m0 E) x) = osize (m0 E) v + (\<Sum>x \<in> cobjs E - copied ts'. osize (m0 E) x)"
    unfolding split using env_finite [OF E] ts'_c by (subst sum.insert) auto
  moreover have "1 + ?n + length pads \<le> osize (m0 E) v"
    using pads by (auto simp: osize_def)
  ultimately have space': "space_ok E ts'"
    using cinv_space [OF inv] unfolding space_ok_def lend' c r by (simp add: algebra_simps)
  then have limit: "r + 4 + 4 * ?n \<le> tlimit E"
    using lend_limit lend' by metis
  have base: "tbase E \<le> c"
    using lend_ge [of "tbase E" "m0 E" ts] c by simp
  have old_to: "m' a = m a" if "tbase E \<le> a" "a < c" for a
    using outside [of a] to_apart_from(1) [OF E v(1), of a] that limit r by auto
  have old_from: "m' (y - 4) = m (y - 4)" "i < olen (m0 E) y \<Longrightarrow> m' (y + 4 * i) = m (y + 4 * i)"
    if y: "y \<in> cobjs E" "y \<noteq> v" for y i
  proof -
    have "y - 4 \<noteq> v - 4"
      using y obj_low [OF E y(1)] obj_low [OF E v(1)] by auto
    moreover have "\<not> (c \<le> y - 4 \<and> y - 4 < r + 4 + 4 * ?n)"
      using to_apart_from(1) [OF E y(1), of "y - 4"] base limit by auto
    ultimately show "m' (y - 4) = m (y - 4)"
      using outside by blast
    assume i: "i < olen (m0 E) y"
    have "y + 4 * i \<noteq> v - 4"
      using obj_apart [OF E y(1) v(1) y(2)] i obj_low [OF E y(1)] obj_low [OF E v(1)] by auto
    moreover have "\<not> (c \<le> y + 4 * i \<and> y + 4 * i < r + 4 + 4 * ?n)"
      using to_apart_from(2) [OF E y(1), of "y + 4 * i" i] base limit i by auto
    ultimately show "m' (y + 4 * i) = m (y + 4 * i)"
      using outside by blast
  qed
  have old_v: "m' (v + 4 * i) = m (v + 4 * i)" if "i < ?n" for i
  proof (rule outside)
    show "v + 4 * i \<noteq> v - 4"
      using obj_low [OF E v(1)] by simp
    show "\<not> (c \<le> v + 4 * i \<and> v + 4 * i < r + 4 + 4 * ?n)"
      using to_apart_from(2) [OF E v(1), of "v + 4 * i" i] that base limit by auto
  qed
  have src: "source_ok E ts' m'"
    unfolding source_ok_def
  proof (intro ballI conjI allI impI)
    fix x assume x: "x \<in> cobjs E"
    show "m' (x - 4) = (if x \<in> copied ts' then word_of_nat (phi E ts' x) else otag (m0 E) x)"
      using cinv_source [OF inv] x fw phi_v phi_old old_from(1) [OF x] ts'_c
      by (cases "x = v") (auto simp: source_ok_def)
    fix i assume "i < olen (m0 E) x"
    then show "m' (x + 4 * i) = m0 E (x + 4 * i)"
      using cinv_source [OF inv] x old_from(2) [OF x] old_v by (cases "x = v") (auto simp: source_ok_def)
  qed
  have fval_old: "fval E ts' x i = fval E ts x i" if "target_copied E ts x i" for x i
    using that phi_old by (auto simp: fval_def fwd_def target_copied_def)
  have tiles: "tiles_ok E g ts' m'"
    unfolding tiles_ok_def
  proof (intro ballI conjI allI impI)
    fix x assume "x \<in> copied ts'"
    then consider (new) "x = v" | (old) "x \<in> copied ts" "x \<noteq> v"
      using ts'_c v(2) by auto
    note xs = this
    show "m' (phi E ts' x - 4) = otag (m0 E) x"
      using xs
    proof cases
      case old
      then have "tbase E \<le> phi E ts x - 4" "phi E ts x - 4 < c"
        using phi_bounds(1,2) [OF E cinv_space [OF inv] old(1)] c by linarith+
      then show ?thesis
        using cinv_tiles [OF inv] old old_to phi_old by (simp add: tiles_ok_def)
    qed (simp add: phi_v tag)
    fix i assume i: "i < olen (m0 E) x"
    show "m' (phi E ts' x + 4 * i) = (if i < g x then fval E ts' x i else m0 E (x + 4 * i))"
      using xs
    proof cases
      case new
      then show ?thesis
        using cinv_unscanned [OF inv v(2)] fields i phi_v by simp
    next
      case old
      then have "tbase E \<le> phi E ts x + 4 * i" "phi E ts x + 4 * i < c"
        using phi_bounds(1,2) [OF E cinv_space [OF inv] old(1)] c i by linarith+
      moreover have "i < g x \<Longrightarrow> fval E ts' x i = fval E ts x i"
        using cinv_closed [OF inv old(1)] i fval_old by blast
      ultimately show ?thesis
        using cinv_tiles [OF inv] old old_to phi_old i by (simp add: tiles_ok_def)
    qed
  next
    fix p assume "(p, None) \<in> set (layout (m0 E) (tbase E) ts')"
    then consider "(p, None) \<in> set (layout (m0 E) (tbase E) ts)" | "p = c" "pads \<noteq> []"
      using pads c by (auto simp: ts' layout_append)
    then show "m' p = MAKE_SKIP 1"
    proof cases
      case 1
      then have "tbase E \<le> p" "p < c"
        using layout_bounds [OF 1] c by (simp_all add: tlen_def)
      then show ?thesis
        using cinv_tiles [OF inv] 1 old_to by (simp add: tiles_ok_def)
    qed (simp add: skip)
  qed
  have "\<forall>x \<in> copied ts'. \<forall>i < g x. i < olen (m0 E) x \<longrightarrow> target_copied E ts' x i"
    using cinv_closed [OF inv] cinv_unscanned [OF inv v(2)] ts'_c unfolding target_copied_def by auto
  then show "cinv E g ts' m' (r + 4 + 4 * ?n)"
    unfolding cinv_def
    using cinv_distinct [OF inv] cinv_copied [OF inv] lend' space' tiles src cinv_unscanned [OF inv] ts'_c v pads
    by (auto simp: ts' copied_def)
  show "phi E ts' v = r + 4"
    by (rule phi_v)
  show "\<And>x. x \<in> copied ts \<Longrightarrow> phi E ts' x = phi E ts x"
    by (rule phi_old)
qed

subsection \<open>Copying an object\<close>

definition gframe :: "env \<Rightarrow> gcst \<Rightarrow> gcst \<Rightarrow> bool" where
  \<comment> \<open>what copying leaves alone: everything but to-space, the tags of the objects, the cursor and
     the counters\<close>
  "gframe E s s' \<longleftrightarrow>
     work s' = work s \<and> hp s' = hp s \<and> copyRg s' = (copyRg s)\<lparr>crCursor := crCursor (copyRg s')\<rparr> \<and>
     (\<forall>a. \<not> (tbase E \<le> a \<and> a < tlimit E) \<longrightarrow> (\<forall>x \<in> cobjs E. a \<noteq> x - 4) \<longrightarrow> mem s' a = mem s a)"

lemma gframe_refl [simp]: "gframe E s s"
  by (simp add: gframe_def)

lemma gframe_trans [trans]: "gframe E s s1 \<Longrightarrow> gframe E s1 s2 \<Longrightarrow> gframe E s s2"
  unfolding gframe_def by (metis copyRange.surjective copyRange.update_convs(2))

lemma gframe_updUsage [simp]: "gframe E s (updUsage f s') = gframe E s s'"
  "gframe E s (updateWorkDone cfg s') = gframe E s s'" "gframe E (updUsage f s) s' = gframe E s s'"
  by (simp_all add: gframe_def)

abbreviation ccur :: "gcst \<Rightarrow> addr" where
  "ccur s \<equiv> crCursor (copyRg s)"

lemma copy_already:
  assumes E: "env_ok E" and inv: "cinv E g ts (mem s) c" and v: "v \<in> copied ts"
  shows "\<exists>s'. copy_noSpaceCheck cfg v s = Inr (phi E ts v, s') \<and> mem s' = mem s \<and> copyRg s' = copyRg s
    \<and> work s' = work s \<and> hp s' = hp s"
proof -
  note b = phi_bounds [OF E cinv_space [OF inv] v]
  have tag: "mem s (v - 4) = word_of_nat (phi E ts v)"
    using cinv_source [OF inv] cinv_copied [OF inv] v by (auto simp: source_ok_def)
  have "TAG_IS_FORWARD (word_of_nat (phi E ts v))"
    using b(4,5) by (simp add: tag_unat)
  then show ?thesis
    using b(4) by (simp add: copy_noSpaceCheck_def genericAlloc_def Let_def tag alreadyCopied_def)
qed

lemma type_cases_distinct [simp]:
  "RECORD_TYPE \<noteq> WORD_ARRAY_TYPE" "RECORD_TYPE \<noteq> QUAD_ARRAY_TYPE" "RECORD_TYPE \<noteq> PTR_ARRAY_TYPE"
  "RECORD_TYPE \<noteq> MIRROR_PTR_ARRAY_TYPE" "WORD_ARRAY_TYPE \<noteq> RECORD_TYPE" "QUAD_ARRAY_TYPE \<noteq> RECORD_TYPE"
  "PTR_ARRAY_TYPE \<noteq> RECORD_TYPE" "WORD_ARRAY_TYPE \<noteq> QUAD_ARRAY_TYPE" "WORD_ARRAY_TYPE \<noteq> PTR_ARRAY_TYPE"
  "QUAD_ARRAY_TYPE \<noteq> WORD_ARRAY_TYPE" "QUAD_ARRAY_TYPE \<noteq> PTR_ARRAY_TYPE" "PTR_ARRAY_TYPE \<noteq> WORD_ARRAY_TYPE"
  "PTR_ARRAY_TYPE \<noteq> QUAD_ARRAY_TYPE" "PTR_ARRAY_TYPE \<noteq> MIRROR_PTR_ARRAY_TYPE"
  "TYPE_IS_ARRAY WORD_ARRAY_TYPE" "TYPE_IS_ARRAY QUAD_ARRAY_TYPE" "TYPE_IS_ARRAY PTR_ARRAY_TYPE"
  "\<not> TYPE_IS_FORWARD RECORD_TYPE" "\<not> TYPE_IS_FORWARD WORD_ARRAY_TYPE" "\<not> TYPE_IS_FORWARD QUAD_ARRAY_TYPE"
  "\<not> TYPE_IS_FORWARD PTR_ARRAY_TYPE"
  by (simp_all add: tag_consts TYPE_IS_ARRAY_def TYPE_IS_FORWARD_def)

lemma segmentTags_0: "arraySegmentSize cfg = 0 \<Longrightarrow> segmentTags cfg n = 1"
  by (simp add: segmentTags_def)

lemma genericAlloc_array:
  assumes "\<not> TAG_IS_FORWARD (mem s (v - 4))" "GET_TYPE (mem s (v - 4)) = ty" "ty \<noteq> RECORD_TYPE"
    "\<not> TYPE_IS_FORWARD ty" "TYPE_IS_ARRAY ty" "unat (GET_ANY_ARRAY_LEN (mem s (v - 4))) = len"
    and len4: "ty \<noteq> WORD_ARRAY_TYPE \<longrightarrow> len mod 4 = 0" and seg: "arraySegmentSize cfg = 0"
    and bump: "bumpCursor (RoundUp len 4 + 4) (if ty = QUAD_ARRAY_TYPE then OddWordAlign else NoWordAlign)
      (updUsage (\<lambda>u. u\<lparr>objsCopied := objsCopied u + 1\<rparr>) s) = (r, s2)"
  shows "\<exists>s'. genericAlloc cfg v True False True NoSet s = Inr (r + 4, s')
    \<and> mem s' = (copyWords (mem s2) (r + 4) v (RoundUp len 4 div 4))(r := mem s (v - 4), v - 4 := word_of_nat (r + 4))
    \<and> copyRg s' = copyRg s2 \<and> work s' = work s2 \<and> hp s' = hp s2"
proof -
  have d: "(RoundUp len 4 + 4 * 1 - 4) div 4 = RoundUp len 4 div 4" "RoundUp len 4 + 4 * 1 = RoundUp len 4 + 4"
    by simp_all
  have a: "assertE (ty \<noteq> WORD_ARRAY_TYPE \<longrightarrow> len mod 4 = 0) ''arrayByteLen % 4 == 0'' = Inr ()"
    using len4 by (simp only: assertE_eq_Inr)
  show ?thesis
    unfolding genericAlloc_def Let_def segmentTags_0 [OF seg] allocFromCopyRange_def
    by (simp only: assms(1-6) if_False if_True simp_thms bindE_Inr odd_one d(1) split_def fst_conv snd_conv d(2) bump a)
      (simp add: pushGray_def storeAt_def updUsage_def del: of_nat_add)
qed
lemma copy_fresh_raw:
  \<comment> \<open>the effect of a copy on memory and cursor\<close>
  assumes tag: "\<not> TAG_IS_FORWARD (mem s (v - 4))"
    and ty: "GET_TYPE (mem s (v - 4)) \<in> {RECORD_TYPE, WORD_ARRAY_TYPE, QUAD_ARRAY_TYPE, PTR_ARRAY_TYPE}"
    and len4: "GET_TYPE (mem s (v - 4)) \<in> {QUAD_ARRAY_TYPE, PTR_ARRAY_TYPE} \<Longrightarrow>
      unat (GET_ANY_ARRAY_LEN (mem s (v - 4))) mod 4 = 0"
    and seg: "arraySegmentSize cfg = 0"
  shows "\<exists>s' pad. copy_noSpaceCheck cfg v s = Inr (ccur s + (if pad then 4 else 0) + 4, s')
    \<and> (pad \<longrightarrow> GET_TYPE (mem s (v - 4)) = QUAD_ARRAY_TYPE)
    \<and> mem s' = (copyWords (if pad then (mem s)(ccur s := MAKE_SKIP 1) else mem s)
                   (ccur s + (if pad then 4 else 0) + 4) v (olen (mem s) v))
               (ccur s + (if pad then 4 else 0) := mem s (v - 4),
                v - 4 := word_of_nat (ccur s + (if pad then 4 else 0) + 4))
    \<and> copyRg s' = (copyRg s)\<lparr>crCursor := ccur s + (if pad then 4 else 0) + 4 + 4 * olen (mem s) v\<rparr>
    \<and> work s' = work s \<and> hp s' = hp s"
proof (cases "GET_TYPE (mem s (v - 4)) = RECORD_TYPE")
  case True
  then show ?thesis
    using tag by (intro exI [of _ False] exI)
      (auto simp: copy_noSpaceCheck_def genericAlloc_def Let_def allocFromCopyRange_def bumpCursor_def
        alignCursor_def AlignMemoryPointer_def pushGray_def olen_def otag_def updCopyRange_def updUsage_def
        storeAt_def algebra_simps)
next
  case False
  let ?len = "unat (GET_ANY_ARRAY_LEN (mem s (v - 4)))"
  have n: "olen (mem s) v = RoundUp ?len 4 div 4"
    using False by (simp add: olen_def otag_def)
  have d: "4 * (RoundUp ?len 4 div 4) = RoundUp ?len 4"
    by (simp add: RoundUp_def)
  have sz: "(RoundUp ?len 4 + 4) div 4 = Suc (RoundUp ?len 4 div 4)" "(RoundUp ?len 4 + 4 - 4) div 4 = RoundUp ?len 4 div 4"
    by simp_all
  define al where "al = (if GET_TYPE (mem s (v - 4)) = QUAD_ARRAY_TYPE then OddWordAlign else NoWordAlign)"
  define pad where "pad \<longleftrightarrow> GET_TYPE (mem s (v - 4)) = QUAD_ARRAY_TYPE \<and> ccur s mod 8 = 0"
  define m1 where "m1 = (if pad then (mem s)(ccur s := MAKE_SKIP 1) else mem s)"
  define r where "r = ccur s + (if pad then 4 else 0)"
  define s1 where "s1 = updUsage (\<lambda>u. u\<lparr>objsCopied := objsCopied u + 1\<rparr>) s"
  have bump: "bumpCursor (RoundUp ?len 4 + 4) al s1 =
      (r, s1\<lparr>mem := m1, copyRg := (copyRg s)\<lparr>crCursor := r + 4 + 4 * (RoundUp ?len 4 div 4)\<rparr>\<rparr>)"
    unfolding bumpCursor_def alignCursor_def AlignMemoryPointer_def Let_def sz
    by (simp add: s1_def al_def pad_def m1_def r_def updCopyRange_def updUsage_def)
  have "TYPE_IS_ARRAY (GET_TYPE (mem s (v - 4)))" "\<not> TYPE_IS_FORWARD (GET_TYPE (mem s (v - 4)))"
    "GET_TYPE (mem s (v - 4)) \<noteq> WORD_ARRAY_TYPE \<longrightarrow> ?len mod 4 = 0"
    using ty len4 False by auto
  from genericAlloc_array [OF tag refl False this(2,1) refl this(3) seg bump [unfolded al_def s1_def]]
  have "\<exists>s'. copy_noSpaceCheck cfg v s = Inr (r + 4, s')
    \<and> mem s' = (copyWords m1 (r + 4) v (RoundUp ?len 4 div 4))(r := mem s (v - 4), v - 4 := word_of_nat (r + 4))
    \<and> copyRg s' = (copyRg s)\<lparr>crCursor := r + 4 + 4 * (RoundUp ?len 4 div 4)\<rparr>
    \<and> work s' = work s \<and> hp s' = hp s"
    by (simp add: copy_noSpaceCheck_def updUsage_def)
  then obtain s' where "copy_noSpaceCheck cfg v s = Inr (r + 4, s')"
    "mem s' = (copyWords m1 (r + 4) v (RoundUp ?len 4 div 4))(r := mem s (v - 4), v - 4 := word_of_nat (r + 4))"
    "copyRg s' = (copyRg s)\<lparr>crCursor := r + 4 + 4 * (RoundUp ?len 4 div 4)\<rparr>" "work s' = work s" "hp s' = hp s"
    by blast
  then show ?thesis
    by (intro exI [of _ s'] exI [of _ pad]) (simp add: n m1_def r_def pad_def)
qed

lemma phi_ext: "x \<in> copied ts \<Longrightarrow> phi E (ts @ us) x = phi E ts x"
  by (simp add: phi_def place_append copied_def)

lemma copy_spec:
  assumes E: "env_ok E" and inv: "cinv E g ts (mem s) (ccur s)" and v: "v \<in> cobjs E" and seg: "arraySegmentSize cfg = 0"
  obtains us s' where "copy_noSpaceCheck cfg v s = Inr (phi E (ts @ us) v, s')" "v \<in> copied (ts @ us)"
    "copied (ts @ us) \<subseteq> insert v (copied ts)" "cinv E g (ts @ us) (mem s') (ccur s')" "gframe E s s'"
    "\<And>a. tbase E \<le> a \<Longrightarrow> a < ccur s \<Longrightarrow> mem s' a = mem s a"
proof (cases "v \<in> copied ts")
  case True
  obtain s' where s': "copy_noSpaceCheck cfg v s = Inr (phi E ts v, s')" "mem s' = mem s" "copyRg s' = copyRg s"
    "work s' = work s" "hp s' = hp s"
    using copy_already [OF E inv True] by blast
  show ?thesis
    by (rule that [of "[]" s']) (use s' inv True in \<open>auto simp: gframe_def\<close>)
next
  case False
  have tag: "mem s (v - 4) = otag (m0 E) v" and fields: "\<And>i. i < olen (m0 E) v \<Longrightarrow> mem s (v + 4 * i) = m0 E (v + 4 * i)"
    using cinv_source [OF inv] v False by (auto simp: source_ok_def)
  have len: "olen (mem s) v = olen (m0 E) v"
    by (simp add: olen_def otag_def tag [unfolded otag_def])
  obtain s' pad where s': "copy_noSpaceCheck cfg v s = Inr (ccur s + (if pad then 4 else 0) + 4, s')"
    "pad \<longrightarrow> GET_TYPE (otag (m0 E) v) = QUAD_ARRAY_TYPE"
    "mem s' = (copyWords (if pad then (mem s)(ccur s := MAKE_SKIP 1) else mem s)
                   (ccur s + (if pad then 4 else 0) + 4) v (olen (m0 E) v))
               (ccur s + (if pad then 4 else 0) := otag (m0 E) v,
                v - 4 := word_of_nat (ccur s + (if pad then 4 else 0) + 4))"
    "copyRg s' = (copyRg s)\<lparr>crCursor := ccur s + (if pad then 4 else 0) + 4 + 4 * olen (m0 E) v\<rparr>"
    "work s' = work s" "hp s' = hp s"
    using copy_fresh_raw [of s v cfg] obj_tag [OF E v] obj_type [OF E v] obj_len4 [OF E v] seg
    unfolding tag len by blast
  define pads where "pads = (if pad then [None] else [] :: addr option list)"
  define r where "r = ccur s + 4 * length pads"
  let ?n = "olen (m0 E) v"
  have r_eq: "ccur s + (if pad then 4 else 0) = r"
    by (simp add: r_def pads_def)
  note mem' = s'(3) [unfolded r_eq] and cur' = s'(4) [unfolded r_eq]
  let ?m1 = "if pad then (mem s)(ccur s := MAKE_SKIP 1) else mem s"
  have pads: "pads = [] \<or> pads = [None] \<and> GET_TYPE (otag (m0 E) v) = QUAD_ARRAY_TYPE"
    using s'(2) by (simp add: pads_def)
  have c: "ccur s = lend (m0 E) (tbase E) ts"
    by (rule cinv_end [OF inv])
  have base: "tbase E \<le> ccur s"
    using lend_ge c by simp
  have "cobjs E - copied ts = insert v (cobjs E - copied ts - {v})"
    using v False by auto
  then have "osize (m0 E) v \<le> (\<Sum>x \<in> cobjs E - copied ts. osize (m0 E) x)"
    using env_finite [OF E] by (metis finite_Diff finite_insert insertI1 member_le_sum zero_le)
  moreover have "1 + ?n + length pads \<le> osize (m0 E) v"
    using pads by (auto simp: osize_def)
  ultimately have limit: "r + 4 + 4 * ?n \<le> tlimit E"
    using cinv_space [OF inv] unfolding space_ok_def c [symmetric] r_def by linarith
  have v_apart: "a \<noteq> v - 4" "i < ?n \<Longrightarrow> a \<noteq> v + 4 * i" if "ccur s \<le> a" "a < r + 4 + 4 * ?n" for a i
    using to_apart_from(1) [OF E v, of a] to_apart_from(2) [OF E v, of a i] that base limit by auto
  have copied_field: "copyWords ?m1 (r + 4) v ?n (r + 4 + 4 * i) = m0 E (v + 4 * i)" if i: "i < ?n" for i
  proof -
    have "copyWords ?m1 (r + 4) v ?n (r + 4 + 4 * i) = ?m1 (v + 4 * i)"
      using v_apart(2) by (intro copyWords_in i) (metis add_strict_left_mono le_add1 mult_less_mono2
          r_def trans_le_add1 zero_less_numeral)
    moreover have "v + 4 * i \<noteq> ccur s"
      using v_apart(2) [OF _ _ i, of "ccur s"] by (auto simp: r_def)
    ultimately show ?thesis using fields [OF i] by simp
  qed
  have outside: "mem s' a = mem s a" if "\<not> (ccur s \<le> a \<and> a < r + 4 + 4 * ?n)" "a \<noteq> v - 4" for a
  proof -
    have "copyWords ?m1 (r + 4) v ?n a = ?m1 a"
      using that(1) by (intro copyWords_out) (auto simp: r_def)
    then show ?thesis
      using that by (auto simp: mem' r_def)
  qed
  have skip: "mem s' (ccur s) = MAKE_SKIP 1" if "pads \<noteq> []"
  proof -
    have "copyWords ?m1 (r + 4) v ?n (ccur s) = ?m1 (ccur s)"
      by (intro copyWords_out) (auto simp: r_def)
    then show ?thesis
      using that v_apart(1) [of "ccur s"] by (auto simp: mem' r_def pads_def split: if_splits)
  qed
  have tag': "mem s' r = otag (m0 E) v"
    using v_apart(1) [of r] by (auto simp: mem' r_def)
  have fields': "mem s' (r + 4 + 4 * i) = m0 E (v + 4 * i)" if "i < ?n" for i
    using v_apart(1) [of "r + 4 + 4 * i"] copied_field [OF that] that by (auto simp: mem' r_def)
  have cur: "ccur s' = r + 4 + 4 * ?n"
    by (simp add: cur')
  have fw: "mem s' (v - 4) = word_of_nat (r + 4)"
    by (simp add: mem')
  have ext: "cinv E g (ts @ pads @ [Some v]) (mem s') (r + 4 + 4 * ?n)" "phi E (ts @ pads @ [Some v]) v = r + 4"
    by (rule cinv_extend(1,2) [OF E inv v False pads r_def, of "mem s'"]; simp add: outside skip tag' fw fields')+
  show ?thesis
  proof (rule that [of "pads @ [Some v]" s'])
    show "copy_noSpaceCheck cfg v s = Inr (phi E (ts @ pads @ [Some v]) v, s')"
      using s'(1) ext(2) by (simp add: r_eq)
    show "copied (ts @ pads @ [Some v]) \<subseteq> insert v (copied ts)"
      by (auto simp: pads_def)
    show "cinv E g (ts @ pads @ [Some v]) (mem s') (ccur s')"
      unfolding cur by (rule ext(1))
    show "gframe E s s'"
      using outside v base limit unfolding gframe_def s'(5,6) by (auto simp: cur')
    show "mem s' a = mem s a" if "tbase E \<le> a" "a < ccur s" for a
      using outside [of a] to_apart_from(1) [OF E v, of a] that limit by (auto simp: r_def)
  qed simp
qed

subsection \<open>Scanning an object\<close>

definition cheneyScan :: "range_t \<Rightarrow> scanParams" where
  \<comment> \<open>the parameters of \<open>scanTag_locCopy1_noSpaceCheck\<close>\<close>
  "cheneyScan from = mkScan from noRange noRange False False LocCopy OneSpace NoTransfer NoSet False"

lemma cheneyScan_simps [simp]:
  "transfers (cheneyScan from) = False" "spCopyWrite (cheneyScan from) = False"
  "spTransfer (cheneyScan from) = NoTransfer"
  "genericField cfg (cheneyScan from) field s = locCopy1_noSpaceCheck cfg field from s"
  by (simp_all add: cheneyScan_def mkScan_def transfers_def genericField_def)

lemma fval_ext: "target_copied E ts x i \<Longrightarrow> fval E (ts @ us) x i = fval E ts x i"
  by (auto simp: fval_def fwd_def target_copied_def phi_ext)

lemma cinv_skip_field:
  \<comment> \<open>a field that needs no change counts as scanned\<close>
  assumes E: "env_ok E" and inv: "cinv E g ts m c" and x: "x \<in> copied ts"
    and i: "g x = i" "i < olen (m0 E) x" and same: "is_ptr (m0 E) x i \<Longrightarrow> \<not> InRange (unat (m0 E (x + 4 * i))) (src E)"
  shows "cinv E (g(x := Suc i)) ts m c"
proof -
  have "m(phi E ts x + 4 * i := fval E ts x i) = m"
    using cinv_unscanned_field [OF inv x _ i(2)] i(1) same by (intro fun_upd_idem) (auto simp: fval_def fwd_def)
  moreover have "target_copied E ts x i"
    using same by (auto simp: target_copied_def)
  ultimately show ?thesis
    using cinv_scan_field [OF E inv x i] by simp
qed

lemma scan_ptr_field:
  assumes E: "env_ok E" and inv: "cinv E g ts (mem s) (ccur s)" and x: "x \<in> copied ts"
    and i: "g x = i" "i < olen (m0 E) x" "is_ptr (m0 E) x i" and seg: "arraySegmentSize cfg = 0"
  shows "\<exists>us s'. locCopy1_noSpaceCheck cfg (phi E ts x + 4 * i) (src E) s = Inr s' \<and>
    cinv E (g(x := Suc i)) (ts @ us) (mem s') (ccur s') \<and> gframe E s s'"
proof -
  let ?v = "unat (m0 E (x + 4 * i))"
  have field: "ptrAt (phi E ts x + 4 * i) s = ?v"
    using cinv_unscanned_field [OF inv x _ i(2)] i(1) by (simp add: ptrAt_def)
  show ?thesis
  proof (cases "InRange ?v (src E)")
    case False
    then show ?thesis
      using cinv_skip_field [OF E inv x i(1,2)] field
      by (intro exI [of _ "[]"] exI [of _ s]) (simp add: locCopy1_noSpaceCheck_def)
  next
    case True
    have v: "?v \<in> cobjs E"
      using obj_closed [OF E _ i(2,3) True] cinv_copied [OF inv] x by blast
    obtain us s1 where s1: "copy_noSpaceCheck cfg ?v s = Inr (phi E (ts @ us) ?v, s1)" "?v \<in> copied (ts @ us)"
      "cinv E g (ts @ us) (mem s1) (ccur s1)" "gframe E s s1"
      using copy_spec [OF E inv v seg] by metis
    have x': "x \<in> copied (ts @ us)" "phi E (ts @ us) x = phi E ts x"
      using x phi_ext by auto
    have b: "tbase E \<le> phi E ts x + 4 * i" "phi E ts x + 4 * i < tlimit E"
      using phi_bounds(1,3) [OF E cinv_space [OF inv] x] i(2) by linarith+
    have "cinv E (g(x := Suc i)) (ts @ us) ((mem s1)(phi E (ts @ us) x + 4 * i := fval E (ts @ us) x i)) (ccur s1)"
      using s1(2) by (intro cinv_scan_field [OF E s1(3) x'(1) i(1,2)]) (simp add: target_copied_def)
    then have "cinv E (g(x := Suc i)) (ts @ us)
        (mem (storeAt (phi E ts x + 4 * i) (word_of_nat (phi E (ts @ us) ?v)) s1)) (ccur s1)"
      using True i(3) by (simp add: x'(2) fval_def fwd_def)
    moreover have "gframe E s (storeAt (phi E ts x + 4 * i) (word_of_nat (phi E (ts @ us) ?v)) s1)"
      using s1(4) b by (auto simp: gframe_def)
    ultimately show ?thesis
      using True s1(1) field
      by (intro exI [of _ us] exI [of _ "storeAt (phi E ts x + 4 * i) (word_of_nat (phi E (ts @ us) ?v)) s1"])
        (simp add: locCopy1_noSpaceCheck_def storeResult_def)
  qed
qed

lemma scan_record_fields:
  assumes E: "env_ok E" and seg: "arraySegmentSize cfg = 0"
    and ty: "GET_TYPE (otag (m0 E) x) = RECORD_TYPE"
  shows "cinv E g ts (mem s) (ccur s) \<Longrightarrow> x \<in> copied ts \<Longrightarrow> g x = i \<Longrightarrow> i + n \<le> olen (m0 E) x \<Longrightarrow>
    msk = drop_bit i (GET_RECMASK (otag (m0 E) x)) \<Longrightarrow> repl = phi E ts x \<Longrightarrow>
    \<exists>us s' k. recordFields cfg (cheneyScan (src E)) prim repl msk i n s = Inr (k, s') \<and>
      cinv E (g(x := i + n)) (ts @ us) (mem s') (ccur s') \<and> gframe E s s'"
proof (induction n arbitrary: g ts s i msk)
  case 0
  then show ?case
    by (intro exI [of _ "[]"]) (auto simp: fun_upd_idem)
next
  case (Suc n)
  have i: "i < olen (m0 E) x" and n: "Suc i + n \<le> olen (m0 E) x"
    using Suc.prems(4) by auto
  have ptr: "msk AND 1 \<noteq> 0 \<longleftrightarrow> is_ptr (m0 E) x i"
    using Suc.prems(5) ty by (simp add: is_ptr_def and_one_eq bit_iff_odd_drop_bit odd_iff_mod_2_eq_one)
  have msk: "drop_bit 1 msk = drop_bit (Suc i) (GET_RECMASK (otag (m0 E) x))"
    using Suc.prems(5) by simp
  show ?case
  proof (cases "is_ptr (m0 E) x i")
    case False
    have "cinv E (g(x := Suc i)) ts (mem s) (ccur s)"
      using cinv_skip_field [OF E Suc.prems(1,2,3) i] False by blast
    from Suc.IH [OF this Suc.prems(2) fun_upd_same n msk Suc.prems(6)] show ?thesis
      using ptr False by (simp only: fun_upd_upd recordFields.simps cheneyScan_simps Let_def if_False add_Suc
          add_Suc_right) simp
  next
    case True
    obtain us s1 where s1: "locCopy1_noSpaceCheck cfg (repl + 4 * i) (src E) s = Inr s1"
      "cinv E (g(x := Suc i)) (ts @ us) (mem s1) (ccur s1)" "gframe E s s1"
      using scan_ptr_field [OF E Suc.prems(1,2,3) i True seg] Suc.prems(6) by blast
    have x: "x \<in> copied (ts @ us)" "repl = phi E (ts @ us) x"
      using Suc.prems(2,6) phi_ext by auto
    obtain us' s2 k where "recordFields cfg (cheneyScan (src E)) prim repl (drop_bit 1 msk) (Suc i) n s1 = Inr (k, s2)"
      "cinv E (g(x := Suc i + n)) ((ts @ us) @ us') (mem s2) (ccur s2)" "gframe E s1 s2"
      using Suc.IH [OF s1(2) x(1) fun_upd_same n msk x(2)] unfolding fun_upd_upd by blast
    then show ?thesis
      using s1 ptr True gframe_trans [OF s1(3)]
      by (intro exI [of _ "us @ us'"] exI [of _ s2] exI [of _ "k + 1"])
        (auto simp: Let_def simp del: fun_upd_apply)
  qed
qed

lemma scan_array_fields:
  assumes E: "env_ok E" and seg: "arraySegmentSize cfg = 0"
    and ty: "GET_TYPE (otag (m0 E) x) = PTR_ARRAY_TYPE"
  shows "cinv E g ts (mem s) (ccur s) \<Longrightarrow> x \<in> copied ts \<Longrightarrow> g x = i \<Longrightarrow> i + n \<le> olen (m0 E) x \<Longrightarrow>
    repl = phi E ts x \<Longrightarrow>
    \<exists>us s'. ptrFields cfg (cheneyScan (src E)) prim repl [i..<i + n] s = Inr s' \<and>
      cinv E (g(x := i + n)) (ts @ us) (mem s') (ccur s') \<and> gframe E s s'"
proof (induction n arbitrary: g ts s i)
  case 0
  then show ?case
    by (intro exI [of _ "[]"]) (auto simp: fun_upd_idem)
next
  case (Suc n)
  have i: "i < olen (m0 E) x" and n: "Suc i + n \<le> olen (m0 E) x"
    using Suc.prems(4) by auto
  have "is_ptr (m0 E) x i"
    using ty by (simp add: is_ptr_def)
  then obtain us s1 where s1: "locCopy1_noSpaceCheck cfg (repl + 4 * i) (src E) s = Inr s1"
    "cinv E (g(x := Suc i)) (ts @ us) (mem s1) (ccur s1)" "gframe E s s1"
    using scan_ptr_field [OF E Suc.prems(1,2,3) i _ seg] Suc.prems(5) by blast
  have x: "x \<in> copied (ts @ us)" "repl = phi E (ts @ us) x"
    using Suc.prems(2,5) phi_ext by auto
  obtain us' s2 where "ptrFields cfg (cheneyScan (src E)) prim repl [Suc i..<Suc i + n] s1 = Inr s2"
    "cinv E (g(x := Suc i + n)) ((ts @ us) @ us') (mem s2) (ccur s2)" "gframe E s1 s2"
    using Suc.IH [OF s1(2) x(1) fun_upd_same n x(2)] unfolding fun_upd_upd by blast
  moreover have "[i..<i + Suc n] = i # [Suc i..<Suc i + n]"
    by (simp add: upt_rec)
  ultimately show ?case
    using s1 gframe_trans [OF s1(3)] by (intro exI [of _ "us @ us'"] exI [of _ s2])
      (auto simp: Let_def simp del: fun_upd_apply)
qed

lemma cinv_skip_fields:
  assumes E: "env_ok E" and inv: "cinv E g ts m c" and x: "x \<in> copied ts" and g: "g x = 0"
    and np: "\<And>i. \<not> is_ptr (m0 E) x i"
  shows "n \<le> olen (m0 E) x \<Longrightarrow> cinv E (g(x := n)) ts m c"
proof (induction n)
  case 0
  then show ?case
    using inv g by (simp add: fun_upd_idem)
next
  case (Suc n)
  then have "cinv E (g(x := n)) ts m c"
    by (simp del: fun_upd_apply)
  then have "cinv E ((g(x := n))(x := Suc n)) ts m c"
    using Suc.prems by (rule cinv_skip_field [OF E _ x fun_upd_same Suc_le_lessD]) (simp add: np)
  then show ?case
    unfolding fun_upd_upd .
qed

lemma scan_object:
  assumes E: "env_ok E" and inv: "cinv E g ts (mem s) (ccur s)" and x: "x \<in> copied ts" "g x = 0"
    and seg: "arraySegmentSize cfg = 0"
  shows "\<exists>us s'. scanTag_locCopy1_noSpaceCheck cfg (phi E ts x - 4) (src E) s =
      Inr (phi E ts x + 4 * olen (m0 E) x, s') \<and>
    cinv E (g(x := olen (m0 E) x)) (ts @ us) (mem s') (ccur s') \<and> gframe E s s'"
proof -
  have xE: "x \<in> cobjs E"
    using cinv_copied [OF inv] x by blast
  let ?t = "otag (m0 E) x"
  define s1 where "s1 = updUsage (\<lambda>u. u\<lparr>objsScanned := objsScanned u + 1\<rparr>) s"
  have s1: "mem s1 = mem s" "ccur s1 = ccur s" "gframe E s s1" "gframe E s1 s' = gframe E s s'" for s'
    by (simp_all add: s1_def)
  have "mem s (phi E ts x - 4) = ?t"
    using cinv_tiles [OF inv] x by (simp add: tiles_ok_def)
  then have scan: "scanTag_locCopy1_noSpaceCheck cfg (phi E ts x - 4) (src E) s =
      (if GET_TYPE ?t = RECORD_TYPE
       then scanRecord cfg (cheneyScan (src E)) None (phi E ts x) (phi E ts x) ?t s1
       else if GET_TYPE ?t = WORD_ARRAY_TYPE \<or> GET_TYPE ?t = QUAD_ARRAY_TYPE
       then scanWordArray cfg (cheneyScan (src E)) None (phi E ts x) (phi E ts x) 0 0 ?t s1
       else scanPtrArray cfg (cheneyScan (src E)) None (phi E ts x) (phi E ts x) 0 0 ?t s1)"
    using obj_type [OF E xE] phi_bounds(1) [OF E cinv_space [OF inv] x(1)]
    unfolding scanTag_locCopy1_noSpaceCheck_def cheneyScan_def [symmetric] genericScan_def
    by (auto simp: s1_def Let_def)
  have nl: "\<not> isLarge cfg n" for n
    using seg by (simp add: isLarge_def)
  consider (rec) "GET_TYPE ?t = RECORD_TYPE" | (raw) "GET_TYPE ?t = WORD_ARRAY_TYPE \<or> GET_TYPE ?t = QUAD_ARRAY_TYPE"
    | (ptrs) "GET_TYPE ?t = PTR_ARRAY_TYPE"
    using obj_type [OF E xE] by auto
  then show ?thesis
  proof cases
    case rec
    then have len: "olen (m0 E) x = unat (GET_RECLEN ?t)"
      by (simp add: olen_def)
    have "cinv E g ts (mem s1) (ccur s1)"
      using inv by (simp add: s1)
    from scan_record_fields [OF E seg rec this x, of "olen (m0 E) x" "GET_RECMASK ?t" "phi E ts x" 0]
    obtain us s' k where s': "recordFields cfg (cheneyScan (src E)) 0 (phi E ts x) (GET_RECMASK ?t) 0
        (olen (m0 E) x) s1 = Inr (k, s')" "cinv E (g(x := olen (m0 E) x)) (ts @ us) (mem s') (ccur s')"
      "gframe E s s'"
      by (auto simp: s1 simp del: fun_upd_apply)
    show ?thesis
      unfolding scan using rec s'
      by (intro exI [of _ us]) (simp add: scanRecord_def len Let_def del: fun_upd_apply)
  next
    case raw
    then have len: "olen (m0 E) x = DivideUp (unat (GET_ANY_ARRAY_LEN ?t)) 4"
      by (auto simp: olen_def RoundUp_DivideUp)
    have "cinv E (g(x := olen (m0 E) x)) ts (mem s1) (ccur s1)"
      unfolding s1 by (rule cinv_skip_fields [OF E inv x]) (use raw in \<open>auto simp: is_ptr_def\<close>)
    then show ?thesis
      unfolding scan using raw
      by (intro exI [of _ "[]"] exI [of _ s1]) (auto simp: scanWordArray_def nl len Let_def s1 simp del: fun_upd_apply)
  next
    case ptrs
    let ?len = "unat (GET_ANY_ARRAY_LEN ?t)"
    have len: "olen (m0 E) x = ?len div 4"
      using obj_len4 [OF E xE] ptrs by (auto simp: olen_def RoundUp_def)
    have "cinv E g ts (mem s1) (ccur s1)"
      using inv by (simp add: s1)
    from scan_array_fields [OF E seg ptrs this x, of "olen (m0 E) x" "phi E ts x" 0]
    obtain us s' where s': "ptrFields cfg (cheneyScan (src E)) 0 (phi E ts x) [0..<olen (m0 E) x] s1 = Inr s'"
      "cinv E (g(x := olen (m0 E) x)) (ts @ us) (mem s') (ccur s')" "gframe E s s'"
      by (auto simp: s1 simp del: fun_upd_apply)
    show ?thesis
      unfolding scan using ptrs s'
      by (intro exI [of _ us]) (auto simp: scanPtrArray_def nl len Let_def simp del: fun_upd_apply)
  qed
qed

lemma scan_skip:
  assumes "mem s a = MAKE_SKIP 1"
  shows "\<exists>s'. scanTag_locCopy1_noSpaceCheck cfg a from s = Inr (a + 4, s') \<and> mem s' = mem s \<and>
    copyRg s' = copyRg s \<and> work s' = work s \<and> hp s' = hp s"
proof -
  have "unat (GET_SKIPWORD (MAKE_SKIP 1)) = 1" "IS_SKIP_TAG (MAKE_SKIP 1)" "GET_TYPE (MAKE_SKIP 1) = OTHER_TYPE"
    using skip_tag_roundtrip [of 1] by (simp_all add: tag_consts GET_TYPE_def MAKE_SKIP_def)
  then show ?thesis
    using assms unfolding scanTag_locCopy1_noSpaceCheck_def cheneyScan_def [symmetric] genericScan_def
    by (auto simp: Let_def tag_consts TYPE_IS_FORWARD_def)
qed

subsection \<open>Scanning to-space\<close>

lemma copied_front:
  assumes "distinct (filter (\<lambda>t. t \<noteq> None) (ts1 @ Some x # ts2))"
  shows "x \<notin> copied ts1" "x \<notin> copied ts2"
  using assms by (auto simp: copied_def)

lemma phi_front:
  "x \<notin> copied ts1 \<Longrightarrow> phi E (ts1 @ Some x # ts2) x = lend (m0 E) (tbase E) ts1 + 4"
  by (simp add: phi_def place_append copied_def)

lemma scan_finished:
  assumes inv: "cinv E g ts1 (mem s) (ccur s)" and g: "\<forall>x \<in> copied ts1. g x = olen (m0 E) x"
    "\<forall>x. x \<notin> copied ts1 \<longrightarrow> g x = 0"
  shows "\<exists>us s'. scanLoop fuel scan ccur (lend (m0 E) (tbase E) ts1) s = Inr (ccur s', s') \<and>
      cinv E (\<lambda>x. if x \<in> copied us then olen (m0 E) x else 0) us (mem s') (ccur s') \<and>
      (\<exists>vs. us = ts1 @ vs) \<and> gframe E s s'"
proof -
  have "g = (\<lambda>x. if x \<in> copied ts1 then olen (m0 E) x else 0)"
    using g by auto
  moreover have "scanLoop fuel scan ccur (lend (m0 E) (tbase E) ts1) s = Inr (ccur s, s)"
    using cinv_end [OF inv] by (cases fuel) simp_all
  ultimately show ?thesis
    using inv by (intro exI [of _ ts1] exI [of _ s]) simp
qed

lemma scan_to_space:
  assumes E: "env_ok E" and seg: "arraySegmentSize cfg = 0"
  shows "cinv E g (ts1 @ ts2) (mem s) (ccur s) \<Longrightarrow> \<forall>x \<in> copied ts1. g x = olen (m0 E) x \<Longrightarrow>
    \<forall>x. x \<notin> copied ts1 \<longrightarrow> g x = 0 \<Longrightarrow> tlimit E < lend (m0 E) (tbase E) ts1 + 4 * Suc fuel \<Longrightarrow>
    \<exists>us s'. scanLoop fuel (\<lambda>cur. scanTag_locCopy1_noSpaceCheck cfg cur (src E)) ccur
        (lend (m0 E) (tbase E) ts1) s = Inr (ccur s', s') \<and>
      cinv E (\<lambda>x. if x \<in> copied us then olen (m0 E) x else 0) us (mem s') (ccur s') \<and>
      (\<exists>vs. us = (ts1 @ ts2) @ vs) \<and> gframe E s s'"
proof (induction fuel arbitrary: g ts1 ts2 s)
  case 0
  have "lend (m0 E) (tbase E) (ts1 @ ts2) \<le> tlimit E"
    by (rule lend_limit [OF cinv_space [OF 0(1)]])
  moreover have "lend (m0 E) (tbase E) ts1 + 4 \<le> lend (m0 E) (tbase E) (ts1 @ ts2)" if "ts2 = t # us" for t us
    unfolding that lend_append by (rule lend_Cons_ge)
  ultimately have "ts2 = []"
    using 0(4) by (cases ts2) fastforce+
  then show ?case
    using scan_finished [of E g ts1 s 0] 0 by simp
  next
  case (Suc fuel)
  let ?scan = "\<lambda>cur. scanTag_locCopy1_noSpaceCheck cfg cur (src E)"
  show ?case
  proof (cases ts2)
    case Nil
    then show ?thesis
      using scan_finished [of E g ts1 s "Suc fuel" ?scan] Suc.prems by (simp del: scanLoop.simps)
  next
    case (Cons t ts3)
    let ?a = "lend (m0 E) (tbase E) ts1"
    note inv = Suc.prems(1)
    have lt: "?a < ccur s"
      using cinv_end [OF inv] lend_Cons_ge [of ?a "m0 E" t ts3] Cons by simp
    have fuel: "tlimit E < lend (m0 E) (tbase E) (ts1 @ [t]) + 4 * Suc fuel"
      using Suc.prems(4) lend_Cons_ge [of ?a "m0 E" t "[]"] by simp
    have ts: "ts1 @ ts2 = (ts1 @ [t]) @ ts3"
      by (simp add: Cons)
    show ?thesis
    proof (cases t)
      case None
      have "(?a, None) \<in> set (layout (m0 E) (tbase E) (ts1 @ ts2))"
        by (simp add: layout_append Cons None)
      then have "mem s ?a = MAKE_SKIP 1"
        using cinv_tiles [OF inv] by (simp add: tiles_ok_def)
      then obtain s1 where s1: "?scan ?a s = Inr (?a + 4, s1)" "mem s1 = mem s" "copyRg s1 = copyRg s"
        "work s1 = work s" "hp s1 = hp s"
        using scan_skip by blast
      have a: "lend (m0 E) (tbase E) (ts1 @ [t]) = ?a + 4" "copied (ts1 @ [t]) = copied ts1"
        by (simp_all add: None tlen_def)
      have "cinv E g ((ts1 @ [t]) @ ts3) (mem s1) (ccur s1)"
        using inv ts s1 by simp
      from Suc.IH [OF this _ _ fuel, unfolded a] Suc.prems(2,3)
      obtain us s2 where s2: "scanLoop fuel ?scan ccur (?a + 4) s1 = Inr (ccur s2, s2)"
        "cinv E (\<lambda>x. if x \<in> copied us then olen (m0 E) x else 0) us (mem s2) (ccur s2)"
        "\<exists>vs. us = ((ts1 @ [t]) @ ts3) @ vs" "gframe E s1 s2"
        by auto
      moreover have "gframe E s s2"
        using s2(4) s1 by (simp add: gframe_def)
      ultimately show ?thesis
        using lt s1(1) ts by (intro exI [of _ us] exI [of _ s2]) simp
    next
      case (Some x)
      have x1: "x \<notin> copied ts1"
        using copied_front [of ts1 x ts3] cinv_distinct [OF inv] Cons Some by simp
      have phi: "phi E (ts1 @ ts2) x = ?a + 4"
        using phi_front [OF x1] by (simp add: Cons Some)
      have x: "x \<in> copied (ts1 @ ts2)" "g x = 0"
        using Suc.prems(3) x1 by (simp_all add: Cons Some)
      obtain us s1 where s1: "?scan ?a s = Inr (?a + 4 + 4 * olen (m0 E) x, s1)"
        "cinv E (g(x := olen (m0 E) x)) ((ts1 @ ts2) @ us) (mem s1) (ccur s1)" "gframe E s s1"
        using scan_object [OF E inv x seg] unfolding phi by auto
      have a: "lend (m0 E) (tbase E) (ts1 @ [t]) = ?a + 4 + 4 * olen (m0 E) x"
        "copied (ts1 @ [t]) = insert x (copied ts1)"
        by (simp_all add: Some tlen_def)
      have "cinv E (g(x := olen (m0 E) x)) ((ts1 @ [t]) @ ts3 @ us) (mem s1) (ccur s1)"
        using s1(2) by (simp add: ts del: fun_upd_apply)
      moreover have "\<forall>y \<in> copied (ts1 @ [t]). (g(x := olen (m0 E) x)) y = olen (m0 E) y"
        "\<forall>y. y \<notin> copied (ts1 @ [t]) \<longrightarrow> (g(x := olen (m0 E) x)) y = 0"
        using Suc.prems(2,3) unfolding a(2) by auto
      ultimately obtain vs s2 where s2: "scanLoop fuel ?scan ccur (?a + 4 + 4 * olen (m0 E) x) s1 = Inr (ccur s2, s2)"
        "cinv E (\<lambda>x. if x \<in> copied vs then olen (m0 E) x else 0) vs (mem s2) (ccur s2)"
        "\<exists>ws. vs = ((ts1 @ [t]) @ ts3 @ us) @ ws" "gframe E s1 s2"
        using Suc.IH [OF _ _ _ fuel] unfolding a(1) by blast
      then show ?thesis
        using lt s1(1) ts gframe_trans [OF s1(3) s2(4)] by (intro exI [of _ vs] exI [of _ s2]) (auto simp: Some)
    qed
  qed
qed

subsection \<open>Roots\<close>

definition root_loc :: "env \<Rightarrow> addr \<Rightarrow> bool" where
  \<comment> \<open>a location outside to-space and outside the objects of the source space that holds a pointer
     to one of them or something else\<close>
  "root_loc E l \<longleftrightarrow>
     \<not> (tbase E \<le> l \<and> l < tlimit E) \<and>
     (\<forall>x \<in> cobjs E. l \<noteq> x - 4 \<and> (\<forall>i < olen (m0 E) x. l \<noteq> x + 4 * i)) \<and>
     (InRange (unat (m0 E l)) (src E) \<longrightarrow> unat (m0 E l) \<in> cobjs E)"

definition root_done :: "env \<Rightarrow> addr option list \<Rightarrow> memory \<Rightarrow> addr \<Rightarrow> bool" where
  "root_done E ts m l \<longleftrightarrow> m l = fwd E ts (m0 E l) \<and>
     (InRange (unat (m0 E l)) (src E) \<longrightarrow> unat (m0 E l) \<in> copied ts)"

definition rootinv :: "env \<Rightarrow> addr set \<Rightarrow> addr set \<Rightarrow> addr option list \<Rightarrow> gcst \<Rightarrow> bool" where
  \<comment> \<open>while the root locations \<open>R\<close> are processed, those in \<open>D\<close> being done\<close>
  "rootinv E R D ts s \<longleftrightarrow> cinv E (\<lambda>_. 0) ts (mem s) (ccur s) \<and>
     (\<forall>l \<in> D. root_done E ts (mem s) l) \<and>
     (\<forall>a. a \<notin> D \<longrightarrow> \<not> (tbase E \<le> a \<and> a < tlimit E) \<longrightarrow> (\<forall>x \<in> cobjs E. a \<noteq> x - 4) \<longrightarrow> mem s a = m0 E a)"

lemma root_done_ext:
  "root_done E ts m l \<Longrightarrow> m' l = m l \<Longrightarrow> root_done E (ts @ us) m' l"
  by (auto simp: root_done_def fwd_def phi_ext)

lemma rootinv_step:
  assumes E: "env_ok E" and seg: "arraySegmentSize cfg = 0" and inv: "rootinv E R D ts s" and D: "D \<subseteq> R"
    and R: "\<forall>l \<in> R. root_loc E l" and l: "l \<in> R"
  shows "\<exists>us s'. locCopy1_noSpaceCheck cfg l (src E) s = Inr s' \<and> rootinv E R (insert l D) (ts @ us) s' \<and>
    work s' = work s \<and> hp s' = hp s \<and> copyRg s' = (copyRg s)\<lparr>crCursor := ccur s'\<rparr>"
proof -
  have c: "cinv E (\<lambda>_. 0) ts (mem s) (ccur s)"
    and dn: "\<And>k. k \<in> D \<Longrightarrow> root_done E ts (mem s) k"
    and rest: "\<And>a. a \<notin> D \<Longrightarrow> \<not> (tbase E \<le> a \<and> a < tlimit E) \<Longrightarrow> \<forall>x \<in> cobjs E. a \<noteq> x - 4 \<Longrightarrow> mem s a = m0 E a"
    using inv by (auto simp: rootinv_def)
  have out: "\<not> (tbase E \<le> k \<and> k < tlimit E)" "\<forall>x \<in> cobjs E. k \<noteq> x - 4" if "k \<in> R" for k
    using R that by (auto simp: root_loc_def)
  show ?thesis
  proof (cases "InRange (unat (mem s l)) (src E)")
    case False
    have "root_done E ts (mem s) l"
    proof (cases "l \<in> D")
      case notdone: False
      then have "mem s l = m0 E l"
        using rest out l by blast
      then show ?thesis using False by (simp add: root_done_def fwd_def)
    qed (rule dn)
    then have "rootinv E R (insert l D) ts s"
      using inv by (auto simp: rootinv_def)
    then show ?thesis
      using False by (intro exI [of _ "[]"] exI [of _ s]) (simp add: locCopy1_noSpaceCheck_def ptrAt_def)
  next
    case True
    have "l \<notin> D"
    proof
      assume "l \<in> D"
      then have rd: "root_done E ts (mem s) l"
        by (rule dn)
      show False
      proof (cases "InRange (unat (m0 E l)) (src E)")
        case in0: True
        then have "unat (m0 E l) \<in> copied ts" "mem s l = word_of_nat (phi E ts (unat (m0 E l)))"
          using rd by (simp_all add: root_done_def fwd_def)
        then show False
          using phi_bounds(4,6) [OF E cinv_space [OF c]] True by simp
      next
        case False
        then show False
          using rd True by (simp add: root_done_def fwd_def)
      qed
    qed
    then have m: "mem s l = m0 E l"
      using rest out l by blast
    let ?v = "unat (m0 E l)"
    have v: "?v \<in> cobjs E" and in0: "InRange ?v (src E)"
      using R l True m by (auto simp: root_loc_def)
    obtain us s1 where s1: "copy_noSpaceCheck cfg ?v s = Inr (phi E (ts @ us) ?v, s1)" "?v \<in> copied (ts @ us)"
      "cinv E (\<lambda>_. 0) (ts @ us) (mem s1) (ccur s1)" "gframe E s s1"
      using copy_spec [OF E c v seg] by metis
    define s2 where "s2 = storeAt l (word_of_nat (phi E (ts @ us) ?v)) s1"
    have frame: "mem s1 a = mem s a" if "\<not> (tbase E \<le> a \<and> a < tlimit E)" "\<forall>x \<in> cobjs E. a \<noteq> x - 4" for a
      using s1(4) that by (simp add: gframe_def)
    have src2: "source_ok E (ts @ us) (mem s2)"
      using cinv_source [OF s1(3)] R l unfolding source_ok_def s2_def root_loc_def by fastforce
    have "\<forall>p t. (p, t) \<in> set (layout (m0 E) (tbase E) (ts @ us)) \<longrightarrow> tbase E \<le> p \<and> p + 4 * tlen (m0 E) t \<le> tlimit E"
      using layout_bounds lend_limit [OF cinv_space [OF s1(3)]] by fastforce
    then have skips: "p \<noteq> l" if "(p, None) \<in> set (layout (m0 E) (tbase E) (ts @ us))" for p
      using that out(1) [OF l] by (fastforce simp: tlen_def)
    have fields: "phi E (ts @ us) x - 4 \<noteq> l" "i < olen (m0 E) x \<Longrightarrow> phi E (ts @ us) x + 4 * i \<noteq> l"
      if "x \<in> copied (ts @ us)" for x i
      using phi_bounds(1,3) [OF E cinv_space [OF s1(3)] that] out(1) [OF l] by auto
    have "tiles_ok E (\<lambda>_. 0) (ts @ us) (mem s2)"
      using cinv_tiles [OF s1(3)] skips fields unfolding tiles_ok_def s2_def by (simp add: fun_upd_apply)
    then have "cinv E (\<lambda>_. 0) (ts @ us) (mem s2) (ccur s2)"
      using s1(3) src2 unfolding cinv_def s2_def by simp
    moreover have "root_done E (ts @ us) (mem s2) k" if "k \<in> insert l D" for k
    proof (cases "k = l")
      case True
      then show ?thesis
        using s1(2) in0 by (simp add: root_done_def fwd_def s2_def)
    next
      case False
      then have "k \<in> D" using that by simp
      then show ?thesis
        using root_done_ext [OF dn] frame out D False by (simp add: s2_def subset_iff)
    qed
    moreover have "mem s2 a = m0 E a"
      if "a \<notin> insert l D" "\<not> (tbase E \<le> a \<and> a < tlimit E)" "\<forall>x \<in> cobjs E. a \<noteq> x - 4" for a
      using that frame rest by (simp add: s2_def)
    ultimately have "rootinv E R (insert l D) (ts @ us) s2"
      unfolding rootinv_def by simp
    moreover have "locCopy1_noSpaceCheck cfg l (src E) s = Inr s2"
      using s1(1) in0 m by (simp add: locCopy1_noSpaceCheck_def ptrAt_def storeResult_def s2_def)
    ultimately show ?thesis
      using s1(4) by (intro exI [of _ us] exI [of _ s2]) (simp add: s2_def gframe_def)
  qed
qed

end
