(* ===== verification/Collect.thy ===== *)
theory Collect
  imports Cheney LargeSpace
begin

text \<open>
  The semispace collector (\<open>Runtime/sparc/gc_semi.c\<close>): the loops that empty the work lists, the copy
  phase of \<open>GCCollect_Semi\<close> in its five orderings, the allocation helpers of \<open>gc.c\<close>, and the
  correctness of the default collection: every object reachable from the roots is copied once, with
  its tag and fields, every pointer to the old space in a root or a copied field becomes the pointer
  to the copy, and nothing else of the memory outside the two spaces changes.
\<close>

subsection \<open>Emptying the work lists\<close>

definition takeRoot :: "gcst \<Rightarrow> addr \<times> gcst" where
  "takeRoot s = (case SetPop (roots (work s)) of (x, q) \<Rightarrow> (x, s\<lparr>work := (work s)\<lparr>roots := q\<rparr>\<rparr>))"

definition takeGlobal :: "gcst \<Rightarrow> addr \<times> gcst" where
  "takeGlobal s = (case SetPop (globals (work s)) of (x, q) \<Rightarrow> (x, s\<lparr>work := (work s)\<lparr>globals := q\<rparr>\<rparr>))"

definition takeObj :: "gcst \<Rightarrow> addr \<times> gcst" where
  "takeObj s = (case SetPop (objs (work s)) of (x, q) \<Rightarrow> (x, s\<lparr>work := (work s)\<lparr>objs := q\<rparr>\<rparr>))"

definition dequeueObj :: "gcst \<Rightarrow> addr \<times> gcst" where
  "dequeueObj s = (case SetDequeue (objs (work s)) of (x, q) \<Rightarrow> (x, s\<lparr>work := (work s)\<lparr>objs := q\<rparr>\<rparr>))"

definition takeBackObj :: "gcst \<Rightarrow> addr \<times> gcst" where
  "takeBackObj s = (case SetPop (backObjs (work s)) of (x, q) \<Rightarrow> (x, s\<lparr>work := (work s)\<lparr>backObjs := q\<rparr>\<rparr>))"

definition takeGrayRegion :: "gcst \<Rightarrow> (addr \<times> addr option) \<times> gcst" where
  "takeGrayRegion s = (case SetPop2 (grayRegion (work s)) of (r, q) \<Rightarrow> (r, s\<lparr>work := (work s)\<lparr>grayRegion := q\<rparr>\<rparr>))"

definition forwardRoots :: "nat \<Rightarrow> (addr \<Rightarrow> gcst \<Rightarrow> gcst result) \<Rightarrow> gcst \<Rightarrow> gcst result" where
  \<comment> \<open>the two loops over the root locations and the global locations\<close>
  "forwardRoots fuel f s = bindE (drain fuel takeRoot f s) (drain fuel takeGlobal f)"

fun hybridLoop :: "nat \<Rightarrow> config \<Rightarrow> (addr \<Rightarrow> addr \<Rightarrow> gcst \<Rightarrow> gcst result) \<Rightarrow> gcst \<Rightarrow> gcst result" where
  \<comment> \<open>scan gray regions, then what the scan left between the start and the cursor of the copy range\<close>
  "hybridLoop 0 cfg scan s = Inl OutOfFuel"
| "hybridLoop (Suc n) cfg scan s =
     bindE (case takeGrayRegion s of ((start, stop), s') \<Rightarrow>
              if start = NULL then Inr s'
              else case stop of None \<Rightarrow> Inl (Overrun ''stop'') | Some e \<Rightarrow> scan start e s') (\<lambda>s.
     bindE (AddGrayCopyRange cfg s) (\<lambda>s.
     if SetIsEmpty (grayRegion (work s)) then Inr s else hybridLoop n cfg scan s))"

definition semiCopyWork :: "nat \<Rightarrow> config \<Rightarrow> range_t \<Rightarrow> addr \<Rightarrow> gcst \<Rightarrow> gcst result" where
  \<comment> \<open>forward the roots and process the gray objects in the chosen order\<close>
  "semiCopyWork fuel cfg from toLow s =
     (case ordering cfg of
        ImplicitOrder \<Rightarrow>
          if \<not> forceSpaceCheck cfg
          then bindE (forwardRoots fuel (\<lambda>l. locCopy1_noSpaceCheck cfg l from) s)
                 (scanUntil_locCopy1_noSpaceCheck fuel cfg toLow from)
          else bindE (forwardRoots fuel (\<lambda>l. locCopy1 cfg l from) s)
                 (scanUntil_locCopy1 fuel cfg toLow from)
      | HybridOrder \<Rightarrow>
          bindE (assertE (forceSpaceCheck cfg) ''forceSpaceCheck == 1'') (\<lambda>_.
          bindE (forwardRoots fuel (\<lambda>l. locCopy1 cfg l from) s) (\<lambda>s.
          bindE (hybridLoop fuel cfg (\<lambda>start stop. scanRegion_locCopy1 fuel cfg start stop from) s) (\<lambda>s.
          bindE (assertE (SetIsEmpty (objs (work s))) ''SetIsEmpty(objs)'') (\<lambda>_.
          bindE (assertE (SetIsEmpty (grayRegion (work s))) ''SetIsEmpty(grayRegion)'') (\<lambda>_.
          Inr s)))))
      | StackOrder \<Rightarrow>
          bindE (forwardRoots fuel (\<lambda>l. locCopy1_replicaSet cfg l from) s)
            (drain fuel takeObj (\<lambda>gray. scanObj_locCopy1_replicaSet cfg gray from))
      | QueueOrder \<Rightarrow>
          bindE (forwardRoots fuel (\<lambda>l. locCopy1_replicaSet cfg l from) s)
            (drain fuel dequeueObj (\<lambda>gray. scanObj_locCopy1_replicaSet cfg gray from))
      | DefaultOrder \<Rightarrow>
          bindE (forwardRoots fuel (\<lambda>l. locCopy1_replicaSet cfg l from) s)
            (\<lambda>_. Inl (Die ''bad ordering'')))"

definition GCCollect_Semi_copy ::
    "nat \<Rightarrow> config \<Rightarrow> (addr \<Rightarrow> nat \<Rightarrow> bool) \<Rightarrow> bool \<Rightarrow> nat \<Rightarrow> nat \<Rightarrow> gcst \<Rightarrow> gcst result" where
  \<comment> \<open>\<open>GCCollect_Semi\<close> from the resize of to-space on until to-space holds the live objects\<close>
  "GCCollect_Semi_copy fuel cfg mprot paranoid fromSpace toSpace s =
     bindE (Heap_Resize mprot paranoid (hp s toSpace) (Heap_GetSize (hp s fromSpace)) True) (\<lambda>to.
     let s = SetCopyRange toSpace (s\<lparr>hp := (hp s)(toSpace := to)\<rparr>)
     in bindE (if \<not> forceSpaceCheck cfg then AllocEntireCopyRange s else Inr s) (\<lambda>s.
        bindE (semiCopyWork fuel cfg (hrange (hp s fromSpace)) (low (hrange (hp s toSpace))) s) (\<lambda>s.
        bindE (if \<not> forceSpaceCheck cfg then ReturnCopyRange s else Inr s) (\<lambda>s.
        bindE (ClearCopyRange s) (\<lambda>s.
        bindE (assertE (SetIsEmpty (roots (work s))) ''SetIsEmpty(roots)'') (\<lambda>_.
        Inr s))))))"

subsection \<open>Work lists of the processor as work lists\<close>

interpretation roots_list: worklist takeRoot "\<lambda>s. set_items (roots (work s))" "\<lambda>s. set_ok (roots (work s))"
proof
  fix s :: gcst assume ok: "set_ok (roots (work s))"
  show "set_items (roots (work s)) = [] \<Longrightarrow> takeRoot s = (NULL, s)"
    using stack_list.take1_empty [OF ok] by (simp add: takeRoot_def)
  assume "set_items (roots (work s)) \<noteq> []"
  then show "\<exists>x s'. takeRoot s = (x, s') \<and> set_ok (roots (work s')) \<and>
      mset (set_items (roots (work s))) = add_mset x (mset (set_items (roots (work s'))))"
    using stack_list.take1_some [OF ok] by (auto simp: takeRoot_def)
qed

interpretation globals_list: worklist takeGlobal "\<lambda>s. set_items (globals (work s))" "\<lambda>s. set_ok (globals (work s))"
proof
  fix s :: gcst assume ok: "set_ok (globals (work s))"
  show "set_items (globals (work s)) = [] \<Longrightarrow> takeGlobal s = (NULL, s)"
    using stack_list.take1_empty [OF ok] by (simp add: takeGlobal_def)
  assume "set_items (globals (work s)) \<noteq> []"
  then show "\<exists>x s'. takeGlobal s = (x, s') \<and> set_ok (globals (work s')) \<and>
      mset (set_items (globals (work s))) = add_mset x (mset (set_items (globals (work s'))))"
    using stack_list.take1_some [OF ok] by (auto simp: takeGlobal_def)
qed

subsection \<open>What a copying collection promises\<close>

inductive_set reach :: "memory \<Rightarrow> range_t \<Rightarrow> addr set \<Rightarrow> addr set" for m sp R where
  \<comment> \<open>the objects of the space \<open>sp\<close> reachable from the root locations \<open>R\<close>\<close>
  root: "l \<in> R \<Longrightarrow> InRange (unat (m l)) sp \<Longrightarrow> unat (m l) \<in> reach m sp R"
| field: "x \<in> reach m sp R \<Longrightarrow> i < olen m x \<Longrightarrow> is_ptr m x i \<Longrightarrow> InRange (unat (m (x + 4 * i))) sp \<Longrightarrow>
    unat (m (x + 4 * i)) \<in> reach m sp R"

definition reloc :: "range_t \<Rightarrow> (addr \<Rightarrow> addr) \<Rightarrow> val \<Rightarrow> val" where
  \<comment> \<open>what becomes of a pointer when the object at \<open>x\<close> moves to \<open>f x\<close>\<close>
  "reloc sp f v = (if InRange (unat v) sp then word_of_nat (f (unat v)) else v)"

definition copies :: "memory \<Rightarrow> range_t \<Rightarrow> addr set \<Rightarrow> (addr \<Rightarrow> addr) \<Rightarrow> memory \<Rightarrow> bool" where
  \<comment> \<open>\<open>m'\<close> has at \<open>f x\<close> a copy of each object \<open>x\<close> of \<open>X\<close>, the copies being apart\<close>
  "copies m sp X f m' \<longleftrightarrow>
     (\<forall>x \<in> X. m' (f x - 4) = otag m x \<and>
        (\<forall>i < olen m x. m' (f x + 4 * i) = (if is_ptr m x i then reloc sp f (m (x + 4 * i)) else m (x + 4 * i)))) \<and>
     (\<forall>x \<in> X. \<forall>y \<in> X. x \<noteq> y \<longrightarrow> f x + 4 * olen m x \<le> f y - 4 \<or> f y + 4 * olen m y \<le> f x - 4)"

lemma fwd_reloc: "fwd E ts = reloc (src E) (phi E ts)"
  by (simp add: fun_eq_iff fwd_def reloc_def)

lemma reach_closed:
  assumes roots: "\<forall>l \<in> R. InRange (unat (m l)) sp \<longrightarrow> unat (m l) \<in> C"
    and fields: "\<forall>x \<in> C. \<forall>i < olen m x. is_ptr m x i \<longrightarrow> InRange (unat (m (x + 4 * i))) sp \<longrightarrow>
      unat (m (x + 4 * i)) \<in> C"
  shows "reach m sp R \<subseteq> C"
proof
  fix x assume "x \<in> reach m sp R"
  then show "x \<in> C"
    using roots fields by induction auto
qed

lemma cinv_copies:
  assumes E: "env_ok E" and inv: "cinv E (\<lambda>x. if x \<in> copied ts then olen (m0 E) x else 0) ts m c"
  shows "copies (m0 E) (src E) (copied ts) (phi E ts) m"
  using cinv_tiles [OF inv] phi_apart unfolding copies_def tiles_ok_def fval_def fwd_reloc by auto

lemma cinv_complete:
  assumes inv: "cinv E (\<lambda>x. if x \<in> copied ts then olen (m0 E) x else 0) ts m c"
    and R: "cobjs E = reach (m0 E) (src E) R" "\<forall>l \<in> R. InRange (unat (m0 E l)) (src E) \<longrightarrow> unat (m0 E l) \<in> copied ts"
  shows "copied ts = cobjs E"
proof
  show "copied ts \<subseteq> cobjs E"
    by (rule cinv_copied [OF inv])
  show "cobjs E \<subseteq> copied ts"
    unfolding R(1) using R(2) cinv_closed [OF inv]
    by (intro reach_closed) (auto simp: target_copied_def)
qed

subsection \<open>The default collection\<close>

lemma take_frame:
  "takeRoot s1 = (x, s) \<Longrightarrow> mem s = mem s1 \<and> hp s = hp s1 \<and> copyRg s = copyRg s1 \<and> globals (work s) = globals (work s1)"
  "takeGlobal s1 = (x, s) \<Longrightarrow> mem s = mem s1 \<and> hp s = hp s1 \<and> copyRg s = copyRg s1 \<and> roots (work s) = roots (work s1)"
  by (auto simp: takeRoot_def takeGlobal_def split: prod.splits)

definition rootP :: "env \<Rightarrow> addr set \<Rightarrow> gcst \<Rightarrow> addr set \<Rightarrow> gcst \<Rightarrow> bool" where
  \<comment> \<open>the invariant of the root loops, relative to the state \<open>s0\<close> before them\<close>
  "rootP E R s0 D s \<longleftrightarrow> (\<exists>ts. rootinv E R D ts s) \<and> hp s = hp s0 \<and>
     copyRg s = (copyRg s0)\<lparr>crCursor := ccur s\<rparr>"

lemma rootP_cong:
  "mem s = mem s1 \<Longrightarrow> hp s = hp s1 \<Longrightarrow> copyRg s = copyRg s1 \<Longrightarrow> rootP E R s0 D s = rootP E R s0 D s1"
  by (simp add: rootP_def rootinv_def)

lemma rootP_step:
  assumes "env_ok E" "arraySegmentSize cfg = 0" "D \<subseteq> R" "\<forall>l \<in> R. root_loc E l" "x \<in> R" "rootP E R s0 D s"
  shows "\<exists>s'. locCopy1_noSpaceCheck cfg x (src E) s = Inr s' \<and> work s' = work s \<and> rootP E R s0 (insert x D) s'"
proof -
  obtain ts where ts: "rootinv E R D ts s" and fr: "hp s = hp s0" "copyRg s = (copyRg s0)\<lparr>crCursor := ccur s\<rparr>"
    using assms(6) by (auto simp: rootP_def)
  obtain us s' where s': "locCopy1_noSpaceCheck cfg x (src E) s = Inr s'" "rootinv E R (insert x D) (ts @ us) s'"
    "work s' = work s" "hp s' = hp s" "copyRg s' = (copyRg s)\<lparr>crCursor := ccur s'\<rparr>"
    using rootinv_step [OF assms(1,2) ts assms(3-5)] by blast
  have "copyRg s' = (copyRg s0)\<lparr>crCursor := ccur s'\<rparr>"
    using s'(5) fr(2) by (metis copyRange.surjective copyRange.update_convs(2))
  then show ?thesis
    using s' fr(1) unfolding rootP_def by auto
qed

lemma mset_split:
  assumes "mset dn + add_mset x (mset zs) = mset L"
  shows "set dn \<subseteq> set L" "x \<in> set L"
proof -
  have "set_mset (mset L) = set dn \<union> insert x (set zs)"
    by (simp flip: assms)
  then show "set dn \<subseteq> set L" "x \<in> set L"
    by auto
qed

lemma forward_roots_correct:
  assumes E: "env_ok E" and seg: "arraySegmentSize cfg = 0"
    and ok: "set_ok (roots (work s))" "set_ok (globals (work s))"
    and R: "R = set (set_items (roots (work s))) \<union> set (set_items (globals (work s)))" "NULL \<notin> R"
      "\<forall>l \<in> R. root_loc E l"
    and P: "rootP E R s {} s"
    and fuel: "length (set_items (roots (work s))) < fuel" "length (set_items (globals (work s))) < fuel"
  shows "\<exists>s'. forwardRoots fuel (\<lambda>l. locCopy1_noSpaceCheck cfg l (src E)) s = Inr s' \<and> rootP E R s R s' \<and>
    set_items (roots (work s')) = [] \<and> set_items (globals (work s')) = [] \<and>
    set_ok (roots (work s')) \<and> set_ok (globals (work s'))"
proof -
  let ?rs = "set_items (roots (work s))" and ?gs = "set_items (globals (work s))"
  let ?f = "\<lambda>l. locCopy1_noSpaceCheck cfg l (src E)"
  have "\<exists>s' dn'. drain fuel takeRoot ?f s = Inr s' \<and> set_ok (roots (work s')) \<and> set_items (roots (work s')) = [] \<and>
      mset dn' = mset ?rs \<and> (rootP E R s (set dn') s' \<and> globals (work s') = globals (work s))"
  proof (rule roots_list.drain_all [where dn = "[]"])
    fix dn x and s1 s2 :: gcst
    assume t: "takeRoot s1 = (x, s2)" and ok2: "set_ok (roots (work s2))"
      and P: "rootP E R s (set dn) s1 \<and> globals (work s1) = globals (work s)"
      and M: "mset dn + add_mset x (mset (set_items (roots (work s2)))) = mset ?rs"
    have "set dn \<subseteq> R" "x \<in> R"
      using mset_split [OF M] R(1) by auto
    moreover have s2: "rootP E R s (set dn) s2" "globals (work s2) = globals (work s)"
      using P take_frame(1) [OF t] by (simp_all add: rootP_cong [of s2 s1])
    ultimately obtain s' where "?f x s2 = Inr s'" "work s' = work s2" "rootP E R s (insert x (set dn)) s'"
      using rootP_step [OF E seg _ R(3)] by blast
    then show "\<exists>s'. ?f x s2 = Inr s' \<and> set_ok (roots (work s')) \<and>
        set_items (roots (work s')) = set_items (roots (work s2)) \<and>
        rootP E R s (set (dn @ [x])) s' \<and> globals (work s') = globals (work s)"
      using ok2 s2(2) by auto
  qed (use ok R P fuel in auto)
  then obtain s1 where s1: "drain fuel takeRoot ?f s = Inr s1" "set_ok (roots (work s1))"
    "set_items (roots (work s1)) = []" "rootP E R s (set ?rs) s1" "globals (work s1) = globals (work s)"
    by (metis set_mset_mset)
  have "\<exists>s' dn'. drain fuel takeGlobal ?f s1 = Inr s' \<and> set_ok (globals (work s')) \<and> set_items (globals (work s')) = [] \<and>
      mset dn' = mset ?gs \<and> (rootP E R s (set ?rs \<union> set dn') s' \<and> roots (work s') = roots (work s1))"
  proof (rule globals_list.drain_all [where dn = "[]"])
    fix dn x and s2 s3 :: gcst
    assume t: "takeGlobal s2 = (x, s3)" and ok2: "set_ok (globals (work s3))"
      and P: "rootP E R s (set ?rs \<union> set dn) s2 \<and> roots (work s2) = roots (work s1)"
      and M: "mset dn + add_mset x (mset (set_items (globals (work s3)))) = mset ?gs"
    have "set ?rs \<union> set dn \<subseteq> R" "x \<in> R"
      using mset_split [OF M] R(1) by auto
    moreover have s3: "rootP E R s (set ?rs \<union> set dn) s3" "roots (work s3) = roots (work s1)"
      using P take_frame(2) [OF t] by (simp_all add: rootP_cong [of s3 s2])
    ultimately obtain s' where "?f x s3 = Inr s'" "work s' = work s3" "rootP E R s (insert x (set ?rs \<union> set dn)) s'"
      using rootP_step [OF E seg _ R(3)] by blast
    then show "\<exists>s'. ?f x s3 = Inr s' \<and> set_ok (globals (work s')) \<and>
        set_items (globals (work s')) = set_items (globals (work s3)) \<and>
        rootP E R s (set ?rs \<union> set (dn @ [x])) s' \<and> roots (work s') = roots (work s1)"
      using ok2 s3(2) by auto
  qed (use ok R s1 fuel in auto)
  then obtain s2 where "drain fuel takeGlobal ?f s1 = Inr s2" "set_ok (globals (work s2))"
    "set_items (globals (work s2)) = []" "rootP E R s (set ?rs \<union> set ?gs) s2" "roots (work s2) = roots (work s1)"
    by (metis set_mset_mset)
  then show ?thesis
    using s1 unfolding R(1) by (intro exI [of _ s2]) (simp add: forwardRoots_def)
qed

definition semi_env :: "nat \<Rightarrow> nat \<Rightarrow> addr set \<Rightarrow> gcst \<Rightarrow> env" where
  \<comment> \<open>the objects reachable from \<open>R\<close> in heap \<open>fs\<close>, with just enough room for them in heap \<open>ts\<close>\<close>
  "semi_env fs ts R s =
     (let X = reach (mem s) (hrange (hp s fs)) R
      in \<lparr>m0 = mem s, src = hrange (hp s fs), cobjs = X, tbase = hbottom (hp s ts),
          tlimit = hbottom (hp s ts) + 4 * (\<Sum>x \<in> X. osize (mem s) x)\<rparr>)"

lemma semi_env_sel [simp]:
  "m0 (semi_env fs ts R s) = mem s" "src (semi_env fs ts R s) = hrange (hp s fs)"
  "cobjs (semi_env fs ts R s) = reach (mem s) (hrange (hp s fs)) R"
  "tbase (semi_env fs ts R s) = hbottom (hp s ts)"
  "tlimit (semi_env fs ts R s) = hbottom (hp s ts) +
     4 * (\<Sum>x \<in> reach (mem s) (hrange (hp s fs)) R. osize (mem s) x)"
  by (simp_all add: semi_env_def Let_def)

lemma rootP_init:
  assumes "mem s = m0 E" "ccur s = tbase E" "tlimit E = tbase E + 4 * (\<Sum>x \<in> cobjs E. osize (m0 E) x)"
  shows "rootP E R s {} s"
proof -
  have "cinv E (\<lambda>_. 0) [] (mem s) (ccur s)"
    using assms by (simp add: cinv_def space_ok_def tiles_ok_def source_ok_def otag_def)
  then have "rootinv E R {} [] s"
    using assms(1) by (simp add: rootinv_def)
  then show ?thesis
    unfolding rootP_def by auto
qed

lemma scan_after_roots:
  \<comment> \<open>once every root location is forwarded, the scan of the copies completes the collection\<close>
  assumes E: "env_ok E" and m0: "m0 E = mem s" and cfg: "arraySegmentSize cfg = 0"
    and limit: "tlimit E = tbase E + 4 * (\<Sum>x \<in> cobjs E. osize (m0 E) x)"
    and R: "\<forall>l \<in> R. root_loc E l" "cobjs E = reach (m0 E) (src E) R" and P: "rootP E R s R s1"
    and fuel: "(\<Sum>x \<in> cobjs E. osize (m0 E) x) \<le> fuel"
  shows "\<exists>s2 us. scanUntil_locCopy1_noSpaceCheck fuel cfg (tbase E) (src E) s1 = Inr s2 \<and>
    cinv E (\<lambda>x. if x \<in> copied us then olen (m0 E) x else 0) us (mem s2) (ccur s2) \<and>
    copied us = cobjs E \<and> (\<forall>l \<in> R. mem s2 l = fwd E us (mem s l)) \<and>
    (\<forall>a. a \<notin> R \<longrightarrow> \<not> (tbase E \<le> a \<and> a < tlimit E) \<longrightarrow> (\<forall>x \<in> cobjs E. a \<noteq> x - 4) \<longrightarrow> mem s2 a = mem s a) \<and>
    hp s2 = hp s \<and> copyRg s2 = (copyRg s)\<lparr>crCursor := ccur s2\<rparr> \<and> work s2 = work s1"
proof -
  obtain ts where inv: "rootinv E R R ts s1" and fr: "hp s1 = hp s" "copyRg s1 = (copyRg s)\<lparr>crCursor := ccur s1\<rparr>"
    using P unfolding rootP_def by blast
  have c: "cinv E (\<lambda>_. 0) ([] @ ts) (mem s1) (ccur s1)"
    using inv by (simp add: rootinv_def)
  obtain us vs s2 where s2: "scanLoop fuel (\<lambda>cur. scanTag_locCopy1_noSpaceCheck cfg cur (src E)) ccur (tbase E) s1
      = Inr (ccur s2, s2)"
    "cinv E (\<lambda>x. if x \<in> copied us then olen (m0 E) x else 0) us (mem s2) (ccur s2)" "us = ts @ vs" "gframe E s1 s2"
    using scan_to_space [OF E cfg c, of fuel] limit fuel by auto
  have out: "\<not> (tbase E \<le> l \<and> l < tlimit E)" "\<forall>x \<in> cobjs E. l \<noteq> x - 4" if "l \<in> R" for l
    using R(1) that by (auto simp: root_loc_def)
  have keep: "mem s2 a = mem s1 a" if "\<not> (tbase E \<le> a \<and> a < tlimit E)" "\<forall>x \<in> cobjs E. a \<noteq> x - 4" for a
    using s2(4) that by (simp add: gframe_def)
  have rd: "root_done E us (mem s2) l" if "l \<in> R" for l
    unfolding s2(3) using inv that keep [OF out [OF that]] by (intro root_done_ext) (auto simp: rootinv_def)
  have "copied us = cobjs E"
    using rd by (intro cinv_complete [OF s2(2) R(2)]) (auto simp: root_done_def)
  moreover have "scanUntil_locCopy1_noSpaceCheck fuel cfg (tbase E) (src E) s1 = Inr s2"
    using s2(1) by (simp add: scanUntil_locCopy1_noSpaceCheck_def scanArea_def)
  moreover have "copyRg s2 = (copyRg s)\<lparr>crCursor := ccur s2\<rparr>" "hp s2 = hp s" "work s2 = work s1"
    using s2(4) fr unfolding gframe_def by (metis copyRange.surjective copyRange.update_convs(2))+
  moreover have "mem s2 a = mem s a"
    if "a \<notin> R" "\<not> (tbase E \<le> a \<and> a < tlimit E)" "\<forall>x \<in> cobjs E. a \<noteq> x - 4" for a
    using keep that inv m0 by (simp add: rootinv_def)
  ultimately show ?thesis
    using rd s2(2) m0 by (intro exI [of _ s2] exI [of _ us]) (simp add: root_done_def)
qed

lemma return_and_clear:
  assumes "crHeap (copyRg s) = Some h" "hcursor (hp s h) = crReserve (copyRg s)" "crStart (copyRg s) \<noteq> NULL"
  shows "\<exists>s'. ReturnCopyRange s = Inr s' \<and> ClearCopyRange s' =
    Inr (s\<lparr>hp := (hp s)(h := (hp s h)\<lparr>hcursor := ccur s\<rparr>), copyRg := InitCopyRange None\<rparr>)"
  using assms by (simp add: ReturnCopyRange_def ClearCopyRange_def padArea_ok Let_def)

lemma semi_work_correct:
  \<comment> \<open>forwarding the roots and scanning to-space\<close>
  assumes E: "env_ok E" and m0: "m0 E = mem s" and cur: "ccur s = tbase E"
    and limit: "tlimit E = tbase E + 4 * (\<Sum>x \<in> cobjs E. osize (m0 E) x)"
    and cfg: "arraySegmentSize cfg = 0" "ordering cfg = ImplicitOrder" "\<not> forceSpaceCheck cfg"
    and ok: "set_ok (roots (work s))" "set_ok (globals (work s))"
    and R: "R = set (set_items (roots (work s))) \<union> set (set_items (globals (work s)))" "NULL \<notin> R"
      "\<forall>l \<in> R. root_loc E l" "cobjs E = reach (m0 E) (src E) R"
    and fuel: "length (set_items (roots (work s))) < fuel" "length (set_items (globals (work s))) < fuel"
      "(\<Sum>x \<in> cobjs E. osize (m0 E) x) \<le> fuel"
  shows "\<exists>s' us. semiCopyWork fuel cfg (src E) (tbase E) s = Inr s' \<and>
    cinv E (\<lambda>x. if x \<in> copied us then olen (m0 E) x else 0) us (mem s') (ccur s') \<and>
    copied us = cobjs E \<and> (\<forall>l \<in> R. mem s' l = fwd E us (mem s l)) \<and>
    (\<forall>a. a \<notin> R \<longrightarrow> \<not> (tbase E \<le> a \<and> a < tlimit E) \<longrightarrow> (\<forall>x \<in> cobjs E. a \<noteq> x - 4) \<longrightarrow> mem s' a = mem s a) \<and>
    hp s' = hp s \<and> copyRg s' = (copyRg s)\<lparr>crCursor := ccur s'\<rparr> \<and>
    set_items (roots (work s')) = [] \<and> set_ok (roots (work s'))"
proof -
  obtain s1 where s1: "forwardRoots fuel (\<lambda>l. locCopy1_noSpaceCheck cfg l (src E)) s = Inr s1"
    and P: "rootP E R s R s1" and emp: "set_items (roots (work s1)) = []" "set_ok (roots (work s1))"
    using forward_roots_correct [OF E cfg(1) ok R(1-3) rootP_init [OF m0 [symmetric] cur limit] fuel(1,2)] by blast
  obtain s2 us where s2: "scanUntil_locCopy1_noSpaceCheck fuel cfg (tbase E) (src E) s1 = Inr s2"
    "cinv E (\<lambda>x. if x \<in> copied us then olen (m0 E) x else 0) us (mem s2) (ccur s2)" "copied us = cobjs E"
    "\<forall>l \<in> R. mem s2 l = fwd E us (mem s l)"
    "\<forall>a. a \<notin> R \<longrightarrow> \<not> (tbase E \<le> a \<and> a < tlimit E) \<longrightarrow> (\<forall>x \<in> cobjs E. a \<noteq> x - 4) \<longrightarrow> mem s2 a = mem s a"
    "hp s2 = hp s" "copyRg s2 = (copyRg s)\<lparr>crCursor := ccur s2\<rparr>" "work s2 = work s1"
    using scan_after_roots [OF E m0 cfg(1) limit R(3,4) P fuel(3)] by blast
  have "semiCopyWork fuel cfg (src E) (tbase E) s = Inr s2"
    using s1 s2(1) cfg by (simp add: semiCopyWork_def)
  then show ?thesis
    using s2 emp by (intro exI [of _ s2] exI [of _ us]) simp
qed

definition tiled :: "memory \<Rightarrow> addr set \<Rightarrow> (addr \<Rightarrow> addr) \<Rightarrow> addr \<Rightarrow> addr \<Rightarrow> memory \<Rightarrow> bool" where
  \<comment> \<open>the area from \<open>lo\<close> to \<open>hi\<close> consists of the copies of \<open>X\<close>, each once, and one-word skips\<close>
  "tiled m X f lo hi m' \<longleftrightarrow>
     (\<exists>ts. distinct (filter (\<lambda>t. t \<noteq> None) ts) \<and> copied ts = X \<and> (\<forall>x \<in> X. f x = place m lo ts x) \<and>
        hi = lend m lo ts \<and> (\<forall>p. (p, None) \<in> set (layout m lo ts) \<longrightarrow> m' p = MAKE_SKIP 1))"

definition relocated ::
    "memory \<Rightarrow> range_t \<Rightarrow> addr set \<Rightarrow> addr set \<Rightarrow> (addr \<Rightarrow> addr) \<Rightarrow> addr \<Rightarrow> addr \<Rightarrow> addr \<Rightarrow> memory \<Rightarrow> bool" where
  \<comment> \<open>\<open>m'\<close> has the copies of \<open>X\<close> from \<open>lo\<close> to \<open>hi\<close> and the relocated roots, and agrees with \<open>m\<close> outside
     the roots, the area up to \<open>lim\<close> and the tags of the originals\<close>
  "relocated m sp R X f lo hi lim m' \<longleftrightarrow> copies m sp X f m' \<and> tiled m X f lo hi m' \<and>
     (\<forall>x \<in> X. lo + 4 \<le> f x \<and> f x + 4 * olen m x \<le> hi) \<and>
     (\<forall>l \<in> R. m' l = reloc sp f (m l)) \<and>
     (\<forall>a. a \<notin> R \<longrightarrow> \<not> (lo \<le> a \<and> a < lim) \<longrightarrow> (\<forall>x \<in> X. a \<noteq> x - 4) \<longrightarrow> m' a = m a)"

lemma semi_copy_correct:
  assumes cfg: "arraySegmentSize cfg = 0" "ordering cfg = ImplicitOrder" "\<not> forceSpaceCheck cfg"
    and mprot: "\<forall>a n. mprot a n"
    and heaps: "fs \<noteq> ts" "heap_ok (hp s fs)" "heap_ok (hp s ts)"
      "Heap_GetSize (hp s fs) \<le> Heap_GetMaximumSize (hp s ts)"
    and cr: "crHeap (copyRg s) \<noteq> Some ts"
    and lists: "set_ok (roots (work s))" "set_ok (globals (work s))"
    and R: "R = set (set_items (roots (work s))) \<union> set (set_items (globals (work s)))" "NULL \<notin> R"
    and X: "X = reach (mem s) (hrange (hp s fs)) R"
    and env: "env_ok (semi_env fs ts R s)" "\<forall>l \<in> R. root_loc (semi_env fs ts R s) l"
    and fits: "4 * (\<Sum>x \<in> X. osize (mem s) x) \<le> Heap_GetSize (hp s fs)"
    and fuel: "length (set_items (roots (work s))) < fuel" "length (set_items (globals (work s))) < fuel"
      "(\<Sum>x \<in> X. osize (mem s) x) \<le> fuel"
  shows "\<exists>s' f. GCCollect_Semi_copy fuel cfg mprot paranoid fs ts s = Inr s' \<and>
    relocated (mem s) (hrange (hp s fs)) R X f (hbottom (hp s ts)) (hcursor (hp s' ts))
      (hbottom (hp s ts) + 4 * (\<Sum>x \<in> X. osize (mem s) x)) (mem s') \<and>
    hcursor (hp s' ts) \<le> hbottom (hp s ts) + 4 * (\<Sum>x \<in> X. osize (mem s) x) \<and>
    hbottom (hp s ts) + 4 * (\<Sum>x \<in> X. osize (mem s) x) \<le> htop (hp s' ts) \<and>
    (\<forall>i. i \<noteq> ts \<longrightarrow> hp s' i = hp s i) \<and> heap_ok (hp s' ts) \<and> hbottom (hp s' ts) = hbottom (hp s ts) \<and>
    hmapped (hp s' ts) = hmapped (hp s ts)"
proof -
  let ?E = "semi_env fs ts R s" and ?b = "hbottom (hp s ts)"
  obtain to where to: "Heap_Resize mprot paranoid (hp s ts) (Heap_GetSize (hp s fs)) True = Inr to" "heap_ok to"
    "hbottom to = ?b" "hrange to = hrange (hp s ts)" "htop to = ?b + 4 * (Heap_GetSize (hp s fs) div 4)"
    "hcursor to = ?b" "hmapped to = hmapped (hp s ts)"
    by (rule Heap_Resize_ok [OF heaps(3,4), of True mprot paranoid]) (use mprot in simp_all)
  have sz: "?b + 4 * (\<Sum>x \<in> X. osize (mem s) x) \<le> htop to"
    using fits unfolding to(5) by simp
  define cp where "cp = \<lparr>crStart = ?b, crCursor = ?b, crStop = htop to, crReserve = htop to, crHeap = Some ts\<rparr>"
  define s1 where "s1 = s\<lparr>hp := (hp s)(ts := to\<lparr>hcursor := htop to\<rparr>), copyRg := cp\<rparr>"
  have alloc: "AllocEntireCopyRange (SetCopyRange ts (s\<lparr>hp := (hp s)(ts := to)\<rparr>)) = Inr s1"
    using cr by (simp add: AllocEntireCopyRange_def SetCopyRange_def InitCopyRange_def to cp_def s1_def Let_def)
  have s1: "mem s1 = mem s" "work s1 = work s" "copyRg s1 = cp" "hp s1 fs = hp s fs" "hp s1 ts = to\<lparr>hcursor := htop to\<rparr>"
    using heaps(1) by (simp_all add: s1_def)
  have low: "low (hrange (hp s1 ts)) = ?b"
    using to(2) by (simp add: s1 heap_ok_def SetRange_def to(3))
  have pre: "m0 ?E = mem s1" "ccur s1 = tbase ?E" "tlimit ?E = tbase ?E + 4 * (\<Sum>x \<in> cobjs ?E. osize (m0 ?E) x)"
    "set_ok (roots (work s1))" "set_ok (globals (work s1))"
    "R = set (set_items (roots (work s1))) \<union> set (set_items (globals (work s1)))"
    "length (set_items (roots (work s1))) < fuel" "length (set_items (globals (work s1))) < fuel"
    "(\<Sum>x \<in> cobjs ?E. osize (m0 ?E) x) \<le> fuel" "cobjs ?E = reach (m0 ?E) (src ?E) R"
    using lists R(1) fuel by (simp_all add: s1 cp_def X)
  obtain s2 us where s2: "semiCopyWork fuel cfg (hrange (hp s fs)) ?b s1 = Inr s2"
    and inv: "cinv ?E (\<lambda>x. if x \<in> copied us then olen (mem s) x else 0) us (mem s2) (ccur s2)"
    and all: "copied us = X" and roots: "\<forall>l \<in> R. mem s2 l = fwd ?E us (mem s l)"
    and frame: "\<forall>a. a \<notin> R \<longrightarrow> \<not> (?b \<le> a \<and> a < ?b + 4 * (\<Sum>x \<in> X. osize (mem s) x)) \<longrightarrow>
      (\<forall>x \<in> X. a \<noteq> x - 4) \<longrightarrow> mem s2 a = mem s a"
    and fr: "hp s2 = hp s1" "copyRg s2 = cp\<lparr>crCursor := ccur s2\<rparr>" "set_items (roots (work s2)) = []"
      "set_ok (roots (work s2))"
    using semi_work_correct [OF env(1) pre(1-3) cfg pre(4-6) R(2) env(2) pre(10) pre(7-9)]
    unfolding semi_env_sel s1 X [symmetric] by blast
  have end': "ccur s2 \<le> ?b + 4 * (\<Sum>x \<in> X. osize (mem s) x)" "?b \<le> ccur s2"
    using lend_limit [OF cinv_space [OF inv]] cinv_end [OF inv] lend_ge X by simp_all
  have crs: "crHeap (copyRg s2) = Some ts" "crReserve (copyRg s2) = htop to" "crStart (copyRg s2) \<noteq> NULL"
    using arg_cong [OF fr(2), of crHeap] arg_cong [OF fr(2), of crReserve] arg_cong [OF fr(2), of crStart]
      heaps(3) by (simp_all add: cp_def heap_ok_def NULL_def)
  define s3 where "s3 = s2\<lparr>hp := (hp s2)(ts := (hp s2 ts)\<lparr>hcursor := ccur s2\<rparr>), copyRg := InitCopyRange None\<rparr>"
  obtain s2' where ret: "ReturnCopyRange s2 = Inr s2'" "ClearCopyRange s2' = Inr s3"
    using return_and_clear [OF crs(1) _ crs(3)] by (auto simp: s3_def crs fr(1) s1)
  have run: "GCCollect_Semi_copy fuel cfg mprot paranoid fs ts s = Inr s3"
    using cfg to(1) alloc s2 ret low SetIsEmpty_items [OF fr(4)] fr(3) s1(4)
    by (simp add: GCCollect_Semi_copy_def Let_def s3_def)
  have "copies (mem s) (hrange (hp s fs)) X (phi ?E us) (mem s2)"
    using cinv_copies [OF env(1), of us, unfolded semi_env_sel, OF inv] unfolding all .
  moreover have "?b + 4 \<le> phi ?E us x \<and> phi ?E us x + 4 * olen (mem s) x \<le> ccur s2" if "x \<in> X" for x
    using phi_bounds(1,2) [OF env(1) cinv_space [OF inv], of x] that all cinv_end [OF inv] by simp
  moreover have "tiled (mem s) X (phi ?E us) ?b (ccur s2) (mem s2)"
    unfolding tiled_def using cinv_distinct [OF inv] cinv_end [OF inv] cinv_tiles [OF inv] all
    by (intro exI [of _ us]) (simp add: phi_def tiles_ok_def)
  moreover have "4 dvd ccur s2"
    using lend_dvd [of "?b" "mem s" us] cinv_end [OF inv] env(1) by (simp add: env_ok_def)
  then have "heap_ok (to\<lparr>hcursor := ccur s2\<rparr>)"
    using to(2) end' sz by (simp add: heap_ok_def to(3))
  ultimately show ?thesis
    using end' roots frame sz to(3,7)
    by (intro exI [of _ s3] exI [of _ "phi ?E us"])
      (auto simp: run s3_def fwd_reloc fr(1) s1 s1_def relocated_def)
qed

text \<open>C2: the default semispace collection returns, with a map \<open>f\<close> from the objects reachable from the
  roots to their copies: the copies lie in to-space and apart from each other, each has the tag and
  the fields of its original with the pointers to the old space relocated by \<open>f\<close>, every root
  location has its relocated value, to-space is used up to at most the sum of the sizes of the
  reachable objects, and the rest of memory is as before but for the tags of the originals.\<close>

theorem semi_collection_correct:
  assumes cfg: "arraySegmentSize cfg = 0" "ordering cfg = ImplicitOrder" "\<not> forceSpaceCheck cfg"
    and mprot: "\<forall>a n. mprot a n"
    and heaps: "fs \<noteq> ts" "heap_ok (hp s fs)" "heap_ok (hp s ts)"
      "Heap_GetSize (hp s fs) \<le> Heap_GetMaximumSize (hp s ts)"
    and cr: "crHeap (copyRg s) \<noteq> Some ts"
    and lists: "set_ok (roots (work s))" "set_ok (globals (work s))"
    and R: "R = set (set_items (roots (work s))) \<union> set (set_items (globals (work s)))" "NULL \<notin> R"
    and X: "X = reach (mem s) (hrange (hp s fs)) R"
    and env: "env_ok (semi_env fs ts R s)" "\<forall>l \<in> R. root_loc (semi_env fs ts R s) l"
    and fits: "4 * (\<Sum>x \<in> X. osize (mem s) x) \<le> Heap_GetSize (hp s fs)"
    and fuel: "length (set_items (roots (work s))) < fuel" "length (set_items (globals (work s))) < fuel"
      "(\<Sum>x \<in> X. osize (mem s) x) \<le> fuel"
  shows "\<exists>s' f. GCCollect_Semi_copy fuel cfg mprot paranoid fs ts s = Inr s' \<and>
    copies (mem s) (hrange (hp s fs)) X f (mem s') \<and>
    (\<forall>x \<in> X. hbottom (hp s ts) + 4 \<le> f x \<and> f x + 4 * olen (mem s) x \<le> hcursor (hp s' ts)) \<and>
    hcursor (hp s' ts) \<le> hbottom (hp s ts) + 4 * (\<Sum>x \<in> X. osize (mem s) x) \<and>
    (\<forall>l \<in> R. mem s' l = reloc (hrange (hp s fs)) f (mem s l)) \<and>
    (\<forall>a. a \<notin> R \<longrightarrow> \<not> (hbottom (hp s ts) \<le> a \<and> a < htop (hp s' ts)) \<longrightarrow> (\<forall>x \<in> X. a \<noteq> x - 4) \<longrightarrow>
       mem s' a = mem s a)"
proof -
  obtain s' f where s': "GCCollect_Semi_copy fuel cfg mprot paranoid fs ts s = Inr s'"
    "relocated (mem s) (hrange (hp s fs)) R X f (hbottom (hp s ts)) (hcursor (hp s' ts))
      (hbottom (hp s ts) + 4 * (\<Sum>x \<in> X. osize (mem s) x)) (mem s')"
    "hcursor (hp s' ts) \<le> hbottom (hp s ts) + 4 * (\<Sum>x \<in> X. osize (mem s) x)"
    and top: "hbottom (hp s ts) + 4 * (\<Sum>x \<in> X. osize (mem s) x) \<le> htop (hp s' ts)"
    using semi_copy_correct [OF assms] by blast
  have lt: "\<not> (hbottom (hp s ts) \<le> a \<and> a < htop (hp s' ts)) \<Longrightarrow>
      \<not> (hbottom (hp s ts) \<le> a \<and> a < hbottom (hp s ts) + 4 * (\<Sum>x \<in> X. osize (mem s) x))" for a
    using top by linarith
  show ?thesis
    using s' lt unfolding relocated_def by (intro exI [of _ s'] exI [of _ f]) simp
qed

text \<open>A record of two fields at 8200 and one of one field at 8212 that point at each other, with one root.\<close>

definition demo_mem :: memory where
  "demo_mem = (\<lambda>_. 0)(100 := 8200, 8196 := MAKE_REC 2 1, 8200 := 8212, 8204 := 7, 8208 := MAKE_REC 1 1, 8212 := 8200)"

definition demo_to :: heap where
  "demo_to = \<lparr>hid = 1, hvalid = True, hbottom = 32768, htop = 32768 + 400, hmapped = 49152, hwriteable = 49152,
     hcursor = 32768, hsize = 16384, hrange = SetRange 32768 49152, hfresh = [0], hstarts = None\<rparr>"

definition demo_semi :: gcst where
  "demo_semi = (demo_gcst demo_mem)\<lparr>hp := (\<lambda>h. if h = 0 then demo_heap else demo_to),
     copyRg := InitCopyRange None,
     work := demo_work\<lparr>roots := (SetInit 32)\<lparr>sdata := 100 # replicate 31 0, slast := 1\<rparr>\<rparr>\<rparr>"

lemma demo_semi_sel:
  "mem demo_semi = demo_mem" "hp demo_semi 0 = demo_heap" "hp demo_semi 1 = demo_to"
  "set_items (roots (work demo_semi)) = [100]" "set_items (globals (work demo_semi)) = []"
  "set_ok (roots (work demo_semi))" "set_ok (globals (work demo_semi))"
  "crHeap (copyRg demo_semi) = None"
  by (simp_all add: demo_semi_def demo_gcst_def demo_work_def set_items_def SetInit_def set_ok_def InitCopyRange_def)

lemma demo_range: "hrange demo_heap = SetRange 8192 24576"
  by (simp add: demo_heap_def)

lemma demo_InRange: "InRange (unat (v :: val)) (SetRange 8192 24576) \<longleftrightarrow> 8192 \<le> unat v \<and> unat v \<le> 24576"
proof -
  have "unat v < 2 ^ 32"
    using unsigned_less [of v] by simp
  then show ?thesis
    by (subst InRange_iff) (auto simp: range_ok_def SetRange_def)
qed

lemma demo_words:
  "demo_mem 100 = 8200" "demo_mem 8200 = 8212" "demo_mem 8212 = 8200"
  "\<not> TAG_IS_FORWARD (MAKE_REC 2 1)" "\<not> TAG_IS_FORWARD (MAKE_REC 1 1)"
  "GET_TYPE (MAKE_REC 2 1) = RECORD_TYPE" "GET_TYPE (MAKE_REC 1 1) = RECORD_TYPE"
  by (simp_all add: demo_mem_def) code_simp+

lemma demo_tags:
  "otag demo_mem 8200 = MAKE_REC 2 1" "otag demo_mem 8212 = MAKE_REC 1 1"
  "olen demo_mem 8200 = 2" "olen demo_mem 8212 = 1" "is_ptr demo_mem 8200 i \<longleftrightarrow> i = 0" "is_ptr demo_mem 8212 i \<longleftrightarrow> i = 0"
  "osize demo_mem 8200 = 3" "osize demo_mem 8212 = 2"
proof -
  have t: "GET_TYPE (MAKE_REC 2 1) = RECORD_TYPE" "GET_TYPE (MAKE_REC 1 1) = RECORD_TYPE"
    "GET_RECLEN (MAKE_REC 2 1) = 2" "GET_RECLEN (MAKE_REC 1 1) = 1"
    "GET_RECMASK (MAKE_REC 2 1) = 1" "GET_RECMASK (MAKE_REC 1 1) = 1"
    by code_simp+
  show o: "otag demo_mem 8200 = MAKE_REC 2 1" "otag demo_mem 8212 = MAKE_REC 1 1"
    by (simp_all add: otag_def demo_mem_def)
  show "olen demo_mem 8200 = 2" "olen demo_mem 8212 = 1" "is_ptr demo_mem 8200 i \<longleftrightarrow> i = 0"
    "is_ptr demo_mem 8212 i \<longleftrightarrow> i = 0" "osize demo_mem 8200 = 3" "osize demo_mem 8212 = 2"
    by (simp_all add: olen_def is_ptr_def osize_def o t bit_1_iff)
qed

lemma demo_reach: "reach demo_mem (SetRange 8192 24576) {100} = {8200, 8212}"
proof
  show "reach demo_mem (SetRange 8192 24576) {100} \<subseteq> {8200, 8212}"
    by (rule reach_closed) (simp_all add: demo_tags, simp_all add: demo_mem_def)
  have "unat (demo_mem 100) \<in> reach demo_mem (SetRange 8192 24576) {100}"
    by (rule reach.root) (simp_all add: demo_InRange, simp_all add: demo_mem_def)
  then have 1: "8200 \<in> reach demo_mem (SetRange 8192 24576) {100}"
    by (simp add: demo_mem_def)
  have "unat (demo_mem (8200 + 4 * 0)) \<in> reach demo_mem (SetRange 8192 24576) {100}"
    by (rule reach.field [OF 1]) (simp_all add: demo_InRange demo_tags, simp_all add: demo_mem_def)
  then show "{8200, 8212} \<subseteq> reach demo_mem (SetRange 8192 24576) {100}"
    using 1 by (simp add: demo_mem_def)
qed

theorem semi_collection_correct_witness:
  "\<exists>s' f. GCCollect_Semi_copy 10 demo_config (\<lambda>_ _. True) False 0 1 demo_semi = Inr s' \<and>
    copies (mem demo_semi) (hrange (hp demo_semi 0)) {8200, 8212} f (mem s') \<and>
    mem s' 100 = reloc (hrange (hp demo_semi 0)) f 8200"
proof -
  have to: "heap_ok demo_to"
    by (simp add: heap_ok_def demo_to_def TILT_PAGESIZE_def)
  have E: "env_ok (semi_env 0 1 {100} demo_semi)"
    unfolding env_ok_def semi_env_sel demo_semi_sel demo_range demo_reach
    by (simp add: demo_tags demo_words demo_to_def range_ok_def SetRange_def)
  have R: "\<forall>l \<in> {100}. root_loc (semi_env 0 1 {100} demo_semi) l"
    unfolding root_loc_def semi_env_sel demo_semi_sel demo_range demo_reach
    by (simp add: demo_tags demo_to_def demo_mem_def)
  have cfg: "arraySegmentSize demo_config = 0" "ordering demo_config = ImplicitOrder" "\<not> forceSpaceCheck demo_config"
    by (simp_all add: demo_config_def)
  have sizes: "Heap_GetSize demo_heap = 400" "Heap_GetMaximumSize demo_to = 16384"
    unfolding heap_ok_sizes(2) [OF demo_heap_ok] heap_ok_sizes(1) [OF to] by (simp_all add: demo_heap_def demo_to_def)
  have "\<exists>s' f. GCCollect_Semi_copy 10 demo_config (\<lambda>_ _. True) False 0 1 demo_semi = Inr s' \<and>
    copies (mem demo_semi) (hrange (hp demo_semi 0)) {8200, 8212} f (mem s') \<and>
    (\<forall>x \<in> {8200, 8212}. hbottom (hp demo_semi 1) + 4 \<le> f x \<and>
      f x + 4 * olen (mem demo_semi) x \<le> hcursor (hp s' 1)) \<and>
    hcursor (hp s' 1) \<le> hbottom (hp demo_semi 1) + 4 * (\<Sum>x \<in> {8200, 8212}. osize (mem demo_semi) x) \<and>
    (\<forall>l \<in> {100}. mem s' l = reloc (hrange (hp demo_semi 0)) f (mem demo_semi l)) \<and>
    (\<forall>a. a \<notin> {100} \<longrightarrow> \<not> (hbottom (hp demo_semi 1) \<le> a \<and> a < htop (hp s' 1)) \<longrightarrow>
       (\<forall>x \<in> {8200, 8212}. a \<noteq> x - 4) \<longrightarrow> mem s' a = mem demo_semi a)"
    by (rule semi_collection_correct [OF cfg _ _ _ _ _ _ _ _ _ _ _ E R])
      (simp_all add: demo_semi_sel demo_range demo_reach demo_tags demo_heap_ok to sizes NULL_def del: One_nat_def)
  then show ?thesis
    by (metis demo_semi_sel(1) demo_words(1) insertI1)
qed

end
