(* ===== verification/Doubles.thy ===== *)
theory Doubles
  imports Complex_Main Tilt_Prelude
begin

text \<open>
  Double precision.  The value of an operation on doubles is the rounded value of the exact result;
  the rounding of the machine is an argument \<open>rnd\<close> of every definition that computes with doubles,
  and \<open>rounding\<close> is what the lemmas rely on.  Overflow and division by zero do not occur in the
  modelled code, under hypotheses that the lemmas state.
\<close>

definition ctrunc :: "real \<Rightarrow> int" where
  \<comment> \<open>the cast \<open>(int)\<close> of a double\<close>
  "ctrunc x = (if 0 \<le> x then \<lfloor>x\<rfloor> else \<lceil>x\<rceil>)"

definition rounding :: "(real \<Rightarrow> real) \<Rightarrow> bool" where
  \<comment> \<open>double precision is monotone and exact on the 32-bit integers\<close>
  "rounding rnd \<longleftrightarrow> mono rnd \<and> (\<forall>i::int. \<bar>i\<bar> \<le> 2147483648 \<longrightarrow> rnd (of_int i) = of_int i)"

lemma rounding_exact: "rounding rnd \<Longrightarrow> 0 \<le> i \<Longrightarrow> i \<le> 2147483648 \<Longrightarrow> rnd (of_int i) = of_int i"
  by (simp add: rounding_def)

lemma rounding_mono: "rounding rnd \<Longrightarrow> x \<le> y \<Longrightarrow> rnd x \<le> rnd y"
  by (simp add: rounding_def monoD)

lemma rounding_0_1: "rounding rnd \<Longrightarrow> rnd 0 = 0" "rounding rnd \<Longrightarrow> rnd 1 = 1"
  using rounding_exact [of rnd 0] rounding_exact [of rnd 1] by simp_all

lemma rounding_id: "rounding (\<lambda>x. x)"
  by (simp add: rounding_def mono_def)

end
