(* ===== verification/HeapSize.thy ===== *)
theory HeapSize
  imports Doubles HeapObj
begin

text \<open>
  The size of the heap after a collection: \<open>computeReserve\<close> to \<open>HeapAdjust2\<close> of
  \<open>Runtime/sparc/gc.c\<close>.  The desired size follows from the amount of live data by a liveness ratio
  that is interpolated between \<open>MinRatio\<close> and \<open>MaxRatio\<close>, and is then forced between \<open>MinHeapByte\<close>
  and \<open>MaxHeapByte\<close>; the concurrent collectors (\<open>phases\<close> 1 and 2) hold a part of it in reserve.
  Sizes are integers: no value here leaves the range of \<open>long\<close> under the hypotheses of the lemmas.
  Warnings and statistics are left out.
\<close>

record sizes =
  MinHeapByte :: int
  MaxHeapByte :: int
  MinRatio :: real
  MaxRatio :: real
  MinRatioSize :: int            \<comment> \<open>in kilobytes\<close>
  MaxRatioSize :: int
  minOnRequest :: int
  NumProcs :: int                \<comment> \<open>\<open>NumProc\<close>\<close>
  relaxedSizes :: bool           \<comment> \<open>\<open>relaxed\<close>\<close>

definition iRoundUp :: "int \<Rightarrow> int \<Rightarrow> int" where
  "iRoundUp x mult = cdiv (x + mult - 1) mult * mult"

definition iRoundDown :: "int \<Rightarrow> int \<Rightarrow> int" where
  "iRoundDown x mult = cdiv x mult * mult"

definition computeReserve :: "(real \<Rightarrow> real) \<Rightarrow> real \<Rightarrow> nat \<Rightarrow> real result" where
  "computeReserve rnd rate phases =
     bindE (assertE (rate > 1) ''rate > 1.0'') (\<lambda>_.
     if phases = 0 then Inr 0
     else if phases = 1 then Inr (rnd (rate / rnd (rate + 1)))
     else if phases = 2 then Inr (rnd (rnd (rate + 1) / rnd (rnd (rnd (rate * rate) + rate) + 1)))
     else Inl (Die ''invalid phases''))"

definition expandedToReduced :: "(real \<Rightarrow> real) \<Rightarrow> sizes \<Rightarrow> int \<Rightarrow> real \<Rightarrow> nat \<Rightarrow> int result" where
  "expandedToReduced rnd z sz rate phases =
     (if phases = 0 then Inr sz
      else bindE (computeReserve rnd rate phases) (\<lambda>r.
        let sz = iRoundUp sz (minOnRequest z);
            sz = ctrunc (rnd (of_int sz * rnd (1 - r)));
            sz = sz - 2 * NumProcs z * minOnRequest z
        in Inr (iRoundDown sz (minOnRequest z))))"

definition reducedToExpanded :: "(real \<Rightarrow> real) \<Rightarrow> sizes \<Rightarrow> int \<Rightarrow> real \<Rightarrow> nat \<Rightarrow> int result" where
  "reducedToExpanded rnd z sz rate phases =
     (if phases = 0 then Inr sz
      else bindE (computeReserve rnd rate phases) (\<lambda>r.
        let sz = iRoundUp sz (minOnRequest z);
            sz = sz + 2 * NumProcs z * minOnRequest z;
            sz = ctrunc (rnd (of_int sz / rnd (1 - r)))
        in Inr (iRoundDown sz (minOnRequest z))))"

definition targetRatio :: "(real \<Rightarrow> real) \<Rightarrow> sizes \<Rightarrow> int \<Rightarrow> real" where
  \<comment> \<open>\<open>newratio\<close> for the amount of live data\<close>
  "targetRatio rnd z live =
     (let rawWhere = rnd (of_int (live - 1024 * MinRatioSize z) / rnd (1024 * of_int (MaxRatioSize z - MinRatioSize z)));
          pos = (if rawWhere > 1 then 1 else if rawWhere < 0 then 0 else rawWhere)
      in rnd (MinRatio z + rnd (pos * rnd (MaxRatio z - MinRatio z))))"

definition ComputeHeapSize :: "(real \<Rightarrow> real) \<Rightarrow> sizes \<Rightarrow> int \<Rightarrow> real \<Rightarrow> real \<Rightarrow> nat \<Rightarrow> int result" where
  "ComputeHeapSize rnd z live curRatio rate phases =
     (let newReducedSize = iRoundUp (ctrunc (rnd (of_int live / targetRatio rnd z live))) 1024 in
      bindE (reducedToExpanded rnd z newReducedSize rate phases) (\<lambda>newExpandedSize.
      bindE (expandedToReduced rnd z (MaxHeapByte z) rate (if relaxedSizes z then 0 else phases)) (\<lambda>maxReducedSize.
      bindE (expandedToReduced rnd z (MinHeapByte z) rate (if relaxedSizes z then 0 else phases)) (\<lambda>minReducedSize.
      if live > maxReducedSize then Inl (Die ''out of memory'')
      else
        let (red, ex) = (if newExpandedSize > MaxHeapByte z then (maxReducedSize, MaxHeapByte z) else (newReducedSize, newExpandedSize));
            (red, ex) = (if ex < MinHeapByte z then (minReducedSize, MinHeapByte z) else (red, ex))
        in bindE (assertE (ex \<ge> MinHeapByte z) ''newExpandedSize >= MinHeapByte'') (\<lambda>_.
           bindE (assertE (ex \<le> MaxHeapByte z) ''newExpandedSize <= MaxHeapByte'') (\<lambda>_.
           bindE (assertE (red \<ge> live) ''newReducedSize >= live'') (\<lambda>_. Inr red)))))))"

definition HeapAdjust ::
    "(real \<Rightarrow> real) \<Rightarrow> sizes \<Rightarrow> (addr \<Rightarrow> nat \<Rightarrow> bool) \<Rightarrow> bool \<Rightarrow> int \<Rightarrow> int \<Rightarrow> int \<Rightarrow> real \<Rightarrow> nat \<Rightarrow> heap list \<Rightarrow> heap \<Rightarrow> heap result" where
  \<comment> \<open>the new \<open>to\<close>\<close>
  "HeapAdjust rnd z mprot paranoid request unused withhold rate phases froms to =
     bindE (assertE (request \<ge> 0) ''request >= 0'') (\<lambda>_.
     let occupied = - unused + (\<Sum>h \<leftarrow> froms. int (Heap_GetUsed h));
         copied = int (Heap_GetUsed to) in
     bindE (assertE (occupied \<ge> copied) ''occupied >= copied'') (\<lambda>_.
     bindE (assertE (copied \<ge> withhold) ''copied >= withhold'') (\<lambda>_.
     let live = copied + request in
     bindE (assertE (live \<ge> withhold) ''live >= withhold'') (\<lambda>_.
     let liveRatio = rnd (of_int (live - withhold) / of_int (occupied - withhold)) in
     bindE (ComputeHeapSize rnd z live liveRatio rate phases) (\<lambda>newSize.
     bindE (Heap_Resize mprot paranoid to (nat newSize) False) (\<lambda>to.
     if newSize - copied < request then Inl (Die ''out of memory'') else Inr to))))))"

definition HeapAdjust1 ::
    "(real \<Rightarrow> real) \<Rightarrow> sizes \<Rightarrow> (addr \<Rightarrow> nat \<Rightarrow> bool) \<Rightarrow> bool \<Rightarrow> int \<Rightarrow> int \<Rightarrow> int \<Rightarrow> real \<Rightarrow> nat \<Rightarrow> heap \<Rightarrow> heap \<Rightarrow> heap result" where
  "HeapAdjust1 rnd z mprot paranoid request unused withhold rate phases from1 to =
     HeapAdjust rnd z mprot paranoid request unused withhold rate phases [from1] to"

definition HeapAdjust2 ::
    "(real \<Rightarrow> real) \<Rightarrow> sizes \<Rightarrow> (addr \<Rightarrow> nat \<Rightarrow> bool) \<Rightarrow> bool \<Rightarrow> int \<Rightarrow> int \<Rightarrow> int \<Rightarrow> real \<Rightarrow> nat \<Rightarrow> heap \<Rightarrow> heap \<Rightarrow> heap \<Rightarrow> heap result" where
  "HeapAdjust2 rnd z mprot paranoid request unused withhold rate phases from1 from2 to =
     HeapAdjust rnd z mprot paranoid request unused withhold rate phases [from1, from2] to"

subsection \<open>The chosen size\<close>

definition sizes_ok :: "(real \<Rightarrow> real) \<Rightarrow> sizes \<Rightarrow> bool" where
  \<comment> \<open>the settings are doubles and \<open>long\<close>s in order, and the largest ratio is at most 1\<close>
  "sizes_ok rnd z \<longleftrightarrow> 0 \<le> MinHeapByte z \<and> MinHeapByte z \<le> MaxHeapByte z \<and> MaxHeapByte z \<le> 2147483648 \<and>
     4 dvd MinHeapByte z \<and> 4 dvd MaxHeapByte z \<and>
     MinRatioSize z < MaxRatioSize z \<and> 0 < MinRatio z \<and> MinRatio z \<le> MaxRatio z \<and>
     rnd (MinRatio z) = MinRatio z \<and> MinRatio z + rnd (rnd (MaxRatio z - MinRatio z)) \<le> 1"

lemma iRoundUp_ge:
  assumes "0 < m" and "0 \<le> x"
  shows "x \<le> iRoundUp x m"
proof -
  have "(x + m - 1) div m * m + (x + m - 1) mod m = x + m - 1" by (rule div_mult_mod_eq)
  moreover have "(x + m - 1) mod m < m" using assms(1) by (rule pos_mod_bound)
  ultimately have "x \<le> (x + m - 1) div m * m" by linarith
  then show ?thesis using assms by (simp add: iRoundUp_def cdiv_nonneg)
qed

lemma iRoundUp_dvd: "m dvd iRoundUp x m"
  by (simp add: iRoundUp_def)

lemma targetRatio_bounds:
  assumes r: "rounding rnd" and z: "sizes_ok rnd z"
  shows "0 < targetRatio rnd z live \<and> targetRatio rnd z live \<le> 1"
proof -
  define d where "d = rnd (MaxRatio z - MinRatio z)"
  have d: "0 \<le> d" using rounding_mono [OF r, of 0 "MaxRatio z - MinRatio z"] rounding_0_1 [OF r] z
    by (simp add: d_def sizes_ok_def)
  define w where "w = rnd (of_int (live - 1024 * MinRatioSize z) / rnd (1024 * of_int (MaxRatioSize z - MinRatioSize z)))"
  define p where "p = (if w > 1 then 1 else if w < 0 then 0 else w)"
  have p: "0 \<le> p" "p \<le> 1" "targetRatio rnd z live = rnd (MinRatio z + rnd (p * d))"
    by (simp_all add: p_def targetRatio_def d_def Let_def w_def)
  have "p * d \<le> d" "0 \<le> p * d" using p d by (simp_all add: mult_left_le_one_le)
  then have q: "0 \<le> rnd (p * d)" "rnd (p * d) \<le> rnd d"
    using rounding_mono [OF r, of 0 "p * d"] rounding_mono [OF r, of "p * d" d] rounding_0_1 [OF r] by simp_all
  then have "MinRatio z \<le> MinRatio z + rnd (p * d)" "MinRatio z + rnd (p * d) \<le> 1"
    using z by (simp_all add: sizes_ok_def d_def)
  then have "rnd (MinRatio z) \<le> targetRatio rnd z live" "targetRatio rnd z live \<le> rnd 1"
    unfolding p(3) by (simp_all add: rounding_mono [OF r])
  then show ?thesis using z rounding_0_1 [OF r] by (auto simp: sizes_ok_def)
qed

lemma wanted_size_ge:
  assumes r: "rounding rnd" and z: "sizes_ok rnd z" and l: "0 \<le> live" "live \<le> 2147483648"
  shows "live \<le> iRoundUp (ctrunc (rnd (of_int live / targetRatio rnd z live))) 1024"
proof -
  let ?t = "targetRatio rnd z live"
  have "of_int live \<le> (of_int live / ?t :: real)"
    using targetRatio_bounds [OF r z, of live] l(1) by (simp add: pos_le_divide_eq mult_left_le)
  then have "of_int live \<le> rnd (of_int live / ?t)" using rounding_mono [OF r] rounding_exact [OF r l] by metis
  then have "live \<le> ctrunc (rnd (of_int live / ?t))"
    using l(1) by (auto simp: ctrunc_def le_floor_iff)
  then show ?thesis using iRoundUp_ge [of 1024 "ctrunc (rnd (of_int live / ?t))"] l(1) by simp
qed

lemma ComputeHeapSize_stop_copy:
  \<comment> \<open>for the collectors without reserve\<close>
  assumes r: "rounding rnd" and z: "sizes_ok rnd z" and l: "0 \<le> live"
  shows "live \<le> MaxHeapByte z \<Longrightarrow> \<exists>n. ComputeHeapSize rnd z live q rate 0 = Inr n \<and> live \<le> n \<and> MinHeapByte z \<le> n \<and>
      n \<le> MaxHeapByte z \<and> 4 dvd n"
    "MaxHeapByte z < live \<Longrightarrow> ComputeHeapSize rnd z live q rate 0 = Inl (Die ''out of memory'')"
proof -
  let ?n = "iRoundUp (ctrunc (rnd (of_int live / targetRatio rnd z live))) 1024"
  have conv: "reducedToExpanded rnd z x rate 0 = Inr x" "expandedToReduced rnd z x rate (if relaxedSizes z then 0 else 0) = Inr x" for x
    by (simp_all add: reducedToExpanded_def expandedToReduced_def)
  show "MaxHeapByte z < live \<Longrightarrow> ComputeHeapSize rnd z live q rate 0 = Inl (Die ''out of memory'')"
    by (simp only: ComputeHeapSize_def conv Let_def bindE_Inr if_True)
  assume m: "live \<le> MaxHeapByte z"
  then have n: "live \<le> ?n" using wanted_size_ge [OF r z l] z by (simp add: sizes_ok_def)
  have "4 dvd ?n" using iRoundUp_dvd [of 1024] by (rule dvd_trans [rotated]) simp
  then show "\<exists>n. ComputeHeapSize rnd z live q rate 0 = Inr n \<and> live \<le> n \<and> MinHeapByte z \<le> n \<and> n \<le> MaxHeapByte z \<and> 4 dvd n"
    using m n z unfolding ComputeHeapSize_def conv Let_def bindE_Inr
    by (auto simp: sizes_ok_def)
qed

lemma heap_adjust_ok:
  assumes r: "rounding rnd" and z: "sizes_ok rnd z" and prot: "\<forall>a n. mprot a n" and to: "heap_ok to"
    and req: "0 \<le> request" and occ: "int (Heap_GetUsed to) \<le> - unused + (\<Sum>h \<leftarrow> froms. int (Heap_GetUsed h))"
    and fits: "MaxHeapByte z \<le> int (Heap_GetMaximumSize to)"
  shows "if int (Heap_GetUsed to) + request \<le> MaxHeapByte z
     then \<exists>to'. HeapAdjust rnd z mprot paranoid request unused 0 rate 0 froms to = Inr to' \<and> heap_ok to' \<and>
       hbottom to' = hbottom to \<and> hcursor to' = hcursor to \<and> request \<le> int (Heap_GetAvail to') \<and>
       MinHeapByte z \<le> int (Heap_GetSize to') \<and> int (Heap_GetSize to') \<le> MaxHeapByte z
     else HeapAdjust rnd z mprot paranoid request unused 0 rate 0 froms to = Inl (Die ''out of memory'')"
proof -
  let ?live = "int (Heap_GetUsed to) + request" and ?oc = "- unused + (\<Sum>h \<leftarrow> froms. int (Heap_GetUsed h))"
  let ?q = "rnd (of_int (?live - 0) / of_int (?oc - 0))"
  have run: "HeapAdjust rnd z mprot paranoid request unused 0 rate 0 froms to =
    bindE (ComputeHeapSize rnd z ?live ?q rate 0) (\<lambda>n. bindE (Heap_Resize mprot paranoid to (nat n) False) (\<lambda>to'.
      if n - int (Heap_GetUsed to) < request then Inl (Die ''out of memory'') else Inr to'))"
    using req occ by (simp add: HeapAdjust_def Let_def)
  show ?thesis
  proof (cases "?live \<le> MaxHeapByte z")
    case False
    then show ?thesis using ComputeHeapSize_stop_copy(2) [OF r z, of ?live ?q rate] req by (simp add: run)
  next
    case True
    obtain n where n: "ComputeHeapSize rnd z ?live ?q rate 0 = Inr n" "?live \<le> n" "MinHeapByte z \<le> n" "n \<le> MaxHeapByte z" "4 dvd n"
      using ComputeHeapSize_stop_copy(1) [OF r z _ True] req by auto
    obtain k where "n = 4 * k" using n(5) by (elim dvdE)
    then have "4 dvd nat n" by (simp add: nat_mult_distrib)
    then have n4: "nat n \<le> Heap_GetMaximumSize to" "Heap_GetUsed to \<le> nat n" "4 dvd nat n" "int (nat n) = n"
      using n(2,4) fits req by simp_all
    obtain to' where to': "Heap_Resize mprot paranoid to (nat n) False = Inr to'" "heap_ok to'" "hbottom to' = hbottom to"
      "htop to' = hbottom to + 4 * (nat n div 4)" "hcursor to' = hcursor to"
      by (rule Heap_Resize_ok [OF to n4(1), of False mprot paranoid]) (use n4(2) prot in simp_all)
    have sz: "int (Heap_GetSize to') = n" using n4(3,4) by (simp add: Heap_GetSize_def to'(3,4))
    have "Heap_GetSize to' = Heap_GetUsed to' + Heap_GetAvail to'"
      unfolding Heap_GetSize_def Heap_GetUsed_def Heap_GetAvail_def using to'(2) by (auto simp: heap_ok_def elim!: dvdE)
    moreover have "Heap_GetUsed to' = Heap_GetUsed to" by (simp add: Heap_GetUsed_def to'(3,5))
    ultimately have "request \<le> int (Heap_GetAvail to')" using sz n(2) by linarith
    moreover have "HeapAdjust rnd z mprot paranoid request unused 0 rate 0 froms to = Inr to'"
      unfolding run n(1) using n(2) to'(1) by simp
    ultimately show ?thesis
      using True n(3,4) to' sz by auto
  qed
qed


definition demo_sizes :: sizes where
  "demo_sizes = \<lparr>MinHeapByte = 8192, MaxHeapByte = 16384, MinRatio = 1 / 4, MaxRatio = 1 / 2, MinRatioSize = 512,
     MaxRatioSize = 51200, minOnRequest = 8192, NumProcs = 1, relaxedSizes = False\<rparr>"


end
