(* ===== verification/Generational.thy ===== *)
theory Generational
  imports Collect RootScan HeapSize
begin

text \<open>
  The generational collector: the write list (\<open>Runtime/sparc/forward.c\<close>, end) and the two copy phases
  of \<open>Runtime/sparc/gc_gen.c\<close>.  A minor collection copies the live objects of the nursery behind the
  objects of the old space; its roots include the fields of old objects that the write list records
  (in \<open>work.roots\<close>) and the arrays in \<open>work.backObjs\<close> that were allocated in the old space.  A major
  collection copies both spaces into to-space.  The theorem on minor collections extends that on the
  semispace collection: it uses the same invariant with the copies starting at the cursor of the old
  space.
\<close>

subsection \<open>The write list\<close>

definition MinorWork :: "32 word" where "MinorWork = 1"
definition MajorWork :: "32 word" where "MajorWork = 2"
definition FlipOn :: "32 word" where "FlipOn = 4"
definition FlipOff :: "32 word" where "FlipOff = 8"

definition empty_writelist :: "gcst \<Rightarrow> bool" where
  "empty_writelist s \<longleftrightarrow> writelistCursor s = writelistStart s"

definition writeEntry ::
    "config \<Rightarrow> senv \<Rightarrow> range_t option \<Rightarrow> addr \<Rightarrow> gcst \<times> globst \<Rightarrow> (gcst \<times> globst) result" where
  \<comment> \<open>the body of the loop for the entry at \<open>cur\<close>; \<open>old\<close> is the range of \<open>to\<close>, none when \<open>from\<close> is \<open>NULL\<close>\<close>
  "writeEntry cfg e old cur sg = (case sg of (s, g) \<Rightarrow>
     let obj = unat (mem s cur); byteOffset = unat (mem s (cur + 4)) in
     bindE (getTag (chainFuel cfg) (mem s) obj) (\<lambda>tag.
     let ty = GET_TYPE tag in
     if IsGlobalData e (mem s cur) then
       bindE (add_global_root cfg e obj (mem s) g) (\<lambda>(m, g). Inr (s\<lparr>mem := m\<rparr>, g))
     else case old of None \<Rightarrow> Inr (s, g) | Some r \<Rightarrow>
       if ty = WORD_ARRAY_TYPE \<or> ty = QUAD_ARRAY_TYPE then Inr (s, g)
       else if ty = PTR_ARRAY_TYPE \<or> ty = MIRROR_PTR_ARRAY_TYPE then
         let field = obj + 4 * (byteOffset div 4) in
         if NotInRange (ptrAt field s) r then bindE (onRoots (\<lambda>q. SetPush q field) s) (\<lambda>s. Inr (s, g))
         else Inr (s, g)
       else Inl (Die ''error in process_writelist'')))"

fun writeLoop ::
    "nat \<Rightarrow> config \<Rightarrow> senv \<Rightarrow> range_t option \<Rightarrow> addr \<Rightarrow> addr \<Rightarrow> gcst \<times> globst \<Rightarrow> (gcst \<times> globst) result" where
  "writeLoop 0 cfg e old cur end sg = (if cur < end then Inl OutOfFuel else Inr sg)"
| "writeLoop (Suc n) cfg e old cur end sg =
     (if cur < end then bindE (writeEntry cfg e old cur sg) (writeLoop n cfg e old (cur + 12) end) else Inr sg)"

definition process_writelist ::
    "config \<Rightarrow> senv \<Rightarrow> range_t option \<Rightarrow> gcst \<Rightarrow> globst \<Rightarrow> (gcst \<times> globst) result" where
  "process_writelist cfg e old s g =
     (let cur = writelistStart s; end = writelistCursor s;
          s = s\<lparr>writelistCursor := writelistStart s,
                segmentType := (if cur < end then segmentType s OR MinorWork else segmentType s)\<rparr>
      in writeLoop ((end - cur) div 12 + 1) cfg e old cur end (s, g))"

definition try_process_writelist ::
    "config \<Rightarrow> senv \<Rightarrow> (gcst \<Rightarrow> bool result) \<Rightarrow> range_t option \<Rightarrow> gcst \<Rightarrow> globst \<Rightarrow> (bool \<times> gcst \<times> globst) result" where
  \<comment> \<open>\<open>satisfiable\<close> is \<open>GCSatisfiable\<close> for the thread\<close>
  "try_process_writelist cfg e satisfiable old s g =
     (if 2 * SetLength (roots (work s)) < SetFullSize (roots (work s))
      then bindE (process_writelist cfg e old s g) (\<lambda>(s, g). bindE (satisfiable s) (\<lambda>b. Inr (b, s, g)))
      else Inr (False, s, g))"

subsection \<open>The copy phases\<close>

definition minorCopyWork :: "nat \<Rightarrow> config \<Rightarrow> range_t \<Rightarrow> addr \<Rightarrow> gcst \<Rightarrow> gcst result" where
  \<comment> \<open>forward the roots, the arrays with back pointers and the globals, then scan the copies\<close>
  "minorCopyWork fuel cfg from scanStart s =
     bindE (drain fuel takeRoot (\<lambda>l. locCopy1_noSpaceCheck cfg l from) s) (\<lambda>s.
     bindE (drain fuel takeBackObj (\<lambda>b. scanObj_locCopy1_noSpaceCheck cfg b from) s) (\<lambda>s.
     bindE (assertE (primaryGlobalOffset cfg = 0) ''primaryGlobalOffset == 0'') (\<lambda>_.
     bindE (drain fuel takeGlobal (\<lambda>l. locCopy1_noSpaceCheck cfg l from) s) (\<lambda>s.
     scanUntil_locCopy1_noSpaceCheck fuel cfg scanStart from s))))"

definition GCCollect_Gen_minor :: "nat \<Rightarrow> config \<Rightarrow> nat \<Rightarrow> nat \<Rightarrow> gcst \<Rightarrow> gcst result" where
  \<comment> \<open>the branch of \<open>GCCollect_Gen\<close> for a minor collection\<close>
  "GCCollect_Gen_minor fuel cfg nursery fromSpace s =
     (let scanStart = hcursor (hp s fromSpace) in
      bindE (AllocEntireCopyRange (SetCopyRange fromSpace s)) (\<lambda>s.
      bindE (minorCopyWork fuel cfg (hrange (hp s nursery)) scanStart s) (\<lambda>s.
      bindE (ReturnCopyRange s) ClearCopyRange)))"

definition majorCopyWork :: "nat \<Rightarrow> config \<Rightarrow> range_t \<Rightarrow> range_t \<Rightarrow> range_t \<Rightarrow> addr \<Rightarrow> gcst \<Rightarrow> gcst result" where
  "majorCopyWork fuel cfg from from2 large scanStart s =
     bindE (drain fuel takeRoot (\<lambda>l. locCopy2L_noSpaceCheck cfg l from from2 large) s) (\<lambda>s.
     let s = s\<lparr>work := (work s)\<lparr>backObjs := SetReset (backObjs (work s))\<rparr>\<rparr> in
     bindE (assertE (primaryGlobalOffset cfg = 0) ''primaryGlobalOffset == 0'') (\<lambda>_.
     bindE (drain fuel takeGlobal (\<lambda>l. locCopy2L_noSpaceCheck cfg l from from2 large) s) (\<lambda>s.
     scanUntil_locCopy2L_noSpaceCheck fuel cfg scanStart from from2 large s)))"

definition resizeHeap :: "(addr \<Rightarrow> nat \<Rightarrow> bool) \<Rightarrow> bool \<Rightarrow> nat \<Rightarrow> nat \<Rightarrow> bool \<Rightarrow> gcst \<Rightarrow> gcst result" where
  \<comment> \<open>\<open>Heap_Resize\<close> on a heap of the state\<close>
  "resizeHeap mprot paranoid h n reset s =
     bindE (Heap_Resize mprot paranoid (hp s h) n reset) (\<lambda>x. Inr (s\<lparr>hp := (hp s)(h := x)\<rparr>))"

definition GCCollect_Gen_major ::
    "nat \<Rightarrow> config \<Rightarrow> (addr \<Rightarrow> nat \<Rightarrow> bool) \<Rightarrow> bool \<Rightarrow> nat \<Rightarrow> nat \<Rightarrow> nat \<Rightarrow> gcst \<Rightarrow> gcst result" where
  \<comment> \<open>the branch for a major collection up to the resize of the new heap\<close>
  "GCCollect_Gen_major fuel cfg mprot paranoid nursery fromSpace toSpace s =
     (let scanStart = hbottom (hp s toSpace);
          toSpaceSize = Heap_GetMaximumSize (hp s toSpace);
          maxLive = Heap_GetUsed (hp s fromSpace) + Heap_GetUsed (hp s nursery) in
      bindE (resizeHeap mprot paranoid toSpace (if maxLive \<ge> toSpaceSize then toSpaceSize else maxLive) True s) (\<lambda>s.
      bindE (AllocEntireCopyRange (SetCopyRange toSpace s)) (\<lambda>s.
      bindE (gc_large_startCollect s) (\<lambda>s.
      bindE (majorCopyWork fuel cfg (hrange (hp s nursery)) (hrange (hp s fromSpace)) (hrange (hp s (largeSpace cfg))) scanStart s) (\<lambda>s.
      bindE (ReturnCopyRange s) (\<lambda>s.
      bindE (ClearCopyRange s) (\<lambda>s.
      gc_large_endCollect s)))))))"

subsection \<open>Arrays with back pointers as roots\<close>

interpretation backObjs_list: worklist takeBackObj "\<lambda>s. set_items (backObjs (work s))" "\<lambda>s. set_ok (backObjs (work s))"
proof
  fix s :: gcst assume ok: "set_ok (backObjs (work s))"
  show "set_items (backObjs (work s)) = [] \<Longrightarrow> takeBackObj s = (NULL, s)"
    using stack_list.take1_empty [OF ok] by (simp add: takeBackObj_def)
  assume "set_items (backObjs (work s)) \<noteq> []"
  then show "\<exists>x s'. takeBackObj s = (x, s') \<and> set_ok (backObjs (work s')) \<and>
      mset (set_items (backObjs (work s))) = add_mset x (mset (set_items (backObjs (work s'))))"
    using stack_list.take1_some [OF ok] by (auto simp: takeBackObj_def)
qed

definition backFields :: "memory \<Rightarrow> addr \<Rightarrow> addr set" where
  \<comment> \<open>the locations of the fields of a pointer array\<close>
  "backFields m b = (\<lambda>j. b + 4 * j) ` {0..<unat (GET_ANY_ARRAY_LEN (m (b - 4))) div 4}"

definition back_obj :: "env \<Rightarrow> addr set \<Rightarrow> addr \<Rightarrow> bool" where
  \<comment> \<open>a pointer array outside the source space whose tag no root location and no copy overwrites\<close>
  "back_obj E R b \<longleftrightarrow> 4 \<le> b \<and> GET_TYPE (m0 E (b - 4)) = PTR_ARRAY_TYPE \<and> b - 4 \<notin> R \<and>
     \<not> (tbase E \<le> b - 4 \<and> b - 4 < tlimit E) \<and> (\<forall>x \<in> cobjs E. b - 4 \<noteq> x - 4)"

lemma ptrFields_roots:
  assumes E: "env_ok E" "arraySegmentSize cfg = 0" and R: "\<forall>l \<in> R. root_loc E l"
  shows "rootP E R s0 D s \<Longrightarrow> D \<subseteq> R \<Longrightarrow> \<forall>j \<in> set js. b + 4 * j \<in> R \<Longrightarrow>
    \<exists>s'. ptrFields cfg (cheneyScan (src E)) prim b js s = Inr s' \<and> work s' = work s \<and>
      rootP E R s0 (D \<union> (\<lambda>j. b + 4 * j) ` set js) s'"
proof (induction js arbitrary: D s)
  case Nil
  then show ?case by simp
next
  case (Cons j js)
  obtain s1 where s1: "locCopy1_noSpaceCheck cfg (b + 4 * j) (src E) s = Inr s1" "work s1 = work s"
    "rootP E R s0 (insert (b + 4 * j) D) s1"
    using rootP_step [OF E Cons.prems(2) R _ Cons.prems(1), of "b + 4 * j"] Cons.prems(3) by auto
  have "insert (b + 4 * j) D \<subseteq> R" "\<forall>j \<in> set js. b + 4 * j \<in> R" using Cons.prems by simp_all
  from Cons.IH [OF s1(3) this] obtain s' where "ptrFields cfg (cheneyScan (src E)) prim b js s1 = Inr s'" "work s' = work s1"
    "rootP E R s0 (insert (b + 4 * j) D \<union> (\<lambda>j. b + 4 * j) ` set js) s'" by blast
  then show ?case using s1(1,2) by simp
qed

lemma rootP_usage [simp]: "rootP E R s0 D (updUsage f s) = rootP E R s0 D s"
  "rootP E R s0 D (updateWorkDone cfg s) = rootP E R s0 D s"
  by (rule rootP_cong; simp)+

lemma scan_back_object:
  assumes E: "env_ok E" "arraySegmentSize cfg = 0" and R: "\<forall>l \<in> R. root_loc E l"
    and P: "rootP E R s0 D s" "D \<subseteq> R" and b: "back_obj E R b" "backFields (m0 E) b \<subseteq> R"
  shows "\<exists>s'. scanObj_locCopy1_noSpaceCheck cfg b (src E) s = Inr s' \<and> work s' = work s \<and>
    rootP E R s0 (D \<union> backFields (m0 E) b) s'"
proof -
  let ?t = "m0 E (b - 4)" and ?n = "unat (GET_ANY_ARRAY_LEN (m0 E (b - 4))) div 4"
  have tag: "mem s (b - 4) = ?t"
    using P b(1) by (auto simp: rootP_def rootinv_def back_obj_def)
  have js: "\<forall>j \<in> set [0..<?n]. b + 4 * j \<in> R" using b(2) by (auto simp: backFields_def)
  let ?s1 = "updUsage (\<lambda>u. u\<lparr>objsScanned := objsScanned u + 1\<rparr>) s"
  have "rootP E R s0 D ?s1" using P(1) by simp
  from ptrFields_roots [OF E R this P(2) js] obtain s2 where
    s2: "ptrFields cfg (cheneyScan (src E)) 0 b [0..<?n] ?s1 = Inr s2" "work s2 = work s"
      "rootP E R s0 (D \<union> backFields (m0 E) b) s2"
    by (auto simp: backFields_def updUsage_def)
  have ty: "GET_TYPE ?t = PTR_ARRAY_TYPE" "4 \<le> b" using b(1) by (simp_all add: back_obj_def)
  then have "GET_TYPE ?t \<noteq> RECORD_TYPE" "GET_TYPE ?t \<noteq> WORD_ARRAY_TYPE" "GET_TYPE ?t \<noteq> QUAD_ARRAY_TYPE"
    by (simp_all add: tag_consts)
  then have run: "scanTag_locCopy1_noSpaceCheck cfg (b - 4) (src E) s =
      scanPtrArray cfg (cheneyScan (src E)) None b b 0 0 ?t ?s1"
    using ty unfolding scanTag_locCopy1_noSpaceCheck_def cheneyScan_def [symmetric] genericScan_def
    by (simp add: Let_def tag)
  have nl: "\<not> isLarge cfg k" for k using E(2) by (simp add: isLarge_def)
  have fl: "\<not> ?n > 0 \<Longrightarrow> s2 = ?s1" using s2(1) by simp
  obtain s3 where "scanPtrArray cfg (cheneyScan (src E)) None b b 0 0 ?t ?s1 = Inr (b + 4 * ?n, s3)" "work s3 = work s2"
    "rootP E R s0 (D \<union> backFields (m0 E) b) s3"
    using s2 fl by (cases "0 < ?n") (simp_all add: scanPtrArray_def Let_def nl ty)
  then show ?thesis
    using run s2(2) by (simp add: scanObj_locCopy1_noSpaceCheck_def dropResult_def)
qed

lemma takeBackObj_frame:
  "takeBackObj s1 = (x, s) \<Longrightarrow> mem s = mem s1 \<and> hp s = hp s1 \<and> copyRg s = copyRg s1 \<and>
     roots (work s) = roots (work s1) \<and> globals (work s) = globals (work s1)"
  by (auto simp: takeBackObj_def split: prod.splits)

lemma take_keeps_backObjs:
  "takeRoot s1 = (x, s) \<Longrightarrow> backObjs (work s) = backObjs (work s1)"
  "takeGlobal s1 = (x, s) \<Longrightarrow> backObjs (work s) = backObjs (work s1)"
  by (auto simp: takeRoot_def takeGlobal_def split: prod.splits)

lemma drain_roots:
  assumes E: "env_ok E" "arraySegmentSize cfg = 0" and R: "\<forall>l \<in> R. root_loc E l"
    and ok: "set_ok (roots (work s))" "set (set_items (roots (work s))) \<subseteq> R" "NULL \<notin> R" "D \<subseteq> R" and P: "rootP E R s0 D s"
    and fuel: "length (set_items (roots (work s))) < fuel"
  shows "\<exists>s'. drain fuel takeRoot (\<lambda>l. locCopy1_noSpaceCheck cfg l (src E)) s = Inr s' \<and>
    rootP E R s0 (D \<union> set (set_items (roots (work s)))) s' \<and> set_ok (roots (work s')) \<and> set_items (roots (work s')) = [] \<and>
    globals (work s') = globals (work s) \<and> backObjs (work s') = backObjs (work s)"
proof -
  let ?rs = "set_items (roots (work s))" and ?f = "\<lambda>l. locCopy1_noSpaceCheck cfg l (src E)"
  have "\<exists>s' dn'. drain fuel takeRoot ?f s = Inr s' \<and> set_ok (roots (work s')) \<and> set_items (roots (work s')) = [] \<and>
      mset dn' = mset ?rs \<and> (rootP E R s0 (D \<union> set dn') s' \<and> globals (work s') = globals (work s) \<and> backObjs (work s') = backObjs (work s))"
  proof (rule roots_list.drain_all [where dn = "[]"])
    fix dn x and s1 s2 :: gcst
    assume t: "takeRoot s1 = (x, s2)" and ok2: "set_ok (roots (work s2))"
      and P: "rootP E R s0 (D \<union> set dn) s1 \<and> globals (work s1) = globals (work s) \<and> backObjs (work s1) = backObjs (work s)"
      and M: "mset dn + add_mset x (mset (set_items (roots (work s2)))) = mset ?rs"
    have "D \<union> set dn \<subseteq> R" "x \<in> R" using mset_split [OF M] ok(2,4) by auto
    moreover have s2: "rootP E R s0 (D \<union> set dn) s2" "globals (work s2) = globals (work s)" "backObjs (work s2) = backObjs (work s)"
      using P take_frame(1) [OF t] take_keeps_backObjs(1) [OF t] by (simp_all add: rootP_cong [of s2 s1])
    ultimately obtain s' where "?f x s2 = Inr s'" "work s' = work s2" "rootP E R s0 (insert x (D \<union> set dn)) s'"
      using rootP_step [OF E _ R] by blast
    then show "\<exists>s'. ?f x s2 = Inr s' \<and> set_ok (roots (work s')) \<and> set_items (roots (work s')) = set_items (roots (work s2)) \<and>
        rootP E R s0 (D \<union> set (dn @ [x])) s' \<and> globals (work s') = globals (work s) \<and> backObjs (work s') = backObjs (work s)"
      using ok2 s2(2,3) by auto
  qed (use ok P fuel in auto)
  then show ?thesis by (metis set_mset_mset)
qed

lemma drain_globals:
  assumes E: "env_ok E" "arraySegmentSize cfg = 0" and R: "\<forall>l \<in> R. root_loc E l"
    and ok: "set_ok (globals (work s))" "set (set_items (globals (work s))) \<subseteq> R" "NULL \<notin> R" "D \<subseteq> R" and P: "rootP E R s0 D s"
    and fuel: "length (set_items (globals (work s))) < fuel"
  shows "\<exists>s'. drain fuel takeGlobal (\<lambda>l. locCopy1_noSpaceCheck cfg l (src E)) s = Inr s' \<and>
    rootP E R s0 (D \<union> set (set_items (globals (work s)))) s'"
proof -
  let ?rs = "set_items (globals (work s))" and ?f = "\<lambda>l. locCopy1_noSpaceCheck cfg l (src E)"
  have "\<exists>s' dn'. drain fuel takeGlobal ?f s = Inr s' \<and> set_ok (globals (work s')) \<and> set_items (globals (work s')) = [] \<and>
      mset dn' = mset ?rs \<and> rootP E R s0 (D \<union> set dn') s'"
  proof (rule globals_list.drain_all [where dn = "[]"])
    fix dn x and s1 s2 :: gcst
    assume t: "takeGlobal s1 = (x, s2)" and ok2: "set_ok (globals (work s2))"
      and P: "rootP E R s0 (D \<union> set dn) s1" and M: "mset dn + add_mset x (mset (set_items (globals (work s2)))) = mset ?rs"
    have "D \<union> set dn \<subseteq> R" "x \<in> R" using mset_split [OF M] ok(2,4) by auto
    moreover have "rootP E R s0 (D \<union> set dn) s2" using P take_frame(2) [OF t] by (simp add: rootP_cong [of s2 s1])
    ultimately obtain s' where "?f x s2 = Inr s'" "work s' = work s2" "rootP E R s0 (insert x (D \<union> set dn)) s'"
      using rootP_step [OF E _ R] by blast
    then show "\<exists>s'. ?f x s2 = Inr s' \<and> set_ok (globals (work s')) \<and> set_items (globals (work s')) = set_items (globals (work s2)) \<and>
        rootP E R s0 (D \<union> set (dn @ [x])) s'"
      using ok2 by auto
  qed (use ok P fuel in auto)
  then show ?thesis by (metis set_mset_mset)
qed

lemma drain_backObjs:
  assumes E: "env_ok E" "arraySegmentSize cfg = 0" and R: "\<forall>l \<in> R. root_loc E l"
    and ok: "set_ok (backObjs (work s))" "D \<subseteq> R" and P: "rootP E R s0 D s"
    and b: "\<forall>b \<in> set (set_items (backObjs (work s))). back_obj E R b \<and> backFields (m0 E) b \<subseteq> R"
    and fuel: "length (set_items (backObjs (work s))) < fuel"
  shows "\<exists>s'. drain fuel takeBackObj (\<lambda>b. scanObj_locCopy1_noSpaceCheck cfg b (src E)) s = Inr s' \<and>
    rootP E R s0 (D \<union> (\<Union>b \<in> set (set_items (backObjs (work s))). backFields (m0 E) b)) s' \<and>
    globals (work s') = globals (work s) \<and> roots (work s') = roots (work s)"
proof -
  let ?bs = "set_items (backObjs (work s))" and ?f = "\<lambda>b. scanObj_locCopy1_noSpaceCheck cfg b (src E)"
  let ?F = "\<lambda>B. D \<union> (\<Union>b \<in> B. backFields (m0 E) b)"
  have "\<exists>s' dn'. drain fuel takeBackObj ?f s = Inr s' \<and> set_ok (backObjs (work s')) \<and> set_items (backObjs (work s')) = [] \<and>
      mset dn' = mset ?bs \<and> (rootP E R s0 (?F (set dn')) s' \<and> globals (work s') = globals (work s) \<and> roots (work s') = roots (work s))"
  proof (rule backObjs_list.drain_all [where dn = "[]"])
    fix dn x and s1 s2 :: gcst
    assume t: "takeBackObj s1 = (x, s2)" and ok2: "set_ok (backObjs (work s2))"
      and P: "rootP E R s0 (?F (set dn)) s1 \<and> globals (work s1) = globals (work s) \<and> roots (work s1) = roots (work s)"
      and M: "mset dn + add_mset x (mset (set_items (backObjs (work s2)))) = mset ?bs"
    have x: "set dn \<subseteq> set ?bs" "x \<in> set ?bs" using mset_split [OF M] by auto
    then have xs: "?F (set dn) \<subseteq> R" "back_obj E R x" "backFields (m0 E) x \<subseteq> R" using b ok(2) by blast+
    have s2: "rootP E R s0 (?F (set dn)) s2" "globals (work s2) = globals (work s)" "roots (work s2) = roots (work s)"
      using P takeBackObj_frame [OF t] by (simp_all add: rootP_cong [of s2 s1])
    obtain s' where s': "?f x s2 = Inr s'" "work s' = work s2" "rootP E R s0 (?F (set dn) \<union> backFields (m0 E) x) s'"
      using scan_back_object [OF E R s2(1) xs] by blast
    have "?F (set dn) \<union> backFields (m0 E) x = ?F (set (dn @ [x]))" by auto
    then show "\<exists>s'. ?f x s2 = Inr s' \<and> set_ok (backObjs (work s')) \<and> set_items (backObjs (work s')) = set_items (backObjs (work s2)) \<and>
        rootP E R s0 (?F (set (dn @ [x]))) s' \<and> globals (work s') = globals (work s) \<and> roots (work s') = roots (work s)"
      using s' ok2 s2(2,3) by metis
  next
    show "NULL \<notin> set ?bs" using b by (fastforce simp: back_obj_def NULL_def)
  qed (use ok P fuel in auto)
  then show ?thesis by (metis set_mset_mset)
qed

definition minor_env :: "nat \<Rightarrow> nat \<Rightarrow> addr set \<Rightarrow> gcst \<Rightarrow> env" where
  \<comment> \<open>the objects of the nursery reachable from \<open>R\<close>, with just enough room for them behind the cursor of
     the old space\<close>
  "minor_env ny fs R s =
     (let X = reach (mem s) (hrange (hp s ny)) R
      in \<lparr>m0 = mem s, src = hrange (hp s ny), cobjs = X, tbase = hcursor (hp s fs),
          tlimit = hcursor (hp s fs) + 4 * (\<Sum>x \<in> X. osize (mem s) x)\<rparr>)"

lemma minor_env_sel [simp]:
  "m0 (minor_env ny fs R s) = mem s" "src (minor_env ny fs R s) = hrange (hp s ny)"
  "cobjs (minor_env ny fs R s) = reach (mem s) (hrange (hp s ny)) R"
  "tbase (minor_env ny fs R s) = hcursor (hp s fs)"
  "tlimit (minor_env ny fs R s) = hcursor (hp s fs) +
     4 * (\<Sum>x \<in> reach (mem s) (hrange (hp s ny)) R. osize (mem s) x)"
  by (simp_all add: minor_env_def Let_def)

definition minorRoots :: "gcst \<Rightarrow> addr set" where
  \<comment> \<open>the locations a minor collection forwards\<close>
  "minorRoots s = set (set_items (roots (work s))) \<union> set (set_items (globals (work s))) \<union>
     (\<Union>b \<in> set (set_items (backObjs (work s))). backFields (mem s) b)"

lemma minor_work_correct:
  assumes E: "env_ok E" and m0: "m0 E = mem s" and cur: "ccur s = tbase E"
    and limit: "tlimit E = tbase E + 4 * (\<Sum>x \<in> cobjs E. osize (m0 E) x)"
    and cfg: "arraySegmentSize cfg = 0" "primaryGlobalOffset cfg = 0"
    and ok: "set_ok (roots (work s))" "set_ok (globals (work s))" "set_ok (backObjs (work s))"
    and R: "R = minorRoots s" "NULL \<notin> R" "\<forall>l \<in> R. root_loc E l" "cobjs E = reach (m0 E) (src E) R"
    and b: "\<forall>b \<in> set (set_items (backObjs (work s))). back_obj E R b"
    and fuel: "length (set_items (roots (work s))) < fuel" "length (set_items (globals (work s))) < fuel"
      "length (set_items (backObjs (work s))) < fuel" "(\<Sum>x \<in> cobjs E. osize (m0 E) x) \<le> fuel"
  shows "\<exists>s' us. minorCopyWork fuel cfg (src E) (tbase E) s = Inr s' \<and>
    cinv E (\<lambda>x. if x \<in> copied us then olen (m0 E) x else 0) us (mem s') (ccur s') \<and>
    copied us = cobjs E \<and> (\<forall>l \<in> R. mem s' l = fwd E us (mem s l)) \<and>
    (\<forall>a. a \<notin> R \<longrightarrow> \<not> (tbase E \<le> a \<and> a < tlimit E) \<longrightarrow> (\<forall>x \<in> cobjs E. a \<noteq> x - 4) \<longrightarrow> mem s' a = mem s a) \<and>
    hp s' = hp s \<and> copyRg s' = (copyRg s)\<lparr>crCursor := ccur s'\<rparr>"
proof -
  let ?rs = "set (set_items (roots (work s)))" and ?gs = "set (set_items (globals (work s)))"
  let ?bs = "set (set_items (backObjs (work s)))"
  let ?B = "\<Union>b \<in> ?bs. backFields (m0 E) b"
  have sub: "?rs \<subseteq> R" "?gs \<subseteq> R" "NULL \<notin> ?rs" "NULL \<notin> ?gs" "?B \<subseteq> R" and all: "R = ?rs \<union> ?B \<union> ?gs"
    using R(1,2) by (auto simp: minorRoots_def m0)
  have P0: "rootP E R s {} s" by (rule rootP_init [OF m0 [symmetric] cur limit])
  obtain s1 where s1: "drain fuel takeRoot (\<lambda>l. locCopy1_noSpaceCheck cfg l (src E)) s = Inr s1"
    "rootP E R s ?rs s1" "globals (work s1) = globals (work s)" "backObjs (work s1) = backObjs (work s)"
    using drain_roots [OF E cfg(1) R(3) ok(1) sub(1) R(2) empty_subsetI P0 fuel(1)] by auto
  have b1: "\<forall>b \<in> set (set_items (backObjs (work s1))). back_obj E R b \<and> backFields (m0 E) b \<subseteq> R"
    using b sub(5) by (auto simp: s1)
  obtain s2 where s2: "drain fuel takeBackObj (\<lambda>b. scanObj_locCopy1_noSpaceCheck cfg b (src E)) s1 = Inr s2"
    "rootP E R s (?rs \<union> ?B) s2" "globals (work s2) = globals (work s)"
    using drain_backObjs [OF E cfg(1) R(3) _ sub(1) s1(2) b1, of fuel] ok(3) fuel(3) by (auto simp: s1)
  obtain s3 where s3: "drain fuel takeGlobal (\<lambda>l. locCopy1_noSpaceCheck cfg l (src E)) s2 = Inr s3"
    "rootP E R s R s3"
    using drain_globals [OF E cfg(1) R(3) _ _ R(2) _ s2(2), of fuel] ok(2) fuel(2) sub all by (auto simp: s2(3))
  obtain s4 us where s4: "scanUntil_locCopy1_noSpaceCheck fuel cfg (tbase E) (src E) s3 = Inr s4"
    "cinv E (\<lambda>x. if x \<in> copied us then olen (m0 E) x else 0) us (mem s4) (ccur s4)" "copied us = cobjs E"
    "\<forall>l \<in> R. mem s4 l = fwd E us (mem s l)"
    "\<forall>a. a \<notin> R \<longrightarrow> \<not> (tbase E \<le> a \<and> a < tlimit E) \<longrightarrow> (\<forall>x \<in> cobjs E. a \<noteq> x - 4) \<longrightarrow> mem s4 a = mem s a"
    "hp s4 = hp s" "copyRg s4 = (copyRg s)\<lparr>crCursor := ccur s4\<rparr>"
    using scan_after_roots [OF E m0 cfg(1) limit R(3,4) s3(2) fuel(4)] by blast
  have "minorCopyWork fuel cfg (src E) (tbase E) s = Inr s4"
    using s1(1) s2(1) s3(1) s4(1) cfg(2) by (simp add: minorCopyWork_def)
  then show ?thesis
    using s4(2-) by blast
qed

text \<open>C4: a minor collection returns, with a map \<open>f\<close> from the nursery objects reachable from the roots,
  the globals and the fields of the recorded old arrays to their copies.  The copies lie behind the
  old cursor of the old space, apart from each other, and have the tags and the relocated fields of
  the originals; each of those locations is relocated; nothing else changes but the tags of the
  originals.  Hence an old location that did not point into the nursery, or that was recorded, does
  not point into the nursery afterwards, so that the nursery can be emptied.\<close>

theorem minor_collection_correct:
  assumes cfg: "arraySegmentSize cfg = 0" "primaryGlobalOffset cfg = 0"
    and heaps: "ny \<noteq> fs" "heap_ok (hp s fs)" and cr: "crHeap (copyRg s) \<noteq> Some fs"
    and lists: "set_ok (roots (work s))" "set_ok (globals (work s))" "set_ok (backObjs (work s))"
    and R: "R = minorRoots s" "NULL \<notin> R" and X: "X = reach (mem s) (hrange (hp s ny)) R"
    and env: "env_ok (minor_env ny fs R s)" "\<forall>l \<in> R. root_loc (minor_env ny fs R s) l"
      "\<forall>b \<in> set (set_items (backObjs (work s))). back_obj (minor_env ny fs R s) R b"
    and fits: "4 * (\<Sum>x \<in> X. osize (mem s) x) \<le> Heap_GetAvail (hp s fs)"
    and fuel: "length (set_items (roots (work s))) < fuel" "length (set_items (globals (work s))) < fuel"
      "length (set_items (backObjs (work s))) < fuel" "(\<Sum>x \<in> X. osize (mem s) x) \<le> fuel"
  shows "\<exists>s' f. GCCollect_Gen_minor fuel cfg ny fs s = Inr s' \<and>
    copies (mem s) (hrange (hp s ny)) X f (mem s') \<and>
    (\<forall>x \<in> X. hcursor (hp s fs) + 4 \<le> f x \<and> f x + 4 * olen (mem s) x \<le> hcursor (hp s' fs)) \<and>
    hcursor (hp s' fs) \<le> hcursor (hp s fs) + 4 * (\<Sum>x \<in> X. osize (mem s) x) \<and>
    (\<forall>l \<in> R. mem s' l = reloc (hrange (hp s ny)) f (mem s l)) \<and>
    (\<forall>a. \<not> (hcursor (hp s fs) \<le> a \<and> a < htop (hp s' fs)) \<longrightarrow> (\<forall>x \<in> X. a \<noteq> x - 4) \<longrightarrow>
       (a \<notin> R \<longrightarrow> mem s' a = mem s a) \<and>
       (a \<in> R \<or> \<not> InRange (unat (mem s a)) (hrange (hp s ny)) \<longrightarrow> \<not> InRange (unat (mem s' a)) (hrange (hp s ny))))"
proof -
  let ?E = "minor_env ny fs R s" and ?b = "hcursor (hp s fs)" and ?t = "htop (hp s fs)" and ?sp = "hrange (hp s ny)"
  have sz: "?b + 4 * (\<Sum>x \<in> X. osize (mem s) x) \<le> ?t" "0 < ?b"
    using fits heaps(2) heap_ok_sizes(4) [OF heaps(2)] by (auto simp: heap_ok_def)
  define cp where "cp = \<lparr>crStart = ?b, crCursor = ?b, crStop = ?t, crReserve = ?t, crHeap = Some fs\<rparr>"
  define s1 where "s1 = s\<lparr>hp := (hp s)(fs := (hp s fs)\<lparr>hcursor := ?t\<rparr>), copyRg := cp\<rparr>"
  have alloc: "AllocEntireCopyRange (SetCopyRange fs s) = Inr s1"
    using cr by (simp add: AllocEntireCopyRange_def SetCopyRange_def InitCopyRange_def cp_def s1_def Let_def)
  have s1: "mem s1 = mem s" "work s1 = work s" "copyRg s1 = cp" "hp s1 ny = hp s ny" "hp s1 fs = (hp s fs)\<lparr>hcursor := ?t\<rparr>"
    using heaps(1) by (simp_all add: s1_def)
  have pre: "m0 ?E = mem s1" "ccur s1 = tbase ?E" "tlimit ?E = tbase ?E + 4 * (\<Sum>x \<in> cobjs ?E. osize (m0 ?E) x)"
    "set_ok (roots (work s1))" "set_ok (globals (work s1))" "set_ok (backObjs (work s1))"
    "R = minorRoots s1" "cobjs ?E = reach (m0 ?E) (src ?E) R"
    "\<forall>b \<in> set (set_items (backObjs (work s1))). back_obj ?E R b"
    "length (set_items (roots (work s1))) < fuel" "length (set_items (globals (work s1))) < fuel"
    "length (set_items (backObjs (work s1))) < fuel" "(\<Sum>x \<in> cobjs ?E. osize (m0 ?E) x) \<le> fuel"
    using lists R(1) fuel env(3) by (simp_all add: s1 cp_def X minorRoots_def)
  obtain s2 us where s2: "minorCopyWork fuel cfg ?sp ?b s1 = Inr s2"
    and inv: "cinv ?E (\<lambda>x. if x \<in> copied us then olen (mem s) x else 0) us (mem s2) (ccur s2)"
    and all: "copied us = X" and roots: "\<forall>l \<in> R. mem s2 l = fwd ?E us (mem s l)"
    and frame: "\<forall>a. a \<notin> R \<longrightarrow> \<not> (?b \<le> a \<and> a < ?b + 4 * (\<Sum>x \<in> X. osize (mem s) x)) \<longrightarrow>
      (\<forall>x \<in> X. a \<noteq> x - 4) \<longrightarrow> mem s2 a = mem s a"
    and fr: "hp s2 = hp s1" "copyRg s2 = cp\<lparr>crCursor := ccur s2\<rparr>"
    using minor_work_correct [OF env(1) pre(1-3) cfg pre(4-7) R(2) env(2) pre(8-13)]
    unfolding minor_env_sel s1 X [symmetric] by blast
  have end': "ccur s2 \<le> ?b + 4 * (\<Sum>x \<in> X. osize (mem s) x)"
    using lend_limit [OF cinv_space [OF inv]] cinv_end [OF inv] X by simp
  have crs: "crHeap (copyRg s2) = Some fs" "crReserve (copyRg s2) = ?t" "crStart (copyRg s2) \<noteq> NULL"
    using arg_cong [OF fr(2), of crHeap] arg_cong [OF fr(2), of crReserve] arg_cong [OF fr(2), of crStart] sz(2)
    by (simp_all add: cp_def NULL_def)
  define s3 where "s3 = s2\<lparr>hp := (hp s2)(fs := (hp s2 fs)\<lparr>hcursor := ccur s2\<rparr>), copyRg := InitCopyRange None\<rparr>"
  obtain s2' where ret: "ReturnCopyRange s2 = Inr s2'" "ClearCopyRange s2' = Inr s3"
    using return_and_clear [OF crs(1) _ crs(3)] by (auto simp: s3_def crs fr(1) s1)
  have run: "GCCollect_Gen_minor fuel cfg ny fs s = Inr s3"
    using alloc s2 ret s1(4) by (simp add: GCCollect_Gen_minor_def Let_def)
  have s3: "mem s3 = mem s2" "hcursor (hp s3 fs) = ccur s2" "htop (hp s3 fs) = ?t"
    by (simp_all add: s3_def fr(1) s1)
  have bnd: "?b + 4 \<le> phi ?E us x \<and> phi ?E us x + 4 * olen (mem s) x \<le> ccur s2"
    "\<not> InRange (unat (word_of_nat (phi ?E us x) :: val)) ?sp" if "x \<in> X" for x
    using phi_bounds(1,2,4,6) [OF env(1) cinv_space [OF inv], of x] that all cinv_end [OF inv]
    by (simp_all add: unat_of_nat take_bit_nat_eq_self)
  have cps: "copies (mem s) ?sp X (phi ?E us) (mem s2)"
    using cinv_copies [OF env(1), of us, unfolded minor_env_sel, OF inv] unfolding all .
  have rel: "mem s2 l = reloc ?sp (phi ?E us) (mem s l)" if "l \<in> R" for l
    using roots that by (simp add: fwd_reloc)
  have moved: "\<not> InRange (unat (mem s2 l)) ?sp" if "l \<in> R" for l
    using rel [OF that] bnd(2) [of "unat (mem s l)"] env(2) that by (auto simp: reloc_def root_loc_def X)
  have same: "mem s2 a = mem s a" if "a \<notin> R" "\<not> (?b \<le> a \<and> a < ?t)" "\<forall>x \<in> X. a \<noteq> x - 4" for a
    using frame that sz(1) by auto
  have keep: "\<not> InRange (unat (mem s2 a)) ?sp"
    if "\<not> (?b \<le> a \<and> a < ?t)" "\<forall>x \<in> X. a \<noteq> x - 4" "a \<in> R \<or> \<not> InRange (unat (mem s a)) ?sp" for a
    using moved same [of a] that by metis
  show ?thesis
    unfolding run
    using cps bnd(1) end' rel same keep by (intro exI [of _ s3] exI [of _ "phi ?E us"]) (simp add: s3)
qed

text \<open>The same two records in the nursery, with a root at 100 and an old array at 32772 whose one field
  points at the record at 8212.\<close>

definition demo_mmem :: memory where
  "demo_mmem = demo_mem(32768 := 4 * 8 + PTR_ARRAY_TYPE, 32772 := 8212)"

definition demo_minor :: gcst where
  "demo_minor = demo_semi\<lparr>mem := demo_mmem, hp := (\<lambda>h. if h = 0 then demo_heap else demo_to\<lparr>hcursor := 32776\<rparr>),
     work := (work demo_semi)\<lparr>backObjs := (SetInit 32)\<lparr>sdata := 32772 # replicate 31 0, slast := 1\<rparr>\<rparr>\<rparr>"

lemma demo_minor_sel:
  "mem demo_minor = demo_mmem" "hp demo_minor 0 = demo_heap" "hp demo_minor 1 = demo_to\<lparr>hcursor := 32776\<rparr>"
  "set_items (roots (work demo_minor)) = [100]" "set_items (globals (work demo_minor)) = []"
  "set_items (backObjs (work demo_minor)) = [32772]"
  "set_ok (roots (work demo_minor))" "set_ok (globals (work demo_minor))" "set_ok (backObjs (work demo_minor))"
  "crHeap (copyRg demo_minor) = None"
  by (simp_all add: demo_minor_def demo_semi_sel)
    (simp_all add: demo_semi_def demo_gcst_def set_items_def SetInit_def set_ok_def)

lemma demo_mmem_sel:
  "demo_mmem 100 = 8200" "demo_mmem 8200 = 8212" "demo_mmem 8212 = 8200" "demo_mmem 32772 = 8212"
  "GET_TYPE (demo_mmem 32768) = PTR_ARRAY_TYPE" "GET_ANY_ARRAY_LEN (demo_mmem 32768) = 4"
  "backFields demo_mmem 32772 = {32772}"
proof -
  show "demo_mmem 100 = 8200" "demo_mmem 8200 = 8212" "demo_mmem 8212 = 8200" "demo_mmem 32772 = 8212"
    by (simp_all add: demo_mmem_def demo_mem_def)
  have m: "demo_mmem 32768 = 4 * 8 + PTR_ARRAY_TYPE" by (simp add: demo_mmem_def)
  show "GET_TYPE (demo_mmem 32768) = PTR_ARRAY_TYPE" "GET_ANY_ARRAY_LEN (demo_mmem 32768) = 4"
    unfolding m by code_simp+
  then show "backFields demo_mmem 32772 = {32772}" by (simp add: backFields_def)
qed

lemma otag_cong:
  assumes "otag m x = otag m' x"
  shows "olen m x = olen m' x" "osize m x = osize m' x" "is_ptr m x i = is_ptr m' x i"
  using assms by (simp_all add: olen_def osize_def is_ptr_def)

lemma demo_mmem_tags:
  "otag demo_mmem 8200 = MAKE_REC 2 1" "otag demo_mmem 8212 = MAKE_REC 1 1"
  "olen demo_mmem 8200 = 2" "olen demo_mmem 8212 = 1" "is_ptr demo_mmem 8200 i \<longleftrightarrow> i = 0" "is_ptr demo_mmem 8212 i \<longleftrightarrow> i = 0"
  "osize demo_mmem 8200 = 3" "osize demo_mmem 8212 = 2"
proof -
  have o: "otag demo_mmem 8200 = otag demo_mem 8200" "otag demo_mmem 8212 = otag demo_mem 8212"
    by (simp_all add: otag_def demo_mmem_def)
  show "otag demo_mmem 8200 = MAKE_REC 2 1" "otag demo_mmem 8212 = MAKE_REC 1 1"
    "olen demo_mmem 8200 = 2" "olen demo_mmem 8212 = 1" "is_ptr demo_mmem 8200 i \<longleftrightarrow> i = 0" "is_ptr demo_mmem 8212 i \<longleftrightarrow> i = 0"
    "osize demo_mmem 8200 = 3" "osize demo_mmem 8212 = 2"
    using otag_cong [OF o(1)] otag_cong [OF o(2)] by (simp_all add: o demo_tags)
qed

lemma demo_minorRoots: "minorRoots demo_minor = {100, 32772}"
  by (simp add: minorRoots_def demo_minor_sel demo_mmem_sel insert_commute)

lemma demo_minor_reach: "reach demo_mmem (SetRange 8192 24576) {100, 32772} = {8200, 8212}"
proof
  show "reach demo_mmem (SetRange 8192 24576) {100, 32772} \<subseteq> {8200, 8212}"
    by (rule reach_closed) (simp_all add: demo_mmem_tags demo_mmem_sel)
  have "unat (demo_mmem l) \<in> reach demo_mmem (SetRange 8192 24576) {100, 32772}" if "l \<in> {100, 32772}" for l
    by (rule reach.root [OF that], unfold demo_InRange) (use that in \<open>auto simp: demo_mmem_sel\<close>)
  from this [of 100] this [of 32772]
  show "{8200, 8212} \<subseteq> reach demo_mmem (SetRange 8192 24576) {100, 32772}"
    by (simp add: demo_mmem_sel)
qed

theorem minor_collection_correct_witness:
  "\<exists>s' f. GCCollect_Gen_minor 10 demo_config 0 1 demo_minor = Inr s' \<and>
    copies (mem demo_minor) (hrange (hp demo_minor 0)) {8200, 8212} f (mem s') \<and>
    mem s' 32772 = reloc (hrange (hp demo_minor 0)) f 8212"
proof -
  have to: "heap_ok (demo_to\<lparr>hcursor := 32776\<rparr>)"
    by (simp add: heap_ok_def demo_to_def TILT_PAGESIZE_def)
  have E: "env_ok (minor_env 0 1 {100, 32772} demo_minor)"
    unfolding env_ok_def minor_env_sel demo_minor_sel demo_range demo_minor_reach
    by (simp add: demo_mmem_tags demo_mmem_sel demo_words demo_to_def range_ok_def SetRange_def)
  have R: "\<forall>l \<in> {100, 32772}. root_loc (minor_env 0 1 {100, 32772} demo_minor) l"
    unfolding root_loc_def minor_env_sel demo_minor_sel demo_range demo_minor_reach
    by (simp add: demo_mmem_tags demo_mmem_sel demo_to_def)
  have B: "\<forall>b \<in> set (set_items (backObjs (work demo_minor))). back_obj (minor_env 0 1 {100, 32772} demo_minor) {100, 32772} b"
    unfolding back_obj_def minor_env_sel demo_minor_sel demo_range demo_minor_reach
    by (simp add: demo_mmem_sel demo_to_def)
  have cfg: "arraySegmentSize demo_config = 0" "primaryGlobalOffset demo_config = 0"
    by (simp_all add: demo_config_def)
  have av: "Heap_GetAvail (demo_to\<lparr>hcursor := 32776\<rparr>) = 392"
    unfolding heap_ok_sizes(4) [OF to] by (simp add: demo_to_def)
  have "\<exists>s' f. GCCollect_Gen_minor 10 demo_config 0 1 demo_minor = Inr s' \<and>
    copies (mem demo_minor) (hrange (hp demo_minor 0)) {8200, 8212} f (mem s') \<and>
    (\<forall>x \<in> {8200, 8212}. hcursor (hp demo_minor 1) + 4 \<le> f x \<and> f x + 4 * olen (mem demo_minor) x \<le> hcursor (hp s' 1)) \<and>
    hcursor (hp s' 1) \<le> hcursor (hp demo_minor 1) + 4 * (\<Sum>x \<in> {8200, 8212}. osize (mem demo_minor) x) \<and>
    (\<forall>l \<in> {100, 32772}. mem s' l = reloc (hrange (hp demo_minor 0)) f (mem demo_minor l)) \<and>
    (\<forall>a. \<not> (hcursor (hp demo_minor 1) \<le> a \<and> a < htop (hp s' 1)) \<longrightarrow> (\<forall>x \<in> {8200, 8212}. a \<noteq> x - 4) \<longrightarrow>
       (a \<notin> {100, 32772} \<longrightarrow> mem s' a = mem demo_minor a) \<and>
       (a \<in> {100, 32772} \<or> \<not> InRange (unat (mem demo_minor a)) (hrange (hp demo_minor 0)) \<longrightarrow>
          \<not> InRange (unat (mem s' a)) (hrange (hp demo_minor 0))))"
    by (rule minor_collection_correct [OF cfg _ _ _ _ _ _ _ _ _ E R B])
      (simp_all add: demo_minor_sel demo_range demo_minor_reach demo_mmem_tags demo_minorRoots to av NULL_def del: One_nat_def)
  then show ?thesis
    by (metis demo_minor_sel(1) demo_mmem_sel(4) insertI1 insertI2)
qed

subsection \<open>What the write list contributes\<close>

definition entryRoots :: "senv \<Rightarrow> memory \<Rightarrow> range_t \<Rightarrow> addr \<Rightarrow> addr list" where
  \<comment> \<open>the location an entry records, when it holds no pointer to the old space\<close>
  "entryRoots e m r cur =
     (let obj = unat (m cur); field = obj + 4 * (unat (m (cur + 4)) div 4)
      in if \<not> IsGlobalData e (m cur) \<and> GET_TYPE (m (obj - 4)) \<in> {PTR_ARRAY_TYPE, MIRROR_PTR_ARRAY_TYPE} \<and>
           NotInRange (unat (m field)) r then [field] else [])"

definition entryGlobals :: "senv \<Rightarrow> memory \<Rightarrow> addr \<Rightarrow> addr list" where
  \<comment> \<open>the global an entry records, when it points into the heap\<close>
  "entryGlobals e m cur =
     (let obj = unat (m cur)
      in if IsGlobalData e (m cur) \<and> \<not> IsGlobalData e (m obj) \<and> \<not> IsTagData (m obj) then [obj] else [])"

definition entry_ok :: "senv \<Rightarrow> memory \<Rightarrow> addr \<Rightarrow> bool" where
  \<comment> \<open>an initialized global or an array that no collector is copying\<close>
  "entry_ok e m cur \<longleftrightarrow> (let tag = m (unat (m cur) - 4) in
     tag \<noteq> STALL_TAG \<and> \<not> TAG_IS_FORWARD tag \<and>
     (if IsGlobalData e (m cur) then tag = TAG_REC_TRACE
      else GET_TYPE tag \<in> {WORD_ARRAY_TYPE, QUAD_ARRAY_TYPE, PTR_ARRAY_TYPE, MIRROR_PTR_ARRAY_TYPE}))"

lemma writeEntry_ok:
  assumes "entry_ok e (mem s) cur" "0 < chainFuel cfg" "set_ok (roots (work s))" "set_ok (promotedGlobal g)"
  shows "\<exists>s' g'. writeEntry cfg e (Some r) cur (s, g) = Inr (s', g') \<and> mem s' = mem s \<and>
    writelistCursor s' = writelistCursor s \<and> set_ok (roots (work s')) \<and> set_ok (promotedGlobal g') \<and>
    set_items (roots (work s')) = set_items (roots (work s)) @ entryRoots e (mem s) r cur \<and>
    set_items (promotedGlobal g') = set_items (promotedGlobal g) @ entryGlobals e (mem s) cur"
proof -
  let ?obj = "unat (mem s cur)" and ?field = "unat (mem s cur) + 4 * (unat (mem s (cur + 4)) div 4)"
  let ?tag = "mem s (?obj - 4)"
  have t: "getTag (chainFuel cfg) (mem s) ?obj = Inr ?tag"
    using assms(1,2) by (simp add: getTag_def entry_ok_def Let_def getTagLoop_stop)
  show ?thesis
  proof (cases "IsGlobalData e (mem s cur)")
    case True
    then have tag: "?tag = TAG_REC_TRACE" using assms(1) by (simp add: entry_ok_def Let_def)
    obtain q where q: "SetPush (promotedGlobal g) ?obj = Inr q" "set_ok q"
      "set_items q = set_items (promotedGlobal g) @ [?obj]" by (rule SetPush_ok [OF assms(4)])
    show ?thesis
      using True assms(3,4)
      by (simp add: writeEntry_def Let_def t add_global_root_def tag q addGlobals_def entryRoots_def entryGlobals_def)
  next
    case False
    then have ty: "GET_TYPE ?tag \<in> {WORD_ARRAY_TYPE, QUAD_ARRAY_TYPE, PTR_ARRAY_TYPE, MIRROR_PTR_ARRAY_TYPE}"
      using assms(1) by (simp add: entry_ok_def Let_def)
    obtain q where q: "SetPush (roots (work s)) ?field = Inr q" "set_ok q"
      "set_items q = set_items (roots (work s)) @ [?field]" by (rule SetPush_ok [OF assms(3)])
    show ?thesis
      using False ty assms(3,4)
      by (auto simp: writeEntry_def Let_def t onRoots_def q ptrAt_def entryRoots_def entryGlobals_def tag_consts)
  qed
qed

lemma writeLoop_ok:
  "(\<forall>i < n. entry_ok e (mem s) (cur + 12 * i)) \<Longrightarrow> 0 < chainFuel cfg \<Longrightarrow> set_ok (roots (work s)) \<Longrightarrow>
   set_ok (promotedGlobal g) \<Longrightarrow> n < fuel \<Longrightarrow>
   \<exists>s' g'. writeLoop fuel cfg e (Some r) cur (cur + 12 * n) (s, g) = Inr (s', g') \<and> mem s' = mem s \<and>
    writelistCursor s' = writelistCursor s \<and> set_ok (roots (work s')) \<and> set_ok (promotedGlobal g') \<and>
    set_items (roots (work s')) = set_items (roots (work s)) @ concat (map (\<lambda>i. entryRoots e (mem s) r (cur + 12 * i)) [0..<n]) \<and>
    set_items (promotedGlobal g') =
      set_items (promotedGlobal g) @ concat (map (\<lambda>i. entryGlobals e (mem s) (cur + 12 * i)) [0..<n])"
proof (induction n arbitrary: fuel cur s g)
  case 0
  then show ?case by (cases fuel) auto
next
  case (Suc n)
  obtain k where k: "fuel = Suc k" "n < k" using Suc.prems(5) by (cases fuel) auto
  have "entry_ok e (mem s) cur" using Suc.prems(1) by (metis add.right_neutral mult_0_right zero_less_Suc)
  from writeEntry_ok [OF this Suc.prems(2-4), of r] obtain s1 g1 where s1: "writeEntry cfg e (Some r) cur (s, g) = Inr (s1, g1)"
    "mem s1 = mem s" "writelistCursor s1 = writelistCursor s" "set_ok (roots (work s1))" "set_ok (promotedGlobal g1)"
    "set_items (roots (work s1)) = set_items (roots (work s)) @ entryRoots e (mem s) r cur"
    "set_items (promotedGlobal g1) = set_items (promotedGlobal g) @ entryGlobals e (mem s) cur" by blast
  have "\<forall>i < n. entry_ok e (mem s1) (cur + 12 + 12 * i)"
  proof (intro allI impI)
    fix i assume "i < n"
    then have "entry_ok e (mem s) (cur + 12 * Suc i)" using Suc.prems(1) by blast
    then show "entry_ok e (mem s1) (cur + 12 + 12 * i)" by (simp add: s1(2) add.assoc)
  qed
  from Suc.IH [OF this Suc.prems(2) s1(4,5) k(2)] obtain s2 g2 where
    s2: "writeLoop k cfg e (Some r) (cur + 12) (cur + 12 + 12 * n) (s1, g1) = Inr (s2, g2)" "mem s2 = mem s1"
    "writelistCursor s2 = writelistCursor s1" "set_ok (roots (work s2))" "set_ok (promotedGlobal g2)"
    "set_items (roots (work s2)) = set_items (roots (work s1)) @ concat (map (\<lambda>i. entryRoots e (mem s1) r (cur + 12 + 12 * i)) [0..<n])"
    "set_items (promotedGlobal g2) = set_items (promotedGlobal g1) @ concat (map (\<lambda>i. entryGlobals e (mem s1) (cur + 12 + 12 * i)) [0..<n])"
    by blast
  have eq: "concat (map (\<lambda>i. h (cur + 12 * i)) [0..<Suc n]) = h cur @ concat (map (\<lambda>i. h (cur + 12 + 12 * i)) [0..<n])"
    for h :: "nat \<Rightarrow> addr list"
    by (simp add: upt_conv_Cons map_Suc_upt [symmetric] comp_def add.assoc del: upt_Suc)
  show ?case
    unfolding eq using k(1) s1 s2 by (simp add: add.assoc)
qed

text \<open>C17: processing the write list for a minor collection empties it, leaves memory alone and adds to
  the roots, in the order of the entries, exactly the recorded array fields that hold no pointer into
  the old space, and to the promoted globals the recorded globals that point into the heap.\<close>

theorem process_writelist_roots:
  assumes "writelistCursor s = writelistStart s + 12 * n" "0 < chainFuel cfg"
    and "\<forall>i < n. entry_ok e (mem s) (writelistStart s + 12 * i)"
    and "set_ok (roots (work s))" "set_ok (promotedGlobal g)"
  shows "\<exists>s' g'. process_writelist cfg e (Some r) s g = Inr (s', g') \<and> mem s' = mem s \<and>
    writelistCursor s' = writelistStart s \<and> set_ok (roots (work s')) \<and>
    set_items (roots (work s')) = set_items (roots (work s)) @
      concat (map (\<lambda>i. entryRoots e (mem s) r (writelistStart s + 12 * i)) [0..<n]) \<and>
    set_items (promotedGlobal g') = set_items (promotedGlobal g) @
      concat (map (\<lambda>i. entryGlobals e (mem s) (writelistStart s + 12 * i)) [0..<n])"
proof -
  define s1 where "s1 = s\<lparr>writelistCursor := writelistStart s, segmentType := (if writelistStart s < writelistCursor s
    then segmentType s OR MinorWork else segmentType s)\<rparr>"
  have s1: "mem s1 = mem s" "work s1 = work s" "writelistCursor s1 = writelistStart s" by (simp_all add: s1_def)
  have "process_writelist cfg e (Some r) s g =
      writeLoop (n + 1) cfg e (Some r) (writelistStart s) (writelistStart s + 12 * n) (s1, g)"
    using assms(1) by (simp add: process_writelist_def Let_def s1_def)
  moreover have "\<forall>i < n. entry_ok e (mem s1) (writelistStart s + 12 * i)" "set_ok (roots (work s1))"
    using assms(3,4) by (simp_all add: s1)
  ultimately show ?thesis
    using writeLoop_ok [of n e s1 "writelistStart s" cfg g "n + 1" r] assms(2,5) by (simp add: s1 del: writeLoop.simps) blast
qed

theorem process_writelist_roots_witness:
  "\<exists>s' g'. process_writelist demo_config demo_senv (Some (SetRange 32768 49152))
      (demo_minor\<lparr>mem := demo_mmem(6000 := 32772, 6004 := 0), writelistStart := 6000, writelistCursor := 6012\<rparr>)
      \<lparr>promotedGlobal = SetInit 32, tenuredGlobal = SetInit 32, globUsage = resetUsage demo_config\<rparr> = Inr (s', g') \<and>
    writelistCursor s' = 6000 \<and> set_items (roots (work s')) = [100, 32772]"
proof -
  define m where "m = demo_mmem(6000 := 32772, 6004 := 0)"
  define T :: val where "T = 4 * 8 + PTR_ARRAY_TYPE"
  have m: "m 6000 = 32772" "m 6004 = 0" "m 32768 = T" "m 32772 = 8212"
    by (simp_all add: m_def demo_mmem_sel) (simp add: demo_mmem_def T_def)
  have ty: "GET_TYPE T = PTR_ARRAY_TYPE" "\<not> TAG_IS_FORWARD T" "T \<noteq> STALL_TAG" unfolding T_def by code_simp+
  have g: "\<not> IsGlobalData demo_senv 32772" by (simp add: IsGlobalData_def demo_senv_def)
  have ok: "entry_ok demo_senv m 6000"
    by (simp add: entry_ok_def g ty m)
  have "NotInRange 8212 (SetRange 32768 49152)" by (simp add: NotInRange_def SetRange_def)
  then have rs: "entryRoots demo_senv m (SetRange 32768 49152) 6000 = [32772]"
    by (simp add: entryRoots_def g ty m)
  let ?s = "demo_minor\<lparr>mem := m, writelistStart := 6000, writelistCursor := 6012\<rparr>"
  have "set_ok (SetInit 32)" by (simp add: SetInit_ok)
  then show ?thesis
    unfolding m_def [symmetric]
    using process_writelist_roots [of ?s 1 demo_config demo_senv
      "\<lparr>promotedGlobal = SetInit 32, tenuredGlobal = SetInit 32, globUsage = resetUsage demo_config\<rparr>" "SetRange 32768 49152"] ok rs
    by (auto simp: demo_minor_sel demo_config_def)
qed

end
