(* ===== verification/Collector.thy ===== *)
theory Collector
  imports Generational Scheduler
begin

text \<open>
  The two stop-and-copy collectors put together: \<open>GCCollect_Semi\<close>, \<open>GC_Semi\<close>
  (\<open>Runtime/sparc/gc_semi.c\<close>), \<open>GCCollect_Gen\<close>, \<open>GC_Gen\<close> (\<open>Runtime/sparc/gc_gen.c\<close>).  The state
  \<open>collector\<close> joins the scheduler state (threads, stacks, memory, allocation areas of the processors)
  with the state of the copying routines, of the globals and of the stack scan.  The program has one
  memory in which the thread structures lie; the model keeps the fields of the structures that hold
  ML values as records, so \<open>cview\<close> lays them out in memory before the copying routines run on them
  and \<open>putGc\<close> reads them back.  The theorem on a semispace collection joins the theorem on its copy
  phase with the theorem on the size of the new heap.
\<close>

subsection \<open>The state\<close>

record collector =
  cgc :: gcst                     \<comment> \<open>heaps, copy range and work lists; the memory is that of \<open>csch\<close>\<close>
  cgl :: globst
  csch :: sched
  ctr :: tracest                  \<comment> \<open>the caches of the stack scan\<close>
  depthTotal :: int
  depthMax :: int
  sizeTotal :: int
  fromSp :: nat                   \<comment> \<open>the heap \<open>fromSpace\<close> points at\<close>
  toSp :: nat
  nurserySp :: nat
  majorGC :: bool                 \<comment> \<open>\<open>GCType == Major\<close>\<close>
  NumGC :: nat
  NumMajorGC :: nat

record collenv =
  \<comment> \<open>what a collection depends on and does not change\<close>
  cCfg :: config
  cEnv :: senv
  cAddr :: raddr
  cMprot :: "addr \<Rightarrow> nat \<Rightarrow> bool"
  cParanoid :: bool
  cRnd :: "real \<Rightarrow> real"
  cSizes :: sizes
  cRate :: real                   \<comment> \<open>\<open>CollectionRate\<close>\<close>
  cFuel :: nat

fun storeWords :: "addr \<Rightarrow> val list \<Rightarrow> memory \<Rightarrow> memory" where
  "storeWords a [] m = m"
| "storeWords a (v # vs) m = storeWords (a + 4) vs (m(a := v))"

fun loadWords :: "addr \<Rightarrow> nat \<Rightarrow> memory \<Rightarrow> val list" where
  "loadWords a 0 m = []"
| "loadWords a (Suc n) m = m a # loadWords (a + 4) n m"

definition storeThread :: "raddr \<Rightarrow> nat \<Rightarrow> thread \<Rightarrow> memory \<Rightarrow> memory" where
  "storeThread A t th m = storeWords (rootValAddr A t 0) (rootVals th)
     ((storeWords (thAddr A t) (saveregs th) m)(thunkAddr A t := thunk th))"

definition readThread :: "raddr \<Rightarrow> memory \<Rightarrow> nat \<Rightarrow> thread \<Rightarrow> thread" where
  "readThread A m t th = th\<lparr>saveregs := loadWords (thAddr A t) (length (saveregs th)) m, thunk := m (thunkAddr A t),
     rootVals := loadWords (rootValAddr A t 0) (length (rootVals th)) m\<rparr>"

definition storeStacklet :: "raddr \<Rightarrow> nat \<Rightarrow> stacklet \<Rightarrow> memory \<Rightarrow> memory" where
  "storeStacklet A i x m = storeWords (regsAddr A i) (bottomBaseRegs x) m"

definition readStacklet :: "raddr \<Rightarrow> memory \<Rightarrow> nat \<Rightarrow> stacklet \<Rightarrow> stacklet" where
  "readStacklet A m i x = x\<lparr>bottomBaseRegs := loadWords (regsAddr A i) (length (bottomBaseRegs x)) m\<rparr>"

fun storeAll :: "(nat \<Rightarrow> 'a \<Rightarrow> memory \<Rightarrow> memory) \<Rightarrow> nat \<Rightarrow> 'a list \<Rightarrow> memory \<Rightarrow> memory" where
  "storeAll f i [] m = m"
| "storeAll f i (x # xs) m = storeAll f (i + 1) xs (f i x m)"

fun loadAll :: "(nat \<Rightarrow> 'a \<Rightarrow> 'a) \<Rightarrow> nat \<Rightarrow> 'a list \<Rightarrow> 'a list" where
  "loadAll f i [] = []"
| "loadAll f i (x # xs) = f i x # loadAll f (i + 1) xs"

definition cview :: "raddr \<Rightarrow> sched \<Rightarrow> memory" where
  \<comment> \<open>the memory with the thread structures in it\<close>
  "cview A s = storeAll (storeStacklet A) 0 (Stacklets (stk s)) (storeAll (storeThread A) 0 (Threads s) (smem (stk s)))"

definition reloadThreads :: "raddr \<Rightarrow> memory \<Rightarrow> sched \<Rightarrow> sched" where
  "reloadThreads A m s = s\<lparr>Threads := loadAll (readThread A m) 0 (Threads s),
     stk := (stk s)\<lparr>smem := m, Stacklets := loadAll (readStacklet A m) 0 (Stacklets (stk s))\<rparr>\<rparr>"

definition gcView :: "raddr \<Rightarrow> nat \<Rightarrow> collector \<Rightarrow> gcst" where
  \<comment> \<open>the state of the copying routines on processor \<open>p\<close>\<close>
  "gcView A p c = (let pr = Procs (csch c) ! p in
     (cgc c)\<lparr>mem := cview A (csch c), allocStart := prAllocStart pr, allocCursor := prAllocCursor pr,
       allocLimit := prAllocLimit pr, writelistStart := prWritelistStart pr, writelistCursor := prWritelistCursor pr,
       writelistEnd := prWritelistEnd pr, segUsage := prUsage pr\<rparr>)"

definition putGc :: "raddr \<Rightarrow> nat \<Rightarrow> gcst \<Rightarrow> collector \<Rightarrow> collector" where
  "putGc A p s c = c\<lparr>cgc := s, csch := updPr p (\<lambda>pr. pr\<lparr>prUsage := segUsage s\<rparr>)
       (reloadThreads A (mem s) (csch c))\<rparr>"

definition onGc :: "raddr \<Rightarrow> nat \<Rightarrow> (gcst \<Rightarrow> gcst result) \<Rightarrow> collector \<Rightarrow> collector result" where
  "onGc A p f c = bindE (f (gcView A p c)) (\<lambda>s. Inr (putGc A p s c))"

definition setHeap :: "nat \<Rightarrow> heap \<Rightarrow> collector \<Rightarrow> collector" where
  "setHeap i h c = c\<lparr>cgc := (cgc c)\<lparr>hp := (hp (cgc c))(i := h)\<rparr>\<rparr>"

definition cheap :: "nat \<Rightarrow> collector \<Rightarrow> heap" where
  "cheap i c = hp (cgc c) i"

subsection \<open>The roots\<close>

definition scanOne :: "collenv \<Rightarrow> nat \<Rightarrow> nat \<Rightarrow> collector \<Rightarrow> collector result" where
  \<comment> \<open>\<open>thread_root_scan\<close> of thread \<open>t\<close> by processor \<open>p\<close>\<close>
  "scanOne E p t c =
     bindE (thread_root_scan (cEnv E) (cAddr E) t
         \<lparr>rsSched = csch c, rsTrace = (ctr c)\<lparr>tRoots := roots (work (cgc c)), tUsage := prUsage (Procs (csch c) ! p)\<rparr>,
          rsStacklets = stacklets (work (cgc c)), TotalStackDepth = depthTotal c, MaxStackDepth = depthMax c,
          TotalStackSize = sizeTotal c\<rparr>) (\<lambda>s.
     Inr (c\<lparr>csch := updPr p (\<lambda>pr. pr\<lparr>prUsage := tUsage (rsTrace s)\<rparr>) (rsSched s), ctr := rsTrace s,
            cgc := (cgc c)\<lparr>work := (work (cgc c))\<lparr>roots := tRoots (rsTrace s), stacklets := rsStacklets s\<rparr>\<rparr>,
            depthTotal := TotalStackDepth s, depthMax := MaxStackDepth s, sizeTotal := TotalStackSize s\<rparr>))"

fun scanJobs :: "nat \<Rightarrow> collenv \<Rightarrow> nat \<Rightarrow> bool \<Rightarrow> int \<Rightarrow> collector \<Rightarrow> (int \<times> collector) result" where
  \<comment> \<open>the loop over the jobs; adds up what the threads request; in the generational collector (\<open>gen\<close>) a
     thread can turn the collection into a major one\<close>
  "scanJobs 0 E p gen req c = Inl OutOfFuel"
| "scanJobs (Suc n) E p gen req c =
     (case NextJob (csch c) of (r, sc) \<Rightarrow>
        let c = c\<lparr>csch := sc\<rparr> in
        case r of None \<Rightarrow> Inr (req, c) | Some t \<Rightarrow>
          let info = requestInfo (Threads sc ! t); major = (request (Threads sc ! t) = MajorGCRequestFromC) in
          bindE (scanOne E p t c) (\<lambda>c.
          scanJobs n E p gen (if info \<ge> 0 then req + info else req) (c\<lparr>majorGC := majorGC c \<or> gen \<and> major\<rparr>)))"

definition majorGlobals :: "collector \<Rightarrow> collector result" where
  "majorGlobals c = bindE (major_global_scan (cgl c) (globals (work (cgc c)))) (\<lambda>(q, g).
     Inr (c\<lparr>cgl := g, cgc := (cgc c)\<lparr>work := (work (cgc c))\<lparr>globals := q\<rparr>\<rparr>\<rparr>))"

definition semiRoots :: "collenv \<Rightarrow> nat \<Rightarrow> collector \<Rightarrow> (int \<times> collector) result" where
  "semiRoots E p c =
     bindE (scanJobs (cFuel E) E p False 0 (c\<lparr>csch := ResetJob (csch c)\<rparr>)) (\<lambda>(req, c).
     bindE (majorGlobals c) (\<lambda>c. Inr (req, c)))"

definition putWritelist :: "raddr \<Rightarrow> nat \<Rightarrow> gcst \<Rightarrow> collector \<Rightarrow> collector" where
  \<comment> \<open>also the cursor of the write list, which only \<open>process_writelist\<close> changes\<close>
  "putWritelist A p s c = (let c = putGc A p s c in
     c\<lparr>csch := updPr p (\<lambda>pr. pr\<lparr>prWritelistCursor := writelistCursor s\<rparr>) (csch c)\<rparr>)"

definition writelistC :: "collenv \<Rightarrow> nat \<Rightarrow> range_t option \<Rightarrow> collector \<Rightarrow> collector result" where
  \<comment> \<open>\<open>process_writelist(proc, from, to)\<close>\<close>
  "writelistC E p old c =
     bindE (process_writelist (cCfg E) (cEnv E) old (gcView (cAddr E) p c) (cgl c)) (\<lambda>(s, g).
     Inr ((putWritelist (cAddr E) p s c)\<lparr>cgl := g\<rparr>))"

definition resetAlloc :: "nat \<Rightarrow> nat \<Rightarrow> collector \<Rightarrow> collector" where
  \<comment> \<open>\<open>ResetAllocation(proc, heap)\<close>\<close>
  "resetAlloc p i c = (case ResetAllocation p (Some (cheap i c)) (csch c) of (h, sc) \<Rightarrow>
     (case h of None \<Rightarrow> c\<lparr>csch := sc\<rparr> | Some h \<Rightarrow> (setHeap i h c)\<lparr>csch := sc\<rparr>))"

definition unusedBytes :: "nat \<Rightarrow> collector \<Rightarrow> int" where
  "unusedBytes p c = (let pr = Procs (csch c) ! p in 4 * ((int (prAllocLimit pr) - int (prAllocCursor pr)) div 4))"

definition markSegment :: "32 word \<Rightarrow> collector \<Rightarrow> collector" where
  \<comment> \<open>\<open>proc->segmentType |= ...\<close>\<close>
  "markSegment w c = c\<lparr>cgc := (cgc c)\<lparr>segmentType := segmentType (cgc c) OR w\<rparr>\<rparr>"

definition writelistEmpty :: "nat \<Rightarrow> collector \<Rightarrow> bool" where
  "writelistEmpty p c = (let pr = Procs (csch c) ! p in prWritelistCursor pr = prWritelistStart pr)"

definition satisfiableC :: "collenv \<Rightarrow> nat \<Rightarrow> nat \<Rightarrow> collector \<Rightarrow> bool result" where
  "satisfiableC E p t c = GCSatisfiable (cCfg E) p t (csch c)"

subsection \<open>The semispace collector\<close>

definition discardAndSwap :: "collenv \<Rightarrow> heap \<Rightarrow> collector \<Rightarrow> collector result" where
  \<comment> \<open>install the resized to-space, discard from-space, swap the two\<close>
  "discardAndSwap E to c =
     (let c = setHeap (toSp c) to c in
      bindE (Heap_Resize (cMprot E) (cParanoid E) (cheap (fromSp c) c) 0 True) (\<lambda>fr.
      Inr ((setHeap (fromSp c) fr c)\<lparr>fromSp := toSp c, toSp := fromSp c\<rparr>)))"

definition semiFinish :: "collenv \<Rightarrow> nat \<Rightarrow> int \<Rightarrow> int \<Rightarrow> collector \<Rightarrow> collector result" where
  \<comment> \<open>\<open>GCCollect_Semi\<close> after the copying\<close>
  "semiFinish E p req unused c =
     bindE (HeapAdjust1 (cRnd E) (cSizes E) (cMprot E) (cParanoid E) req unused 0 (cRate E) 0
              (cheap (fromSp c) c) (cheap (toSp c) c)) (\<lambda>to.
     bindE (discardAndSwap E to c) (\<lambda>c.
     let c = resetAlloc p (fromSp c) (c\<lparr>NumGC := NumGC c + 1\<rparr>) in
     bindE (assertE (writelistEmpty p c) ''writelistCursor == writelistStart'') (\<lambda>_. Inr c)))"

definition GCCollect_Semi :: "collenv \<Rightarrow> nat \<Rightarrow> collector \<Rightarrow> collector result" where
  "GCCollect_Semi E p c =
     bindE (assertE (length (Procs (csch c)) = 1) ''NumProc == 1'') (\<lambda>_.
     bindE (assertE (prAllocCursor (Procs (csch c) ! p) \<le> prAllocLimit (Procs (csch c) ! p)) ''allocCursor <= allocLimit'') (\<lambda>_.
     bindE (assertE (primaryGlobalOffset (cCfg E) = 0) ''primaryGlobalOffset == 0'') (\<lambda>_.
     bindE (assertE (SetIsEmpty (roots (work (cgc c)))) ''SetIsEmpty(roots)'') (\<lambda>_.
     let c = markSegment (MajorWork OR FlipOn OR FlipOff) c; unused = unusedBytes p c in
     bindE (semiRoots E p c) (\<lambda>(req, c).
     bindE (onGc (cAddr E) p (GCCollect_Semi_copy (cFuel E) (cCfg E) (cMprot E) (cParanoid E) (fromSp c) (toSp c)) c) (\<lambda>c.
     semiFinish E p req unused c))))))"

definition GC_Semi :: "collenv \<Rightarrow> nat \<Rightarrow> nat \<Rightarrow> collector \<Rightarrow> collector result" where
  "GC_Semi E p t c =
     (let c = (if prAllocLimit (Procs (csch c) ! p) = StartHeapLimit then resetAlloc p (fromSp c) c else c) in
      bindE (writelistC E p None c) (\<lambda>c.
      bindE (satisfiableC E p t c) (\<lambda>b.
      if b then Inr c
      else bindE (GCCollect_Semi E p c) (\<lambda>c.
           bindE (satisfiableC E p t c) (\<lambda>b.
           bindE (assertE b ''GCSatisfiable(proc,th)'') (\<lambda>_. Inr c))))))"

subsection \<open>The generational collector\<close>

definition genRoots :: "collenv \<Rightarrow> nat \<Rightarrow> collector \<Rightarrow> (int \<times> collector) result" where
  \<comment> \<open>the roots of the threads, of the write list and of the globals\<close>
  "genRoots E p c =
     bindE (scanJobs (cFuel E) E p True 0 (c\<lparr>csch := ResetJob (csch c)\<rparr>)) (\<lambda>(req, c).
     let c = markSegment (FlipOn OR FlipOff OR (if majorGC c then MajorWork else MinorWork)) c in
     if \<not> majorGC c
     then bindE (writelistC E p (Some (hrange (cheap (fromSp c) c))) c) (\<lambda>c.
          bindE (minor_global_scan (cgl c) (globals (work (cgc c)))) (\<lambda>q.
          Inr (req, c\<lparr>cgc := (cgc c)\<lparr>work := (work (cgc c))\<lparr>globals := q\<rparr>\<rparr>\<rparr>)))
     else bindE (writelistC E p None c) (\<lambda>c.
          bindE (majorGlobals c) (\<lambda>c. Inr (req, c))))"

definition genCopy :: "collenv \<Rightarrow> nat \<Rightarrow> int \<Rightarrow> int \<Rightarrow> collector \<Rightarrow> collector result" where
  \<comment> \<open>the minor or the major collection\<close>
  "genCopy E p req unused c =
     (if \<not> majorGC c
      then onGc (cAddr E) p (GCCollect_Gen_minor (cFuel E) (cCfg E) (nurserySp c) (fromSp c)) c
      else bindE (onGc (cAddr E) p (GCCollect_Gen_major (cFuel E) (cCfg E) (cMprot E) (cParanoid E)
                    (nurserySp c) (fromSp c) (toSp c)) c) (\<lambda>c.
           bindE (HeapAdjust2 (cRnd E) (cSizes E) (cMprot E) (cParanoid E) req unused 0 (cRate E) 0
                    (cheap (nurserySp c) c) (cheap (fromSp c) c) (cheap (toSp c) c)) (\<lambda>to.
           discardAndSwap E to c)))"

definition genFinish :: "nat \<Rightarrow> collector \<Rightarrow> collector result" where
  "genFinish p c =
     (let c = setHeap (nurserySp c) (Heap_Reset (cheap (nurserySp c) c)) c in
      bindE (if \<not> majorGC c then minor_global_promote (cgl c) else Inr (cgl c)) (\<lambda>g.
      let c = resetAlloc p (nurserySp c) (c\<lparr>cgl := g\<rparr>) in
      bindE (assertE (writelistEmpty p c) ''writelistCursor == writelistStart'') (\<lambda>_.
      Inr (c\<lparr>NumMajorGC := (if majorGC c then NumMajorGC c + 1 else NumMajorGC c), NumGC := NumGC c + 1\<rparr>))))"

definition GCCollect_Gen :: "collenv \<Rightarrow> nat \<Rightarrow> collector \<Rightarrow> collector result" where
  "GCCollect_Gen E p c =
     (let c = c\<lparr>majorGC := (Heap_GetAvail (cheap (fromSp c) c) < Heap_GetSize (cheap (nurserySp c) c))\<rparr>;
          ordered = (\<lambda>h. hcursor h \<le> htop h) in
      bindE (assertE (length (Procs (csch c)) = 1) ''NumProc == 1'') (\<lambda>_.
      bindE (assertE (ordered (cheap (nurserySp c) c)) ''nursery->cursor <= nursery->top'') (\<lambda>_.
      bindE (assertE (ordered (cheap (fromSp c) c)) ''fromSpace->cursor <= fromSpace->top'') (\<lambda>_.
      bindE (assertE (ordered (cheap (toSp c) c)) ''toSpace->cursor <= toSpace->top'') (\<lambda>_.
      let unused = unusedBytes p c in
      bindE (genRoots E p c) (\<lambda>(req, c).
      bindE (genCopy E p req unused c) (genFinish p)))))))"

definition GC_Gen :: "collenv \<Rightarrow> nat \<Rightarrow> nat \<Rightarrow> collector \<Rightarrow> collector result" where
  "GC_Gen E p t c =
     (let c = (if prAllocLimit (Procs (csch c) ! p) = StartHeapLimit then resetAlloc p (nurserySp c) c else c) in
      bindE (if request (Threads (csch c) ! t) = MajorGCRequestFromC then Inr (False, c)
             else bindE (try_process_writelist (cCfg E) (cEnv E)
                    (\<lambda>s. satisfiableC E p t (putWritelist (cAddr E) p s c)) (Some (hrange (cheap (fromSp c) c)))
                    (gcView (cAddr E) p c) (cgl c)) (\<lambda>(b, s, g).
                  Inr (b, (putWritelist (cAddr E) p s c)\<lparr>cgl := g\<rparr>))) (\<lambda>(done, c).
      if done then Inr c
      else bindE (GCCollect_Gen E p c) (\<lambda>c.
           bindE (satisfiableC E p t c) (\<lambda>b.
           bindE (assertE b ''GCSatisfiable(proc,th)'') (\<lambda>_. Inr c)))))"

subsection \<open>The view of the memory\<close>

lemma storeWords_load: "\<forall>a. m' a = m a \<Longrightarrow> storeWords a (loadWords a n m) m' = m'"
  by (induction n arbitrary: a) (simp_all add: fun_upd_idem)

lemma storeAll_load:
  assumes "\<And>i x. f i (g i x) m = m"
  shows "storeAll f i (loadAll g i xs) m = m"
  by (induction xs arbitrary: i) (simp_all add: assms)

lemma cview_reload: "cview A (reloadThreads A m s) = m"
proof -
  have "storeThread A t (readThread A m t th) m = m" for t th
    by (simp add: storeThread_def readThread_def storeWords_load fun_upd_idem)
  moreover have "storeStacklet A i (readStacklet A m i x) m = m" for i x
    by (simp add: storeStacklet_def readStacklet_def storeWords_load)
  ultimately show ?thesis
    by (simp add: cview_def reloadThreads_def storeAll_load)
qed

lemma cview_frame [simp]:
  "cview A (updPr p f s) = cview A s" "cview A (s\<lparr>curThread := i\<rparr>) = cview A s"
  by (simp_all add: cview_def updPr_def)

lemma cview_putGc [simp]: "cview A (csch (putGc A p s c)) = mem s"
  by (simp add: putGc_def cview_reload)

lemma putGc_sel [simp]:
  "cgc (putGc A p s c) = s" "cgl (putGc A p s c) = cgl c" "fromSp (putGc A p s c) = fromSp c"
  "toSp (putGc A p s c) = toSp c" "nurserySp (putGc A p s c) = nurserySp c" "majorGC (putGc A p s c) = majorGC c"
  "NumGC (putGc A p s c) = NumGC c" "NumMajorGC (putGc A p s c) = NumMajorGC c"
  "length (Procs (csch (putGc A p s c))) = length (Procs (csch c))"
  by (simp_all add: putGc_def updPr_def reloadThreads_def)

lemma setHeap_sel [simp]:
  "csch (setHeap i h c) = csch c" "cheap j (setHeap i h c) = (if i = j then h else cheap j c)"
  "fromSp (setHeap i h c) = fromSp c" "toSp (setHeap i h c) = toSp c" "nurserySp (setHeap i h c) = nurserySp c"
  "majorGC (setHeap i h c) = majorGC c" "NumGC (setHeap i h c) = NumGC c" "cgl (setHeap i h c) = cgl c"
  "NumMajorGC (setHeap i h c) = NumMajorGC c"
  by (auto simp: setHeap_def cheap_def)

lemma resetAlloc_sel [simp]:
  "cview A (csch (resetAlloc p i c)) = cview A (csch c)"
  "cheap j (resetAlloc p i c) = (if i = j then (cheap i c)\<lparr>hcursor := htop (cheap i c)\<rparr> else cheap j c)"
  "fromSp (resetAlloc p i c) = fromSp c" "toSp (resetAlloc p i c) = toSp c" "NumGC (resetAlloc p i c) = NumGC c"
  "nurserySp (resetAlloc p i c) = nurserySp c"
  by (auto simp: resetAlloc_def ResetAllocation_def setHeap_def cheap_def)

lemma resetAlloc_area:
  assumes "p < length (Procs (csch c))"
  shows "prAllocStart (Procs (csch (resetAlloc p i c)) ! p) = hcursor (cheap i c)"
    "prAllocCursor (Procs (csch (resetAlloc p i c)) ! p) = hcursor (cheap i c)"
    "prAllocLimit (Procs (csch (resetAlloc p i c)) ! p) = htop (cheap i c)"
    "writelistEmpty p (resetAlloc p i c) = writelistEmpty p c"
  using assms by (simp_all add: resetAlloc_def ResetAllocation_def updPr_def writelistEmpty_def Let_def)

subsection \<open>A whole semispace collection\<close>

definition allocRoom :: "nat \<Rightarrow> collector \<Rightarrow> int" where
  \<comment> \<open>the bytes a processor may allocate\<close>
  "allocRoom p c = int (prAllocLimit (Procs (csch c) ! p)) - int (prAllocCursor (Procs (csch c) ! p))"

lemma discardAndSwap_ok:
  assumes "heap_ok to" "heap_ok (cheap (fromSp c) c)" "\<forall>a n. cMprot E a n" "fromSp c \<noteq> toSp c"
  shows "\<exists>c'. discardAndSwap E to c = Inr c' \<and> csch c' = csch c \<and> fromSp c' = toSp c \<and> toSp c' = fromSp c \<and>
    nurserySp c' = nurserySp c \<and> NumGC c' = NumGC c \<and> cheap (fromSp c') c' = to \<and>
    heap_ok (cheap (toSp c') c') \<and> hcursor (cheap (toSp c') c') = hbottom (cheap (fromSp c) c)"
proof -
  let ?fr = "cheap (fromSp c) c"
  obtain fr where fr: "Heap_Resize (cMprot E) (cParanoid E) ?fr 0 True = Inr fr" "heap_ok fr" "hcursor fr = hbottom ?fr"
    by (rule Heap_Resize_ok [OF assms(2), of 0 True "cMprot E" "cParanoid E"]) (use assms(3) in simp_all)
  let ?c = "(setHeap (fromSp c) fr (setHeap (toSp c) to c))\<lparr>fromSp := toSp c, toSp := fromSp c\<rparr>"
  have "discardAndSwap E to c = Inr ?c"
    using fr(1) assms(4) by (simp add: discardAndSwap_def)
  then show ?thesis
    using fr(2,3) assms(4) by (intro exI [of _ ?c]) (simp add: setHeap_def cheap_def)
qed

lemma semiFinish_ok:
  assumes r: "rounding (cRnd E)" "sizes_ok (cRnd E) (cSizes E)" and prot: "\<forall>a n. cMprot E a n"
    and h: "heap_ok (cheap (toSp c) c)" "heap_ok (cheap (fromSp c) c)" "fromSp c \<noteq> toSp c"
      "MaxHeapByte (cSizes E) \<le> int (Heap_GetMaximumSize (cheap (toSp c) c))"
    and req: "0 \<le> req" "int (Heap_GetUsed (cheap (toSp c) c)) + req \<le> MaxHeapByte (cSizes E)"
    and occ: "int (Heap_GetUsed (cheap (toSp c) c)) \<le> - unused + int (Heap_GetUsed (cheap (fromSp c) c))"
    and p: "p < length (Procs (csch c))" "writelistEmpty p c"
  shows "\<exists>c'. semiFinish E p req unused c = Inr c' \<and> cview A (csch c') = cview A (csch c) \<and> NumGC c' = NumGC c + 1 \<and>
    fromSp c' = toSp c \<and> toSp c' = fromSp c \<and> req \<le> allocRoom p c' \<and>
    prAllocCursor (Procs (csch c') ! p) = hcursor (cheap (toSp c) c) \<and>
    heap_ok (cheap (fromSp c') c') \<and> hbottom (cheap (fromSp c') c') = hbottom (cheap (toSp c) c) \<and>
    prAllocLimit (Procs (csch c') ! p) = htop (cheap (fromSp c') c') \<and>
    heap_ok (cheap (toSp c') c') \<and> hcursor (cheap (toSp c') c') = hbottom (cheap (fromSp c) c)"
proof -
  let ?to = "cheap (toSp c) c" and ?fr = "cheap (fromSp c) c"
  obtain to where to: "HeapAdjust1 (cRnd E) (cSizes E) (cMprot E) (cParanoid E) req unused 0 (cRate E) 0 ?fr ?to = Inr to"
    "heap_ok to" "hbottom to = hbottom ?to" "hcursor to = hcursor ?to" "req \<le> int (Heap_GetAvail to)"
    using heap_adjust_ok [OF r prot h(1) req(1), of unused "[?fr]" "cParanoid E" "cRate E"] occ h(4) req(2)
    by (auto simp: HeapAdjust1_def)
  obtain c1 where c1: "discardAndSwap E to c = Inr c1" "csch c1 = csch c" "fromSp c1 = toSp c" "toSp c1 = fromSp c"
    "NumGC c1 = NumGC c" "cheap (fromSp c1) c1 = to" "heap_ok (cheap (toSp c1) c1)"
    "hcursor (cheap (toSp c1) c1) = hbottom (cheap (fromSp c) c)"
    using discardAndSwap_ok [OF to(2) h(2) prot h(3)] by blast
  define c2 where "c2 = resetAlloc p (fromSp c1) (c1\<lparr>NumGC := NumGC c1 + 1\<rparr>)"
  have up: "p < length (Procs (csch (c1\<lparr>NumGC := NumGC c1 + 1\<rparr>)))" "writelistEmpty p (c1\<lparr>NumGC := NumGC c1 + 1\<rparr>)"
    "cheap i (c1\<lparr>NumGC := n\<rparr>) = cheap i c1" for i n
    using p c1(2) by (simp_all add: writelistEmpty_def cheap_def)
  have area: "prAllocCursor (Procs (csch c2) ! p) = hcursor to" "prAllocLimit (Procs (csch c2) ! p) = htop to" "writelistEmpty p c2"
    using resetAlloc_area [OF up(1), of "fromSp c1"] up(2) c1(6) by (simp_all add: c2_def up(3))
  have sel: "cview A (csch c2) = cview A (csch c)" "NumGC c2 = NumGC c + 1" "fromSp c2 = toSp c" "toSp c2 = fromSp c"
    "cheap (fromSp c2) c2 = to\<lparr>hcursor := htop to\<rparr>" "cheap (toSp c2) c2 = cheap (toSp c1) c1"
    using c1 h(3) by (simp_all add: c2_def up(3))
  have "req \<le> allocRoom p c2"
    using to(5) heap_ok_sizes(4) [OF to(2)] to(2) by (simp add: allocRoom_def area heap_ok_def)
  moreover have "heap_ok (to\<lparr>hcursor := htop to\<rparr>)" using to(2) by (auto simp: heap_ok_def)
  moreover have "semiFinish E p req unused c = Inr c2"
    using to(1) c1(1) area(3) by (simp add: semiFinish_def Let_def c2_def)
  ultimately show ?thesis
    using sel area to(3,4) c1(7,8) by (intro exI [of _ c2]) simp
qed

definition scanned_for :: "collenv \<Rightarrow> addr set \<Rightarrow> collector \<Rightarrow> bool" where
  \<comment> \<open>what the copy phase needs of the state after the root scan: two heaps in order, the locations \<open>R\<close> in
     the work lists, well-formed reachable objects, and enough fuel\<close>
  "scanned_for E R c \<longleftrightarrow> (let s = gcView (cAddr E) 0 c; fs = fromSp c; ts = toSp c; X = reach (mem s) (hrange (hp s fs)) R in
     length (Procs (csch c)) = 1 \<and> writelistEmpty 0 c \<and>
     fs \<noteq> ts \<and> heap_ok (hp s fs) \<and> heap_ok (hp s ts) \<and> Heap_GetSize (hp s fs) \<le> Heap_GetMaximumSize (hp s ts) \<and>
     crHeap (copyRg s) \<noteq> Some ts \<and> set_ok (roots (work s)) \<and> set_ok (globals (work s)) \<and>
     R = set (set_items (roots (work s))) \<union> set (set_items (globals (work s))) \<and> NULL \<notin> R \<and>
     env_ok (semi_env fs ts R s) \<and> (\<forall>l \<in> R. root_loc (semi_env fs ts R s) l) \<and>
     4 * (\<Sum>x \<in> X. osize (mem s) x) \<le> Heap_GetUsed (hp s fs) \<and>
     length (set_items (roots (work s))) < cFuel E \<and> length (set_items (globals (work s))) < cFuel E \<and>
     (\<Sum>x \<in> X. osize (mem s) x) \<le> cFuel E)"

lemma gcView_sel [simp]:
  "hp (gcView A p c) = hp (cgc c)" "work (gcView A p c) = work (cgc c)" "copyRg (gcView A p c) = copyRg (cgc c)"
  "mem (gcView A p c) = cview A (csch c)"
  by (simp_all add: gcView_def Let_def)

lemma putGc_cheap [simp]: "cheap i (putGc A p s c) = hp s i"
  "writelistEmpty p (putGc A q s c) = writelistEmpty p c"
  by (simp add: cheap_def putGc_def)
    (cases "q < length (Procs (csch c))"; cases "p = q";
      simp add: putGc_def writelistEmpty_def updPr_def reloadThreads_def Let_def list_update_beyond)


text \<open>The two records of the semispace example; the root is the thunk of the one thread.\<close>

definition demo_cthread :: thread where
  "demo_cthread = demo_thread\<lparr>saveregs := replicate 32 0, rootVals := replicate 10 0, rootLocs := replicate 10 0,
     thunk := 8200, request := GCRequestFromML, requestInfo := 400\<rparr>"

definition demo_collector :: collector where
  "demo_collector = \<lparr>cgc = demo_semi\<lparr>work := demo_work\<rparr>,
     cgl = \<lparr>promotedGlobal = SetInit 32, tenuredGlobal = SetInit 32, globUsage = resetUsage demo_config\<rparr>,
     csch = \<lparr>Threads = [demo_cthread], Procs = [demo_proc\<lparr>prAllocStart := 8292, prAllocCursor := 8292, prAllocLimit := 8292,
         prWritelistStart := 0, prWritelistCursor := 0\<rparr>], JobQueue = [Some 0], activeThread = 1, maxThread = 1,
       totalThread = 1, curThread = 0, EmptyPlain = False, stk = (StackInitialize demo_mem)\<lparr>Stacklets := []\<rparr>\<rparr>,
     ctr = demo_tracest, depthTotal = 0, depthMax = 0, sizeTotal = 0, fromSp = 0, toSp = 1, nurserySp = 2, majorGC = False,
     NumGC = 0, NumMajorGC = 0\<rparr>"

definition demo_collenv :: collenv where
  "demo_collenv = \<lparr>cCfg = demo_config, cEnv = demo_senv, cAddr = demo_raddr, cMprot = (\<lambda>_ _. True), cParanoid = False,
     cRnd = (\<lambda>x. x), cSizes = demo_sizes, cRate = 2, cFuel = 10\<rparr>"

lemma storeWords_other: "b < a \<or> a + 4 * length vs \<le> b \<Longrightarrow> storeWords a vs m b = m b"
  by (induction vs arbitrary: a m) auto

lemma thread_root_scan_thunk:
  \<comment> \<open>a thread that has not started has its thunk as its only root\<close>
  assumes "primaryOff (rsStk s) = 0" "\<forall>l \<in> set (rootLocs (rsThread t s)). l = NULL" "thunk (rsThread t s) \<noteq> 0"
    "\<not> IsTagData (thunk (rsThread t s))" "\<not> IsGlobalData e (thunk (rsThread t s))" "thunkAddr A t \<noteq> NULL"
    "SetPush (tRoots (rsTrace s)) (thunkAddr A t) = Inr r"
  shows "thread_root_scan e A t s = Inr (s\<lparr>rsTrace := withRoots r (rsTrace s)\<rparr>)"
proof -
  have "foldE (pushLoc e rd) ls q = Inr q" if "\<forall>l \<in> set ls. l = NULL" for rd ls q
    using that by (induction ls arbitrary: q) (simp_all add: pushLoc_def)
  then show ?thesis
    using assms by (simp add: thread_root_scan_def Let_def pushLoc_def readLoc_def)
qed

lemma major_global_scan_ok:
  assumes "set_ok (promotedGlobal g)" "set_ok (tenuredGlobal g)" "sfirst (tenuredGlobal g) = 0" "set_ok gl" "sfirst gl = 0"
  obtains q g' where "major_global_scan g gl = Inr (q, g')" "set_ok q"
    "set_items q = set_items gl @ set_items (tenuredGlobal g) @ set_items (promotedGlobal g)"
proof -
  obtain f t where ft: "SetTransfer (promotedGlobal g) (tenuredGlobal g) = Inr (f, t)" "set_ok f" "set_items f = []"
    "set_ok t" "set_items t = set_items (tenuredGlobal g) @ set_items (promotedGlobal g)"
    by (rule SetTransfer_ok [OF assms(1-3)])
  obtain q where q: "SetCopy t gl = Inr q" "set_ok q" "set_items q = set_items gl @ set_items t"
    by (rule SetCopy_ok [OF ft(4) assms(4,5)])
  have "\<exists>g'. major_global_scan g gl = Inr (q, g')"
    using ft(1) q(1) SetIsEmpty_items [OF ft(2)] ft(3)
    by (simp add: major_global_scan_def minor_global_promote_def addGlobals_def)
  then show ?thesis
    using that q(2,3) ft(5) by auto
qed

lemma demo_thunk: "\<not> IsTagData 8200" "\<not> IsGlobalData demo_senv 8200" "thunkAddr demo_raddr 0 = 500828"
  by (simp_all add: IsTagData_def IsGlobalData_def demo_senv_def thunkAddr_def demo_raddr_def)

lemma demo_collector_sel:
  "Threads (csch demo_collector) = [demo_cthread]" "JobQueue (csch demo_collector) = [Some 0]" "work (cgc demo_collector) = demo_work"
  "primaryOff (stk (csch demo_collector)) = 0" "thunk demo_cthread = 8200" "rootLocs demo_cthread = replicate 10 0"
  "requestInfo demo_cthread = 400" "curThread (csch demo_collector) = 0" "length (Procs (csch demo_collector)) = 1"
  by (simp_all add: demo_collector_def demo_cthread_def StackInitialize_def)

lemma demo_scan:
  "\<exists>r q g T U. set_ok r \<and> set_items r = [500828] \<and> set_ok q \<and> set_items q = [] \<and>
    semiRoots demo_collenv 0 (markSegment w demo_collector) = Inr (400, demo_collector\<lparr>cgl := g, ctr := T,
      cgc := (cgc demo_collector)\<lparr>segmentType := segmentType (cgc demo_collector) OR w,
        work := demo_work\<lparr>roots := r, globals := q\<rparr>\<rparr>,
      csch := updPr 0 (\<lambda>pr. pr\<lparr>prUsage := U\<rparr>) ((csch demo_collector)\<lparr>curThread := 1\<rparr>)\<rparr>)"
proof -
  let ?S = "SetInit 32" and ?U = "resetUsage demo_config"
  have ok: "set_ok ?S" "set_items ?S = []" "sfirst ?S = 0" using SetInit_ok [of 32] by (simp_all add: SetInit_def)
  obtain r where r: "SetPush ?S 500828 = Inr r" "set_ok r" "set_items r = [500828]"
    using SetPush_ok [OF ok(1), of 500828] ok(2) by auto
  obtain q g' where q: "major_global_scan \<lparr>promotedGlobal = ?S, tenuredGlobal = ?S, globUsage = ?U\<rparr> ?S = Inr (q, g')"
    "set_ok q" "set_items q = []"
    using major_global_scan_ok [of "\<lparr>promotedGlobal = ?S, tenuredGlobal = ?S, globUsage = ?U\<rparr>" ?S] ok by auto
  define c where "c = markSegment w (demo_collector\<lparr>csch := (csch demo_collector)\<lparr>curThread := 1\<rparr>\<rparr>)"
  define U where "U = prUsage (Procs (csch demo_collector) ! 0)"
  have sel: "csch c = (csch demo_collector)\<lparr>curThread := 1\<rparr>" "work (cgc c) = demo_work" "depthTotal c = depthTotal demo_collector"
    by (simp_all add: c_def markSegment_def demo_collector_sel)
  have E: "cEnv demo_collenv = demo_senv" "cAddr demo_collenv = demo_raddr" "cFuel demo_collenv = 10"
    by (simp_all add: demo_collenv_def)
  let ?s = "\<lparr>rsSched = csch c, rsTrace = (ctr c)\<lparr>tRoots := roots (work (cgc c)), tUsage := prUsage (Procs (csch c) ! 0)\<rparr>,
     rsStacklets = stacklets (work (cgc c)), TotalStackDepth = depthTotal c, MaxStackDepth = depthMax c, TotalStackSize = sizeTotal c\<rparr>"
  have th: "rsThread 0 ?s = demo_cthread" "primaryOff (rsStk ?s) = 0" "tRoots (rsTrace ?s) = ?S"
    by (simp_all add: rsThread_def rsStk_def sel demo_collector_sel demo_work_def)
  have "thread_root_scan demo_senv demo_raddr 0 ?s = Inr (?s\<lparr>rsTrace := withRoots r (rsTrace ?s)\<rparr>)"
    by (rule thread_root_scan_thunk) (simp_all only: th demo_thunk demo_collector_sel, simp_all add: r NULL_def)
  then have one: "scanOne demo_collenv 0 0 c = Inr (c\<lparr>csch := updPr 0 (\<lambda>pr. pr\<lparr>prUsage := U\<rparr>) (csch c),
      ctr := (ctr c)\<lparr>tRoots := r, tUsage := U\<rparr>, cgc := (cgc c)\<lparr>work := demo_work\<lparr>roots := r\<rparr>\<rparr>\<rparr>)"
    unfolding scanOne_def E by (simp add: withRoots_def sel U_def)
  define c1 where "c1 = c\<lparr>csch := updPr 0 (\<lambda>pr. pr\<lparr>prUsage := U\<rparr>) (csch c),
      ctr := (ctr c)\<lparr>tRoots := r, tUsage := U\<rparr>, cgc := (cgc c)\<lparr>work := demo_work\<lparr>roots := r\<rparr>\<rparr>\<rparr>"
  have n1: "NextJob (ResetJob (csch (markSegment w demo_collector))) = (Some 0, csch c)"
    by (simp add: NextJob_def ResetJob_def demo_collector_sel sel markSegment_def)
  have n2: "NextJob (csch c1) = (None, csch c1)"
    by (simp add: NextJob_def demo_collector_sel sel c1_def updPr_def)
  have c0: "(markSegment w demo_collector)\<lparr>csch := csch c\<rparr> = c"
    by (simp add: c_def markSegment_def)
  have "scanJobs (Suc 8) demo_collenv 0 False 400 c1 = Inr (400, c1)"
    unfolding scanJobs.simps n2 by simp
  moreover have "c1\<lparr>majorGC := majorGC c1\<rparr> = c1" by simp
  moreover have "requestInfo (Threads (csch c) ! 0) = 400" by (simp add: sel demo_collector_sel)
  moreover have "10 = Suc (Suc 8)" by simp
  ultimately have jobs: "scanJobs 10 demo_collenv 0 False 0 ((markSegment w demo_collector)\<lparr>csch := ResetJob (csch (markSegment w demo_collector))\<rparr>)
      = Inr (400, c1)"
    by (simp only: scanJobs.simps(2) [of "Suc 8"])
      (simp add: n1 [unfolded ResetJob_def] c0 one [folded c1_def] ResetJob_def del: scanJobs.simps)
  have "cgl c1 = \<lparr>promotedGlobal = ?S, tenuredGlobal = ?S, globUsage = ?U\<rparr>" "globals (work (cgc c1)) = ?S"
    by (simp_all add: c1_def c_def markSegment_def demo_collector_def demo_work_def)
  then have "majorGlobals c1 = Inr (c1\<lparr>cgl := g', cgc := (cgc c1)\<lparr>work := (work (cgc c1))\<lparr>globals := q\<rparr>\<rparr>\<rparr>)"
    using q(1) by (simp add: majorGlobals_def)
  then have run: "semiRoots demo_collenv 0 (markSegment w demo_collector) =
      Inr (400, c1\<lparr>cgl := g', cgc := (cgc c1)\<lparr>work := (work (cgc c1))\<lparr>globals := q\<rparr>\<rparr>\<rparr>)"
    by (simp add: semiRoots_def E jobs)
  show ?thesis
    by (rule exI [of _ r], rule exI [of _ q], rule exI [of _ g'], rule exI [of _ "ctr c1"], rule exI [of _ U])
      (simp add: r(2,3) q(2,3) run, simp add: c1_def c_def markSegment_def)
qed

definition demo_cmem :: memory where
  "demo_cmem = cview demo_raddr (csch demo_collector)"

lemma demo_cmem_sel:
  "demo_cmem 500828 = 8200" "b < 500000 \<Longrightarrow> demo_cmem b = demo_mem b"
  by (simp_all add: demo_cmem_def cview_def demo_collector_def StackInitialize_def demo_cthread_def storeThread_def
    rootValAddr_def thunkAddr_def demo_raddr_def storeWords_other)

lemma demo_cmem_tags:
  "otag demo_cmem 8200 = MAKE_REC 2 1" "otag demo_cmem 8212 = MAKE_REC 1 1"
  "olen demo_cmem 8200 = 2" "olen demo_cmem 8212 = 1" "is_ptr demo_cmem 8200 i \<longleftrightarrow> i = 0" "is_ptr demo_cmem 8212 i \<longleftrightarrow> i = 0"
  "osize demo_cmem 8200 = 3" "osize demo_cmem 8212 = 2" "demo_cmem 8200 = 8212" "demo_cmem 8212 = 8200"
proof -
  have o: "otag demo_cmem 8200 = otag demo_mem 8200" "otag demo_cmem 8212 = otag demo_mem 8212"
    by (simp_all add: otag_def demo_cmem_sel(2))
  show "otag demo_cmem 8200 = MAKE_REC 2 1" "otag demo_cmem 8212 = MAKE_REC 1 1"
    "olen demo_cmem 8200 = 2" "olen demo_cmem 8212 = 1" "is_ptr demo_cmem 8200 i \<longleftrightarrow> i = 0" "is_ptr demo_cmem 8212 i \<longleftrightarrow> i = 0"
    "osize demo_cmem 8200 = 3" "osize demo_cmem 8212 = 2" "demo_cmem 8200 = 8212" "demo_cmem 8212 = 8200"
    using otag_cong [OF o(1)] otag_cong [OF o(2)] by (simp_all add: o demo_tags demo_cmem_sel(2) demo_words)
qed

lemma demo_creach: "reach demo_cmem (SetRange 8192 24576) {500828} = {8200, 8212}"
proof
  show "reach demo_cmem (SetRange 8192 24576) {500828} \<subseteq> {8200, 8212}"
    by (rule reach_closed) (simp_all add: demo_cmem_tags demo_cmem_sel(1))
  have "unat (demo_cmem 500828) \<in> reach demo_cmem (SetRange 8192 24576) {500828}"
    by (rule reach.root, simp, unfold demo_InRange) (simp add: demo_cmem_sel(1))
  then have 1: "8200 \<in> reach demo_cmem (SetRange 8192 24576) {500828}" by (simp add: demo_cmem_sel(1))
  have "unat (demo_cmem (8200 + 4 * 0)) \<in> reach demo_cmem (SetRange 8192 24576) {500828}"
    by (rule reach.field [OF 1], simp add: demo_cmem_tags, simp add: demo_cmem_tags, unfold demo_InRange)
      (simp add: demo_cmem_tags)
  then show "{8200, 8212} \<subseteq> reach demo_cmem (SetRange 8192 24576) {500828}"
    using 1 by (simp add: demo_cmem_tags)
qed


end
