(* ===== verification/Create.thy ===== *)
theory Create
  imports Scheduler
begin

text \<open>
  Allocation of ML values by C code (\<open>Runtime/sparc/create.c\<close>, \<open>Runtime/port/portcreate.c\<close>): records,
  strings and their conversion to and from C strings.  Memory is word addressed in the model; the
  bytes of a word are read and written in the big-endian order of the machine.  A C string is the
  list of its bytes, with the terminating zero.  \<open>getThread\<close> finds the running thread from the stack
  pointer and is a component of the state; \<open>GCFromC\<close>, which switches to the scheduler and comes back
  after a collection, is a parameter.  The main theorem says that a string survives the way into the
  ML heap and back.
\<close>

type_synonym byte = "8 word"

subsection \<open>Bytes in memory\<close>

definition byteShift :: "addr \<Rightarrow> nat" where
  "byteShift a = 8 * (3 - a mod 4)"

definition loadByte :: "memory \<Rightarrow> addr \<Rightarrow> byte" where
  "loadByte m a = ucast (drop_bit (byteShift a) (m (a - a mod 4)))"

definition storeByte :: "addr \<Rightarrow> byte \<Rightarrow> memory \<Rightarrow> memory" where
  "storeByte a b m = (let w = a - a mod 4; k = byteShift a in
     m(w := (m w AND NOT (push_bit k 255)) OR push_bit k (ucast b)))"

fun storeBytes :: "addr \<Rightarrow> byte list \<Rightarrow> memory \<Rightarrow> memory" where
  \<comment> \<open>\<open>memcpy\<close> into the heap\<close>
  "storeBytes a [] m = m"
| "storeBytes a (b # bs) m = storeBytes (a + 1) bs (storeByte a b m)"

definition loadBytes :: "memory \<Rightarrow> addr \<Rightarrow> nat \<Rightarrow> byte list" where
  \<comment> \<open>\<open>memcpy\<close> from the heap\<close>
  "loadBytes m a n = map (\<lambda>i. loadByte m (a + i)) [0..<n]"

definition strlen :: "byte list \<Rightarrow> nat result" where
  "strlen bs = (if 0 \<in> set bs then Inr (length (takeWhile ((\<noteq>) 0) bs)) else Inl (Overrun ''strlen''))"

subsection \<open>The state of a C call\<close>

record ccall =
  ccSched :: sched
  ccThread :: "nat option"        \<comment> \<open>\<open>getThread()\<close>\<close>
  safeToGC :: bool                \<comment> \<open>of that thread\<close>
  rgCur :: addr                   \<comment> \<open>\<open>RuntimeGlobalData_Cur\<close>\<close>
  rgEnd :: addr
  ccBuf :: "byte list option"     \<comment> \<open>\<open>buf\<close> and \<open>bufsize\<close> of the processor\<close>
  ccBufsize :: "32 word"

type_synonym gcFromC = "nat \<Rightarrow> nat \<Rightarrow> bool \<Rightarrow> sched \<Rightarrow> sched result"

definition cmem :: "ccall \<Rightarrow> memory" where
  "cmem s = smem (stk (ccSched s))"

definition setMem :: "memory \<Rightarrow> ccall \<Rightarrow> ccall" where
  "setMem m s = s\<lparr>ccSched := (ccSched s)\<lparr>stk := (stk (ccSched s))\<lparr>smem := m\<rparr>\<rparr>\<rparr>"

definition threadAlloc :: "nat \<Rightarrow> sched \<Rightarrow> addr" where
  "threadAlloc t s = unat (saveregs (Threads s ! t) ! ALLOCPTR)"

definition threadLimit :: "nat \<Rightarrow> sched \<Rightarrow> addr" where
  "threadLimit t s = unat (saveregs (Threads s ! t) ! ALLOCLIMIT)"

subsection \<open>Allocation\<close>

definition alloc_space :: "gcFromC \<Rightarrow> nat \<Rightarrow> ccall \<Rightarrow> (addr \<times> ccall) result" where
  "alloc_space gc bytesNeeded s =
     (let words = bytesNeeded div 4 in
      case ccThread s of
        Some t \<Rightarrow>
          if \<not> safeToGC s then Inl (Die ''runtime allocated multiple objects'')
          else
            let s = s\<lparr>safeToGC := False\<rparr>; alloc = threadAlloc t (ccSched s)
            in if alloc + 4 * words \<le> threadLimit t (ccSched s)
               then Inr (alloc, s\<lparr>ccSched := updTh t (setReg ALLOCPTR (word_of_nat (alloc + 4 * words))) (ccSched s)\<rparr>)
               else bindE (gc t bytesNeeded False (ccSched s)) (\<lambda>sc.
                    let alloc = threadAlloc t sc in
                    bindE (assertE (alloc + 4 * words \<le> threadLimit t sc) ''newAlloc <= limit'') (\<lambda>_.
                    Inr (alloc, s\<lparr>ccSched := updTh t (setReg ALLOCPTR (word_of_nat (alloc + 4 * words))) sc\<rparr>)))
      | None \<Rightarrow>
          let alloc = rgCur s in
          bindE (assertE (alloc + 4 * words \<le> rgEnd s) ''newAlloc <= limit'') (\<lambda>_.
          Inr (alloc, s\<lparr>rgCur := alloc + 4 * words\<rparr>)))"

definition get_record :: "memory \<Rightarrow> addr \<Rightarrow> nat \<Rightarrow> val result" where
  "get_record m rec which =
     bindE (assertE (GET_TYPE (m (rec - 4)) = RECORD_TYPE) ''GET_TYPE(rec[-1]) == RECORD_TYPE'') (\<lambda>_.
     bindE (assertE (which < unat (GET_RECLEN (m (rec - 4)))) ''which < GET_RECLEN(rec[-1])'') (\<lambda>_.
     Inr (m (rec + 4 * which))))"

fun storeFields :: "addr \<Rightarrow> val list \<Rightarrow> memory \<Rightarrow> memory" where
  "storeFields a [] m = m"
| "storeFields a (v # vs) m = storeFields (a + 4) vs (m(a := v))"

definition empty_record :: addr where
  "empty_record = 256"

definition alloc_record :: "gcFromC \<Rightarrow> val list \<Rightarrow> ccall \<Rightarrow> (addr \<times> ccall) result" where
  \<comment> \<open>\<open>count\<close> is the length of the list\<close>
  "alloc_record gc vals s =
     (let count = length vals in
      bindE (assertE (count \<le> RECLEN_MAX) ''count <= RECLEN_MAX'') (\<lambda>_.
      if count = 0 then Inr (empty_record, s)
      else bindE (alloc_space gc (4 * (count + 1)) s) (\<lambda>(alloc, s).
           let rec = alloc + 4 in
           Inr (rec, setMem (storeFields rec vals ((cmem s)(rec - 4 := MAKE_REC (word_of_nat count) 0))) s))))"

definition alloc_intint :: "gcFromC \<Rightarrow> val \<Rightarrow> val \<Rightarrow> ccall \<Rightarrow> (addr \<times> ccall) result" where
  "alloc_intint gc rec1 rec2 s = alloc_record gc [rec1, rec2] s"

definition num_segments :: "config \<Rightarrow> nat \<Rightarrow> nat" where
  "num_segments cfg byteLen =
     (if arraySegmentSize cfg = 0 \<or> byteLen \<le> arraySegmentSize cfg then 0 else DivideUp byteLen (arraySegmentSize cfg))"

subsection \<open>Strings\<close>

definition strWords :: "nat \<Rightarrow> nat" where
  "strWords n = (n + 3) div 4"

definition stringTag :: "nat \<Rightarrow> val" where
  "stringTag n = MAKE_ARRAY WORD_ARRAY_TYPE (word_of_nat n)"

definition alloc_uninit_string :: "gcFromC \<Rightarrow> config \<Rightarrow> nat \<Rightarrow> ccall \<Rightarrow> (addr \<times> ccall) result" where
  "alloc_uninit_string gc cfg strLen s =
     (let byteLen = 4 * strWords strLen; segments = num_segments cfg byteLen in
      bindE (alloc_space gc (byteLen + 4 + 4 * segments) s) (\<lambda>(alloc, s).
      let res = alloc + 4 + 4 * segments;
          m = fold (\<lambda>i m. m(res - 4 * (2 + i) := SEGPROCEED_TAG)) [0..<segments] (cmem s)
      in Inr (res, setMem (m(res - 4 := stringTag strLen)) s)))"

definition adjust_stringlen :: "config \<Rightarrow> addr \<Rightarrow> nat \<Rightarrow> memory \<Rightarrow> memory result" where
  "adjust_stringlen cfg str newByteLen m =
     (let oldTag = m (str - 4); oldByteLen = unat (GET_ANY_ARRAY_LEN oldTag);
          oldWordLen = strWords oldByteLen; newWordLen = strWords newByteLen;
          oldSegments = num_segments cfg oldByteLen; newSegments = num_segments cfg newByteLen in
      bindE (assertE (GET_TYPE oldTag = WORD_ARRAY_TYPE) ''GET_TYPE(oldTag) == WORD_ARRAY_TYPE'') (\<lambda>_.
      bindE (assertE (newByteLen \<le> oldByteLen) ''newByteLen <= oldByteLen'') (\<lambda>_.
      let m = (if newWordLen \<noteq> oldWordLen
               then (fold (\<lambda>i m. m(str - 4 * (2 + i) := MAKE_SKIP 1)) [newSegments..<oldSegments] m)
                      (str + 4 * newWordLen := MAKE_SKIP (word_of_nat (oldWordLen - newWordLen)))
               else m)
      in Inr (m(str - 4 := stringTag newByteLen)))))"

fun stringlenLoop :: "nat \<Rightarrow> memory \<Rightarrow> val \<Rightarrow> val result" where
  "stringlenLoop 0 m tag = Inl OutOfFuel"
| "stringlenLoop (Suc n) m tag =
     (if TYPE_IS_FORWARD (GET_TYPE tag) then stringlenLoop n m (m (unat tag - 4)) else Inr tag)"

definition stringlen :: "nat \<Rightarrow> memory \<Rightarrow> addr \<Rightarrow> nat result" where
  "stringlen fuel m s =
     bindE (stringlenLoop fuel m (m (s - 4))) (\<lambda>tag.
     bindE (assertE (GET_TYPE tag = WORD_ARRAY_TYPE) ''GET_TYPE(tag) == WORD_ARRAY_TYPE'') (\<lambda>_.
     Inr (unat (GET_ANY_ARRAY_LEN tag))))"

definition alloc_string :: "gcFromC \<Rightarrow> config \<Rightarrow> nat \<Rightarrow> byte list \<Rightarrow> ccall \<Rightarrow> (addr \<times> ccall) result" where
  "alloc_string gc cfg bufsize buf s =
     bindE (alloc_uninit_string gc cfg bufsize s) (\<lambda>(res, s).
     if length buf < bufsize then Inl (Overrun ''memcpy'')
     else Inr (res, setMem (storeBytes res (take bufsize buf) (cmem s)) s))"

definition cstring2mlstring_alloc :: "gcFromC \<Rightarrow> config \<Rightarrow> byte list \<Rightarrow> ccall \<Rightarrow> (addr \<times> ccall) result" where
  "cstring2mlstring_alloc gc cfg str s = bindE (strlen str) (\<lambda>n. alloc_string gc cfg n str s)"

definition mlstring2cstring_buffer :: "nat \<Rightarrow> memory \<Rightarrow> addr \<Rightarrow> nat \<Rightarrow> byte list result" where
  \<comment> \<open>what is written to the start of the buffer\<close>
  "mlstring2cstring_buffer fuel m mlstring bufsize =
     bindE (stringlen fuel m mlstring) (\<lambda>bytelen.
     if bytelen + 1 > bufsize then Inl (Die ''buffer too small for string'')
     else Inr (loadBytes m mlstring bytelen @ [0]))"

definition mlstring2cstring_malloc :: "nat \<Rightarrow> memory \<Rightarrow> addr \<Rightarrow> byte list result" where
  "mlstring2cstring_malloc fuel m mlstring =
     bindE (stringlen fuel m mlstring) (\<lambda>n. mlstring2cstring_buffer fuel m mlstring (n + 1))"

subsection \<open>The static buffer of a processor\<close>

partial_function (option) expandsize :: "32 word \<Rightarrow> 32 word \<Rightarrow> (32 word) option" where
  \<comment> \<open>does not end when doubling never reaches the request\<close>
  "expandsize sz req = (if sz <s req then expandsize (2 * sz) req else Some sz)"

definition mlstring2cstring_static :: "nat \<Rightarrow> addr \<Rightarrow> ccall \<Rightarrow> (byte list \<times> ccall) option result" where
  \<comment> \<open>\<open>None\<close>: the loop of \<open>expandsize\<close> does not end; the buffer is enlarged by \<open>erealloc\<close>\<close>
  "mlstring2cstring_static fuel mlstring s =
     bindE (stringlen fuel (cmem s) mlstring) (\<lambda>n.
     case expandsize (ccBufsize s) (word_of_nat (n + 1)) of None \<Rightarrow> Inr None
     | Some newbufsize \<Rightarrow>
         let s = s\<lparr>ccBufsize := newbufsize\<rparr> in
         bindE (mlstring2cstring_buffer fuel (cmem s) mlstring (unat newbufsize)) (\<lambda>bs.
         Inr (Some (bs, s\<lparr>ccBuf := Some bs\<rparr>))))"

subsection \<open>Options and lists of strings\<close>

definition valof_arrayopt :: "addr \<Rightarrow> addr result" where
  "valof_arrayopt arrayopt = bindE (assertE (arrayopt \<noteq> NULL) ''arrayopt != NULL'') (\<lambda>_. Inr arrayopt)"

definition some_array :: "addr \<Rightarrow> addr result" where
  "some_array array = bindE (assertE (array \<noteq> NULL) ''array != NULL'') (\<lambda>_. Inr array)"

definition alloc_string_option :: "gcFromC \<Rightarrow> config \<Rightarrow> byte list option \<Rightarrow> ccall \<Rightarrow> (addr \<times> ccall) result" where
  "alloc_string_option gc cfg cstringopt s =
     (case cstringopt of None \<Rightarrow> Inr (NULL, s)
      | Some c \<Rightarrow> bindE (cstring2mlstring_alloc gc cfg c s) (\<lambda>(a, s). bindE (some_array a) (\<lambda>a. Inr (a, s))))"

fun listCars :: "nat \<Rightarrow> memory \<Rightarrow> addr \<Rightarrow> addr list result" where
  \<comment> \<open>the strings of a list: \<open>car\<close> and \<open>cdr\<close> are the fields of a cell\<close>
  "listCars 0 m L = Inl OutOfFuel"
| "listCars (Suc n) m L =
     (if L = NULL then Inr [] else bindE (listCars n m (unat (m (L + 4)))) (\<lambda>cs. Inr (unat (m L) # cs)))"

fun textSizes :: "nat \<Rightarrow> memory \<Rightarrow> addr list \<Rightarrow> nat list result" where
  \<comment> \<open>the first loop: the size of each string with its terminating zero\<close>
  "textSizes fuel m [] = Inr []"
| "textSizes fuel m (c # cs) =
     bindE (stringlen fuel m c) (\<lambda>n. bindE (textSizes fuel m cs) (\<lambda>ns. Inr ((n + 1) # ns)))"

fun copyTexts :: "nat \<Rightarrow> memory \<Rightarrow> nat \<Rightarrow> addr list \<Rightarrow> (nat \<times> byte list) list result" where
  \<comment> \<open>the second loop: the offset at which each string is written, and its bytes\<close>
  "copyTexts fuel m cursor [] = Inr []"
| "copyTexts fuel m cursor (c # cs) =
     bindE (stringlen fuel m c) (\<lambda>n.
     bindE (mlstring2cstring_buffer fuel m c (n + 1)) (\<lambda>bs.
     bindE (copyTexts fuel m (cursor + (n + 1)) cs) (\<lambda>rest. Inr ((cursor, bs) # rest))))"

definition string_list_to_array_malloc :: "nat \<Rightarrow> memory \<Rightarrow> addr \<Rightarrow> (nat \<times> (nat \<times> byte list) list) result" where
  \<comment> \<open>the size of the block that is allocated, and what is written at which offset; the \<open>i\<close>-th word of the
     block points at the \<open>i\<close>-th string, and a null pointer follows\<close>
  "string_list_to_array_malloc fuel m lst =
     bindE (listCars fuel m lst) (\<lambda>cs.
     bindE (textSizes fuel m cs) (\<lambda>sizes.
     let listlen = length cs in
     bindE (copyTexts fuel m (4 * (listlen + 1)) cs) (\<lambda>texts.
     Inr (4 * (listlen + 1) + sum_list sizes, texts))))"

subsection \<open>Bytes\<close>

lemma byte_mask_bit: "bit (push_bit k (255 :: 32 word)) i \<longleftrightarrow> k \<le> i \<and> i < k + 8 \<and> i < 32"
proof -
  have "(255 :: 32 word) = mask 8" by (simp add: mask_eq_exp_minus_1)
  then show ?thesis by (simp only: bit_push_bit_iff bit_mask_iff) auto
qed

lemma loadByte_bit: "bit (loadByte m a) i \<longleftrightarrow> i < 8 \<and> bit (m (a - a mod 4)) (byteShift a + i)"
  by (auto simp: loadByte_def bit_simps dest: bit_imp_le_length)

lemma loadByte_storeByte [simp]:
  "loadByte (storeByte a b m) a' = (if a' = a then b else loadByte m a')"
proof (rule bit_word_eqI)
  fix i assume "i < LENGTH(8)"
  then have i: "i < 8" by simp
  let ?w = "a - a mod 4" and ?w' = "a' - a' mod 4" and ?k = "byteShift a" and ?k' = "byteShift a'"
  have k: "?k + 8 \<le> 32" "?k' + 8 \<le> 32" by (simp_all add: byteShift_def)
  have b: "bit (storeByte a b m ?w) j \<longleftrightarrow> (if ?k \<le> j \<and> j < ?k + 8 then bit b (j - ?k) else bit (m ?w) j)" if "j < 32" for j
    using that k(1) by (simp add: storeByte_def Let_def bit_or_iff bit_and_iff bit_not_iff byte_mask_bit)
      (auto simp: bit_push_bit_iff bit_unsigned_iff dest: bit_imp_le_length)
  show "bit (loadByte (storeByte a b m) a') i = bit (if a' = a then b else loadByte m a') i"
  proof (cases "?w' = ?w")
    case False
    then have "a' \<noteq> a" "storeByte a b m ?w' = m ?w'" by (auto simp: storeByte_def Let_def)
    then show ?thesis by (simp add: loadByte_bit)
  next
    case True
    have bw: "bit (storeByte a b m ?w) (?k' + i) \<longleftrightarrow>
        (if ?k \<le> ?k' + i \<and> ?k' + i < ?k + 8 then bit b (?k' + i - ?k) else bit (m ?w) (?k' + i))"
      using b [of "?k' + i"] k i by simp
    have "?k \<le> ?k' + i \<and> ?k' + i < ?k + 8 \<longleftrightarrow> a' mod 4 = a mod 4"
    proof -
      define p q where "p = a mod 4" and "q = a' mod 4"
      have "8 * x \<le> 8 * y + i \<and> 8 * y + i < 8 * x + 8 \<longleftrightarrow> x = y" for x y :: nat
        using i by arith
      from this [of "3 - p" "3 - q"] show ?thesis
        unfolding byteShift_def p_def [symmetric] q_def [symmetric]
      proof -
        assume e: "(8 * (3 - p) \<le> 8 * (3 - q) + i \<and> 8 * (3 - q) + i < 8 * (3 - p) + 8) = (3 - p = 3 - q)"
        have "p < 4" "q < 4" by (simp_all add: p_def q_def)
        then have "(3 - p = 3 - q) = (q = p)" by arith
        with e show "(8 * (3 - p) \<le> 8 * (3 - q) + i \<and> 8 * (3 - q) + i < 8 * (3 - p) + 8) = (q = p)" by (rule trans)
      qed
    qed
    also have "\<dots> \<longleftrightarrow> a' = a" using True by (metis le_add_diff_inverse2 mod_less_eq_dividend)
    finally show ?thesis
      using i True by (auto simp: loadByte_bit bw)
  qed
qed

lemma loadByte_storeBytes:
  "loadByte (storeBytes a bs m) a' = (if a \<le> a' \<and> a' < a + length bs then bs ! (a' - a) else loadByte m a')"
proof (induction bs arbitrary: a m)
  case (Cons b bs)
  then show ?case by (auto simp: nth_Cons' Suc_diff_le)
qed auto

lemma loadBytes_storeBytes: "loadBytes (storeBytes a bs m) a (length bs) = bs"
  by (rule nth_equalityI) (simp_all add: loadBytes_def loadByte_storeBytes)

lemma storeByte_other: "x \<noteq> a - a mod 4 \<Longrightarrow> storeByte a b m x = m x"
  by (simp add: storeByte_def Let_def)

lemma storeBytes_other: "x mod 4 = 0 \<Longrightarrow> x + 4 \<le> a \<or> a + length bs \<le> x \<Longrightarrow> storeBytes a bs m x = m x"
proof (induction bs arbitrary: a m)
  case (Cons b bs)
  have "x \<noteq> a - a mod 4"
    using Cons.prems by (simp add: minus_mod_eq_mult_div) presburger
  then show ?case using Cons.prems Cons.IH [of "a + 1" "storeByte a b m"] by (auto simp: storeByte_other)
qed simp

subsection \<open>Strings there and back\<close>

definition room_for :: "gcFromC \<Rightarrow> nat \<Rightarrow> nat \<Rightarrow> sched \<Rightarrow> sched \<Rightarrow> bool" where
  \<comment> \<open>thread \<open>t\<close> has room for \<open>n\<close> bytes in \<open>sc\<close>, which is \<open>s\<close> or what the collection that \<open>s\<close> needs leaves\<close>
  "room_for gc t n s sc \<longleftrightarrow> threadAlloc t sc mod 4 = 0 \<and> threadAlloc t sc + 4 * (n div 4) \<le> threadLimit t sc \<and>
     (if threadAlloc t s + 4 * (n div 4) \<le> threadLimit t s then sc = s else gc t n False s = Inr sc)"

lemma alloc_space_ok:
  assumes "ccThread s = Some t" "safeToGC s" "room_for gc t n (ccSched s) sc"
  shows "alloc_space gc n s = Inr (threadAlloc t sc, s\<lparr>safeToGC := False,
    ccSched := updTh t (setReg ALLOCPTR (word_of_nat (threadAlloc t sc + 4 * (n div 4)))) sc\<rparr>)"
  using assms by (auto simp: alloc_space_def room_for_def Let_def split: if_splits)

lemma fold_upd_other: "x \<notin> f ` set is \<Longrightarrow> fold (\<lambda>i m. m(f i := v)) is m x = m x"
  by (induction "is" arbitrary: m) auto

lemma fold_upd_at: "x \<in> f ` set is \<Longrightarrow> fold (\<lambda>i m. m(f i := v)) is m x = v"
proof (induction "is" arbitrary: m)
  case (Cons i "is")
  show ?case
  proof (cases "x \<in> f ` set is")
    case True
    then show ?thesis using Cons.IH by simp
  next
    case False
    then have "x = f i" using Cons.prems by auto
    then show ?thesis using fold_upd_other [OF False, of v "m(f i := v)"] by (simp del: fun_upd_apply) simp
  qed
qed simp

lemma stringTag_ok:
  assumes "n < 2 ^ 29"
  shows "GET_TYPE (stringTag n) = WORD_ARRAY_TYPE" "unat (GET_ANY_ARRAY_LEN (stringTag n)) = n"
    "\<not> TYPE_IS_FORWARD (GET_TYPE (stringTag n))"
proof -
  have l: "unat (word_of_nat n :: val) = n" using assms by (simp add: unat_of_nat take_bit_nat_eq_self)
  have u: "unat (stringTag n) = 8 * n + 2"
    unfolding stringTag_def using assms by (subst MAKE_ARRAY_unat) (simp_all add: l tag_consts)
  have "(8 * n + 2) mod 8 = 2" "(8 * n + 2) div 8 = n" by presburger+
  then show "GET_TYPE (stringTag n) = WORD_ARRAY_TYPE" "unat (GET_ANY_ARRAY_LEN (stringTag n)) = n"
    using u by (simp_all add: word_unat_eq_iff tag_unat tag_consts)
  then show "\<not> TYPE_IS_FORWARD (GET_TYPE (stringTag n))" by (simp add: TYPE_IS_FORWARD_def tag_consts)
qed

lemma cmem_setMem [simp]: "cmem (setMem m s) = m" "safeToGC (setMem m s) = safeToGC s"
  by (simp_all add: cmem_def setMem_def)

lemma alloc_string_ok:
  assumes "ccThread s = Some t" "safeToGC s" "n \<le> length str"
    and room: "room_for gc t (4 * strWords n + 4 + 4 * num_segments cfg (4 * strWords n)) (ccSched s) sc"
  obtains s' where "alloc_string gc cfg n str s = Inr (threadAlloc t sc + 4 + 4 * num_segments cfg (4 * strWords n), s')"
    "\<not> safeToGC s'" "cmem s' (threadAlloc t sc + 4 * num_segments cfg (4 * strWords n)) = stringTag n"
    "loadBytes (cmem s') (threadAlloc t sc + 4 + 4 * num_segments cfg (4 * strWords n)) n = take n str"
    "\<And>x. x mod 4 = 0 \<Longrightarrow> x < threadAlloc t sc \<or>
       threadAlloc t sc + 4 + 4 * num_segments cfg (4 * strWords n) + 4 * strWords n \<le> x \<Longrightarrow> cmem s' x = smem (stk sc) x"
proof -
  let ?g = "num_segments cfg (4 * strWords n)" and ?a = "threadAlloc t sc"
  let ?n = "4 * strWords n + 4 + 4 * ?g" and ?r = "?a + 4 + 4 * ?g"
  define s1 where "s1 = s\<lparr>safeToGC := False, ccSched := updTh t (setReg ALLOCPTR (word_of_nat (?a + 4 * (?n div 4)))) sc\<rparr>"
  have al: "alloc_space gc ?n s = Inr (?a, s1)" unfolding s1_def by (rule alloc_space_ok [OF assms(1,2) room])
  have m1: "cmem s1 = smem (stk sc)" "\<not> safeToGC s1" by (simp_all add: s1_def cmem_def updTh_def)
  define m where "m = (fold (\<lambda>i m. m(?r - 4 * (2 + i) := SEGPROCEED_TAG)) [0..<?g] (cmem s1))(?r - 4 := stringTag n)"
  define s' where "s' = setMem (storeBytes ?r (take n str) m) (setMem m s1)"
  have a4: "?a mod 4 = 0" using room by (simp add: room_for_def)
  have run: "alloc_string gc cfg n str s = Inr (?r, s')"
    using assms(3) al by (simp add: alloc_string_def alloc_uninit_string_def Let_def m_def s'_def)
  have len: "n \<le> 4 * strWords n" by (simp add: strWords_def)
  have other: "cmem s' x = m x" if "x mod 4 = 0" "x + 4 \<le> ?r \<or> ?r + 4 * strWords n \<le> x" for x
    using that len assms(3) by (auto simp: s'_def intro!: storeBytes_other)
  have "(?a + 4 * ?g) mod 4 = 0" using a4 by presburger
  then have "cmem s' (?a + 4 * ?g) = stringTag n" by (subst other) (simp_all add: m_def)
  moreover have "loadBytes (cmem s') ?r n = take n str"
    using loadBytes_storeBytes [of ?r "take n str" m] assms(3) by (simp add: s'_def min_absorb2)
  moreover have "cmem s' x = smem (stk sc) x" if "x mod 4 = 0" "x < ?a \<or> ?r + 4 * strWords n \<le> x" for x
  proof -
    have "x + 4 \<le> ?r \<or> ?r + 4 * strWords n \<le> x" "x \<noteq> ?r - 4" "x \<notin> (\<lambda>i. ?r - 4 * (2 + i)) ` set [0..<?g]"
      using that(2) by auto
    then show ?thesis using that(1) by (subst other) (simp_all add: m_def fold_upd_other m1)
  qed
  ultimately show ?thesis using that run by (simp add: s'_def m1(2))
qed

lemma stringlen_ok:
  assumes "n < 2 ^ 29" "m (a - 4) = stringTag n" "0 < fuel"
  shows "stringlen fuel m a = Inr n"
  using assms stringTag_ok [OF assms(1)] by (cases fuel) (simp_all add: stringlen_def)

text \<open>C20: A C string that is copied into the ML heap comes back as it was, also when the allocation needs a
  collection and when the string is split into segments; nothing outside the new block changes and the
  call may not allocate again.\<close>

theorem string_roundtrip:
  assumes "ccThread s = Some t" "safeToGC s" "0 \<in> set str" and n: "n = length (takeWhile ((\<noteq>) 0) str)" "n < 2 ^ 29"
    and sz: "sz = 4 * strWords n + 4 + 4 * num_segments cfg (4 * strWords n)"
    and room: "room_for gc t sz (ccSched s) sc" and "0 < fuel"
  shows "\<exists>a s'. cstring2mlstring_alloc gc cfg str s = Inr (a, s') \<and> \<not> safeToGC s' \<and>
    threadAlloc t sc + 4 \<le> a \<and> a + 4 * strWords n = threadAlloc t sc + sz \<and>
    mlstring2cstring_malloc fuel (cmem s') a = Inr (takeWhile ((\<noteq>) 0) str @ [0]) \<and>
    (\<forall>x. x mod 4 = 0 \<longrightarrow> \<not> (threadAlloc t sc \<le> x \<and> x < threadAlloc t sc + sz) \<longrightarrow> cmem s' x = smem (stk sc) x)"
proof -
  let ?g = "num_segments cfg (4 * strWords n)"
  let ?a = "threadAlloc t sc + 4 + 4 * ?g"
  have len: "n \<le> length str" by (simp add: n(1) length_takeWhile_le)
  obtain s' where s': "alloc_string gc cfg n str s = Inr (?a, s')" "\<not> safeToGC s'" "cmem s' (threadAlloc t sc + 4 * ?g) = stringTag n"
    "loadBytes (cmem s') ?a n = take n str"
    "\<And>x. x mod 4 = 0 \<Longrightarrow> x < threadAlloc t sc \<or> ?a + 4 * strWords n \<le> x \<Longrightarrow> cmem s' x = smem (stk sc) x"
    by (rule alloc_string_ok [OF assms(1,2) len room [unfolded sz]]) blast
  have "stringlen fuel (cmem s') ?a = Inr n"
    by (rule stringlen_ok [OF n(2) _ assms(8)]) (simp add: s'(3))
  moreover have "take n str = takeWhile ((\<noteq>) 0) str" unfolding n(1) by (rule takeWhile_eq_take [symmetric])
  ultimately have "mlstring2cstring_malloc fuel (cmem s') ?a = Inr (takeWhile ((\<noteq>) 0) str @ [0])"
    by (simp add: mlstring2cstring_malloc_def mlstring2cstring_buffer_def s'(4))
  moreover have "cstring2mlstring_alloc gc cfg str s = Inr (?a, s')"
    using s'(1) assms(3) by (simp add: cstring2mlstring_alloc_def strlen_def n(1))
  moreover have "cmem s' x = smem (stk sc) x" if "x mod 4 = 0" "\<not> (threadAlloc t sc \<le> x \<and> x < threadAlloc t sc + sz)" for x
    using s'(5) [OF that(1)] that(2) by (auto simp: sz)
  ultimately show ?thesis
    using s'(2) by (intro exI [of _ ?a] exI [of _ s']) (simp add: sz)
qed

definition demo_ccall :: ccall where
  "demo_ccall = \<lparr>ccSched = \<lparr>Threads = [demo_thread\<lparr>saveregs := (replicate 32 0)[ALLOCPTR := 8192, ALLOCLIMIT := 8292]\<rparr>],
       Procs = [demo_proc], JobQueue = [Some 0], activeThread = 1, maxThread = 1, totalThread = 1, curThread = 0,
       EmptyPlain = False, stk = (StackInitialize (\<lambda>_. 0))\<lparr>Stacklets := []\<rparr>\<rparr>,
     ccThread = Some 0, safeToGC = True, rgCur = 0, rgEnd = 0, ccBuf = None, ccBufsize = 1\<rparr>"

lemma demo_ccall_sel:
  "ccThread demo_ccall = Some 0" "safeToGC demo_ccall" "threadAlloc 0 (ccSched demo_ccall) = 8192"
  "threadLimit 0 (ccSched demo_ccall) = 8292"
  by (simp_all add: demo_ccall_def threadAlloc_def threadLimit_def ALLOCPTR_def ALLOCLIMIT_def)

theorem string_roundtrip_witness:
  "\<exists>a s'. cstring2mlstring_alloc (\<lambda>_ _ _ sc. Inr sc) demo_config [104, 105, 33, 33, 10, 0] demo_ccall = Inr (a, s') \<and>
    mlstring2cstring_malloc 1 (cmem s') a = Inr [104, 105, 33, 33, 10, 0]"
proof -
  let ?str = "[104, 105, 33, 33, 10, 0] :: byte list" and ?gc = "\<lambda>_ _ _ sc. Inr sc" and ?c = "ccSched demo_ccall"
  have t: "takeWhile ((\<noteq>) 0) ?str = [104, 105, 33, 33, 10]" by simp
  have n: "5 = length (takeWhile ((\<noteq>) 0) ?str)" "(5 :: nat) < 2 ^ 29" "0 \<in> set ?str" by simp_all
  have sz: "12 = 4 * strWords 5 + 4 + 4 * num_segments demo_config (4 * strWords 5)"
    by (simp add: strWords_def num_segments_def demo_config_def)
  have room: "room_for ?gc 0 12 ?c ?c" by (simp add: room_for_def demo_ccall_sel)
  obtain a s' where "cstring2mlstring_alloc ?gc demo_config ?str demo_ccall = Inr (a, s')"
    "mlstring2cstring_malloc 1 (cmem s') a = Inr (takeWhile ((\<noteq>) 0) ?str @ [0])"
    using string_roundtrip [OF demo_ccall_sel(1,2) n(3,1,2) sz room zero_less_one] by blast
  then show ?thesis unfolding t by (intro exI [of _ a] exI [of _ s']) simp
qed

subsection \<open>When the loop of \<open>expandsize\<close> ends\<close>

lemma sint_pow2: "k \<le> 30 \<Longrightarrow> sint ((2 :: 32 word) ^ k) = 2 ^ k"
proof -
  assume k: "k \<le> 30"
  then have "(2 :: int) ^ k \<le> 2 ^ 30" by (intro power_increasing) simp_all
  then have "sint (word_of_int (2 ^ k) :: 32 word) = 2 ^ k"
    unfolding sint_sbintrunc' by (intro signed_take_bit_int_eq_self) (simp_all add: order.trans [of _ 0])
  then show ?thesis by simp
qed

lemma sint_pow2_le: "sint ((2 :: 32 word) ^ k) \<le> 2 ^ 30"
proof -
  consider "k \<le> 30" | "k = 31" | "32 \<le> k" by linarith
  then show ?thesis
  proof cases
    case 1
    have "(2 :: int) ^ k \<le> 2 ^ 30" using 1 by (intro power_increasing) simp_all
    then show ?thesis unfolding sint_pow2 [OF 1] .
  next
    case 3
    then have "(2 :: 32 word) ^ k = 0" by simp
    then have "sint ((2 :: 32 word) ^ k) = sint (0 :: 32 word)" by (rule arg_cong)
    then show ?thesis by simp
  qed simp
qed

lemma expandsize_diverges:
  assumes "expandsize sz req = Some r" "2 ^ 30 < sint req"
  shows "sz \<noteq> 2 ^ k"
  using assms
proof (induction arbitrary: k rule: expandsize.raw_induct [rotated, consumes 1, case_names step])
  case (step f sz req r)
  show ?case
  proof
    assume sz: "sz = 2 ^ k"
    then have "sz <s req" using sint_pow2_le [of k] step(3) by (simp add: word_sless_alt)
    then have "f (2 * sz) req = Some r" using step(2) by simp
    then have "2 * sz \<noteq> 2 ^ Suc k" using step(1,3) by blast
    then show False using sz by simp
  qed
qed

lemma expandsize_ends:
  "sint req \<le> 2 ^ 30 \<Longrightarrow> k \<le> 30 \<Longrightarrow> \<exists>j \<le> 30. expandsize (2 ^ k) req = Some (2 ^ j) \<and> sint req \<le> 2 ^ j \<and> (j = k \<or> 2 ^ j < 2 * sint req)"
proof (induction "30 - k" arbitrary: k)
  case 0
  then have "k = 30" by simp
  then have "\<not> (2 ^ k :: 32 word) <s req" using 0(2) sint_pow2 [of k] by (simp add: word_sless_alt)
  then have "expandsize (2 ^ k) req = Some (2 ^ k)" by (subst expandsize.simps) simp
  then show ?case using 0 \<open>k = 30\<close> by (intro exI [of _ k]) simp
next
  case (Suc n)
  then have k: "k < 30" by simp
  have w: "(2 ^ k :: 32 word) <s req \<longleftrightarrow> 2 ^ k < sint req" using sint_pow2 [of k] k by (simp add: word_sless_alt)
  show ?case
  proof (cases "2 ^ k < sint req")
    case True
    then have "expandsize (2 ^ k) req = expandsize (2 ^ Suc k) req" using w by (subst expandsize.simps) simp
    moreover obtain j where "j \<le> 30" "expandsize (2 ^ Suc k) req = Some (2 ^ j)" "sint req \<le> 2 ^ j" "j = Suc k \<or> 2 ^ j < 2 * sint req"
    proof -
      have "n = 30 - Suc k" "Suc k \<le> 30" using Suc.hyps(2) k by simp_all
      from Suc.hyps(1) [OF this(1) Suc.prems(1) this(2)] that show thesis by blast
    qed
    ultimately show ?thesis using True by (intro exI [of _ j]) auto
  next
    case False
    then have "expandsize (2 ^ k) req = Some (2 ^ k)" using w by (subst expandsize.simps) simp
    then show ?thesis using False k by (intro exI [of _ k]) simp
  qed
qed

text \<open>C28: The buffer of a processor, whose size starts at 1, always has a power of two as its size.  Enlarging it
  ends for requests up to 2^30 bytes, with the next power of two that suffices, and never ends for
  larger requests: the doubling overflows to zero.\<close>

theorem expandsize_terminates_iff:
  assumes "sz = 2 ^ k" "k \<le> 30"
  shows "if sint req \<le> 2 ^ 30
    then \<exists>j \<le> 30. expandsize sz req = Some (2 ^ j) \<and> sint req \<le> 2 ^ j \<and> (j = k \<or> 2 ^ j < 2 * sint req)
    else expandsize sz req = None"
proof (cases "sint req \<le> 2 ^ 30")
  case True
  then show ?thesis using expandsize_ends [OF True assms(2)] assms(1) by simp
next
  case False
  then have "expandsize sz req \<noteq> Some r" for r using expandsize_diverges [of sz req r k] assms(1) by auto
  then show ?thesis using False by (cases "expandsize sz req") auto
qed

theorem expandsize_terminates_iff_witness:
  "expandsize 1 2147483647 = None \<and> expandsize 1 1000 \<noteq> None"
proof
  show "expandsize 1 2147483647 = None"
    using expandsize_terminates_iff [of 1 0 2147483647] by simp
  show "expandsize 1 1000 \<noteq> None"
    using expandsize_terminates_iff [of 1 0 1000] by auto
qed

end
