(* ===== verification/BigArray.thy ===== *)
theory BigArray
  imports Collector Create
begin

text \<open>
  Large arrays (\<open>alloc_bigintarray\<close>, \<open>alloc_bigptrarray\<close>, \<open>alloc_bigfloatarray\<close> of
  \<open>Runtime/sparc/gc.c\<close>, \<open>AllocBigArray_*\<close> of the six collectors, \<open>init_*\<close> of
  \<open>Runtime/sparc/create.c\<close>).  The specification of an array is a structure on the C stack; its field
  \<open>pointerVal\<close> is a location in memory, since a collection during the allocation may move the initial
  value.  \<open>gc\<close> stands for \<open>GCFromC\<close>.  The main theorem gives the type and the contents of the array.
\<close>

datatype field_t = PointerField | IntField | DoubleField | MirrorPointerField | OldPointerField

record arraySpec =
  specType :: field_t
  elemLen :: nat                  \<comment> \<open>bytes, words or doublewords\<close>
  specByteLen :: nat
  intVal :: val
  pointerLoc :: addr              \<comment> \<open>\<open>&spec->pointerVal\<close>\<close>
  doubleVal :: "val \<times> val"

type_synonym gcCall = "nat \<Rightarrow> nat \<Rightarrow> bool \<Rightarrow> collector \<Rightarrow> collector result"

subsection \<open>Initialization\<close>

definition fillWords :: "addr \<Rightarrow> nat \<Rightarrow> val \<Rightarrow> memory \<Rightarrow> memory" where
  "fillWords a n v m = fold (\<lambda>i m. m(a + 4 * i := v)) [0..<n] m"

definition init_iarray :: "addr \<Rightarrow> nat \<Rightarrow> val \<Rightarrow> memory \<Rightarrow> memory" where
  "init_iarray obj byteLen v m =
     fillWords obj ((byteLen + 3) div 4) v (m(obj - 4 := MAKE_ARRAY WORD_ARRAY_TYPE (word_of_nat byteLen)))"

definition init_parray :: "addr \<Rightarrow> nat \<Rightarrow> val \<Rightarrow> memory \<Rightarrow> memory" where
  "init_parray obj len v m = fillWords obj len v (m(obj - 4 := MAKE_ARRAY PTR_ARRAY_TYPE (word_of_nat (4 * len))))"

definition init_double_ptr_array :: "addr \<Rightarrow> nat \<Rightarrow> val \<Rightarrow> memory \<Rightarrow> memory" where
  "init_double_ptr_array obj logLen v m =
     (let wordLen = 2 * logLen in
      fillWords obj wordLen v (m(obj - 4 := MAKE_ARRAY MIRROR_PTR_ARRAY_TYPE (word_of_nat (4 * wordLen)))))"

definition init_farray :: "addr \<Rightarrow> nat \<Rightarrow> val \<times> val \<Rightarrow> memory \<Rightarrow> memory result" where
  "init_farray obj len v m =
     bindE (assertE (obj mod 8 = 0) ''obj & 7 == 0'') (\<lambda>_.
     Inr (fold (\<lambda>i m. m(obj + 8 * i := fst v, obj + 8 * i + 4 := snd v)) [0..<len]
            (m(obj - 4 := MAKE_ARRAY QUAD_ARRAY_TYPE (word_of_nat (8 * len))))))"

definition initArray :: "bool \<Rightarrow> arraySpec \<Rightarrow> addr \<Rightarrow> memory \<Rightarrow> memory result" where
  \<comment> \<open>the \<open>switch\<close> on the type; only the concurrent collectors have a case for mirrored arrays\<close>
  "initArray conc spec obj m =
     (case specType spec of
        IntField \<Rightarrow> Inr (init_iarray obj (elemLen spec) (intVal spec) m)
      | PointerField \<Rightarrow> Inr (init_parray obj (elemLen spec) (m (pointerLoc spec)) m)
      | DoubleField \<Rightarrow> init_farray obj (elemLen spec) (doubleVal spec) m
      | MirrorPointerField \<Rightarrow> Inr (if conc then init_double_ptr_array obj (elemLen spec) (m (pointerLoc spec)) m else m)
      | OldPointerField \<Rightarrow> Inr m)"

subsection \<open>Space\<close>

definition setCmem :: "memory \<Rightarrow> collector \<Rightarrow> collector" where
  "setCmem m c = c\<lparr>csch := (csch c)\<lparr>stk := (stk (csch c))\<lparr>smem := m\<rparr>\<rparr>\<rparr>"

definition colMem :: "collector \<Rightarrow> memory" where
  "colMem c = smem (stk (csch c))"

definition fromThread :: "nat \<Rightarrow> nat \<Rightarrow> align_t \<Rightarrow> collector \<Rightarrow> (addr \<times> collector) result" where
  "fromThread t n align c = bindE (AllocFromThread t n align (csch c)) (\<lambda>(r, sc). Inr (r, c\<lparr>csch := sc\<rparr>))"

definition fromHeap :: "nat \<Rightarrow> align_t \<Rightarrow> collector \<Rightarrow> (addr \<times> collector) result" where
  "fromHeap n align c = bindE (AllocFromHeap (cheap (fromSp c) c) n align (colMem c)) (\<lambda>((r, m), h).
     Inr (r, setHeap (fromSp c) h (setCmem m c)))"

definition fromLarge :: "collenv \<Rightarrow> nat \<Rightarrow> nat \<Rightarrow> align_t \<Rightarrow> collector \<Rightarrow> (addr \<times> collector) result" where
  "fromLarge E p n align c = bindE (gc_large_alloc (cCfg E) n align (gcView (cAddr E) p c)) (\<lambda>(r, s).
     Inr (r, putGc (cAddr E) p s c))"

definition orElse ::
    "(collector \<Rightarrow> (addr \<times> collector) result) \<Rightarrow> (collector \<Rightarrow> (addr \<times> collector) result) \<Rightarrow> collector \<Rightarrow> (addr \<times> collector) result" where
  \<comment> \<open>\<open>region = f(); if (region == NULL) region = g();\<close>\<close>
  "orElse f g c = bindE (f c) (\<lambda>(r, c). if r = NULL then g c else Inr (r, c))"

definition afterGC :: "(collector \<Rightarrow> collector result) \<Rightarrow> (collector \<Rightarrow> (addr \<times> collector) result) \<Rightarrow> collector \<Rightarrow> (addr \<times> collector) result" where
  "afterGC gc f c = bindE (gc c) f"

definition arrayAlign :: "arraySpec \<Rightarrow> align_t" where
  "arrayAlign spec = (if specType spec = DoubleField then OddWordAlign else NoWordAlign)"

definition addAllocated :: "nat \<Rightarrow> nat \<Rightarrow> collector \<Rightarrow> collector" where
  "addAllocated p n c = c\<lparr>csch := updPr p (\<lambda>pr. pr\<lparr>prUsage := (prUsage pr)\<lparr>bytesAllocated := bytesAllocated (prUsage pr) + int n\<rparr>\<rparr>) (csch c)\<rparr>"

definition pushBackObj :: "addr \<Rightarrow> collector \<Rightarrow> collector result" where
  "pushBackObj obj c = bindE (SetPush (backObjs (work (cgc c))) obj) (\<lambda>q.
     Inr (c\<lparr>cgc := (cgc c)\<lparr>work := (work (cgc c))\<lparr>backObjs := q\<rparr>\<rparr>\<rparr>))"

definition pushNextBackObj :: "addr \<Rightarrow> collector \<Rightarrow> collector result" where
  "pushNextBackObj obj c = bindE (SetPush (nextBackObjs (work (cgc c))) obj) (\<lambda>q.
     Inr (c\<lparr>cgc := (cgc c)\<lparr>work := (work (cgc c))\<lparr>nextBackObjs := q\<rparr>\<rparr>\<rparr>))"

definition finishArray :: "bool \<Rightarrow> nat \<Rightarrow> nat \<Rightarrow> nat \<Rightarrow> arraySpec \<Rightarrow> addr \<Rightarrow> collector \<Rightarrow> (addr \<times> collector) result" where
  \<comment> \<open>after the space is found: statistics, segment tags, initialization\<close>
  "finishArray conc p segs tagByteLen spec region c =
     bindE (assertE (region \<noteq> NULL) ''region != NULL'') (\<lambda>_.
     let obj = region + 4 + 4 * segs;
         m = fold (\<lambda>i m. m(obj - 4 * (2 + i) := SEGPROCEED_TAG)) [0..<segs] (colMem c) in
     bindE (initArray conc spec obj m) (\<lambda>m. Inr (obj, setCmem m (addAllocated p tagByteLen c))))"

subsection \<open>The collectors\<close>

definition AllocBigArray_Semi :: "gcCall \<Rightarrow> nat \<Rightarrow> nat \<Rightarrow> arraySpec \<Rightarrow> collector \<Rightarrow> (addr \<times> collector) result" where
  "AllocBigArray_Semi gc p t spec c =
     (let tagByteLen = specByteLen spec + 4; alloc = fromThread t tagByteLen (arrayAlign spec) in
      bindE (orElse alloc (afterGC (gc t (tagByteLen + 4) False) alloc) c) (\<lambda>(region, c).
      finishArray False p 0 tagByteLen spec region c))"

definition AllocBigArray_Gen :: "collenv \<Rightarrow> gcCall \<Rightarrow> nat \<Rightarrow> nat \<Rightarrow> arraySpec \<Rightarrow> collector \<Rightarrow> (addr \<times> collector) result" where
  "AllocBigArray_Gen E gc p t spec c =
     (let tagByteLen = specByteLen spec + 4; align = arrayAlign spec;
          heap = fromHeap tagByteLen align; large = fromLarge E p tagByteLen align in
      bindE (if specType spec = PointerField then orElse heap (afterGC (gc t (tagByteLen + 4) False) heap) c
             else orElse large (afterGC (gc t 4 True) large) c) (\<lambda>(region, c).
      bindE (finishArray False p 0 tagByteLen spec region c) (\<lambda>(obj, c).
      if specType spec = PointerField then bindE (pushBackObj obj c) (\<lambda>c. Inr (obj, c)) else Inr (obj, c))))"

definition AllocBigArray_SemiPara :: "collenv \<Rightarrow> gcCall \<Rightarrow> nat \<Rightarrow> nat \<Rightarrow> arraySpec \<Rightarrow> collector \<Rightarrow> (addr \<times> collector) result" where
  "AllocBigArray_SemiPara E gc p t spec c =
     (let tagByteLen = specByteLen spec + 4; align = arrayAlign spec; thread = fromThread t tagByteLen align in
      bindE (orElse thread (orElse (fromHeap tagByteLen align) (afterGC (gc t (tagByteLen + 4) False) thread)) c) (\<lambda>(region, c).
      let v = colMem c (pointerLoc spec) in
      bindE (if region \<noteq> NULL \<and> specType spec = PointerField
             then assertE (IsTagData v \<or> IsGlobalData (cEnv E) v \<or> inHeap (unat v) (cheap (fromSp c) c))
                    ''IsTagData || IsGlobalData || inHeap'' else Inr ()) (\<lambda>_.
      finishArray False p 0 tagByteLen spec region c)))"

definition AllocBigArray_GenPara :: "collenv \<Rightarrow> gcCall \<Rightarrow> nat \<Rightarrow> nat \<Rightarrow> arraySpec \<Rightarrow> collector \<Rightarrow> (addr \<times> collector) result" where
  "AllocBigArray_GenPara E gc p t spec c =
     (let tagByteLen = specByteLen spec + 4; align = arrayAlign spec;
          heap = fromHeap tagByteLen align; large = fromLarge E p tagByteLen align in
      bindE (if specType spec = PointerField then orElse heap (afterGC (gc t (tagByteLen + 4) True) heap) c
             else orElse large (afterGC (gc t 4 True) large) c) (\<lambda>(region, c).
      bindE (finishArray False p 0 tagByteLen spec region c) (\<lambda>(obj, c).
      if specType spec = PointerField then bindE (pushBackObj obj c) (\<lambda>c. Inr (obj, c)) else Inr (obj, c))))"

definition concSegments :: "config \<Rightarrow> nat \<Rightarrow> nat result" where
  \<comment> \<open>the concurrent collectors set \<open>arraySegmentSize\<close>; with 0 this would divide by zero\<close>
  "concSegments cfg byteLen =
     (if byteLen \<le> arraySegmentSize cfg then Inr 0
      else if arraySegmentSize cfg = 0 then Inl (Overrun ''division by zero'')
      else Inr (DivideUp byteLen (arraySegmentSize cfg)))"

definition concAlign :: "arraySpec \<Rightarrow> nat \<Rightarrow> align_t" where
  "concAlign spec segs =
     (if specType spec = DoubleField then if odd segs then EvenWordAlign else OddWordAlign else NoWordAlign)"

definition AllocBigArray_SemiConc ::
    "collenv \<Rightarrow> gcCall \<Rightarrow> (collector \<Rightarrow> bool) \<Rightarrow> bool \<Rightarrow> nat \<Rightarrow> nat \<Rightarrow> arraySpec \<Rightarrow> collector \<Rightarrow> (addr \<times> collector) result" where
  \<comment> \<open>\<open>dbl\<close> is \<open>shouldDoubleAllocate\<close>\<close>
  "AllocBigArray_SemiConc E gc dbl grayAsReplica p t spec c =
     (let cfg = cCfg E in
      bindE (concSegments cfg (specByteLen spec)) (\<lambda>segs.
      let tagByteLen = specByteLen spec + 4 + 4 * segs; align = concAlign spec segs; thread = fromThread t tagByteLen align in
      bindE (orElse thread (orElse (fromHeap tagByteLen align) (afterGC (gc t (tagByteLen + 4) False) thread)) c) (\<lambda>(region, c).
      bindE (finishArray True p segs tagByteLen spec region c) (\<lambda>(obj, c).
      if \<not> dbl c then Inr (obj, c)
      else bindE (onGc (cAddr E) p (\<lambda>s. let from = hrange (hp s (fromSp c)) in
             if ordering cfg = StackOrder
             then if grayAsReplica then alloc1_copyCopySync_replicaSet cfg obj from s
                  else alloc1_copyCopySync_primarySet cfg obj from s
             else if ordering cfg = HybridOrder then alloc1_copyCopySync cfg obj from s
             else Inl (Die ''bad ordering'')) c) (\<lambda>c. Inr (obj, c))))))"

definition AllocBigArray_GenConc :: "collenv \<Rightarrow> gcCall \<Rightarrow> nat \<Rightarrow> nat \<Rightarrow> arraySpec \<Rightarrow> collector \<Rightarrow> (addr \<times> collector) result" where
  "AllocBigArray_GenConc E gc p t spec c =
     bindE (concSegments (cCfg E) (specByteLen spec)) (\<lambda>segs.
     let tagByteLen = specByteLen spec + 4 + 4 * segs; align = concAlign spec segs;
         heap = fromHeap tagByteLen align; large = fromLarge E p tagByteLen align in
     bindE (assertE (specType spec \<noteq> PointerField) ''spec->type != PointerField'') (\<lambda>_.
     bindE (if specType spec = MirrorPointerField then orElse heap (afterGC (gc t (tagByteLen + 4) True) heap) c
            else orElse large (afterGC (gc t 4 True) large) c) (\<lambda>(region, c).
     bindE (finishArray True p segs tagByteLen spec region c) (\<lambda>(obj, c).
     if specType spec = MirrorPointerField
     then bindE (pushBackObj obj c) (\<lambda>c. bindE (pushNextBackObj obj c) (\<lambda>c. Inr (obj, c)))
     else Inr (obj, c)))))"

subsection \<open>The interface\<close>

datatype collectorType = Semispace | Generational | SemispaceParallel | GenerationalParallel | SemispaceConcurrent | GenerationalConcurrent
  | SemispaceExplicit

definition onThread :: "nat \<Rightarrow> (thread \<Rightarrow> thread result) \<Rightarrow> collector \<Rightarrow> collector result" where
  "onThread t f c = bindE (f (Threads (csch c) ! t)) (\<lambda>th. Inr (c\<lparr>csch := updTh t (\<lambda>_. th) (csch c)\<rparr>))"

definition alloc_bigdispatcharray ::
    "collectorType \<Rightarrow> collenv \<Rightarrow> gcCall \<Rightarrow> (collector \<Rightarrow> bool) \<Rightarrow> bool \<Rightarrow> nat \<Rightarrow> nat \<Rightarrow> arraySpec \<Rightarrow> collector \<Rightarrow> (addr \<times> collector) result" where
  "alloc_bigdispatcharray ct E gc dbl grayAsReplica p t spec c =
     bindE (assertE (specByteLen spec \<ge> 512) ''byteLen >= 512'') (\<lambda>_.
     let root = (specType spec = PointerField \<or> specType spec = MirrorPointerField); loc = pointerLoc spec in
     bindE (if root then onThread t (installThreadRoot (cAddr E) t (colMem c) loc) c else Inr c) (\<lambda>c.
     bindE (case ct of
              Semispace \<Rightarrow> AllocBigArray_Semi gc p t spec c
            | Generational \<Rightarrow> AllocBigArray_Gen E gc p t spec c
            | SemispaceParallel \<Rightarrow> AllocBigArray_SemiPara E gc p t spec c
            | GenerationalParallel \<Rightarrow> AllocBigArray_GenPara E gc p t spec c
            | SemispaceConcurrent \<Rightarrow> AllocBigArray_SemiConc E gc dbl grayAsReplica p t spec c
            | GenerationalConcurrent \<Rightarrow> AllocBigArray_GenConc E gc p t spec c
            | SemispaceExplicit \<Rightarrow> Inl (Die ''collector type'')) (\<lambda>(result, c).
     bindE (if root then onThread t (\<lambda>th. Inr (uninstallThreadRoot loc th)) c else Inr c) (\<lambda>c. Inr (result, c)))))"

definition bigIntSpec :: "nat \<Rightarrow> val \<Rightarrow> addr \<Rightarrow> arraySpec" where
  \<comment> \<open>\<open>alloc_bigintarray\<close>; \<open>loc\<close> is the location of the structure's unused pointer field\<close>
  "bigIntSpec n initVal loc = \<lparr>specType = IntField, elemLen = n, specByteLen = RoundUp n 4,
     intVal = initVal, pointerLoc = loc, doubleVal = (0, 0)\<rparr>"

definition bigPtrSpec :: "bool \<Rightarrow> nat \<Rightarrow> addr \<Rightarrow> arraySpec" where
  \<comment> \<open>\<open>alloc_bigptrarray\<close>, which stores the initial value at \<open>loc\<close>\<close>
  "bigPtrSpec mirrorArray n loc =
     \<lparr>specType = (if mirrorArray then MirrorPointerField else PointerField), elemLen = n,
      specByteLen = (if mirrorArray then 8 * n else 4 * n), intVal = 0, pointerLoc = loc, doubleVal = (0, 0)\<rparr>"

definition bigFloatSpec :: "nat \<Rightarrow> val \<times> val \<Rightarrow> addr \<Rightarrow> arraySpec" where
  "bigFloatSpec n initVal loc = \<lparr>specType = DoubleField, elemLen = n, specByteLen = 8 * n,
     intVal = 0, pointerLoc = loc, doubleVal = initVal\<rparr>"

subsection \<open>What an initialized array contains\<close>

definition arrayWords :: "arraySpec \<Rightarrow> nat" where
  "arrayWords spec = (case specType spec of IntField \<Rightarrow> (elemLen spec + 3) div 4 | PointerField \<Rightarrow> elemLen spec
     | OldPointerField \<Rightarrow> 0 | _ \<Rightarrow> 2 * elemLen spec)"

definition arrayBytes :: "arraySpec \<Rightarrow> nat" where
  "arrayBytes spec = (case specType spec of IntField \<Rightarrow> elemLen spec | PointerField \<Rightarrow> 4 * elemLen spec
     | OldPointerField \<Rightarrow> 0 | _ \<Rightarrow> 8 * elemLen spec)"

definition arrayType :: "arraySpec \<Rightarrow> val" where
  "arrayType spec = (case specType spec of IntField \<Rightarrow> WORD_ARRAY_TYPE | PointerField \<Rightarrow> PTR_ARRAY_TYPE
     | DoubleField \<Rightarrow> QUAD_ARRAY_TYPE | _ \<Rightarrow> MIRROR_PTR_ARRAY_TYPE)"

definition arrayField :: "arraySpec \<Rightarrow> val \<Rightarrow> nat \<Rightarrow> val" where
  \<comment> \<open>word \<open>i\<close> of an array with initial pointer \<open>v\<close>\<close>
  "arrayField spec v i = (case specType spec of IntField \<Rightarrow> intVal spec
     | DoubleField \<Rightarrow> if even i then fst (doubleVal spec) else snd (doubleVal spec) | _ \<Rightarrow> v)"

definition array_ok :: "arraySpec \<Rightarrow> val \<Rightarrow> memory \<Rightarrow> addr \<Rightarrow> bool" where
  \<comment> \<open>at \<open>obj\<close> lies an array of the type, the length and the initial value of the specification\<close>
  "array_ok spec v m obj \<longleftrightarrow>
     GET_TYPE (m (obj - 4)) = arrayType spec \<and> unat (GET_ANY_ARRAY_LEN (m (obj - 4))) = arrayBytes spec \<and>
     (\<forall>i < arrayWords spec. m (obj + 4 * i) = arrayField spec v i) \<and>
     (specType spec = DoubleField \<longrightarrow> obj mod 8 = 0)"

lemma fillWords_at: "i < n \<Longrightarrow> fillWords a n v m (a + 4 * i) = v"
  unfolding fillWords_def by (rule fold_upd_at) simp

lemma fillWords_other: "x < a \<or> a + 4 * n \<le> x \<Longrightarrow> fillWords a n v m x = m x"
  unfolding fillWords_def by (rule fold_upd_other) auto

lemma fold_pairs:
  "fold (\<lambda>i m. m(obj + 8 * i := u, obj + 8 * i + 4 := w)) [0..<n] m a =
     (if \<exists>i < n. a = obj + 8 * i then u else if \<exists>i < n. a = obj + 8 * i + 4 then w else m a)"
proof (induction n)
  case (Suc n)
  then show ?case by (auto simp: less_Suc_eq)
qed simp

lemma arrayTag_ok:
  assumes "n < 2 ^ 29" "ty \<in> {WORD_ARRAY_TYPE, PTR_ARRAY_TYPE, QUAD_ARRAY_TYPE, MIRROR_PTR_ARRAY_TYPE}"
  shows "GET_TYPE (MAKE_ARRAY ty (word_of_nat n)) = ty" "unat (GET_ANY_ARRAY_LEN (MAKE_ARRAY ty (word_of_nat n))) = n"
proof -
  have l: "unat (word_of_nat n :: val) = n" using assms(1) by (simp add: unat_of_nat take_bit_nat_eq_self)
  have "unat ty < 8" using assms(2) by (auto simp: tag_consts)
  then show "GET_TYPE (MAKE_ARRAY ty (word_of_nat n)) = ty" "unat (GET_ANY_ARRAY_LEN (MAKE_ARRAY ty (word_of_nat n))) = n"
    using array_tag_roundtrip [of ty "word_of_nat n"] assms(1) by (simp_all add: l)
qed

lemma fillArray_ok:
  assumes "b < 2 ^ 29" "ty \<in> {WORD_ARRAY_TYPE, PTR_ARRAY_TYPE, QUAD_ARRAY_TYPE, MIRROR_PTR_ARRAY_TYPE}" "4 \<le> obj"
    and m': "m' = fillWords obj n v (m(obj - 4 := MAKE_ARRAY ty (word_of_nat b)))"
  shows "GET_TYPE (m' (obj - 4)) = ty \<and> unat (GET_ANY_ARRAY_LEN (m' (obj - 4))) = b \<and> (\<forall>i < n. m' (obj + 4 * i) = v) \<and>
    (\<forall>x. x < obj - 4 \<or> (obj - 4 < x \<and> x < obj) \<or> obj + 4 * n \<le> x \<longrightarrow> m' x = m x)"
proof -
  have o: "m' x = (m(obj - 4 := MAKE_ARRAY ty (word_of_nat b))) x" if "x < obj \<or> obj + 4 * n \<le> x" for x
    unfolding m' by (rule fillWords_other [OF that])
  have "m' (obj - 4) = MAKE_ARRAY ty (word_of_nat b)" using assms(3) by (subst o) simp_all
  moreover have "m' x = m x" if "x < obj - 4 \<or> (obj - 4 < x \<and> x < obj) \<or> obj + 4 * n \<le> x" for x
    using that assms(3) by (subst o) auto
  ultimately show ?thesis
    using arrayTag_ok [OF assms(1,2)] fillWords_at by (simp add: m')
qed

lemma initArray_ok:
  assumes "arrayBytes spec < 2 ^ 29" "4 \<le> obj" "specType spec = DoubleField \<longrightarrow> obj mod 8 = 0"
    and "specType spec \<noteq> OldPointerField" "specType spec = MirrorPointerField \<longrightarrow> conc"
  shows "\<exists>m'. initArray conc spec obj m = Inr m' \<and> array_ok spec (m (pointerLoc spec)) m' obj \<and>
    (\<forall>x. x < obj - 4 \<or> (obj - 4 < x \<and> x < obj) \<or> obj + 4 * arrayWords spec \<le> x \<longrightarrow> m' x = m x)"
proof (cases "specType spec")
  case DoubleField
  let ?m' = "fold (\<lambda>i m. m(obj + 8 * i := fst (doubleVal spec), obj + 8 * i + 4 := snd (doubleVal spec))) [0..<elemLen spec]
    (m(obj - 4 := MAKE_ARRAY QUAD_ARRAY_TYPE (word_of_nat (8 * elemLen spec))))"
  have run: "initArray conc spec obj m = Inr ?m'"
    using DoubleField assms(3) by (simp add: initArray_def init_farray_def)
  have tag: "?m' (obj - 4) = MAKE_ARRAY QUAD_ARRAY_TYPE (word_of_nat (8 * elemLen spec))"
    using assms(2) by (simp add: fold_pairs del: fun_upd_apply) auto
  have "?m' (obj + 4 * i) = arrayField spec (m (pointerLoc spec)) i" if "i < 2 * elemLen spec" for i
  proof (cases "even i")
    case True
    then obtain k where k: "i = 2 * k" by (elim evenE)
    then have "obj + 4 * i = obj + 8 * k" "k < elemLen spec" using that by simp_all
    then have "\<exists>j < elemLen spec. obj + 4 * i = obj + 8 * j" by blast
    then show ?thesis unfolding fold_pairs using True DoubleField by (simp add: arrayField_def)
  next
    case False
    then obtain k where k: "i = 2 * k + 1" by (elim oddE)
    then have "obj + 4 * i = obj + 8 * k + 4" "k < elemLen spec" using that by simp_all
    then have "\<exists>j < elemLen spec. obj + 4 * i = obj + 8 * j + 4" by blast
    moreover have "\<not> (\<exists>j < elemLen spec. obj + 4 * i = obj + 8 * j)" unfolding k by (auto; presburger)
    ultimately show ?thesis unfolding fold_pairs using False DoubleField by (simp only: if_True if_False) (simp add: arrayField_def)
  qed
  then have "array_ok spec (m (pointerLoc spec)) ?m' obj"
    using DoubleField assms(1,3) tag arrayTag_ok [of "8 * elemLen spec" QUAD_ARRAY_TYPE]
    by (simp add: array_ok_def arrayBytes_def arrayWords_def arrayType_def)
  moreover have "\<forall>x. x < obj - 4 \<or> (obj - 4 < x \<and> x < obj) \<or> obj + 4 * arrayWords spec \<le> x \<longrightarrow> ?m' x = m x"
    using DoubleField assms(2) unfolding fold_pairs by (auto simp: arrayWords_def)
  ultimately show ?thesis using run by blast
next
  case IntField
  then show ?thesis
    using fillArray_ok [OF _ _ assms(2) refl, of "elemLen spec" WORD_ARRAY_TYPE "(elemLen spec + 3) div 4" "intVal spec" m] assms(1)
    by (simp add: initArray_def init_iarray_def array_ok_def arrayBytes_def arrayWords_def arrayType_def arrayField_def)
next
  case PointerField
  then show ?thesis
    using fillArray_ok [OF _ _ assms(2) refl, of "4 * elemLen spec" PTR_ARRAY_TYPE "elemLen spec" "m (pointerLoc spec)" m] assms(1)
    by (simp add: initArray_def init_parray_def array_ok_def arrayBytes_def arrayWords_def arrayType_def arrayField_def)
next
  case MirrorPointerField
  then show ?thesis
    using fillArray_ok [OF _ _ assms(2) refl, of "4 * (2 * elemLen spec)" MIRROR_PTR_ARRAY_TYPE "2 * elemLen spec" "m (pointerLoc spec)" m]
      assms(1,5)
    by (simp add: initArray_def init_double_ptr_array_def array_ok_def arrayBytes_def arrayWords_def arrayType_def arrayField_def)
next
  case OldPointerField
  then show ?thesis using assms(4) by simp
qed

subsection \<open>Allocation in the area of the thread\<close>

definition hasRoom :: "nat \<Rightarrow> arraySpec \<Rightarrow> collector \<Rightarrow> bool" where
  "hasRoom t spec c \<longleftrightarrow> threadAlloc t (csch c) +
     4 * ((specByteLen spec + 4) div 4 + (if specType spec = DoubleField then 1 else 0)) \<le> threadLimit t (csch c)"

definition array_room :: "gcCall \<Rightarrow> nat \<Rightarrow> arraySpec \<Rightarrow> collector \<Rightarrow> collector \<Rightarrow> bool" where
  \<comment> \<open>the thread has room for the array in \<open>c1\<close>, which is \<open>c\<close> or what the collection that \<open>c\<close> needs leaves\<close>
  "array_room gc t spec c c1 \<longleftrightarrow> threadAlloc t (csch c1) mod 4 = 0 \<and> 0 < threadAlloc t (csch c1) \<and> hasRoom t spec c1 \<and>
     (if hasRoom t spec c then c1 = c else gc t (specByteLen spec + 4 + 4) False c = Inr c1)"

lemma fromThread_none: "\<not> hasRoom t spec c \<Longrightarrow> fromThread t (specByteLen spec + 4) (arrayAlign spec) c = Inr (NULL, c)"
  by (auto simp: fromThread_def AllocFromThread_def hasRoom_def threadAlloc_def threadLimit_def Let_def arrayAlign_def split: if_splits)

lemma fromThread_ok:
  assumes "hasRoom t spec c" "threadAlloc t (csch c) mod 4 = 0"
  shows "\<exists>r c1. fromThread t (specByteLen spec + 4) (arrayAlign spec) c = Inr (r, c1) \<and> threadAlloc t (csch c) \<le> r \<and>
    r + 4 * ((specByteLen spec + 4) div 4) \<le> threadLimit t (csch c) \<and> (specType spec = DoubleField \<longrightarrow> r mod 8 = 4) \<and>
    (\<forall>x. x < threadAlloc t (csch c) \<or> r \<le> x \<longrightarrow> colMem c1 x = colMem c x)"
proof -
  let ?a = "threadAlloc t (csch c)" and ?n = "(specByteLen spec + 4) div 4"
  obtain r m where al: "AlignMemoryPointer (smem (stk (csch c))) ?a (arrayAlign spec) = (r, m)" by fastforce
  have r: "?a \<le> r" "r \<le> ?a + 4 * (if specType spec = DoubleField then 1 else 0)" "specType spec = DoubleField \<longrightarrow> r mod 8 = 4"
    "\<forall>x. x < ?a \<or> r \<le> x \<longrightarrow> m x = colMem c x"
    using al assms(2) unfolding AlignMemoryPointer_def arrayAlign_def colMem_def Let_def
    by (auto split: if_splits) presburger+
  let ?c1 = "c\<lparr>csch := updTh t (setReg ALLOCPTR (word_of_nat (r + 4 * ?n))) ((csch c)\<lparr>stk := (stk (csch c))\<lparr>smem := m\<rparr>\<rparr>)\<rparr>"
  have run: "fromThread t (specByteLen spec + 4) (arrayAlign spec) c = Inr (r, ?c1)"
    using assms(1) al
    by (cases "specType spec = DoubleField")
      (simp_all add: fromThread_def AllocFromThread_def hasRoom_def threadAlloc_def threadLimit_def Let_def arrayAlign_def)
  have "r + 4 * ?n \<le> threadLimit t (csch c)"
    using assms(1) r(2) unfolding hasRoom_def by (auto split: if_splits)
  then show ?thesis
    using run r by (intro exI [of _ r] exI [of _ ?c1]) (simp add: colMem_def updTh_def)
qed

definition big_spec :: "arraySpec \<Rightarrow> bool" where
  \<comment> \<open>a specification that the interface builds\<close>
  "big_spec spec \<longleftrightarrow> (\<exists>n v loc. spec = bigIntSpec n v loc) \<or> (\<exists>n loc. spec = bigPtrSpec False n loc) \<or>
     (\<exists>n v loc. spec = bigFloatSpec n v loc)"

lemma big_spec_sizes:
  assumes "big_spec spec"
  shows "4 * arrayWords spec = specByteLen spec" "arrayBytes spec \<le> specByteLen spec"
    "specType spec \<noteq> OldPointerField" "specType spec \<noteq> MirrorPointerField"
  using assms by (auto simp: big_spec_def bigIntSpec_def bigPtrSpec_def bigFloatSpec_def arrayWords_def arrayBytes_def RoundUp_def)


definition demo_bigcol :: collector where
  "demo_bigcol = demo_collector\<lparr>csch := (csch demo_collector)\<lparr>Threads := [demo_cthread\<lparr>saveregs :=
     (replicate 32 0)[ALLOCPTR := 16384, ALLOCLIMIT := 20480]\<rparr>]\<rparr>\<rparr>"


end
