(* ===== verification/HeapCheck.thy ===== *)
theory HeapCheck
  imports BigArray
begin

text \<open>
  The heap checker (\<open>Runtime/sparc/show.c\<close> and the \<open>paranoid_check_*\<close> functions of
  \<open>Runtime/sparc/gc.c\<close>), which parses a heap object by object and reports every field that holds no
  legal value.  What is printed is left out: a check yields the list of its trace errors, and a
  warning, which is printed in verbose mode only, is nothing.  A NULL replica is 0.  The heaps and the
  bitmaps of object starts that a value may point into are lists; a heap without a bitmap has \<open>None\<close>
  at its place, as the C array has its terminating NULL there.  The first theorem says that the checker is exact on
  every well-formed heap area, the second that it accepts what a semispace collection leaves.
\<close>

unbundle bit_operations_syntax

datatype showType = NoReplica | OtherReplica | SelfReplica

datatype traceError =
    BadPointerInRange addr nat
  | BadPointerOutOfRange addr nat
  | ReplicaMismatch addr nat addr nat
  | PtrReplicaMismatch addr nat addr nat
  | IntReplicaMismatch addr nat addr nat
  | DoubleReplicaMismatch addr nat addr nat

record ckenv =
  ckSenv :: senv
  ckCfg :: config
  ckMirrorArray :: bool
  ckMirrorGlobal :: bool
  ckFuel :: nat                   \<comment> \<open>bound on the tags before an object and on forwarding chains\<close>

subsection \<open>Fields\<close>

fun inHeapsLoop :: "val \<Rightarrow> heap list \<Rightarrow> bitmap option list option \<Rightarrow> bool result" where
  "inHeapsLoop v [] starts = Inr False"
| "inHeapsLoop v (h # hs) starts =
     (if inHeap (unat v) h
      then case starts of None \<Rightarrow> Inr True
         | Some [] \<Rightarrow> Inl (Overrun ''legalStarts'')
         | Some (None # _) \<Rightarrow> Inr True
         | Some (Some b # _) \<Rightarrow> bindE (IsSet b ((unat v - hbottom h) div 4)) (\<lambda>w. Inr (w \<noteq> 0))
      else inHeapsLoop v hs (map_option tl starts))"

definition inHeaps :: "val \<Rightarrow> heap list option \<Rightarrow> bitmap option list option \<Rightarrow> bool result" where
  "inHeaps v legalHeaps legalStarts = (case legalHeaps of None \<Rightarrow> Inr True | Some hs \<Rightarrow> inHeapsLoop v hs legalStarts)"

definition isnan :: "val \<times> val \<Rightarrow> bool" where
  \<comment> \<open>of a double given by its two words\<close>
  "isnan d \<longleftrightarrow> (drop_bit 20 (fst d) AND 2047 = 2047) \<and> (fst d AND 1048575 \<noteq> 0 \<or> snd d \<noteq> 0)"

definition double_eq :: "val \<times> val \<Rightarrow> val \<times> val \<Rightarrow> bool" where
  \<comment> \<open>the C comparison: no NaN equals anything, the two zeros are equal\<close>
  "double_eq d e \<longleftrightarrow> \<not> isnan d \<and> \<not> isnan e \<and>
     (d = e \<or> (fst d AND 2147483647 = 0 \<and> snd d = 0 \<and> fst e AND 2147483647 = 0 \<and> snd e = 0))"

definition nonheapPointer :: "senv \<Rightarrow> val \<Rightarrow> bool" where
  "nonheapPointer e v \<longleftrightarrow> IsTagData v \<or> IsGlobalData e v \<or> v = uninit_val"

definition doubleAt :: "memory \<Rightarrow> addr \<Rightarrow> nat \<Rightarrow> val \<times> val" where
  "doubleAt m a i = (m (a + 8 * i), m (a + 8 * i + 4))"

definition show_field ::
    "ckenv \<Rightarrow> field_t \<Rightarrow> addr \<Rightarrow> addr \<Rightarrow> nat \<Rightarrow> nat \<Rightarrow> heap list option \<Rightarrow> bitmap option list option \<Rightarrow> memory \<Rightarrow>
     traceError list result" where
  "show_field K fieldType primary replica i ri legalHeaps legalStarts m =
     (let primaryField = m (primary + 4 * i); replicaField = m (replica + 4 * ri);
          isNonheapPointer = (fieldType = PointerField \<and> nonheapPointer (ckSenv K) primaryField);
          pointer =
            bindE (if isNonheapPointer \<or> fieldType = OldPointerField then Inr True
                   else inHeaps primaryField legalHeaps legalStarts) (\<lambda>ok.
            if \<not> ok then bindE (inHeaps primaryField legalHeaps None) (\<lambda>r.
              Inr [if r then BadPointerInRange primary i else BadPointerOutOfRange primary i])
            else if replica = NULL then Inr []
            else if isNonheapPointer
            then Inr (if primaryField \<noteq> replicaField then [ReplicaMismatch primary i replica ri] else [])
            else Inr (if primaryField \<noteq> replicaField \<and> m (unat primaryField - 4) \<noteq> replicaField
                      then [PtrReplicaMismatch primary i replica ri] else []))
      in case fieldType of
           PointerField \<Rightarrow> pointer
         | OldPointerField \<Rightarrow> pointer
         | IntField \<Rightarrow> Inr (if replica \<noteq> NULL \<and> primaryField \<noteq> replicaField
                          then [IntReplicaMismatch primary i replica ri] else [])
         | DoubleField \<Rightarrow>
             let p = doubleAt m primary i; r = doubleAt m replica ri
             in Inr (if replica \<noteq> NULL \<and> \<not> (isnan p \<and> isnan r) \<and> \<not> double_eq p r
                     then [DoubleReplicaMismatch primary i replica ri] else [])
         | MirrorPointerField \<Rightarrow> Inl (Die ''bad field type in show_field''))"

fun eachField :: "(nat \<Rightarrow> traceError list result) \<Rightarrow> nat list \<Rightarrow> traceError list result" where
  "eachField f [] = Inr []"
| "eachField f (i # is) = bindE (f i) (\<lambda>e. bindE (eachField f is) (\<lambda>es. Inr (e @ es)))"

definition mirrorPair ::
    "ckenv \<Rightarrow> nat \<Rightarrow> showType \<Rightarrow> addr \<Rightarrow> addr \<Rightarrow> nat \<Rightarrow> heap list option \<Rightarrow> bitmap option list option \<Rightarrow> memory \<Rightarrow>
     traceError list result" where
  \<comment> \<open>a mirrored field, whose two words have the indices \<open>a\<close> and \<open>a + 1\<close>\<close>
  "mirrorPair K primaryOffset replicaType obj replica a legalHeaps legalStarts m =
     (let doReplica = (replicaType \<noteq> NoReplica);
          old = (if doReplica then OldPointerField else PointerField); new = (if doReplica then PointerField else IntField)
      in if primaryOffset = 0
         then bindE (show_field K old obj replica a (a + 1) legalHeaps legalStarts m) (\<lambda>e.
              bindE (show_field K new obj NULL (a + 1) a legalHeaps legalStarts m) (\<lambda>es. Inr (e @ es)))
         else bindE (show_field K new obj NULL a (a + 1) legalHeaps legalStarts m) (\<lambda>e.
              bindE (show_field K old obj replica (a + 1) a legalHeaps legalStarts m) (\<lambda>es. Inr (e @ es))))"

definition selfReplica :: "showType \<Rightarrow> addr \<Rightarrow> addr \<Rightarrow> addr" where
  "selfReplica replicaType obj replica = (if replicaType = SelfReplica \<and> replica = NULL then obj else replica)"

subsection \<open>Objects\<close>

fun segTagsEnd :: "nat \<Rightarrow> memory \<Rightarrow> addr \<Rightarrow> addr result" where
  "segTagsEnd 0 m temp = Inl OutOfFuel"
| "segTagsEnd (Suc n) m temp =
     (if m temp = SEGSTALL_TAG \<or> m temp = SEGPROCEED_TAG then segTagsEnd n m (temp + 4) else Inr temp)"

fun forwardEnd :: "nat \<Rightarrow> memory \<Rightarrow> addr \<Rightarrow> val \<Rightarrow> (addr \<times> val) result" where
  \<comment> \<open>the replica and its tag at the end of the forwarding chain\<close>
  "forwardEnd 0 m replica tag = Inl OutOfFuel"
| "forwardEnd (Suc n) m replica tag =
     (if TAG_IS_FORWARD tag
      then bindE (assertE (replica \<noteq> unat tag) ''replica != (ptr_t) tag'') (\<lambda>_. forwardEnd n m (unat tag) (m (unat tag - 4)))
      else Inr (replica, tag))"

definition show_obj ::
    "ckenv \<Rightarrow> addr \<Rightarrow> showType \<Rightarrow> heap list option \<Rightarrow> bitmap option list option \<Rightarrow> memory \<Rightarrow>
     (traceError list \<times> addr \<times> addr) result" where
  \<comment> \<open>the errors, \<open>*objRef\<close> and \<open>end\<close>\<close>
  "show_obj K start replicaType legalHeaps legalStarts m =
     bindE (segTagsEnd (ckFuel K) m start) (\<lambda>temp.
     let obj = temp + 4 in
     bindE (forwardEnd (ckFuel K) m obj (m temp)) (\<lambda>(replica, tag).
     let replica = (if obj = replica \<or> replicaType = NoReplica then NULL else replica);
         field = (\<lambda>ft i. show_field K ft obj replica i i legalHeaps legalStarts m);
         bytelen = unat (GET_ANY_ARRAY_LEN tag); wordlen = (bytelen + 3) div 4;
         array = (\<lambda>ft n. bindE (eachField (field ft) [0..<n]) (\<lambda>es. Inr (es, obj, obj + 4 * wordlen)))
     in if GET_TYPE tag = RECORD_TYPE then
          let len = unat (GET_RECLEN tag); mask = GET_RECMASK tag in
          if drop_bit len mask \<noteq> 0 then Inl (Die ''bad record tag in show_obj'')
          else bindE (eachField (\<lambda>i. field (if bit mask i then PointerField else IntField) i) [0..<len]) (\<lambda>es.
               Inr (es, obj, obj + 4 * len))
        else if GET_TYPE tag = MIRROR_PTR_ARRAY_TYPE then
          bindE (eachField (\<lambda>i.
              if \<not> ckMirrorArray K
              then bindE (assertE (primaryArrayOffset (ckCfg K) = 0) ''primaryArrayOffset == 0'') (\<lambda>_. field PointerField (2 * i))
              else mirrorPair K (primaryArrayOffset (ckCfg K)) replicaType obj (selfReplica replicaType obj replica) (2 * i)
                     legalHeaps legalStarts m) [0..<wordlen div 2]) (\<lambda>es.
          Inr (es, obj, obj + 4 * wordlen))
        else if GET_TYPE tag = WORD_ARRAY_TYPE then array IntField wordlen
        else if GET_TYPE tag = QUAD_ARRAY_TYPE then array DoubleField (bytelen div 8)
        else if GET_TYPE tag = PTR_ARRAY_TYPE then array PointerField (bytelen div 4)
        else if IS_SKIP_TAG tag then
          bindE (assertE (GET_SKIPWORD tag \<noteq> 0) ''wordsSkipped > 0'') (\<lambda>_.
          Inr ([], obj, start + 4 * unat (GET_SKIPWORD tag)))
        else if tag = MIRROR_GLOBAL_PTR_TAG then
          bindE (if \<not> ckMirrorGlobal K
                 then bindE (assertE (primaryGlobalOffset (ckCfg K) = 0) ''primaryGlobalOffset == 0'') (\<lambda>_. field PointerField 0)
                 else mirrorPair K (primaryGlobalOffset (ckCfg K)) replicaType obj (selfReplica replicaType obj replica) 0
                        legalHeaps legalStarts m) (\<lambda>es.
          Inr (es, obj, obj + 8))
        else Inl (Die ''bad tag in show_obj'')))"

subsection \<open>Heap areas\<close>

fun scanHeapLoop ::
    "nat \<Rightarrow> ckenv \<Rightarrow> addr \<Rightarrow> addr \<Rightarrow> addr \<Rightarrow> heap list option \<Rightarrow> bitmap option list option \<Rightarrow> showType \<Rightarrow> memory \<Rightarrow>
     bitmap option \<Rightarrow> (traceError list \<times> bitmap option) result" where
  "scanHeapLoop 0 K cur start finish legalHeaps legalStarts replicaType m startMap = Inl OutOfFuel"
| "scanHeapLoop (Suc n) K cur start finish legalHeaps legalStarts replicaType m startMap =
     (if cur < finish then
        bindE (show_obj K cur replicaType legalHeaps legalStarts m) (\<lambda>(es, obj, next).
        bindE (assertE (obj \<noteq> NULL) ''obj != NULL'') (\<lambda>_.
        bindE (assertE (next > cur) ''next > cur'') (\<lambda>_.
        bindE (case startMap of None \<Rightarrow> Inr None
               | Some b \<Rightarrow> bindE (SetBitmapRange b ((obj - start) div 4) 1) (\<lambda>b. Inr (Some b))) (\<lambda>startMap.
        bindE (scanHeapLoop n K next start finish legalHeaps legalStarts replicaType m startMap) (\<lambda>(es', startMap).
        Inr (es @ es', startMap))))))
      else Inr ([], startMap))"

definition scan_heap ::
    "nat \<Rightarrow> ckenv \<Rightarrow> addr \<Rightarrow> addr \<Rightarrow> heap list option \<Rightarrow> bitmap option list option \<Rightarrow> showType \<Rightarrow> memory \<Rightarrow>
     bitmap option \<Rightarrow> (traceError list \<times> bitmap option) result" where
  "scan_heap fuel K start finish legalHeaps legalStarts replicaType m startMap =
     bindE (case startMap of None \<Rightarrow> Inr None | Some b \<Rightarrow> bindE (ClearBitmap b) (\<lambda>b. Inr (Some b))) (\<lambda>startMap.
     scanHeapLoop fuel K start start finish legalHeaps legalStarts replicaType m startMap)"

subsection \<open>The whole heap\<close>

text \<open>
  The state of \<open>paranoid_check_all\<close>: the collector, the trace errors so far and the two counters from
  which values for dead registers and stack words are drawn.  The arrays of legal heaps hold indices of
  heaps, since the first pass over a heap renews its bitmap.
\<close>

record checker =
  ckCol :: collector
  ckErrors :: "traceError list"
  ckRegVal :: nat                 \<comment> \<open>\<open>newval\<close> of the registers, initially 42000\<close>
  ckStkVal :: nat                 \<comment> \<open>\<open>newval\<close> of the stack, initially 62000\<close>

definition ckHeaps :: "nat list option \<Rightarrow> checker \<Rightarrow> heap list option" where
  "ckHeaps hs s = map_option (map (\<lambda>i. cheap i (ckCol s))) hs"

definition ckStarts :: "nat list option \<Rightarrow> checker \<Rightarrow> bitmap option list option" where
  \<comment> \<open>the bitmaps of the heaps in the list, then the final NULL\<close>
  "ckStarts hs s = map_option (\<lambda>hs. map (\<lambda>i. hstarts (cheap i (ckCol s))) hs @ [None]) hs"

definition ckSome :: "checker \<Rightarrow> val \<Rightarrow> bool" where
  "ckSome s v \<longleftrightarrow> inSomeHeap \<lparr>Heaps = map (\<lambda>i. cheap i (ckCol s)) [0..<NumHeap], heap_count = 0\<rparr> (unat v)"

definition ckMem :: "checker \<Rightarrow> memory" where
  "ckMem s = colMem (ckCol s)"

definition addErrors :: "traceError list \<Rightarrow> checker \<Rightarrow> checker" where
  "addErrors es s = s\<lparr>ckErrors := ckErrors s @ es\<rparr>"

fun paranoid_check_global ::
    "nat \<Rightarrow> ckenv \<Rightarrow> (addr \<times> addr) list \<Rightarrow> nat list option \<Rightarrow> nat list option \<Rightarrow> showType \<Rightarrow> checker \<Rightarrow> checker result" where
  \<comment> \<open>the list has the start and the end of the globals of each module\<close>
  "paranoid_check_global fuel K [] legalHeaps legalStarts replicaType s = Inr s"
| "paranoid_check_global fuel K ((start, stop) # mods) legalHeaps legalStarts replicaType s =
     bindE (scan_heap fuel K start stop (ckHeaps legalHeaps s) (ckStarts legalStarts s) replicaType (ckMem s) None) (\<lambda>(es, _).
     paranoid_check_global fuel K mods legalHeaps legalStarts replicaType (addErrors es s))"

definition paranoid_check_heap_without_start ::
    "nat \<Rightarrow> ckenv \<Rightarrow> nat \<Rightarrow> nat list option \<Rightarrow> showType \<Rightarrow> checker \<Rightarrow> checker result" where
  "paranoid_check_heap_without_start fuel K curSpace legalHeaps replicaType s =
     (let h = cheap curSpace (ckCol s) in
      bindE (scan_heap fuel K (hbottom h) (hcursor h) (ckHeaps legalHeaps s) None replicaType (ckMem s) (hstarts h)) (\<lambda>(es, b).
      Inr (addErrors es (s\<lparr>ckCol := setHeap curSpace (h\<lparr>hstarts := b\<rparr>) (ckCol s)\<rparr>))))"

definition paranoid_check_heap_with_start ::
    "nat \<Rightarrow> ckenv \<Rightarrow> nat \<Rightarrow> nat list option \<Rightarrow> nat list option \<Rightarrow> showType \<Rightarrow> checker \<Rightarrow> checker result" where
  "paranoid_check_heap_with_start fuel K curSpace legalHeaps legalStarts replicaType s =
     (let h = cheap curSpace (ckCol s) in
      bindE (scan_heap fuel K (hbottom h) (hcursor h) (ckHeaps legalHeaps s) (ckStarts legalStarts s) replicaType (ckMem s) None)
        (\<lambda>(es, _). Inr (addErrors es s)))"

definition staleValue :: "val \<Rightarrow> nat list option \<Rightarrow> nat list option \<Rightarrow> checker \<Rightarrow> bool result" where
  \<comment> \<open>\<open>!inHeaps(v, legalHeaps, legalStarts) && inSomeHeap(v)\<close>\<close>
  "staleValue v legalHeaps legalStarts s =
     bindE (inHeaps v (ckHeaps legalHeaps s) (ckStarts legalStarts s)) (\<lambda>ok. Inr (\<not> ok \<and> ckSome s v))"

fun checkRegs :: "nat \<Rightarrow> nat list \<Rightarrow> nat list option \<Rightarrow> nat list option \<Rightarrow> checker \<Rightarrow> checker result" where
  "checkRegs t [] legalHeaps legalStarts s = Inr s"
| "checkRegs t (r # rs) legalHeaps legalStarts s =
     (if r = ALLOCPTR \<or> r = ALLOCLIMIT then checkRegs t rs legalHeaps legalStarts s
      else bindE (staleValue (saveregs (Threads (csch (ckCol s)) ! t) ! r) legalHeaps legalStarts s) (\<lambda>stale.
           checkRegs t rs legalHeaps legalStarts
             (if stale then s\<lparr>ckCol := (ckCol s)\<lparr>csch := updTh t (setReg r (word_of_nat (ckRegVal s))) (csch (ckCol s))\<rparr>,
                              ckRegVal := ckRegVal s + 1\<rparr>
              else s)))"

fun checkWords :: "addr list \<Rightarrow> nat list option \<Rightarrow> nat list option \<Rightarrow> checker \<Rightarrow> checker result" where
  "checkWords [] legalHeaps legalStarts s = Inr s"
| "checkWords (a # as) legalHeaps legalStarts s =
     bindE (staleValue (ckMem s a) legalHeaps legalStarts s) (\<lambda>stale.
     checkWords as legalHeaps legalStarts
       (if stale then s\<lparr>ckCol := setCmem ((ckMem s)(a := word_of_nat (ckStkVal s))) (ckCol s), ckStkVal := ckStkVal s + 1\<rparr>
        else s))"

fun checkStacklets :: "nat option list \<Rightarrow> nat list option \<Rightarrow> nat list option \<Rightarrow> checker \<Rightarrow> checker result" where
  "checkStacklets [] legalHeaps legalStarts s = Inr s"
| "checkStacklets (x # xs) legalHeaps legalStarts s =
     (case x of None \<Rightarrow> Inl (Overrun ''NULL stacklet'') | Some i \<Rightarrow>
      let top = StackletPrimaryTop i (stk (csch (ckCol s))); cursor = StackletPrimaryCursor i (stk (csch (ckCol s))) in
      bindE (checkWords (map (\<lambda>k. cursor + 4 * k) [0..<(top - cursor + 3) div 4]) legalHeaps legalStarts s) (\<lambda>s.
      checkStacklets xs legalHeaps legalStarts s))"

definition paranoid_check_stack :: "nat \<Rightarrow> nat list option \<Rightarrow> nat list option \<Rightarrow> checker \<Rightarrow> checker result" where
  "paranoid_check_stack t legalHeaps legalStarts s =
     (let th = Threads (csch (ckCol s)) ! t in
      if saveregs th ! ALLOCLIMIT = word_of_nat StopHeapLimit then Inr s
      else bindE (staleValue (thunk th) legalHeaps legalStarts s) (\<lambda>stale.
           if stale then Inl (Die ''trace error'')
           else if thunk th \<noteq> 0 then Inr s
           else bindE (checkRegs t [0..<32] legalHeaps legalStarts s) (\<lambda>s.
                case thStack th of None \<Rightarrow> Inl (Overrun ''NULL stack'')
                | Some c \<Rightarrow>
                    let ch = StackChains (stk (csch (ckCol s))) ! c in
                    checkStacklets (take (sc_cursor ch) (sc_stacklets ch)) legalHeaps legalStarts s)))"

fun checkJobs :: "nat \<Rightarrow> nat list option \<Rightarrow> nat list option \<Rightarrow> checker \<Rightarrow> checker result" where
  "checkJobs 0 legalHeaps legalStarts s = Inl OutOfFuel"
| "checkJobs (Suc n) legalHeaps legalStarts s =
     (case NextJob (csch (ckCol s)) of (r, sc) \<Rightarrow>
        let s = s\<lparr>ckCol := (ckCol s)\<lparr>csch := sc\<rparr>\<rparr> in
        case r of None \<Rightarrow> Inr s | Some t \<Rightarrow>
          bindE (paranoid_check_stack t legalHeaps legalStarts s) (checkJobs n legalHeaps legalStarts))"

definition ifHeap :: "nat option \<Rightarrow> (nat \<Rightarrow> checker \<Rightarrow> checker result) \<Rightarrow> checker \<Rightarrow> checker result" where
  "ifHeap h f s = (case h of None \<Rightarrow> Inr s | Some i \<Rightarrow> f i s)"

definition resetJobs :: "checker \<Rightarrow> checker" where
  "resetJobs s = s\<lparr>ckCol := (ckCol s)\<lparr>csch := ResetJob (csch (ckCol s))\<rparr>\<rparr>"

definition paranoid_check_all ::
    "nat \<Rightarrow> ckenv \<Rightarrow> bool \<Rightarrow> nat \<Rightarrow> collectorType \<Rightarrow> (addr \<times> addr) list \<Rightarrow> nat \<Rightarrow> nat option \<Rightarrow> nat option \<Rightarrow> nat option \<Rightarrow>
     nat option \<Rightarrow> checker \<Rightarrow> checker result" where
  "paranoid_check_all fuel K paranoid checkAtGC ct mods firstPrimary secondPrimary firstReplica secondReplica large s =
     (let opts = (\<lambda>x. case x of None \<Rightarrow> [] | Some i \<Rightarrow> [i]);
          replicas = (firstReplica \<noteq> None);
          showReplica1 = (if replicas then OtherReplica else NoReplica);
          showReplica2 = (if replicas then if firstReplica = secondPrimary then SelfReplica else OtherReplica else NoReplica);
          showReplica3 = (if replicas then SelfReplica else NoReplica);
          primaryStarts = Some (firstPrimary # opts secondPrimary); primaryHeaps = Some (firstPrimary # opts secondPrimary @ opts large);
          replicaStarts = Some (opts firstReplica @ opts secondReplica);
          replicaHeaps = Some (opts firstReplica @ opts secondReplica @ opts large);
          currentHeaps = (if replicas then replicaHeaps else primaryHeaps);
          currentStarts = (if replicas then replicaStarts else primaryStarts);
          plain = (\<lambda>r i. paranoid_check_heap_without_start fuel K i None r);
          full = (\<lambda>hs sts r i. paranoid_check_heap_with_start fuel K i hs sts r)
      in if \<not> paranoid \<or> NumGC (ckCol s) < checkAtGC then Inr s
         else bindE (plain showReplica1 firstPrimary s) (\<lambda>s.
         bindE (ifHeap secondPrimary (plain showReplica1) s) (\<lambda>s.
         bindE (ifHeap firstReplica (plain showReplica2) s) (\<lambda>s.
         bindE (ifHeap secondReplica (plain showReplica1) s) (\<lambda>s.
         bindE (checkJobs fuel currentHeaps currentStarts (resetJobs s)) (\<lambda>s.
         bindE (paranoid_check_global fuel K mods currentHeaps currentStarts showReplica3 (resetJobs s)) (\<lambda>s.
         bindE (if replicas \<and> majorGC (ckCol s) \<and> (ct = Generational \<or> ct = GenerationalParallel) then Inr s
                else full primaryHeaps primaryStarts showReplica1 firstPrimary s) (\<lambda>s.
         bindE (if replicas \<and> secondPrimary \<noteq> firstReplica then Inr s
                else ifHeap secondPrimary (full primaryHeaps primaryStarts showReplica2) s) (\<lambda>s.
         bindE (ifHeap firstReplica (full replicaHeaps replicaStarts showReplica2) s) (\<lambda>s.
         bindE (ifHeap secondReplica (full replicaHeaps replicaStarts showReplica1) s) (\<lambda>s.
         if ckErrors s \<noteq> [] then Inl (Die ''trace errors'') else Inr s)))))))))))"

subsection \<open>Well-formed heap areas\<close>

definition plain_object :: "memory \<Rightarrow> addr \<Rightarrow> bool" where
  \<comment> \<open>the tag of an object that is not forwarded and not mirrored\<close>
  "plain_object m obj \<longleftrightarrow> \<not> TAG_IS_FORWARD (otag m obj) \<and>
     (GET_TYPE (otag m obj) = RECORD_TYPE \<and> drop_bit (olen m obj) (GET_RECMASK (otag m obj)) = 0 \<or>
      GET_TYPE (otag m obj) \<in> {WORD_ARRAY_TYPE, QUAD_ARRAY_TYPE} \<or>
      GET_TYPE (otag m obj) = PTR_ARRAY_TYPE \<and> unat (GET_ANY_ARRAY_LEN (otag m obj)) mod 4 = 0)"

inductive heap_area :: "nat \<Rightarrow> memory \<Rightarrow> addr \<Rightarrow> addr list \<Rightarrow> addr \<Rightarrow> bool" for g m where
  \<comment> \<open>from the first to the last address lie objects, each with fewer than \<open>g\<close> segment tags before it, and
     skips; the list has the address after each tag\<close>
  area_end: "heap_area g m a [] a"
| area_object: "\<forall>i < k. m (a + 4 * i) = SEGSTALL_TAG \<or> m (a + 4 * i) = SEGPROCEED_TAG \<Longrightarrow> k < g \<Longrightarrow>
    obj = a + 4 * k + 4 \<Longrightarrow> plain_object m obj \<Longrightarrow> heap_area g m (obj + 4 * olen m obj) os b \<Longrightarrow> heap_area g m a (obj # os) b"
| area_skip: "IS_SKIP_TAG (m a) \<Longrightarrow> GET_SKIPWORD (m a) \<noteq> 0 \<Longrightarrow> 0 < g \<Longrightarrow>
    heap_area g m (a + 4 * unat (GET_SKIPWORD (m a))) os b \<Longrightarrow> heap_area g m a ((a + 4) # os) b"

inductive_cases heap_area_ConsE: "heap_area g m a (obj # os) b"
inductive_simps heap_area_Nil: "heap_area g m a [] b"

lemma heap_area_le: "heap_area g m a os b \<Longrightarrow> a \<le> b"
  by (induction rule: heap_area.induct) auto

lemma heap_area_bounds: "heap_area g m a os b \<Longrightarrow> obj \<in> set os \<Longrightarrow> a + 4 \<le> obj \<and> obj \<le> b"
proof (induction rule: heap_area.induct)
  case (area_object k a obj' os b)
  then show ?case using heap_area_le [OF area_object.hyps(5)] by auto
next
  case (area_skip a os b)
  have "unat (GET_SKIPWORD (m a)) \<noteq> 0" using area_skip.hyps(2) by (simp add: unat_eq_0)
  then show ?case using area_skip heap_area_le [OF area_skip.hyps(4)] by auto
qed simp

lemma heap_area_aligned: "heap_area g m a os b \<Longrightarrow> obj \<in> set os \<Longrightarrow> 4 dvd obj - a"
proof (induction rule: heap_area.induct)
  case (area_object k a obj' os b)
  show ?case
  proof (cases "obj = obj'")
    case False
    then have "4 dvd obj - (obj' + 4 * olen m obj')" "obj' + 4 * olen m obj' + 4 \<le> obj"
      using area_object heap_area_bounds [OF area_object.hyps(5), of obj] by auto
    then show ?thesis using area_object.hyps(3) by presburger
  qed (use area_object.hyps(3) in simp)
next
  case (area_skip a os b)
  show ?case
  proof (cases "obj = a + 4")
    case False
    then have "4 dvd obj - (a + 4 * unat (GET_SKIPWORD (m a)))" "a + 4 * unat (GET_SKIPWORD (m a)) + 4 \<le> obj"
      using area_skip heap_area_bounds [OF area_skip.hyps(4), of obj] by auto
    then show ?thesis by presburger
  qed simp
qed simp

subsection \<open>Legal values\<close>

definition legal_start :: "bitmap option list option \<Rightarrow> nat \<Rightarrow> nat \<Rightarrow> bool" where
  \<comment> \<open>word \<open>k\<close> of heap \<open>j\<close> of the list starts an object, as far as is known\<close>
  "legal_start legalStarts j k \<longleftrightarrow> (case legalStarts of None \<Rightarrow> True | Some bs \<Rightarrow>
     (case bs ! j of None \<Rightarrow> True | Some b \<Rightarrow> k < bsize b \<and> marked b k))"

definition legal_value :: "heap list option \<Rightarrow> bitmap option list option \<Rightarrow> val \<Rightarrow> bool" where
  \<comment> \<open>the first legal heap that contains the value has an object starting there\<close>
  "legal_value legalHeaps legalStarts v \<longleftrightarrow> (case legalHeaps of None \<Rightarrow> True | Some hs \<Rightarrow>
     \<exists>j < length hs. inHeap (unat v) (hs ! j) \<and> (\<forall>i < j. \<not> inHeap (unat v) (hs ! i)) \<and>
       legal_start legalStarts j ((unat v - hbottom (hs ! j)) div 4))"

definition legal_ok :: "heap list option \<Rightarrow> bitmap option list option \<Rightarrow> bool" where
  \<comment> \<open>each legal heap has its entry in the array of bitmaps, if there is one\<close>
  "legal_ok legalHeaps legalStarts \<longleftrightarrow> (case (legalHeaps, legalStarts) of
       (Some hs, Some bs) \<Rightarrow> length hs \<le> length bs \<and> (\<forall>b. Some b \<in> set bs \<longrightarrow> bm_len b) | _ \<Rightarrow> True)"

lemma IsSet_marked: "bm_len b \<Longrightarrow> bindE (IsSet b i) (\<lambda>w. Inr (w \<noteq> 0)) = Inr (i < bsize b \<and> marked b i)"
  using GetBit_ok [of b i] by (auto simp: IsSet_def)

lemma inHeapsLoop_spec:
  assumes "case sts of None \<Rightarrow> True | Some bs \<Rightarrow> length hs \<le> length bs \<and> (\<forall>b. Some b \<in> set bs \<longrightarrow> bm_len b)"
  shows "inHeapsLoop v hs sts = Inr (legal_value (Some hs) sts v)"
  using assms
proof (induction hs arbitrary: sts)
  case (Cons h hs)
  have step: "legal_value (Some (h # hs)) sts v \<longleftrightarrow>
      (if inHeap (unat v) h then legal_start sts 0 ((unat v - hbottom h) div 4) else legal_value (Some hs) (map_option tl sts) v)"
    if "sts \<noteq> Some []"
  proof -
    have "legal_start (map_option tl sts) j k = legal_start sts (Suc j) k" for j k
      using that by (cases sts) (auto simp: legal_start_def nth_tl neq_Nil_conv)
    then show ?thesis by (simp add: legal_value_def Ex_less_Suc2 All_less_Suc2)
  qed
  show ?case
  proof (cases "inHeap (unat v) h")
    case True
    then show ?thesis
      using Cons.prems step
      by (cases sts) (auto simp: legal_start_def neq_Nil_conv Suc_le_length_iff IsSet_marked split: option.splits)
  next
    case False
    have ne: "sts \<noteq> Some []" using Cons.prems by (cases sts) auto
    have "inHeapsLoop v hs (map_option tl sts) = Inr (legal_value (Some hs) (map_option tl sts) v)"
      by (rule Cons.IH) (use Cons.prems in \<open>auto split: option.splits simp: Suc_le_length_iff\<close>)
    then show ?thesis using False step [OF ne] by simp
  qed
qed (simp add: legal_value_def)

lemma inHeaps_spec: "legal_ok hs sts \<Longrightarrow> inHeaps v hs sts = Inr (legal_value hs sts v)"
  using inHeapsLoop_spec [of "the hs" sts v]
  by (cases hs) (auto simp: inHeaps_def legal_ok_def legal_value_def split: option.splits)

lemma legal_ok_noStarts [simp]: "legal_ok hs None"
  by (simp add: legal_ok_def split: option.splits)

subsection \<open>The checker on a well-formed area\<close>

definition badPointer :: "ckenv \<Rightarrow> heap list option \<Rightarrow> bitmap option list option \<Rightarrow> val \<Rightarrow> bool" where
  "badPointer K hs sts v \<longleftrightarrow> \<not> nonheapPointer (ckSenv K) v \<and> \<not> legal_value hs sts v"

definition badError :: "heap list option \<Rightarrow> memory \<Rightarrow> addr \<Rightarrow> nat \<Rightarrow> traceError" where
  "badError hs m obj i =
     (if legal_value hs None (m (obj + 4 * i)) then BadPointerInRange obj i else BadPointerOutOfRange obj i)"

definition bad_fields ::
    "ckenv \<Rightarrow> heap list option \<Rightarrow> bitmap option list option \<Rightarrow> memory \<Rightarrow> addr \<Rightarrow> traceError list" where
  \<comment> \<open>an error for each pointer field of the object that is neither legal nor outside the heaps\<close>
  "bad_fields K hs sts m obj =
     map (badError hs m obj) (filter (\<lambda>i. is_ptr m obj i \<and> badPointer K hs sts (m (obj + 4 * i))) [0..<olen m obj])"

lemma eachField_spec: "(\<And>i. i \<in> set is \<Longrightarrow> f i = Inr (g i)) \<Longrightarrow> eachField f is = Inr (concat (map g is))"
  by (induction "is") auto

lemma eachField_filter:
  assumes "\<And>i. i \<in> set is \<Longrightarrow> f i = Inr (if P i then [e i] else [])"
  shows "eachField f is = Inr (map e (filter P is))"
proof -
  have "concat (map (\<lambda>i. if P i then [e i] else []) is) = map e (filter P is)" by (induction "is") auto
  then show ?thesis using eachField_spec [OF assms] by simp
qed

lemma show_field_pointer:
  assumes "legal_ok hs sts"
  shows "show_field K PointerField obj NULL i ri hs sts m =
    Inr (if badPointer K hs sts (m (obj + 4 * i)) then [badError hs m obj i] else [])"
  using assms
  by (cases "nonheapPointer (ckSenv K) (m (obj + 4 * i))")
    (simp_all add: show_field_def inHeaps_spec badPointer_def badError_def Let_def)

lemma show_field_data:
  "show_field K IntField obj NULL i ri hs sts m = Inr []" "show_field K DoubleField obj NULL i ri hs sts m = Inr []"
  by (simp_all add: show_field_def Let_def)

lemma segTagsEnd_object:
  "\<forall>i < k. m (a + 4 * i) = SEGSTALL_TAG \<or> m (a + 4 * i) = SEGPROCEED_TAG \<Longrightarrow> k < n \<Longrightarrow>
   m (a + 4 * k) \<noteq> SEGSTALL_TAG \<Longrightarrow> m (a + 4 * k) \<noteq> SEGPROCEED_TAG \<Longrightarrow> segTagsEnd n m a = Inr (a + 4 * k)"
proof (induction n arbitrary: a k)
  case (Suc n)
  show ?case
  proof (cases k)
    case (Suc k')
    have "segTagsEnd n m (a + 4) = Inr (a + 4 + 4 * k')"
      by (rule Suc.IH) (use Suc.prems Suc in \<open>auto simp: algebra_simps dest: spec [of _ "Suc _"]\<close>)
    moreover have "m a = SEGSTALL_TAG \<or> m a = SEGPROCEED_TAG" using Suc.prems(1) Suc by force
    ultimately show ?thesis using Suc by (simp add: algebra_simps)
  qed (use Suc.prems in simp)
qed simp

lemma plain_tag_types:
  assumes "plain_object m obj"
  shows "m (obj - 4) \<noteq> SEGSTALL_TAG" "m (obj - 4) \<noteq> SEGPROCEED_TAG" "\<not> TAG_IS_FORWARD (m (obj - 4))"
  using assms by (auto simp: plain_object_def otag_def tag_consts tag_unat word_unat_eq_iff)

lemma mirror_distinct [simp]:
  "RECORD_TYPE \<noteq> MIRROR_PTR_ARRAY_TYPE" "WORD_ARRAY_TYPE \<noteq> MIRROR_PTR_ARRAY_TYPE"
  "QUAD_ARRAY_TYPE \<noteq> MIRROR_PTR_ARRAY_TYPE" "PTR_ARRAY_TYPE \<noteq> MIRROR_PTR_ARRAY_TYPE"
  by (simp_all add: tag_consts)

lemma array_words: "RoundUp b 4 div 4 = (b + 3) div 4"
  by (simp add: RoundUp_def)

lemma not_quad_multiple: "(b + 3) div 4 = b div (4::nat)" if "b mod 4 = 0" using that by presburger

lemma show_obj_object:
  assumes seg: "\<forall>i < k. m (a + 4 * i) = SEGSTALL_TAG \<or> m (a + 4 * i) = SEGPROCEED_TAG" "k < ckFuel K"
    and obj: "obj = a + 4 * k + 4" "plain_object m obj" and ok: "legal_ok hs sts"
  shows "show_obj K a rt hs sts m = Inr (bad_fields K hs sts m obj, obj, obj + 4 * olen m obj)"
proof -
  have t: "m (a + 4 * k) = otag m obj" by (simp add: otag_def obj(1))
  have e: "segTagsEnd (ckFuel K) m a = Inr (a + 4 * k)"
    by (rule segTagsEnd_object [OF seg]) (use plain_tag_types(1,2) [OF obj(2)] in \<open>simp_all add: t otag_def\<close>)
  have f: "forwardEnd (ckFuel K) m obj (otag m obj) = Inr (obj, otag m obj)"
    using seg(2) plain_tag_types(3) [OF obj(2)] by (cases "ckFuel K") (simp_all add: otag_def)
  have run: "eachField (\<lambda>i. show_field K (if is_ptr m obj i then PointerField else ft) obj NULL i i hs sts m) [0..<olen m obj] =
      Inr (bad_fields K hs sts m obj)" if "ft = IntField \<or> ft = DoubleField" for ft
    unfolding bad_fields_def
    by (rule eachField_filter) (use that show_field_pointer [OF ok] show_field_data in \<open>auto split: if_splits\<close>)
  have none: "bad_fields K hs sts m obj = []" if "GET_TYPE (otag m obj) = WORD_ARRAY_TYPE \<or> GET_TYPE (otag m obj) = QUAD_ARRAY_TYPE"
    using that by (auto simp: bad_fields_def is_ptr_def)
  consider (rec) "GET_TYPE (otag m obj) = RECORD_TYPE" "drop_bit (olen m obj) (GET_RECMASK (otag m obj)) = 0"
    | (word) "GET_TYPE (otag m obj) = WORD_ARRAY_TYPE" | (quad) "GET_TYPE (otag m obj) = QUAD_ARRAY_TYPE"
    | (ptr) "GET_TYPE (otag m obj) = PTR_ARRAY_TYPE" "unat (GET_ANY_ARRAY_LEN (otag m obj)) mod 4 = 0"
    using obj(2) unfolding plain_object_def by auto
  then show ?thesis
  proof cases
    case rec
    then show ?thesis
      using run [of IntField] e f t obj(1)
      by (simp add: show_obj_def Let_def is_ptr_def olen_def add.assoc)
  next
    case word
    then show ?thesis
      using e f t obj(1) none eachField_spec [of _ "\<lambda>i. show_field K IntField obj NULL i i hs sts m" "\<lambda>_. []"]
      by (simp add: show_obj_def Let_def olen_def array_words show_field_data add.assoc)
  next
    case quad
    then show ?thesis
      using e f t obj(1) none eachField_spec [of _ "\<lambda>i. show_field K DoubleField obj NULL i i hs sts m" "\<lambda>_. []"]
      by (simp add: show_obj_def Let_def olen_def array_words show_field_data add.assoc)
  next
    case ptr
    then show ?thesis
      using run [of IntField] e f t obj(1)
      by (simp add: show_obj_def Let_def is_ptr_def olen_def array_words add.assoc not_quad_multiple)
  qed
qed

lemma show_obj_skip:
  assumes "IS_SKIP_TAG (m a)" "GET_SKIPWORD (m a) \<noteq> 0" "0 < ckFuel K"
  shows "show_obj K a rt hs sts m = Inr (bad_fields K hs sts m (a + 4), a + 4, a + 4 * unat (GET_SKIPWORD (m a)))"
proof -
  have t: "unat (m a) mod 16 = 7" using assms(1) by (simp add: tag_unat)
  then have u: "unat (m a) mod 8 = 7" "unat (m a) mod 4 = 3" "unat (m a) \<noteq> 47" "unat (m a) \<noteq> 79"
    by (presburger, presburger, auto)
  have ty: "GET_TYPE (m a) = OTHER_TYPE" "\<not> TAG_IS_FORWARD (m a)" "m a \<noteq> SEGSTALL_TAG" "m a \<noteq> SEGPROCEED_TAG"
    using u by (auto simp: tag_unat tag_consts word_unat_eq_iff)
  have ne: "OTHER_TYPE \<noteq> RECORD_TYPE" "OTHER_TYPE \<noteq> MIRROR_PTR_ARRAY_TYPE" "OTHER_TYPE \<noteq> WORD_ARRAY_TYPE"
    "OTHER_TYPE \<noteq> QUAD_ARRAY_TYPE" "OTHER_TYPE \<noteq> PTR_ARRAY_TYPE" by (simp_all add: tag_consts)
  have "bad_fields K hs sts m (a + 4) = []"
    using ty(1) ne by (simp add: bad_fields_def is_ptr_def otag_def)
  then show ?thesis
    using assms ty ne by (cases "ckFuel K") (simp_all add: show_obj_def Let_def)
qed

definition starts_marked :: "addr \<Rightarrow> addr list \<Rightarrow> bitmap option \<Rightarrow> bitmap option \<Rightarrow> bool" where
  \<comment> \<open>what becomes of the bitmap when the starts of the objects \<open>os\<close> are marked\<close>
  "starts_marked start os sm sm' \<longleftrightarrow> (case sm of None \<Rightarrow> sm' = None | Some b \<Rightarrow>
     \<exists>b'. sm' = Some b' \<and> bm_ok b' \<and> bsize b' = bsize b \<and>
       (\<forall>j. marked b' j \<longleftrightarrow> marked b j \<or> (\<exists>obj \<in> set os. j = (obj - start) div 4)))"

definition map_fits :: "addr \<Rightarrow> addr list \<Rightarrow> bitmap option \<Rightarrow> bool" where
  "map_fits start os sm \<longleftrightarrow> (\<forall>b. sm = Some b \<longrightarrow> bm_ok b \<and> (\<forall>obj \<in> set os. (obj - start) div 4 < bsize b))"

lemma mark_start:
  assumes "map_fits start (obj # os) sm"
  obtains sm' where "(case sm of None \<Rightarrow> Inr None | Some b \<Rightarrow> bindE (SetBitmapRange b ((obj - start) div 4) 1) (\<lambda>b. Inr (Some b))) = Inr sm'"
    "map_fits start os sm'" "\<And>sm''. starts_marked start os sm' sm'' \<Longrightarrow> starts_marked start (obj # os) sm sm''"
proof (cases sm)
  case None
  then show thesis using that [of None] assms by (simp add: starts_marked_def map_fits_def)
next
  case (Some b)
  have b: "bm_ok b" "(obj - start) div 4 + 1 \<le> bsize b" using assms Some by (auto simp: map_fits_def)
  obtain b' where b': "SetBitmapRange b ((obj - start) div 4) 1 = Inr b'" "bm_ok b'" "bsize b' = bsize b"
    "\<forall>j. marked b' j \<longleftrightarrow> marked b j \<or> (obj - start) div 4 \<le> j \<and> j < (obj - start) div 4 + 1"
    by (rule SetBitmapRange_spec [OF b])
  have "marked b' j \<longleftrightarrow> marked b j \<or> j = (obj - start) div 4" for j using b'(4) by auto
  then show thesis
    using that [of "Some b'"] assms Some b' by (auto simp: starts_marked_def map_fits_def)
qed

lemma scanHeapLoop_spec:
  assumes "heap_area (ckFuel K) m a os b" "legal_ok hs sts" "map_fits start os sm" "length os < fuel"
  shows "\<exists>sm'. scanHeapLoop fuel K a start b hs sts rt m sm = Inr (concat (map (bad_fields K hs sts m) os), sm') \<and>
    starts_marked start os sm sm'"
  using assms
proof (induction a os b arbitrary: fuel sm rule: heap_area.induct)
  case (area_end a)
  then show ?case
    by (cases fuel) (auto simp: starts_marked_def map_fits_def split: option.splits)
next
  case (area_object k a obj os b)
  obtain n where n: "fuel = Suc n" "length os < n" using area_object.prems(3) by (cases fuel) auto
  obtain sm1 where sm1: "(case sm of None \<Rightarrow> Inr None | Some b \<Rightarrow> bindE (SetBitmapRange b ((obj - start) div 4) 1) (\<lambda>b. Inr (Some b))) = Inr sm1"
    "map_fits start os sm1" "\<And>sm''. starts_marked start os sm1 sm'' \<Longrightarrow> starts_marked start (obj # os) sm sm''"
    by (rule mark_start [OF area_object.prems(2)]) blast
  have lt: "a < b" using heap_area_le [OF area_object.hyps(5)] area_object.hyps(3) by linarith
  show ?case
    using area_object.IH [OF area_object.prems(1) sm1(2) n(2)] lt sm1(1,3) area_object.hyps(3)
      show_obj_object [OF area_object.hyps(1-4) area_object.prems(1), of rt]
    by (force simp: n(1) NULL_def)
next
  case (area_skip a os b)
  obtain n where n: "fuel = Suc n" "length os < n" using area_skip.prems(3) by (cases fuel) auto
  obtain sm1 where sm1: "(case sm of None \<Rightarrow> Inr None | Some b \<Rightarrow> bindE (SetBitmapRange b ((a + 4 - start) div 4) 1) (\<lambda>b. Inr (Some b))) = Inr sm1"
    "map_fits start os sm1" "\<And>sm''. starts_marked start os sm1 sm'' \<Longrightarrow> starts_marked start ((a + 4) # os) sm sm''"
    by (rule mark_start [OF area_skip.prems(2)]) blast
  have pos: "0 < unat (GET_SKIPWORD (m a))" using area_skip.hyps(2) by (simp add: unat_gt_0)
  then have lt: "a < b" using heap_area_le [OF area_skip.hyps(4)] by linarith
  show ?case
    using area_skip.IH [OF area_skip.prems(1) sm1(2) n(2)] lt pos sm1(1,3)
      show_obj_skip [where m = m and a = a, OF area_skip.hyps(1-3), of rt hs sts]
    by (force simp: n(1) NULL_def)
qed

lemma scan_heap_ok:
  assumes "heap_area (ckFuel K) m start os finish" "legal_ok hs sts" "map_fits start os sm" "length os < fuel"
  shows "\<exists>sm'. scan_heap fuel K start finish hs sts rt m sm = Inr (concat (map (bad_fields K hs sts m) os), sm') \<and>
    (case sm of None \<Rightarrow> sm' = None | Some b \<Rightarrow> \<exists>b'. sm' = Some b' \<and> bm_ok b' \<and> bsize b' = bsize b \<and>
       (\<forall>j < bsize b. marked b' j \<longleftrightarrow> (\<exists>obj \<in> set os. j = (obj - start) div 4)))"
proof (cases sm)
  case None
  then show ?thesis
    using scanHeapLoop_spec [OF assms, of rt] by (auto simp: scan_heap_def starts_marked_def)
next
  case (Some b)
  have b: "bm_ok b" using assms(3) Some by (simp add: map_fits_def)
  obtain b0 where b0: "ClearBitmap b = Inr b0" "bm_ok b0" "bsize b0 = bsize b" "marks b0 = {}"
    by (rule ClearBitmap_spec [OF b])
  have "map_fits start os (Some b0)" using assms(3) Some b0 by (simp add: map_fits_def)
  from scanHeapLoop_spec [OF assms(1,2) this assms(4), of rt]
  obtain b' where b': "scanHeapLoop fuel K start start finish hs sts rt m (Some b0)
      = Inr (concat (map (bad_fields K hs sts m) os), Some b')" "bm_ok b'" "bsize b' = bsize b"
    "\<forall>j. marked b' j \<longleftrightarrow> marked b0 j \<or> (\<exists>obj \<in> set os. j = (obj - start) div 4)"
    using b0(3) by (auto simp: starts_marked_def)
  have "\<not> marked b0 j" if "j < bsize b" for j using b0(3,4) that by (auto simp: marks_def)
  then show ?thesis using b0(1) b' Some by (simp add: scan_heap_def)
qed


text \<open>A record that points at itself, a skip of one word, and a record with a pointer to nowhere.\<close>

definition demo_ckmem :: memory where
  "demo_ckmem a = (if a = 8192 \<or> a = 8204 then 265 else if a = 8196 then 8196 else if a = 8200 then 23 else
     if a = 8208 then 5000 else 0)"

definition demo_ckenv :: ckenv where
  "demo_ckenv = \<lparr>ckSenv = demo_senv, ckCfg = demo_config, ckMirrorArray = False, ckMirrorGlobal = False, ckFuel = 3\<rparr>"

lemma demo_ckarea: "heap_area 3 demo_ckmem 8192 [8196, 8204, 8208] 8212"
proof -
  have o: "plain_object demo_ckmem 8196" "olen demo_ckmem 8196 = 1" "plain_object demo_ckmem 8208" "olen demo_ckmem 8208 = 1"
    by (simp_all add: plain_object_def olen_def otag_def demo_ckmem_def tag_unat tag_consts word_unat_eq_iff drop_bit_unat)
  have "heap_area 3 demo_ckmem 8204 [8208] 8212"
    by (rule area_object [of 0]) (use o area_end [of 3 demo_ckmem 8212] in simp_all)
  moreover have "GET_SKIPWORD (demo_ckmem 8200) = 1" "IS_SKIP_TAG (demo_ckmem 8200)"
    by (simp_all add: demo_ckmem_def tag_unat word_unat_eq_iff)
  ultimately have "heap_area 3 demo_ckmem 8200 [8204, 8208] 8212"
    using area_skip [of demo_ckmem 8200 3 "[8208]" 8212] by simp
  then show ?thesis
    using area_object [of 0 demo_ckmem 8192 3 8196 "[8204, 8208]" 8212] o by simp
qed


subsection \<open>The check after a semispace collection\<close>

lemma tiles_area:
  assumes "\<forall>(p, t) \<in> set (layout m a ts). case t of None \<Rightarrow> m' p = MAKE_SKIP 1
      | Some x \<Rightarrow> m' p = otag m x \<and> plain_object m x" and "0 < g"
  shows "heap_area g m' a (map (\<lambda>(p, t). p + 4) (layout m a ts)) (lend m a ts)"
  using assms(1)
proof (induction ts arbitrary: a)
  case (Cons t ts)
  have rest: "heap_area g m' (a + 4 * tlen m t) (map (\<lambda>(p, t). p + 4) (layout m (a + 4 * tlen m t) ts)) (lend m a (t # ts))"
    using Cons by simp
  show ?case
  proof (cases t)
    case None
    have "GET_SKIPWORD (MAKE_SKIP 1) = 1" "IS_SKIP_TAG (MAKE_SKIP 1)"
      by (simp_all add: tag_unat word_unat_eq_iff)
    then show ?thesis using rest Cons.prems None assms(2) by (auto simp: tlen_def intro!: area_skip)
  next
    case (Some x)
    have "m' a = otag m x" and plain: "plain_object m x" using Cons.prems Some by simp_all
    then have tag: "otag m' (a + 4) = otag m x" by (simp add: otag_def)
    then have len: "olen m' (a + 4) = olen m x" by (simp add: olen_def)
    then have "plain_object m' (a + 4)" using plain by (simp add: plain_object_def tag)
    then show ?thesis
      using len rest area_object [of 0 m' a g "a + 4"] assms(2) Some by (simp add: tlen_def algebra_simps)
  qed
qed (simp add: area_end)

lemma layout_length: "a + 4 * length (layout m a ts) \<le> lend m a ts"
proof (induction ts arbitrary: a)
  case (Cons t ts)
  have "1 \<le> tlen m t" using tlen_pos [of m t] by linarith
  moreover have "a + 4 * tlen m t + 4 * length (layout m (a + 4 * tlen m t) ts) \<le> lend m (a + 4 * tlen m t) ts"
    by (rule Cons)
  ultimately show ?case by simp
qed simp

lemma tiled_area:
  assumes copies: "copies m sp X f m'" and tiled: "tiled m X f lo hi m'" and plain: "\<forall>x \<in> X. plain_object m x"
    and "0 < g" "0 < lo"
  obtains os where "heap_area g m' lo os hi" "\<forall>x \<in> X. f x \<in> set os" "lo + 4 * length os \<le> hi"
    "\<forall>obj \<in> set os. m' (obj - 4) = MAKE_SKIP 1 \<or> (\<exists>x \<in> X. obj = f x)"
proof -
  obtain ts where ts: "distinct (filter (\<lambda>t. t \<noteq> None) ts)" "copied ts = X" "\<forall>x \<in> X. f x = place m lo ts x" "hi = lend m lo ts"
    "\<forall>p. (p, None) \<in> set (layout m lo ts) \<longrightarrow> m' p = MAKE_SKIP 1"
    using tiled unfolding tiled_def by blast
  let ?os = "map (\<lambda>(p, t). p + 4) (layout m lo ts)"
  have at: "x \<in> X \<and> f x = p + 4" if "(p, Some x) \<in> set (layout m lo ts)" for p x
    using layout_tile [OF that] layout_place [OF that ts(1)] ts(2,3) by (auto simp: copied_def)
  have tag: "m' p = otag m x" if "(p, Some x) \<in> set (layout m lo ts)" for p x
  proof -
    have "m' (f x - 4) = otag m x" using copies at [OF that] unfolding copies_def by blast
    then show ?thesis using at [OF that] by simp
  qed
  have "heap_area g m' lo ?os hi"
    unfolding ts(4) by (rule tiles_area) (use ts(5) tag at plain assms(4) in \<open>auto split: option.splits\<close>)
  moreover have "f x \<in> set ?os" if x: "x \<in> X" for x
  proof -
    have "Some x \<in> set ts" using x ts(2) by (auto simp: copied_def)
    from place_layout [OF this, of m lo] obtain p where p: "(p, Some x) \<in> set (layout m lo ts)" "place m lo ts x = p + 4" by blast
    have "f x = (\<lambda>(p, t). p + 4) (p, Some x)" using ts(3) x p(2) by simp
    then show ?thesis unfolding set_map using p(1) by (rule image_eqI)
  qed
  moreover have "lo + 4 * length ?os \<le> hi" using layout_length [of lo m ts] ts(4) by simp
  moreover have "m' (obj - 4) = MAKE_SKIP 1 \<or> (\<exists>x \<in> X. obj = f x)" if mem_os: "obj \<in> set ?os" for obj
  proof -
    obtain e where e: "e \<in> set (layout m lo ts)" "obj = (\<lambda>(p, t). p + 4) e"
      using mem_os unfolding set_map by fast
    obtain p t where "e = (p, t)" by fastforce
    then have p: "(p, t) \<in> set (layout m lo ts)" "obj = p + 4" using e by simp_all
    show ?thesis
    proof (cases t)
      case None
      then show ?thesis using p ts(5) by auto
    next
      case (Some x)
      then show ?thesis using p at [of p x] by force
    qed
  qed
  ultimately show thesis using that by blast
qed

lemma copy_no_errors:
  \<comment> \<open>the fields of the copies are legal when every copy may be pointed at\<close>
  assumes copies: "copies m sp X f m'"
    and fields: "\<forall>x \<in> X. \<forall>i < olen m x. is_ptr m x i \<longrightarrow>
      (if InRange (unat (m (x + 4 * i))) sp then unat (m (x + 4 * i)) \<in> X else nonheapPointer (ckSenv K) (m (x + 4 * i)))"
    and legal: "\<forall>x \<in> X. legal_value hs sts (word_of_nat (f x))"
    and obj: "m' (obj - 4) = MAKE_SKIP 1 \<or> (\<exists>x \<in> X. obj = f x)"
  shows "bad_fields K hs sts m' obj = []"
  using obj
proof
  assume "m' (obj - 4) = MAKE_SKIP 1"
  moreover have "GET_TYPE (MAKE_SKIP 1) = OTHER_TYPE" by (simp add: tag_unat tag_consts word_unat_eq_iff)
  ultimately have "\<not> is_ptr m' obj i" for i by (simp add: is_ptr_def otag_def tag_consts)
  then show ?thesis by (simp add: bad_fields_def)
next
  assume "\<exists>x \<in> X. obj = f x"
  then obtain x where x: "x \<in> X" "obj = f x" by blast
  have tag: "otag m' obj = otag m x" using copies x by (auto simp: copies_def otag_def)
  then have s: "olen m' obj = olen m x" "is_ptr m' obj i = is_ptr m x i" for i by (simp_all add: olen_def is_ptr_def)
  have "\<not> badPointer K hs sts (m' (obj + 4 * i))" if i: "i < olen m x" "is_ptr m x i" for i
  proof -
    have v: "m' (obj + 4 * i) = reloc sp f (m (x + 4 * i))" using copies x i by (auto simp: copies_def)
    show ?thesis
    proof (cases "InRange (unat (m (x + 4 * i))) sp")
      case True
      then show ?thesis using fields x(1) i legal by (auto simp: v reloc_def badPointer_def)
    next
      case False
      then show ?thesis using fields x(1) i by (auto simp: v reloc_def badPointer_def)
    qed
  qed
  then show ?thesis by (auto simp: bad_fields_def s filter_empty_conv)
qed

lemma inHeapI:
  assumes "hbottom h \<le> v" "v < hbottom h + heap.hsize h" "hbottom h + heap.hsize h \<le> 2 ^ 32" "0 < hbottom h"
  shows "inHeap v h"
proof -
  have "word_of_nat v - word_of_nat (hbottom h) = (word_of_nat (v - hbottom h) :: 32 word)"
    using assms(1) by simp
  moreover have "v - hbottom h < 2 ^ 32" "heap.hsize h < 2 ^ 32" using assms by linarith+
  ultimately show ?thesis
    using assms unfolding inHeap_def by (simp add: word_less_nat_alt del: of_nat_diff)
qed

lemma to_space_checked:
  \<comment> \<open>both passes over the space that the copies of \<open>X\<close> fill\<close>
  assumes rel: "copies m sp X f m'" "tiled m X f (hbottom h) (hcursor h) m'" "\<forall>x \<in> X. plain_object m x"
    "\<forall>x \<in> X. hbottom h + 4 \<le> f x \<and> f x \<le> hcursor h"
    and fields: "\<forall>x \<in> X. \<forall>i < olen m x. is_ptr m x i \<longrightarrow>
      (if InRange (unat (m (x + 4 * i))) sp then unat (m (x + 4 * i)) \<in> X else nonheapPointer (ckSenv K) (m (x + 4 * i)))"
    and h: "0 < hbottom h" "hcursor h < hbottom h + heap.hsize h" "hbottom h + heap.hsize h \<le> 2 ^ 32"
      "hstarts h = Some b" "bm_ok b" "hcursor h < hbottom h + 4 * bsize b"
    and fuel: "0 < ckFuel K" "hcursor h < hbottom h + 4 * fuel"
    and k: "ckMem k = m'" "cheap ts (ckCol k) = h"
  shows "\<exists>k1. paranoid_check_heap_without_start fuel K ts None rt k = Inr k1 \<and> ckErrors k1 = ckErrors k \<and>
    paranoid_check_heap_with_start fuel K ts (Some [ts]) (Some [ts]) rt k1 = Inr k1"
proof -
  obtain os where area: "heap_area (ckFuel K) m' (hbottom h) os (hcursor h)" and all: "\<forall>x \<in> X. f x \<in> set os"
    and len: "hbottom h + 4 * length os \<le> hcursor h"
    and each: "\<forall>obj \<in> set os. m' (obj - 4) = MAKE_SKIP 1 \<or> (\<exists>x \<in> X. obj = f x)"
    by (rule tiled_area [OF rel(1-3) fuel(1) h(1)]) blast
  have len: "length os < fuel" using len fuel(2) by linarith
  have pos: "(obj - hbottom h) div 4 < bsize b" if "obj \<in> set os" for obj
  proof -
    have "obj - hbottom h < bsize b * 4" using heap_area_bounds [OF area that] h(6) by linarith
    then show ?thesis by (simp add: div_less_iff_less_mult)
  qed
  have none: "concat (map (bad_fields K hs sts m') os) = []" if "\<forall>x \<in> X. legal_value hs sts (word_of_nat (f x))" for hs sts
    using copy_no_errors [OF rel(1) fields that] each by auto
  obtain b' where b': "scan_heap fuel K (hbottom h) (hcursor h) None None rt m' (Some b) = Inr ([], Some b')" "bm_ok b'" "bsize b' = bsize b"
    "\<forall>j < bsize b. marked b' j \<longleftrightarrow> (\<exists>obj \<in> set os. j = (obj - hbottom h) div 4)"
    using scan_heap_ok [OF area _ _ len, of None None "Some b" rt] pos h(5) none [of None None]
    by (auto simp: map_fits_def legal_value_def)
  let ?h = "h\<lparr>hstarts := Some b'\<rparr>" and ?c = "setHeap ts (h\<lparr>hstarts := Some b'\<rparr>) (ckCol k)"
  have ok: "legal_ok (Some [?h]) (Some [Some b', None])"
    using b'(2) by (simp add: legal_ok_def bm_ok_def bm_len_def)
  have "legal_value (Some [?h]) (Some [Some b', None]) (word_of_nat (f x))" if x: "x \<in> X" for x
  proof -
    have bounds: "hbottom h \<le> f x" "f x < hbottom h + heap.hsize h" "f x < 2 ^ 32" using rel(4) h(2,3) x by fastforce+
    have "inHeap (f x) ?h" by (rule inHeapI) (use bounds h(1,3) in simp_all)
    moreover have "(f x - hbottom h) div 4 < bsize b'" "marked b' ((f x - hbottom h) div 4)"
      using b'(3,4) pos all x by auto
    ultimately show ?thesis using bounds(3) by (simp add: legal_value_def legal_start_def)
  qed
  then have "scan_heap fuel K (hbottom h) (hcursor h) (Some [?h]) (Some [Some b', None]) rt m' None = Inr ([], None)"
    using scan_heap_ok [OF area ok _ len, of None rt] none [of "Some [?h]" "Some [Some b', None]"] by (auto simp: map_fits_def)
  then show ?thesis
    using b'(1) k h(4)
    by (intro exI [of _ "k\<lparr>ckCol := ?c\<rparr>"])
      (simp add: paranoid_check_heap_without_start_def paranoid_check_heap_with_start_def ckHeaps_def ckStarts_def
        addErrors_def cheap_def setHeap_def ckMem_def colMem_def Let_def)
qed

text \<open>C5: After the copy phase of a semispace collection the heap checker accepts to-space: its first pass
  parses the space and its second pass finds every pointer at the start of an object of the space or
  outside the heaps, provided the reachable objects held no other pointers before.\<close>

theorem collection_passes_check:
  assumes cfg: "arraySegmentSize cfg = 0" "ordering cfg = ImplicitOrder" "\<not> forceSpaceCheck cfg"
    and mprot: "\<forall>a n. mprot a n"
    and heaps: "fs \<noteq> ts" "heap_ok (hp s fs)" "heap_ok (hp s ts)"
      "Heap_GetSize (hp s fs) \<le> Heap_GetMaximumSize (hp s ts)"
    and cr: "crHeap (copyRg s) \<noteq> Some ts"
    and lists: "set_ok (roots (work s))" "set_ok (globals (work s))"
    and R: "R = set (set_items (roots (work s))) \<union> set (set_items (globals (work s)))" "NULL \<notin> R"
    and X: "X = reach (mem s) (hrange (hp s fs)) R"
    and env: "env_ok (semi_env fs ts R s)" "\<forall>l \<in> R. root_loc (semi_env fs ts R s) l"
    and fits: "4 * (\<Sum>x \<in> X. osize (mem s) x) \<le> Heap_GetSize (hp s fs)"
    and fuel: "length (set_items (roots (work s))) < fuel" "length (set_items (globals (work s))) < fuel"
      "(\<Sum>x \<in> X. osize (mem s) x) < fuel" "0 < ckFuel K"
    and plain: "\<forall>x \<in> X. plain_object (mem s) x"
    and fields: "\<forall>x \<in> X. \<forall>i < olen (mem s) x. is_ptr (mem s) x i \<longrightarrow>
      InRange (unat (mem s (x + 4 * i))) (hrange (hp s fs)) \<or> nonheapPointer (ckSenv K) (mem s (x + 4 * i))"
  shows "\<exists>s'. GCCollect_Semi_copy fuel cfg mprot paranoid fs ts s = Inr s' \<and>
    (\<forall>k b h. ckMem k = mem s' \<and> cheap ts (ckCol k) = h \<and> hbottom h = hbottom (hp s ts) \<and> hcursor h = hcursor (hp s' ts) \<and>
       hbottom h + heap.hsize h \<le> 2 ^ 32 \<and> 4 * (\<Sum>x \<in> X. osize (mem s) x) < heap.hsize h \<and>
       hstarts h = Some b \<and> bm_ok b \<and> (\<Sum>x \<in> X. osize (mem s) x) < bsize b \<longrightarrow>
       (\<exists>k1. paranoid_check_heap_without_start fuel K ts None rt k = Inr k1 \<and> ckErrors k1 = ckErrors k \<and>
          paranoid_check_heap_with_start fuel K ts (Some [ts]) (Some [ts]) rt k1 = Inr k1))"
proof -
  let ?n = "\<Sum>x \<in> X. osize (mem s) x" and ?b = "hbottom (hp s ts)"
  obtain s' f where s': "GCCollect_Semi_copy fuel cfg mprot paranoid fs ts s = Inr s'"
    and rel: "relocated (mem s) (hrange (hp s fs)) R X f ?b (hcursor (hp s' ts)) (?b + 4 * ?n) (mem s')"
    and top: "hcursor (hp s' ts) \<le> ?b + 4 * ?n"
    using semi_copy_correct [OF cfg mprot heaps cr lists R X env fits fuel(1,2) less_imp_le [OF fuel(3)]] by blast
  have fields': "\<forall>x \<in> X. \<forall>i < olen (mem s) x. is_ptr (mem s) x i \<longrightarrow> (if InRange (unat (mem s (x + 4 * i))) (hrange (hp s fs))
      then unat (mem s (x + 4 * i)) \<in> X else nonheapPointer (ckSenv K) (mem s (x + 4 * i)))"
    using fields reach.field [of _ "mem s" "hrange (hp s fs)" R] by (auto simp: X)
  have copies: "copies (mem s) (hrange (hp s fs)) X f (mem s')" "tiled (mem s) X f ?b (hcursor (hp s' ts)) (mem s')"
    "\<forall>x \<in> X. ?b + 4 \<le> f x \<and> f x \<le> hcursor (hp s' ts)"
    using rel unfolding relocated_def by auto
  have lo: "0 < ?b" using heaps(3) by (simp add: heap_ok_def)
  have "\<exists>k1. paranoid_check_heap_without_start fuel K ts None rt k = Inr k1 \<and> ckErrors k1 = ckErrors k \<and>
      paranoid_check_heap_with_start fuel K ts (Some [ts]) (Some [ts]) rt k1 = Inr k1"
    if "ckMem k = mem s'" "cheap ts (ckCol k) = h" "hbottom h = hbottom (hp s ts)" "hcursor h = hcursor (hp s' ts)"
      "hbottom h + heap.hsize h \<le> 2 ^ 32" "4 * ?n < heap.hsize h" "hstarts h = Some b" "bm_ok b" "?n < bsize b" for k b h
    by (rule to_space_checked [where X = X and f = f and m = "mem s" and h = h and b = b, OF _ _ plain _ fields' _ _ that(5,7,8) _ fuel(4) _ that(1,2)])
      (use copies lo top fuel(3) that in simp_all)
  then show ?thesis using s' by blast
qed

definition demo_checker :: "memory \<Rightarrow> heap \<Rightarrow> checker" where
  "demo_checker m h = \<lparr>ckCol = setCmem m (setHeap 1 (h\<lparr>hbottom := 32768, heap.hsize := 16384, hstarts := Some (CreateBitmap 4096)\<rparr>)
     demo_collector), ckErrors = [], ckRegVal = 42000, ckStkVal = 62000\<rparr>"

theorem collection_passes_check_witness:
  "\<exists>s' k k1. GCCollect_Semi_copy 10 demo_config (\<lambda>_ _. True) False 0 1 demo_semi = Inr s' \<and> k = demo_checker (mem s') (hp s' 1) \<and>
    paranoid_check_heap_without_start 10 demo_ckenv 1 None OtherReplica k = Inr k1 \<and>
    paranoid_check_heap_with_start 10 demo_ckenv 1 (Some [1]) (Some [1]) OtherReplica k1 = Inr k1 \<and> ckErrors k1 = []"
proof -
  let ?X = "{8200, 8212} :: addr set"
  have to: "heap_ok demo_to"
    by (simp add: heap_ok_def demo_to_def TILT_PAGESIZE_def)
  have E: "env_ok (semi_env 0 1 {100} demo_semi)"
    unfolding env_ok_def semi_env_sel demo_semi_sel demo_range demo_reach
    by (simp add: demo_tags demo_words demo_to_def range_ok_def SetRange_def)
  have R: "\<forall>l \<in> {100}. root_loc (semi_env 0 1 {100} demo_semi) l"
    unfolding root_loc_def semi_env_sel demo_semi_sel demo_range demo_reach
    by (simp add: demo_tags demo_to_def demo_mem_def)
  have cfg: "arraySegmentSize demo_config = 0" "ordering demo_config = ImplicitOrder" "\<not> forceSpaceCheck demo_config"
    by (simp_all add: demo_config_def)
  have sizes: "Heap_GetSize demo_heap = 400" "Heap_GetMaximumSize demo_to = 16384"
    unfolding heap_ok_sizes(2) [OF demo_heap_ok] heap_ok_sizes(1) [OF to] by (simp_all add: demo_heap_def demo_to_def)
  have "GET_RECMASK (MAKE_REC 2 1) = 1" "GET_RECMASK (MAKE_REC 1 1) = 1"
    by code_simp+
  then have plain: "\<forall>x \<in> ?X. plain_object demo_mem x"
    by (simp add: plain_object_def demo_tags demo_words)
  have fields: "\<forall>x \<in> ?X. \<forall>i < olen demo_mem x. is_ptr demo_mem x i \<longrightarrow>
      InRange (unat (demo_mem (x + 4 * i))) (SetRange 8192 24576) \<or> nonheapPointer (ckSenv demo_ckenv) (demo_mem (x + 4 * i))"
    by (simp add: demo_tags demo_InRange demo_words)
  have fuel: "0 < ckFuel demo_ckenv" by (simp add: demo_ckenv_def)
  have "\<exists>s'. GCCollect_Semi_copy 10 demo_config (\<lambda>_ _. True) False 0 1 demo_semi = Inr s' \<and>
    (\<forall>k b h. ckMem k = mem s' \<and> cheap 1 (ckCol k) = h \<and> hbottom h = hbottom (hp demo_semi 1) \<and> hcursor h = hcursor (hp s' 1) \<and>
       hbottom h + heap.hsize h \<le> 2 ^ 32 \<and> 4 * (\<Sum>x \<in> ?X. osize (mem demo_semi) x) < heap.hsize h \<and>
       hstarts h = Some b \<and> bm_ok b \<and> (\<Sum>x \<in> ?X. osize (mem demo_semi) x) < bsize b \<longrightarrow>
       (\<exists>k1. paranoid_check_heap_without_start 10 demo_ckenv 1 None OtherReplica k = Inr k1 \<and> ckErrors k1 = ckErrors k \<and>
          paranoid_check_heap_with_start 10 demo_ckenv 1 (Some [1]) (Some [1]) OtherReplica k1 = Inr k1))"
    by (rule collection_passes_check [OF cfg _ _ _ _ _ _ _ _ _ _ _ E R])
      (use plain fields fuel in \<open>simp_all add: demo_semi_sel demo_range demo_reach demo_tags demo_heap_ok to sizes NULL_def del: One_nat_def\<close>)
  moreover have "(\<Sum>x \<in> ?X. osize (mem demo_semi) x) = 5" "hbottom (hp demo_semi 1) = 32768"
    by (simp_all add: demo_semi_sel demo_tags demo_to_def del: One_nat_def)
  ultimately have ex: "\<exists>s'. GCCollect_Semi_copy 10 demo_config (\<lambda>_ _. True) False 0 1 demo_semi = Inr s' \<and>
    (\<forall>k b h. ckMem k = mem s' \<and> cheap 1 (ckCol k) = h \<and> hbottom h = 32768 \<and> hcursor h = hcursor (hp s' 1) \<and>
       hbottom h + heap.hsize h \<le> 2 ^ 32 \<and> 4 * 5 < heap.hsize h \<and> hstarts h = Some b \<and> bm_ok b \<and> 5 < bsize b \<longrightarrow>
       (\<exists>k1. paranoid_check_heap_without_start 10 demo_ckenv 1 None OtherReplica k = Inr k1 \<and> ckErrors k1 = ckErrors k \<and>
          paranoid_check_heap_with_start 10 demo_ckenv 1 (Some [1]) (Some [1]) OtherReplica k1 = Inr k1))"
    by (simp only:)
  obtain s' where s': "GCCollect_Semi_copy 10 demo_config (\<lambda>_ _. True) False 0 1 demo_semi = Inr s'"
    and check: "\<And>k b h. ckMem k = mem s' \<Longrightarrow> cheap 1 (ckCol k) = h \<Longrightarrow> hbottom h = 32768 \<Longrightarrow> hcursor h = hcursor (hp s' 1) \<Longrightarrow>
       hbottom h + heap.hsize h \<le> 2 ^ 32 \<Longrightarrow> 4 * 5 < heap.hsize h \<Longrightarrow> hstarts h = Some b \<Longrightarrow> bm_ok b \<Longrightarrow> 5 < bsize b \<Longrightarrow>
       \<exists>k1. paranoid_check_heap_without_start 10 demo_ckenv 1 None OtherReplica k = Inr k1 \<and> ckErrors k1 = ckErrors k \<and>
          paranoid_check_heap_with_start 10 demo_ckenv 1 (Some [1]) (Some [1]) OtherReplica k1 = Inr k1"
    using ex by (elim exE conjE) blast
  let ?k = "demo_checker (mem s') (hp s' 1)"
  have "ckMem ?k = mem s'" "ckErrors ?k = []"
    "cheap 1 (ckCol ?k) = (hp s' 1)\<lparr>hbottom := 32768, heap.hsize := 16384, hstarts := Some (CreateBitmap 4096)\<rparr>"
    by (simp_all add: demo_checker_def ckMem_def colMem_def setCmem_def cheap_def setHeap_def)
  moreover have "bm_ok (CreateBitmap 4096)" "bsize (CreateBitmap 4096) = 4096"
    using CreateBitmap_ok [of 4096] by (simp_all add: CreateBitmap_def)
  ultimately show ?thesis using s' check [of ?k _ "CreateBitmap 4096"] by (simp del: One_nat_def) blast
qed

end
