(* ===== verification/SharedStack.thy ===== *)
theory SharedStack
  imports Sets Doubles
begin

text \<open>
  The shared work stack of the parallel collectors: \<open>Runtime/sparc/gc_para.c\<close>, with the local work
  of \<open>thread.c\<close> (lines 408 to 451) and \<open>sparc.h\<close> (lines 488 to 524).

  A processor that collects keeps its gray objects in \<open>LocalWork_t\<close>.  Here the ten sets of that
  struct are a function of the field name, the type \<open>wfield\<close>, because the shared stack treats all
  of them alike (theory \<open>GcState\<close> has the same struct with one field for each).  It fetches work with \<open>popSharedStack\<close> (room 0) and gives it back with
  \<open>pushSharedStack\<close> (rooms 1 and 2).  Inside a room several processors move items at the same time;
  they reserve the cells they read or write with one \<open>FetchAndAdd\<close> on \<open>last\<close>.  The first part of the
  theory gives the operations run alone.  The second part splits the two transfers at their accesses
  to the shared \<open>last\<close> and proves that any interleaving of them hands every item to exactly one
  processor.  The third part is the detection of termination by \<open>numLocalStack\<close>.

  Rooms keep pops and pushes apart (theory \<open>Rooms\<close>); the third part takes each operation as one
  step.  \<open>MakeFraction\<close> computes in double precision: the rounding of the machine is the
  parameter \<open>rnd\<close>.
\<close>

subsection \<open>Local work\<close>

datatype wfield =
  Objs | GrayRegion | Globals | Roots | Segments | StackletSet | BackObjs | BackLocs | NextBackObjs | NextBackLocs

record workArea =
  lset :: "wfield \<Rightarrow> pset"
  hasShared :: int

definition init_localWork :: "nat \<Rightarrow> nat \<Rightarrow> nat \<Rightarrow> nat \<Rightarrow> nat \<Rightarrow> nat \<Rightarrow> nat \<Rightarrow> workArea" where
  "init_localWork objSize segSize globalSize rootSize stackletSize backObjSize backLocSize =
     \<lparr>lset = (\<lambda>f. case f of
         Objs \<Rightarrow> SetInit objSize
       | GrayRegion \<Rightarrow> SetInit 2048
       | Segments \<Rightarrow> SetInit segSize
       | Globals \<Rightarrow> SetInit globalSize
       | Roots \<Rightarrow> SetInit rootSize
       | StackletSet \<Rightarrow> SetInit stackletSize
       | BackObjs \<Rightarrow> SetInit backObjSize
       | BackLocs \<Rightarrow> SetInit backLocSize
       | NextBackObjs \<Rightarrow> SetInit backObjSize
       | NextBackLocs \<Rightarrow> SetInit backLocSize),
      hasShared = 0\<rparr>"

definition isLocalWorkAlmostEmpty :: "workArea \<Rightarrow> bool" where
  "isLocalWorkAlmostEmpty lw \<longleftrightarrow>
     SetIsEmpty (lset lw StackletSet) \<and> SetIsEmpty (lset lw Globals) \<and> SetIsEmpty (lset lw Roots) \<and>
     SetIsEmpty (lset lw Objs) \<and> SetIsEmpty (lset lw GrayRegion) \<and> SetIsEmpty (lset lw Segments) \<and>
     hasShared lw = 0"

definition isLocalWorkEmpty :: "workArea \<Rightarrow> bool" where
  "isLocalWorkEmpty lw \<longleftrightarrow>
     SetIsEmpty (lset lw StackletSet) \<and> SetIsEmpty (lset lw Globals) \<and> SetIsEmpty (lset lw Roots) \<and>
     SetIsEmpty (lset lw Objs) \<and> SetIsEmpty (lset lw GrayRegion) \<and> SetIsEmpty (lset lw Segments) \<and>
     SetIsEmpty (lset lw BackObjs) \<and> SetIsEmpty (lset lw BackLocs) \<and> hasShared lw = 0"

definition setField :: "wfield \<Rightarrow> pset \<Rightarrow> workArea \<Rightarrow> workArea" where
  "setField f s lw = lw\<lparr>lset := (lset lw)(f := s)\<rparr>"

subsection \<open>The shared stack\<close>

record sharedStack =
  ssWork :: workArea
  doubleProcess :: bool
  numLocalStack :: int
  numPush :: int
  numPop :: int

definition internalIsEmptySharedStack :: "sharedStack \<Rightarrow> bool" where
  "internalIsEmptySharedStack ss \<longleftrightarrow> isLocalWorkEmpty (ssWork ss) \<and> numLocalStack ss = 0"

datatype stackCode = NoCode | OkCode | StackEmpty | StackNotEmpty
  \<comment> \<open>what \<open>exitRoom\<close> returns: 0, 1, or the value of the finalizer\<close>

definition finalizer :: "sharedStack \<Rightarrow> stackCode" where
  "finalizer ss = (if internalIsEmptySharedStack ss then StackEmpty else StackNotEmpty)"

definition SharedStack_Alloc ::
    "bool \<Rightarrow> nat \<Rightarrow> nat \<Rightarrow> nat \<Rightarrow> nat \<Rightarrow> nat \<Rightarrow> nat \<Rightarrow> nat \<Rightarrow> sharedStack" where
  "SharedStack_Alloc dbl stackletSize globalLocSize rootLocSize objSize segmentSize backObjSize backLocSize =
     \<lparr>ssWork = init_localWork objSize segmentSize globalLocSize rootLocSize stackletSize objSize backLocSize,
      doubleProcess = dbl, numLocalStack = 0, numPush = 0, numPop = 0\<rparr>"

definition moveToSharedStack :: "pset \<Rightarrow> pset \<Rightarrow> (pset \<times> pset) result" where
  \<comment> \<open>the new \<open>to\<close> and the new \<open>from\<close>\<close>
  "moveToSharedStack to from =
     (let num = SetLength from; old = slast to; to = to\<lparr>slast := old + num\<rparr> in
      if slast to \<ge> slimit to \<and> slimit to > 0 then Inl (Die ''shared stack overflow'')
      else bindE (blit (sdata to) old (take num (drop (sfirst from) (sdata from)))) (\<lambda>d.
           Inr (to\<lparr>sdata := d\<rparr>, from\<lparr>slast := 0\<rparr>)))"

definition fetchSplit :: "int \<Rightarrow> int \<Rightarrow> int \<times> int \<times> bool" where
  \<comment> \<open>from the value \<open>old\<close> of \<open>last\<close> before the subtraction: the number of items fetched, where they
      start, and whether \<open>last\<close> is set back to \<open>data\<close>\<close>
  "fetchSplit old num =
     (let new = old - num in
      if old \<le> 0 then (0, new, True)
      else if new < 0 then (let num = num - (0 - new) in (num, old - num, True))
      else (num, new, False))"

definition getFromSharedStack :: "pset \<Rightarrow> pset \<Rightarrow> int \<Rightarrow> (int \<times> pset \<times> pset) result" where
  \<comment> \<open>the number of items fetched, the new \<open>to\<close> and the new \<open>from\<close>\<close>
  "getFromSharedStack to from numToFetch =
     (let old = int (slast from) in
      case fetchSplit old numToFetch of (num, new, reset) \<Rightarrow>
      bindE (assertE (old \<le> 0 \<or> 0 < num \<or> \<not> reset) ''numToFetch > 0'') (\<lambda>_.
      bindE (blit (sdata to) (slast to) (take (nat num) (drop (nat new) (sdata from)))) (\<lambda>d.
      bindE (assertE (slast to + nat num < slimit to) ''to->last < to->limit'') (\<lambda>_.
      Inr (num, to\<lparr>sdata := d, slast := slast to + nat num\<rparr>,
           from\<lparr>slast := nat (if reset then 0 else old - numToFetch)\<rparr>)))))"

definition isEmptySharedStack :: "sharedStack \<Rightarrow> bool" where
  "isEmptySharedStack ss = internalIsEmptySharedStack ss"

definition resetSharedStack :: "sharedStack \<Rightarrow> workArea \<Rightarrow> bool \<Rightarrow> (sharedStack \<times> workArea) result" where
  "resetSharedStack ss lw getNext =
     bindE (assertE (hasShared lw = 0) ''lw->hasShared == 0'') (\<lambda>_.
     let lw = lw\<lparr>hasShared := 1\<rparr>; position = numLocalStack ss;
         ss = ss\<lparr>numLocalStack := numLocalStack ss + 1\<rparr> in
     if position = 0 \<and> getNext then
       bindE (assertE (doubleProcess ss) ''ss->doubleProcess'') (\<lambda>_.
       bindE (SetTransfer (lset (ssWork ss) NextBackObjs) (lset (ssWork ss) BackObjs)) (\<lambda>(no, bo).
       let w = setField BackObjs bo (setField NextBackObjs no (ssWork ss)) in
       bindE (SetTransfer (lset w NextBackLocs) (lset w BackLocs)) (\<lambda>(nl, bl).
       Inr (ss\<lparr>ssWork := setField BackLocs bl (setField NextBackLocs nl w)\<rparr>, lw))))
     else Inr (ss, lw))"

definition discardNextSharedStack :: "sharedStack \<Rightarrow> sharedStack" where
  "discardNextSharedStack ss =
     (let w = ssWork ss; w = setField NextBackObjs (SetReset (lset w NextBackObjs)) w in
      ss\<lparr>ssWork := setField NextBackLocs (SetReset (lset w NextBackLocs)) w\<rparr>)"


subsection \<open>Fetching and giving back work\<close>

definition MakeFraction :: "(real \<Rightarrow> real) \<Rightarrow> int \<Rightarrow> int \<Rightarrow> int \<Rightarrow> int" where
  "MakeFraction rnd a b c = ctrunc (rnd (of_int a * rnd (of_int (b - c) / of_int b)))"

record fetchSizes =
  threadFetchSize :: int
  globalLocFetchSize :: int
  rootLocFetchSize :: int
  grayRegionFetchSize :: int
  objFetchSize :: int
  segFetchSize :: int
  backObjFetchSize :: int
  backLocFetchSize :: int

definition defaultFetchSizes :: fetchSizes where
  "defaultFetchSizes = \<lparr>threadFetchSize = 1, globalLocFetchSize = 1000, rootLocFetchSize = 1000,
     grayRegionFetchSize = 2, objFetchSize = 100, segFetchSize = 2, backObjFetchSize = 2,
     backLocFetchSize = 100\<rparr>"

definition segSize :: int where "segSize = 3"
definition regionSize :: int where "regionSize = 2"

fun popCascade ::
    "(real \<Rightarrow> real) \<Rightarrow> (wfield \<times> int \<times> int) list \<Rightarrow> int \<Rightarrow> workArea \<Rightarrow> workArea \<Rightarrow>
     (bool \<times> workArea \<times> workArea) result" where
  \<comment> \<open>The entries are a set, the number of cells of one item, and the full request.  \<open>request\<close> is the
      reduced request for the first entry; a reduced request of 0 is the jump to \<open>done\<close>.\<close>
  "popCascade rnd [] request w lw = Inr (False, w, lw)"
| "popCascade rnd ((f, unit, full) # rest) request w lw =
     bindE (getFromSharedStack (lset lw f) (lset w f) (unit * request)) (\<lambda>(n, to, from).
     let fetched = n div unit; w = setField f from w; lw = setField f to lw in
     (case rest of
        [] \<Rightarrow> Inr (fetched \<noteq> 0, w, lw)
      | (g, unit', full') # rest' \<Rightarrow>
          let request' = MakeFraction rnd full' request fetched in
          if request' = 0 then Inr (fetched \<noteq> 0, w, lw)
          else bindE (popCascade rnd rest request' w lw) (\<lambda>(any, w, lw).
               Inr (fetched \<noteq> 0 \<or> any, w, lw))))"

definition objRequestOf :: "(real \<Rightarrow> real) \<Rightarrow> fetchSizes \<Rightarrow> nat \<Rightarrow> nat \<Rightarrow> int" where
  "objRequestOf rnd fs NumProc objSize =
     min (objFetchSize fs) (1 + ctrunc (rnd (of_nat objSize / of_nat NumProc)))"

definition popOrder :: "fetchSizes \<Rightarrow> int \<Rightarrow> (wfield \<times> int \<times> int) list" where
  "popOrder fs objRequest =
     [(StackletSet, 1, threadFetchSize fs), (Globals, 1, globalLocFetchSize fs),
      (Roots, 1, rootLocFetchSize fs), (GrayRegion, regionSize, grayRegionFetchSize fs),
      (Objs, 1, objRequest), (Segments, segSize, segFetchSize fs),
      (BackObjs, 1, backObjFetchSize fs), (BackLocs, 1, backLocFetchSize fs)]"

definition popSharedStack ::
    "(real \<Rightarrow> real) \<Rightarrow> fetchSizes \<Rightarrow> nat \<Rightarrow> sharedStack \<Rightarrow> workArea \<Rightarrow> (sharedStack \<times> workArea) result" where
  "popSharedStack rnd fs NumProc ss lw =
     (let objRequest = objRequestOf rnd fs NumProc (SetLength (lset (ssWork ss) Objs)) in
      bindE (popCascade rnd (popOrder fs objRequest) (threadFetchSize fs) (ssWork ss) lw) (\<lambda>(any, w, lw).
      bindE (assertE (numLocalStack ss \<ge> 0) ''ss->numLocalStack >= 0'') (\<lambda>_.
      if any then
        bindE (assertE (hasShared lw = 0) ''lw->hasShared == 0'') (\<lambda>_.
        Inr (ss\<lparr>ssWork := w, numLocalStack := numLocalStack ss + 1, numPop := numPop ss + 1\<rparr>,
             lw\<lparr>hasShared := 1\<rparr>))
      else Inr (ss\<lparr>ssWork := w, numPop := numPop ss + 1\<rparr>, lw))))"

fun moveAll :: "wfield list \<Rightarrow> workArea \<Rightarrow> workArea \<Rightarrow> (workArea \<times> workArea) result" where
  "moveAll [] w lw = Inr (w, lw)"
| "moveAll (f # fs) w lw =
     bindE (moveToSharedStack (lset w f) (lset lw f)) (\<lambda>(to, from).
     moveAll fs (setField f to w) (setField f from lw))"

definition helpPushSharedStack :: "sharedStack \<Rightarrow> workArea \<Rightarrow> (sharedStack \<times> workArea) result" where
  "helpPushSharedStack ss lw =
     bindE (moveAll [StackletSet, Globals, Roots, Objs, GrayRegion, Segments, BackObjs, BackLocs]
              (ssWork ss) lw) (\<lambda>(w, lw).
     bindE (if doubleProcess ss then moveAll [NextBackObjs, NextBackLocs] w lw else Inr (w, lw)) (\<lambda>(w, lw).
     Inr (ss\<lparr>ssWork := w\<rparr>, lw)))"

definition pushExitCode :: "bool \<Rightarrow> bool \<Rightarrow> sharedStack \<Rightarrow> stackCode" where
  \<comment> \<open>\<open>exitRoom\<close>: only the last processor to leave gets the code of the room; room 2 has no finalizer\<close>
  "pushExitCode conditional isLast ss =
     (if isLast then (if conditional then OkCode else finalizer ss) else NoCode)"

definition pushSharedStack ::
    "bool \<Rightarrow> bool \<Rightarrow> sharedStack \<Rightarrow> workArea \<Rightarrow> (bool \<times> sharedStack \<times> workArea) result" where
  \<comment> \<open>\<open>isLast\<close>: the processor is the last to leave the room\<close>
  "pushSharedStack conditional isLast ss lw =
     bindE (helpPushSharedStack ss lw) (\<lambda>(ss, lw).
     bindE (if \<not> conditional then
              (if hasShared lw = 1
               then Inr (ss\<lparr>numLocalStack := numLocalStack ss - 1\<rparr>, lw\<lparr>hasShared := 0\<rparr>)
               else Inr (ss, lw))
            else bindE (assertE (hasShared lw = 0) ''lw->hasShared == 0'') (\<lambda>_. Inr (ss, lw))) (\<lambda>(ss, lw).
     bindE (assertE (numLocalStack ss \<ge> 0) ''ss->numLocalStack >= 0'') (\<lambda>_.
     Inr (pushExitCode conditional isLast ss = StackEmpty, ss\<lparr>numPush := numPush ss + 1\<rparr>, lw))))"

subsection \<open>The two transfers, run alone\<close>

definition base_ok :: "pset \<Rightarrow> bool" where
  \<comment> \<open>a set that has never been dequeued from\<close>
  "base_ok s \<longleftrightarrow> set_ok s \<and> sfirst s = 0"

lemma base_items: "base_ok s \<Longrightarrow> set_items s = take (slast s) (sdata s)"
  by (simp add: base_ok_def set_items_def)

lemma base_length: "base_ok s \<Longrightarrow> length (set_items s) = slast s"
  by (simp add: base_ok_def length_set_items SetLength_def)

lemma moveToSharedStack_ok:
  assumes "base_ok to" and "base_ok from" and fit: "slast to + slast from < ssize to"
  shows "\<exists>to' from'. moveToSharedStack to from = Inr (to', from') \<and> base_ok to' \<and> base_ok from' \<and>
           set_items to' = set_items to @ set_items from \<and> set_items from' = [] \<and>
           ssize to' = ssize to \<and> ssize from' = ssize from"
proof -
  have t: "length (sdata to) = ssize to" "slast to < ssize to" "sfirst to = 0" "16 \<le> ssize to"
    and f: "length (sdata from) = ssize from" "slast from < ssize from" "sfirst from = 0" "16 \<le> ssize from"
    using assms by (auto simp: base_ok_def set_ok_def)
  let ?xs = "take (slast from) (sdata from)"
  let ?d = "take (slast to) (sdata to) @ ?xs @ drop (slast to + length ?xs) (sdata to)"
  have b: "blit (sdata to) (slast to) ?xs = Inr ?d"
    using t f fit by (intro blit_ok) simp
  have m: "moveToSharedStack to from =
      Inr (to\<lparr>slast := slast to + slast from, sdata := ?d\<rparr>, from\<lparr>slast := 0\<rparr>)"
    using b t f fit by (simp add: moveToSharedStack_def SetLength_def slimit_def Let_def)
  show ?thesis
    by (rule exI, rule exI, rule conjI, rule m) (use t f fit in \<open>simp add: base_ok_def set_ok_def set_items_def\<close>)
qed

lemma moveToSharedStack_full:
  assumes "base_ok to" and "base_ok from" and "ssize to \<le> slast to + slast from"
  shows "moveToSharedStack to from = Inl (Die ''shared stack overflow'')"
  using assms by (simp add: moveToSharedStack_def SetLength_def slimit_def Let_def base_ok_def set_ok_def)

lemma fetchSplit_nat:
  assumes "0 \<le> n"
  shows "fetchSplit (int old) n =
     (min n (int old), (if old = 0 then - n else int old - min n (int old)), old = 0 \<or> int old < n)"
  using assms by (simp add: fetchSplit_def Let_def min_def)

lemma getFromSharedStack_ok:
  assumes to: "base_ok to" and src: "base_ok from" and n: "0 \<le> n"
    and fit: "int (slast to) + n < int (ssize to)"
  shows "\<exists>to' from' k. getFromSharedStack to from n = Inr (k, to', from') \<and> base_ok to' \<and> base_ok from' \<and>
           k = min n (int (slast from)) \<and> slast to' = slast to + nat k \<and> slast from' = slast from - nat k \<and>
           set_items to' = set_items to @ drop (slast from - nat k) (set_items from) \<and>
           set_items from' = take (slast from - nat k) (set_items from) \<and>
           ssize to' = ssize to \<and> ssize from' = ssize from"
proof -
  have t: "length (sdata to) = ssize to" "slast to < ssize to" "sfirst to = 0" "16 \<le> ssize to"
    and f: "length (sdata from) = ssize from" "slast from < ssize from" "sfirst from = 0" "16 \<le> ssize from"
    using to src by (auto simp: base_ok_def set_ok_def)
  define k where "k = min n (int (slast from))"
  have k: "0 \<le> k" "k \<le> n" "nat k \<le> slast from" using n by (auto simp: k_def)
  let ?xs = "take (nat k) (drop (slast from - nat k) (sdata from))"
  let ?d = "take (slast to) (sdata to) @ ?xs @ drop (slast to + length ?xs) (sdata to)"
  have lx: "length ?xs = nat k" using k f by simp
  have b: "blit (sdata to) (slast to) ?xs = Inr ?d"
    using lx t fit k by (intro blit_ok) linarith
  have st: "take (nat k) (drop (nat (if slast from = 0 then - n else int (slast from) - k)) (sdata from)) = ?xs"
    using k n by (cases "slast from = 0") (auto simp: k_def nat_diff_distrib' min_def)
  have cap: "slast to + nat k < ssize to" "slast from - nat k < ssize from" using fit k f by linarith+
  have a: "int (slast from) \<le> 0 \<or> 0 < k \<or> \<not> (slast from = 0 \<or> int (slast from) < n)"
    using n by (auto simp: k_def)
  have lst: "nat (if slast from = 0 \<or> int (slast from) < n then 0 else int (slast from) - n) = slast from - nat k"
    using n by (auto simp: k_def min_def)
  have m: "getFromSharedStack to from n =
      Inr (k, to\<lparr>sdata := ?d, slast := slast to + nat k\<rparr>, from\<lparr>slast := slast from - nat k\<rparr>)"
    unfolding getFromSharedStack_def Let_def fetchSplit_nat [OF n] prod.case k_def [symmetric] st b lst
    using a cap by (simp only: bindE_Inr bindE_assertE slimit_def)
  have items: "take (slast from - nat k) (sdata from) = take (slast from - nat k) (take (slast from) (sdata from))"
    and moved: "?xs = drop (slast from - nat k) (take (slast from) (sdata from))"
    using k f by (simp_all add: drop_take)
  show ?thesis
    by (rule exI, rule exI, rule exI, rule conjI, rule m)
      (use t f cap lx moved in \<open>simp add: base_ok_def set_ok_def set_items_def k_def [symmetric]\<close>)
qed

subsection \<open>A whole pop and a whole push\<close>

fun unitOf :: "wfield \<Rightarrow> nat" where
  \<comment> \<open>the number of cells of one item: \<open>SetPush2\<close> on gray regions, \<open>SetPush3\<close> on segments\<close>
  "unitOf GrayRegion = 2"
| "unitOf Segments = 3"
| "unitOf _ = 1"

definition lw_ok :: "workArea \<Rightarrow> bool" where
  "lw_ok lw \<longleftrightarrow> (\<forall>f. base_ok (lset lw f) \<and> unitOf f dvd slast (lset lw f))"

definition witems :: "workArea \<Rightarrow> wfield \<Rightarrow> addr multiset" where
  "witems lw f = mset (set_items (lset lw f))"

lemma setField_sel [simp]:
  "lset (setField f s lw) = (lset lw)(f := s)" "hasShared (setField f s lw) = hasShared lw"
  by (simp_all add: setField_def)

lemma unitOf_pos [simp]: "0 < unitOf f"
  by (cases f) simp_all

lemma lw_okD: "lw_ok lw \<Longrightarrow> base_ok (lset lw f)" "lw_ok lw \<Longrightarrow> unitOf f dvd slast (lset lw f)"
  by (simp_all add: lw_ok_def)

lemma lw_ok_setField: "lw_ok lw \<Longrightarrow> base_ok s \<Longrightarrow> unitOf f dvd slast s \<Longrightarrow> lw_ok (setField f s lw)"
  by (simp add: lw_ok_def)

lemma witems_setField: "witems (setField f s lw) g = (if g = f then mset (set_items s) else witems lw g)"
  by (simp add: witems_def)

lemma witems_empty: "lw_ok lw \<Longrightarrow> witems lw f = {#} \<longleftrightarrow> SetIsEmpty (lset lw f)"
  by (simp add: witems_def lw_ok_def base_ok_def SetIsEmpty_items)

lemma MakeFraction_none:
  assumes "rounding rnd" and "0 < b" and "0 \<le> a" "a \<le> 2147483648"
  shows "MakeFraction rnd a b 0 = a"
  using assms rounding_exact [OF assms(1,3,4)] by (simp add: MakeFraction_def ctrunc_def rounding_0_1)

lemma MakeFraction_bounds:
  assumes rnd: "rounding rnd" and b: "0 < b" and c: "0 \<le> c" "c \<le> b" and a: "0 \<le> a" "a \<le> 2147483648"
  shows "0 \<le> MakeFraction rnd a b c \<and> MakeFraction rnd a b c \<le> a"
proof -
  define q where "q = rnd (of_int (b - c) / of_int b)"
  have "0 \<le> (of_int (b - c) / of_int b :: real)" "(of_int (b - c) / of_int b :: real) \<le> 1"
    using b c by simp_all
  then have q: "0 \<le> q" "q \<le> 1"
    using rounding_mono [OF rnd] rounding_0_1 [OF rnd] unfolding q_def by metis+
  have "0 \<le> of_int a * q" "of_int a * q \<le> of_int a"
    using q a by (simp_all add: mult_left_le)
  then have "0 \<le> rnd (of_int a * q)" "rnd (of_int a * q) \<le> of_int a"
    using rounding_mono [OF rnd] rounding_0_1 [OF rnd] rounding_exact [OF rnd a] by metis+
  then have "0 \<le> \<lfloor>rnd (of_int a * q)\<rfloor>" "\<lfloor>rnd (of_int a * q)\<rfloor> \<le> a" "0 \<le> rnd (of_int a * q)"
    using floor_mono [of "rnd (of_int a * q)" "of_int a"] by simp_all
  then show ?thesis
    unfolding MakeFraction_def ctrunc_def q_def [symmetric] by simp
qed

definition entry_ok :: "workArea \<Rightarrow> wfield \<times> int \<times> int \<Rightarrow> bool" where
  \<comment> \<open>the request is positive and fits the local set\<close>
  "entry_ok lw e \<longleftrightarrow> (case e of (f, u, full) \<Rightarrow>
     u = int (unitOf f) \<and> 0 < full \<and> full \<le> 2147483648 \<and>
     int (slast (lset lw f)) + u * full < int (ssize (lset lw f)))"

lemma mset_take_drop: "mset (take k xs) + mset (drop k xs) = mset xs"
  by (metis append_take_drop_id mset_append)

lemma popCascade_ok:
  assumes "rounding rnd" and "lw_ok w" and "lw_ok lw" and "distinct (map fst es)"
    and "\<forall>e\<in>set es. entry_ok lw e" and "\<And>f u full r. es = (f, u, full) # r \<Longrightarrow> 0 < req \<and> req \<le> full"
  shows "\<exists>any w' lw'. popCascade rnd es req w lw = Inr (any, w', lw') \<and> lw_ok w' \<and> lw_ok lw' \<and>
           (\<forall>f. witems w' f + witems lw' f = witems w f + witems lw f) \<and>
           hasShared w' = hasShared w \<and> hasShared lw' = hasShared lw \<and>
           (\<forall>f. ssize (lset lw' f) = ssize (lset lw f) \<and> ssize (lset w' f) = ssize (lset w f)) \<and>
           (\<not> any \<longrightarrow> (\<forall>f. witems lw' f = witems lw f) \<and> (\<forall>f\<in>fst ` set es. witems w f = {#}))"
  using assms(2-)
proof (induction es arbitrary: req w lw)
  case Nil
  then show ?case by simp blast
next
  case (Cons e rest)
  obtain f u full where e: "e = (f, u, full)" by (cases e)
  have req: "0 < req" "req \<le> full" using Cons.prems(5) [OF arg_cong2 [OF e refl, of Cons]] by auto
  have eo: "u = int (unitOf f)" "0 < full" "full \<le> 2147483648"
    "int (slast (lset lw f)) + u * full < int (ssize (lset lw f))"
    using Cons.prems(4) by (auto simp: e entry_ok_def)
  have u: "0 < u" using eo by simp
  have fit: "int (slast (lset lw f)) + u * req < int (ssize (lset lw f))"
    using eo(4) mult_left_mono [OF req(2), of u] u by linarith
  obtain to src k where g: "getFromSharedStack (lset lw f) (lset w f) (u * req) = Inr (k, to, src)"
    and ok: "base_ok to" "base_ok src" and k: "k = min (u * req) (int (slast (lset w f)))"
    and len: "slast to = slast (lset lw f) + nat k" "slast src = slast (lset w f) - nat k"
    and items: "set_items to = set_items (lset lw f) @ drop (slast (lset w f) - nat k) (set_items (lset w f))"
      "set_items src = take (slast (lset w f) - nat k) (set_items (lset w f))"
    and sz: "ssize to = ssize (lset lw f)" "ssize src = ssize (lset w f)"
    using getFromSharedStack_ok [OF lw_okD(1) [OF Cons.prems(2)] lw_okD(1) [OF Cons.prems(1)], of "u * req" f f]
      fit u req by auto
  have k0: "0 \<le> k" "k \<le> u * req" using k u req by auto
  have dk: "u dvd k"
    using lw_okD(2) [OF Cons.prems(1), of f] by (simp add: k eo(1) min_def flip: of_nat_dvd_iff [where 'a = int])
  then have "int (unitOf f) dvd int (nat k)" using k0 by (simp add: eo(1))
  then have dn: "unitOf f dvd nat k" by (simp only: of_nat_dvd_iff)
  define fetched where "fetched = k div u"
  have fe: "0 \<le> fetched" "fetched \<le> req" "fetched = 0 \<longleftrightarrow> k = 0"
    using k0 u dk by (auto simp: fetched_def pos_imp_zdiv_nonneg_iff elim: dvdE
        intro: order_trans [OF zdiv_mono1 [OF k0(2) u]])
  define w1 where "w1 = setField f src w"
  define l1 where "l1 = setField f to lw"
  have ms: "mset (set_items src) + mset (set_items to) = witems w f + witems lw f"
    unfolding items witems_def mset_append
    using mset_take_drop [of "slast (lset w f) - nat k" "set_items (lset w f)"] by (metis union_assoc union_commute)
  have ok1: "lw_ok w1" "lw_ok l1"
    unfolding w1_def l1_def
    using lw_ok_setField [OF Cons.prems(1) ok(2), of f] lw_ok_setField [OF Cons.prems(2) ok(1), of f]
      lw_okD(2) [OF Cons.prems(1), of f] lw_okD(2) [OF Cons.prems(2), of f] dn by (simp_all add: len)
  have it1: "witems w1 g + witems l1 g = witems w g + witems lw g" for g
    using ms by (simp add: w1_def l1_def witems_setField)
  have sz1: "ssize (lset l1 g) = ssize (lset lw g)" "ssize (lset w1 g) = ssize (lset w g)" for g
    by (simp_all add: l1_def w1_def sz)
  have hs: "hasShared w1 = hasShared w" "hasShared l1 = hasShared lw" by (simp_all add: w1_def l1_def)
  have zero: "fetched = 0 \<Longrightarrow> witems w f = {#} \<and> (\<forall>g. witems l1 g = witems lw g)"
  proof -
    assume "fetched = 0"
    then have "k = 0" using fe by simp
    moreover from this have "slast (lset w f) = 0" using k u req by (auto simp: min_def split: if_splits)
    moreover note base_length [OF lw_okD(1) [OF Cons.prems(1), of f]] items
    ultimately show ?thesis by (simp add: witems_def l1_def)
  qed
  show ?case
  proof (cases rest)
    case Nil
    then show ?thesis
      using ok1 it1 hs sz1 zero g by (auto simp: e Let_def w1_def l1_def fetched_def)
  next
    case (Cons e' rest')
    obtain f' u' full' where e': "e' = (f', u', full')" by (cases e')
    define req' where "req' = MakeFraction rnd full' req fetched"
    have fl: "0 < full'" "full' \<le> 2147483648" using Cons.prems(4) by (auto simp: Cons e' entry_ok_def)
    have bnd: "0 \<le> req'" "req' \<le> full'"
      using MakeFraction_bounds [OF assms(1) req(1) fe(1,2)] fl unfolding req'_def by simp_all
    have ent: "\<forall>e\<in>set rest. entry_ok l1 e"
    proof
      fix x assume x: "x \<in> set rest"
      have "f \<notin> fst ` set rest" using Cons.prems(3) by (simp add: e)
      with x have "fst x \<noteq> f" by auto
      then have "entry_ok l1 x = entry_ok lw x" by (simp add: entry_ok_def l1_def split_beta)
      with x show "entry_ok l1 x" using Cons.prems(4) by simp
    qed
    show ?thesis
    proof (cases "req' = 0")
      case True
      then have "fetched \<noteq> 0"
        using MakeFraction_none [OF assms(1) req(1), of full'] fl unfolding req'_def by auto
      with True have run: "popCascade rnd (e # rest) req w lw = Inr (True, w1, l1)"
        using g by (simp add: e Cons e' Let_def w1_def l1_def fetched_def req'_def)
      show ?thesis
        by (rule exI, rule exI, rule exI, rule conjI, rule run) (use ok1 it1 hs sz1 in simp)
    next
      case False
      then have "0 < req' \<and> req' \<le> full'" using bnd by simp
      then obtain any w' lw' where r: "popCascade rnd rest req' w1 l1 = Inr (any, w', lw')"
        and rr: "lw_ok w'" "lw_ok lw'" "\<forall>f. witems w' f + witems lw' f = witems w1 f + witems l1 f"
          "hasShared w' = hasShared w1" "hasShared lw' = hasShared l1"
          "\<forall>f. ssize (lset lw' f) = ssize (lset l1 f) \<and> ssize (lset w' f) = ssize (lset w1 f)"
        and none: "\<not> any \<longrightarrow> (\<forall>f. witems lw' f = witems l1 f) \<and> (\<forall>f\<in>fst ` set rest. witems w1 f = {#})"
        using Cons.IH [OF ok1, of req'] ent Cons.prems(3) by (auto simp: Cons e')
      have run: "popCascade rnd (e # rest) req w lw = Inr (fetched \<noteq> 0 \<or> any, w', lw')"
        unfolding e popCascade.simps(2)
        using r g False
        by (simp add: Cons e' Let_def w1_def l1_def fetched_def req'_def del: popCascade.simps)
      have emp: "\<not> (fetched \<noteq> 0 \<or> any) \<longrightarrow>
          (\<forall>f. witems lw' f = witems lw f) \<and> (\<forall>f\<in>fst ` set (e # rest). witems w f = {#})"
      proof -
        have "witems w1 g = witems w g" if "g \<in> fst ` set rest" for g
          using that Cons.prems(3) by (auto simp: w1_def witems_setField e)
        then show ?thesis using none zero by (auto simp: e)
      qed
      show ?thesis
        by (rule exI, rule exI, rule exI, rule conjI, rule run) (use emp rr it1 hs sz1 in simp)
    qed
  qed
qed

definition workFields :: "wfield list" where
  \<comment> \<open>the sets that \<open>isLocalWorkEmpty\<close> looks at\<close>
  "workFields = [StackletSet, Globals, Roots, Objs, GrayRegion, Segments, BackObjs, BackLocs]"

definition fetch_ok :: "fetchSizes \<Rightarrow> workArea \<Rightarrow> bool" where
  \<comment> \<open>the requests are positive 32-bit integers and the free part of the local sets holds them\<close>
  "fetch_ok fs lw \<longleftrightarrow> (\<forall>e\<in>set (popOrder fs (objFetchSize fs)). entry_ok lw e)"

lemma objRequestOf_bounds:
  assumes "rounding rnd" and "0 < objFetchSize fs"
  shows "0 < objRequestOf rnd fs np k \<and> objRequestOf rnd fs np k \<le> objFetchSize fs"
proof -
  have "0 \<le> rnd (of_nat k / of_nat np)"
    using rounding_mono [OF assms(1), of 0 "of_nat k / of_nat np"] rounding_0_1 [OF assms(1)] by simp
  then have "0 \<le> ctrunc (rnd (of_nat k / of_nat np))" by (simp add: ctrunc_def)
  then show ?thesis using assms(2) by (simp add: objRequestOf_def)
qed

lemma popOrder_fields: "fst ` set (popOrder fs r) = set workFields" "distinct (map fst (popOrder fs r))"
  by (simp_all add: popOrder_def workFields_def insert_commute)

lemma popSharedStack_ok:
  assumes rnd: "rounding rnd" and ok: "lw_ok (ssWork ss)" "lw_ok lw" and fs: "fetch_ok fs lw"
    and hs: "hasShared lw = 0" and num: "0 \<le> numLocalStack ss"
  shows "\<exists>ss' lw'. popSharedStack rnd fs np ss lw = Inr (ss', lw') \<and> lw_ok (ssWork ss') \<and> lw_ok lw' \<and>
           (\<forall>f. witems (ssWork ss') f + witems lw' f = witems (ssWork ss) f + witems lw f) \<and>
           (hasShared lw' = 0 \<or> hasShared lw' = 1) \<and> hasShared (ssWork ss') = hasShared (ssWork ss) \<and>
           numLocalStack ss' = numLocalStack ss + hasShared lw' \<and> doubleProcess ss' = doubleProcess ss \<and>
           (hasShared lw' = 0 \<longrightarrow> (\<forall>f. witems lw' f = witems lw f) \<and>
              (\<forall>f\<in>set workFields. witems (ssWork ss) f = {#}))"
proof -
  let ?r = "objRequestOf rnd fs np (SetLength (lset (ssWork ss) Objs))"
  have "0 < objFetchSize fs" using fs by (simp add: fetch_ok_def popOrder_def entry_ok_def)
  from objRequestOf_bounds [OF rnd this] have r: "0 < ?r" "?r \<le> objFetchSize fs" by blast+
  have ent: "\<forall>e\<in>set (popOrder fs ?r). entry_ok lw e"
    using fs r by (simp add: fetch_ok_def popOrder_def entry_ok_def)
  have t: "0 < threadFetchSize fs" using fs by (simp add: fetch_ok_def popOrder_def entry_ok_def)
  obtain any w' lw' where run: "popCascade rnd (popOrder fs ?r) (threadFetchSize fs) (ssWork ss) lw = Inr (any, w', lw')"
    and res: "lw_ok w'" "lw_ok lw'" "\<forall>f. witems w' f + witems lw' f = witems (ssWork ss) f + witems lw f"
      "hasShared w' = hasShared (ssWork ss)" "hasShared lw' = hasShared lw"
    and none: "\<not> any \<longrightarrow> (\<forall>f. witems lw' f = witems lw f) \<and> (\<forall>f\<in>set workFields. witems (ssWork ss) f = {#})"
    using popCascade_ok [OF rnd ok popOrder_fields(2) ent, of "threadFetchSize fs"] t
    by (auto simp: popOrder_fields(1)) (auto simp: popOrder_def)
  have same: "lw_ok (lw'\<lparr>hasShared := x\<rparr>) = lw_ok lw'" "witems (lw'\<lparr>hasShared := x\<rparr>) = witems lw'" for x
    by (simp_all add: lw_ok_def witems_def fun_eq_iff)
  show ?thesis
    using run res none hs num by (cases any) (simp_all add: popSharedStack_def Let_def same)
qed

lemma moveAll_ok:
  assumes "lw_ok w" and "lw_ok lw" and "distinct fs"
    and "\<forall>f\<in>set fs. slast (lset w f) + slast (lset lw f) < ssize (lset w f)"
  shows "\<exists>w' lw'. moveAll fs w lw = Inr (w', lw') \<and> lw_ok w' \<and> lw_ok lw' \<and>
           hasShared w' = hasShared w \<and> hasShared lw' = hasShared lw \<and>
           (\<forall>f. witems w' f = (if f \<in> set fs then witems w f + witems lw f else witems w f)) \<and>
           (\<forall>f. witems lw' f = (if f \<in> set fs then {#} else witems lw f)) \<and>
           (\<forall>f. f \<notin> set fs \<longrightarrow> lset w' f = lset w f \<and> lset lw' f = lset lw f)"
  using assms
proof (induction fs arbitrary: w lw)
  case Nil
  then show ?case by simp
next
  case (Cons f fs)
  obtain to src where m: "moveToSharedStack (lset w f) (lset lw f) = Inr (to, src)"
    and ok: "base_ok to" "base_ok src" and items: "set_items to = set_items (lset w f) @ set_items (lset lw f)"
      "set_items src = []"
    using moveToSharedStack_ok [OF lw_okD(1) [OF Cons.prems(1)] lw_okD(1) [OF Cons.prems(2)], of f f] Cons.prems(4)
    by auto
  have len: "slast to = slast (lset w f) + slast (lset lw f)" "slast src = 0"
    using base_length [OF ok(1)] base_length [OF ok(2)] items
      base_length [OF lw_okD(1) [OF Cons.prems(1), of f]] base_length [OF lw_okD(1) [OF Cons.prems(2), of f]] by simp_all
  have ok1: "lw_ok (setField f to w)" "lw_ok (setField f src lw)"
    using lw_ok_setField [OF Cons.prems(1) ok(1), of f] lw_ok_setField [OF Cons.prems(2) ok(2), of f]
      lw_okD(2) [OF Cons.prems(1), of f] lw_okD(2) [OF Cons.prems(2), of f] by (simp_all add: len)
  have f: "f \<notin> set fs" "distinct fs" using Cons.prems(3) by auto
  have "\<forall>g\<in>set fs. slast (lset (setField f to w) g) + slast (lset (setField f src lw) g) < ssize (lset (setField f to w) g)"
    using Cons.prems(4) f(1) by auto
  from Cons.IH [OF ok1 f(2) this]
  obtain w' lw' where r: "moveAll fs (setField f to w) (setField f src lw) = Inr (w', lw')"
    and rr: "lw_ok w'" "lw_ok lw'" "hasShared w' = hasShared w" "hasShared lw' = hasShared lw"
      "\<And>g. witems w' g = (if g \<in> set fs then witems (setField f to w) g + witems (setField f src lw) g
             else witems (setField f to w) g)"
      "\<And>g. witems lw' g = (if g \<in> set fs then {#} else witems (setField f src lw) g)"
      "\<And>g. g \<notin> set fs \<Longrightarrow> lset w' g = ((lset w)(f := to)) g \<and> lset lw' g = ((lset lw)(f := src)) g"
    by (elim exE conjE) simp
  have wf: "witems (setField f to w) g = (if g = f then witems w f + witems lw f else witems w g)"
    "witems (setField f src lw) g = (if g = f then {#} else witems lw g)" for g
    by (auto simp: witems_setField items) (simp add: witems_def)
  have run: "moveAll (f # fs) w lw = Inr (w', lw')" by (simp add: m r)
  show ?case
    by (rule exI, rule exI, rule conjI, rule run) (use rr f wf in auto)
qed

definition push_fits :: "sharedStack \<Rightarrow> workArea \<Rightarrow> bool" where
  \<comment> \<open>the shared sets have room for what the processor holds\<close>
  "push_fits ss lw \<longleftrightarrow> (\<forall>f. slast (lset (ssWork ss) f) + slast (lset lw f) < ssize (lset (ssWork ss) f))"

definition pushedFields :: "sharedStack \<Rightarrow> wfield set" where
  "pushedFields ss = set workFields \<union> (if doubleProcess ss then {NextBackObjs, NextBackLocs} else {})"

lemma helpPushSharedStack_ok:
  assumes "lw_ok (ssWork ss)" and "lw_ok lw" and fits: "push_fits ss lw"
  shows "\<exists>w' lw'. helpPushSharedStack ss lw = Inr (ss\<lparr>ssWork := w'\<rparr>, lw') \<and> lw_ok w' \<and> lw_ok lw' \<and>
           hasShared w' = hasShared (ssWork ss) \<and> hasShared lw' = hasShared lw \<and>
           (\<forall>f. witems w' f = witems (ssWork ss) f + (if f \<in> pushedFields ss then witems lw f else {#})) \<and>
           (\<forall>f. witems lw' f = (if f \<in> pushedFields ss then {#} else witems lw f))"
proof -
  have d: "distinct workFields" by (simp add: workFields_def)
  have "\<forall>f\<in>set workFields. slast (lset (ssWork ss) f) + slast (lset lw f) < ssize (lset (ssWork ss) f)"
    using fits by (simp add: push_fits_def)
  from moveAll_ok [OF assms(1,2) d this]
  obtain w1 l1 where r1: "moveAll workFields (ssWork ss) lw = Inr (w1, l1)"
    and a: "lw_ok w1" "lw_ok l1" "hasShared w1 = hasShared (ssWork ss)" "hasShared l1 = hasShared lw"
      "\<And>f. witems w1 f = (if f \<in> set workFields then witems (ssWork ss) f + witems lw f else witems (ssWork ss) f)"
      "\<And>f. witems l1 f = (if f \<in> set workFields then {#} else witems lw f)"
      "\<And>f. f \<notin> set workFields \<Longrightarrow> lset w1 f = lset (ssWork ss) f \<and> lset l1 f = lset lw f"
    by (elim exE conjE) simp
  have n: "NextBackObjs \<notin> set workFields" "NextBackLocs \<notin> set workFields" by (simp_all add: workFields_def)
  show ?thesis
  proof (cases "doubleProcess ss")
    case False
    then show ?thesis
      using r1 a by (auto simp: helpPushSharedStack_def workFields_def [symmetric] pushedFields_def)
  next
    case True
    have d2: "distinct [NextBackObjs, NextBackLocs]" by simp
    have "\<forall>f\<in>set [NextBackObjs, NextBackLocs]. slast (lset w1 f) + slast (lset l1 f) < ssize (lset w1 f)"
      using a(7) n fits by (simp add: push_fits_def)
    from moveAll_ok [OF a(1,2) d2 this]
    obtain w2 l2 where r2: "moveAll [NextBackObjs, NextBackLocs] w1 l1 = Inr (w2, l2)"
      and b: "lw_ok w2" "lw_ok l2" "hasShared w2 = hasShared w1" "hasShared l2 = hasShared l1"
        "\<And>f. witems w2 f = (if f \<in> {NextBackObjs, NextBackLocs} then witems w1 f + witems l1 f else witems w1 f)"
        "\<And>f. witems l2 f = (if f \<in> {NextBackObjs, NextBackLocs} then {#} else witems l1 f)"
      by (elim exE conjE) simp
    have run: "helpPushSharedStack ss lw = Inr (ss\<lparr>ssWork := w2\<rparr>, l2)"
      by (simp only: helpPushSharedStack_def workFields_def [symmetric] r1 r2 True bindE_Inr prod.case if_True)
    show ?thesis
      by (rule exI, rule exI, rule conjI, rule run) (use a b n True in \<open>auto simp: pushedFields_def\<close>)
  qed
qed

lemma isLocalWorkEmpty_items:
  assumes "lw_ok w"
  shows "isLocalWorkEmpty w \<longleftrightarrow> (\<forall>f\<in>set workFields. witems w f = {#}) \<and> hasShared w = 0"
  unfolding isLocalWorkEmpty_def workFields_def using witems_empty [OF assms] by auto

lemma pushSharedStack_ok:
  assumes ok: "lw_ok (ssWork ss)" "lw_ok lw" and fits: "push_fits ss lw"
    and hs: "hasShared lw = 0 \<or> hasShared lw = 1" and num: "hasShared lw \<le> numLocalStack ss"
  shows "\<exists>e ss' lw'. pushSharedStack False isLast ss lw = Inr (e, ss', lw') \<and> lw_ok (ssWork ss') \<and> lw_ok lw' \<and>
           (\<forall>f. witems (ssWork ss') f = witems (ssWork ss) f + (if f \<in> pushedFields ss then witems lw f else {#})) \<and>
           (\<forall>f. witems lw' f = (if f \<in> pushedFields ss then {#} else witems lw f)) \<and>
           hasShared lw' = 0 \<and> hasShared (ssWork ss') = hasShared (ssWork ss) \<and>
           numLocalStack ss' = numLocalStack ss - hasShared lw \<and> doubleProcess ss' = doubleProcess ss \<and>
           (e \<longleftrightarrow> isLast \<and> internalIsEmptySharedStack ss')"
proof -
  obtain w' lw' where h: "helpPushSharedStack ss lw = Inr (ss\<lparr>ssWork := w'\<rparr>, lw')"
    and a: "lw_ok w'" "lw_ok lw'" "hasShared w' = hasShared (ssWork ss)" "hasShared lw' = hasShared lw"
      "\<forall>f. witems w' f = witems (ssWork ss) f + (if f \<in> pushedFields ss then witems lw f else {#})"
      "\<forall>f. witems lw' f = (if f \<in> pushedFields ss then {#} else witems lw f)"
    using helpPushSharedStack_ok [OF ok fits] by auto
  have same: "lw_ok (lw'\<lparr>hasShared := x\<rparr>) = lw_ok lw'" "witems (lw'\<lparr>hasShared := x\<rparr>) = witems lw'" for x
    by (simp_all add: lw_ok_def witems_def fun_eq_iff)
  have same_hs: "hasShared lw = 0 \<Longrightarrow> lw'\<lparr>hasShared := 0\<rparr> = lw'" using a(4) by simp
  have sse: "ss\<lparr>ssWork := w', numLocalStack := n, numPush := k\<rparr> = ss\<lparr>ssWork := w', numPush := k, numLocalStack := n\<rparr>" for n k
    by simp
  have run: "pushSharedStack False isLast ss lw =
      Inr (pushExitCode False isLast (ss\<lparr>ssWork := w', numLocalStack := numLocalStack ss - hasShared lw\<rparr>) = StackEmpty,
           ss\<lparr>ssWork := w', numLocalStack := numLocalStack ss - hasShared lw, numPush := numPush ss + 1\<rparr>,
           lw'\<lparr>hasShared := 0\<rparr>)"
    using hs num a(4) same_hs by (auto simp: pushSharedStack_def h)
  have fin: "pushExitCode False isLast s = StackEmpty \<longleftrightarrow> isLast \<and> internalIsEmptySharedStack s" for s
    by (simp add: pushExitCode_def finalizer_def)
  show ?thesis
    by (rule exI, rule exI, rule exI, rule conjI, rule run)
      (use a same in \<open>simp add: fin internalIsEmptySharedStack_def\<close>)
qed

subsection \<open>Interleaved fetches\<close>

datatype popPc =
    PopIdle
  | PopSplit "int \<times> int \<times> bool"   \<comment> \<open>\<open>FetchAndAdd\<close> done, \<open>last\<close> not yet set back\<close>
  | PopCopy int int                \<comment> \<open>about to copy so many items from that position\<close>

record popState =
  pdata :: "addr list"
  plast :: int                     \<comment> \<open>may be below \<open>data\<close> for a while\<close>
  ppc :: "nat \<Rightarrow> popPc"
  pgot :: "nat \<Rightarrow> addr list"        \<comment> \<open>what each processor has copied to its local set\<close>

inductive popStep :: "nat \<Rightarrow> popState \<Rightarrow> popState \<Rightarrow> bool" for n :: nat where
  pop_fetch: "p < n \<Longrightarrow> ppc s p = PopIdle \<Longrightarrow> 0 \<le> k \<Longrightarrow>
     popStep n s (s\<lparr>plast := plast s - k, ppc := (ppc s)(p := PopSplit (fetchSplit (plast s) k))\<rparr>)"
| pop_reset: "p < n \<Longrightarrow> ppc s p = PopSplit (num, new, True) \<Longrightarrow>
     popStep n s (s\<lparr>plast := 0, ppc := (ppc s)(p := PopCopy num new)\<rparr>)"
| pop_keep: "p < n \<Longrightarrow> ppc s p = PopSplit (num, new, False) \<Longrightarrow>
     popStep n s (s\<lparr>ppc := (ppc s)(p := PopCopy num new)\<rparr>)"
| pop_copy: "p < n \<Longrightarrow> ppc s p = PopCopy num new \<Longrightarrow>
     popStep n s (s\<lparr>pgot := (pgot s)(p := pgot s p @ take (nat num) (drop (nat new) (pdata s))),
                    ppc := (ppc s)(p := PopIdle)\<rparr>)"

inductive popReach :: "nat \<Rightarrow> popState \<Rightarrow> popState \<Rightarrow> bool" for n :: nat and s0 :: popState where
  popReach_refl: "popReach n s0 s0"
| popReach_step: "popReach n s0 s \<Longrightarrow> popStep n s s' \<Longrightarrow> popReach n s0 s'"

fun claimed :: "addr list \<Rightarrow> popPc \<Rightarrow> addr multiset" where
  "claimed d PopIdle = {#}"
| "claimed d (PopSplit (num, new, _)) = mset (take (nat num) (drop (nat new) d))"
| "claimed d (PopCopy num new) = mset (take (nat num) (drop (nat new) d))"

fun resetPending :: "popPc \<Rightarrow> bool" where
  "resetPending (PopSplit (_, _, r)) = r"
| "resetPending _ = False"

definition pop_inv :: "nat \<Rightarrow> nat \<Rightarrow> addr list \<Rightarrow> popState \<Rightarrow> bool" where
  "pop_inv n len d s \<longleftrightarrow>
     pdata s = d \<and> plast s \<le> int len \<and> len \<le> length d \<and>
     (\<forall>p<n. resetPending (ppc s p) \<longrightarrow> plast s \<le> 0) \<and>
     (plast s < 0 \<longrightarrow> (\<exists>p<n. resetPending (ppc s p))) \<and>
     (\<Sum>p<n. claimed d (ppc s p)) + (\<Sum>p<n. mset (pgot s p)) + mset (take (nat (plast s)) d) = mset (take len d)"

lemma sum_upd:
  fixes f :: "'b \<Rightarrow> 'c :: cancel_comm_monoid_add" and g :: "nat \<Rightarrow> 'b"
  assumes "p < n" shows "(\<Sum>q<n. f ((g(p := x)) q)) + f (g p) = (\<Sum>q<n. f (g q)) + f x"
proof -
  have "(\<Sum>q<n. h q) = h p + (\<Sum>q\<in>{..<n} - {p}. h q)" for h :: "nat \<Rightarrow> 'c"
    using assms by (simp add: sum.remove)
  moreover have "(\<Sum>q\<in>{..<n} - {p}. f ((g(p := x)) q)) = (\<Sum>q\<in>{..<n} - {p}. f (g q))"
    by (intro sum.cong) auto
  ultimately show ?thesis by (simp add: ac_simps)
qed

lemma fetch_partition:
  assumes "0 \<le> k" and "old \<le> int (length d)"
  shows "claimed d (PopSplit (fetchSplit old k)) + mset (take (nat (old - k)) d) = mset (take (nat old) d)"
proof (cases "old \<le> 0")
  case True
  then show ?thesis using assms by (cases "k = 0") (simp_all add: fetchSplit_def Let_def)
next
  case False
  show ?thesis
  proof (cases "old - k < 0")
    case True
    with False show ?thesis by (simp add: fetchSplit_def Let_def)
  next
    case f2: False
    have "take (nat old) d = take (nat (old - k)) d @ take (nat k) (drop (nat (old - k)) d)"
      using f2 assms by (simp add: nat_diff_distrib flip: take_add)
    with False f2 show ?thesis by (simp add: fetchSplit_def Let_def)
  qed
qed

lemma popStep_inv:
  assumes "popStep n s s'" and "pop_inv n len d s" shows "pop_inv n len d s'"
  using assms(1)
proof (cases rule: popStep.cases)
  case (pop_fetch p k)
  have i: "pdata s = d" "plast s \<le> int len" "len \<le> length d"
    "(\<Sum>p<n. claimed d (ppc s p)) + (\<Sum>p<n. mset (pgot s p)) + mset (take (nat (plast s)) d) = mset (take len d)"
    using assms(2) by (simp_all add: pop_inv_def)
  let ?x = "PopSplit (fetchSplit (plast s) k)"
  have c: "(\<Sum>q<n. claimed d (((ppc s)(p := ?x)) q)) = (\<Sum>q<n. claimed d (ppc s q)) + claimed d ?x"
    using sum_upd [OF pop_fetch(2), of "claimed d" "ppc s" ?x] pop_fetch(3) by simp
  have part: "claimed d ?x + mset (take (nat (plast s - k)) d) = mset (take (nat (plast s)) d)"
    using fetch_partition [OF pop_fetch(4)] i by simp
  have r: "resetPending ?x \<longleftrightarrow> plast s \<le> 0 \<or> plast s - k < 0"
    using pop_fetch(4) by (simp add: fetchSplit_def Let_def)
  have sum: "(\<Sum>q<n. claimed d (((ppc s)(p := ?x)) q)) + (\<Sum>p<n. mset (pgot s p)) + mset (take (nat (plast s - k)) d) = mset (take len d)"
    unfolding c i(4) [symmetric] part [symmetric] by (simp only: ac_simps)
  have rp: "\<forall>q<n. resetPending (((ppc s)(p := ?x)) q) \<longrightarrow> plast s - k \<le> 0"
    using assms(2) pop_fetch(4) r by (auto simp: pop_inv_def)
  have neg: "plast s - k < 0 \<longrightarrow> (\<exists>q<n. resetPending (((ppc s)(p := ?x)) q))"
    using r pop_fetch(2) by (auto intro!: exI [of _ p])
  show ?thesis
    unfolding pop_fetch(1) pop_inv_def using i sum rp neg pop_fetch(4) by (simp del: fun_upd_apply)
next
  case (pop_reset p num new)
  let ?x = "PopCopy num new"
  have "plast s \<le> 0" using assms(2) pop_reset(2,3) by (auto simp: pop_inv_def)
  moreover have "(\<Sum>q<n. claimed d (((ppc s)(p := ?x)) q)) = (\<Sum>q<n. claimed d (ppc s q))"
    using sum_upd [OF pop_reset(2), of "claimed d" "ppc s" ?x] pop_reset(3) by simp
  ultimately show ?thesis
    using assms(2) unfolding pop_reset(1) pop_inv_def by (simp del: fun_upd_apply)
next
  case (pop_keep p num new)
  let ?x = "PopCopy num new"
  have c: "(\<Sum>q<n. claimed d (((ppc s)(p := ?x)) q)) = (\<Sum>q<n. claimed d (ppc s q))"
    using sum_upd [OF pop_keep(2), of "claimed d" "ppc s" ?x] pop_keep(3) by simp
  have r: "resetPending (((ppc s)(p := ?x)) q) = resetPending (ppc s q)" for q
    using pop_keep(3) by simp
  show ?thesis
    using assms(2) unfolding pop_keep(1) pop_inv_def by (simp add: c r del: fun_upd_apply)
next
  case (pop_copy p num new)
  let ?x = "PopIdle" let ?y = "take (nat num) (drop (nat new) (pdata s))"
  have d: "pdata s = d" using assms(2) by (simp add: pop_inv_def)
  have c: "(\<Sum>q<n. claimed d (((ppc s)(p := ?x)) q)) + mset ?y = (\<Sum>q<n. claimed d (ppc s q))"
    using sum_upd [OF pop_copy(2), of "claimed d" "ppc s" ?x] pop_copy(3) by (simp add: d)
  have g: "(\<Sum>q<n. mset (((pgot s)(p := pgot s p @ ?y)) q)) = (\<Sum>q<n. mset (pgot s q)) + mset ?y"
    using sum_upd [OF pop_copy(2), of mset "pgot s" "pgot s p @ ?y"] by (simp add: ac_simps)
  have r: "resetPending (((ppc s)(p := ?x)) q) = resetPending (ppc s q)" for q
    using pop_copy(3) by simp
  have "(\<Sum>q<n. claimed d (((ppc s)(p := ?x)) q)) + (\<Sum>q<n. mset (((pgot s)(p := pgot s p @ ?y)) q)) =
      (\<Sum>q<n. claimed d (ppc s q)) + (\<Sum>q<n. mset (pgot s q))"
    unfolding g c [symmetric] by (simp only: ac_simps)
  then show ?thesis
    using assms(2) unfolding pop_copy(1) pop_inv_def by (simp add: r del: fun_upd_apply)
qed

lemma popReach_inv: "popReach n s0 s \<Longrightarrow> pop_inv n len d s0 \<Longrightarrow> pop_inv n len d s"
  by (induction rule: popReach.induct) (auto intro: popStep_inv)

definition popStart :: "addr list \<Rightarrow> nat \<Rightarrow> popState" where
  "popStart d len = \<lparr>pdata = d, plast = int len, ppc = (\<lambda>_. PopIdle), pgot = (\<lambda>_. [])\<rparr>"

text \<open>C14: However the processors in the pop room interleave their \<open>FetchAndAdd\<close>, the writes that set
  \<open>last\<close> back and the copies, when all of them are done every item of the shared set is either
  still in the set or was copied by exactly one processor, and \<open>last\<close> is again inside the block.\<close>

theorem interleaved_fetches_partition:
  assumes "len \<le> length d" and "popReach n (popStart d len) s" and "\<forall>p<n. ppc s p = PopIdle"
  shows "0 \<le> plast s \<and>
         (\<Sum>p<n. mset (pgot s p)) + mset (take (nat (plast s)) (pdata s)) = mset (take len d)"
proof -
  have "pop_inv n len d (popStart d len)" using assms(1) by (simp add: pop_inv_def popStart_def)
  from popReach_inv [OF assms(2) this] have i: "pop_inv n len d s" .
  have "(\<Sum>p<n. claimed d (ppc s p)) = {#}" using assms(3) by simp
  with i show ?thesis using assms(3) by (auto simp: pop_inv_def)
qed

definition popDemo :: "int \<Rightarrow> popPc \<Rightarrow> popPc \<Rightarrow> addr list \<Rightarrow> addr list \<Rightarrow> popState" where
  "popDemo l a b x y = \<lparr>pdata = [5, 6, 7], plast = l,
     ppc = (\<lambda>q. if q = 0 then a else if q = 1 then b else PopIdle),
     pgot = (\<lambda>q. if q = 0 then x else if q = 1 then y else [])\<rparr>"

lemma popDemo_upd:
  "popDemo l a b x y\<lparr>plast := l', ppc := (ppc (popDemo l a b x y))(0 := c)\<rparr> = popDemo l' c b x y"
  "popDemo l a b x y\<lparr>plast := l', ppc := (ppc (popDemo l a b x y))(1 := c)\<rparr> = popDemo l' a c x y"
  "popDemo l a b x y\<lparr>ppc := (ppc (popDemo l a b x y))(0 := c)\<rparr> = popDemo l c b x y"
  "popDemo l a b x y\<lparr>pgot := (pgot (popDemo l a b x y))(0 := z), ppc := (ppc (popDemo l a b x y))(0 := c)\<rparr> = popDemo l c b z y"
  "popDemo l a b x y\<lparr>pgot := (pgot (popDemo l a b x y))(1 := z), ppc := (ppc (popDemo l a b x y))(1 := c)\<rparr> = popDemo l a c x z"
  by (simp_all add: popDemo_def fun_eq_iff)

lemma popDemo_sel:
  "plast (popDemo l a b x y) = l" "ppc (popDemo l a b x y) 0 = a" "ppc (popDemo l a b x y) 1 = b"
  "pgot (popDemo l a b x y) 0 = x" "pgot (popDemo l a b x y) 1 = y" "pdata (popDemo l a b x y) = [5, 6, 7]"
  by (simp_all add: popDemo_def)

lemma popDemo_run: "popReach 2 (popStart [5, 6, 7] 3) (popDemo 0 PopIdle PopIdle [6, 7] [5])"
proof -
  note st = popReach_step [of 2 "popStart [5, 6, 7] 3"] and d = popDemo_upd popDemo_sel
  have "popReach 2 (popStart [5, 6, 7] 3) (popDemo 3 PopIdle PopIdle [] [])"
    using popReach_refl [of 2 "popStart [5, 6, 7] 3"] by (simp add: popDemo_def popStart_def if_distrib cong: if_cong)
  from st [OF this, OF pop_fetch [of 0 _ _ 2]]
  have "popReach 2 (popStart [5, 6, 7] 3) (popDemo 1 (PopSplit (2, 1, False)) PopIdle [] [])"
    by (simp add: d fetchSplit_def del: One_nat_def)
  from st [OF this, OF pop_fetch [of 1 _ _ 2]]
  have "popReach 2 (popStart [5, 6, 7] 3) (popDemo (- 1) (PopSplit (2, 1, False)) (PopSplit (1, 0, True)) [] [])"
    by (simp add: d fetchSplit_def del: One_nat_def)
  from st [OF this, OF pop_keep [of 0 _ _ 2 1]]
  have "popReach 2 (popStart [5, 6, 7] 3) (popDemo (- 1) (PopCopy 2 1) (PopSplit (1, 0, True)) [] [])"
    by (simp add: d del: One_nat_def)
  from st [OF this, OF pop_reset [of 1 _ _ 1 0]]
  have "popReach 2 (popStart [5, 6, 7] 3) (popDemo 0 (PopCopy 2 1) (PopCopy 1 0) [] [])"
    by (simp add: d del: One_nat_def)
  from st [OF this, OF pop_copy [of 1 _ _ 1 0]]
  have "popReach 2 (popStart [5, 6, 7] 3) (popDemo 0 (PopCopy 2 1) PopIdle [] [5])"
    by (simp add: d del: One_nat_def)
  from st [OF this, OF pop_copy [of 0 _ _ 2 1]]
  show ?thesis by (simp add: d numeral_2_eq_2 del: One_nat_def)
qed

theorem interleaved_fetches_partition_witness:
  "(\<Sum>p<2. mset (pgot (popDemo 0 PopIdle PopIdle [6, 7] [5]) p)) = mset [5, 6, 7]"
  using interleaved_fetches_partition [OF _ popDemo_run] by (simp add: popDemo_sel) (simp add: popDemo_def)

subsection \<open>Interleaved moves to the shared stack\<close>

datatype pushPc =
    PushIdle
  | PushCheck nat "addr list"   \<comment> \<open>\<open>FetchAndAdd\<close> done, overflow not yet checked\<close>
  | PushCopy nat "addr list"    \<comment> \<open>about to copy the items to that position\<close>
  | PushDied nat "addr list"    \<comment> \<open>stopped by \<open>DIE\<close>\<close>

record pushState =
  hdata :: "addr list"
  hlast :: nat
  hlimit :: nat
  hpc :: "nat \<Rightarrow> pushPc"
  hpushed :: "nat \<Rightarrow> addr list"   \<comment> \<open>all items the processor has given so far\<close>

inductive pushStep :: "nat \<Rightarrow> pushState \<Rightarrow> pushState \<Rightarrow> bool" for n :: nat where
  push_reserve: "p < n \<Longrightarrow> hpc s p = PushIdle \<Longrightarrow>
     pushStep n s (s\<lparr>hlast := hlast s + length xs, hpc := (hpc s)(p := PushCheck (hlast s) xs),
                     hpushed := (hpushed s)(p := hpushed s p @ xs)\<rparr>)"
| push_checked: "p < n \<Longrightarrow> hpc s p = PushCheck old xs \<Longrightarrow> hlast s < hlimit s \<Longrightarrow>
     pushStep n s (s\<lparr>hpc := (hpc s)(p := PushCopy old xs)\<rparr>)"
| push_overflow: "p < n \<Longrightarrow> hpc s p = PushCheck old xs \<Longrightarrow> hlimit s \<le> hlast s \<Longrightarrow>
     pushStep n s (s\<lparr>hpc := (hpc s)(p := PushDied old xs)\<rparr>)"
| push_copy: "p < n \<Longrightarrow> hpc s p = PushCopy old xs \<Longrightarrow> blit (hdata s) old xs = Inr d \<Longrightarrow>
     pushStep n s (s\<lparr>hdata := d, hpc := (hpc s)(p := PushIdle)\<rparr>)"

inductive pushReach :: "nat \<Rightarrow> pushState \<Rightarrow> pushState \<Rightarrow> bool" for n :: nat and s0 :: pushState where
  pushReach_refl: "pushReach n s0 s0"
| pushReach_step: "pushReach n s0 s \<Longrightarrow> pushStep n s s' \<Longrightarrow> pushReach n s0 s'"

fun pending :: "pushPc \<Rightarrow> (nat \<times> addr list) option" where
  "pending PushIdle = None"
| "pending (PushCheck old xs) = Some (old, xs)"
| "pending (PushCopy old xs) = Some (old, xs)"
| "pending (PushDied old xs) = Some (old, xs)"

definition covers :: "(nat \<times> addr list) option \<Rightarrow> nat \<Rightarrow> bool" where
  "covers r i \<longleftrightarrow> (case r of None \<Rightarrow> False | Some (old, xs) \<Rightarrow> old \<le> i \<and> i < old + length xs)"

definition push_inv :: "nat \<Rightarrow> addr list \<Rightarrow> addr list \<Rightarrow> pushState \<Rightarrow> bool" where
  \<comment> \<open>\<open>V\<close> is what the set will hold when the pending copies are done\<close>
  "push_inv n ys V s \<longleftrightarrow>
     length V = hlast s \<and> hlimit s = length (hdata s) \<and>
     mset V = mset ys + (\<Sum>p<n. mset (hpushed s p)) \<and>
     (\<forall>i<hlast s. i < length (hdata s) \<longrightarrow> (\<forall>p<n. \<not> covers (pending (hpc s p)) i) \<longrightarrow> hdata s ! i = V ! i) \<and>
     (\<forall>p<n. \<forall>old xs. pending (hpc s p) = Some (old, xs) \<longrightarrow>
        old + length xs \<le> hlast s \<and> take (length xs) (drop old V) = xs) \<and>
     (\<forall>p<n. \<forall>q<n. \<forall>i. p \<noteq> q \<longrightarrow> \<not> (covers (pending (hpc s p)) i \<and> covers (pending (hpc s q)) i)) \<and>
     (\<forall>p<n. \<forall>old xs. hpc s p = PushCopy old xs \<longrightarrow> old + length xs < hlimit s)"

lemma covers_simps [simp]:
  "\<not> covers None i" "covers (Some (old, xs)) i \<longleftrightarrow> old \<le> i \<and> i < old + length xs"
  by (simp_all add: covers_def)

lemma push_repc:
  assumes "push_inv n ys V s" and "p < n" and "pending (hpc s p) = pending x"
    and "\<And>old xs. x = PushCopy old xs \<Longrightarrow> old + length xs < hlimit s"
  shows "push_inv n ys V (s\<lparr>hpc := (hpc s)(p := x)\<rparr>)"
proof -
  have "pending (((hpc s)(p := x)) q) = pending (hpc s q)" for q using assms(3) by simp
  then show ?thesis using assms(1,4) by (simp add: push_inv_def del: fun_upd_apply) (auto simp: fun_upd_apply)
qed

lemma pushStep_inv:
  assumes "pushStep n s s'" and "push_inv n ys V s" shows "\<exists>V'. push_inv n ys V' s'"
  using assms(1)
proof (cases rule: pushStep.cases)
  case (push_reserve p xs)
  let ?V = "V @ xs" and ?pc = "(hpc s)(p := PushCheck (hlast s) xs)" and ?h = "(hpushed s)(p := hpushed s p @ xs)"
  have i: "length V = hlast s" "hlimit s = length (hdata s)" "mset V = mset ys + (\<Sum>p<n. mset (hpushed s p))"
    and same: "\<And>i. i < hlast s \<Longrightarrow> i < length (hdata s) \<Longrightarrow> (\<And>p. p < n \<Longrightarrow> \<not> covers (pending (hpc s p)) i) \<Longrightarrow> hdata s ! i = V ! i"
    and pend: "\<And>p old xs. p < n \<Longrightarrow> pending (hpc s p) = Some (old, xs) \<Longrightarrow>
        old + length xs \<le> hlast s \<and> take (length xs) (drop old V) = xs"
    and disj: "\<And>p q i. p < n \<Longrightarrow> q < n \<Longrightarrow> p \<noteq> q \<Longrightarrow> \<not> (covers (pending (hpc s p)) i \<and> covers (pending (hpc s q)) i)"
    and cop: "\<And>p old xs. p < n \<Longrightarrow> hpc s p = PushCopy old xs \<Longrightarrow> old + length xs < hlimit s"
    using assms(2) by (auto simp: push_inv_def)
  have low: "i < hlast s" if "q < n" "covers (pending (hpc s q)) i" for q i
    using pend [OF that(1)] that(2) by (cases "pending (hpc s q)") (auto dest!: pend [OF that(1)])
  have m: "(\<Sum>q<n. mset (?h q)) = (\<Sum>q<n. mset (hpushed s q)) + mset xs"
    using sum_upd [OF push_reserve(2), of mset "hpushed s" "hpushed s p @ xs"] by (simp add: ac_simps)
  have a: "hdata s ! i = ?V ! i" if "i < hlast s + length xs" "i < length (hdata s)" "\<And>q. q < n \<Longrightarrow> \<not> covers (pending (?pc q)) i" for i
  proof -
    have "i < hlast s" using that(3) [OF push_reserve(2)] that(1) by simp
    moreover have "\<not> covers (pending (hpc s q)) i" if "q < n" for q
      using \<open>\<And>q. q < n \<Longrightarrow> \<not> covers (pending (?pc q)) i\<close> [OF that] push_reserve(3) by (cases "q = p") auto
    ultimately show ?thesis using same that(2) i(1) by (simp add: nth_append)
  qed
  have b: "old + length zs \<le> hlast s + length xs \<and> take (length zs) (drop old ?V) = zs"
    if "q < n" "pending (?pc q) = Some (old, zs)" for q old zs
    using pend [OF that(1)] that(2) i(1) by (cases "q = p") fastforce+
  have c: "\<not> (covers (pending (?pc q)) i \<and> covers (pending (?pc r)) i)" if "q < n" "r < n" "q \<noteq> r" for q r i
    using disj [OF that] low [OF that(1), of i] low [OF that(2), of i] that(3) by auto
  have e: "old + length zs < hlimit s" if "q < n" "?pc q = PushCopy old zs" for q old zs
    using cop [OF that(1)] that(2) by (auto split: if_splits)
  have "push_inv n ys ?V s'"
    unfolding push_reserve(1) push_inv_def
    using i m a b c e by (simp del: fun_upd_apply)
  then show ?thesis ..
next
  case (push_checked p old xs)
  have "old + length xs \<le> hlast s" using assms(2) push_checked(2,3) by (auto simp: push_inv_def)
  then have "push_inv n ys V (s\<lparr>hpc := (hpc s)(p := PushCopy old xs)\<rparr>)"
    using push_checked(3,4) by (intro push_repc [OF assms(2) push_checked(2)]) auto
  then show ?thesis unfolding push_checked(1) ..
next
  case (push_overflow p old xs)
  then have "push_inv n ys V (s\<lparr>hpc := (hpc s)(p := PushDied old xs)\<rparr>)"
    by (intro push_repc [OF assms(2) push_overflow(2)]) auto
  then show ?thesis unfolding push_overflow(1) ..
next
  case (push_copy p old xs d)
  have i: "length V = hlast s" "hlimit s = length (hdata s)" "old + length xs < length (hdata s)"
    "old + length xs \<le> length V" "take (length xs) (drop old V) = xs"
    using assms(2) push_copy(2,3) by (auto simp: push_inv_def)
  have d: "d = take old (hdata s) @ xs @ drop (old + length xs) (hdata s)"
    using blit_ok [of old xs "hdata s"] push_copy(4) i(3) by simp
  have dn: "d ! i = (if old \<le> i \<and> i < old + length xs then V ! i else hdata s ! i)" if "i < length (hdata s)" for i
  proof -
    have "V ! i = xs ! (i - old)" if "old \<le> i" "i < old + length xs"
      using i(4) arg_cong [OF i(5), of "\<lambda>l. l ! (i - old)"] that by simp
    then show ?thesis using i(3) that by (auto simp: d nth_append)
  qed
  have len: "length d = length (hdata s)" using i(3) by (simp add: d)
  have oth: "pending (((hpc s)(p := PushIdle)) q) = (if q = p then None else pending (hpc s q))" for q by simp
  have same: "hdata s ! i = V ! i" if "i < hlast s" "i < length (hdata s)" "\<not> (old \<le> i \<and> i < old + length xs)"
      "\<And>q. q < n \<Longrightarrow> q \<noteq> p \<Longrightarrow> \<not> covers (pending (hpc s q)) i" for i
  proof -
    have "\<not> covers (pending (hpc s q)) i" if "q < n" for q
      using that push_copy(3) \<open>\<not> (old \<le> i \<and> i < old + length xs)\<close>
        \<open>\<And>q. q < n \<Longrightarrow> q \<noteq> p \<Longrightarrow> \<not> covers (pending (hpc s q)) i\<close> by (cases "q = p") auto
    with assms(2) that(1,2) show ?thesis by (simp add: push_inv_def)
  qed
  have a: "d ! i = V ! i" if "i < hlast s" "i < length d" "\<And>q. q < n \<Longrightarrow> \<not> covers (pending (((hpc s)(p := PushIdle)) q)) i" for i
  proof -
    have i: "i < length (hdata s)" using that(2) len by simp
    have nc: "\<not> covers (pending (hpc s q)) i" if "q < n" "q \<noteq> p" for q
      using \<open>\<And>q. q < n \<Longrightarrow> \<not> covers (pending (((hpc s)(p := PushIdle)) q)) i\<close> [OF that(1)] that(2) by simp
    show ?thesis
      using dn [OF i] same [OF that(1) i _ nc] by simp
  qed
  let ?pc = "(hpc s)(p := PushIdle)"
  have m: "mset V = mset ys + (\<Sum>p<n. mset (hpushed s p))" using assms(2) by (simp add: push_inv_def)
  have b: "o2 + length zs \<le> hlast s \<and> take (length zs) (drop o2 V) = zs"
    if "q < n" "pending (?pc q) = Some (o2, zs)" for q o2 zs
  proof -
    have "pending (hpc s q) = Some (o2, zs)" using that(2) by (cases "q = p") simp_all
    with assms(2) that(1) show ?thesis by (simp add: push_inv_def)
  qed
  have c: "\<not> (covers (pending (?pc q)) i \<and> covers (pending (?pc r)) i)" if "q < n" "r < n" "q \<noteq> r" for q r i
  proof -
    have "\<not> (covers (pending (hpc s q)) i \<and> covers (pending (hpc s r)) i)"
      using assms(2) that unfolding push_inv_def by blast
    then show ?thesis unfolding oth by (cases "q = p"; cases "r = p") (simp_all only: if_True if_False covers_simps simp_thms)
  qed
  have e: "o2 + length zs < hlimit s" if "q < n" "?pc q = PushCopy o2 zs" for q o2 zs
  proof -
    have "hpc s q = PushCopy o2 zs" using that(2) by (simp split: if_splits)
    with assms(2) that(1) show ?thesis unfolding push_inv_def by blast
  qed
  have "push_inv n ys V s'"
    unfolding push_copy(1) push_inv_def using i(1,2) m a b c e len by (simp del: fun_upd_apply)
  then show ?thesis ..
qed

lemma pushReach_inv: "pushReach n s0 s \<Longrightarrow> push_inv n ys V s0 \<Longrightarrow> \<exists>V'. push_inv n ys V' s"
  by (induction rule: pushReach.induct) (auto intro: pushStep_inv)

definition pushStart :: "addr list \<Rightarrow> nat \<Rightarrow> pushState" where
  "pushStart d len = \<lparr>hdata = d, hlast = len, hlimit = length d, hpc = (\<lambda>_. PushIdle), hpushed = (\<lambda>_. [])\<rparr>"

lemma pushStart_inv:
  assumes "pushReach n (pushStart d len) s" and "len \<le> length d"
  shows "\<exists>V. push_inv n (take len d) V s"
proof -
  have "push_inv n (take len d) (take len d) (pushStart d len)"
    using assms(2) by (simp add: push_inv_def pushStart_def)
  from pushReach_inv [OF assms(1) this] show ?thesis .
qed


definition pushDemo :: "nat \<Rightarrow> addr list \<Rightarrow> pushPc \<Rightarrow> pushPc \<Rightarrow> addr list \<Rightarrow> addr list \<Rightarrow> pushState" where
  "pushDemo l d a b x y = \<lparr>hdata = d, hlast = l, hlimit = 6,
     hpc = (\<lambda>q. if q = 0 then a else if q = 1 then b else PushIdle),
     hpushed = (\<lambda>q. if q = 0 then x else if q = 1 then y else [])\<rparr>"

lemma pushDemo_upd:
  "pushDemo l d a b x y\<lparr>hlast := l', hpc := (hpc (pushDemo l d a b x y))(0 := c),
     hpushed := (hpushed (pushDemo l d a b x y))(0 := z)\<rparr> = pushDemo l' d c b z y"
  "pushDemo l d a b x y\<lparr>hlast := l', hpc := (hpc (pushDemo l d a b x y))(1 := c),
     hpushed := (hpushed (pushDemo l d a b x y))(1 := z)\<rparr> = pushDemo l' d a c x z"
  "pushDemo l d a b x y\<lparr>hpc := (hpc (pushDemo l d a b x y))(0 := c)\<rparr> = pushDemo l d c b x y"
  "pushDemo l d a b x y\<lparr>hpc := (hpc (pushDemo l d a b x y))(1 := c)\<rparr> = pushDemo l d a c x y"
  "pushDemo l d a b x y\<lparr>hdata := d', hpc := (hpc (pushDemo l d a b x y))(0 := c)\<rparr> = pushDemo l d' c b x y"
  "pushDemo l d a b x y\<lparr>hdata := d', hpc := (hpc (pushDemo l d a b x y))(1 := c)\<rparr> = pushDemo l d' a c x y"
  by (simp_all add: pushDemo_def fun_eq_iff)

lemma pushDemo_sel:
  "hlast (pushDemo l d a b x y) = l" "hpc (pushDemo l d a b x y) 0 = a" "hpc (pushDemo l d a b x y) 1 = b"
  "hpushed (pushDemo l d a b x y) 0 = x" "hpushed (pushDemo l d a b x y) 1 = y"
  "hdata (pushDemo l d a b x y) = d" "hlimit (pushDemo l d a b x y) = 6"
  by (simp_all add: pushDemo_def)

lemma small_lengths:
  "length [a] = 1" "length [a, b] = 2" "length [a, b, c, d, e, f] = 6"
  by simp_all

lemma pushDemo_run:
  "pushReach 2 (pushStart [5, 0, 0, 0, 0, 0] 1) (pushDemo 4 [5, 8, 9, 4, 0, 0] PushIdle PushIdle [8, 9] [4])"
proof -
  let ?d = "[5, 0, 0, 0, 0, 0] :: addr list" and ?d1 = "[5, 0, 0, 4, 0, 0] :: addr list"
  note st = pushReach_step [of 2 "pushStart ?d 1"] and d = pushDemo_upd pushDemo_sel blit_def
  have "pushReach 2 (pushStart ?d 1) (pushDemo 1 ?d PushIdle PushIdle [] [])"
    using pushReach_refl [of 2 "pushStart ?d 1"] by (simp add: pushDemo_def pushStart_def small_lengths if_distrib del: list.size cong: if_cong)
  from st [OF this, OF push_reserve [of 0 _ _ "[8, 9]"]]
  have "pushReach 2 (pushStart ?d 1) (pushDemo 3 ?d (PushCheck 1 [8, 9]) PushIdle [8, 9] [])"
    by (simp add: d small_lengths del: One_nat_def list.size)
  from st [OF this, OF push_reserve [of 1 _ _ "[4]"]]
  have "pushReach 2 (pushStart ?d 1) (pushDemo 4 ?d (PushCheck 1 [8, 9]) (PushCheck 3 [4]) [8, 9] [4])"
    by (simp add: d small_lengths del: One_nat_def list.size)
  from st [OF this, OF push_checked [of 1 _ _ 3 "[4]"]]
  have "pushReach 2 (pushStart ?d 1) (pushDemo 4 ?d (PushCheck 1 [8, 9]) (PushCopy 3 [4]) [8, 9] [4])"
    by (simp add: d del: One_nat_def)
  from st [OF this, OF push_checked [of 0 _ _ 1 "[8, 9]"]]
  have "pushReach 2 (pushStart ?d 1) (pushDemo 4 ?d (PushCopy 1 [8, 9]) (PushCopy 3 [4]) [8, 9] [4])"
    by (simp add: d del: One_nat_def)
  from st [OF this, OF push_copy [of 1 _ _ 3 "[4]" ?d1]]
  have "pushReach 2 (pushStart ?d 1) (pushDemo 4 ?d1 (PushCopy 1 [8, 9]) PushIdle [8, 9] [4])"
    by (simp add: d del: One_nat_def)
  from st [OF this, OF push_copy [of 0 _ _ 1 "[8, 9]" "[5, 8, 9, 4, 0, 0]"]]
  show ?thesis by (simp add: d)
qed


subsection \<open>Detection of termination\<close>

record wsys =
  wsShared :: sharedStack
  wsLocal :: "nat \<Rightarrow> workArea"

datatype wlabel = Transfer | Compute

inductive wstep :: "(real \<Rightarrow> real) \<Rightarrow> fetchSizes \<Rightarrow> nat \<Rightarrow> wlabel \<Rightarrow> wsys \<Rightarrow> wsys \<Rightarrow> bool"
  for rnd :: "real \<Rightarrow> real" and fs :: fetchSizes and n :: nat where
  ws_pop: "p < n \<Longrightarrow> hasShared (wsLocal s p) = 0 \<Longrightarrow> fetch_ok fs (wsLocal s p) \<Longrightarrow>
     popSharedStack rnd fs n (wsShared s) (wsLocal s p) = Inr (ss', lw') \<Longrightarrow>
     wstep rnd fs n Transfer s (s\<lparr>wsShared := ss', wsLocal := (wsLocal s)(p := lw')\<rparr>)"
| ws_push: "p < n \<Longrightarrow> push_fits (wsShared s) (wsLocal s p) \<Longrightarrow>
     pushSharedStack False isLast (wsShared s) (wsLocal s p) = Inr (e, ss', lw') \<Longrightarrow>
     wstep rnd fs n Transfer s (s\<lparr>wsShared := ss', wsLocal := (wsLocal s)(p := lw')\<rparr>)"
| ws_reset: "p < n \<Longrightarrow> resetSharedStack (wsShared s) (wsLocal s p) False = Inr (ss', lw') \<Longrightarrow>
     wstep rnd fs n Transfer s (s\<lparr>wsShared := ss', wsLocal := (wsLocal s)(p := lw')\<rparr>)"
| ws_compute: "p < n \<Longrightarrow> hasShared (wsLocal s p) = 1 \<Longrightarrow> lw_ok lw' \<Longrightarrow> hasShared lw' = 1 \<Longrightarrow>
     wstep rnd fs n Compute s (s\<lparr>wsLocal := (wsLocal s)(p := lw')\<rparr>)"

inductive wreach :: "(real \<Rightarrow> real) \<Rightarrow> fetchSizes \<Rightarrow> nat \<Rightarrow> wsys \<Rightarrow> wsys \<Rightarrow> bool"
  for rnd :: "real \<Rightarrow> real" and fs :: fetchSizes and n :: nat and s0 :: wsys where
  wreach_refl: "wreach rnd fs n s0 s0"
| wreach_step: "wreach rnd fs n s0 s \<Longrightarrow> wstep rnd fs n l s s' \<Longrightarrow> wreach rnd fs n s0 s'"

inductive_cases wstep_computeE: "wstep rnd fs n Compute s s'"
inductive_cases wstep_transferE: "wstep rnd fs n Transfer s s'"

definition workless :: "workArea \<Rightarrow> bool" where
  "workless lw \<longleftrightarrow> (\<forall>f\<in>set workFields. witems lw f = {#})"

definition winit :: "nat \<Rightarrow> wsys \<Rightarrow> bool" where
  \<comment> \<open>before a collection: no work, no processor counted\<close>
  "winit n s \<longleftrightarrow> lw_ok (ssWork (wsShared s)) \<and> hasShared (ssWork (wsShared s)) = 0 \<and>
     numLocalStack (wsShared s) = 0 \<and>
     (\<forall>p<n. lw_ok (wsLocal s p) \<and> hasShared (wsLocal s p) = 0 \<and> workless (wsLocal s p))"

definition winv :: "nat \<Rightarrow> wsys \<Rightarrow> bool" where
  "winv n s \<longleftrightarrow> lw_ok (ssWork (wsShared s)) \<and> hasShared (ssWork (wsShared s)) = 0 \<and>
     numLocalStack (wsShared s) = (\<Sum>p<n. hasShared (wsLocal s p)) \<and>
     (\<forall>p<n. lw_ok (wsLocal s p) \<and> (hasShared (wsLocal s p) = 1 \<or>
        hasShared (wsLocal s p) = 0 \<and> workless (wsLocal s p)))"

definition wtotal :: "nat \<Rightarrow> wsys \<Rightarrow> wfield \<Rightarrow> addr multiset" where
  \<comment> \<open>all items, shared and local\<close>
  "wtotal n s f = witems (ssWork (wsShared s)) f + (\<Sum>p<n. witems (wsLocal s p) f)"

lemma winvD:
  assumes "winv n s" and "p < n"
  shows "lw_ok (ssWork (wsShared s))" "hasShared (ssWork (wsShared s)) = 0" "lw_ok (wsLocal s p)"
    "hasShared (wsLocal s p) = 0 \<or> hasShared (wsLocal s p) = 1"
    "hasShared (wsLocal s p) = 0 \<Longrightarrow> workless (wsLocal s p)"
    "hasShared (wsLocal s p) \<le> numLocalStack (wsShared s)" "0 \<le> numLocalStack (wsShared s)"
proof -
  have nonneg: "\<forall>q\<in>{..<n}. 0 \<le> hasShared (wsLocal s q)" using assms(1) by (auto simp: winv_def)
  show "hasShared (wsLocal s p) \<le> numLocalStack (wsShared s)"
    using member_le_sum [of p "{..<n}" "\<lambda>q. hasShared (wsLocal s q)"] nonneg assms by (simp add: winv_def)
  show "0 \<le> numLocalStack (wsShared s)"
    using sum_nonneg [of "{..<n}" "\<lambda>q. hasShared (wsLocal s q)"] nonneg assms(1) by (simp add: winv_def)
qed (use assms in \<open>auto simp: winv_def\<close>)

lemma winvI:
  assumes inv: "winv n s" and p: "p < n" and "lw_ok (ssWork ss)" "hasShared (ssWork ss) = 0" "lw_ok lw"
    and "numLocalStack ss = numLocalStack (wsShared s) - hasShared (wsLocal s p) + hasShared lw"
    and "hasShared lw = 1 \<or> hasShared lw = 0 \<and> workless lw"
  shows "winv n (s\<lparr>wsShared := ss, wsLocal := (wsLocal s)(p := lw)\<rparr>)"
  using assms sum_upd [OF p, of hasShared "wsLocal s" lw] by (simp add: winv_def)

lemma cancel_exchange:
  fixes a b :: "'a multiset"
  assumes "a' + b' = a + b" and "s' + b = s + b'" shows "a' + s' = a + s"
proof -
  have "(a' + s') + (b + b') = (a' + b') + (s' + b)" by (simp only: ac_simps)
  also have "\<dots> = (a + s) + (b + b')" unfolding assms by (simp only: ac_simps)
  finally show ?thesis by simp
qed

lemma wtotal_upd:
  assumes "p < n" and "witems (ssWork ss) f + witems lw f = witems (ssWork (wsShared s)) f + witems (wsLocal s p) f"
  shows "wtotal n (s\<lparr>wsShared := ss, wsLocal := (wsLocal s)(p := lw)\<rparr>) f = wtotal n s f"
proof -
  have "(\<Sum>q<n. witems (((wsLocal s)(p := lw)) q) f) + witems (wsLocal s p) f =
      (\<Sum>q<n. witems (wsLocal s q) f) + witems lw f"
    using sum_upd [OF assms(1), of "\<lambda>l. witems l f" "wsLocal s" lw] .
  from cancel_exchange [OF assms(2) this] show ?thesis by (simp add: wtotal_def)
qed

lemma resetSharedStack_ok:
  assumes "resetSharedStack ss lw False = Inr (ss', lw')"
  shows "hasShared lw = 0" "ss' = ss\<lparr>numLocalStack := numLocalStack ss + 1\<rparr>" "lw' = lw\<lparr>hasShared := 1\<rparr>"
  using assms by (auto simp: resetSharedStack_def Let_def)

lemma hasShared_upd [simp]:
  "lw_ok (lw\<lparr>hasShared := x\<rparr>) = lw_ok lw" "witems (lw\<lparr>hasShared := x\<rparr>) = witems lw"
  by (simp_all add: lw_ok_def witems_def fun_eq_iff)

lemma wstep_inv:
  assumes rnd: "rounding rnd" and st: "wstep rnd fs n l s s'" and inv: "winv n s"
  shows "winv n s' \<and> (l = Transfer \<longrightarrow> (\<forall>f. doubleProcess (wsShared s) \<or> f \<in> set workFields \<longrightarrow> wtotal n s' f = wtotal n s f))"
  using st
proof (cases rule: wstep.cases)
  case (ws_pop p ss' lw')
  note i = winvD [OF inv ws_pop(3)]
  have r: "lw_ok (ssWork ss')" "lw_ok lw'"
    "\<forall>f. witems (ssWork ss') f + witems lw' f = witems (ssWork (wsShared s)) f + witems (wsLocal s p) f"
    "hasShared lw' = 0 \<or> hasShared lw' = 1" "hasShared (ssWork ss') = hasShared (ssWork (wsShared s))"
    "numLocalStack ss' = numLocalStack (wsShared s) + hasShared lw'"
    "hasShared lw' = 0 \<longrightarrow> (\<forall>f. witems lw' f = witems (wsLocal s p) f)"
    using popSharedStack_ok [OF rnd i(1,3) ws_pop(5,4) i(7), of n] ws_pop(6) by auto
  have "workless lw'" if "hasShared lw' = 0"
    using i(5) ws_pop(4) r(7) that by (simp add: workless_def)
  then show ?thesis
    unfolding ws_pop(2) using r i(2) ws_pop(4) by (auto intro!: winvI [OF inv ws_pop(3)] wtotal_upd [OF ws_pop(3)] simp del: fun_upd_apply)
next
  case (ws_push p isLast e ss' lw')
  note i = winvD [OF inv ws_push(3)]
  have r: "lw_ok (ssWork ss')" "lw_ok lw'"
    "\<forall>f. witems (ssWork ss') f = witems (ssWork (wsShared s)) f + (if f \<in> pushedFields (wsShared s) then witems (wsLocal s p) f else {#})"
    "\<forall>f. witems lw' f = (if f \<in> pushedFields (wsShared s) then {#} else witems (wsLocal s p) f)"
    "hasShared lw' = 0" "hasShared (ssWork ss') = hasShared (ssWork (wsShared s))"
    "numLocalStack ss' = numLocalStack (wsShared s) - hasShared (wsLocal s p)"
    using pushSharedStack_ok [OF i(1,3) ws_push(4) i(4,6), of isLast] ws_push(5) by auto
  have "workless lw'" using r(4) by (simp add: workless_def pushedFields_def)
  then show ?thesis
    unfolding ws_push(2) using r i(2) by (auto intro!: winvI [OF inv ws_push(3)] wtotal_upd [OF ws_push(3)] simp del: fun_upd_apply)
next
  case (ws_reset p ss' lw')
  note i = winvD [OF inv ws_reset(3)] and r = resetSharedStack_ok [OF ws_reset(4)]
  show ?thesis
    unfolding ws_reset(2) r(2,3) using r(1) i by (auto intro!: winvI [OF inv ws_reset(3)] wtotal_upd [OF ws_reset(3)] simp del: fun_upd_apply)
next
  case (ws_compute p lw')
  note i = winvD [OF inv ws_compute(3)]
  have "winv n (s\<lparr>wsShared := wsShared s, wsLocal := (wsLocal s)(p := lw')\<rparr>)"
    using ws_compute i by (intro winvI [OF inv ws_compute(3)]) auto
  then show ?thesis unfolding ws_compute(1,2) by simp
qed

lemma winit_inv: "winit n s \<Longrightarrow> winv n s"
  by (simp add: winit_def winv_def)

lemma wreach_inv: "wreach rnd fs n s0 s \<Longrightarrow> rounding rnd \<Longrightarrow> winv n s0 \<Longrightarrow> winv n s"
  by (induction rule: wreach.induct) (auto dest: wstep_inv)

lemma work_fields_tracked: "lw_ok w \<Longrightarrow> isLocalWorkEmpty w \<longleftrightarrow> workless w \<and> hasShared w = 0"
  by (simp add: isLocalWorkEmpty_items workless_def)


text \<open>C22: Fetching and giving back work moves items and never creates, loses or duplicates one: the
  items of the shared stack and of all local stacks together stay the same, for every set that is
  moved.  A fetch that gets nothing means that the shared stack is empty.\<close>

theorem shared_work_conserved:
  assumes "rounding rnd" and "winit n s0" and "wreach rnd fs n s0 s"
  shows "(wstep rnd fs n Transfer s s' \<longrightarrow> f \<in> set workFields \<longrightarrow> wtotal n s' f = wtotal n s f) \<and>
         (p < n \<longrightarrow> hasShared (wsLocal s p) = 0 \<longrightarrow> fetch_ok fs (wsLocal s p) \<longrightarrow>
            (\<exists>ss' lw'. popSharedStack rnd fs n (wsShared s) (wsLocal s p) = Inr (ss', lw') \<and>
               (hasShared lw' = 0 \<longrightarrow> isLocalWorkEmpty (ssWork (wsShared s)))))"
proof -
  have inv: "winv n s" using wreach_inv [OF assms(3,1) winit_inv [OF assms(2)]] .
  have "wstep rnd fs n Transfer s s' \<Longrightarrow> f \<in> set workFields \<Longrightarrow> wtotal n s' f = wtotal n s f"
    using wstep_inv [OF assms(1) _ inv, of fs Transfer s'] by blast
  moreover have "\<exists>ss' lw'. popSharedStack rnd fs n (wsShared s) (wsLocal s p) = Inr (ss', lw') \<and>
      (hasShared lw' = 0 \<longrightarrow> isLocalWorkEmpty (ssWork (wsShared s)))"
    if p: "p < n" "hasShared (wsLocal s p) = 0" "fetch_ok fs (wsLocal s p)"
    using popSharedStack_ok [OF assms(1) winvD(1,3) [OF inv p(1)] p(3,2) winvD(7) [OF inv p(1)], of n]
      winvD(1,2) [OF inv p(1)] by (auto simp: work_fields_tracked workless_def)
  ultimately show ?thesis by blast
qed

subsection \<open>A start state with the sizes of the code\<close>

definition wdemo :: wsys where
  \<comment> \<open>the shared stack of \<open>gc_gen_conc.c\<close> and the local work of \<open>thread_init\<close>\<close>
  "wdemo = \<lparr>wsShared = SharedStack_Alloc True 100 16384 12288 98304 16384 2048 262144,
            wsLocal = (\<lambda>_. init_localWork 16384 16384 8192 4096 128 2048 4096)\<rparr>"

lemma SetInit_base: "16 \<le> sz \<Longrightarrow> base_ok (SetInit sz)"
  using SetInit_ok [of sz] by (simp add: base_ok_def SetInit_def)

lemma SetInit_sel: "slast (SetInit sz) = 0" "ssize (SetInit sz) = max 16 sz" "set_items (SetInit sz) = []"
  by (simp_all add: SetInit_def set_items_def)

lemma init_localWork_ok:
  assumes "16 \<le> a" "16 \<le> b" "16 \<le> c" "16 \<le> d" "16 \<le> e" "16 \<le> g" "16 \<le> h"
  shows "lw_ok (init_localWork a b c d e g h) \<and> workless (init_localWork a b c d e g h) \<and>
         hasShared (init_localWork a b c d e g h) = 0 \<and> (\<forall>f. slast (lset (init_localWork a b c d e g h) f) = 0)"
proof -
  have "lset (init_localWork a b c d e g h) f \<in> SetInit ` {16..}" for f
    using assms by (cases f) (auto simp: init_localWork_def)
  then have "base_ok (lset (init_localWork a b c d e g h) f) \<and> slast (lset (init_localWork a b c d e g h) f) = 0 \<and>
      set_items (lset (init_localWork a b c d e g h) f) = []" for f
    by (metis (no_types, lifting) SetInit_base SetInit_sel(1,3) atLeast_iff imageE)
  then show ?thesis by (simp add: lw_ok_def workless_def witems_def) (simp add: init_localWork_def)
qed

lemma wdemo_init: "winit n wdemo"
  by (simp add: winit_def wdemo_def SharedStack_Alloc_def init_localWork_ok)

lemma wdemo_fetch: "fetch_ok defaultFetchSizes (wsLocal wdemo p)"
  by (simp add: fetch_ok_def popOrder_def defaultFetchSizes_def entry_ok_def wdemo_def init_localWork_def
      SetInit_sel regionSize_def segSize_def)

lemma wdemo_size: "0 < ssize (lset (ssWork (wsShared wdemo)) f)"
  by (cases f) (simp_all add: wdemo_def SharedStack_Alloc_def init_localWork_def SetInit_sel)

definition wdemo1 :: wsys where
  \<comment> \<open>processor 0 has announced that it may hold work\<close>
  "wdemo1 = wdemo\<lparr>wsShared := (wsShared wdemo)\<lparr>numLocalStack := 1\<rparr>,
                  wsLocal := (wsLocal wdemo)(0 := (wsLocal wdemo 0)\<lparr>hasShared := 1\<rparr>)\<rparr>"

lemma wdemo_reset: "resetSharedStack (wsShared wdemo) (wsLocal wdemo 0) False =
    Inr ((wsShared wdemo)\<lparr>numLocalStack := 1\<rparr>, (wsLocal wdemo 0)\<lparr>hasShared := 1\<rparr>)"
  by (simp add: resetSharedStack_def wdemo_def SharedStack_Alloc_def init_localWork_def Let_def)

lemma wdemo_step: "wstep rnd defaultFetchSizes 2 Transfer wdemo wdemo1"
  using ws_reset [OF _ wdemo_reset, of 2 rnd defaultFetchSizes] by (simp add: wdemo1_def)



lemma wdemo1_fits: "push_fits (wsShared wdemo1) (wsLocal wdemo1 0)"
proof -
  have "slast (lset (ssWork (wsShared wdemo)) f) = 0" "slast (lset (wsLocal wdemo q) f) = 0" for f q
    by (simp_all add: wdemo_def SharedStack_Alloc_def init_localWork_ok)
  then show ?thesis using wdemo_size by (simp add: push_fits_def wdemo1_def)
qed


theorem shared_work_conserved_witness:
  "wtotal 2 wdemo1 Objs = wtotal 2 wdemo Objs \<and>
   (\<exists>ss' lw'. popSharedStack (\<lambda>x. x) defaultFetchSizes 2 (wsShared wdemo) (wsLocal wdemo 1) = Inr (ss', lw'))"
proof -
  have h: "hasShared (wsLocal wdemo 1) = 0" by (simp add: wdemo_def init_localWork_def)
  show ?thesis
    using shared_work_conserved [where n = 2 and fs = defaultFetchSizes and s' = wdemo1 and f = Objs and p = 1,
        OF rounding_id wdemo_init wreach_refl]
      wdemo_step wdemo_fetch [of 1] h by (simp add: workFields_def) blast
qed

end
