(* ===== verification/ParWork.thy ===== *)
theory ParWork
  imports BigArray SharedStack
begin

text \<open>
  What the four parallel and concurrent collectors share.  The state \<open>conc\<close> joins the state of a
  collection (theory \<open>Collector\<close>) with the shared work stack; each processor has its own work lists,
  copy range and counters, kept in \<open>procGc\<close>, and \<open>onProc\<close> runs a piece of a collector on one of
  them.  The model of the shared stack has the ten work lists as a function of the field; \<open>areaOf\<close> and
  \<open>workOf\<close> convert.  The loops of the collectors that stop when a processor has done its share are
  \<open>limited\<close>.
\<close>

subsection \<open>The state\<close>

record parenv =
  peCol :: collenv
  peFetch :: fetchSizes
  peSharing :: bool                \<comment> \<open>\<open>!noSharing\<close>\<close>
  peTrack :: bool                  \<comment> \<open>\<open>!noWorkTrack\<close>\<close>
  peGrayAsReplica :: bool
  peAgressive :: bool              \<comment> \<open>\<open>doAgressive\<close>\<close>
  peMinorAgressive :: bool
  peRelaxed :: bool
  peGenStack :: bool               \<comment> \<open>\<open>useGenStack\<close>\<close>
  peMinOff :: int                  \<comment> \<open>\<open>minOffRequest\<close>\<close>
  peMaxOff :: int
  peReserve :: nat                 \<comment> \<open>\<open>tenuredReserve\<close>\<close>
  peUninit :: "int \<times> int"          \<comment> \<open>the uninitialized counters of \<open>work_root_scan\<close>\<close>

record conc =
  col :: collector
  wstk :: sharedStack
  procGc :: "nat \<Rightarrow> gcst"           \<comment> \<open>what each processor has of its own\<close>
  ccfg :: config                   \<comment> \<open>the settings; the offsets of primary and replica change at a flip\<close>
  totalRequest :: int
  totalUnused :: int
  totalReplicated :: int
  expandedSize :: int
  reducedSize :: int
  reducedNursery :: nat
  maximumNursery :: nat
  nextType :: bool                 \<comment> \<open>\<open>nextGCType == Major\<close> of the first processor\<close>

definition cE :: "parenv \<Rightarrow> conc \<Rightarrow> collenv" where
  "cE E s = (peCol E)\<lparr>cCfg := ccfg s\<rparr>"

definition cA :: "parenv \<Rightarrow> raddr" where
  "cA E = cAddr (peCol E)"

definition loadProc :: "nat \<Rightarrow> conc \<Rightarrow> conc" where
  \<comment> \<open>make what processor \<open>p\<close> has of its own the current one; memory, heaps and the bitmaps are shared\<close>
  "loadProc p s = (let g = cgc (col s) in
     s\<lparr>col := (col s)\<lparr>cgc := (procGc s p)\<lparr>mem := mem g, hp := hp g, allocMap := allocMap g, markMap := markMap g\<rparr>\<rparr>\<rparr>)"

definition saveProc :: "nat \<Rightarrow> conc \<Rightarrow> conc" where
  "saveProc p s = s\<lparr>procGc := (procGc s)(p := cgc (col s))\<rparr>"

definition onProc :: "nat \<Rightarrow> (conc \<Rightarrow> ('a \<times> conc) result) \<Rightarrow> conc \<Rightarrow> ('a \<times> conc) result" where
  "onProc p f s = bindE (f (loadProc p s)) (\<lambda>(x, s). Inr (x, saveProc p s))"

definition onProc1 :: "nat \<Rightarrow> (conc \<Rightarrow> conc result) \<Rightarrow> conc \<Rightarrow> conc result" where
  "onProc1 p f s = bindE (f (loadProc p s)) (\<lambda>s. Inr (saveProc p s))"

definition onCol :: "(collector \<Rightarrow> collector result) \<Rightarrow> conc \<Rightarrow> conc result" where
  "onCol f s = bindE (f (col s)) (\<lambda>c. Inr (s\<lparr>col := c\<rparr>))"

definition onView :: "parenv \<Rightarrow> nat \<Rightarrow> (gcst \<Rightarrow> gcst result) \<Rightarrow> conc \<Rightarrow> conc result" where
  \<comment> \<open>run a routine of the copying code on the whole memory\<close>
  "onView E p f = onCol (onGc (cA E) p f)"

definition lwork :: "conc \<Rightarrow> localWork" where
  "lwork s = work (cgc (col s))"

definition setWork :: "localWork \<Rightarrow> conc \<Rightarrow> conc" where
  "setWork w s = s\<lparr>col := (col s)\<lparr>cgc := (cgc (col s))\<lparr>work := w\<rparr>\<rparr>\<rparr>"

definition cproc :: "nat \<Rightarrow> conc \<Rightarrow> sproc" where
  "cproc p s = Procs (csch (col s)) ! p"

definition updSch :: "(sched \<Rightarrow> sched) \<Rightarrow> conc \<Rightarrow> conc" where
  "updSch f s = s\<lparr>col := (col s)\<lparr>csch := f (csch (col s))\<rparr>\<rparr>"

definition markSeg :: "32 word \<Rightarrow> conc \<Rightarrow> conc" where
  "markSeg w s = s\<lparr>col := markSegment w (col s)\<rparr>"

definition FlipTransition :: "32 word" where "FlipTransition = 16"

subsection \<open>The shared work stack\<close>

definition areaOf :: "localWork \<Rightarrow> workArea" where
  "areaOf w = \<lparr>lset = (\<lambda>f. case f of Objs \<Rightarrow> objs w | GrayRegion \<Rightarrow> grayRegion w | Globals \<Rightarrow> globals w
       | Roots \<Rightarrow> roots w | Segments \<Rightarrow> segments w | StackletSet \<Rightarrow> stacklets w | BackObjs \<Rightarrow> backObjs w
       | BackLocs \<Rightarrow> backLocs w | NextBackObjs \<Rightarrow> nextBackObjs w | NextBackLocs \<Rightarrow> nextBackLocs w),
     hasShared = int (localWork.hasShared w)\<rparr>"

definition workOf :: "workArea \<Rightarrow> localWork" where
  "workOf a = \<lparr>objs = lset a Objs, grayRegion = lset a GrayRegion, globals = lset a Globals, roots = lset a Roots,
     segments = lset a Segments, stacklets = lset a StackletSet, backObjs = lset a BackObjs, backLocs = lset a BackLocs,
     nextBackObjs = lset a NextBackObjs, nextBackLocs = lset a NextBackLocs, hasShared = nat (workArea.hasShared a)\<rparr>"

lemma workOf_areaOf [simp]: "workOf (areaOf w) = w"
  by (simp add: workOf_def areaOf_def)

definition popShared :: "parenv \<Rightarrow> conc \<Rightarrow> conc result" where
  "popShared E s = bindE (popSharedStack (cRnd (peCol E)) (peFetch E) (length (Procs (csch (col s)))) (wstk s) (areaOf (lwork s)))
     (\<lambda>(ss, lw). Inr (setWork (workOf lw) (s\<lparr>wstk := ss\<rparr>)))"

definition pushShared :: "bool \<Rightarrow> bool \<Rightarrow> conc \<Rightarrow> (bool \<times> conc) result" where
  \<comment> \<open>\<open>isLast\<close>: the processor leaves the room last\<close>
  "pushShared conditional isLast s = bindE (pushSharedStack conditional isLast (wstk s) (areaOf (lwork s)))
     (\<lambda>(b, ss, lw). Inr (b, setWork (workOf lw) (s\<lparr>wstk := ss\<rparr>)))"

definition resetShared :: "bool \<Rightarrow> conc \<Rightarrow> conc result" where
  "resetShared getNext s = bindE (resetSharedStack (wstk s) (areaOf (lwork s)) getNext)
     (\<lambda>(ss, lw). Inr (setWork (workOf lw) (s\<lparr>wstk := ss\<rparr>)))"

subsection \<open>Loops that a processor leaves when it has done its share\<close>

definition orNull :: "addr \<times> gcst \<Rightarrow> addr option \<times> gcst" where
  "orNull r = (case r of (x, s) \<Rightarrow> (if x = NULL then None else Some x, s))"

definition takeSegment :: "gcst \<Rightarrow> (addr \<times> addr \<times> addr) option \<times> gcst" where
  "takeSegment s = (case SetPop3 (segments (work s)) of ((g, r), q) \<Rightarrow>
     (case r of None \<Rightarrow> None | Some (st, en) \<Rightarrow> if g = NULL then None else Some (g, st, en),
      s\<lparr>work := (work s)\<lparr>segments := q\<rparr>\<rparr>))"

definition takeBackLoc :: "gcst \<Rightarrow> addr \<times> gcst" where
  "takeBackLoc s = (case SetPop (backLocs (work s)) of (x, q) \<Rightarrow> (x, s\<lparr>work := (work s)\<lparr>backLocs := q\<rparr>\<rparr>))"

definition noLimit :: "config \<Rightarrow> usage \<Rightarrow> bool \<times> usage" where
  \<comment> \<open>no test for the share\<close>
  "noLimit cfg u = (False, u)"

fun limited ::
    "nat \<Rightarrow> (config \<Rightarrow> usage \<Rightarrow> bool \<times> usage) \<Rightarrow> config \<Rightarrow> (gcst \<Rightarrow> 'x option \<times> gcst) \<Rightarrow> ('x \<Rightarrow> gcst \<Rightarrow> gcst result) \<Rightarrow> gcst \<Rightarrow> gcst result" where
  \<comment> \<open>\<open>while (!reached(proc) && (x = pick()) != NULL) f(x)\<close>\<close>
  "limited 0 reached cfg pick f s = Inl OutOfFuel"
| "limited (Suc n) reached cfg pick f s =
     (case reached cfg (segUsage s) of (b, u) \<Rightarrow> let s = s\<lparr>segUsage := u\<rparr> in
      if b then Inr s
      else case pick s of (None, s) \<Rightarrow> Inr s | (Some x, s) \<Rightarrow> bindE (f x s) (limited n reached cfg pick f))"

lemma limited_noLimit:
  \<comment> \<open>without a share the loop drains the work list, as the code writes it when \<open>noWorkTrack\<close> is set\<close>
  "limited n noLimit cfg (\<lambda>s. orNull (pick s)) f s = drain n pick f s"
proof (induction n arbitrary: s)
  case (Suc n)
  obtain x s1 where p: "pick s = (x, s1)" by fastforce
  have "limited n noLimit cfg (\<lambda>s. orNull (pick s)) f = drain n pick f" by (rule ext) (rule Suc.IH)
  moreover have o: "orNull (x, s1) = (if x = NULL then None else Some x, s1)" for x by (simp add: orNull_def)
  ultimately show ?case
    by (cases "x = NULL") (simp_all add: noLimit_def [of cfg "segUsage s"] o p)
qed simp

definition countRoot :: "gcst \<Rightarrow> gcst" where
  "countRoot s = updUsage (\<lambda>u. u\<lparr>rootsProcessed := rootsProcessed u + 1\<rparr>) s"

definition countGlobal :: "gcst \<Rightarrow> gcst" where
  "countGlobal s = updUsage (\<lambda>u. u\<lparr>globalsProcessed := globalsProcessed u + 1\<rparr>) s"

definition onReplicaGlobal :: "config \<Rightarrow> (addr \<Rightarrow> gcst \<Rightarrow> gcst result) \<Rightarrow> addr \<Rightarrow> gcst \<Rightarrow> gcst result" where
  \<comment> \<open>the operation on \<open>DupGlobal(globalLoc)\<close>\<close>
  "onReplicaGlobal cfg f g s = (case DupGlobal cfg g (mem s) of (l, m) \<Rightarrow> f l (s\<lparr>mem := m\<rparr>))"

definition toScan :: "nat \<Rightarrow> conc \<Rightarrow> rscan" where
  \<comment> \<open>the state of the stack scan\<close>
  "toScan p s = (let c = col s in
     \<lparr>rsSched = csch c, rsTrace = (ctr c)\<lparr>tRoots := roots (lwork s), tUsage := prUsage (cproc p s)\<rparr>,
      rsStacklets = stacklets (lwork s), TotalStackDepth = depthTotal c, MaxStackDepth = depthMax c,
      TotalStackSize = sizeTotal c\<rparr>)"

definition fromScan :: "nat \<Rightarrow> rscan \<Rightarrow> conc \<Rightarrow> conc" where
  "fromScan p r s = (let c = col s in
     s\<lparr>col := c\<lparr>csch := updPr p (\<lambda>pr. pr\<lparr>prUsage := tUsage (rsTrace r)\<rparr>) (rsSched r), ctr := rsTrace r,
        cgc := (cgc c)\<lparr>work := (lwork s)\<lparr>roots := tRoots (rsTrace r), stacklets := rsStacklets r\<rparr>\<rparr>,
        depthTotal := TotalStackDepth r, depthMax := MaxStackDepth r, sizeTotal := TotalStackSize r\<rparr>\<rparr>)"

fun stackletLoop ::
    "nat \<Rightarrow> (config \<Rightarrow> usage \<Rightarrow> bool \<times> usage) \<Rightarrow> parenv \<Rightarrow> nat \<Rightarrow> conc \<Rightarrow> conc result" where
  \<comment> \<open>scan stacklets; one that is not finished goes back\<close>
  "stackletLoop 0 reached E p s = Inl OutOfFuel"
| "stackletLoop (Suc n) reached E p s =
     (case reached (ccfg s) (prUsage (cproc p s)) of (b, u) \<Rightarrow>
      let s = updSch (updPr p (\<lambda>pr. pr\<lparr>prUsage := u\<rparr>)) s in
      if b \<or> SetIsEmpty (stacklets (lwork s)) then Inr s
      else case SetPop (stacklets (lwork s)) of (i, q) \<Rightarrow>
        let s = setWork ((lwork s)\<lparr>stacklets := q\<rparr>) s in
        bindE (work_root_scan (ccfg s) (peGenStack E) (cEnv (peCol E)) (cA E) (fst (peUninit E)) (snd (peUninit E)) i (toScan p s)) (\<lambda>(ok, r).
        let s = fromScan p r s in
        bindE (if ok then Inr s
               else bindE (SetPush (stacklets (lwork s)) i) (\<lambda>q. Inr (setWork ((lwork s)\<lparr>stacklets := q\<rparr>) s))) (\<lambda>s.
        stackletLoop n reached E p s)))"

subsection \<open>Common pieces\<close>

definition resizeC :: "parenv \<Rightarrow> nat \<Rightarrow> nat \<Rightarrow> bool \<Rightarrow> conc \<Rightarrow> conc result" where
  \<comment> \<open>\<open>Heap_Resize\<close> of heap \<open>h\<close>\<close>
  "resizeC E h n reset s =
     bindE (Heap_Resize (cMprot (peCol E)) (cParanoid (peCol E)) (cheap h (col s)) n reset) (\<lambda>x.
     Inr (s\<lparr>col := setHeap h x (col s)\<rparr>))"

definition freshPages :: "nat \<Rightarrow> conc \<Rightarrow> conc result" where
  \<comment> \<open>\<open>Heap_ResetFreshPages\<close>; the number of pages only enters statistics\<close>
  "freshPages h s = bindE (Heap_ResetFreshPages (cheap h (col s))) (\<lambda>(n, x). Inr (s\<lparr>col := setHeap h x (col s)\<rparr>))"

definition areaC :: "nat \<Rightarrow> nat \<Rightarrow> int \<Rightarrow> conc \<Rightarrow> conc" where
  \<comment> \<open>\<open>GetHeapArea(heap, roundSize, ...)\<close> into the allocation area of processor \<open>p\<close>\<close>
  "areaC p h n s = (case GetHeapArea (cheap h (col s)) (nat n) of ((a, b, l), x) \<Rightarrow>
     updSch (updPr p (\<lambda>pr. pr\<lparr>prAllocStart := a, prAllocCursor := b, prAllocLimit := l\<rparr>)) (s\<lparr>col := setHeap h x (col s)\<rparr>))"

definition satisfiable :: "parenv \<Rightarrow> nat \<Rightarrow> nat \<Rightarrow> conc \<Rightarrow> bool result" where
  "satisfiable E p t s = GCSatisfiable (ccfg s) p t (csch (col s))"

definition writelistP :: "parenv \<Rightarrow> nat \<Rightarrow> range_t option \<Rightarrow> conc \<Rightarrow> conc result" where
  "writelistP E p old s = onCol (writelistC (cE E s) p old) s"

definition addUnused :: "nat \<Rightarrow> conc \<Rightarrow> conc" where
  \<comment> \<open>\<open>FetchAndAdd(&totalUnused, ...)\<close>\<close>
  "addUnused p s = s\<lparr>totalUnused := totalUnused s + unusedBytes p (col s)\<rparr>"

definition addRequest :: "nat \<Rightarrow> conc \<Rightarrow> conc" where
  \<comment> \<open>an allocation request of thread \<open>t\<close>\<close>
  "addRequest t s = (let r = requestInfo (Threads (csch (col s)) ! t) in
     if r \<ge> 0 then s\<lparr>totalRequest := totalRequest s + r\<rparr> else s)"

fun jobLoop :: "nat \<Rightarrow> (nat \<Rightarrow> conc \<Rightarrow> conc result) \<Rightarrow> conc \<Rightarrow> conc result" where
  \<comment> \<open>\<open>while ((curThread = NextJob()) != NULL) f(curThread)\<close>\<close>
  "jobLoop 0 f s = Inl OutOfFuel"
| "jobLoop (Suc n) f s =
     (case NextJob (csch (col s)) of (r, sc) \<Rightarrow> let s = updSch (\<lambda>_. sc) s in
      case r of None \<Rightarrow> Inr s | Some t \<Rightarrow> bindE (f t s) (jobLoop n f))"

definition scanThread :: "(senv \<Rightarrow> raddr \<Rightarrow> nat \<Rightarrow> rscan \<Rightarrow> rscan result) \<Rightarrow> parenv \<Rightarrow> nat \<Rightarrow> nat \<Rightarrow> conc \<Rightarrow> conc result" where
  "scanThread f E p t s = bindE (f (cEnv (peCol E)) (cA E) t (toScan p s)) (\<lambda>r. Inr (fromScan p r s))"

definition majorGlobalScan :: "conc \<Rightarrow> conc result" where
  "majorGlobalScan = onCol majorGlobals"

definition minorGlobalScan :: "conc \<Rightarrow> conc result" where
  "minorGlobalScan s = bindE (minor_global_scan (cgl (col s)) (globals (lwork s))) (\<lambda>q.
     Inr (setWork ((lwork s)\<lparr>globals := q\<rparr>) s))"

definition addMax :: "nat \<Rightarrow> int \<Rightarrow> conc \<Rightarrow> conc" where
  \<comment> \<open>\<open>addMaxWork(proc, n)\<close>\<close>
  "addMax p n s = updSch (updPr p (\<lambda>pr. pr\<lparr>prUsage := addMaxWork (prUsage pr) n\<rparr>)) s"

definition resetNull :: "nat \<Rightarrow> conc \<Rightarrow> conc" where
  \<comment> \<open>\<open>ResetAllocation(proc, NULL)\<close>\<close>
  "resetNull p s = updSch (\<lambda>sc. snd (ResetAllocation p None sc)) s"

definition almostEmpty :: "conc \<Rightarrow> bool" where
  "almostEmpty s = isLocalWorkAlmostEmpty (areaOf (lwork s))"

definition workEmpty :: "conc \<Rightarrow> bool" where
  "workEmpty s = isLocalWorkEmpty (areaOf (lwork s))"

definition noShared :: "conc \<Rightarrow> bool" where
  \<comment> \<open>\<open>proc->work.hasShared == 0\<close>\<close>
  "noShared s \<longleftrightarrow> localWork.hasShared (lwork s) = 0"

definition fromRange :: "conc \<Rightarrow> range_t" where
  "fromRange s = hrange (cheap (fromSp (col s)) (col s))"

definition nurseryRange :: "conc \<Rightarrow> range_t" where
  "nurseryRange s = hrange (cheap (nurserySp (col s)) (col s))"

definition toRange :: "conc \<Rightarrow> range_t" where
  "toRange s = hrange (cheap (toSp (col s)) (col s))"

definition largeRange :: "conc \<Rightarrow> range_t" where
  "largeRange s = hrange (cheap (largeSpace (ccfg s)) (col s))"

end
