(* ===== verification/ParCollect.thy ===== *)
theory ParCollect
  imports ParWork
begin

text \<open>
  The two parallel collectors, \<open>Runtime/sparc/gc_semi_para.c\<close> and \<open>gc_gen_para.c\<close>.  All processors run
  \<open>stop_copy\<close> (\<open>GCCollect_GenPara\<close>) together; the barriers divide it into pieces, and each piece is
  one definition here.  The flag \<open>first\<close> tells the processor that arrived first at the weak barrier,
  which alone prepares and swaps the heaps.  The loop between the barriers takes work from the shared
  stack, scans, and gives work back until the stack reports that all is done.  The functions
  \<open>stop_copy\<close> and \<open>GCCollect_GenPara\<close> compose the pieces for a single processor.
\<close>

subsection \<open>Helpers\<close>

definition copyRangeC :: "nat \<Rightarrow> conc \<Rightarrow> conc" where
  \<comment> \<open>\<open>SetCopyRange(&proc->copyRange, proc, heap, NULL)\<close>\<close>
  "copyRangeC h s = s\<lparr>col := (col s)\<lparr>cgc := SetCopyRange h (cgc (col s))\<rparr>\<rparr>"

definition emptyWritelist :: "nat \<Rightarrow> conc \<Rightarrow> unit result" where
  "emptyWritelist p s = assertE (writelistEmpty p (col s)) ''writelistCursor == writelistStart''"

definition flipHeaps :: "parenv \<Rightarrow> heap \<Rightarrow> conc \<Rightarrow> conc result" where
  \<comment> \<open>install the new size of to-space, discard from-space, swap\<close>
  "flipHeaps E to = (\<lambda>s. onCol (discardAndSwap (cE E s) to) s)"

definition countGC :: "conc \<Rightarrow> conc" where
  "countGC s = s\<lparr>col := (col s)\<lparr>NumGC := NumGC (col s) + 1\<rparr>\<rparr>"

definition countMajor :: "conc \<Rightarrow> conc" where
  "countMajor s = s\<lparr>col := (col s)\<lparr>NumMajorGC := NumMajorGC (col s) + 1\<rparr>\<rparr>"

definition adjust1 :: "parenv \<Rightarrow> int \<Rightarrow> nat \<Rightarrow> conc \<Rightarrow> heap result" where
  \<comment> \<open>\<open>HeapAdjust1(totalRequest, totalUnused, withhold, CollectionRate, phases, fromSpace, toSpace)\<close>\<close>
  "adjust1 E withhold phases s = (let C = peCol E; c = col s in
     HeapAdjust1 (cRnd C) (cSizes C) (cMprot C) (cParanoid C) (totalRequest s) (totalUnused s) withhold (cRate C) phases
       (cheap (fromSp c) c) (cheap (toSp c) c))"

definition adjust2 :: "parenv \<Rightarrow> int \<Rightarrow> nat \<Rightarrow> conc \<Rightarrow> heap result" where
  "adjust2 E withhold phases s = (let C = peCol E; c = col s in
     HeapAdjust2 (cRnd C) (cSizes C) (cMprot C) (cParanoid C) (totalRequest s) (totalUnused s) withhold (cRate C) phases
       (cheap (nurserySp c) c) (cheap (fromSp c) c) (cheap (toSp c) c))"

definition resetWork :: "conc \<Rightarrow> conc" where
  \<comment> \<open>the work lists of a new collection: jobs and totals\<close>
  "resetWork s = (updSch ResetJob s)\<lparr>totalRequest := 0, totalUnused := 0\<rparr>"

definition trackWork :: "parenv \<Rightarrow> (config \<Rightarrow> usage \<Rightarrow> bool \<times> usage) \<Rightarrow> config \<Rightarrow> usage \<Rightarrow> bool \<times> usage" where
  "trackWork E reached = (if peTrack E then reached else noLimit)"

subsection \<open>The parallel semispace collector\<close>

definition semiParaSignal :: "conc \<Rightarrow> conc" where
  "semiParaSignal s = updSch StopAllThreads (markSeg (MajorWork OR FlipOff OR FlipOn) s)"

definition semiParaPrepare :: "parenv \<Rightarrow> nat \<Rightarrow> bool \<Rightarrow> conc \<Rightarrow> conc result" where
  "semiParaPrepare E p first s =
     bindE (if first then
         bindE (assertE (isEmptySharedStack (wstk s)) ''isEmptySharedStack(workStack)'') (\<lambda>_.
         bindE (resizeC E (toSp (col s)) (Heap_GetMaximumSize (cheap (toSp (col s)) (col s))) True s) (\<lambda>s.
         Inr (resetWork s)))
       else Inr s) (\<lambda>s.
     bindE (assertE (almostEmpty s) ''isLocalWorkAlmostEmpty'') (\<lambda>_.
     bindE (emptyWritelist p s) (\<lambda>_.
     if peSharing E then resetShared False s else Inr s)))"

definition semiParaRoots :: "parenv \<Rightarrow> nat \<Rightarrow> bool \<Rightarrow> bool \<Rightarrow> conc \<Rightarrow> conc result" where
  "semiParaRoots E p first isLast s =
     bindE (let s = copyRangeC (toSp (col s)) s in if first then majorGlobalScan s else Inr s) (\<lambda>s.
     bindE (jobLoop (cFuel (peCol E)) (\<lambda>t s. scanThread thread_root_scan E p t (addRequest t s)) (addUnused p s)) (\<lambda>s.
     let s = addMax p INT_MAX s in
     if peSharing E then bindE (pushShared False isLast s) (\<lambda>(_, s). Inr s) else Inr s))"

fun hybridPara :: "nat \<Rightarrow> parenv \<Rightarrow> config \<Rightarrow> range_t \<Rightarrow> gcst \<Rightarrow> gcst result" where
  \<comment> \<open>roots, globals and one gray region at a time until the share is done or nothing is left\<close>
  "hybridPara 0 E cfg from s = Inl OutOfFuel"
| "hybridPara (Suc n) E cfg from s =
     bindE (forwardRoots (Suc n) (\<lambda>l. locCopy1_copyCopySync cfg l from) s) (\<lambda>s.
     bindE (case takeGrayRegion s of ((start, stop), s') \<Rightarrow>
              if start = NULL then Inr s'
              else case stop of None \<Rightarrow> Inl (Overrun ''stop'') | Some e \<Rightarrow> scanRegion_locCopy1_copyCopySync (Suc n) cfg start e from s') (\<lambda>s.
     bindE (AddGrayCopyRange cfg s) (\<lambda>s.
     case trackWork E updateReachCheckWork cfg (segUsage s) of (b, u) \<Rightarrow>
     let s = s\<lparr>segUsage := u\<rparr> in
     if b \<or> SetIsEmpty (grayRegion (work s)) then Inr s else hybridPara n E cfg from s)))"

definition semiParaScan :: "parenv \<Rightarrow> nat \<Rightarrow> config \<Rightarrow> range_t \<Rightarrow> gcst \<Rightarrow> gcst result" where
  "semiParaScan E fuel cfg from s =
     (case ordering cfg of
        StackOrder \<Rightarrow>
          bindE (forwardRoots fuel (\<lambda>l. locCopy1_copyCopySync_replicaSet cfg l from) s)
            (limited fuel (trackWork E reachCheckWork) cfg (\<lambda>s. orNull (takeObj s))
               (\<lambda>gray. scanObj_locCopy1_copyCopySync_replicaSet cfg gray from))
      | HybridOrder \<Rightarrow>
          bindE (hybridPara fuel E cfg from s) (\<lambda>s.
          bindE (assertE (crStart (copyRg s) = crCursor (copyRg s)) ''copyRange.start == copyRange.cursor'') (\<lambda>_. Inr s))
      | _ \<Rightarrow> Inl (Die ''bad ordering''))"

definition semiParaRound :: "parenv \<Rightarrow> nat \<Rightarrow> bool \<Rightarrow> conc \<Rightarrow> (bool \<times> conc) result" where
  \<comment> \<open>one turn of the main loop; True: leave it\<close>
  "semiParaRound E p isLast s =
     bindE (if peSharing E then popShared E s else Inr s) (\<lambda>s.
     bindE (onView E p (semiParaScan E (cFuel (peCol E)) (ccfg s) (fromRange s)) s) (\<lambda>s.
     if peSharing E then pushShared False isLast s
     else Inr (SetIsEmpty (objs (lwork s)) \<and> SetIsEmpty (grayRegion (lwork s)), s)))"

definition semiParaFinish :: "parenv \<Rightarrow> nat \<Rightarrow> conc \<Rightarrow> conc result" where
  "semiParaFinish E p s =
     bindE (assertE (workEmpty s) ''isLocalWorkEmpty'') (\<lambda>_. onView E p ClearCopyRange s)"

definition semiParaFlip :: "parenv \<Rightarrow> nat \<Rightarrow> bool \<Rightarrow> conc \<Rightarrow> conc result" where
  "semiParaFlip E p first s =
     bindE (if first then
         bindE (assertE (isEmptySharedStack (wstk s)) ''isEmptySharedStack(workStack)'') (\<lambda>_.
         bindE (adjust1 E 0 0 s) (\<lambda>to.
         bindE (flipHeaps E to s) (\<lambda>s. Inr (countGC s))))
       else Inr s) (\<lambda>s.
     let s = resetNull p s in bindE (emptyWritelist p s) (\<lambda>_. Inr s))"

fun roundLoop :: "nat \<Rightarrow> (conc \<Rightarrow> (bool \<times> conc) result) \<Rightarrow> conc \<Rightarrow> conc result" where
  "roundLoop 0 f s = Inl OutOfFuel"
| "roundLoop (Suc n) f s = bindE (f s) (\<lambda>(b, s). if b then Inr s else roundLoop n f s)"

definition stop_copy :: "parenv \<Rightarrow> nat \<Rightarrow> conc \<Rightarrow> conc result" where
  \<comment> \<open>the pieces for one processor, which arrives first and leaves last\<close>
  "stop_copy E p s =
     bindE (semiParaPrepare E p True (semiParaSignal s)) (\<lambda>s.
     bindE (semiParaRoots E p True True s) (\<lambda>s.
     bindE (roundLoop (cFuel (peCol E)) (semiParaRound E p True) s) (\<lambda>s.
     bindE (semiParaFinish E p s) (semiParaFlip E p True))))"

fun retryLoop :: "nat \<Rightarrow> (conc \<Rightarrow> conc result) \<Rightarrow> (conc \<Rightarrow> bool result) \<Rightarrow> conc \<Rightarrow> conc result" where
  \<comment> \<open>collect again until the request of the thread can be satisfied\<close>
  "retryLoop 0 f ok s = Inl OutOfFuel"
| "retryLoop (Suc n) f ok s = bindE (f s) (\<lambda>s. bindE (ok s) (\<lambda>b. if b then Inr s else retryLoop n f ok s))"

definition GC_SemiPara :: "(conc \<Rightarrow> conc result) \<Rightarrow> parenv \<Rightarrow> nat \<Rightarrow> nat \<Rightarrow> conc \<Rightarrow> conc result" where
  \<comment> \<open>\<open>stop\<close> is \<open>stop_copy\<close> as this processor runs it among the others\<close>
  "GC_SemiPara stop E p t s =
     (let info = requestInfo (Threads (csch (col s)) ! t); NumProc = int (length (Procs (csch (col s))));
          big = iRoundUp info (peMaxOff E);
          roundSize = (if int (Heap_GetAvail (cheap (fromSp (col s)) (col s))) \<le> NumProc * big then iRoundUp info (peMinOff E) else big);
          area = (\<lambda>s. areaC p (fromSp (col s)) roundSize s);
          again = retryLoop (cFuel (peCol E)) (\<lambda>s. bindE (stop s) (\<lambda>s. Inr (area s))) (satisfiable E p t) in
      bindE (writelistP E p None s) (\<lambda>s.
      bindE (satisfiable E p t s) (\<lambda>b.
      if b then Inr s
      else if info > 0 then let s = area s in if prAllocStart (cproc p s) \<noteq> NULL then Inr s else again s
      else again s)))"

definition GCPoll_SemiPara :: "(conc \<Rightarrow> conc result) \<Rightarrow> bool \<Rightarrow> parenv \<Rightarrow> nat \<Rightarrow> conc \<Rightarrow> conc result" where
  \<comment> \<open>\<open>waiting\<close>: \<open>checkBarrier(barriers, proc) > 0\<close>\<close>
  "GCPoll_SemiPara stop waiting E p s = (if waiting then bindE (writelistP E p None s) stop else Inr s)"

subsection \<open>The parallel generational collector\<close>

definition setMajor :: "bool \<Rightarrow> conc \<Rightarrow> conc" where
  "setMajor b s = s\<lparr>col := (col s)\<lparr>majorGC := b\<rparr>\<rparr>"

definition genParaPrepare :: "bool \<Rightarrow> conc \<Rightarrow> conc" where
  \<comment> \<open>a collection is major when the old space may be too small\<close>
  "genParaPrepare first s =
     (if first then resetWork (setMajor (Heap_GetAvail (cheap (fromSp (col s)) (col s)) < Heap_GetSize (cheap (nurserySp (col s)) (col s))) s)
      else s)"

definition genParaThread :: "parenv \<Rightarrow> nat \<Rightarrow> nat \<Rightarrow> conc \<Rightarrow> conc result" where
  "genParaThread E p t s =
     bindE (scanThread thread_root_scan E p t (addRequest t s)) (\<lambda>s.
     Inr (if \<not> majorGC (col s) \<and> request (Threads (csch (col s)) ! t) = MajorGCRequestFromC then setMajor True s else s))"

definition genParaRoots :: "parenv \<Rightarrow> nat \<Rightarrow> conc \<Rightarrow> conc result" where
  "genParaRoots E p s = jobLoop (cFuel (peCol E)) (genParaThread E p) (addUnused p s)"

definition genParaResize :: "parenv \<Rightarrow> nat \<Rightarrow> bool \<Rightarrow> conc \<Rightarrow> conc result" where
  "genParaResize E p first s =
     (let s = markSeg (FlipOff OR FlipOn OR (if majorGC (col s) then MajorWork else MinorWork)) s; c = col s in
      if first \<and> majorGC c then
        let toSpaceSize = Heap_GetMaximumSize (cheap (toSp c) c);
            maxLive = Heap_GetUsed (cheap (fromSp c) c) + Heap_GetSize (cheap (nurserySp c) c) in
        bindE (resizeC E (toSp c) (if maxLive \<ge> toSpaceSize then toSpaceSize else maxLive) True s) (onView E p gc_large_startCollect)
      else Inr s)"

definition genParaForward :: "parenv \<Rightarrow> nat \<Rightarrow> bool \<Rightarrow> conc \<Rightarrow> conc result" where
  \<comment> \<open>the write list, the globals, and forwarding all roots\<close>
  "genParaForward E p first s =
     (let major = majorGC (col s); fuel = cFuel (peCol E) in
      bindE (writelistP E p (if major then None else Some (fromRange s)) s) (\<lambda>s.
      bindE (if first then if major then majorGlobalScan s else minorGlobalScan s else Inr s) (\<lambda>s.
      let s = copyRangeC (if major then toSp (col s) else fromSp (col s)) s; cfg = ccfg s;
          nur = nurseryRange s; from = fromRange s; large = largeRange s in
      bindE (assertE (primaryGlobalOffset cfg = 0) ''primaryGlobalOffset == 0'') (\<lambda>_.
      bindE (onView E p (\<lambda>g.
          if \<not> major then
            bindE (forwardRoots fuel (\<lambda>l. locCopy1_copyCopySync_replicaSet cfg l nur) g)
              (drain fuel takeBackObj (\<lambda>b. scanObj_locCopy1_copyCopySync_replicaSet cfg b nur))
          else bindE (forwardRoots fuel (\<lambda>l. locCopy2L_copyCopySync_replicaSet cfg l nur from large) g) (\<lambda>g.
               Inr (g\<lparr>work := (work g)\<lparr>backObjs := SetReset (backObjs (work g))\<rparr>\<rparr>))) s) (\<lambda>s.
      if peSharing E then resetShared False s else Inr s)))))"

definition genParaShare :: "parenv \<Rightarrow> nat \<Rightarrow> bool \<Rightarrow> conc \<Rightarrow> conc result" where
  "genParaShare E p isLast s =
     bindE (if peSharing E then bindE (pushShared False isLast s) (\<lambda>(_, s). Inr s) else Inr s) (\<lambda>s.
     Inr (addMax p INT_MAX s))"

definition genParaRound :: "parenv \<Rightarrow> nat \<Rightarrow> bool \<Rightarrow> conc \<Rightarrow> (bool \<times> conc) result" where
  "genParaRound E p isLast s =
     bindE (if peSharing E then popShared E s else Inr s) (\<lambda>s.
     let cfg = ccfg s; nur = nurseryRange s; from = fromRange s; large = largeRange s in
     bindE (onView E p (limited (cFuel (peCol E)) reachCheckWork cfg (\<lambda>g. orNull (takeObj g))
         (if \<not> majorGC (col s) then (\<lambda>gray. scanObj_locCopy1_copyCopySync_replicaSet cfg gray nur)
          else (\<lambda>gray. scanObj_locCopy2L_copyCopySync_replicaSet cfg gray nur from large))) s) (\<lambda>s.
     if peSharing E then pushShared False isLast s else Inr (SetIsEmpty (objs (lwork s)), s)))"

definition genParaFinish :: "parenv \<Rightarrow> nat \<Rightarrow> conc \<Rightarrow> conc result" where
  "genParaFinish E p s =
     bindE (assertE (workEmpty s) ''isLocalWorkEmpty'') (\<lambda>_.
     onView E p (if majorGC (col s) then ClearCopyRange else PadCopyRange) s)"

definition genParaFlip :: "parenv \<Rightarrow> nat \<Rightarrow> bool \<Rightarrow> conc \<Rightarrow> conc result" where
  "genParaFlip E p first s =
     bindE (if first then
         bindE (if \<not> majorGC (col s)
                then bindE (minor_global_promote (cgl (col s))) (\<lambda>g. Inr (s\<lparr>col := (col s)\<lparr>cgl := g\<rparr>\<rparr>))
                else bindE (onView E p gc_large_endCollect s) (\<lambda>s.
                     bindE (adjust2 E 0 0 s) (\<lambda>to.
                     bindE (flipHeaps E to s) (\<lambda>s. Inr (countMajor s))))) (\<lambda>s.
         let c = col s in
         Inr (countGC (s\<lparr>col := setHeap (nurserySp c) (Heap_Reset (cheap (nurserySp c) c)) c\<rparr>)))
       else Inr s) (\<lambda>s.
     let s = resetNull p s in bindE (emptyWritelist p s) (\<lambda>_. Inr s))"

definition GCCollect_GenPara :: "parenv \<Rightarrow> nat \<Rightarrow> conc \<Rightarrow> conc result" where
  \<comment> \<open>the pieces for one processor\<close>
  "GCCollect_GenPara E p s =
     bindE (genParaRoots E p (genParaPrepare True (updSch StopAllThreads s))) (\<lambda>s.
     bindE (genParaResize E p True s) (\<lambda>s.
     bindE (genParaForward E p True s) (\<lambda>s.
     bindE (genParaShare E p True s) (\<lambda>s.
     bindE (roundLoop (cFuel (peCol E)) (genParaRound E p True) s) (\<lambda>s.
     bindE (genParaFinish E p s) (genParaFlip E p True))))))"

definition tryWritelist :: "parenv \<Rightarrow> nat \<Rightarrow> nat \<Rightarrow> conc \<Rightarrow> (bool \<times> conc) result" where
  \<comment> \<open>\<open>try_process_writelist(proc, th, nursery, fromSpace)\<close>\<close>
  "tryWritelist E p t s = (let A = cA E; c = col s in
     bindE (try_process_writelist (ccfg s) (cEnv (peCol E)) (\<lambda>g. satisfiableC (cE E s) p t (putWritelist A p g c))
              (Some (fromRange s)) (gcView A p c) (cgl c)) (\<lambda>(b, g, gl).
     Inr (b, s\<lparr>col := (putWritelist A p g c)\<lparr>cgl := gl\<rparr>\<rparr>)))"

definition GC_GenPara :: "(conc \<Rightarrow> conc result) \<Rightarrow> parenv \<Rightarrow> nat \<Rightarrow> nat \<Rightarrow> conc \<Rightarrow> conc result" where
  "GC_GenPara stop E p t s =
     (let th = Threads (csch (col s)) ! t; info = requestInfo th; roundSize = iRoundUp info (peMinOff E);
          area = (\<lambda>s. areaC p (nurserySp (col s)) roundSize s);
          again = retryLoop (cFuel (peCol E)) (\<lambda>s. bindE (stop s) (\<lambda>s. Inr (area s))) (satisfiable E p t) in
      if request th = MajorGCRequestFromC then again s
      else bindE (satisfiable E p t s) (\<lambda>b.
           if b then Inr s
           else if info > 0 then let s = area s in if prAllocStart (cproc p s) \<noteq> NULL then Inr s else again s
           else bindE (tryWritelist E p t s) (\<lambda>(b, s). if b then Inr s else again s)))"

definition GCPoll_GenPara :: "(conc \<Rightarrow> conc result) \<Rightarrow> bool \<Rightarrow> conc \<Rightarrow> conc result" where
  "GCPoll_GenPara stop waiting s = (if waiting then stop s else Inr s)"

end
