(* ===== verification/CollectorStatus.thy ===== *)
theory CollectorStatus
  imports Tilt_Prelude
begin

text \<open>
  The handshake of the concurrent collectors: how the processors agree through \<open>GCStatus\<close> to turn a
  collection on, to move it from its aggressive to its committed phase, and to turn it off
  (\<open>CollectorOn\<close>, \<open>CollectorTransition\<close>, \<open>CollectorOff\<close>, \<open>do_work\<close>, \<open>GC_*\<close> and \<open>GCPoll_*\<close> of
  \<open>Runtime/sparc/gc_semi_conc.c\<close> and \<open>gc_gen_conc.c\<close>).  This theory has what the two collectors
  share, the places between two accesses to the shared status or to a barrier; what a collector does
  there is the record \<open>cops\<close>, which theories \<open>SemiConc\<close> and \<open>GenConc\<close> fill in.  The data the
  collectors work on is a type variable, so no assumption on it is made.

  Every read and every write of \<open>GCStatus\<close> is a step of its own.  A weak barrier is passed at once and
  tells whether the processor is the first to arrive; a strong barrier is passed when every
  processor has arrived (theory \<open>Barriers\<close> shows that \<open>barriers.c\<close> implements this).  Between the
  barriers of a routine a processor runs one piece of it.  ML code may change the data in any way.
\<close>

subsection \<open>The status and the places in the code\<close>

datatype gcStatus = GCOff | GCPendingAgressive | GCAgressive | GCPendingOn | GCOn | GCPendingOff

datatype flip = TurnOn | Transit | TurnOff
  \<comment> \<open>\<open>CollectorOn\<close>, \<open>CollectorTransition\<close>, \<open>CollectorOff\<close>\<close>

datatype after = AtOff | AfterAgressive | AfterOn | AfterWork
  \<comment> \<open>the four places where \<open>GC_*\<close> tries to satisfy the request\<close>

datatype cont = Return | Recheck | Helping after | Closing cont
  \<comment> \<open>what follows a routine: back to the caller, \<open>goto retry\<close>, the help after it, or \<open>CollectorOff\<close>\<close>

datatype hpc =
    HMutator                 \<comment> \<open>runs a thread or the scheduler\<close>
  | HArrived                 \<comment> \<open>at the start of \<open>GC_*\<close>\<close>
  | HCheck cont              \<comment> \<open>at the switch on \<open>GCStatus\<close> of \<open>GC_*\<close> or \<open>GCPoll_*\<close>\<close>
  | HHelp after
  | HDecide after            \<comment> \<open>the help failed\<close>
  | HBegin cont              \<comment> \<open>calls \<open>do_work\<close>\<close>
  | HTop cont                \<comment> \<open>at the head of the loop of \<open>do_work\<close>\<close>
  | HTest cont               \<comment> \<open>has fetched shared work\<close>
  | HScan cont
  | HGive cont               \<comment> \<open>about to return work to the shared stack\<close>
  | HSet cont                \<comment> \<open>\<open>pushSharedStack\<close> has found all work done\<close>
  | HWrite cont gcStatus     \<comment> \<open>about to set the status\<close>
  | HEnd cont                \<comment> \<open>at the end of \<open>do_work\<close>\<close>
  | HEnter flip cont         \<comment> \<open>at the switch on \<open>GCStatus\<close> of a routine\<close>
  | HReady flip cont         \<comment> \<open>before the weak barrier\<close>
  | HIn flip cont nat bool   \<comment> \<open>before a piece; the flag tells the first processor\<close>
  | HWait flip cont nat bool \<comment> \<open>has arrived at the strong barrier after a piece\<close>
  | HFailed                  \<comment> \<open>\<open>DIE(out of memory)\<close>\<close>
  | HBad                     \<comment> \<open>the \<open>DIE\<close> of the default case of a switch on \<open>GCStatus\<close>\<close>

record 'd cops =
  hAgressive :: "bool \<Rightarrow> bool"      \<comment> \<open>is the next collection aggressive, given whether it is major\<close>
  hOffSignals :: bool
  hPoll :: cont                     \<comment> \<open>how \<open>GCPoll_*\<close> goes on\<close>
  hRelease :: "gcStatus \<Rightarrow> bool \<Rightarrow> nat \<Rightarrow> bool \<Rightarrow> 'd \<Rightarrow> 'd result"
  hEarly :: "gcStatus \<Rightarrow> nat \<Rightarrow> 'd \<Rightarrow> bool result"
  hHelp :: "bool \<Rightarrow> after \<Rightarrow> nat \<Rightarrow> 'd \<Rightarrow> (bool \<times> 'd) result"
  hSkip :: "after \<Rightarrow> gcStatus \<Rightarrow> nat \<Rightarrow> 'd \<Rightarrow> bool"
  hAgain :: "after \<Rightarrow> gcStatus \<Rightarrow> bool"
  hUtil :: bool                     \<comment> \<open>\<open>targetUtil < 1.0\<close>\<close>
  hStart :: "bool \<Rightarrow> nat \<Rightarrow> int \<Rightarrow> 'd \<Rightarrow> (bool \<times> 'd) result"
  hTake :: "bool \<Rightarrow> nat \<Rightarrow> 'd \<Rightarrow> (bool \<times> 'd) result"
  hIdle :: "nat \<Rightarrow> 'd \<Rightarrow> bool"       \<comment> \<open>\<open>isLocalWorkEmpty\<close>\<close>
  hScan :: "bool \<Rightarrow> nat \<Rightarrow> 'd \<Rightarrow> 'd result"
  hGive :: "nat \<Rightarrow> bool \<Rightarrow> 'd \<Rightarrow> (bool \<times> 'd) result"
  hEnd :: "nat \<Rightarrow> 'd \<Rightarrow> unit result"
  hStop :: "'d \<Rightarrow> 'd"
  hBefore :: "flip \<Rightarrow> bool \<Rightarrow> nat \<Rightarrow> 'd \<Rightarrow> 'd result"
  hPieces :: "flip \<Rightarrow> (bool \<Rightarrow> nat \<Rightarrow> bool \<Rightarrow> bool \<Rightarrow> 'd \<Rightarrow> 'd result) list"
  hNextMajor :: "'d \<Rightarrow> bool"

record 'd cstate =
  hsStatus :: gcStatus
  hsMajor :: bool             \<comment> \<open>\<open>GCType == Major\<close>\<close>
  hsPc :: "nat \<Rightarrow> hpc"
  hsArr :: "nat \<Rightarrow> nat"       \<comment> \<open>the number of barriers a processor has arrived at\<close>
  hsData :: 'd

definition hgoto :: "nat \<Rightarrow> hpc \<Rightarrow> 'd cstate \<Rightarrow> 'd cstate" where
  "hgoto p pc s = s\<lparr>hsPc := (hsPc s)(p := pc)\<rparr>"

definition agr :: "'d cops \<Rightarrow> 'd cstate \<Rightarrow> bool" where
  "agr C s = hAgressive C (hsMajor s)"

fun resume :: "cont \<Rightarrow> hpc" where
  "resume Return = HMutator"
| "resume Recheck = HCheck Recheck"
| "resume (Helping w) = HHelp w"
| "resume (Closing k) = HEnter TurnOff k"

fun callOr :: "cont \<Rightarrow> after \<Rightarrow> cont" where
  \<comment> \<open>after the routine: \<open>return\<close> in \<open>GCPoll_*\<close>, help in \<open>GC_*\<close>\<close>
  "callOr Return w = Return"
| "callOr k w = Helping w"

definition checkStatus :: "bool \<Rightarrow> gcStatus \<Rightarrow> cont \<Rightarrow> hpc" where
  \<comment> \<open>the switch on \<open>GCStatus\<close>\<close>
  "checkStatus ag st k = (case st of
       GCOff \<Rightarrow> if k = Return then HMutator else HHelp AtOff
     | GCPendingAgressive \<Rightarrow> HEnter TurnOn (callOr k AfterAgressive)
     | GCPendingOn \<Rightarrow> HEnter (if ag then Transit else TurnOn) (callOr k AfterOn)
     | GCAgressive \<Rightarrow> HBegin (callOr k AfterWork)
     | GCOn \<Rightarrow> HBegin (callOr k AfterWork)
     | GCPendingOff \<Rightarrow> HBegin (Closing k))"

definition decide :: "'d cops \<Rightarrow> bool \<Rightarrow> gcStatus \<Rightarrow> after \<Rightarrow> hpc" where
  \<comment> \<open>after a failed help: \<open>CollectorOn\<close>, \<open>goto retry\<close> or \<open>goto fail\<close>\<close>
  "decide C ag st w =
     (if w = AtOff then HEnter TurnOn (Helping (if ag then AfterAgressive else AfterOn))
      else if hAgain C w st then HCheck Recheck else HFailed)"

definition enterStatus :: "bool \<Rightarrow> bool \<Rightarrow> flip \<Rightarrow> gcStatus \<Rightarrow> (bool \<times> gcStatus) option" where
  \<comment> \<open>the switch at the start of a routine: whether it signals the others, and the new status;
     \<open>off\<close>: \<open>CollectorOff\<close> has a case for \<open>GCOn\<close>\<close>
  "enterStatus off ag f st = (case f of
       TurnOn \<Rightarrow> if st = GCOff then Some (True, if ag then GCPendingAgressive else GCPendingOn)
                 else if st = GCPendingOn \<or> st = GCPendingAgressive then Some (False, st) else None
     | Transit \<Rightarrow> if st = GCAgressive then Some (True, GCPendingOn)
                  else if st = GCPendingOn then Some (False, st) else None
     | TurnOff \<Rightarrow> if off \<and> st = GCOn then Some (True, GCPendingOff)
                  else if st = GCPendingOff then Some (False, st) else None)"

definition commitStatus :: "bool \<Rightarrow> flip \<Rightarrow> bool \<Rightarrow> gcStatus \<Rightarrow> gcStatus" where
  \<comment> \<open>the assignment to \<open>GCStatus\<close> before the last barrier; \<open>CollectorOff\<close> leaves it to the first processor\<close>
  "commitStatus ag f first st = (case f of
       TurnOn \<Rightarrow> if ag then GCAgressive else GCOn
     | Transit \<Rightarrow> GCOn
     | TurnOff \<Rightarrow> if first then GCOff else st)"

definition doneStatus :: "gcStatus \<Rightarrow> gcStatus option" where
  \<comment> \<open>the test at the end of an iteration of \<open>do_work\<close> when all work is done\<close>
  "doneStatus st = (if st = GCAgressive then Some GCPendingOn else if st = GCOn then Some GCPendingOff else None)"

definition isFirst :: "nat \<Rightarrow> nat \<Rightarrow> 'd cstate \<Rightarrow> bool" where
  \<comment> \<open>\<open>weakBarrier(barriers, proc) == 0\<close>\<close>
  "isFirst n p s \<longleftrightarrow> (\<forall>q<n. hsArr s q \<le> hsArr s p)"

definition runPiece :: "'d cops \<Rightarrow> nat \<Rightarrow> flip \<Rightarrow> nat \<Rightarrow> bool \<Rightarrow> bool \<Rightarrow> 'd cstate \<Rightarrow> 'd cstate result" where
  \<comment> \<open>\<open>isLast\<close>: the processor leaves the room of a push last; the piece before the last barrier sets the status\<close>
  "runPiece C p f i first isLast s =
     bindE ((hPieces C f ! i) (hsMajor s) p first isLast (hsData s)) (\<lambda>d.
     let commit = (Suc (Suc i) = length (hPieces C f)); s = s\<lparr>hsData := d\<rparr> in
     Inr (if \<not> commit then s
          else s\<lparr>hsStatus := commitStatus (agr C s) f first (hsStatus s),
                 hsMajor := (if f = TurnOff \<and> first then hNextMajor C d else hsMajor s)\<rparr>))"

subsection \<open>Steps\<close>

inductive hstep :: "'d cops \<Rightarrow> nat \<Rightarrow> 'd cstate \<Rightarrow> 'd cstate \<Rightarrow> bool" for C :: "'d cops" and n :: nat where
  mutate: "p < n \<Longrightarrow> hsPc s p = HMutator \<Longrightarrow> hstep C n s (s\<lparr>hsData := d\<rparr>)"
| release: "p < n \<Longrightarrow> hsPc s p = HMutator \<Longrightarrow> hRelease C (hsStatus s) (hsMajor s) p l (hsData s) = Inr d \<Longrightarrow>
     hstep C n s (s\<lparr>hsData := d\<rparr>)"
| request: "p < n \<Longrightarrow> hsPc s p = HMutator \<Longrightarrow> hstep C n s (hgoto p HArrived s)"
| poll: "p < n \<Longrightarrow> hsPc s p = HMutator \<Longrightarrow> hstep C n s (hgoto p (if hPoll C = Return then HCheck Return else HArrived) s)"
| arrived: "p < n \<Longrightarrow> hsPc s p = HArrived \<Longrightarrow> hEarly C (hsStatus s) p (hsData s) = Inr b \<Longrightarrow>
     hstep C n s (hgoto p (if b then HMutator else HCheck Recheck) s)"
| check: "p < n \<Longrightarrow> hsPc s p = HCheck k \<Longrightarrow> hstep C n s (hgoto p (checkStatus (agr C s) (hsStatus s) k) s)"
| util: "p < n \<Longrightarrow> hsPc s p = HCheck Recheck \<Longrightarrow> hUtil C \<Longrightarrow> hsStatus s = GCOn \<or> hsStatus s = GCAgressive \<Longrightarrow>
     hstep C n s (hgoto p (HHelp AfterWork) s)"
| more: "p < n \<Longrightarrow> hsPc s p = HHelp AfterWork \<Longrightarrow> hUtil C \<Longrightarrow> hstep C n s (hgoto p (HBegin (Helping AfterWork)) s)"
| skip: "p < n \<Longrightarrow> hsPc s p = HHelp w \<Longrightarrow> w \<noteq> AtOff \<Longrightarrow> hSkip C w (hsStatus s) p (hsData s) \<Longrightarrow>
     hstep C n s (hgoto p (HCheck Recheck) s)"
| try_help: "p < n \<Longrightarrow> hsPc s p = HHelp w \<Longrightarrow> w = AtOff \<or> \<not> hSkip C w (hsStatus s) p (hsData s) \<Longrightarrow>
     hHelp C (hsMajor s) w p (hsData s) = Inr (b, d) \<Longrightarrow>
     hstep C n s (hgoto p (if b then HMutator else HDecide w) (s\<lparr>hsData := d\<rparr>))"
| decide: "p < n \<Longrightarrow> hsPc s p = HDecide w \<Longrightarrow> hstep C n s (hgoto p (decide C (agr C s) (hsStatus s) w) s)"
| begin_work: "p < n \<Longrightarrow> hsPc s p = HBegin k \<Longrightarrow> (\<exists>k'. k = Closing k') \<longrightarrow> w = 2147483647 \<Longrightarrow>
     hStart C (hsMajor s) p w (hsData s) = Inr (b, d) \<Longrightarrow>
     hstep C n s (hgoto p (if b then HTop k else resume k) (s\<lparr>hsData := d\<rparr>))"
| take_work: "p < n \<Longrightarrow> hsPc s p = HTop k \<Longrightarrow> hTake C (hsMajor s) p (hsData s) = Inr (b, d) \<Longrightarrow>
     hstep C n s (hgoto p (if b then HTest k else HEnd k) (s\<lparr>hsData := d\<rparr>))"
| test: "p < n \<Longrightarrow> hsPc s p = HTest k \<Longrightarrow>
     hstep C n s (hgoto p (if (hsStatus s = GCPendingOn \<or> hsStatus s = GCPendingOff) \<and> hIdle C p (hsData s)
                          then HEnd k else HScan k) s)"
| scan: "p < n \<Longrightarrow> hsPc s p = HScan k \<Longrightarrow> hScan C (hsMajor s) p (hsData s) = Inr d \<Longrightarrow>
     hstep C n s (hgoto p (HGive k) (s\<lparr>hsData := d\<rparr>))"
| give: "p < n \<Longrightarrow> hsPc s p = HGive k \<Longrightarrow> hGive C p l (hsData s) = Inr (b, d) \<Longrightarrow>
     hstep C n s (hgoto p (if b then HSet k else HTop k) (s\<lparr>hsData := d\<rparr>))"
| all_done: "p < n \<Longrightarrow> hsPc s p = HSet k \<Longrightarrow>
     hstep C n s (hgoto p (case doneStatus (hsStatus s) of None \<Rightarrow> HTop k | Some st \<Rightarrow> HWrite k st) s)"
| set_status: "p < n \<Longrightarrow> hsPc s p = HWrite k st \<Longrightarrow> hstep C n s (hgoto p (HTop k) (s\<lparr>hsStatus := st\<rparr>))"
| end_work: "p < n \<Longrightarrow> hsPc s p = HEnd k \<Longrightarrow> hEnd C p (hsData s) = Inr () \<Longrightarrow> hstep C n s (hgoto p (resume k) s)"
| bad: "p < n \<Longrightarrow> hsPc s p = HEnter f k \<Longrightarrow> enterStatus (hOffSignals C) (agr C s) f (hsStatus s) = None \<Longrightarrow> hstep C n s (hgoto p HBad s)"
| enter: "p < n \<Longrightarrow> hsPc s p = HEnter f k \<Longrightarrow> enterStatus (hOffSignals C) (agr C s) f (hsStatus s) = Some (b, st) \<Longrightarrow>
     hstep C n s (hgoto p (HReady f k) (s\<lparr>hsStatus := st, hsData := if b then hStop C (hsData s) else hsData s\<rparr>))"
| weak: "p < n \<Longrightarrow> hsPc s p = HReady f k \<Longrightarrow> hBefore C f (hsMajor s) p (hsData s) = Inr d \<Longrightarrow>
     hstep C n s (hgoto p (HIn f k 0 (isFirst n p s)) (s\<lparr>hsData := d, hsArr := (hsArr s)(p := Suc (hsArr s p))\<rparr>))"
| piece: "p < n \<Longrightarrow> hsPc s p = HIn f k i first \<Longrightarrow> Suc i < length (hPieces C f) \<Longrightarrow> runPiece C p f i first l s = Inr s' \<Longrightarrow>
     hstep C n s (hgoto p (HWait f k i first) (s'\<lparr>hsArr := (hsArr s')(p := Suc (hsArr s' p))\<rparr>))"
| pass: "p < n \<Longrightarrow> hsPc s p = HWait f k i first \<Longrightarrow> \<forall>q<n. hsArr s p \<le> hsArr s q \<Longrightarrow>
     hstep C n s (hgoto p (HIn f k (Suc i) first) s)"
| last: "p < n \<Longrightarrow> hsPc s p = HIn f k i first \<Longrightarrow> Suc i = length (hPieces C f) \<Longrightarrow> runPiece C p f i first l s = Inr s' \<Longrightarrow>
     hstep C n s (hgoto p (resume k) s')"

definition hstart :: "'d \<Rightarrow> 'd cstate" where
  "hstart d = \<lparr>hsStatus = GCOff, hsMajor = False, hsPc = (\<lambda>_. HMutator), hsArr = (\<lambda>_. 0), hsData = d\<rparr>"

inductive hreach :: "'d cops \<Rightarrow> nat \<Rightarrow> 'd \<Rightarrow> 'd cstate \<Rightarrow> bool" for C :: "'d cops" and n :: nat and d :: 'd where
  start: "hreach C n d (hstart d)"
| step: "hreach C n d s \<Longrightarrow> hstep C n s s' \<Longrightarrow> hreach C n d s'"

inductive_cases hstepE: "hstep C n s s'"

subsection \<open>The invariant\<close>

definition preStatus :: "bool \<Rightarrow> flip \<Rightarrow> gcStatus" where
  \<comment> \<open>the status while the processors gather for a routine\<close>
  "preStatus ag f = (case f of TurnOn \<Rightarrow> if ag then GCPendingAgressive else GCPendingOn
     | Transit \<Rightarrow> GCPendingOn | TurnOff \<Rightarrow> GCPendingOff)"

definition statusValid :: "bool \<Rightarrow> gcStatus \<Rightarrow> bool" where
  "statusValid ag st \<longleftrightarrow> ag \<or> st \<noteq> GCPendingAgressive \<and> st \<noteq> GCAgressive"

definition eraOff :: "bool \<Rightarrow> gcStatus \<Rightarrow> bool" where
  "eraOff ag st \<longleftrightarrow> st = GCOff \<or> st = preStatus ag TurnOn"

fun simpleCont :: "cont \<Rightarrow> bool" where
  "simpleCont (Helping w) = (w \<noteq> AtOff)"
| "simpleCont (Closing k) = False"
| "simpleCont _ = True"

fun contOk :: "gcStatus \<Rightarrow> cont \<Rightarrow> bool" where
  "contOk st (Closing k) = (simpleCont k \<and> st = GCPendingOff)"
| "contOk st k = simpleCont k"

definition entering :: "bool \<Rightarrow> gcStatus \<Rightarrow> flip \<Rightarrow> bool" where
  "entering ag st f \<longleftrightarrow> (case f of TurnOn \<Rightarrow> eraOff ag st | Transit \<Rightarrow> ag \<and> st = GCPendingOn | TurnOff \<Rightarrow> st = GCPendingOff)"

fun outside :: "bool \<Rightarrow> (flip \<Rightarrow> nat) \<Rightarrow> gcStatus \<Rightarrow> hpc \<Rightarrow> bool" where
  \<comment> \<open>what the status must be for a processor that is at a place outside the routines; the last piece of a
     routine counts as outside\<close>
  "outside ag len st (HCheck k) = (k = Return \<or> k = Recheck)"
| "outside ag len st (HHelp w) = (w = AtOff \<longrightarrow> eraOff ag st)"
| "outside ag len st (HDecide w) = (w = AtOff \<longrightarrow> eraOff ag st)"
| "outside ag len st (HBegin k) = contOk st k"
| "outside ag len st (HTop k) = contOk st k"
| "outside ag len st (HTest k) = contOk st k"
| "outside ag len st (HScan k) = contOk st k"
| "outside ag len st (HGive k) = contOk st k"
| "outside ag len st (HSet k) = contOk st k"
| "outside ag len st (HEnd k) = contOk st k"
| "outside ag len st (HWrite k v) = (contOk st k \<and>
     (v = GCPendingOff \<and> (st = GCOn \<or> st = GCPendingOff) \<or> v = GCPendingOn \<and> ag \<and> (st = GCAgressive \<or> st = GCPendingOn)))"
| "outside ag len st (HEnter f k) = (simpleCont k \<and> entering ag st f)"
| "outside ag len st (HReady f k) = (simpleCont k \<and> entering ag st f \<and> st = preStatus ag f)"
| "outside ag len st (HIn f k i b) = (simpleCont k \<and> Suc i = len f)"
| "outside ag len st (HWait f k i b) = (simpleCont k \<and> Suc (Suc i) = len f)"
| "outside ag len st HBad = False"
| "outside ag len st _ = True"

fun inside :: "(flip \<Rightarrow> nat) \<Rightarrow> nat \<Rightarrow> flip \<Rightarrow> hpc \<Rightarrow> nat \<Rightarrow> bool" where
  \<comment> \<open>in the routine \<open>f\<close>, whose first barrier has number \<open>b\<close>\<close>
  "inside len b f (HIn f' k i first) a = (f' = f \<and> simpleCont k \<and> Suc i < len f \<and> a = b + 1 + i)"
| "inside len b f (HWait f' k i first) a = (f' = f \<and> simpleCont k \<and> Suc i < len f \<and> a = b + 2 + i)"
| "inside len b f _ a = False"

fun leads :: "hpc \<Rightarrow> bool" where
  "leads (HIn f k i first) = first"
| "leads (HWait f k i first) = first"
| "leads _ = False"

definition postStatus :: "bool \<Rightarrow> flip \<Rightarrow> gcStatus" where
  "postStatus ag f = commitStatus ag f True GCOff"

definition idleInv :: "(flip \<Rightarrow> nat) \<Rightarrow> (bool \<Rightarrow> bool) \<Rightarrow> nat \<Rightarrow> nat \<Rightarrow> 'd cstate \<Rightarrow> bool" where
  \<comment> \<open>no processor is in a routine\<close>
  "idleInv len a n b s \<longleftrightarrow> statusValid (a (hsMajor s)) (hsStatus s) \<and>
     (\<forall>q<n. hsArr s q = b \<and> outside (a (hsMajor s)) len (hsStatus s) (hsPc s q))"

definition busyInv :: "(flip \<Rightarrow> nat) \<Rightarrow> (bool \<Rightarrow> bool) \<Rightarrow> nat \<Rightarrow> nat \<Rightarrow> flip \<Rightarrow> 'd cstate \<Rightarrow> bool" where
  \<comment> \<open>some processor is in the routine \<open>f\<close>\<close>
  "busyInv len a n b f s \<longleftrightarrow> (let ag = a (hsMajor s); st = hsStatus s in
     (\<forall>q<n. hsArr s q = b \<and> outside ag len st (hsPc s q) \<or> inside len b f (hsPc s q) (hsArr s q)) \<and>
     (st = preStatus ag f \<and> (f = Transit \<longrightarrow> ag) \<or> st = postStatus ag f \<and> (\<forall>r<n. b + len f \<le> Suc (hsArr s r))) \<and>
     (\<forall>q<n. \<forall>k i l. hsPc s q = HIn f k i l \<longrightarrow> 0 < i \<longrightarrow> b < hsArr s q \<longrightarrow> (\<forall>r<n. hsArr s q \<le> hsArr s r)) \<and>
     (\<exists>q<n. b < hsArr s q \<and> leads (hsPc s q)) \<and>
     (\<forall>q<n. \<forall>r<n. b < hsArr s q \<longrightarrow> b < hsArr s r \<longrightarrow> leads (hsPc s q) \<longrightarrow> leads (hsPc s r) \<longrightarrow> q = r) \<and>
     (\<forall>q<n. \<forall>k i l. hsPc s q = HWait f k i l \<longrightarrow> b < hsArr s q \<longrightarrow> Suc (Suc i) = len f \<longrightarrow> f \<noteq> TurnOff \<or> l \<longrightarrow> st = postStatus ag f))"

definition pieceCount :: "'d cops \<Rightarrow> flip \<Rightarrow> nat" where
  "pieceCount C f = length (hPieces C f)"

definition flipInv :: "'d cops \<Rightarrow> nat \<Rightarrow> 'd cstate \<Rightarrow> bool" where
  "flipInv C n s \<longleftrightarrow> (\<exists>b. idleInv (pieceCount C) (hAgressive C) n b s) \<or>
     (\<exists>b f. busyInv (pieceCount C) (hAgressive C) n b f s)"

named_theorems status_defs

lemmas [status_defs] = preStatus_def postStatus_def commitStatus_def eraOff_def entering_def statusValid_def

lemma hgoto_sel [simp]:
  "hsStatus (hgoto p pc s) = hsStatus s" "hsMajor (hgoto p pc s) = hsMajor s" "hsArr (hgoto p pc s) = hsArr s"
  "hsPc (hgoto p pc s) = (hsPc s)(p := pc)" "hsData (hgoto p pc s) = hsData s"
  by (simp_all add: hgoto_def)

fun routinePc :: "hpc \<Rightarrow> bool" where
  "routinePc (HIn f k i l) = True"
| "routinePc (HWait f k i l) = True"
| "routinePc _ = False"

lemma not_inside: "\<not> routinePc pc \<Longrightarrow> \<not> inside len b f pc a"
  by (cases pc) simp_all

lemma not_leads: "\<not> routinePc pc \<Longrightarrow> \<not> leads pc"
  by (cases pc) simp_all

lemma inside_past: "inside len b f pc a \<Longrightarrow> b < a"
  by (cases pc) auto

lemma pre_not_post: "preStatus ag f \<noteq> postStatus ag' f"
  by (cases f) (simp_all add: status_defs)

definition statusStep :: "bool \<Rightarrow> gcStatus \<Rightarrow> gcStatus \<Rightarrow> bool" where
  \<comment> \<open>how a processor outside the routines can change the status\<close>
  "statusStep ag st st' \<longleftrightarrow> st' = st \<or> st = GCOff \<and> st' = preStatus ag TurnOn \<or> st = GCOn \<and> st' = GCPendingOff \<or>
     st = GCAgressive \<and> st' = GCPendingOn \<and> ag"

lemma contOk_step: "statusStep ag st st' \<Longrightarrow> contOk st k \<Longrightarrow> contOk st' k"
  by (cases k) (auto simp: statusStep_def status_defs split: if_splits)

lemma outside_step: "statusStep ag st st' \<Longrightarrow> outside ag len st pc \<Longrightarrow> outside ag len st' pc"
proof (cases pc)
  case (HReady f k)
  assume "statusStep ag st st'" "outside ag len st pc"
  then show ?thesis using HReady
    by (cases f) (auto simp: statusStep_def status_defs split: if_splits)
next
  case (HEnter f k)
  assume "statusStep ag st st'" "outside ag len st pc"
  then show ?thesis using HEnter
    by (cases f) (auto simp: statusStep_def status_defs split: if_splits)
qed (auto simp: contOk_step, auto simp: statusStep_def status_defs split: if_splits)

lemma valid_step: "statusStep ag st st' \<Longrightarrow> statusValid ag st \<Longrightarrow> statusValid ag st'"
  by (auto simp: statusStep_def status_defs split: if_splits)

lemma step_pre: "statusStep ag (preStatus ag f) st' \<Longrightarrow> st' = preStatus ag f"
  by (cases f) (auto simp: statusStep_def status_defs split: if_splits)

subsection \<open>The invariant is preserved\<close>

lemma busyD:
  assumes "busyInv len a n b f s"
  shows "q < n \<Longrightarrow> hsArr s q = b \<and> outside (a (hsMajor s)) len (hsStatus s) (hsPc s q) \<or> inside len b f (hsPc s q) (hsArr s q)"
    and "hsStatus s = preStatus (a (hsMajor s)) f \<and> (f = Transit \<longrightarrow> a (hsMajor s)) \<or>
         hsStatus s = postStatus (a (hsMajor s)) f \<and> (\<forall>r<n. b + len f \<le> Suc (hsArr s r))"
    and "q < n \<Longrightarrow> hsPc s q = HIn f k j l \<Longrightarrow> 0 < j \<Longrightarrow> b < hsArr s q \<Longrightarrow> r < n \<Longrightarrow> hsArr s q \<le> hsArr s r"
    and "\<exists>q<n. b < hsArr s q \<and> leads (hsPc s q)"
    and "q < n \<Longrightarrow> r < n \<Longrightarrow> b < hsArr s q \<Longrightarrow> b < hsArr s r \<Longrightarrow> leads (hsPc s q) \<Longrightarrow> leads (hsPc s r) \<Longrightarrow> q = r"
    and "q < n \<Longrightarrow> hsPc s q = HWait f k j l \<Longrightarrow> b < hsArr s q \<Longrightarrow> Suc (Suc j) = len f \<Longrightarrow> f \<noteq> TurnOff \<or> l \<Longrightarrow>
         hsStatus s = postStatus (a (hsMajor s)) f"
  using assms unfolding busyInv_def Let_def by blast+

lemma busyI:
  assumes "\<And>q. q < n \<Longrightarrow> hsArr s q = b \<and> outside (a (hsMajor s)) len (hsStatus s) (hsPc s q) \<or> inside len b f (hsPc s q) (hsArr s q)"
    and "hsStatus s = preStatus (a (hsMajor s)) f \<and> (f = Transit \<longrightarrow> a (hsMajor s)) \<or>
         hsStatus s = postStatus (a (hsMajor s)) f \<and> (\<forall>r<n. b + len f \<le> Suc (hsArr s r))"
    and "\<And>q k j l r. q < n \<Longrightarrow> hsPc s q = HIn f k j l \<Longrightarrow> 0 < j \<Longrightarrow> b < hsArr s q \<Longrightarrow> r < n \<Longrightarrow> hsArr s q \<le> hsArr s r"
    and "\<exists>q<n. b < hsArr s q \<and> leads (hsPc s q)"
    and "\<And>q r. q < n \<Longrightarrow> r < n \<Longrightarrow> b < hsArr s q \<Longrightarrow> b < hsArr s r \<Longrightarrow> leads (hsPc s q) \<Longrightarrow> leads (hsPc s r) \<Longrightarrow> q = r"
    and "\<And>q k j l. q < n \<Longrightarrow> hsPc s q = HWait f k j l \<Longrightarrow> b < hsArr s q \<Longrightarrow> Suc (Suc j) = len f \<Longrightarrow> f \<noteq> TurnOff \<or> l \<Longrightarrow>
         hsStatus s = postStatus (a (hsMajor s)) f"
  shows "busyInv len a n b f s"
  unfolding busyInv_def Let_def using assms by blast

lemma busy_out_status:
  assumes "busyInv len a n b f s" "p < n" "hsArr s p = b" "2 \<le> len f"
  shows "hsStatus s = preStatus (a (hsMajor s)) f" "f = Transit \<Longrightarrow> a (hsMajor s)"
proof -
  have "\<not> (\<forall>r<n. b + len f \<le> Suc (hsArr s r))" using assms(2,3,4) by fastforce
  with busyD(2) [OF assms(1)] show "hsStatus s = preStatus (a (hsMajor s)) f" "f = Transit \<Longrightarrow> a (hsMajor s)" by blast+
qed

lemma idle_outside:
  assumes inv: "idleInv len a n b s" and p: "p < n"
    and st: "statusStep (a (hsMajor s)) (hsStatus s) st'" and pc: "outside (a (hsMajor s)) len st' pc"
  shows "idleInv len a n b (hgoto p pc (s\<lparr>hsStatus := st', hsData := d\<rparr>))"
  using assms outside_step [OF st] valid_step [OF st] by (auto simp: idleInv_def)

lemma busy_outside:
  assumes inv: "busyInv len a n b f s" and p: "p < n" "hsArr s p = b"
    and st: "statusStep (a (hsMajor s)) (hsStatus s) st'" and pc: "outside (a (hsMajor s)) len st' pc"
    and len: "2 \<le> len f"
  shows "busyInv len a n b f (hgoto p pc (s\<lparr>hsStatus := st', hsData := d\<rparr>))"
proof -
  have st': "st' = hsStatus s"
    using step_pre [of "a (hsMajor s)" f st'] st busy_out_status [OF inv p len] by simp
  have q: "\<And>q. b < hsArr s q \<Longrightarrow> q \<noteq> p" using p by auto
  show ?thesis
  proof (rule busyI, goal_cases)
    case (1 q) then show ?case using busyD(1) [OF inv, of q] pc p st' by auto
  next
    case 2 then show ?case using busyD(2) [OF inv] st' by simp
  next
    case (3 q k j l r) then show ?case using busyD(3) [OF inv, of q k j l r] q [of q] by simp
  next
    case 4
    obtain x where "x < n" "b < hsArr s x" "leads (hsPc s x)" using busyD(4) [OF inv] by blast
    then show ?case using q [of x] by (intro exI [of _ x]) simp
  next
    case (5 q r) then show ?case using busyD(5) [OF inv, of q r] q [of q] q [of r] by simp
  next
    case (6 q k j l) then show ?case using busyD(6) [OF inv, of q k j l] q [of q] st' by simp
  qed
qed

lemma out_of_routine:
  assumes "flipInv C n s" "p < n" "\<not> routinePc (hsPc s p)"
  shows "outside (agr C s) (pieceCount C) (hsStatus s) (hsPc s p)"
  using assms not_inside [OF assms(3)] by (fastforce simp: flipInv_def idleInv_def agr_def dest: busyD(1))

definition lastPc :: "(flip \<Rightarrow> nat) \<Rightarrow> hpc \<Rightarrow> bool" where
  \<comment> \<open>not in a routine, or before its last piece\<close>
  "lastPc len pc \<longleftrightarrow> \<not> routinePc pc \<or> (\<exists>f k i l. pc = HIn f k i l \<and> Suc i = len f)"

lemma flip_outside:
  assumes inv: "flipInv C n s" and p: "p < n" "lastPc (pieceCount C) (hsPc s p)"
    and st: "statusStep (agr C s) (hsStatus s) st'" and pc: "outside (agr C s) (pieceCount C) st' pc"
    and len: "\<And>f. 2 \<le> pieceCount C f"
  shows "flipInv C n (hgoto p pc (s\<lparr>hsStatus := st', hsData := d\<rparr>))"
proof -
  have ni: "\<not> inside (pieceCount C) b f (hsPc s p) x" for b f x
    using p(2) not_inside by (auto simp: lastPc_def)
  consider b where "idleInv (pieceCount C) (hAgressive C) n b s"
    | b f where "busyInv (pieceCount C) (hAgressive C) n b f s"
    using inv unfolding flipInv_def by blast
  then show ?thesis
  proof cases
    case 1
    then show ?thesis
      unfolding flipInv_def using idle_outside [OF 1 p(1)] st pc unfolding agr_def by blast
  next
    case 2
    have "hsArr s p = b" using busyD(1) [OF 2 p(1)] ni by blast
    then show ?thesis
      unfolding flipInv_def using busy_outside [OF 2 p(1) _ _ _ len] st pc unfolding agr_def by blast
  qed
qed

lemma weak_first:
  assumes inv: "idleInv len a n b s" and p: "p < n" and pc: "hsPc s p = HReady f k" and len: "3 \<le> len f"
  shows "busyInv len a n b f (hgoto p (HIn f k 0 True) (s\<lparr>hsData := d, hsArr := (hsArr s)(p := Suc b)\<rparr>))"
proof -
  have o: "outside (a (hsMajor s)) len (hsStatus s) (HReady f k)" using inv p pc unfolding idleInv_def by metis
  have ins: "inside len b f (HIn f k 0 True) (Suc b)" using o len by simp
  have st: "hsStatus s = preStatus (a (hsMajor s)) f \<and> (f = Transit \<longrightarrow> a (hsMajor s))"
    using o by (auto simp: entering_def)
  have arr: "\<And>q. q < n \<Longrightarrow> hsArr s q = b \<and> outside (a (hsMajor s)) len (hsStatus s) (hsPc s q)"
    using inv unfolding idleInv_def by blast
  show ?thesis
  proof (rule busyI, goal_cases)
    case (1 q) then show ?case using arr [of q] ins by (cases "q = p") simp_all
  next
    case (3 q k j l r) then show ?case using arr [of q] by (simp split: if_splits)
  next
    case (5 q r) then show ?case using arr [of q] arr [of r] by (simp split: if_splits)
  next
    case (6 q k j l) then show ?case using arr [of q] by (simp split: if_splits)
  qed (use p st in auto)
qed

lemma weak_later:
  assumes inv: "busyInv len a n b f s" and p: "p < n" and pc: "hsPc s p = HReady f' k" and len: "3 \<le> len f"
  shows "f' = f" "\<not> isFirst n p s" "hsArr s p = b"
    "busyInv len a n b f (hgoto p (HIn f k 0 False) (s\<lparr>hsData := d, hsArr := (hsArr s)(p := Suc b)\<rparr>))"
proof -
  let ?ag = "a (hsMajor s)"
  have ni: "\<not> inside len b f (HReady f' k) (hsArr s p)" by simp
  then have o: "hsArr s p = b" "outside ?ag len (hsStatus s) (HReady f' k)"
    using busyD(1) [OF inv p] pc by metis+
  then show "hsArr s p = b" by simp
  have st: "hsStatus s = preStatus ?ag f" "f = Transit \<Longrightarrow> ?ag"
    using busy_out_status [OF inv p o(1)] len by simp_all
  show f: "f' = f" using o(2) st by (cases f; cases f') (auto simp: status_defs split: if_splits)
  show "\<not> isFirst n p s" using busyD(4) [OF inv] o(1) by (auto simp: isFirst_def not_le)
  have ins: "inside len b f (HIn f k 0 False) (Suc b)" using o len f by simp
  have q: "\<And>q. b < hsArr s q \<Longrightarrow> q \<noteq> p" using o(1) by auto
  let ?s = "hgoto p (HIn f k 0 False) (s\<lparr>hsData := d, hsArr := (hsArr s)(p := Suc b)\<rparr>)"
  show "busyInv len a n b f ?s"
  proof (rule busyI, goal_cases)
    case (1 q) then show ?case using busyD(1) [OF inv, of q] ins by (cases "q = p") simp_all
  next
    case 2 then show ?case using st by simp
  next
    case (3 x k j l r) then show ?case
      using busyD(3) [OF inv, of x k j l r] o(1) by (cases "x = p"; cases "r = p") (auto simp: le_Suc_eq)
  next
    case 4 then show ?case using busyD(4) [OF inv] q by auto
  next
    case (5 x r) then show ?case using busyD(5) [OF inv, of x r] by (cases "x = p"; cases "r = p") simp_all
  next
    case (6 x k j l) then show ?case using busyD(6) [OF inv, of x k j l] by (cases "x = p") simp_all
  qed
qed

lemma runPiece_sel:
  assumes "runPiece C p f i first l s = Inr s'"
  shows "hsArr s' = hsArr s" "hsPc s' = hsPc s"
    "Suc (Suc i) \<noteq> pieceCount C f \<Longrightarrow> hsStatus s' = hsStatus s \<and> hsMajor s' = hsMajor s \<and> (\<exists>d. s' = s\<lparr>hsData := d\<rparr>)"
    "Suc (Suc i) = pieceCount C f \<Longrightarrow> hsStatus s' = commitStatus (agr C s) f first (hsStatus s)"
    "\<not> (f = TurnOff \<and> first) \<Longrightarrow> hsMajor s' = hsMajor s"
  using assms by (auto simp: runPiece_def Let_def pieceCount_def agr_def split: if_splits)

lemma commit_status:
  assumes "st = preStatus ag f \<or> st = postStatus ag f"
  shows "commitStatus ag f l st = preStatus ag f \<or> commitStatus ag f l st = postStatus ag f"
    "f \<noteq> TurnOff \<or> l \<Longrightarrow> commitStatus ag f l st = postStatus ag f"
    "st = postStatus ag f \<Longrightarrow> commitStatus ag f l st = postStatus ag f"
  using assms by (cases f; auto simp: status_defs)+

lemma piece_inside:
  assumes inv: "busyInv (pieceCount C) (hAgressive C) n b f s" and p: "p < n" and pc: "hsPc s p = HIn f' k i first"
    and i: "Suc i < pieceCount C f'" and run: "runPiece C p f' i first l s = Inr s'" and len: "3 \<le> pieceCount C f"
  shows "busyInv (pieceCount C) (hAgressive C) n b f
           (hgoto p (HWait f' k i first) (s'\<lparr>hsArr := (hsArr s')(p := Suc (hsArr s' p))\<rparr>))"
proof -
  let ?s = "hgoto p (HWait f' k i first) (s'\<lparr>hsArr := (hsArr s')(p := Suc (hsArr s' p))\<rparr>)"
  note sel = runPiece_sel [OF run]
  have ip: "inside (pieceCount C) b f (HIn f' k i first) (hsArr s p)"
    using busyD(1) [OF inv p] pc i by (auto simp: pieceCount_def)
  then have f: "f' = f" and arr: "hsArr s p = b + 1 + i" and bp: "b < hsArr s p" by auto
  have st: "hsStatus s = preStatus (agr C s) f \<or> hsStatus s = postStatus (agr C s) f"
    using busyD(2) [OF inv] by (auto simp: agr_def)
  have post: "postStatus (hAgressive C (hsMajor s')) f = postStatus (agr C s) f"
    using sel(5) f by (cases "f = TurnOff") (simp_all add: agr_def postStatus_def commitStatus_def)
  have all: "Suc (Suc i) = pieceCount C f \<Longrightarrow> r < n \<Longrightarrow> b + pieceCount C f \<le> Suc (hsArr s r)" for r
    using busyD(3) [OF inv p pc [unfolded f], of r] arr len by simp
  have commits: "Suc (Suc i) = pieceCount C f \<Longrightarrow> f \<noteq> TurnOff \<or> first \<Longrightarrow> hsStatus s' = postStatus (agr C s) f"
    using sel(4) commit_status(2) [OF st] f by auto
  have keeps: "hsStatus s = postStatus (agr C s) f \<Longrightarrow> hsStatus s' = postStatus (agr C s) f"
    using sel(3,4) commit_status(3) [OF st] f by (cases "Suc (Suc i) = pieceCount C f") auto
  show ?thesis
  proof (rule busyI, goal_cases)
    case (1 q)
    show ?case
    proof (cases "q = p")
      case True
      then show ?thesis using ip f sel(1) arr by simp
    next
      case False
      have "outside (hAgressive C (hsMajor s')) (pieceCount C) (hsStatus s') (hsPc s q)"
        if "hsArr s q = b" "outside (hAgressive C (hsMajor s)) (pieceCount C) (hsStatus s) (hsPc s q)"
      proof -
        have "Suc (Suc i) \<noteq> pieceCount C f" using all [OF _ 1] that(1) len by auto
        then show ?thesis using that sel(3) f by auto
      qed
      then show ?thesis using busyD(1) [OF inv 1] False sel(1,2) by auto
    qed
  next
    case 2
    have grows: "hsArr s r \<le> hsArr ?s r" for r using sel(1) by simp
    show ?case
    proof (cases "Suc (Suc i) = pieceCount C f")
      case True
      have "hsStatus s' = preStatus (agr C s) f \<and> (f = TurnOff \<and> \<not> first) \<or> hsStatus s' = postStatus (agr C s) f"
        using commits [OF True] commit_status(1) [OF st] sel(4) True f by auto
      moreover have "\<forall>r<n. b + pieceCount C f \<le> Suc (hsArr ?s r)"
        using all [OF True] grows by (meson Suc_le_mono order_trans)
      ultimately show ?thesis
        using post by (elim disjE conjE) (simp_all add: preStatus_def)
    next
      case False
      then show ?thesis using busyD(2) [OF inv] sel(3) f grows by (auto intro: le_trans [OF _ Suc_leI] simp: le_Suc_eq)
    qed
  next
    case (3 q k j l r)
    then have "hsArr s q \<le> hsArr s r" using busyD(3) [OF inv, of q k j l r] sel(1,2) by (auto split: if_splits)
    then show ?case using 3 sel(1) by (auto split: if_splits)
  next
    case 4
    obtain x where x: "x < n" "b < hsArr s x" "leads (hsPc s x)" using busyD(4) [OF inv] by blast
    then show ?case using pc sel(1,2) by (intro exI [of _ x]) auto
  next
    case (5 q r)
    have "b < hsArr s x \<and> leads (hsPc s x)" if "b < hsArr ?s x" "leads (hsPc ?s x)" for x
      using that pc bp sel(1,2) by (auto split: if_splits)
    then show ?case using busyD(5) [OF inv 5(1,2)] 5 by blast
  next
    case (6 q k' j l')
    show ?case
    proof (cases "q = p")
      case True
      then show ?thesis using 6 commits post by auto
    next
      case False
      then show ?thesis using 6 busyD(6) [OF inv, of q k' j l'] keeps post sel(1,2) by (auto simp: agr_def)
    qed
  qed
qed

lemma pass_inside:
  assumes inv: "busyInv len a n b f s" and p: "p < n" and pc: "hsPc s p = HWait f' k i first" and bp: "b < hsArr s p"
    and all: "\<forall>q<n. hsArr s p \<le> hsArr s q" and len: "3 \<le> len f"
  shows "(Suc (Suc i) < len f' \<longrightarrow> busyInv len a n b f (hgoto p (HIn f' k (Suc i) first) s)) \<and>
    (Suc (Suc i) = len f' \<longrightarrow> idleInv len a n (b + len f) (hgoto p (HIn f' k (Suc i) first) s))"
proof -
  have ip: "inside len b f (HWait f' k i first) (hsArr s p)"
    using busyD(1) [OF inv p] pc bp by auto
  then have f: "f' = f" and arr: "hsArr s p = b + 2 + i" and k: "simpleCont k" and i: "Suc i < len f" by auto
  have "busyInv len a n b f (hgoto p (HIn f' k (Suc i) first) s)" if j: "Suc (Suc i) < len f'"
  proof (rule busyI, goal_cases)
    case (1 q) then show ?case using busyD(1) [OF inv 1] ip j f by (cases "q = p") simp_all
  next
    case 2 then show ?case using busyD(2) [OF inv] by simp
  next
    case (3 q k j l r) then show ?case using busyD(3) [OF inv, of q k j l r] all by (cases "q = p") simp_all
  next
    case 4
    obtain x where x: "x < n" "b < hsArr s x" "leads (hsPc s x)" using busyD(4) [OF inv] by blast
    then show ?case using pc by (intro exI [of _ x]) auto
  next
    case (5 q r)
    have "leads (hsPc s x)" if "leads (hsPc (hgoto p (HIn f' k (Suc i) first) s) x)" for x
      using that pc by (cases "x = p") simp_all
    then show ?case using busyD(5) [OF inv 5(1,2)] 5 by simp
  next
    case (6 q k' j l') then show ?case using busyD(6) [OF inv, of q k' j l'] by (cases "q = p") simp_all
  qed
  moreover have "idleInv len a n (b + len f) (hgoto p (HIn f' k (Suc i) first) s)" if j: "Suc (Suc i) = len f'"
  proof -
    have w: "\<exists>k l. hsPc s q = HWait f k i l \<and> simpleCont k \<and> hsArr s q = b + len f" if "q < n" for q
    proof -
      have ge: "b + 2 + i \<le> hsArr s q" using all that arr by simp
      then have "inside len b f (hsPc s q) (hsArr s q)" using busyD(1) [OF inv that] by auto
      then show ?thesis using ge j f by (cases "hsPc s q") auto
    qed
    obtain x where x: "x < n" "leads (hsPc s x)" "b < hsArr s x" using busyD(4) [OF inv] by blast
    obtain k' where "hsPc s x = HWait f k' i True" using w [OF x(1)] x(2) by auto
    then have st: "hsStatus s = postStatus (a (hsMajor s)) f" using busyD(6) [OF inv x(1) _ x(3)] j f by simp
    then have "statusValid (a (hsMajor s)) (hsStatus s)" by (cases f) (auto simp: status_defs)
    moreover have "hsArr s q = b + len f \<and> outside (a (hsMajor s)) len (hsStatus s) (((hsPc s)(p := HIn f' k (Suc i) first)) q)"
      if "q < n" for q
      using w [OF that] j f k by (cases "q = p") auto
    ultimately show ?thesis by (simp add: idleInv_def)
  qed
  ultimately show ?thesis by blast
qed

lemma pass_outside:
  assumes inv: "idleInv len a n b s \<or> busyInv len a n b f s" and p: "p < n" and pc: "hsPc s p = HWait f' k i first" and bp: "hsArr s p = b"
    and len: "\<And>f. 3 \<le> len f"
  shows "(idleInv len a n b s \<longrightarrow> idleInv len a n b (hgoto p (HIn f' k (Suc i) first) s)) \<and>
    (busyInv len a n b f s \<longrightarrow> busyInv len a n b f (hgoto p (HIn f' k (Suc i) first) s))"
proof -
  have id: "(hgoto p (HIn f' k (Suc i) first) s) = hgoto p (HIn f' k (Suc i) first) (s\<lparr>hsStatus := hsStatus s, hsData := hsData s\<rparr>)"
    by simp
  have st: "statusStep ag st st" for ag st by (simp add: statusStep_def)
  have o1: "outside (a (hsMajor s)) len (hsStatus s) (HIn f' k (Suc i) first)" if "idleInv len a n b s"
    using p pc that by (fastforce simp: idleInv_def)
  have o2: "outside (a (hsMajor s)) len (hsStatus s) (HIn f' k (Suc i) first)" if "busyInv len a n b f s"
    using busyD(1) [OF that p] pc bp by fastforce
  have l: "2 \<le> len f" using len [of f] by simp
  show ?thesis
    unfolding id by (intro conjI impI idle_outside [OF _ p st] busy_outside [OF _ p bp st] l o1 o2)
qed

lemma flipInv_data [simp]: "flipInv C n (s\<lparr>hsData := d\<rparr>) = flipInv C n s"
  by (simp add: flipInv_def idleInv_def busyInv_def)

lemma out_valid:
  assumes inv: "flipInv C n s" and p: "p < n" "\<not> routinePc (hsPc s p)" and len: "\<And>f. 2 \<le> pieceCount C f"
  shows "statusValid (agr C s) (hsStatus s)"
proof -
  consider b where "idleInv (pieceCount C) (hAgressive C) n b s"
    | b f where "busyInv (pieceCount C) (hAgressive C) n b f s"
    using inv unfolding flipInv_def by blast
  then show ?thesis
  proof cases
    case 2
    have "hsArr s p = b" using busyD(1) [OF 2 p(1)] not_inside [OF p(2)] by blast
    then show ?thesis
      using busy_out_status [OF 2 p(1) _ len] by (cases f) (auto simp: agr_def status_defs)
  qed (auto simp: idleInv_def agr_def)
qed

subsection \<open>What the next place requires of the status\<close>

lemma outside_check:
  "statusValid ag st \<Longrightarrow> outside ag len st (HCheck k) \<Longrightarrow> outside ag len st (checkStatus ag st k)"
  by (cases st) (auto simp: checkStatus_def status_defs)

lemma outside_decide: "outside ag len st (HDecide w) \<Longrightarrow> outside ag len st (decide C ag st w)"
  by (auto simp: decide_def status_defs)

lemma simple_contOk: "simpleCont k \<Longrightarrow> contOk st k"
  by (cases k) auto

lemma outside_resume: "contOk st k \<Longrightarrow> outside ag len st (resume k)"
  by (cases k) (auto simp: entering_def)

lemma outside_done:
  assumes "statusValid ag st" "contOk st k"
  shows "outside ag len st (case doneStatus st of None \<Rightarrow> HTop k | Some v \<Rightarrow> HWrite k v)"
  using assms by (auto simp: doneStatus_def status_defs)

lemma outside_write:
  assumes "outside ag len st (HWrite k v)"
  shows "statusStep ag st v" "outside ag len v (HTop k)"
proof -
  show "statusStep ag st v" using assms by (auto simp: statusStep_def)
  then show "outside ag len v (HTop k)" using assms contOk_step by simp
qed

lemma entering_goes_on: "entering ag st f \<Longrightarrow> enterStatus off ag f st \<noteq> None"
  by (cases f) (auto simp: enterStatus_def status_defs split: if_splits)

lemma outside_enter:
  assumes "outside ag len st (HEnter f k)" "enterStatus off ag f st = Some (b, v)"
  shows "statusStep ag st v" "outside ag len v (HReady f k)"
proof -
  show "statusStep ag st v"
    using assms by (cases f) (auto simp: enterStatus_def statusStep_def status_defs split: if_splits)
  show "outside ag len v (HReady f k)"
    using assms by (cases f) (auto simp: enterStatus_def status_defs split: if_splits)
qed

definition statusNext :: "bool \<Rightarrow> gcStatus \<Rightarrow> gcStatus \<Rightarrow> bool" where
  \<comment> \<open>the cycle of a collection; an aggressive one has a phase before it commits\<close>
  "statusNext ag st st' \<longleftrightarrow>
     (st = GCOff \<and> \<not> ag \<and> st' = GCPendingOn) \<or> (st = GCOff \<and> ag \<and> st' = GCPendingAgressive) \<or>
     (st = GCPendingAgressive \<and> st' = GCAgressive) \<or> (st = GCAgressive \<and> st' = GCPendingOn) \<or>
     (st = GCPendingOn \<and> st' = GCOn) \<or> (st = GCOn \<and> st' = GCPendingOff) \<or> (st = GCPendingOff \<and> st' = GCOff)"

subsection \<open>The contract of a concurrent collector\<close>

locale concurrent_collector =
  fixes C :: "'d cops"
  assumes three_pieces: "3 \<le> length (hPieces C f)"
begin

lemma pieces: "3 \<le> pieceCount C f" "2 \<le> pieceCount C f"
  using three_pieces [of f] by (simp_all add: pieceCount_def)

lemma flip_move:
  assumes "flipInv C n s" "p < n" "lastPc (pieceCount C) (hsPc s p)" "outside (agr C s) (pieceCount C) (hsStatus s) pc"
  shows "flipInv C n (hgoto p pc (s\<lparr>hsData := d\<rparr>))" "flipInv C n (hgoto p pc s)"
proof -
  have "statusStep (agr C s) (hsStatus s) (hsStatus s)" by (simp add: statusStep_def)
  from flip_outside [OF assms(1-3) this assms(4) pieces(2)]
  have "flipInv C n (hgoto p pc (s\<lparr>hsStatus := hsStatus s, hsData := d\<rparr>))" for d .
  from this [of d] this [of "hsData s"]
  show "flipInv C n (hgoto p pc (s\<lparr>hsData := d\<rparr>))" "flipInv C n (hgoto p pc s)" by simp_all
qed

lemma weak_inv:
  assumes inv: "flipInv C n s" and p: "p < n" and pc: "hsPc s p = HReady f k"
  shows "flipInv C n (hgoto p (HIn f k 0 (isFirst n p s)) (s\<lparr>hsData := d, hsArr := (hsArr s)(p := Suc (hsArr s p))\<rparr>))"
proof -
  consider b where "idleInv (pieceCount C) (hAgressive C) n b s"
    | b g where "busyInv (pieceCount C) (hAgressive C) n b g s"
    using inv unfolding flipInv_def by blast
  then show ?thesis
  proof cases
    case 1
    have b: "hsArr s p = b" "isFirst n p s" using 1 p by (auto simp: idleInv_def isFirst_def)
    then show ?thesis using weak_first [OF 1 p pc pieces(1), of d] unfolding flipInv_def by auto
  next
    case 2
    note w = weak_later [OF 2 p pc pieces(1)]
    have "busyInv (pieceCount C) (hAgressive C) n b g
        (hgoto p (HIn f k 0 (isFirst n p s)) (s\<lparr>hsData := d, hsArr := (hsArr s)(p := Suc (hsArr s p))\<rparr>))"
      using w(4) [of d] w(1-3) by simp
    then show ?thesis unfolding flipInv_def by blast
  qed
qed

lemma piece_inv:
  assumes inv: "flipInv C n s" and p: "p < n" and pc: "hsPc s p = HIn f k i first" and i: "Suc i < length (hPieces C f)"
    and run: "runPiece C p f i first l s = Inr s'"
  shows "flipInv C n (hgoto p (HWait f k i first) (s'\<lparr>hsArr := (hsArr s')(p := Suc (hsArr s' p))\<rparr>))"
proof -
  consider b where "idleInv (pieceCount C) (hAgressive C) n b s"
    | b g where "busyInv (pieceCount C) (hAgressive C) n b g s"
    using inv unfolding flipInv_def by blast
  then show ?thesis
  proof cases
    case 1
    then have "outside (hAgressive C (hsMajor s)) (pieceCount C) (hsStatus s) (HIn f k i first)"
      using p pc unfolding idleInv_def by metis
    then show ?thesis using i by (simp add: pieceCount_def)
  next
    case 2
    then show ?thesis
      using piece_inside [OF 2 p pc _ run pieces(1)] i unfolding flipInv_def pieceCount_def by blast
  qed
qed

lemma pass_inv:
  assumes inv: "flipInv C n s" and p: "p < n" and pc: "hsPc s p = HWait f k i first"
    and all: "\<forall>q<n. hsArr s p \<le> hsArr s q"
  shows "flipInv C n (hgoto p (HIn f k (Suc i) first) s)"
proof -
  consider b where "idleInv (pieceCount C) (hAgressive C) n b s"
    | b g where "busyInv (pieceCount C) (hAgressive C) n b g s"
    using inv unfolding flipInv_def by blast
  then show ?thesis
  proof cases
    case 1
    have "hsArr s p = b" using 1 p by (simp add: idleInv_def)
    then show ?thesis
      using pass_outside [OF disjI1 [OF 1] p pc _ pieces(1)] 1 unfolding flipInv_def by blast
  next
    case 2
    show ?thesis
    proof (cases "b < hsArr s p")
      case True
      have "inside (pieceCount C) b g (HWait f k i first) (hsArr s p)" using busyD(1) [OF 2 p] True pc by auto
      then have "Suc (Suc i) < pieceCount C f \<or> Suc (Suc i) = pieceCount C f" by auto
      then show ?thesis using pass_inside [OF 2 p pc True all pieces(1)] unfolding flipInv_def by blast
    next
      case False
      have "hsArr s p = b" using busyD(1) [OF 2 p] inside_past False by blast
      then show ?thesis
        using pass_outside [OF disjI2 [OF 2] p pc _ pieces(1)] 2 unfolding flipInv_def by blast
    qed
  qed
qed

lemma last_inv:
  assumes inv: "flipInv C n s" and p: "p < n" and pc: "hsPc s p = HIn f k i first" and i: "Suc i = length (hPieces C f)"
    and run: "runPiece C p f i first l s = Inr s'"
  shows "flipInv C n (hgoto p (resume k) s')"
proof -
  obtain d where s': "s' = s\<lparr>hsData := d\<rparr>" using runPiece_sel(3) [OF run] i by (auto simp: pieceCount_def)
  have ni: "\<not> inside (pieceCount C) b g (hsPc s p) x" for b g x using pc i by (auto simp: pieceCount_def)
  have "outside (agr C s) (pieceCount C) (hsStatus s) (HIn f k i first)"
    using inv p pc ni unfolding flipInv_def idleInv_def agr_def by (metis busyD(1))
  then have "outside (agr C s) (pieceCount C) (hsStatus s) (resume k)"
    using outside_resume simple_contOk by simp
  then show ?thesis
    unfolding s' using flip_move(1) [OF inv p] by (simp add: lastPc_def pc i pieceCount_def)
qed

lemma step_inv:
  assumes st: "hstep C n s s'" and inv: "flipInv C n s"
  shows "flipInv C n s'"
proof -
  have here: "flipInv C n (hgoto p pc (t\<lparr>hsData := d\<rparr>))" "flipInv C n (hgoto p pc t)"
    if "flipInv C n t" "p < n" "\<not> routinePc (hsPc t p)" "outside (agr C t) (pieceCount C) (hsStatus t) pc" for p pc d and t :: "'d cstate"
    using flip_move [OF that(1,2) _ that(4)] that(3) by (auto simp: lastPc_def)
  have o: "outside (agr C s) (pieceCount C) (hsStatus s) (hsPc s p)"
    if "p < n" "\<not> routinePc (hsPc s p)" for p
    using out_of_routine [OF inv that] .
  have v: "statusValid (agr C s) (hsStatus s)" if "p < n" "\<not> routinePc (hsPc s p)" for p
    using out_valid [OF inv that pieces(2)] .
  show ?thesis
    using st
  proof cases
    case (check p k)
    then show ?thesis
      using here(2) [OF inv check(2)] outside_check [OF v [of p]] o [of p] by simp
  next
    case (poll p)
    then show ?thesis using here(2) [OF inv poll(2)] by simp
  next
    case (arrived p b)
    then show ?thesis using here(2) [OF inv arrived(2)] by simp
  next
    case (util p)
    then show ?thesis using here(2) [OF inv util(2)] by simp
  next
    case (more p)
    then show ?thesis using here(2) [OF inv more(2)] by simp
  next
    case (skip p w)
    then show ?thesis using here(2) [OF inv skip(2)] by simp
  next
    case (try_help p w b d)
    then show ?thesis using here(1) [OF inv try_help(2)] o [of p] by (cases b) simp_all
  next
    case (decide p w)
    then show ?thesis
      using here(2) [OF inv decide(2)] outside_decide [of "agr C s" "pieceCount C" "hsStatus s" w C] o [of p] by simp
  next
    case (begin_work p k w b d)
    then show ?thesis
      using here(1) [OF inv begin_work(2)] o [of p] outside_resume [of "hsStatus s" k] by (cases b) simp_all
  next
    case (take_work p k b d)
    then show ?thesis using here(1) [OF inv take_work(2)] o [of p] by (cases b) simp_all
  next
    case (test p k)
    then show ?thesis using here(2) [OF inv test(2)] o [of p] by simp
  next
    case (scan p k d)
    then show ?thesis using here(1) [OF inv scan(2)] o [of p] by simp
  next
    case (give p k l b d)
    then show ?thesis using here(1) [OF inv give(2)] o [of p] by (cases b) simp_all
  next
    case (all_done p k)
    then show ?thesis
      using here(2) [OF inv all_done(2)] outside_done [OF v [of p], of k "pieceCount C"] o [of p] by simp
  next
    case (set_status p k st)
    then have "outside (agr C s) (pieceCount C) (hsStatus s) (HWrite k st)" using o [of p] by simp
    note w = outside_write [OF this]
    have "flipInv C n (hgoto p (HTop k) (s\<lparr>hsStatus := st, hsData := hsData s\<rparr>))"
      by (rule flip_outside [OF inv set_status(2) _ w pieces(2)]) (simp add: lastPc_def set_status(3))
    then show ?thesis using set_status(1) by simp
  next
    case (end_work p k)
    then show ?thesis
      using here(2) [OF inv end_work(2)] o [of p] outside_resume [of "hsStatus s" k] by simp
  next
    case (bad p f k)
    then show ?thesis using o [of p] entering_goes_on [of "agr C s" "hsStatus s" f "hOffSignals C"] by simp
  next
    case (enter p f k b st)
    then have "outside (agr C s) (pieceCount C) (hsStatus s) (HEnter f k)" using o [of p] by simp
    note w = outside_enter [OF this enter(4)]
    have "flipInv C n (hgoto p (HReady f k) (s\<lparr>hsStatus := st, hsData := d\<rparr>))" for d
      by (rule flip_outside [OF inv enter(2) _ w pieces(2)]) (simp add: lastPc_def enter(3))
    then show ?thesis using enter(1) by simp
  next
    case (weak p f k d)
    then show ?thesis using weak_inv [OF inv weak(2,3)] by simp
  next
    case (piece p f k i first l t)
    then show ?thesis using piece_inv [OF inv piece(2-5)] by simp
  next
    case (pass p f k i first)
    then show ?thesis using pass_inv [OF inv pass(2-4)] by simp
  next
    case (last p f k i first l)
    then show ?thesis using last_inv [OF inv last(2,3) last(4)] by simp
  qed (simp_all add: inv here(2) [OF inv])
qed

lemma reach_inv: "hreach C n d s \<Longrightarrow> flipInv C n s"
proof (induction rule: hreach.induct)
  case start
  have "idleInv (pieceCount C) (hAgressive C) n 0 (hstart d)"
    by (simp add: idleInv_def hstart_def statusValid_def)
  then show ?case unfolding flipInv_def by blast
next
  case (step s s')
  then show ?case using step_inv by blast
qed

lemma never_bad:
  assumes "hreach C n d s" "p < n"
  shows "hsPc s p \<noteq> HBad"
  using out_of_routine [OF reach_inv [OF assms(1)] assms(2)] by fastforce

lemma exclusive:
  assumes r: "hreach C n d s" and p: "p < n" and pc: "hsPc s p = HIn f k i first"
    and i: "0 < i" "Suc i < length (hPieces C f)" and q: "q < n"
  shows "\<exists>k' j l. (hsPc s q = HIn f k' j l \<or> hsPc s q = HWait f k' j l) \<and> i \<le> Suc j \<and> (first \<longrightarrow> l \<longrightarrow> q = p)"
proof -
  have len: "Suc i < pieceCount C f" using i by (simp add: pieceCount_def)
  consider b where "idleInv (pieceCount C) (hAgressive C) n b s"
    | b g where "busyInv (pieceCount C) (hAgressive C) n b g s"
    using reach_inv [OF r] unfolding flipInv_def by blast
  then show ?thesis
  proof cases
    case 1
    then have "outside (hAgressive C (hsMajor s)) (pieceCount C) (hsStatus s) (HIn f k i first)"
      using p pc unfolding idleInv_def by metis
    then show ?thesis using len by simp
  next
    case 2
    have ip: "inside (pieceCount C) b g (HIn f k i first) (hsArr s p)"
      using busyD(1) [OF 2 p] pc len by auto
    then have g: "g = f" and bp: "hsArr s p = b + 1 + i" by auto
    have le: "hsArr s p \<le> hsArr s q" using busyD(3) [OF 2 p pc [folded g] i(1) _ q] bp by simp
    then have "inside (pieceCount C) b g (hsPc s q) (hsArr s q)" using busyD(1) [OF 2 q] bp by auto
    then have "\<exists>k' j l. (hsPc s q = HIn f k' j l \<or> hsPc s q = HWait f k' j l) \<and> i \<le> Suc j \<and> leads (hsPc s q) = l"
      using le bp g by (cases "hsPc s q") auto
    moreover have "first \<Longrightarrow> leads (hsPc s q) \<Longrightarrow> q = p"
      using busyD(5) [OF 2 q p] le bp pc by simp
    ultimately show ?thesis by blast
  qed
qed

lemma joins:
  \<comment> \<open>who looks at the status while others wait at the first barrier of a routine goes into that routine\<close>
  assumes r: "hreach C n d s" and p: "p < n" and pc: "hsPc s p = HWait f k 0 first"
    and q: "q < n" and qc: "hsPc s q = HCheck k'"
  shows "f = TurnOff \<and> checkStatus (agr C s) (hsStatus s) k' = HBegin (Closing k') \<or>
    f \<noteq> TurnOff \<and> (\<exists>k2. checkStatus (agr C s) (hsStatus s) k' = HEnter f k2 \<and>
      enterStatus (hOffSignals C) (agr C s) f (hsStatus s) = Some (False, hsStatus s))"
proof -
  have "\<not> outside (hAgressive C (hsMajor s)) (pieceCount C) (hsStatus s) (HWait f k 0 first)"
    using pieces(1) [of f] by simp
  then obtain b g where bg: "busyInv (pieceCount C) (hAgressive C) n b g s" and ip: "inside (pieceCount C) b g (hsPc s p) (hsArr s p)"
    using reach_inv [OF r] p pc unfolding flipInv_def idleInv_def by (metis busyD(1))
  have g: "g = f" using ip pc by simp
  have "hsArr s q = b" using busyD(1) [OF bg q] qc by auto
  note st = busy_out_status [OF bg q this pieces(2)]
  show ?thesis using st unfolding g
    by (cases f) (auto simp: checkStatus_def preStatus_def agr_def enterStatus_def)
qed

lemma status_step:
  assumes r: "hreach C n d s" and st: "hstep C n s s'"
  shows "hsStatus s' = hsStatus s \<or> statusNext (agr C s) (hsStatus s) (hsStatus s')"
proof -
  note inv = reach_inv [OF r]
  have local: "hsStatus s' = hsStatus s \<or> statusNext (agr C s) (hsStatus s) (hsStatus s')"
    if "statusStep (agr C s) (hsStatus s) (hsStatus s')"
    using that by (cases "agr C s") (auto simp: statusStep_def statusNext_def preStatus_def)
  show ?thesis
    using st
  proof cases
    case (set_status p k st)
    have "outside (agr C s) (pieceCount C) (hsStatus s) (HWrite k st)"
      using out_of_routine [OF inv set_status(2)] set_status(3) by simp
    from outside_write(1) [OF this] show ?thesis using local set_status(1) by simp
  next
    case (enter p f k b st)
    have "outside (agr C s) (pieceCount C) (hsStatus s) (HEnter f k)"
      using out_of_routine [OF inv enter(2)] enter(3) by simp
    from outside_enter(1) [OF this enter(4)] show ?thesis using local enter(1) by simp
  next
    case (piece p f k i first l t)
    have out: "\<not> outside (hAgressive C (hsMajor s)) (pieceCount C) (hsStatus s) (HIn f k i first)"
      using piece(4) by (simp add: pieceCount_def)
    then obtain b g where bg: "busyInv (pieceCount C) (hAgressive C) n b g s"
      using inv piece(2,3) unfolding flipInv_def idleInv_def by metis
    have g: "g = f" using busyD(1) [OF bg piece(2)] out piece(3) by auto
    have "hsStatus s = preStatus (agr C s) f \<and> (f = Transit \<longrightarrow> agr C s) \<or> hsStatus s = postStatus (agr C s) f"
      using busyD(2) [OF bg] g by (auto simp: agr_def)
    then have "hsStatus t = hsStatus s \<or> statusNext (agr C s) (hsStatus s) (hsStatus t)"
      using runPiece_sel(3,4) [OF piece(5)]
      by (cases f; cases "Suc (Suc i) = pieceCount C f"; cases "agr C s") (auto simp: status_defs statusNext_def)
    then show ?thesis using piece(1) by simp
  next
    case (last p f k i first l)
    then show ?thesis using runPiece_sel(3) [OF last(5)] by (simp add: pieceCount_def)
  qed simp_all
qed

end

subsection \<open>A run into the first routine\<close>

text \<open>
  Two processors turn the collector on: the first has a request that cannot be met, the second runs
  ML code until it polls.  The lemmas give states that are reached on the way; what they ask of the
  data \<open>D\<close> is that the pieces that are run do not fail.
\<close>

abbreviation hst :: "gcStatus \<Rightarrow> hpc \<Rightarrow> hpc \<Rightarrow> nat \<Rightarrow> nat \<Rightarrow> 'd \<Rightarrow> 'd cstate" where
  "hst st pc0 pc1 a0 a1 d \<equiv> \<lparr>hsStatus = st, hsMajor = False, hsPc = (\<lambda>_. HMutator)(0 := pc0, 1 := pc1),
     hsArr = (\<lambda>_. 0)(0 := a0, 1 := a1), hsData = d\<rparr>"

lemma hst_mutate: "hreach C 2 D (hst st pc0 HMutator a0 a1 d) \<Longrightarrow> hreach C 2 D (hst st pc0 HMutator a0 a1 d')"
  using hreach.step [OF _ mutate [of 1 2 "hst st pc0 HMutator a0 a1 d" C d']] by simp

lemma run_to_enter:
  assumes "hEarly C GCOff 0 D = Inr False" "hHelp C False AtOff 0 D = Inr (False, d)"
  shows "hreach C 2 D (hst GCOff (HEnter TurnOn (Helping (if hAgressive C False then AfterAgressive else AfterOn))) HMutator 0 0 D)"
proof -
  have "hreach C 2 D (hst GCOff HMutator HMutator 0 0 D)"
    using hreach.start [of C 2 D] unfolding hstart_def by (metis fun_upd_triv)
  from hreach.step [OF this request [of 0]]
  have "hreach C 2 D (hst GCOff HArrived HMutator 0 0 D)" by (simp add: hgoto_def fun_upd_twist)
  from hreach.step [OF this arrived [of 0 _ _ _ False]]
  have "hreach C 2 D (hst GCOff (HCheck Recheck) HMutator 0 0 D)" using assms(1) by (simp add: hgoto_def fun_upd_twist)
  from hreach.step [OF this check [of 0 _ _ Recheck]]
  have "hreach C 2 D (hst GCOff (HHelp AtOff) HMutator 0 0 D)" by (simp add: hgoto_def fun_upd_twist checkStatus_def)
  from hreach.step [OF this try_help [of 0 _ _ AtOff _ False d]]
  have "hreach C 2 D (hst GCOff (HDecide AtOff) HMutator 0 0 d)" using assms(2) by (simp add: hgoto_def fun_upd_twist)
  from hreach.step [OF hst_mutate [OF this, of D] decide [of 0 _ _ AtOff]]
  show ?thesis by (simp add: hgoto_def fun_upd_twist decide_def agr_def)
qed

lemma run_to_wait:
  assumes "hreach C 2 D (hst GCOff (HEnter TurnOn k) HMutator 0 0 D)" "\<not> hAgressive C False"
    "hBefore C TurnOn False 0 D = Inr d" "hPieces C TurnOn = f # g # h # fs" "f False 0 True False D = Inr d'"
  shows "hreach C 2 D (hst GCPendingOn (HWait TurnOn k 0 True) HMutator 2 0 D)"
proof -
  from hreach.step [OF assms(1) enter [of 0 _ _ TurnOn k _ True GCPendingOn]]
  have "hreach C 2 D (hst GCPendingOn (HReady TurnOn k) HMutator 0 0 (hStop C D))"
    using assms(2) by (simp add: hgoto_def fun_upd_twist enterStatus_def agr_def)
  from hreach.step [OF hst_mutate [OF this, of D] weak [of 0 _ _ TurnOn k _ d]]
  have "hreach C 2 D (hst GCPendingOn (HIn TurnOn k 0 True) HMutator 1 0 d)"
    using assms(3) by (simp add: hgoto_def fun_upd_twist isFirst_def less_2_cases_iff)
  from hreach.step [OF hst_mutate [OF this, of D] piece [of 0 _ _ TurnOn k 0 True _ False "hst GCPendingOn (HIn TurnOn k 0 True) HMutator 1 0 d'"]]
  have "hreach C 2 D (hst GCPendingOn (HWait TurnOn k 0 True) HMutator 2 0 d')"
    using assms(4,5) by (simp add: hgoto_def fun_upd_twist runPiece_def flip: numeral_2_eq_2)
  then show ?thesis by (rule hst_mutate)
qed

lemma run_to_poll:
  assumes "hreach C 2 D (hst st pc0 HMutator a0 a1 D)" "hPoll C = Return"
  shows "hreach C 2 D (hst st pc0 (HCheck Return) a0 a1 D)"
  using hreach.step [OF assms(1) poll [of 1]] assms(2) by (simp add: hgoto_def fun_upd_twist)

lemma run_to_gather:
  assumes "hreach C 2 D (hst GCPendingOn (HWait TurnOn k 0 True) (HCheck Return) 2 0 D)" "\<not> hAgressive C False"
    "hBefore C TurnOn False 1 D = Inr d" "hPieces C TurnOn = f # g # h # fs" "f False 1 False False d = Inr d'"
  shows "hreach C 2 D (hst GCPendingOn (HIn TurnOn k 1 True) (HWait TurnOn Return 0 False) 2 2 d')"
proof -
  have [simp]: "\<not> All ((<) (0::nat))" by auto
  from hreach.step [OF assms(1) check [of 1 _ _ Return]]
  have "hreach C 2 D (hst GCPendingOn (HWait TurnOn k 0 True) (HEnter TurnOn Return) 2 0 D)"
    using assms(2) by (simp add: hgoto_def fun_upd_twist checkStatus_def agr_def)
  from hreach.step [OF this enter [of 1 _ _ TurnOn Return _ False GCPendingOn]]
  have "hreach C 2 D (hst GCPendingOn (HWait TurnOn k 0 True) (HReady TurnOn Return) 2 0 D)"
    by (simp add: hgoto_def fun_upd_twist enterStatus_def)
  from hreach.step [OF this weak [of 1 _ _ TurnOn Return _ d]]
  have "hreach C 2 D (hst GCPendingOn (HWait TurnOn k 0 True) (HIn TurnOn Return 0 False) 2 1 d)"
    using assms(3) by (simp add: hgoto_def fun_upd_twist isFirst_def less_2_cases_iff)
  from hreach.step [OF this piece [of 1 _ _ TurnOn Return 0 False _ False "hst GCPendingOn (HWait TurnOn k 0 True) (HIn TurnOn Return 0 False) 2 1 d'"]]
  have "hreach C 2 D (hst GCPendingOn (HWait TurnOn k 0 True) (HWait TurnOn Return 0 False) 2 2 d')"
    using assms(4,5) by (simp add: hgoto_def fun_upd_twist runPiece_def flip: numeral_2_eq_2)
  from hreach.step [OF this pass [of 0 _ _ TurnOn k 0 True]]
  show ?thesis by (simp add: hgoto_def fun_upd_twist less_2_cases_iff)
qed

end
