(* ===== verification/SemiConc.thy ===== *)
theory SemiConc
  imports ParCollect CollectorStatus
begin

text \<open>
  The concurrent semispace collector, \<open>Runtime/sparc/gc_semi_conc.c\<close>.  While ML code runs on the
  objects of from-space (the primaries), the collector builds replicas in to-space; \<open>CollectorOff\<close>
  redirects the roots to the replicas (\<open>flipRootLoc\<close>) and swaps the spaces.  What threads allocate and
  write in the committed phase is replicated when a thread is released (\<open>GCRelease_SemiConc\<close>).

  Each piece between two barriers is one definition; \<open>semiConcOps\<close> puts them together for the steps of
  theory \<open>CollectorStatus\<close>, with \<open>GC_SemiConc\<close> and \<open>GCPoll_SemiConc\<close>.  \<open>workAhead\<close> is left out: the
  code only ever adds to it.
\<close>

subsection \<open>Flipping a root\<close>

definition flipRootLoc :: "bool \<Rightarrow> senv \<Rightarrow> heap \<Rightarrow> heap \<Rightarrow> addr \<Rightarrow> gcst \<Rightarrow> gcst result" where
  "flipRootLoc paranoid e from to loc s =
     (let v = mem s loc; primary = unat v in
      if inHeap primary from then
        let replica = mem s (primary - 4); s = storeAt loc replica s in
        bindE (assertE (inHeap (unat replica) to) ''inHeap(replica,toSpace)'') (\<lambda>_. Inr s)
      else if paranoid then
        bindE (assertE (IsGlobalData e v \<or> IsTagData v \<or> inHeap primary to) ''IsGlobalData || IsTagData || inHeap'') (\<lambda>_. Inr s)
      else Inr s)"

definition gcAgressive :: "bool \<Rightarrow> gcStatus \<Rightarrow> bool" where
  "gcAgressive ag st \<longleftrightarrow> ag \<and> (st = GCAgressive \<or> st = GCPendingOn)"

definition gcIsOn :: "bool \<Rightarrow> gcStatus \<Rightarrow> bool" where
  "gcIsOn ag st \<longleftrightarrow> gcAgressive ag st \<or> st = GCOn \<or> st = GCPendingOff"

definition shouldDoubleAllocate :: "bool \<Rightarrow> gcStatus \<Rightarrow> bool" where
  "shouldDoubleAllocate ag st \<longleftrightarrow> gcIsOn ag st \<and> \<not> gcAgressive ag st"

subsection \<open>Turning the collector on\<close>

definition phasesOf :: "parenv \<Rightarrow> nat" where
  "phasesOf E = (if peAgressive E then 2 else 1)"

definition semiBefore :: "flip \<Rightarrow> parenv \<Rightarrow> nat \<Rightarrow> conc \<Rightarrow> conc result" where
  \<comment> \<open>what a routine does before its weak barrier, the switch on the status apart\<close>
  "semiBefore f E p s = (case f of
       TurnOn \<Rightarrow>
         let s = markSeg (MajorWork OR FlipOn) s in
         bindE (assertE (SetIsEmpty (objs (lwork s))) ''SetIsEmpty(objs)'') (\<lambda>_.
         bindE (assertE (SetIsEmpty (roots (lwork s))) ''SetIsEmpty(roots)'') (\<lambda>_.
         Inr (copyRangeC (toSp (col s)) s)))
     | Transit \<Rightarrow>
         bindE (assertE (noShared s) ''hasShared == 0'') (\<lambda>_.
         Inr (markSeg (MajorWork OR FlipTransition) s))
     | TurnOff \<Rightarrow>
         bindE (assertE (SetIsEmpty (objs (lwork s))) ''SetIsEmpty(objs)'') (\<lambda>_.
         onView E p ClearCopyRange s))"

definition semiOnPrepare :: "parenv \<Rightarrow> nat \<Rightarrow> bool \<Rightarrow> conc \<Rightarrow> conc result" where
  "semiOnPrepare E p first s =
     bindE (if first then
         let from = fromSp (col s); to = toSp (col s);
             size = (\<lambda>h. if peRelaxed E then Heap_GetMaximumSize (cheap h (col s)) else nat (expandedSize s)) in
         bindE (freshPages from s) (\<lambda>s.
         bindE (resizeC E from (size from) False s) (\<lambda>s.
         bindE (resizeC E to (size to) True s) (\<lambda>s.
         Inr ((resetWork s)\<lparr>totalReplicated := 0\<rparr>))))
       else Inr s) (resetShared False)"

definition initialThread :: "parenv \<Rightarrow> nat \<Rightarrow> nat \<Rightarrow> conc \<Rightarrow> conc result" where
  "initialThread E p t s = bindE (scanThread initial_root_scan E p t s) (\<lambda>s. Inr (addRequest t s))"

definition transitThread :: "parenv \<Rightarrow> nat \<Rightarrow> nat \<Rightarrow> conc \<Rightarrow> conc result" where
  \<comment> \<open>the roots of the aggressive phase are discarded and collected again\<close>
  "transitThread E p t s =
     bindE (scanThread (\<lambda>e A. discard_root_scan A) E p t s) (\<lambda>s.
     if \<not> thUsed (Threads (csch (col s)) ! t) then Inr s else initialThread E p t s)"

definition semiOnRoots :: "(parenv \<Rightarrow> nat \<Rightarrow> nat \<Rightarrow> conc \<Rightarrow> conc result) \<Rightarrow> parenv \<Rightarrow> nat \<Rightarrow> bool \<Rightarrow> bool \<Rightarrow> conc \<Rightarrow> conc result" where
  "semiOnRoots thread E p first isLast s =
     bindE (if first then majorGlobalScan s else Inr s) (\<lambda>s.
     bindE (jobLoop (cFuel (peCol E)) (thread E p) (addUnused p s)) (\<lambda>s.
     bindE (pushShared False isLast s) (\<lambda>(_, s).
     bindE (assertE (SetIsEmpty (objs (lwork s))) ''SetIsEmpty(objs)'') (\<lambda>_. Inr s))))"

definition semiTransitPrepare :: "bool \<Rightarrow> conc \<Rightarrow> conc result" where
  "semiTransitPrepare first s = resetShared False (if first then updSch ResetJob s else s)"

subsection \<open>Turning it off\<close>

definition semiOffPrepare :: "bool \<Rightarrow> conc \<Rightarrow> conc result" where
  "semiOffPrepare first s = Inr (if first then updSch ResetJob s else s)"

definition semiFlip :: "parenv \<Rightarrow> conc \<Rightarrow> addr \<Rightarrow> gcst \<Rightarrow> gcst result" where
  \<comment> \<open>\<open>flipRootLoc\<close> with the spaces of the state\<close>
  "semiFlip E s = flipRootLoc (cParanoid (peCol E)) (cEnv (peCol E)) (cheap (fromSp (col s)) (col s)) (cheap (toSp (col s)) (col s))"

definition addReplicated :: "nat \<Rightarrow> conc \<Rightarrow> conc" where
  "addReplicated p s = s\<lparr>totalReplicated := totalReplicated s + bytesReplicated (prUsage (cproc p s)) + bytesReplicated (cycleUsage (cgc (col s)))\<rparr>"

definition semiOffRoots :: "parenv \<Rightarrow> nat \<Rightarrow> bool \<Rightarrow> conc \<Rightarrow> conc result" where
  \<comment> \<open>the globals, the threads, then the roots the threads gave\<close>
  "semiOffRoots E p first s =
     bindE (assertE (isEmptySharedStack (wstk s)) ''isEmptySharedStack(workStack)'') (\<lambda>_.
     bindE (assertE (workEmpty s) ''isLocalWorkEmpty'') (\<lambda>_.
     bindE (if first then minorGlobalScan s else Inr s) (\<lambda>s.
     bindE (onView E p (drain (cFuel (peCol E)) takeGlobal (onReplicaGlobal (ccfg s) (semiFlip E s))) s) (\<lambda>s.
     bindE (jobLoop (cFuel (peCol E)) (scanThread complete_root_scan E p) s) (\<lambda>s.
     let s = markSeg (MajorWork OR FlipOff) s in
     bindE (onView E p (drain (cFuel (peCol E)) takeRoot (semiFlip E s)) s) (\<lambda>s.
     Inr (addReplicated p s)))))))"

definition swapGlobalOffsets :: "conc \<Rightarrow> conc" where
  "swapGlobalOffsets s = s\<lparr>ccfg := (ccfg s)\<lparr>primaryGlobalOffset := replicaGlobalOffset (ccfg s),
     replicaGlobalOffset := primaryGlobalOffset (ccfg s)\<rparr>\<rparr>"

definition swapArrayOffsets :: "conc \<Rightarrow> conc" where
  "swapArrayOffsets s = s\<lparr>ccfg := (ccfg s)\<lparr>primaryArrayOffset := replicaArrayOffset (ccfg s),
     replicaArrayOffset := primaryArrayOffset (ccfg s)\<rparr>\<rparr>"

definition swapStackletOffsets :: "conc \<Rightarrow> conc" where
  "swapStackletOffsets s = updSch (\<lambda>sc. sc\<lparr>stk := (stk sc)\<lparr>primaryOff := replicaOff (stk sc), replicaOff := primaryOff (stk sc)\<rparr>\<rparr>) s"

definition semiOffFlip :: "parenv \<Rightarrow> nat \<Rightarrow> bool \<Rightarrow> conc \<Rightarrow> conc result" where
  "semiOffFlip E p first s =
     bindE (if first then
         bindE (adjust1 E (totalReplicated s) (phasesOf E) s) (\<lambda>to.
         let red = int (Heap_GetSize to) in
         bindE (reducedToExpanded (cRnd (peCol E)) (cSizes (peCol E)) red (cRate (peCol E)) (phasesOf E)) (\<lambda>ex.
         bindE (flipHeaps E to (s\<lparr>reducedSize := red, expandedSize := ex\<rparr>)) (\<lambda>s.
         Inr (countGC (swapStackletOffsets (swapGlobalOffsets s))))))
       else Inr s) (\<lambda>s.
     let s = resetNull p s in bindE (emptyWritelist p s) (\<lambda>_. Inr s))"

subsection \<open>Doing a share of the work\<close>

definition semiStart :: "nat \<Rightarrow> int \<Rightarrow> conc \<Rightarrow> (bool \<times> conc) result" where
  \<comment> \<open>the start of \<open>do_work(proc, additionalWork)\<close>; False: it returns at once\<close>
  "semiStart p w s =
     (if w \<le> 0 then Inr (False, s)
      else let s = markSeg MajorWork (addMax p w s) in
           bindE (assertE (workEmpty s) ''isLocalWorkEmpty'') (\<lambda>_. Inr (True, s)))"

definition concTake :: "parenv \<Rightarrow> nat \<Rightarrow> conc \<Rightarrow> (bool \<times> conc) result" where
  \<comment> \<open>\<open>while (!reachMaxWork(proc)) { popSharedStack(...)\<close>; False: the loop ends\<close>
  "concTake E p s = (case reachMaxWork (ccfg s) (prUsage (cproc p s)) of (b, u) \<Rightarrow>
     let s = updSch (updPr p (\<lambda>pr. pr\<lparr>prUsage := u\<rparr>)) s in
     if b then Inr (False, s) else bindE (popShared E s) (\<lambda>s. Inr (True, s)))"

fun hybridConc :: "nat \<Rightarrow> config \<Rightarrow> range_t \<Rightarrow> gcst \<Rightarrow> gcst result" where
  "hybridConc 0 cfg from s = Inl OutOfFuel"
| "hybridConc (Suc n) cfg from s =
     (case updateReachCheckWork cfg (segUsage s) of (b, u) \<Rightarrow> let s = s\<lparr>segUsage := u\<rparr> in
      if b then Inr s
      else bindE (case takeGrayRegion s of ((start, stop), s') \<Rightarrow>
              if start = NULL then Inr s'
              else case stop of None \<Rightarrow> Inl (Overrun ''stop'') | Some e \<Rightarrow>
                backTransferScanRegion_copyWriteSync_locAlloc1_copyCopySync (Suc n) cfg start e from s') (\<lambda>s.
           bindE (AddGrayCopyRange cfg s) (\<lambda>s.
           if SetIsEmpty (grayRegion (work s)) then Inr s else hybridConc n cfg from s)))"

definition shareRoots :: "nat \<Rightarrow> config \<Rightarrow> (addr \<Rightarrow> gcst \<Rightarrow> gcst result) \<Rightarrow> gcst \<Rightarrow> gcst result" where
  \<comment> \<open>root locations and globals until the share is done\<close>
  "shareRoots fuel cfg f s =
     bindE (limited fuel reachCheckWork cfg (\<lambda>s. orNull (takeRoot s)) (\<lambda>l s. bindE (f l s) (\<lambda>s. Inr (countRoot s))) s)
       (limited fuel reachCheckWork cfg (\<lambda>s. orNull (takeGlobal s)) (\<lambda>g s. bindE (onReplicaGlobal cfg f g s) (\<lambda>s. Inr (countGlobal s))))"

definition semiShare :: "parenv \<Rightarrow> nat \<Rightarrow> config \<Rightarrow> range_t \<Rightarrow> gcst \<Rightarrow> gcst result" where
  "semiShare E fuel cfg from s =
     (let seg = (\<lambda>f. limited fuel updateReachCheckWork cfg takeSegment (\<lambda>(g, st, en). f cfg g st en from));
          obj = (\<lambda>f. limited fuel reachCheckWork cfg (\<lambda>s. orNull (takeObj s)) (\<lambda>g. f cfg g from)) in
      case ordering cfg of
        StackOrder \<Rightarrow>
          if peGrayAsReplica E then
            bindE (shareRoots fuel cfg (\<lambda>l. locAlloc1_copyCopySync_replicaSet cfg l from) s) (\<lambda>s.
            bindE (seg transferScanSegment_copyWriteSync_locAlloc1_copyCopySync_replicaSet s)
              (obj backTransferScanObj_copyWriteSync_locAlloc1_copyCopySync_replicaSet))
          else
            bindE (shareRoots fuel cfg (\<lambda>l. locAlloc1_copyCopySync_primarySet cfg l from) s) (\<lambda>s.
            bindE (seg transferScanSegment_copyWriteSync_locAlloc1_copyCopySync_primarySet s)
              (obj transferScanObj_copyWriteSync_locAlloc1_copyCopySync_primarySet))
      | HybridOrder \<Rightarrow>
          bindE (assertE (peGrayAsReplica E) ''grayAsReplica'') (\<lambda>_.
          bindE (shareRoots fuel cfg (\<lambda>l. locAlloc1_copyCopySync cfg l from) s) (\<lambda>s.
          bindE (seg transferScanSegment_copyWriteSync_locAlloc1_copyCopySync s) (\<lambda>s.
          bindE (assertE (SetIsEmpty (objs (work s))) ''SetIsEmpty(objs)'') (\<lambda>_.
          hybridConc fuel cfg from s))))
      | _ \<Rightarrow> Inl (Die ''bad ordering''))"

definition semiScan :: "parenv \<Rightarrow> nat \<Rightarrow> conc \<Rightarrow> conc result" where
  "semiScan E p s =
     bindE (onView E p (semiShare E (cFuel (peCol E)) (ccfg s) (fromRange s)) s)
       (stackletLoop (cFuel (peCol E)) updateReachCheckWork E p)"

definition semiEnd :: "conc \<Rightarrow> unit result" where
  "semiEnd s = bindE (assertE (SetIsEmpty (objs (lwork s))) ''SetIsEmpty(objs)'') (\<lambda>_. assertE (noShared s) ''hasShared == 0'')"

subsection \<open>Releasing a thread\<close>

definition grayAlloc1 :: "parenv \<Rightarrow> config \<Rightarrow> addr \<Rightarrow> range_t \<Rightarrow> gcst \<Rightarrow> gcst result" where
  \<comment> \<open>\<open>alloc1_*\<close> in the chosen order\<close>
  "grayAlloc1 E cfg obj from s =
     (if ordering cfg = StackOrder then
        if peGrayAsReplica E then alloc1_copyCopySync_replicaSet cfg obj from s
        else alloc1_copyCopySync_primarySet cfg obj from s
      else bindE (assertE (ordering cfg = HybridOrder) ''ordering == HybridOrder'') (\<lambda>_. alloc1_copyCopySync cfg obj from s))"

definition grayAlloc :: "parenv \<Rightarrow> config \<Rightarrow> addr \<Rightarrow> gcst \<Rightarrow> (addr \<times> gcst) result" where
  "grayAlloc E cfg obj s =
     (if ordering cfg = StackOrder then
        if peGrayAsReplica E then alloc_copyCopySync_replicaSet cfg obj s
        else alloc_copyCopySync_primarySet cfg obj s
      else bindE (assertE (ordering cfg = HybridOrder) ''ordering == HybridOrder'') (\<lambda>_. alloc_copyCopySync cfg obj s))"

definition grayValue :: "parenv \<Rightarrow> config \<Rightarrow> range_t \<Rightarrow> addr \<Rightarrow> gcst \<Rightarrow> (addr \<times> gcst) result" where
  \<comment> \<open>\<open>locAlloc1_*\<close> on a local variable with the value \<open>obj\<close>\<close>
  "grayValue E cfg from obj s = (if InRange obj from then grayAlloc E cfg obj s else Inr (obj, s))"

fun replicateLoop :: "nat \<Rightarrow> config \<Rightarrow> (addr \<Rightarrow> gcst \<Rightarrow> (addr \<times> gcst) result) \<Rightarrow> addr \<Rightarrow> addr \<Rightarrow> gcst \<Rightarrow> gcst result" where
  \<comment> \<open>a replica for each object that was allocated between \<open>cur\<close> and \<open>stop\<close>\<close>
  "replicateLoop 0 cfg f cur stop s = (if cur + 4 \<le> stop then Inl OutOfFuel else Inr s)"
| "replicateLoop (Suc n) cfg f cur stop s =
     (if cur + 4 \<le> stop then
        let tag = mem s cur in
        if IS_SKIP_TAG tag then replicateLoop n cfg f (cur + 4 * unat (GET_SKIPWORD tag)) stop s
        else bindE (skipSegTags (Suc n) (mem s) (cur + 4) tag) (\<lambda>obj.
             bindE (f obj s) (\<lambda>(_, s).
             bindE (if bytesCopied s = 0
                    then bindE (objectLength cfg obj (mem s)) (\<lambda>(len, start).
                         bindE (assertE (start = cur) ''dummy == allocCurrent'') (\<lambda>_. Inr len))
                    else Inr (bytesCopied s)) (\<lambda>objSize.
             replicateLoop n cfg f (cur + 4 * (objSize div 4)) stop s)))
      else Inr s)"

definition replicaReady :: "config \<Rightarrow> memory \<Rightarrow> addr \<Rightarrow> nat \<Rightarrow> bool" where
  \<comment> \<open>the segment of the replica that holds the byte \<open>disp\<close> is not being copied\<close>
  "replicaReady cfg m replica disp =
     (let tag = m (replica - 4); byteLen = unat (GET_ANY_ARRAY_LEN tag) in
      if byteLen \<le> arraySegmentSize cfg then m (replica - 4) \<noteq> SEGSTALL_TAG
      else m (replica - 4 * (2 + DivideDown disp (arraySegmentSize cfg))) \<noteq> SEGSTALL_TAG)"

definition semiWriteReplica :: "parenv \<Rightarrow> config \<Rightarrow> range_t \<Rightarrow> addr \<Rightarrow> addr \<Rightarrow> nat \<Rightarrow> gcst \<Rightarrow> gcst result" where
  \<comment> \<open>bring one field of the replica up to date\<close>
  "semiWriteReplica E cfg from primary replica disp s =
     (let ty = GET_TYPE (mem s (replica - 4)); w = 4 * (disp div 4); d = 8 * (disp div 8) in
      if ty = PTR_ARRAY_TYPE \<or> ty = MIRROR_PTR_ARRAY_TYPE then
        bindE (grayValue E cfg from (ptrAt (primary + w) s) s) (\<lambda>(obj, s). Inr (storeAt (replica + w) (word_of_nat obj) s))
      else if ty = WORD_ARRAY_TYPE then Inr (storeAt (replica + w) (mem s (primary + w)) s)
      else if ty = QUAD_ARRAY_TYPE then
        Inr (storeAt (replica + d + 4) (mem s (primary + d + 4)) (storeAt (replica + d) (mem s (primary + d)) s))
      else Inl (Die ''GCRelease_SemiConc''))"

definition semiWriteEntry :: "parenv \<Rightarrow> config \<Rightarrow> heap \<Rightarrow> bool \<Rightarrow> addr \<Rightarrow> gcst \<times> globst \<Rightarrow> (gcst \<times> globst) result" where
  \<comment> \<open>one entry of the write list, at \<open>cur\<close>: object, byte offset, previous value\<close>
  "semiWriteEntry E cfg from on cur sg = (case sg of (s, g) \<Rightarrow>
     let v = mem s cur; primary = unat v; disp = unat (mem s (cur + 4)); prev = unat (mem s (cur + 8)) in
     if IsGlobalData (cEnv (peCol E)) v then
       bindE (add_global_root cfg (cEnv (peCol E)) primary (mem s) g) (\<lambda>(m, g). Inr (s\<lparr>mem := m\<rparr>, g))
     else if \<not> on \<or> \<not> inHeap primary from then Inr (s, g)
     else let ty = GET_TYPE (mem s (primary - 4)) in
       if ty = PTR_ARRAY_TYPE \<or> ty = MIRROR_PTR_ARRAY_TYPE then
         bindE (grayAlloc1 E cfg prev (hrange from) s) (\<lambda>s. Inr (s, g))
       else if ty = WORD_ARRAY_TYPE \<or> ty = QUAD_ARRAY_TYPE then Inr (s, g)
       else let replica = mem s (primary - 4); r = unat replica in
         if replica = STALL_TAG then Inl (Spin ''STALL_TAG'')
         else if mem s r = v then Inr (s, g)
         else if \<not> replicaReady cfg (mem s) r disp then Inl (Spin ''SEGSTALL_TAG'')
         else bindE (semiWriteReplica E cfg (hrange from) primary r disp s) (\<lambda>s. Inr (s, g)))"

fun entryLoop :: "nat \<Rightarrow> (addr \<Rightarrow> gcst \<times> globst \<Rightarrow> (gcst \<times> globst) result) \<Rightarrow> addr \<Rightarrow> addr \<Rightarrow> gcst \<times> globst \<Rightarrow> (gcst \<times> globst) result" where
  \<comment> \<open>the entries of the write list take three words each\<close>
  "entryLoop 0 f cur stop sg = (if cur < stop then Inl OutOfFuel else Inr sg)"
| "entryLoop (Suc n) f cur stop sg = (if cur < stop then bindE (f cur sg) (entryLoop n f (cur + 12) stop) else Inr sg)"

definition releaseCursors :: "nat \<Rightarrow> conc \<Rightarrow> conc" where
  \<comment> \<open>the allocation area is not used again, the write list is\<close>
  "releaseCursors p = updSch (updPr p (\<lambda>pr. pr\<lparr>prAllocStart := prAllocCursor pr, prWritelistCursor := prWritelistStart pr\<rparr>))"

definition addReplicatedBytes :: "addr \<Rightarrow> addr \<Rightarrow> gcst \<Rightarrow> gcst" where
  "addReplicatedBytes start stop = updUsage (\<lambda>u. u\<lparr>bytesReplicated := bytesReplicated u + (int stop - int start)\<rparr>)"

definition onEntries :: "parenv \<Rightarrow> nat \<Rightarrow> (gcst \<times> globst \<Rightarrow> (gcst \<times> globst) result) \<Rightarrow> conc \<Rightarrow> conc result" where
  "onEntries E p f s = bindE (f (gcView (cA E) p (col s), cgl (col s))) (\<lambda>(g, gl).
     Inr (s\<lparr>col := (putGc (cA E) p g (col s))\<lparr>cgl := gl\<rparr>\<rparr>))"

definition GCRelease_SemiConc :: "parenv \<Rightarrow> gcStatus \<Rightarrow> nat \<Rightarrow> bool \<Rightarrow> conc \<Rightarrow> conc result" where
  \<comment> \<open>\<open>st\<close>: \<open>GCStatus\<close>\<close>
  "GCRelease_SemiConc E st p isLast s =
     bindE (assertE (noShared s) ''hasShared == 0'') (\<lambda>_.
     let pr = cproc p s; ag = peAgressive E; cfg = ccfg s; from = cheap (fromSp (col s)) (col s);
         start = prAllocStart pr; stop = prAllocCursor pr; wl = prWritelistStart pr; wend = prWritelistCursor pr;
         s = releaseCursors p s in
     bindE (if shouldDoubleAllocate ag st
            then onView E p (\<lambda>g. replicateLoop ((stop - start) div 4 + 1) cfg (grayAlloc E cfg) start stop (addReplicatedBytes start stop g)) s
            else Inr s) (\<lambda>s.
     bindE (assertE (primaryArrayOffset cfg = 0) ''primaryArrayOffset == 0'') (\<lambda>_.
     bindE (onEntries E p (entryLoop ((wend - wl) div 12 + 1) (semiWriteEntry E cfg from (gcIsOn ag st)) wl wend) s) (\<lambda>s.
     bindE (if ordering cfg = HybridOrder then onView E p (AddGrayCopyRange cfg) s else Inr s) (\<lambda>s.
     bindE (if gcIsOn ag st then bindE (pushShared True isLast s) (\<lambda>(_, s). Inr s) else Inr s) (\<lambda>s.
     bindE (assertE (noShared s) ''hasShared == 0'') (\<lambda>_. Inr s)))))))"

subsection \<open>Satisfying a request\<close>

definition concRound :: "parenv \<Rightarrow> bool \<Rightarrow> int \<Rightarrow> int" where
  \<comment> \<open>\<open>roundOffSize\<close> and \<open>roundOnSize\<close>\<close>
  "concRound E on info = iRoundUp (if info < 0 then 4 else info) (if on then minOnRequest (cSizes (peCol E)) else peMinOff E)"

definition GC_SemiConcHelp :: "parenv \<Rightarrow> bool \<Rightarrow> nat \<Rightarrow> conc \<Rightarrow> (bool \<times> conc) result" where
  \<comment> \<open>for the thread of processor \<open>p\<close>\<close>
  "GC_SemiConcHelp E on p s =
     (case userThread (cproc p s) of None \<Rightarrow> Inr (True, s) | Some t \<Rightarrow>
      bindE (satisfiable E p t s) (\<lambda>b.
      if b then Inr (True, s)
      else let s = areaC p (fromSp (col s)) (concRound E on (requestInfo (Threads (csch (col s)) ! t))) s in
           bindE (satisfiable E p t s) (\<lambda>b. Inr (b, s))))"

definition semiEarly :: "nat \<Rightarrow> conc \<Rightarrow> bool result" where
  \<comment> \<open>the assertions at the start of \<open>GC_SemiConc\<close>\<close>
  "semiEarly p s =
     bindE (assertE (prWritelistCursor (cproc p s) + 12 \<le> prWritelistEnd (cproc p s)) ''writelistCursor + 3 <= writelistEnd'') (\<lambda>_.
     bindE (assertE (noShared s) ''hasShared == 0'') (\<lambda>_.
     case userThread (cproc p s) of None \<Rightarrow> Inl (Overrun ''th'') | Some t \<Rightarrow>
     bindE (assertE (requestInfo (Threads (csch (col s)) ! t) \<noteq> 0) ''requestInfo != 0'') (\<lambda>_. Inr False)))"

definition semiAgain :: "after \<Rightarrow> gcStatus \<Rightarrow> bool" where
  \<comment> \<open>\<open>goto retry\<close> instead of \<open>goto fail\<close>\<close>
  "semiAgain w st = (case w of AtOff \<Rightarrow> False | AfterAgressive \<Rightarrow> st = GCPendingOn | AfterOn \<Rightarrow> st = GCPendingOff | AfterWork \<Rightarrow> False)"

definition semiPieces :: "parenv \<Rightarrow> flip \<Rightarrow> (bool \<Rightarrow> nat \<Rightarrow> bool \<Rightarrow> bool \<Rightarrow> conc \<Rightarrow> conc result) list" where
  \<comment> \<open>the pieces between the barriers of the three routines; arguments: major, processor, first, last in the room\<close>
  "semiPieces E f = (case f of
       TurnOn \<Rightarrow>
        [(\<lambda>_ p first _. onProc1 p (semiOnPrepare E p first)),
         (\<lambda>_ p first isLast. onProc1 p (semiOnRoots initialThread E p first isLast)),
         (\<lambda>_ p _ _ s. Inr s)]
     | Transit \<Rightarrow>
        [(\<lambda>_ p first _. onProc1 p (semiTransitPrepare first)),
         (\<lambda>_ p first isLast. onProc1 p (semiOnRoots transitThread E p first isLast)),
         (\<lambda>_ p _ _ s. Inr s)]
     | TurnOff \<Rightarrow>
        [(\<lambda>_ p first _. onProc1 p (semiOffPrepare first)),
         (\<lambda>_ p first _. onProc1 p (semiOffRoots E p first)),
         (\<lambda>_ p first _. onProc1 p (semiOffFlip E p first)),
         (\<lambda>_ p _ _ s. Inr s)])"

definition semiConcOps :: "parenv \<Rightarrow> bool \<Rightarrow> conc cops" where
  \<comment> \<open>\<open>util\<close>: \<open>targetUtil < 1.0\<close>\<close>
  "semiConcOps E util =
     \<lparr>hAgressive = (\<lambda>_. peAgressive E),
      hOffSignals = True,
      hPoll = Return,
      hRelease = (\<lambda>st _ p isLast. onProc1 p (GCRelease_SemiConc E st p isLast)),
      hEarly = (\<lambda>_ p s. semiEarly p (loadProc p s)),
      hHelp = (\<lambda>_ w p. onProc p (GC_SemiConcHelp E (w \<noteq> AtOff) p)),
      hSkip = (\<lambda>_ _ _ _. False),
      hAgain = semiAgain,
      hUtil = util,
      hStart = (\<lambda>_ p w. onProc p (semiStart p w)),
      hTake = (\<lambda>_ p. onProc p (concTake E p)),
      hIdle = (\<lambda>p s. workEmpty (loadProc p s)),
      hScan = (\<lambda>_ p. onProc1 p (semiScan E p)),
      hGive = (\<lambda>p isLast. onProc p (pushShared False isLast)),
      hEnd = (\<lambda>p s. semiEnd (loadProc p s)),
      hStop = updSch StopAllThreads,
      hBefore = (\<lambda>f _ p. onProc1 p (semiBefore f E p)),
      hPieces = semiPieces E,
      hNextMajor = (\<lambda>_. False)\<rparr>"

subsection \<open>The handshake\<close>

interpretation semi_conc: concurrent_collector "semiConcOps E util"
proof
  fix f
  show "3 \<le> length (hPieces (semiConcOps E util) f)"
    by (cases f) (simp_all add: semiConcOps_def semiPieces_def)
qed


text \<open>C3: in the concurrent semispace collector, with any number of processors and any interleaving, a
  processor that is past the first barrier of a routine and before its last piece knows that every
  other one is in the same routine, at most one piece behind or ahead, and that no other one takes
  itself for the first; so ML code never runs while the roots are collected, the heaps are swapped or
  the offsets are exchanged, and the pieces of the first processor run once.\<close>

theorem semi_conc_exclusive:
  assumes "hreach (semiConcOps E util) n d s" "p < n" "hsPc s p = HIn f k i first" "0 < i" "Suc i < length (semiPieces E f)" "q < n"
  shows "\<exists>k' j l. (hsPc s q = HIn f k' j l \<or> hsPc s q = HWait f k' j l) \<and> i \<le> Suc j \<and> (first \<longrightarrow> l \<longrightarrow> q = p)"
  using assms semi_conc.exclusive [OF assms(1-4)] by (simp add: semiConcOps_def)

subsubsection \<open>Two processors turn the collector on\<close>

definition demo_parenv :: parenv where
  "demo_parenv = \<lparr>peCol = demo_collenv, peFetch = \<lparr>threadFetchSize = 1, globalLocFetchSize = 1, rootLocFetchSize = 1,
       grayRegionFetchSize = 1, objFetchSize = 1, segFetchSize = 1, backObjFetchSize = 1, backLocFetchSize = 1\<rparr>,
     peSharing = True, peTrack = True, peGrayAsReplica = False, peAgressive = False, peMinorAgressive = False, peRelaxed = False,
     peGenStack = False, peMinOff = 512, peMaxOff = 1024, peReserve = 0, peUninit = (0, 0)\<rparr>"

definition demo_cproc :: sproc where
  "demo_cproc = demo_proc\<lparr>prAllocStart := 8292, prAllocCursor := 8292, prAllocLimit := 8292, prWritelistEnd := 12\<rparr>"

definition demo_conc :: conc where
  \<comment> \<open>two processors, the first runs the thread 0, which has asked for 400 bytes; from-space has 300 left\<close>
  "demo_conc = \<lparr>col = demo_collector\<lparr>csch := (csch demo_collector)\<lparr>Procs := [demo_cproc\<lparr>userThread := Some 0\<rparr>, demo_cproc]\<rparr>\<rparr>,
     wstk = SharedStack_Alloc False 32 32 32 32 32 32 32, procGc = (\<lambda>_. demo_semi\<lparr>work := demo_work\<rparr>),
     ccfg = demo_config, totalRequest = 0, totalUnused = 0, totalReplicated = 0, expandedSize = 1024, reducedSize = 512,
     reducedNursery = 0, maximumNursery = 0, nextType = False\<rparr>"

named_theorems semi_run

lemmas [semi_run] = Let_def semiConcOps_def demo_conc_def loadProc_def saveProc_def lwork_def cproc_def noShared_def onProc_def
  onProc1_def demo_collector_def demo_cproc_def demo_proc_def demo_semi_def demo_gcst_def demo_work_def demo_cthread_def
  demo_parenv_def demo_collenv_def demo_config_def assertE_def cheap_def setHeap_def setWork_def updSch_def updPr_def

lemma resetShared_ok: "noShared s \<Longrightarrow> \<exists>s'. resetShared False s = Inr s'"
  by (simp add: resetShared_def resetSharedStack_def noShared_def areaOf_def assertE_def Let_def)


lemma setHeap_frame: "cheap b (setHeap a h c) = (if a = b then h else cheap b c)" "setHeap a (cheap a c) c = c"
  "csch (setHeap a h c) = csch c" "work (cgc (setHeap a h c)) = work (cgc c)" "fromSp (setHeap a h c) = fromSp c" "toSp (setHeap a h c) = toSp c"
  by (simp_all add: cheap_def setHeap_def)

lemma semiOnPrepare_ok:
  \<comment> \<open>no page was fresh, and both spaces can have the new size\<close>
  assumes "noShared s" "fromSp (col s) \<noteq> toSp (col s)" "\<not> peRelaxed E"
    and "Heap_ResetFreshPages (cheap (fromSp (col s)) (col s)) = Inr (k, cheap (fromSp (col s)) (col s))"
    and "Heap_Resize (cMprot (peCol E)) (cParanoid (peCol E)) (cheap (fromSp (col s)) (col s)) (nat (expandedSize s)) False = Inr f"
    and "Heap_Resize (cMprot (peCol E)) (cParanoid (peCol E)) (cheap (toSp (col s)) (col s)) (nat (expandedSize s)) True = Inr t"
  shows "\<exists>s'. semiOnPrepare E p True s = Inr s'"
proof -
  have "freshPages (fromSp (col s)) s = Inr s"
    using assms(4) by (simp add: freshPages_def setHeap_frame)
  moreover have "noShared ((resetWork (s\<lparr>col := setHeap (toSp (col s)) t (setHeap (fromSp (col s)) f (col s))\<rparr>))\<lparr>totalReplicated := 0\<rparr>)"
    using assms(1) by (simp add: noShared_def lwork_def resetWork_def updSch_def setHeap_frame)
  ultimately show ?thesis
    using assms resetShared_ok by (simp add: semiOnPrepare_def resizeC_def setHeap_frame)
qed
lemma demo_early: "hEarly (semiConcOps demo_parenv False) GCOff 0 demo_conc = Inr False"
  by (simp add: semi_run semiEarly_def)

lemma demo_help: "\<exists>d. hHelp (semiConcOps demo_parenv False) False AtOff 0 demo_conc = Inr (False, d)"
  by (simp add: semi_run GC_SemiConcHelp_def satisfiable_def GCSatisfiable_def areaC_def concRound_def GetHeapArea_def
      iRoundUp_def demo_heap_def demo_sizes_def)

lemma demo_before: "\<exists>d. hBefore (semiConcOps demo_parenv False) TurnOn False 0 demo_conc = Inr d"
  by (simp add: semi_run semiBefore_def markSeg_def markSegment_def copyRangeC_def SetCopyRange_def SetIsEmpty_def SetInit_def)

lemma demo_first: "\<exists>d. onProc1 0 (semiOnPrepare demo_parenv 0 True) demo_conc = Inr d"
proof -
  let ?s = "loadProc 0 demo_conc"
  have s: "noShared ?s" "fromSp (col ?s) = 0" "toSp (col ?s) = 1" "cheap 0 (col ?s) = demo_heap"
    "cheap 1 (col ?s) = demo_to" "expandedSize ?s = 1024" by (simp_all add: semi_run)
  have "\<exists>k. Heap_ResetFreshPages demo_heap = Inr (k, demo_heap)"
    by (simp add: Heap_ResetFreshPages_def demo_heap_def Heap_GetMaximumSize_def DivideUp_def TILT_PAGESIZE_def Let_def)
  moreover have "\<exists>f. Heap_Resize (\<lambda>_ _. True) False demo_heap 1024 False = Inr f"
    "\<exists>f. Heap_Resize (\<lambda>_ _. True) False demo_to 1024 True = Inr f"
    by (simp_all add: demo_heap_def demo_to_def Heap_Resize_def Heap_GetMaximumSize_def Heap_GetUsed_def RoundUp_def
        TILT_PAGESIZE_def my_mprotect_def assertE_def Let_def)
  moreover have "\<not> peRelaxed demo_parenv" "cMprot (peCol demo_parenv) = (\<lambda>_ _. True)" "cParanoid (peCol demo_parenv) = False"
    by (simp_all add: demo_parenv_def demo_collenv_def)
  ultimately have "\<exists>d. semiOnPrepare demo_parenv 0 True ?s = Inr d"
    using semiOnPrepare_ok [of ?s demo_parenv] s by auto
  then show ?thesis by (auto simp add: onProc1_def)
qed

lemma demo_second: "\<exists>d. hBefore (semiConcOps demo_parenv False) TurnOn False 1 demo_conc = Inr d \<and>
    (\<exists>d'. onProc1 1 (semiOnPrepare demo_parenv 1 False) d = Inr d')"
  by (simp add: semi_run semiBefore_def markSeg_def markSegment_def copyRangeC_def SetCopyRange_def SetIsEmpty_def SetInit_def
      semiOnPrepare_def resetShared_def resetSharedStack_def areaOf_def workOf_def SharedStack_Alloc_def init_localWork_def)

lemma demo_pieces: "hPieces (semiConcOps demo_parenv False) TurnOn =
    [(\<lambda>_ p first _. onProc1 p (semiOnPrepare demo_parenv p first)),
     (\<lambda>_ p first isLast. onProc1 p (semiOnRoots initialThread demo_parenv p first isLast)), (\<lambda>_ p _ _ s. Inr s)]"
  by (simp add: semiConcOps_def semiPieces_def)

lemma demo_waits: "hreach (semiConcOps demo_parenv False) 2 demo_conc
    (hst GCPendingOn (HWait TurnOn (Helping AfterOn) 0 True) (HCheck Return) 2 0 demo_conc)"
proof -
  have ag: "\<not> hAgressive (semiConcOps demo_parenv False) False" "hPoll (semiConcOps demo_parenv False) = Return"
    by (simp_all add: semiConcOps_def demo_parenv_def)
  obtain d1 d2 d3 where d: "hHelp (semiConcOps demo_parenv False) False AtOff 0 demo_conc = Inr (False, d1)"
    "hBefore (semiConcOps demo_parenv False) TurnOn False 0 demo_conc = Inr d2"
    "onProc1 0 (semiOnPrepare demo_parenv 0 True) demo_conc = Inr d3"
    using demo_help demo_before demo_first by blast
  show ?thesis
    using run_to_poll [OF run_to_wait [OF run_to_enter [OF demo_early d(1)] ag(1) d(2) demo_pieces d(3)] ag(2)] ag(1) by simp
qed

theorem semi_conc_exclusive_witness:
  "\<exists>s. hreach (semiConcOps demo_parenv False) 2 demo_conc s \<and> hsPc s 0 = HIn TurnOn (Helping AfterOn) 1 True \<and>
     (\<exists>k' j l. (hsPc s 1 = HIn TurnOn k' j l \<or> hsPc s 1 = HWait TurnOn k' j l) \<and> 1 \<le> Suc j \<and> \<not> l)"
proof -
  have ag: "\<not> hAgressive (semiConcOps demo_parenv False) False" by (simp add: semiConcOps_def demo_parenv_def)
  obtain d d' where d: "hBefore (semiConcOps demo_parenv False) TurnOn False 1 demo_conc = Inr d"
    "onProc1 1 (semiOnPrepare demo_parenv 1 False) d = Inr d'"
    using demo_second by blast
  note r = run_to_gather [OF demo_waits ag d(1) demo_pieces d(2)]
  show ?thesis
    using r semi_conc_exclusive [OF r, of 0 TurnOn "Helping AfterOn" 1 True 1] by (fastforce simp: semiPieces_def)
qed




subsection \<open>The roots are flipped once\<close>

definition flippedMem :: "heap \<Rightarrow> addr set \<Rightarrow> memory \<Rightarrow> memory" where
  \<comment> \<open>the locations in \<open>R\<close> that point into the heap \<open>h\<close> hold the word before the object instead\<close>
  "flippedMem h R m a = (if a \<in> R \<and> inHeap (unat (m a)) h then m (unat (m a) - 4) else m a)"

definition flippable :: "heap \<Rightarrow> heap \<Rightarrow> addr set \<Rightarrow> memory \<Rightarrow> bool" where
  \<comment> \<open>every primary a root points at has a replica, and no root is the word before such a primary\<close>
  "flippable from to R m \<longleftrightarrow> (\<forall>l \<in> R. let v = unat (m l) in inHeap v from \<longrightarrow>
     v - 4 \<notin> R \<and> inHeap (unat (m (v - 4))) to \<and> \<not> inHeap (unat (m (v - 4))) from)"

lemma flip_step:
  assumes ok: "flippable from to R m" and l: "l \<in> R" "D \<subseteq> R" and m: "mem s = flippedMem from D m"
    and other: "\<not> inHeap (unat (m l)) from \<Longrightarrow> IsGlobalData e (m l) \<or> IsTagData (m l) \<or> inHeap (unat (m l)) to"
  shows "\<exists>s'. flipRootLoc paranoid e from to l s = Inr s' \<and> mem s' = flippedMem from (insert l D) m \<and> work s' = work s"
proof (cases "inHeap (unat (m l)) from")
  case False
  then have "flippedMem from (insert l D) m = flippedMem from D m" "mem s l = m l"
    using m by (auto simp: flippedMem_def fun_eq_iff)
  then show ?thesis using False m other by (auto simp: flipRootLoc_def Let_def assertE_def)
next
  case True
  define v where "v = unat (m l)"
  have r: "v - 4 \<notin> R" "inHeap (unat (m (v - 4))) to" "\<not> inHeap (unat (m (v - 4))) from"
    using ok l(1) True by (auto simp: flippable_def Let_def v_def)
  show ?thesis
  proof (cases "l \<in> D")
    case dup: True
    then have "mem s l = m (v - 4)" using True m by (simp add: flippedMem_def v_def)
    then show ?thesis using r m dup by (auto simp: flipRootLoc_def Let_def assertE_def insert_absorb)
  next
    case False
    then have "mem s l = m l" "mem s (v - 4) = m (v - 4)" using m r(1) l by (auto simp: flippedMem_def)
    moreover have "(flippedMem from D m)(l := m (v - 4)) = flippedMem from (insert l D) m"
      using True by (auto simp: flippedMem_def fun_eq_iff v_def)
    ultimately show ?thesis using True r m by (simp add: flipRootLoc_def Let_def assertE_def storeAt_def v_def [symmetric])
  qed
qed

text \<open>C8: \<open>CollectorOff\<close> redirects every root to the replica exactly once, although the list of the roots may
  hold a location more than once: the loop over the roots changes nothing but the root locations that
  point into from-space, each of which then holds the forwarding pointer that was before its object,
  and none of the assertions of \<open>flipRootLoc\<close> fails.\<close>

theorem roots_flipped_once:
  assumes R: "R = set (set_items (roots (work s)))" "NULL \<notin> R" "set_ok (roots (work s))"
    and ok: "flippable from to R (mem s)"
    and other: "\<forall>l \<in> R. let v = mem s l in inHeap (unat v) from \<or> IsGlobalData e v \<or> IsTagData v \<or> inHeap (unat v) to"
    and fuel: "length (set_items (roots (work s))) < fuel"
  shows "\<exists>s'. drain fuel takeRoot (flipRootLoc paranoid e from to) s = Inr s' \<and> mem s' = flippedMem from R (mem s) \<and>
    set_items (roots (work s')) = []"
proof -
  have "\<exists>s' dn'. drain fuel takeRoot (flipRootLoc paranoid e from to) s = Inr s' \<and> set_ok (roots (work s')) \<and>
      set_items (roots (work s')) = [] \<and> mset dn' = mset (set_items (roots (work s))) \<and> mem s' = flippedMem from (set dn') (mem s)"
  proof (rule roots_list.drain_all [where dn = "[]"])
    fix dn x and s1 s2 :: gcst
    assume t: "takeRoot s1 = (x, s2)" "mem s1 = flippedMem from (set dn) (mem s)" "set_ok (roots (work s2))"
      "mset dn + add_mset x (mset (set_items (roots (work s2)))) = mset (set_items (roots (work s)))"
    have "mem s2 = mem s1" using t(1) by (auto simp: takeRoot_def split: prod.splits)
    moreover have "set dn \<subseteq> R" "x \<in> R" using mset_split [OF t(4)] R(1) by auto
    ultimately obtain s' where "flipRootLoc paranoid e from to x s2 = Inr s'" "work s' = work s2"
      "mem s' = flippedMem from (insert x (set dn)) (mem s)"
      using flip_step [OF ok, of x "set dn" s2 e paranoid] other t(2) by (auto simp: Let_def)
    then show "\<exists>s'. flipRootLoc paranoid e from to x s2 = Inr s' \<and> set_ok (roots (work s')) \<and>
        set_items (roots (work s')) = set_items (roots (work s2)) \<and> mem s' = flippedMem from (set (dn @ [x])) (mem s)"
      using t(3) by auto
  qed (use R fuel in \<open>auto simp: flippedMem_def fun_eq_iff\<close>)
  then show ?thesis using R(1) by (metis set_mset_mset)
qed

definition demo_flipmem :: memory where
  \<comment> \<open>the primary 8200 has the replica 32772; 100 points at it, 104 at global data\<close>
  "demo_flipmem = (\<lambda>_. 0)(100 := 8200, 104 := 25000, 8196 := 32772)"

theorem roots_flipped_once_witness:
  "\<exists>s'. drain 4 takeRoot (flipRootLoc True demo_senv demo_heap demo_to)
       (demo_semi\<lparr>mem := demo_flipmem, work := demo_work\<lparr>roots := (SetInit 32)\<lparr>sdata := 100 # 104 # 100 # replicate 29 0, slast := 3\<rparr>\<rparr>\<rparr>) = Inr s' \<and>
     mem s' 100 = 32772 \<and> mem s' 104 = 25000 \<and> mem s' 8196 = 32772"
proof -
  let ?s = "demo_semi\<lparr>mem := demo_flipmem, work := demo_work\<lparr>roots := (SetInit 32)\<lparr>sdata := 100 # 104 # 100 # replicate 29 0, slast := 3\<rparr>\<rparr>\<rparr>"
  have i: "set_items (roots (work ?s)) = [100, 104, 100]" "set_ok (roots (work ?s))"
    by (simp_all add: set_items_def SetInit_def set_ok_def)
  have h: "inHeap 8200 demo_heap" "inHeap 32772 demo_to" "\<not> inHeap 32772 demo_heap" "\<not> inHeap 25000 demo_heap" "\<not> inHeap 25000 demo_to"
    by (simp_all add: inHeap_def demo_heap_def demo_to_def)
  have f: "flippable demo_heap demo_to {100, 104} demo_flipmem"
    using h by (simp add: flippable_def demo_flipmem_def Let_def)
  have o: "\<forall>l \<in> {100, 104}. let v = demo_flipmem l in inHeap (unat v) demo_heap \<or> IsGlobalData demo_senv v \<or>
      IsTagData v \<or> inHeap (unat v) demo_to"
    using h by (simp add: demo_flipmem_def Let_def IsGlobalData_def demo_senv_def)
  have [simp]: "{100, 104, 100 :: addr} = {100, 104}" by auto
  obtain s' where s': "drain 4 takeRoot (flipRootLoc True demo_senv demo_heap demo_to) ?s = Inr s'"
    "mem s' = flippedMem demo_heap {100, 104} demo_flipmem"
    using roots_flipped_once [of "{100, 104}" ?s demo_heap demo_to demo_senv 4 True] i f o by (auto simp: NULL_def)
  then show ?thesis using h by (simp add: flippedMem_def demo_flipmem_def)
qed

end
