(* ===== verification/GenConc.thy ===== *)
theory GenConc
  imports SemiConc
begin

text \<open>
  The concurrent generational collector, \<open>Runtime/sparc/gc_gen_conc.c\<close>.  A minor collection replicates
  the live objects of the nursery into from-space, a major one those of from-space into to-space (the
  nursery is empty then).  Pointer arrays are mirrored: each element has two words, and the flip
  exchanges which of them the program uses.  Pointers from the old space into the nursery are
  recorded by the write list as back locations, one set for this and one for the next collection.

  The definitions follow the same plan as theory \<open>SemiConc\<close>; \<open>genConcOps\<close> puts them together.  The
  survival statistics are left out.
\<close>

subsection \<open>Flipping a root\<close>

definition genFlipRootLoc :: "bool \<Rightarrow> heap \<Rightarrow> heap \<Rightarrow> addr \<Rightarrow> gcst \<Rightarrow> gcst result" where
  \<comment> \<open>\<open>flipRootLoc(curGCType, root)\<close>; its assertion is only checked in a debugging build\<close>
  "genFlipRootLoc major nursery from loc s =
     (let primary = ptrAt loc s in
      if inHeap primary (if major then from else nursery) then Inr (storeAt loc (mem s (primary - 4)) s) else Inr s)"

definition establishCopyRange :: "parenv \<Rightarrow> nat \<Rightarrow> conc \<Rightarrow> conc result" where
  "establishCopyRange E p s =
     (let c = col s; old = (if majorGC c then nurserySp c else fromSp c); new = (if majorGC c then toSp c else fromSp c) in
      bindE (if crHeap (copyRg (cgc c)) = Some old then onView E p ClearCopyRange s else Inr s) (\<lambda>s.
      Inr (copyRangeC new s)))"

definition genAgressive :: "parenv \<Rightarrow> bool \<Rightarrow> bool" where
  "genAgressive E major = (if major then peAgressive E else peMinorAgressive E)"

subsection \<open>Turning the collector on\<close>

definition workKind :: "conc \<Rightarrow> 32 word" where
  "workKind s = (if majorGC (col s) then MajorWork else MinorWork)"

definition genBefore :: "flip \<Rightarrow> parenv \<Rightarrow> nat \<Rightarrow> conc \<Rightarrow> conc result" where
  "genBefore f E p s = (case f of
       TurnOn \<Rightarrow> Inr (markSeg (FlipOn OR workKind s) s)
     | Transit \<Rightarrow> Inr (markSeg (FlipTransition OR workKind s) s)
     | TurnOff \<Rightarrow>
         bindE (assertE (SetIsEmpty (objs (lwork s))) ''SetIsEmpty(objs)'') (\<lambda>_.
         onView E p PadCopyRange (markSeg FlipOff s)))"

definition genOnPrepare :: "parenv \<Rightarrow> bool \<Rightarrow> conc \<Rightarrow> conc result" where
  "genOnPrepare E first s =
     (let major = majorGC (col s); from = fromSp (col s); nur = nurserySp (col s);
          small = (\<lambda>s. Heap_GetAvail (cheap from (col s)) < Heap_GetSize (cheap nur (col s))) in
      if \<not> first then Inr s
      else bindE (freshPages nur s) (\<lambda>s.
           bindE (if major then freshPages from s else Inr s) (\<lambda>s.
           bindE (if \<not> major \<and> small s then
                    bindE (resizeC E from (Heap_GetSize (cheap from (col s)) + reducedNursery s) False s) (\<lambda>s.
                    bindE (assertE (\<not> small s) ''Heap_GetAvail(fromSpace) >= Heap_GetSize(nursery)'') (\<lambda>_. Inr s))
                  else Inr s) (\<lambda>s.
           Inr ((resetWork s)\<lparr>totalReplicated := 0\<rparr>)))))"

definition genOnThreads :: "(parenv \<Rightarrow> nat \<Rightarrow> nat \<Rightarrow> conc \<Rightarrow> conc result) \<Rightarrow> parenv \<Rightarrow> nat \<Rightarrow> conc \<Rightarrow> conc result" where
  "genOnThreads thread E p s =
     (let s = addUnused p s in
      bindE (assertE (SetIsEmpty (roots (lwork s))) ''SetIsEmpty(roots)'') (\<lambda>_.
      jobLoop (cFuel (peCol E)) (thread E p) s))"

definition genOnGlobals :: "parenv \<Rightarrow> nat \<Rightarrow> bool \<Rightarrow> conc \<Rightarrow> conc result" where
  \<comment> \<open>the globals and the sizes of the heaps\<close>
  "genOnGlobals E p first s =
     bindE (if \<not> first then Inr s
            else bindE (majorGlobalScan s) (\<lambda>s.
                 if majorGC (col s) then
                   bindE (resizeC E (fromSp (col s)) (nat (expandedSize s)) False s) (\<lambda>s.
                   bindE (resizeC E (toSp (col s)) (nat (expandedSize s)) True s) (onView E p gc_large_startCollect))
                 else resizeC E (nurserySp (col s)) (maximumNursery s) False s)) (resetShared True)"

definition genShare :: "parenv \<Rightarrow> nat \<Rightarrow> bool \<Rightarrow> bool \<Rightarrow> conc \<Rightarrow> conc result" where
  \<comment> \<open>\<open>on\<close>: \<open>CollectorOn\<close>, which sets the copy range first\<close>
  "genShare E p on isLast s =
     bindE (assertE (SetIsEmpty (objs (lwork s))) ''SetIsEmpty(objs)'') (\<lambda>_.
     bindE (if on then establishCopyRange E p s else Inr s) (\<lambda>s.
     bindE (pushShared False isLast s) (\<lambda>(_, s). Inr s)))"

definition genTransitGlobals :: "bool \<Rightarrow> conc \<Rightarrow> conc result" where
  "genTransitGlobals first s = (if first then majorGlobalScan s else Inr s)"

subsection \<open>Turning it off\<close>

definition genOffThread :: "parenv \<Rightarrow> nat \<Rightarrow> bool \<Rightarrow> nat \<Rightarrow> conc \<Rightarrow> conc result" where
  \<comment> \<open>\<open>nextGCType\<close> is a local variable that only the first processor uses later\<close>
  "genOffThread E p first t s =
     bindE (scanThread complete_root_scan E p t s) (\<lambda>s.
     Inr (if first \<and> request (Threads (csch (col s)) ! t) = MajorGCRequestFromC then s\<lparr>nextType := True\<rparr> else s))"

definition genFlip :: "conc \<Rightarrow> addr \<Rightarrow> gcst \<Rightarrow> gcst result" where
  "genFlip s = genFlipRootLoc (majorGC (col s)) (cheap (nurserySp (col s)) (col s)) (cheap (fromSp (col s)) (col s))"

definition genOffRoots :: "parenv \<Rightarrow> nat \<Rightarrow> bool \<Rightarrow> conc \<Rightarrow> conc result" where
  "genOffRoots E p first s =
     bindE (assertE (workEmpty s) ''isLocalWorkEmpty'') (\<lambda>_.
     bindE (if first then minorGlobalScan (s\<lparr>nextType := False\<rparr>) else Inr s) (\<lambda>s.
     bindE (jobLoop (cFuel (peCol E)) (genOffThread E p first) s) (\<lambda>s.
     bindE (onView E p (drain (cFuel (peCol E)) takeRoot (genFlip s)) s) (\<lambda>s.
     bindE (onView E p (drain (cFuel (peCol E)) takeGlobal (onReplicaGlobal (ccfg s) (genFlip s))) s) (\<lambda>s.
     Inr (addReplicated p s))))))"

definition genOffHeaps :: "parenv \<Rightarrow> nat \<Rightarrow> conc \<Rightarrow> conc result" where
  \<comment> \<open>after a minor collection the globals are promoted, after a major one the spaces are swapped\<close>
  "genOffHeaps E p s =
     (if \<not> majorGC (col s)
      then bindE (minor_global_promote (cgl (col s))) (\<lambda>g. Inr (s\<lparr>col := (col s)\<lparr>cgl := g\<rparr>\<rparr>))
      else let s = s\<lparr>wstk := discardNextSharedStack (wstk s)\<rparr> in
        bindE (onView E p gc_large_endCollect s) (\<lambda>s.
        bindE (adjust2 E (totalReplicated s) (phasesOf E) s) (\<lambda>to.
        let red = int (Heap_GetSize to) in
        bindE (reducedToExpanded (cRnd (peCol E)) (cSizes (peCol E)) red (cRate (peCol E)) (phasesOf E)) (\<lambda>ex.
        bindE (flipHeaps E to (s\<lparr>reducedSize := red, expandedSize := ex\<rparr>)) (\<lambda>s. Inr (countMajor s))))))"

definition genChooseNext :: "parenv \<Rightarrow> conc \<Rightarrow> conc" where
  \<comment> \<open>the next collection is major when the old space is nearly full; allocation goes there then\<close>
  "genChooseNext E s =
     (let from = fromSp (col s); h = cheap from (col s) in
      if Heap_GetAvail h < peReserve E + Heap_GetSize (cheap (nurserySp (col s)) (col s)) then
        s\<lparr>nextType := True, col := setHeap from (h\<lparr>htop := hcursor h + nat (peMinOff E) * length (Procs (csch (col s)))\<rparr>) (col s)\<rparr>
      else s)"

definition genOffFlip :: "parenv \<Rightarrow> nat \<Rightarrow> bool \<Rightarrow> conc \<Rightarrow> conc result" where
  "genOffFlip E p first s =
     bindE (if first then
         bindE (genOffHeaps E p s) (\<lambda>s.
         let s = swapStackletOffsets (swapArrayOffsets (swapGlobalOffsets s)) in
         bindE (resizeC E (nurserySp (col s)) (reducedNursery s) True s) (\<lambda>s.
         Inr (genChooseNext E (countGC s))))
       else Inr s) (\<lambda>s.
     Inr (updSch (updPr p (\<lambda>pr. pr\<lparr>prWritelistCursor := prWritelistStart pr\<rparr>)) (resetNull p s)))"

subsection \<open>Doing a share of the work\<close>

definition genStart :: "nat \<Rightarrow> int \<Rightarrow> conc \<Rightarrow> (bool \<times> conc) result" where
  "genStart p w s = Inr (if w \<le> 0 then (False, s) else (True, markSeg (workKind s) (addMax p w s)))"

definition countFields :: "int \<Rightarrow> gcst \<Rightarrow> gcst" where
  "countFields n = updUsage (\<lambda>u. u\<lparr>fieldsScanned := fieldsScanned u + n\<rparr>)"

definition mirrorLoc :: "config \<Rightarrow> addr \<Rightarrow> addr" where
  "mirrorLoc cfg l = (if primaryArrayOffset cfg = 0 then l + 4 else l - 4)"

definition genBackLoc :: "config \<Rightarrow> range_t \<Rightarrow> addr \<Rightarrow> gcst \<Rightarrow> gcst result" where
  \<comment> \<open>copy the field to its mirror and replicate what that points at\<close>
  "genBackLoc cfg from l s =
     bindE (locAlloc1_copyCopySync_primarySet cfg (mirrorLoc cfg l) from (storeAt (mirrorLoc cfg l) (mem s l) s)) (\<lambda>s.
     Inr (countFields 2 s))"

definition genSegment :: "config \<Rightarrow> range_t \<Rightarrow> addr \<times> addr \<times> addr \<Rightarrow> gcst \<Rightarrow> gcst result" where
  "genSegment cfg from seg s = (case seg of (gray, st, en) \<Rightarrow>
     if GET_TYPE (mem s (gray - 4)) = MIRROR_PTR_ARRAY_TYPE
     then selfTransferScanSegment_copyWriteSync_locAlloc1_copyCopySync_primarySet cfg gray st en from s
     else transferScanSegment_copyWriteSync_locAlloc1_copyCopySync_primarySet cfg gray st en from s)"

definition genMinorShare :: "nat \<Rightarrow> config \<Rightarrow> range_t \<Rightarrow> gcst \<Rightarrow> gcst result" where
  \<comment> \<open>roots, back objects, back locations, globals, segments, gray objects\<close>
  "genMinorShare fuel cfg from s =
     (let loc = (\<lambda>l. locAlloc1_copyCopySync_primarySet cfg l from) in
      bindE (limited fuel reachCheckWork cfg (\<lambda>s. orNull (takeRoot s)) (\<lambda>l s. bindE (loc l s) (\<lambda>s. Inr (countFields 1 s))) s) (\<lambda>s.
      bindE (limited fuel updateReachCheckWork cfg (\<lambda>s. orNull (takeBackObj s))
               (\<lambda>b. selfTransferScanObj_locAlloc1_copyCopySync_primarySet cfg b from) s) (\<lambda>s.
      bindE (limited fuel reachCheckWork cfg (\<lambda>s. orNull (takeBackLoc s)) (genBackLoc cfg from) s) (\<lambda>s.
      bindE (limited fuel reachCheckWork cfg (\<lambda>s. orNull (takeGlobal s)) (\<lambda>g s. bindE (onReplicaGlobal cfg loc g s) (\<lambda>s. Inr (countGlobal s))) s) (\<lambda>s.
      bindE (limited fuel updateReachCheckWork cfg takeSegment (genSegment cfg from) s)
        (limited fuel reachCheckWork cfg (\<lambda>s. orNull (takeObj s))
           (\<lambda>g. transferScanObj_copyWriteSync_locAlloc1_copyCopySync_primarySet cfg g from)))))))"

definition genMajorShare :: "nat \<Rightarrow> config \<Rightarrow> range_t \<Rightarrow> range_t \<Rightarrow> gcst \<Rightarrow> gcst result" where
  "genMajorShare fuel cfg from large s =
     (let loc = (\<lambda>l. locAlloc1L_copyCopySync_primarySet cfg l from large) in
      bindE (limited fuel reachCheckWork cfg (\<lambda>s. orNull (takeRoot s)) (\<lambda>l s. bindE (loc l s) (\<lambda>s. Inr (countFields 1 s))) s) (\<lambda>s.
      let s = s\<lparr>work := (work s)\<lparr>backObjs := SetReset (backObjs (work s)), backLocs := SetReset (backLocs (work s))\<rparr>\<rparr> in
      bindE (limited fuel reachCheckWork cfg (\<lambda>s. orNull (takeGlobal s)) (\<lambda>g s. bindE (onReplicaGlobal cfg loc g s) (\<lambda>s. Inr (countGlobal s))) s) (\<lambda>s.
      bindE (limited fuel updateReachCheckWork cfg takeSegment
               (\<lambda>(g, st, en). transferScanSegment_copyWriteSync_locAlloc1L_copyCopySync_primarySet cfg g st en from large) s)
        (limited fuel reachCheckWork cfg (\<lambda>s. orNull (takeObj s))
           (\<lambda>g. transferScanObj_copyWriteSync_locAlloc1L_copyCopySync_primarySet cfg g from large)))))"

definition genScan :: "parenv \<Rightarrow> nat \<Rightarrow> conc \<Rightarrow> conc result" where
  "genScan E p s =
     (let fuel = cFuel (peCol E); cfg = ccfg s in
      bindE (stackletLoop fuel reachCheckWork E p s) (\<lambda>s.
      onView E p (if majorGC (col s) then genMajorShare fuel cfg (fromRange s) (largeRange s)
                  else genMinorShare fuel cfg (nurseryRange s)) s))"

definition genEnd :: "conc \<Rightarrow> unit result" where
  "genEnd s = assertE (workEmpty s) ''isLocalWorkEmpty''"

subsection \<open>Releasing a thread\<close>

definition pushBackLocs :: "addr \<Rightarrow> addr \<Rightarrow> gcst \<Rightarrow> gcst result" where
  \<comment> \<open>a location of the old space that may point into the nursery, and its mirror for the next collection\<close>
  "pushBackLocs l l' s =
     bindE (SetPush (backLocs (work s)) l) (\<lambda>q.
     bindE (SetPush (nextBackLocs (work s)) l') (\<lambda>q'.
     Inr (s\<lparr>work := (work s)\<lparr>backLocs := q, nextBackLocs := q'\<rparr>\<rparr>)))"

record genHeaps =
  ghNursery :: heap
  ghFrom :: heap
  ghLarge :: heap
  ghMajor :: bool

definition genSource :: "genHeaps \<Rightarrow> range_t" where
  \<comment> \<open>\<open>srcRange\<close>\<close>
  "genSource h = hrange (if ghMajor h then ghFrom h else ghNursery h)"

definition copyWord :: "addr \<Rightarrow> addr \<Rightarrow> gcst \<Rightarrow> gcst" where
  "copyWord to from s = storeAt to (mem s from) s"

definition genWriteData ::
    "(addr \<Rightarrow> addr \<Rightarrow> gcst \<Rightarrow> gcst) \<Rightarrow> nat \<Rightarrow> addr option \<Rightarrow> addr \<Rightarrow> addr option \<Rightarrow> gcst \<Rightarrow> gcst" where
  \<comment> \<open>the cases of arrays without pointers: from the nursery to its replica, from the old space to to-space\<close>
  "genWriteData cp d nur fse to s =
     (case nur of
        Some n \<Rightarrow> if mem s fse = word_of_nat n then s
                  else let s = cp (fse + d) (n + d) s in case to of None \<Rightarrow> s | Some t \<Rightarrow> cp (t + d) (fse + d) s
      | None \<Rightarrow> case to of None \<Rightarrow> s | Some t \<Rightarrow> cp (t + d) (fse + d) s)"

definition genWritePtr :: "config \<Rightarrow> genHeaps \<Rightarrow> addr \<Rightarrow> nat \<Rightarrow> addr \<Rightarrow> addr \<Rightarrow> addr option \<Rightarrow> gcst \<Rightarrow> gcst result" where
  \<comment> \<open>the case of a mirrored pointer array: gray the overwritten value, then update the replica\<close>
  "genWritePtr cfg h primary disp prev fse to s =
     (let w = 4 * (disp div 4); field = ptrAt (primary + w) s; src = genSource h in
      bindE (alloc1_copyCopySync_primarySet cfg prev src s) (\<lambda>s.
      if \<not> ghMajor h then
        bindE (if inHeap field (ghNursery h)
               then bindE (alloc1_copyCopySync_primarySet cfg field src s) (\<lambda>s. Inr (mem s (field - 4), s))
               else Inr (word_of_nat field, s)) (\<lambda>(new, s).
        if mem s fse = word_of_nat primary then Inr s
        else let s = storeAt (mirrorLoc cfg (fse + w)) new s in
             if inHeap primary (ghNursery h) then Inr (storeAt (fse + w) new s)
             else pushBackLocs (primary + w) (mirrorLoc cfg (primary + w)) s)
      else
        bindE (if inHeap field (ghFrom h)
               then bindE (alloc1L_copyCopySync_primarySet cfg field src (hrange (ghLarge h)) s) (\<lambda>s. Inr (mem s (field - 4), s))
               else Inr (word_of_nat field, s)) (\<lambda>(new, s).
        case to of None \<Rightarrow> Inl (Overrun ''toSpaceReplica'') | Some t \<Rightarrow>
        if mem s t = word_of_nat primary then Inr s
        else Inr (storeAt (mirrorLoc cfg (t + w)) new (storeAt (t + w) new s)))))"

definition genReady :: "config \<Rightarrow> memory \<Rightarrow> val \<Rightarrow> addr \<Rightarrow> nat \<Rightarrow> bool" where
  \<comment> \<open>\<open>replica[syncIndex] != SEGSTALL_TAG\<close>\<close>
  "genReady cfg m tag replica disp =
     (if unat (GET_ANY_ARRAY_LEN tag) \<le> arraySegmentSize cfg then m (replica - 4) \<noteq> SEGSTALL_TAG
      else m (replica - 4 * (2 + DivideDown disp (arraySegmentSize cfg))) \<noteq> SEGSTALL_TAG)"

definition genWriteOn :: "config \<Rightarrow> genHeaps \<Rightarrow> addr \<Rightarrow> nat \<Rightarrow> addr \<Rightarrow> addr option \<Rightarrow> addr \<Rightarrow> addr option \<Rightarrow> gcst \<Rightarrow> gcst result" where
  \<comment> \<open>the array has a replica \<open>to\<close>, or is \<open>fse\<close> itself\<close>
  "genWriteOn cfg h primary disp prev nur fse to s =
     (let tag = mem s ((case to of Some t \<Rightarrow> t | None \<Rightarrow> fse) - 4); ty = GET_TYPE tag;
          sync = (if nur \<noteq> None then Some fse else to) in
      if sync \<noteq> None \<and> \<not> genReady cfg (mem s) tag (the sync) disp then Inl (Spin ''SEGSTALL_TAG'')
      else if ty = WORD_ARRAY_TYPE then Inr (genWriteData copyWord (4 * (disp div 4)) nur fse to s)
      else if ty = QUAD_ARRAY_TYPE then
        Inr (genWriteData (\<lambda>a b s. copyWord (a + 4) (b + 4) (copyWord a b s)) (8 * (disp div 8)) nur fse to s)
      else if ty = PTR_ARRAY_TYPE then Inl (Die ''pointer array'')
      else if ty = MIRROR_PTR_ARRAY_TYPE then genWritePtr cfg h primary disp prev fse to s
      else Inl (Die ''bad tag type''))"

definition genWriteOff :: "config \<Rightarrow> genHeaps \<Rightarrow> addr \<Rightarrow> nat \<Rightarrow> gcst \<Rightarrow> gcst result" where
  \<comment> \<open>no collection is on: record back pointers\<close>
  "genWriteOff cfg h primary disp s =
     (let w = 4 * (disp div 4) in
      if \<not> ghMajor h \<and> inHeap primary (ghFrom h) \<and> GET_TYPE (mem s (primary - 4)) = MIRROR_PTR_ARRAY_TYPE
      then pushBackLocs (primary + w) (mirrorLoc cfg (primary + w)) s else Inr s)"

definition genWriteArray :: "config \<Rightarrow> genHeaps \<Rightarrow> bool \<Rightarrow> addr \<Rightarrow> nat \<Rightarrow> addr \<Rightarrow> gcst \<Rightarrow> gcst result" where
  "genWriteArray cfg h on primary disp prev s =
     (if inHeap primary (ghLarge h) then Inr s
      else if \<not> on then genWriteOff cfg h primary disp s
      else if inHeap primary (ghNursery h) then
        let tag = mem s (primary - 4); ty = GET_TYPE tag in
        if ty = PTR_ARRAY_TYPE \<or> ty = MIRROR_PTR_ARRAY_TYPE then alloc1_copyCopySync_primarySet cfg prev (genSource h) s
        else if ty = WORD_ARRAY_TYPE \<or> ty = QUAD_ARRAY_TYPE then Inr s
        else if tag = STALL_TAG then Inl (Spin ''STALL_TAG'')
        else genWriteOn cfg h primary disp prev (Some primary) (unat tag) None s
      else if inHeap primary (ghFrom h) then
        if ghMajor h then
          bindE (alloc1_copyCopySync_primarySet cfg primary (genSource h) s) (\<lambda>s.
          genWriteOn cfg h primary disp prev None primary (Some (ptrAt (primary - 4) s)) s)
        else genWriteOn cfg h primary disp prev None primary None s
      else Inl (Die ''mutatorPrimary in neither fromSpace nor nursery''))"

definition genWriteEntry :: "senv \<Rightarrow> config \<Rightarrow> genHeaps \<Rightarrow> bool \<Rightarrow> addr \<Rightarrow> gcst \<times> globst \<Rightarrow> (gcst \<times> globst) result" where
  "genWriteEntry e cfg h on cur sg = (case sg of (s, g) \<Rightarrow>
     let v = mem s cur; disp = unat (mem s (cur + 4)); prev = unat (mem s (cur + 8)) in
     if IsGlobalData e v
     then bindE (add_global_root cfg e (unat v) (mem s) g) (\<lambda>(m, g). Inr (s\<lparr>mem := m\<rparr>, g))
     else bindE (genWriteArray cfg h on (unat v) disp prev s) (\<lambda>s. Inr (s, g)))"

definition genHeapsOf :: "conc \<Rightarrow> genHeaps" where
  "genHeapsOf s = (let c = col s in \<lparr>ghNursery = cheap (nurserySp c) c, ghFrom = cheap (fromSp c) c,
     ghLarge = cheap (largeSpace (ccfg s)) c, ghMajor = majorGC c\<rparr>)"

definition GCRelease_GenConc :: "parenv \<Rightarrow> gcStatus \<Rightarrow> nat \<Rightarrow> bool \<Rightarrow> conc \<Rightarrow> conc result" where
  "GCRelease_GenConc E st p isLast s =
     (let pr = cproc p s; ag = genAgressive E (majorGC (col s)); cfg = ccfg s; h = genHeapsOf s;
          start = prAllocStart pr; stop = prAllocCursor pr; wl = prWritelistStart pr; wend = prWritelistCursor pr;
          s = releaseCursors p s in
      bindE (if shouldDoubleAllocate ag st
             then onView E p (\<lambda>g. replicateLoop ((stop - start) div 4 + 1) cfg (alloc_copyCopySync_primarySet cfg) start stop
                    (addReplicatedBytes start stop g)) s
             else Inr s) (\<lambda>s.
      bindE (onEntries E p (entryLoop ((wend - wl) div 12 + 1) (genWriteEntry (cEnv (peCol E)) cfg h (gcIsOn ag st)) wl wend) s) (\<lambda>s.
      if gcIsOn ag st then bindE (pushShared True isLast s) (\<lambda>(_, s). Inr s) else Inr s)))"

subsection \<open>Satisfying a request\<close>

definition GC_GenConcHelp :: "parenv \<Rightarrow> bool \<Rightarrow> nat \<Rightarrow> conc \<Rightarrow> (bool \<times> conc) result" where
  "GC_GenConcHelp E on p s =
     (case userThread (cproc p s) of None \<Rightarrow> Inr (True, s) | Some t \<Rightarrow>
      let s = areaC p (if majorGC (col s) then fromSp (col s) else nurserySp (col s))
                (concRound E on (requestInfo (Threads (csch (col s)) ! t))) s in
      Inr (prAllocStart (cproc p s) \<noteq> NULL, s))"

definition genEarly :: "gcStatus \<Rightarrow> nat \<Rightarrow> conc \<Rightarrow> bool result" where
  \<comment> \<open>a thread whose write list was full goes on at once unless the collection is about to end\<close>
  "genEarly st p s = (let pr = cproc p s in
     bindE (assertE (prWritelistCursor pr + 8 \<le> prWritelistEnd pr) ''writelistCursor + 2 <= writelistEnd'') (\<lambda>_.
     case userThread pr of None \<Rightarrow> Inr False | Some t \<Rightarrow>
     let info = requestInfo (Threads (csch (col s)) ! t) in
     bindE (assertE (info \<noteq> 0) ''requestInfo != 0'') (\<lambda>_.
     if info < 0 \<and> st \<noteq> GCPendingOff
     then bindE (assertE (- info \<le> int (prWritelistEnd pr) - int (prWritelistCursor pr)) ''requestInfo <= writelistBytesAvailable'') (\<lambda>_. Inr True)
     else Inr False)))"

definition genSkip :: "bool \<Rightarrow> after \<Rightarrow> gcStatus \<Rightarrow> nat \<Rightarrow> conc \<Rightarrow> bool" where
  \<comment> \<open>\<open>if (multiPhase ...) goto retry\<close> before the help\<close>
  "genSkip multiPhase w st p s =
     (multiPhase \<and> (w = AfterOn \<or> w = AfterWork \<and> fst (reachMaxWork (ccfg s) (prUsage (cproc p s))) \<and> st = GCPendingOff))"

definition genPieces :: "parenv \<Rightarrow> flip \<Rightarrow> (bool \<Rightarrow> nat \<Rightarrow> bool \<Rightarrow> bool \<Rightarrow> conc \<Rightarrow> conc result) list" where
  "genPieces E f = (case f of
       TurnOn \<Rightarrow>
        [(\<lambda>m p first _ s. onProc1 p (genOnPrepare E first) (setMajor m s)),
         (\<lambda>m p _ _ s. onProc1 p (genOnThreads initialThread E p) (setMajor m s)),
         (\<lambda>m p first _ s. onProc1 p (genOnGlobals E p first) (setMajor m s)),
         (\<lambda>m p _ isLast s. onProc1 p (genShare E p True isLast) (setMajor m s)),
         (\<lambda>_ p _ _ s. Inr s)]
     | Transit \<Rightarrow>
        [(\<lambda>m p first _ s. onProc1 p (semiTransitPrepare first) (setMajor m s)),
         (\<lambda>m p _ _ s. onProc1 p (genOnThreads transitThread E p) (setMajor m s)),
         (\<lambda>m p first _ s. onProc1 p (genTransitGlobals first) (setMajor m s)),
         (\<lambda>m p _ isLast s. onProc1 p (genShare E p False isLast) (setMajor m s)),
         (\<lambda>_ p _ _ s. Inr s)]
     | TurnOff \<Rightarrow>
        [(\<lambda>m p first _ s. onProc1 p (semiOffPrepare first) (setMajor m s)),
         (\<lambda>m p first _ s. onProc1 p (genOffRoots E p first) (setMajor m s)),
         (\<lambda>m p first _ s. onProc1 p (genOffFlip E p first) (setMajor m s)),
         (\<lambda>m p _ _ s. onProc1 p (establishCopyRange E p) (setMajor m s))])"

definition genConcOps :: "parenv \<Rightarrow> bool \<Rightarrow> conc cops" where
  \<comment> \<open>the major flag of the handshake is put into the data before each piece\<close>
  "genConcOps E multiPhase =
     \<lparr>hAgressive = genAgressive E,
      hOffSignals = False,
      hPoll = Recheck,
      hRelease = (\<lambda>st m p isLast s. onProc1 p (GCRelease_GenConc E st p isLast) (setMajor m s)),
      hEarly = (\<lambda>st p s. genEarly st p (loadProc p s)),
      hHelp = (\<lambda>m w p s. onProc p (GC_GenConcHelp E (w = AfterAgressive \<or> w = AfterWork) p) (setMajor m s)),
      hSkip = (\<lambda>w st p s. genSkip multiPhase w st p (loadProc p s)),
      hAgain = semiAgain,
      hUtil = False,
      hStart = (\<lambda>m p w s. onProc p (genStart p w) (setMajor m s)),
      hTake = (\<lambda>m p s. onProc p (concTake E p) (setMajor m s)),
      hIdle = (\<lambda>p s. workEmpty (loadProc p s)),
      hScan = (\<lambda>m p s. onProc1 p (genScan E p) (setMajor m s)),
      hGive = (\<lambda>p isLast. onProc p (pushShared False isLast)),
      hEnd = (\<lambda>p s. genEnd (loadProc p s)),
      hStop = updSch StopAllThreads,
      hBefore = (\<lambda>f m p s. onProc1 p (genBefore f E p) (setMajor m s)),
      hPieces = genPieces E,
      hNextMajor = nextType\<rparr>"

subsection \<open>The handshake\<close>

interpretation gen_conc: concurrent_collector "genConcOps E multiPhase"
proof
  fix f
  show "3 \<le> length (hPieces (genConcOps E multiPhase) f)"
    by (cases f) (simp_all add: genConcOps_def genPieces_def)
qed


text \<open>C6: in the concurrent generational collector \<open>GCStatus\<close> only moves along its cycle: off, pending
  aggressive and aggressive (for the kinds of collection that have this phase), pending on, on, pending
  off, and off again, whichever processor takes the next step; and no processor reaches the \<open>DIE\<close> of a
  switch on the status, nor fails the assertion on it in \<open>CollectorOff\<close>.\<close>

theorem gen_conc_status_cycle:
  assumes "hreach (genConcOps E multiPhase) n d s" "hstep (genConcOps E multiPhase) n s s'"
  shows "(hsStatus s' = hsStatus s \<or> statusNext (genAgressive E (hsMajor s)) (hsStatus s) (hsStatus s')) \<and>
    (\<forall>p<n. hsPc s' p \<noteq> HBad)"
  using gen_conc.status_step [OF assms] gen_conc.never_bad [OF hreach.step [OF assms]]
  by (simp add: genConcOps_def agr_def)

theorem gen_conc_status_cycle_witness:
  "\<exists>s s'. hreach (genConcOps (demo_parenv\<lparr>peMinorAgressive := True\<rparr>) True) 2 demo_conc s \<and>
     hstep (genConcOps (demo_parenv\<lparr>peMinorAgressive := True\<rparr>) True) 2 s s' \<and>
     hsStatus s = GCOff \<and> hsStatus s' = GCPendingAgressive \<and> statusNext True (hsStatus s) (hsStatus s')"
proof -
  let ?C = "genConcOps (demo_parenv\<lparr>peMinorAgressive := True\<rparr>) True"
  have ag: "hAgressive ?C False" by (simp add: genConcOps_def genAgressive_def)
  have e: "hEarly ?C GCOff 0 demo_conc = Inr False"
    by (simp add: semi_run genConcOps_def genEarly_def)
  obtain d where h: "hHelp ?C False AtOff 0 demo_conc = Inr (False, d)"
    by (simp add: semi_run genConcOps_def setMajor_def GC_GenConcHelp_def areaC_def concRound_def GetHeapArea_def iRoundUp_def
        cdiv_def demo_to_def demo_sizes_def)
  let ?s = "hst GCOff (HEnter TurnOn (Helping AfterAgressive)) HMutator 0 0 demo_conc"
  have r: "hreach ?C 2 demo_conc ?s" using run_to_enter [OF e h] ag by simp
  define s' where "s' = hgoto 0 (HReady TurnOn (Helping AfterAgressive)) (?s\<lparr>hsStatus := GCPendingAgressive, hsData := hStop ?C demo_conc\<rparr>)"
  have t: "hstep ?C 2 ?s s'"
    using enter [of 0 2 ?s TurnOn "Helping AfterAgressive" ?C True GCPendingAgressive] ag
    by (simp add: s'_def enterStatus_def agr_def)
  have "hsStatus s' = GCPendingAgressive" by (simp add: s'_def)
  then show ?thesis using gen_conc_status_cycle [OF r t] r t by (intro exI [of _ ?s] exI [of _ s']) (simp add: genAgressive_def)
qed

end
