(* ===== verification/Exns.thy ===== *)
theory Exns
  imports Create
begin

text \<open>
  ML exceptions seen by the runtime: the stamps of the exceptions that the Basis library registers, the
  text of an exception (\<open>Runtime/port/portexn.c\<close>), the exceptions of the hardware traps, and the return
  of a thread to an older stacklet when an exception is raised (\<open>Runtime/sparc/exn.c\<close>).  The text is
  built in a buffer of 1024 bytes; \<open>writeBuf\<close> is an \<open>Overrun\<close> when it does not fit.
\<close>

subsection \<open>Stamps\<close>

definition BadStamp :: val where
  "BadStamp = NOT 1"

record stamps =
  subStamp :: val
  divStamp :: val
  ovflStamp :: val
  sysErrStamp :: val
  libFailStamp :: val

definition noStamps :: stamps where
  "noStamps = \<lparr>subStamp = BadStamp, divStamp = BadStamp, ovflStamp = BadStamp, sysErrStamp = BadStamp, libFailStamp = BadStamp\<rparr>"

definition get_stamp :: "memory \<Rightarrow> addr \<Rightarrow> val result" where
  "get_stamp m e = get_record m e 0"

definition get_arg :: "memory \<Rightarrow> addr \<Rightarrow> val result" where
  "get_arg m e = get_record m e 1"

definition exnNameRuntime :: "memory \<Rightarrow> addr \<Rightarrow> addr result" where
  "exnNameRuntime m e = bindE (get_record m e 2) (\<lambda>v. Inr (unat v))"

definition registerSubExnRuntime :: "memory \<Rightarrow> addr \<Rightarrow> stamps \<Rightarrow> (addr \<times> stamps) result" where
  "registerSubExnRuntime m e S = bindE (get_stamp m e) (\<lambda>v. Inr (empty_record, S\<lparr>subStamp := v\<rparr>))"

definition registerDivExnRuntime :: "memory \<Rightarrow> addr \<Rightarrow> stamps \<Rightarrow> (addr \<times> stamps) result" where
  "registerDivExnRuntime m e S = bindE (get_stamp m e) (\<lambda>v. Inr (empty_record, S\<lparr>divStamp := v\<rparr>))"

definition registerOvflExnRuntime :: "memory \<Rightarrow> addr \<Rightarrow> stamps \<Rightarrow> (addr \<times> stamps) result" where
  "registerOvflExnRuntime m e S = bindE (get_stamp m e) (\<lambda>v. Inr (empty_record, S\<lparr>ovflStamp := v\<rparr>))"

definition registerSysErrExnRuntime :: "memory \<Rightarrow> addr \<Rightarrow> stamps \<Rightarrow> (addr \<times> stamps) result" where
  "registerSysErrExnRuntime m e S = bindE (get_stamp m e) (\<lambda>v. Inr (empty_record, S\<lparr>sysErrStamp := v\<rparr>))"

definition registerLibFailExnRuntime :: "memory \<Rightarrow> addr \<Rightarrow> stamps \<Rightarrow> (addr \<times> stamps) result" where
  "registerLibFailExnRuntime m e S = bindE (get_stamp m e) (\<lambda>v. Inr (empty_record, S\<lparr>libFailStamp := v\<rparr>))"

definition getSubStamp :: "stamps \<Rightarrow> val result" where
  "getSubStamp S = (if subStamp S = BadStamp then Inl (Die ''SubStamp uninitialized'') else Inr (subStamp S))"

definition getDivStamp :: "stamps \<Rightarrow> val result" where
  "getDivStamp S = (if divStamp S = BadStamp then Inl (Die ''DivStamp uninitialized'') else Inr (divStamp S))"

definition getOvflStamp :: "stamps \<Rightarrow> val result" where
  "getOvflStamp S = (if ovflStamp S = BadStamp then Inl (Die ''OverflowStamp uninitialized'') else Inr (ovflStamp S))"

definition getSysErrStamp :: "stamps \<Rightarrow> val result" where
  "getSysErrStamp S = (if sysErrStamp S = BadStamp then Inl (Die ''SysErrStamp uninitialized'') else Inr (sysErrStamp S))"

definition getLibFailStamp :: "stamps \<Rightarrow> val result" where
  "getLibFailStamp S = (if libFailStamp S = BadStamp then Inl (Die ''libFailStamp uninitialized'') else Inr (libFailStamp S))"

subsection \<open>The text of an exception\<close>

definition ctext :: "string \<Rightarrow> byte list" where
  \<comment> \<open>the bytes of a string constant\<close>
  "ctext s = map (\<lambda>c. word_of_nat (of_char c)) s"

definition MESSAGE_SIZE :: nat where
  "MESSAGE_SIZE = 1024"

definition writeBuf :: "byte list \<Rightarrow> byte list result" where
  \<comment> \<open>\<open>strcpy\<close> or \<open>sprintf\<close> into \<open>buf\<close>\<close>
  "writeBuf bs = (if MESSAGE_SIZE < length bs + 1 then Inl (Overrun ''buf'') else Inr (bs @ [0]))"

definition precText :: "memory \<Rightarrow> addr \<Rightarrow> nat \<Rightarrow> byte list" where
  \<comment> \<open>\<open>%.*s\<close>: at most \<open>n\<close> bytes of the string at \<open>a\<close>\<close>
  "precText m a n = takeWhile ((\<noteq>) 0) (loadBytes m a n)"

fun digits :: "nat \<Rightarrow> nat \<Rightarrow> byte list" where
  \<comment> \<open>decimal digits; the number of digits is the fuel\<close>
  "digits 0 n = []"
| "digits (Suc k) n = (if n < 10 then [word_of_nat (48 + n)] else digits k (n div 10) @ [word_of_nat (48 + n mod 10)])"

definition decimal :: "val \<Rightarrow> byte list" where
  \<comment> \<open>\<open>%d\<close> of a 32-bit integer\<close>
  "decimal v = (if sint v < 0 then [45] else []) @ digits 10 (nat \<bar>sint v\<bar>)"

definition POINTER_SIZE :: nat where
  \<comment> \<open>\<open>sizeof(prefix)\<close>: the size of the pointer, not of the text\<close>
  "POINTER_SIZE = 4"

definition libFailText :: "nat \<Rightarrow> memory \<Rightarrow> addr \<Rightarrow> byte list result" where
  "libFailText fuel m e =
     bindE (get_arg m e) (\<lambda>v. let msg = unat v in
     bindE (stringlen fuel m msg) (\<lambda>msg_len.
     bindE (assertE (MESSAGE_SIZE > POINTER_SIZE + msg_len) ''sizeof(buf) > sizeof(prefix) + msg_len'') (\<lambda>_.
     writeBuf (ctext ''LibFail: '' @ precText m msg msg_len))))"

definition sysErrText :: "nat \<Rightarrow> memory \<Rightarrow> addr \<Rightarrow> byte list result" where
  "sysErrText fuel m e =
     bindE (get_arg m e) (\<lambda>v. let exnarg = unat v in
     bindE (get_record m exnarg 0) (\<lambda>v. let msg = unat v in
     bindE (stringlen fuel m msg) (\<lambda>msg_len.
     bindE (get_record m exnarg 1) (\<lambda>v. let err_option = unat v in
     bindE (if err_option = NULL then Inr []
            else bindE (get_record m err_option 0) (\<lambda>err. Inr (ctext '' (errno='' @ decimal err @ ctext '')''))) (\<lambda>err_buf.
     bindE (assertE (MESSAGE_SIZE > POINTER_SIZE + msg_len + length err_buf) ''sizeof(buf) > ...'') (\<lambda>_.
     writeBuf (ctext ''SysErr: '' @ precText m msg msg_len @ err_buf)))))))"

definition nameText :: "nat \<Rightarrow> memory \<Rightarrow> addr \<Rightarrow> byte list result" where
  "nameText fuel m e =
     bindE (exnNameRuntime m e) (\<lambda>name.
     bindE (stringlen fuel m name) (\<lambda>name_len.
     bindE (assertE (MESSAGE_SIZE > name_len) ''sizeof(buf) > name_len'') (\<lambda>_.
     writeBuf (precText m name name_len))))"

definition exnText :: "nat \<Rightarrow> stamps \<Rightarrow> memory \<Rightarrow> addr \<Rightarrow> byte list result" where
  \<comment> \<open>what \<open>exnMessageRuntime\<close> writes to \<open>buf\<close>; the stamps are looked up one after the other\<close>
  "exnText fuel S m e =
     bindE (get_stamp m e) (\<lambda>exnstamp.
     bindE (getDivStamp S) (\<lambda>d. if exnstamp = d then writeBuf (ctext ''divide by zero'') else
     bindE (getOvflStamp S) (\<lambda>d. if exnstamp = d then writeBuf (ctext ''overflow'') else
     bindE (getSubStamp S) (\<lambda>d. if exnstamp = d then writeBuf (ctext ''subscript out of bounds'') else
     bindE (getLibFailStamp S) (\<lambda>d. if exnstamp = d then libFailText fuel m e else
     bindE (getSysErrStamp S) (\<lambda>d. if exnstamp = d then sysErrText fuel m e else nameText fuel m e))))))"

definition exnMessageRuntime :: "gcFromC \<Rightarrow> config \<Rightarrow> nat \<Rightarrow> stamps \<Rightarrow> addr \<Rightarrow> ccall \<Rightarrow> (addr \<times> ccall) result" where
  "exnMessageRuntime gc cfg fuel S e s = bindE (exnText fuel S (cmem s) e) (\<lambda>buf. cstring2mlstring_alloc gc cfg buf s)"

subsection \<open>The exceptions of the hardware\<close>

definition getOverflowExn :: "val \<Rightarrow> memory \<Rightarrow> addr result" where
  \<comment> \<open>\<open>tiltExn\<close>: the global \<open>TiltExn\<close>, a module with the exceptions as fields\<close>
  "getOverflowExn tiltExn m =
     bindE (get_record m (unat tiltExn) 1) (\<lambda>exnmod. bindE (get_record m (unat exnmod) 1) (\<lambda>v. Inr (unat v)))"

definition getDivExn :: "val \<Rightarrow> memory \<Rightarrow> addr result" where
  "getDivExn tiltExn m =
     bindE (get_record m (unat tiltExn) 0) (\<lambda>exnmod. bindE (get_record m (unat exnmod) 1) (\<lambda>v. Inr (unat v)))"

subsection \<open>Back to an older stacklet\<close>

definition RestoreStackFromMutator :: "nat \<Rightarrow> sched \<Rightarrow> (val \<times> sched) result" where
  \<comment> \<open>the address where the thread goes on\<close>
  "RestoreStackFromMutator t s =
     (let th = Threads s ! t; sp = saveregs th ! SP; ra = saveregs th ! RA in
      case thStack th of None \<Rightarrow> Inl (Overrun ''NULL stack'') | Some c \<Rightarrow>
      bindE (CurrentStacklet c (stk s)) (\<lambda>old.
      bindE (EstablishStacklet c (unat sp) (stk s)) (\<lambda>(new, k).
      bindE (assertE (old \<noteq> new) ''oldStacklet != newStacklet'') (\<lambda>_.
      let s = updTh t (\<lambda>th. th\<lparr>stackLimit := StackletPrimaryBottom new k, stackTop := StackletPrimaryTop new k\<rparr>) (s\<lparr>stk := k\<rparr>) in
      bindE (Stacklet_KillReplica new (stk s)) (\<lambda>k. Inr (ra, s\<lparr>stk := k\<rparr>))))))"

subsection \<open>The message of a failed library call\<close>

lemma ctext_ne_0: "0 \<notin> set (ctext ''LibFail: '')" "length (ctext ''LibFail: '') = 9"
  by (simp_all add: ctext_def)

lemma cstring_alloc:
  \<comment> \<open>a C string without its final zero, in the ML heap\<close>
  assumes "ccThread s = Some t" "safeToGC s" "0 \<notin> set text" "length text < 2 ^ 29" "0 < fuel"
    and "room_for gc t (4 * strWords (length text) + 4 + 4 * num_segments cfg (4 * strWords (length text))) (ccSched s) sc"
  shows "\<exists>a s'. cstring2mlstring_alloc gc cfg (text @ [0]) s = Inr (a, s') \<and>
    stringlen fuel (cmem s') a = Inr (length text) \<and> loadBytes (cmem s') a (length text) = text"
proof -
  let ?n = "length text" and ?a = "threadAlloc t sc + 4 + 4 * num_segments cfg (4 * strWords (length text))"
  have tw: "takeWhile ((\<noteq>) 0) text = text" using assms(3) by (auto intro: takeWhile_eq_all_conv [THEN iffD2])
  then have n: "strlen (text @ [0]) = Inr ?n" using assms(3) by (simp add: strlen_def takeWhile_append)
  obtain s' where s': "alloc_string gc cfg ?n (text @ [0]) s = Inr (?a, s')"
    "cmem s' (threadAlloc t sc + 4 * num_segments cfg (4 * strWords ?n)) = stringTag ?n"
    "loadBytes (cmem s') ?a ?n = take ?n (text @ [0])"
    by (rule alloc_string_ok [OF assms(1,2) _ assms(6), of "text @ [0]"]) auto
  have "stringlen fuel (cmem s') ?a = Inr ?n"
    by (rule stringlen_ok [OF assms(4) _ assms(5)]) (simp add: s'(2))
  then show ?thesis using s'(1,3) n by (auto simp: cstring2mlstring_alloc_def)
qed

text \<open>C27: the text of a \<open>LibFail\<close> exception whose message has \<open>n\<close> bytes.  Up to 1014 bytes the ML string that comes
  back is the prefix and the message; from 1020 bytes on the assertion stops the program; in between the
  assertion, which adds the size of a pointer instead of the length of the prefix, holds but
  the buffer is overrun.\<close>

theorem lib_fail_message:
  assumes st: "get_stamp (cmem s) e = Inr (libFailStamp S)" "libFailStamp S \<notin> {divStamp S, ovflStamp S, subStamp S}"
      "BadStamp \<notin> {divStamp S, ovflStamp S, subStamp S, libFailStamp S}"
    and msg: "get_arg (cmem s) e = Inr v" "stringlen fuel (cmem s) (unat v) = Inr n"
      "msg = loadBytes (cmem s) (unat v) n" "0 \<notin> set msg"
    and room: "ccThread s = Some t" "safeToGC s" "0 < fuel"
      "room_for gc t (4 * strWords (9 + n) + 4 + 4 * num_segments cfg (4 * strWords (9 + n))) (ccSched s) sc"
  shows "(n \<le> 1014 \<longrightarrow> (\<exists>a s'. exnMessageRuntime gc cfg fuel S e s = Inr (a, s') \<and>
        stringlen fuel (cmem s') a = Inr (9 + n) \<and> loadBytes (cmem s') a (9 + n) = ctext ''LibFail: '' @ msg)) \<and>
    (1015 \<le> n \<longrightarrow> n \<le> 1019 \<longrightarrow> exnMessageRuntime gc cfg fuel S e s = Inl (Overrun ''buf'')) \<and>
    (1020 \<le> n \<longrightarrow> exnMessageRuntime gc cfg fuel S e s = Inl (AssertFail ''sizeof(buf) > sizeof(prefix) + msg_len''))"
proof -
  have len: "length msg = n" by (simp add: msg(3) loadBytes_def)
  have p: "precText (cmem s) (unat v) n = msg"
    using msg(4) unfolding precText_def msg(3) [symmetric] by (auto intro: takeWhile_eq_all_conv [THEN iffD2])
  have stamps: "divStamp S \<noteq> BadStamp" "ovflStamp S \<noteq> BadStamp" "subStamp S \<noteq> BadStamp" "libFailStamp S \<noteq> BadStamp"
    using st(3) by auto
  have run: "exnText fuel S (cmem s) e =
      bindE (assertE (1020 > n) ''sizeof(buf) > sizeof(prefix) + msg_len'') (\<lambda>_. writeBuf (ctext ''LibFail: '' @ msg))"
    using st(1,2) stamps msg(1,2) p by (simp add: exnText_def getDivStamp_def getOvflStamp_def getSubStamp_def getLibFailStamp_def
        libFailText_def MESSAGE_SIZE_def POINTER_SIZE_def Let_def)
  have w: "writeBuf (ctext ''LibFail: '' @ msg) = (if n \<le> 1014 then Inr ((ctext ''LibFail: '' @ msg) @ [0]) else Inl (Overrun ''buf''))"
    using len ctext_ne_0 by (simp add: writeBuf_def MESSAGE_SIZE_def)
  have "length (ctext ''LibFail: '' @ msg) = 9 + n" "0 \<notin> set (ctext ''LibFail: '' @ msg)" using len ctext_ne_0 msg(4) by simp_all
  then have "n \<le> 1014 \<Longrightarrow> \<exists>a s'. exnMessageRuntime gc cfg fuel S e s = Inr (a, s') \<and>
      stringlen fuel (cmem s') a = Inr (9 + n) \<and> loadBytes (cmem s') a (9 + n) = ctext ''LibFail: '' @ msg"
    using cstring_alloc [OF room(1,2) _ _ room(3), of "ctext ''LibFail: '' @ msg" gc cfg sc] room(4)
    by (simp add: exnMessageRuntime_def run w)
  then show ?thesis by (auto simp: exnMessageRuntime_def run w assertE_def)
qed

definition demo_stamps :: stamps where
  "demo_stamps = \<lparr>subStamp = 1, divStamp = 2, ovflStamp = 3, sysErrStamp = 4, libFailStamp = 5\<rparr>"

definition demo_exn :: memory where
  \<comment> \<open>the exception \<open>LibFail "hi"\<close> at 9000, its string at 9100\<close>
  "demo_exn = (\<lambda>_. 0)(8996 := MAKE_REC 3 0, 9000 := 5, 9004 := 9100, 9096 := stringTag 2, 9100 := 0x68690000)"

theorem lib_fail_message_witness:
  "\<exists>a s'. exnMessageRuntime (\<lambda>_ _ _ sc. Inr sc) demo_config 1 demo_stamps 9000 (setMem demo_exn demo_ccall) = Inr (a, s') \<and>
     loadBytes (cmem s') a 11 = ctext ''LibFail: hi''"
proof -
  let ?s = "setMem demo_exn demo_ccall" and ?gc = "\<lambda>_ _ _ sc. Inr sc"
  have tag: "GET_TYPE (MAKE_REC 3 0) = RECORD_TYPE" "unat (GET_RECLEN (MAKE_REC 3 0)) = 3"
    using rec_tag_roundtrip [of 3 0] by (simp_all add: tag_consts)
  have st: "get_stamp (cmem ?s) 9000 = Inr 5" "get_arg (cmem ?s) 9000 = Inr 9100"
    using tag by (simp_all add: get_stamp_def get_arg_def get_record_def demo_exn_def assertE_def)
  have len: "stringlen 1 (cmem ?s) 9100 = Inr 2" by (rule stringlen_ok) (simp_all add: demo_exn_def)
  have msg: "loadBytes (cmem ?s) 9100 2 = [104, 105]" 
    by (simp add: loadBytes_def loadByte_def byteShift_def demo_exn_def upt_conv_Cons)
  have room: "room_for ?gc 0 (4 * strWords (9 + 2) + 4 + 4 * num_segments demo_config (4 * strWords (9 + 2))) (ccSched ?s) (ccSched ?s)"
    by (simp add: room_for_def setMem_def threadAlloc_def threadLimit_def demo_ccall_def ALLOCPTR_def ALLOCLIMIT_def
        strWords_def num_segments_def demo_config_def)
  have c: "ccThread ?s = Some 0" "safeToGC ?s" by (simp_all add: setMem_def demo_ccall_sel)
  have t: "ctext ''LibFail: '' @ [104, 105] = ctext ''LibFail: hi''" by code_simp
  show ?thesis
    using lib_fail_message [of ?s 9000 demo_stamps 9100 1 2 "[104, 105]" 0 ?gc demo_config "ccSched ?s"] st len msg room c t
    by (auto simp: demo_stamps_def BadStamp_def)
qed

end
