(* ===== verification/Spec2Isabelle.thy ===== *)
theory Spec2Isabelle
  imports Rooms HashTab LargeSpace Stacklets Barriers RootScan Scheduler HeapCheck GenConc Exns
begin

text \<open>
  \<^bold>\<open>The runtime of the TILT compiler.\<close>  TILT compiles Standard ML to SPARC code that runs on a runtime
  written in C (\<open>src/Runtime/sparc\<close>, with the operating system calls in \<open>src/Runtime/port\<close>).  The
  runtime multiplexes user threads over system threads (processors), gives each thread a stack of
  linked stacklets, and collects garbage with one of six copying collectors: semispace and
  generational, each uniprocessor, parallel and concurrent.  This library models the C code and proves
  what makes it correct; the compiler, which is written in ML, enters only with the encoding of the
  tables it hands to the runtime.

  \<^bold>\<open>How the parts work together.\<close>  A thread allocates from an area of its processor by moving a cursor; when
  the area is full it calls the scheduler (\<open>thread.c\<close>), which calls the collector.  The collector finds the
  roots of every thread by walking its stacklets with the tables of the compiler (\<open>stack.c\<close>), forwards
  each root (\<open>gcinline.h\<close>, \<open>forward.c\<close>) by copying the object it points to into the other heap
  (\<open>memobj.c\<close>) or by marking it in the bitmap of the large space (\<open>gc_large.c\<close>, \<open>bitmap.c\<close>), and scans
  the copies until no work is left in the work lists (\<open>queue.c\<close>).  The processors of a parallel collection
  share work through a stack (\<open>gc_para.c\<close>) entered through rooms (\<open>rooms.c\<close>) and separate their phases
  by barriers (\<open>barriers.c\<close>).  After a collection the heaps are swapped and resized (\<open>gc.c\<close>).

  \<^bold>\<open>Conventions.\<close>  A machine word is a \<open>32 word\<close> (\<open>val\<close>, \<open>addr\<close>); C ints whose overflow the code relies on
  or is exposed to are words too, byte counts that the code keeps below the address space are \<open>nat\<close> or
  \<open>int\<close>.  A C computation that can stop abnormally returns a value of the sum type \<open>fault + 'a\<close>:
  \<open>AssertFail\<close> is a failing \<open>assert\<close>, \<open>Die\<close> a call of \<open>DIE\<close> or \<open>abort\<close>, \<open>Overrun\<close> an access outside the
  array the code owns, \<open>Spin\<close> a busy wait that nobody ends.  \<open>bindE\<close> sequences such computations.
  Memory is a total function from word indices to words; a C structure is a record; an array is a list.
  Loops whose end depends on data carry fuel, and each such theorem states the fuel that is enough.
  Double arithmetic is real arithmetic followed by a rounding function that is an argument.

  \<^bold>\<open>The theories,\<close> from the bottom up.
  \<^item> \<open>Tilt_Prelude\<close>: types, faults and their monad, \<open>DivideUp\<close>, \<open>RoundUp\<close>, address arithmetic.
  \<^item> \<open>Tags\<close> (\<open>sparc.h\<close>): the layout of a tag word for each kind of object, and that the constructing and
    the extracting macros are inverse.
  \<^item> \<open>Bitmaps\<close> (\<open>bitmap.c\<close>): \<open>CreateBitmap\<close>, \<open>AllocBitmapRange\<close>, \<open>SetBitmapRange\<close>, \<open>ClearBitmap\<close>; an allocated
    range was free, is marked afterwards and is disjoint from every other one.
  \<^item> \<open>HashTab\<close> (\<open>hash.c\<close>): a table with double hashing refines a finite map; the probe sequence visits every
    slot because the step is odd.  \<open>lookupLoop\<close> has the number of slots as fuel.
  \<^item> \<open>Sets\<close> (\<open>queue.c\<close>, inline functions of \<open>sparc.h\<close>): growable arrays used as stack and queue refine lists.
    The locale \<open>worklist\<close> is the contract the collectors use.
  \<^item> \<open>Rooms\<close> (\<open>rooms.c\<close>): every access to the shared counters is a step of \<open>rstep\<close>; processors in two
    different rooms never coexist, no assertion fails, and whoever waits for a room is eventually let in.
  \<^item> \<open>Barriers\<close> (\<open>barriers.c\<close>): the counters are reused in turn; a processor that has passed a strong barrier
    is never more than one phase ahead of another.
  \<^item> \<open>HeapObj\<close> (\<open>memobj.c\<close>): heaps, their resizing, allocation areas and page marks.
  \<^item> \<open>GcState\<close>, \<open>Forward\<close>, \<open>Scan\<close> (\<open>gc.c\<close>, \<open>thread.c\<close>, \<open>forward.c\<close>, \<open>gcinline.h\<close>): settings and counters; copying
    or reserving a replica; the generic location and object scanners with the wrappers of all collectors.
  \<^item> \<open>LargeSpace\<close> (\<open>gc_large.c\<close>): allocation, marking and sweeping of large objects.
  \<^item> \<open>Cheney\<close>, \<open>Collect\<close>, \<open>Generational\<close> (\<open>gc_semi.c\<close>, \<open>gc_gen.c\<close>): the copy phases.  The abstract specification
    is \<open>relocated\<close>: there is an injective renaming of the reachable objects into to-space under which every
    root, tag, data word and pointer field of the result is the image of the original; \<open>tiled\<close> says that the area
    used consists of those copies and of skip words.  The invariant \<open>cinv\<close> of the scan is
    tri-colour: objects behind the scan pointer are final, those before it are plain copies.
  \<^item> \<open>HeapSize\<close>, \<open>Doubles\<close> (\<open>gc.c\<close>): reserve, ratio and new size of the heap.
  \<^item> \<open>Collector\<close> (\<open>gc_semi.c\<close>, \<open>gc_gen.c\<close>): the drivers \<open>GCCollect_Semi\<close>, \<open>GC_Semi\<close>, \<open>GCCollect_Gen\<close>, \<open>GC_Gen\<close>, which scan the roots of all
    threads, copy, swap the heaps, resize them and hand out a new allocation area.
  \<^item> \<open>HeapCheck\<close> (\<open>show.c\<close>, \<open>gc.c\<close>): the heap checker of the runtime; it reports no error exactly when each field of the
    area is legal, and it reports none after a copy phase.
  \<^item> \<open>Stacklets\<close> (\<open>memobj.c\<close>): reference counts of stacklets equal the number of chains that hold them.
  \<^item> \<open>Callinfo\<close>, \<open>StackScan\<close>, \<open>RootScan\<close> (\<open>stack.c\<close>): the tables of the compiler with their cursor caches, the two
    passes over a stacklet, the scans of a whole thread and the global roots.  The reference definition
    \<open>refFrames\<close> walks frames outermost first and decides each slot by itself; the scanners with their caches, byte
    skipping and one-pass loops are proved equal to it.  \<open>src/Backend/tracetable.sml\<close> provides the encoding of paths.
  \<^item> \<open>Jobs\<close>, \<open>SchedView\<close>, \<open>Scheduler\<close> (\<open>thread.c\<close>): jobs, threads, mapping, and the interleaving of all processors as the
    relation \<open>sstep\<close>; a thread runs on one processor at a time, statuses count children, and no assertion of
    the scheduler fails.
  \<^item> \<open>SharedStack\<close> (\<open>gc_para.c\<close>): work moves between processors without loss or duplication also when the room
    interleaves fetches, and the collector is told that work is exhausted only when it is.
  \<^item> \<open>Create\<close>, \<open>BigArray\<close> (\<open>create.c\<close>, \<open>portcreate.c\<close>, \<open>AllocBigArray_*\<close>): values and large arrays allocated by C code.

  \<^item> \<open>Exns\<close> (\<open>portexn.c\<close>, \<open>exn.c\<close>): the stamps and the text of ML exceptions; the exact sizes of messages for which the buffer
    of the text is enough, overrun, or guarded.
  \<^item> \<open>ParWork\<close>, \<open>ParCollect\<close> (\<open>gc_semi_para.c\<close>, \<open>gc_gen_para.c\<close>): the state of a collection by several processors, and
    the two parallel collectors as the pieces between their barriers.
  \<^item> \<open>CollectorStatus\<close> (\<open>gc_semi_conc.c\<close>, \<open>gc_gen_conc.c\<close>): the handshake of the concurrent collectors.  Each access to
    \<open>GCStatus\<close> and each barrier is a step of \<open>hstep\<close>; the locale \<open>concurrent_collector\<close> proves the
    invariant \<open>flipInv\<close> for any collector that divides its routines into at least three pieces, and from it
    that a routine runs while no ML code does, that the status moves along its cycle and that no signal is missed.
  \<^item> \<open>SemiConc\<close>, \<open>GenConc\<close>: the pieces of the two concurrent collectors with their write barriers, the
    interpretations of the locale on them, and the redirection of the roots at the end of a collection.

  \<^bold>\<open>Bounds.\<close>  Fuel is never a hypothesis about the code: the loops that have it (hash probes, the scan of
  to-space, the drain of the work lists, the frames of a stacklet, the room scan) are given a bound derived from the
  state -- the number of slots, of words left in to-space, of words between the stack pointers, of rooms -- and the theorems
  show that the result is reached within it.  Two loops can run forever, and the theorems say when:
  \<open>expandsize\<close> (\<open>create.c\<close>) and a hash lookup in a full table.

  \<^bold>\<open>Not modelled.\<close>  Statistics, timers, signals and diagnostics (\<open>stats.c\<close>, \<open>gcstat.c\<close>, \<open>signal.c\<close>, printing in every file) do not
  influence the data the collectors work on; with a target utilization below one the amount of work of a call depends on
  measured times and is arbitrary in the model.  Process start (\<open>main.c\<close>, \<open>commandline.c\<close>, \<open>platform.c\<close>,
  \<open>firstdata.c\<close>, \<open>fork.c\<close>, \<open>malloc.c\<close>, \<open>fc.c\<close>) and the rest of \<open>src/Runtime/port\<close> are thin calls of the operating system.
  The start of a collector (\<open>GCInit_*\<close>) only sets options, which are arguments of the model.
  The runtime for \<open>talx86\<close> has no collector of its own.  The pieces of the parallel and concurrent collectors between two
  barriers are atomic in the model; that the copies of several processors may overlap there is modelled
  for the work stack (\<open>SharedStack\<close>) but not for the synchronization of two processors that copy one object.
\<close>

end
